(* ===== verification/Pf_Prelude.thy ===== *)
theory Pf_Prelude
  imports Main "HOL-Library.Word" "HOL-Library.AList"
begin

text \<open>
  Shared vocabulary of the development: the machine integer types, the error
  numbers the C++ code returns, the ways in which a call of the code can end the
  process instead of returning, sequencing of such calls, and the generic list
  and association-list lemmas that the component theories rely on.
\<close>

unbundle bit_operations_syntax

section \<open>Machine integers\<close>

type_synonym u8 = "8 word"
type_synonym u16 = "16 word"
type_synonym u32 = "32 word"
type_synonym u64 = "64 word"

section \<open>Error numbers\<close>

text \<open>
  The values of the Linux headers. A C function returns \<open>-ENOSPC\<close>, so return
  codes are integers and success is 0.
\<close>

abbreviation (input) ENOENT :: int where "ENOENT \<equiv> 2"
abbreviation (input) EIO :: int where "EIO \<equiv> 5"
abbreviation (input) EAGAIN :: int where "EAGAIN \<equiv> 11"
abbreviation (input) ENOMEM :: int where "ENOMEM \<equiv> 12"
abbreviation (input) EBUSY :: int where "EBUSY \<equiv> 16"
abbreviation (input) EEXIST :: int where "EEXIST \<equiv> 17"
abbreviation (input) EINVAL :: int where "EINVAL \<equiv> 22"
abbreviation (input) ENOSPC :: int where "ENOSPC \<equiv> 28"
abbreviation (input) EALREADY :: int where "EALREADY \<equiv> 114"
abbreviation (input) ESTALE :: int where "ESTALE \<equiv> 116"
abbreviation (input) EUCLEAN :: int where "EUCLEAN \<equiv> 117"

section \<open>Ends of the process\<close>

text \<open>
  A call that does not return: \<open>S5LOG_FATAL\<close> calls \<open>exit\<close>, a failed \<open>assert\<close>
  aborts, a NULL pointer is dereferenced, an array is indexed outside its
  bounds, or an exception that nothing catches is thrown. A computation is a
  value of \<open>fault + 'a\<close>: \<open>Inl\<close> one of these ends, \<open>Inr\<close> the returned value.
\<close>

datatype fault =
    Fatal_exit
  | Assert_failed
  | Null_deref
  | Out_of_bounds
  | Logic_error
  | Runtime_error

definition bnd :: "fault + 'a \<Rightarrow> ('a \<Rightarrow> fault + 'b) \<Rightarrow> fault + 'b" where
  "bnd m f = (case m of Inl e \<Rightarrow> Inl e | Inr x \<Rightarrow> f x)"

definition assert_that :: "bool \<Rightarrow> fault + unit" where
  "assert_that b = (if b then Inr () else Inl Assert_failed)"

lemma bnd_simps [simp]:
  "bnd (Inl e) f = Inl e"
  "bnd (Inr x) f = f x"
  by (simp_all add: bnd_def)

lemma bnd_eq_Inr:
  "bnd m f = Inr y \<longleftrightarrow> (\<exists>x. m = Inr x \<and> f x = Inr y)"
  by (cases m) auto

lemma bnd_eq_Inl:
  "bnd m f = Inl e \<longleftrightarrow> m = Inl e \<or> (\<exists>x. m = Inr x \<and> f x = Inl e)"
  by (cases m) auto

lemma bnd_InrE [elim!]:
  assumes "bnd m f = Inr y"
  obtains x where "m = Inr x" and "f x = Inr y"
  using assms by (auto simp: bnd_eq_Inr)

lemma bnd_ignore_rc:
  "bnd m (\<lambda>(rc, x). Inr (0, x)) = Inr (rc', y) \<longleftrightarrow> rc' = (0 :: int) \<and> (\<exists>rc. m = Inr (rc :: int, y))"
  by (cases m) auto

lemma assert_that_eq_Inr [simp]: "assert_that b = Inr u \<longleftrightarrow> b"
  by (simp add: assert_that_def)

text \<open>
  A computation with a loop that may not end has the type \<open>(fault + 'a) option\<close>, where
  \<open>None\<close> stands for not returning.
\<close>

definition obnd :: "(fault + 'a) option \<Rightarrow> ('a \<Rightarrow> (fault + 'b) option) \<Rightarrow> (fault + 'b) option" where
  "obnd m f = (case m of None \<Rightarrow> None | Some (Inl e) \<Rightarrow> Some (Inl e) | Some (Inr x) \<Rightarrow> f x)"

lemma obnd_simps [simp]:
  "obnd None f = None"
  "obnd (Some (Inl e)) f = Some (Inl e)"
  "obnd (Some (Inr x)) f = f x"
  by (simp_all add: obnd_def)

section \<open>Collections of rewrite rules\<close>

named_theorems queue_simps \<open>the ring buffer seen as a list\<close>
named_theorems store_defs \<open>definitions of the flash store operations\<close>

section \<open>Lists\<close>

lemma nth_update_cases:
  "i < length xs \<Longrightarrow> xs[i := v] ! j = (if i = j then v else xs ! j)"
  by simp

lemma find_filter_hd:
  "find P xs = (case filter P xs of [] \<Rightarrow> None | x # _ \<Rightarrow> Some x)"
  by (induction xs) auto

lemma filter_eq_self: "(\<And>x. x \<in> set xs \<Longrightarrow> P x) \<Longrightarrow> filter P xs = xs"
  by (rule filter_True) simp

lemma dropWhile_eq_find:
  "find P xs = (case dropWhile (\<lambda>x. \<not> P x) xs of [] \<Rightarrow> None | x # _ \<Rightarrow> Some x)"
  by (induction xs) auto

lemma sorted_wrt_filter: "sorted_wrt R xs \<Longrightarrow> sorted_wrt R (filter P xs)"
  by (induction xs) auto

lemma map_if_other: "f t \<notin> f ` set c \<Longrightarrow> map (\<lambda>e. if f e = f t then g e else e) c = c"
  by (induction c) auto

lemma filter_other: "f t \<notin> f ` set c \<Longrightarrow> filter (\<lambda>x. f x \<noteq> f t) c = c"
  by (induction c) auto

section \<open>Association lists\<close>

text \<open>
  \<open>std::unordered_map\<close> is an association list with distinct keys; the order of
  the list is the unspecified iteration order of the container.
\<close>

lemma distinct_keys_update:
  "distinct (map fst al) \<Longrightarrow> distinct (map fst (AList.update k v al))"
  by (rule AList.distinct_update)

lemma distinct_keys_delete:
  "distinct (map fst al) \<Longrightarrow> distinct (map fst (AList.delete k al))"
  by (rule AList.distinct_delete)

lemma map_of_delete [simp]:
  "map_of (AList.delete k al) = (map_of al)(k := None)"
  by (rule AList.delete_conv')

lemma map_of_alupdate [simp]:
  "map_of (AList.update k v al) = (map_of al)(k \<mapsto> v)"
  by (rule AList.update_conv')

end
