(* ===== verification/Fixed_Queue.thy ===== *)
theory Fixed_Queue
  imports Pf_Prelude
begin

text \<open>
  \<open>PfFixedSizeQueue\<close> of \<open>common/include/pf_fixed_size_queue.h\<close>: a ring buffer of
  \<open>queue_depth\<close> slots that holds at most \<open>queue_depth - 1\<close> elements. The
  \<open>lock\<close> field is left out: every operation is one critical section, so the
  model's operations are atomic. The theory shows that the ring buffer is a
  bounded FIFO queue (the locale \<open>bounded_queue\<close>, interpreted as \<open>fsq\<close>).
\<close>

section \<open>The ring buffer\<close>

record 'a fixed_queue =
  q_tail :: int
  q_head :: int
  q_depth :: int
  q_data :: "'a list"

definition QUEUE_SPACE :: "int \<Rightarrow> int \<Rightarrow> int \<Rightarrow> int" where
  "QUEUE_SPACE sz h t = (if h \<le> t then sz - t + h - 1 else h - t - 1)"

definition QUEUE_COUNT :: "int \<Rightarrow> int \<Rightarrow> int \<Rightarrow> int" where
  "QUEUE_COUNT sz h t = (if h \<le> t then t - h else sz + t - h)"

text \<open>
  \<open>init\<close> takes the queue depth requested by the caller, the zero value that
  \<open>calloc\<close> fills the array with, and whether \<open>calloc\<close> returned memory.
\<close>

definition q_init :: "bool \<Rightarrow> 'a \<Rightarrow> int \<Rightarrow> 'a fixed_queue \<Rightarrow> int \<times> 'a fixed_queue" where
  "q_init calloc_ok zero depth q =
     (let q' = q\<lparr>q_head := 0, q_tail := 0, q_depth := depth + 1\<rparr>
      in if calloc_ok then (0, q'\<lparr>q_data := replicate (nat (depth + 1)) zero\<rparr>)
         else (- ENOMEM, q'\<lparr>q_data := []\<rparr>))"

definition q_destroy :: "'a fixed_queue \<Rightarrow> 'a fixed_queue" where
  "q_destroy q = q\<lparr>q_depth := 0, q_tail := 0, q_head := 0, q_data := []\<rparr>"

definition q_is_empty :: "'a fixed_queue \<Rightarrow> bool" where
  "q_is_empty q \<longleftrightarrow> q_tail q = q_head q"

definition q_space :: "'a fixed_queue \<Rightarrow> int" where
  "q_space q = QUEUE_SPACE (q_depth q) (q_head q) (q_tail q)"

definition q_is_full :: "'a fixed_queue \<Rightarrow> bool" where
  "q_is_full q \<longleftrightarrow> QUEUE_SPACE (q_depth q) (q_head q) (q_tail q) = 0"

definition q_count :: "'a fixed_queue \<Rightarrow> int" where
  "q_count q = QUEUE_COUNT (q_depth q) (q_head q) (q_tail q)"

definition enqueue_nolock :: "'a fixed_queue \<Rightarrow> 'a \<Rightarrow> int \<times> 'a fixed_queue" where
  "enqueue_nolock q element =
     (if q_is_full q then (- EAGAIN, q)
      else (0, q\<lparr>q_data := (q_data q)[nat (q_tail q) := element],
                 q_tail := (q_tail q + 1) mod q_depth q\<rparr>))"

definition enqueue :: "'a fixed_queue \<Rightarrow> 'a \<Rightarrow> int \<times> 'a fixed_queue" where
  "enqueue q element =
     (if q_is_full q then (- EAGAIN, q)
      else (0, q\<lparr>q_data := (q_data q)[nat (q_tail q) := element],
                 q_tail := (q_tail q + 1) mod q_depth q\<rparr>))"

definition dequeue_nolock :: "'a fixed_queue \<Rightarrow> fault + 'a \<times> 'a fixed_queue" where
  "dequeue_nolock q =
     (if q_is_empty q then Inl Logic_error
      else Inr (q_data q ! nat (q_head q),
                q\<lparr>q_head := (q_head q + 1) mod q_depth q\<rparr>))"

definition dequeue :: "'a fixed_queue \<Rightarrow> fault + 'a \<times> 'a fixed_queue" where
  "dequeue q = dequeue_nolock q"

section \<open>Well-formedness and the queue as a list\<close>

definition q_inv :: "'a fixed_queue \<Rightarrow> bool" where
  "q_inv q \<longleftrightarrow> 0 < q_depth q \<and> 0 \<le> q_head q \<and> q_head q < q_depth q \<and>
     0 \<le> q_tail q \<and> q_tail q < q_depth q \<and> length (q_data q) = nat (q_depth q)"

definition q_slot :: "'a fixed_queue \<Rightarrow> nat \<Rightarrow> nat" where
  "q_slot q i = nat ((q_head q + int i) mod q_depth q)"

definition q_list :: "'a fixed_queue \<Rightarrow> 'a list" where
  "q_list q = map (\<lambda>i. q_data q ! q_slot q i) [0..<nat (q_count q)]"

definition q_cap :: "'a fixed_queue \<Rightarrow> nat" where
  "q_cap q = nat (q_depth q - 1)"

lemma q_count_bounds:
  "q_inv q \<Longrightarrow> 0 \<le> q_count q \<and> q_count q < q_depth q"
  by (auto simp: q_inv_def q_count_def QUEUE_COUNT_def)

lemma length_q_list [queue_simps]: "length (q_list q) = nat (q_count q)"
  by (simp add: q_list_def)

lemma q_space_count: "q_space q = q_depth q - 1 - q_count q"
  by (simp add: q_space_def q_count_def QUEUE_SPACE_def QUEUE_COUNT_def)

lemma q_is_full_iff: "q_inv q \<Longrightarrow> q_is_full q \<longleftrightarrow> length (q_list q) = q_cap q"
  using q_count_bounds [of q] q_space_count [of q]
  by (auto simp: q_is_full_def q_space_def q_cap_def length_q_list q_inv_def)

lemma q_is_empty_iff: "q_inv q \<Longrightarrow> q_is_empty q \<longleftrightarrow> q_list q = []"
  by (auto simp: q_is_empty_def q_list_def q_count_def QUEUE_COUNT_def q_inv_def
      split: if_splits)

lemma q_slot_less: "q_inv q \<Longrightarrow> q_slot q i < length (q_data q)"
  by (auto simp: q_slot_def q_inv_def)

lemma q_slot_inj:
  assumes "q_inv q" and "q_slot q i = q_slot q j"
    and "int i < q_depth q" and "int j < q_depth q"
  shows "i = j"
proof -
  have "(q_head q + int i) mod q_depth q = (q_head q + int j) mod q_depth q"
    using assms(1,2) by (simp add: q_slot_def q_inv_def nat_eq_iff2)
  then have "int i mod q_depth q = int j mod q_depth q"
    by (simp add: mod_add_cong mod_eq_dvd_iff)
  then show ?thesis using assms(3,4) by simp
qed

lemma q_tail_slot:
  assumes "q_inv q"
  shows "nat (q_tail q) = q_slot q (nat (q_count q))"
proof -
  have "q_head q + q_count q = (if q_head q \<le> q_tail q then q_tail q else q_depth q + q_tail q)"
    by (simp add: q_count_def QUEUE_COUNT_def)
  then have "(q_head q + q_count q) mod q_depth q = q_tail q"
    using assms by (auto simp: q_inv_def)
  then show ?thesis using assms q_count_bounds [OF assms] by (simp add: q_slot_def)
qed

section \<open>Enqueue and dequeue on the list view\<close>

lemma enqueue_eq_nolock: "enqueue = enqueue_nolock"
  by (intro ext) (simp add: enqueue_def enqueue_nolock_def)

lemma q_count_advance:
  assumes "q_inv q" and "\<not> q_is_full q"
  shows "q_count (q\<lparr>q_data := d, q_tail := (q_tail q + 1) mod q_depth q\<rparr>) = q_count q + 1"
proof (cases "q_tail q + 1 = q_depth q")
  case True
  then show ?thesis using assms
    by (auto simp: q_inv_def q_count_def QUEUE_COUNT_def q_is_full_def QUEUE_SPACE_def)
next
  case False
  then have "(q_tail q + 1) mod q_depth q = q_tail q + 1"
    using assms(1) by (simp add: q_inv_def)
  then show ?thesis using assms False
    by (auto simp: q_inv_def q_count_def QUEUE_COUNT_def q_is_full_def QUEUE_SPACE_def)
qed

lemma enqueue_ok:
  assumes inv: "q_inv q" and room: "length (q_list q) < q_cap q"
  obtains q' where "enqueue q x = (0, q')" and "q_inv q'"
    and "q_list q' = q_list q @ [x]" and "q_depth q' = q_depth q"
proof -
  let ?n = "nat (q_count q)"
  let ?q' = "q\<lparr>q_data := (q_data q)[nat (q_tail q) := x],
    q_tail := (q_tail q + 1) mod q_depth q\<rparr>"
  have nf: "\<not> q_is_full q" using room q_is_full_iff [OF inv] by simp
  have cnt: "q_count ?q' = q_count q + 1" using inv nf by (rule q_count_advance)
  have slot: "q_slot ?q' i = q_slot q i" for i by (simp add: q_slot_def)
  have less: "int ?n < q_depth q" using q_count_bounds [OF inv] by simp
  have old: "q_data ?q' ! q_slot q i = q_data q ! q_slot q i" if "i < ?n" for i
  proof -
    have "q_slot q i \<noteq> nat (q_tail q)"
      using q_slot_inj [OF inv, of i ?n] that less by (auto simp: q_tail_slot [OF inv])
    then show ?thesis by simp
  qed
  have new: "q_data ?q' ! q_slot q ?n = x"
    using q_slot_less [OF inv, of ?n] by (simp add: q_tail_slot [OF inv])
  have upto: "[0..<nat (q_count q + 1)] = [0..<?n] @ [?n]"
    using q_count_bounds [OF inv] by (simp add: nat_add_distrib)
  have "q_list ?q' = map (\<lambda>i. q_data ?q' ! q_slot q i) [0..<nat (q_count q + 1)]"
    unfolding q_list_def cnt slot ..
  also have "\<dots> = map (\<lambda>i. q_data ?q' ! q_slot q i) [0..<?n] @ [q_data ?q' ! q_slot q ?n]"
    unfolding upto map_append by simp
  also have "map (\<lambda>i. q_data ?q' ! q_slot q i) [0..<?n] = q_list q"
    unfolding q_list_def by (rule map_cong [OF refl]) (use old in simp)
  finally have "q_list ?q' = q_list q @ [x]" using new by simp
  moreover have "q_inv ?q'" using inv by (auto simp: q_inv_def)
  ultimately show ?thesis using that [of ?q'] nf by (simp add: enqueue_def)
qed

lemma enqueue_full:
  "q_inv q \<Longrightarrow> length (q_list q) = q_cap q \<Longrightarrow> enqueue q x = (- EAGAIN, q)"
  by (simp add: enqueue_def q_is_full_iff)

lemma dequeue_ok:
  assumes inv: "q_inv q" and ne: "q_list q = x # xs"
  obtains q' where "dequeue q = Inr (x, q')" and "q_inv q'"
    and "q_list q' = xs" and "q_depth q' = q_depth q" and "q_data q' = q_data q"
    and "q_tail q' = q_tail q"
proof -
  let ?q' = "q\<lparr>q_head := (q_head q + 1) mod q_depth q\<rparr>"
  have nempty: "\<not> q_is_empty q" using ne q_is_empty_iff [OF inv] by simp
  obtain n where n: "nat (q_count q) = Suc n"
    using ne length_q_list [of q] by (cases "nat (q_count q)") auto
  have cnt: "nat (q_count ?q') = n"
  proof (cases "q_head q + 1 = q_depth q")
    case True
    then show ?thesis using inv n nempty
      by (auto simp: q_inv_def q_count_def QUEUE_COUNT_def q_is_empty_def split: if_splits)
  next
    case False
    then have "(q_head q + 1) mod q_depth q = q_head q + 1"
      using inv by (simp add: q_inv_def)
    then show ?thesis using inv n nempty False
      by (auto simp: q_inv_def q_count_def QUEUE_COUNT_def q_is_empty_def split: if_splits)
  qed
  have slot: "q_slot ?q' i = q_slot q (Suc i)" for i
    by (simp add: q_slot_def mod_add_left_eq add.assoc)
  have "q_list ?q' = map (\<lambda>i. q_data q ! q_slot q (Suc i)) [0..<n]"
    by (simp add: q_list_def cnt slot)
  also have "\<dots> = map (\<lambda>i. q_data q ! q_slot q i) [Suc 0..<Suc n]"
    by (simp add: map_Suc_upt [symmetric] comp_def del: map_Suc_upt upt_Suc)
  finally have tl: "q_list ?q' = map (\<lambda>i. q_data q ! q_slot q i) [Suc 0..<Suc n]" .
  have split: "q_list q = q_data q ! q_slot q 0 # map (\<lambda>i. q_data q ! q_slot q i) [Suc 0..<Suc n]"
    unfolding q_list_def n by (subst upt_conv_Cons) simp_all
  have hd: "q_slot q 0 = nat (q_head q)" using inv by (simp add: q_slot_def q_inv_def)
  have "q_inv ?q'" using inv by (auto simp: q_inv_def)
  then show ?thesis
    using that [of ?q'] nempty ne split tl hd
    by (simp add: dequeue_def dequeue_nolock_def)
qed

lemma dequeue_empty: "q_inv q \<Longrightarrow> q_list q = [] \<Longrightarrow> dequeue q = Inl Logic_error"
  by (simp add: dequeue_def dequeue_nolock_def q_is_empty_iff)

lemma q_init_ok:
  assumes "0 \<le> depth" and "q_init True z depth q = (rc, q')"
  shows "rc = 0 \<and> q_inv q' \<and> q_list q' = [] \<and> q_cap q' = nat depth \<and> q_depth q' = depth + 1"
  using assms
  by (auto simp: q_init_def Let_def q_inv_def q_list_def q_count_def QUEUE_COUNT_def q_cap_def)

section \<open>The interface: a bounded FIFO queue\<close>

text \<open>
  What the clients of the queue (the object queues of the flash store, the memory
  pools, the event queues) rely on. \<open>lst\<close> is the content, oldest element first,
  and \<open>cap\<close> the largest number of elements. \<open>enq_all\<close> and \<open>deq_many\<close> are the
  clients' loops over such a queue.
\<close>

primrec enq_all :: "('q \<Rightarrow> 'a \<Rightarrow> int \<times> 'q) \<Rightarrow> 'a list \<Rightarrow> 'q \<Rightarrow> 'q" where
  "enq_all enq [] q = q"
| "enq_all enq (x # xs) q = enq_all enq xs (snd (enq q x))"

primrec deq_many :: "('q \<Rightarrow> fault + 'a \<times> 'q) \<Rightarrow> nat \<Rightarrow> 'q \<Rightarrow> fault + 'a list \<times> 'q" where
  "deq_many deq 0 q = Inr ([], q)"
| "deq_many deq (Suc n) q =
     bnd (deq q) (\<lambda>(x, q1). bnd (deq_many deq n q1) (\<lambda>(xs, q2). Inr (x # xs, q2)))"

locale bounded_queue =
  fixes enq :: "'q \<Rightarrow> 'a \<Rightarrow> int \<times> 'q"
    and deq :: "'q \<Rightarrow> fault + 'a \<times> 'q"
    and lst :: "'q \<Rightarrow> 'a list"
    and cap :: "'q \<Rightarrow> nat"
    and inv :: "'q \<Rightarrow> bool"
  assumes enq_room: "inv q \<Longrightarrow> length (lst q) < cap q \<Longrightarrow> enq q x = (rc, q') \<Longrightarrow>
      rc = 0 \<and> inv q' \<and> lst q' = lst q @ [x] \<and> cap q' = cap q"
    and enq_full: "inv q \<Longrightarrow> length (lst q) = cap q \<Longrightarrow> enq q x = (- EAGAIN, q)"
    and deq_some: "inv q \<Longrightarrow> deq q = Inr (x, q') \<Longrightarrow>
      lst q = x # lst q' \<and> inv q' \<and> cap q' = cap q"
    and deq_none: "inv q \<Longrightarrow> deq q = Inl e \<Longrightarrow> e = Logic_error \<and> lst q = []"
    and deq_empty: "inv q \<Longrightarrow> lst q = [] \<Longrightarrow> deq q = Inl Logic_error"
    and within_cap: "inv q \<Longrightarrow> length (lst q) \<le> cap q"
begin

lemma enq_all_room:
  "inv q \<Longrightarrow> length (lst q) + length xs \<le> cap q \<Longrightarrow>
     inv (enq_all enq xs q) \<and> lst (enq_all enq xs q) = lst q @ xs \<and>
     cap (enq_all enq xs q) = cap q"
proof (induction xs arbitrary: q)
  case Nil
  then show ?case by simp
next
  case (Cons x xs)
  have "inv (snd (enq q x)) \<and> lst (snd (enq q x)) = lst q @ [x] \<and> cap (snd (enq q x)) = cap q"
    using enq_room [of q x, OF _ _ surjective_pairing] Cons.prems by simp
  then show ?case using Cons.IH [of "snd (enq q x)"] Cons.prems by simp
qed

lemma deq_many_prefix:
  "inv q \<Longrightarrow> n \<le> length (lst q) \<Longrightarrow> deq_many deq n q = r \<Longrightarrow>
     case r of Inl e \<Rightarrow> False
     | Inr (xs, q') \<Rightarrow> xs = take n (lst q) \<and> inv q' \<and> lst q' = drop n (lst q) \<and> cap q' = cap q"
proof (induction n arbitrary: q r)
  case 0
  then show ?case by (auto split: sum.splits)
next
  case (Suc n)
  show ?case
  proof (cases "deq q")
    case (Inl e)
    then show ?thesis using deq_none [OF Suc.prems(1)] Suc.prems(2) by simp
  next
    case (Inr p)
    obtain x q1 where p: "p = (x, q1)" by (rule prod.exhaust)
    have q1: "lst q = x # lst q1 \<and> inv q1 \<and> cap q1 = cap q"
      using deq_some Suc.prems(1) Inr p by simp
    then show ?thesis using Suc.IH [of q1 "deq_many deq n q1"] Suc.prems Inr p
      by (auto split: sum.splits)
  qed
qed

lemma fifo:
  assumes "inv q" and "lst q = []" and "length xs \<le> cap q"
  shows "case deq_many deq (length xs) (enq_all enq xs q) of
           Inl e \<Rightarrow> False | Inr (ys, q') \<Rightarrow> ys = xs \<and> inv q' \<and> lst q' = []"
proof -
  have e: "inv (enq_all enq xs q) \<and> lst (enq_all enq xs q) = xs \<and> cap (enq_all enq xs q) = cap q"
    using enq_all_room [of q xs] assms by simp
  then show ?thesis
    using deq_many_prefix [of "enq_all enq xs q" "length xs", OF _ _ refl]
    by (auto split: sum.splits)
qed

end

interpretation fsq: bounded_queue enqueue dequeue q_list q_cap q_inv
proof
  fix q q' :: "'a fixed_queue" and x rc e
  assume inv: "q_inv q"
  show "rc = 0 \<and> q_inv q' \<and> q_list q' = q_list q @ [x] \<and> q_cap q' = q_cap q"
    if "length (q_list q) < q_cap q" and "enqueue q x = (rc, q')"
    using enqueue_ok [OF inv that(1), of x] that(2) by (metis prod.inject q_cap_def)
  show "enqueue q x = (- EAGAIN, q)" if "length (q_list q) = q_cap q"
    using inv that by (rule enqueue_full)
  show "q_list q = x # q_list q' \<and> q_inv q' \<and> q_cap q' = q_cap q" if "dequeue q = Inr (x, q')"
  proof (cases "q_list q")
    case Nil
    then show ?thesis using dequeue_empty [OF inv] that by simp
  next
    case (Cons y ys)
    then show ?thesis using dequeue_ok [OF inv Cons] that
      by (metis Inr_inject prod.inject q_cap_def)
  qed
  show "e = Logic_error \<and> q_list q = []" if "dequeue q = Inl e"
    using that inv by (auto simp: dequeue_def dequeue_nolock_def q_is_empty_iff split: if_splits)
  show "dequeue q = Inl Logic_error" if "q_list q = []"
    using inv that by (rule dequeue_empty)
  show "length (q_list q) \<le> q_cap q"
    using q_count_bounds [OF inv] by (auto simp: length_q_list q_cap_def)
qed

section \<open>Properties\<close>

text \<open>
  (C7) Refinement of the bounded FIFO queue: on a well-formed ring buffer, enqueue
  with room appends at the end of the content and keeps well-formedness, enqueue
  on a full buffer returns \<open>-EAGAIN\<close> and changes nothing, dequeue on a non-empty
  buffer removes and returns the oldest element, and dequeue on an empty one
  throws \<open>logic_error\<close>.
\<close>

theorem fixed_queue_refines_fifo:
  assumes "q_inv q"
  shows "(case enqueue q x of (rc, q') \<Rightarrow>
             q_inv q' \<and>
             (if length (q_list q) < q_cap q then rc = 0 \<and> q_list q' = q_list q @ [x]
              else rc = - EAGAIN \<and> q' = q)) \<and>
         (case dequeue q of
            Inl e \<Rightarrow> e = Logic_error \<and> q_list q = []
          | Inr (y, q') \<Rightarrow> q_inv q' \<and> q_list q = y # q_list q')"
proof
  have le: "length (q_list q) \<le> q_cap q" by (rule fsq.within_cap [OF assms])
  show "case enqueue q x of (rc, q') \<Rightarrow>
             q_inv q' \<and>
             (if length (q_list q) < q_cap q then rc = 0 \<and> q_list q' = q_list q @ [x]
              else rc = - EAGAIN \<and> q' = q)"
    using fsq.enq_room [OF assms, of x, OF _ surjective_pairing] fsq.enq_full [OF assms, of x] le assms
    by (cases "length (q_list q) < q_cap q") (simp_all add: case_prod_beta)
  show "case dequeue q of
            Inl e \<Rightarrow> e = Logic_error \<and> q_list q = []
          | Inr (y, q') \<Rightarrow> q_inv q' \<and> q_list q = y # q_list q'"
  proof (cases "dequeue q")
    case (Inl e)
    then show ?thesis using fsq.deq_none [OF assms Inl] by simp
  next
    case (Inr p)
    then show ?thesis using fsq.deq_some [OF assms, of "fst p" "snd p"] by (simp add: case_prod_beta)
  qed
qed

definition example_queue :: "int fixed_queue" where
  "example_queue = \<lparr>q_tail = 0, q_head = 2, q_depth = 3, q_data = [7, 8, 9]\<rparr>"

theorem fixed_queue_refines_fifo_witness:
  "q_inv example_queue \<and> q_list example_queue = [9] \<and>
   q_list (snd (enqueue example_queue 5)) = [9, 5]"
proof -
  have i: "q_inv example_queue" and l: "q_list example_queue = [9]" and c: "q_cap example_queue = 2"
    by (simp_all add: example_queue_def q_inv_def q_list_def q_count_def QUEUE_COUNT_def
        q_slot_def q_cap_def)
  show ?thesis using fixed_queue_refines_fifo [OF i, of 5] i
    by (simp add: l c split: prod.splits)
qed

end
