(* ===== verification/Mem_Pool.thy ===== *)
theory Mem_Pool
  imports Fixed_Queue
begin

text \<open>
  \<open>ObjectMemoryPool\<close> of \<open>common/include/pf_mempool.h\<close>: a fixed array of objects
  and a queue of pointers to the free ones. A pointer is the index of its slot in
  the array. The spin lock makes each operation atomic and is not a field of the
  model. The theory shows the contract of an allocator (the locale \<open>obj_pool\<close>,
  interpreted as \<open>omp\<close>): a slot is never handed out twice without being freed in
  between.
\<close>

section \<open>The pool\<close>

record mem_pool =
  p_free :: "nat fixed_queue"
  p_slots :: nat
  p_count :: int

text \<open>
  \<open>init\<close>: the result of \<open>pthread_spin_init\<close>, and whether the two \<open>calloc\<close> calls
  return memory, come from outside.
\<close>

definition pool_init ::
    "int \<Rightarrow> bool \<Rightarrow> bool \<Rightarrow> int \<Rightarrow> mem_pool \<Rightarrow> int \<times> mem_pool" where
  "pool_init spin_rc queue_calloc_ok data_calloc_ok c p =
     (let p1 = p\<lparr>p_count := c\<rparr>
      in if spin_rc \<noteq> 0 then (- spin_rc, p1)
         else let (rc, q) = q_init queue_calloc_ok 0 c (p_free p1);
                  p2 = p1\<lparr>p_free := q\<rparr>
              in if rc \<noteq> 0 then (rc, p2)
                 else if \<not> data_calloc_ok
                   then (- ENOMEM, p2\<lparr>p_slots := 0, p_free := q_destroy q\<rparr>)
                 else (0, p2\<lparr>p_slots := nat c, p_free := enq_all enqueue [0..<nat c] q\<rparr>))"

text \<open>\<open>dequeue_nolock\<close> is called after the emptiness check and does not throw here.\<close>

definition pool_alloc :: "mem_pool \<Rightarrow> nat option \<times> mem_pool" where
  "pool_alloc p =
     (if q_is_empty (p_free p) then (None, p)
      else case dequeue_nolock (p_free p) of
             Inr (t, q) \<Rightarrow> (Some t, p\<lparr>p_free := q\<rparr>)
           | Inl _ \<Rightarrow> (None, p))"

definition pool_free :: "mem_pool \<Rightarrow> nat \<Rightarrow> fault + mem_pool" where
  "pool_free p t =
     (let (rc, q) = enqueue_nolock (p_free p) t
      in if rc \<noteq> 0 then Inl Runtime_error else Inr (p\<lparr>p_free := q\<rparr>))"

definition pool_destroy :: "mem_pool \<Rightarrow> mem_pool" where
  "pool_destroy p =
     (if p_slots p \<noteq> 0 then p\<lparr>p_free := q_destroy (p_free p), p_slots := 0\<rparr> else p)"

definition pool_remain :: "mem_pool \<Rightarrow> int" where
  "pool_remain p = q_count (p_free p)"

section \<open>Well-formed pools\<close>

definition pool_inv :: "mem_pool \<Rightarrow> bool" where
  "pool_inv p \<longleftrightarrow> q_inv (p_free p) \<and> q_cap (p_free p) = p_slots p \<and>
     distinct (q_list (p_free p)) \<and> set (q_list (p_free p)) \<subseteq> {..<p_slots p}"

definition pool_avail :: "mem_pool \<Rightarrow> nat set" where
  "pool_avail p = set (q_list (p_free p))"

lemma card_pool_avail: "pool_inv p \<Longrightarrow> card (pool_avail p) = nat (pool_remain p)"
  by (simp add: pool_inv_def pool_avail_def pool_remain_def distinct_card length_q_list)

lemma pool_alloc_some:
  assumes inv: "pool_inv p" and al: "pool_alloc p = (Some t, p')"
  shows "t \<in> pool_avail p \<and> pool_inv p' \<and>
    pool_avail p' = pool_avail p - {t} \<and> p_slots p' = p_slots p"
proof -
  from inv have qi: "q_inv (p_free p)" by (simp add: pool_inv_def)
  from al obtain q' where q': "dequeue (p_free p) = Inr (t, q')" and p': "p' = p\<lparr>p_free := q'\<rparr>"
    by (auto simp: pool_alloc_def dequeue_def split: if_splits sum.splits)
  from fsq.deq_some [OF qi q'] show ?thesis
    using inv by (auto simp: pool_inv_def pool_avail_def p')
qed

lemma pool_alloc_null:
  assumes inv: "pool_inv p" and al: "pool_alloc p = (None, p')"
  shows "pool_avail p = {} \<and> p' = p"
proof -
  from inv have qi: "q_inv (p_free p)" by (simp add: pool_inv_def)
  from al show ?thesis
    using q_is_empty_iff [OF qi] fsq.deq_none [OF qi]
    by (auto simp: pool_alloc_def pool_avail_def dequeue_def split: if_splits sum.splits)
qed

lemma pool_free_ok:
  assumes inv: "pool_inv p" and out: "t \<notin> pool_avail p" and slot: "t < p_slots p"
  shows "case pool_free p t of
      Inl e \<Rightarrow> False
    | Inr p' \<Rightarrow> pool_inv p' \<and> pool_avail p' = insert t (pool_avail p) \<and> p_slots p' = p_slots p"
proof -
  let ?l = "q_list (p_free p)"
  from inv have qi: "q_inv (p_free p)" and d: "distinct ?l" and sub: "set ?l \<subseteq> {..<p_slots p}"
    and c: "q_cap (p_free p) = p_slots p" by (auto simp: pool_inv_def)
  have "insert t (set ?l) \<subseteq> {..<p_slots p}" using sub slot by simp
  then have "card (insert t (set ?l)) \<le> p_slots p"
    using card_mono [of "{..<p_slots p}"] by fastforce
  then have room: "length ?l < q_cap (p_free p)"
    using out c d by (simp add: pool_avail_def distinct_card)
  obtain rc q' where e: "enqueue (p_free p) t = (rc, q')" by (rule prod.exhaust)
  from fsq.enq_room [OF qi room e] show ?thesis using inv out slot e
    by (simp add: pool_free_def enqueue_eq_nolock [symmetric] pool_inv_def pool_avail_def)
qed

section \<open>The interface: an allocator\<close>

locale obj_pool =
  fixes alloc :: "'p \<Rightarrow> nat option \<times> 'p"
    and release :: "'p \<Rightarrow> nat \<Rightarrow> fault + 'p"
    and avail :: "'p \<Rightarrow> nat set"
    and slots :: "'p \<Rightarrow> nat"
    and inv :: "'p \<Rightarrow> bool"
  assumes alloc_none: "inv p \<Longrightarrow> alloc p = (None, p') \<Longrightarrow> avail p = {} \<and> p' = p"
    and alloc_some: "inv p \<Longrightarrow> alloc p = (Some t, p') \<Longrightarrow>
      t \<in> avail p \<and> inv p' \<and> avail p' = avail p - {t} \<and> slots p' = slots p"
    and release_ok: "inv p \<Longrightarrow> t \<notin> avail p \<Longrightarrow> t < slots p \<Longrightarrow>
      case release p t of
        Inl e \<Rightarrow> False
      | Inr p' \<Rightarrow> inv p' \<and> avail p' = insert t (avail p) \<and> slots p' = slots p"
    and avail_bound: "inv p \<Longrightarrow> avail p \<subseteq> {..<slots p}"
begin

lemma alloc_fresh:
  assumes "inv p" and "alloc p = (Some t, p')"
  shows "t \<in> avail p \<and> t < slots p \<and> inv p' \<and> avail p' = avail p - {t} \<and> slots p' = slots p"
  using alloc_some [OF assms] avail_bound [OF assms(1)] by auto

lemma alloc_then_release:
  assumes "inv p" and "alloc p = (Some t, p')"
  shows "case release p' t of Inl e \<Rightarrow> False | Inr p'' \<Rightarrow> inv p'' \<and> avail p'' = avail p"
  using alloc_fresh [OF assms] release_ok [of p' t] by (auto split: sum.splits)

end

lemma pool_avail_bound: "pool_inv p \<Longrightarrow> pool_avail p \<subseteq> {..<p_slots p}"
  by (simp add: pool_inv_def pool_avail_def)

interpretation omp: obj_pool pool_alloc pool_free pool_avail p_slots pool_inv
  by unfold_locales (fact pool_alloc_null pool_alloc_some pool_free_ok pool_avail_bound)+

lemma pool_init_success:
  assumes "0 \<le> c" and "pool_init 0 True True c p = (rc, p')"
  shows "rc = 0 \<and> pool_inv p' \<and> pool_avail p' = {..<nat c} \<and> p_slots p' = nat c \<and>
    p_count p' = c \<and> q_list (p_free p') = [0..<nat c]"
proof -
  obtain rcq q where qi: "q_init True 0 c (p_free p) = (rcq, q)" by (rule prod.exhaust)
  have q: "rcq = 0" "q_inv q" "q_list q = []" "q_cap q = nat c"
    using q_init_ok [OF assms(1) qi] by simp_all
  let ?q = "enq_all enqueue [0..<nat c] q"
  have e: "q_inv ?q \<and> q_list ?q = [0..<nat c] \<and> q_cap ?q = nat c"
    using fsq.enq_all_room [of q "[0..<nat c]"] q by simp
  have "rc = 0 \<and> p' = p\<lparr>p_count := c, p_slots := nat c, p_free := ?q\<rparr>"
    using assms(2) by (auto simp: pool_init_def qi q)
  then show ?thesis using e by (simp add: pool_inv_def pool_avail_def atLeast0LessThan)
qed

section \<open>Properties\<close>

text \<open>
  (C8) The pool hands out every slot at most once. From a successful \<open>init\<close> with
  \<open>c\<close> objects all \<open>c\<close> slots are free; a successful \<open>alloc\<close> returns a slot that was
  free and is no longer free; \<open>alloc\<close> returns NULL exactly when no slot is free;
  freeing a slot that is in use never throws and makes it free again.
\<close>

theorem pool_contract:
  assumes "pool_inv p" and "0 \<le> c"
  shows "(case pool_init 0 True True c p of
            (rc, p0) \<Rightarrow> rc = 0 \<and> pool_inv p0 \<and> pool_avail p0 = {..<nat c}) \<and>
         (case pool_alloc p of
            (None, p') \<Rightarrow> pool_avail p = {} \<and> p' = p
          | (Some t, p') \<Rightarrow> t \<in> pool_avail p \<and> pool_inv p' \<and> pool_avail p' = pool_avail p - {t}) \<and>
         (\<forall>t \<in> {..<p_slots p} - pool_avail p. case pool_free p t of
            Inl e \<Rightarrow> False
          | Inr p' \<Rightarrow> pool_inv p' \<and> pool_avail p' = insert t (pool_avail p))"
proof (intro conjI)
  show "case pool_init 0 True True c p of
            (rc, p0) \<Rightarrow> rc = 0 \<and> pool_inv p0 \<and> pool_avail p0 = {..<nat c}"
    using pool_init_success [OF assms(2)] by (cases "pool_init 0 True True c p") simp
  show "case pool_alloc p of
            (None, p') \<Rightarrow> pool_avail p = {} \<and> p' = p
          | (Some t, p') \<Rightarrow> t \<in> pool_avail p \<and> pool_inv p' \<and> pool_avail p' = pool_avail p - {t}"
    using omp.alloc_none [OF assms(1)] omp.alloc_some [OF assms(1)]
    by (cases "pool_alloc p"; cases "fst (pool_alloc p)") simp_all
  show "\<forall>t \<in> {..<p_slots p} - pool_avail p. case pool_free p t of
            Inl e \<Rightarrow> False
          | Inr p' \<Rightarrow> pool_inv p' \<and> pool_avail p' = insert t (pool_avail p)"
  proof
    fix t
    assume "t \<in> {..<p_slots p} - pool_avail p"
    then show "case pool_free p t of
            Inl e \<Rightarrow> False
          | Inr p' \<Rightarrow> pool_inv p' \<and> pool_avail p' = insert t (pool_avail p)"
      using omp.release_ok [OF assms(1), of t] by (cases "pool_free p t") simp_all
  qed
qed

definition example_pool :: mem_pool where
  "example_pool = snd (pool_init 0 True True 2
     \<lparr>p_free = \<lparr>q_tail = 0, q_head = 0, q_depth = 0, q_data = []\<rparr>, p_slots = 0, p_count = 0\<rparr>)"

lemma example_pool_ok: "pool_inv example_pool \<and> pool_avail example_pool = {..<2}"
  unfolding example_pool_def
  using pool_init_success [of 2, OF _ surjective_pairing] by simp

theorem pool_contract_witness:
  "pool_inv example_pool \<and> pool_avail example_pool = {..<2} \<and>
     (case pool_alloc example_pool of
        (None, p') \<Rightarrow> False
      | (Some t, p') \<Rightarrow> t < 2 \<and> pool_avail p' = {..<2} - {t})"
proof -
  have c: "(0::int) \<le> 2" by simp
  obtain r p' where r: "pool_alloc example_pool = (r, p')" by (rule prod.exhaust)
  have "{..<2::nat} \<noteq> {}" by (simp add: lessThan_empty_iff)
  then show ?thesis
    using pool_contract [OF conjunct1 [OF example_pool_ok] c, THEN conjunct2, THEN conjunct1] example_pool_ok
    by (cases r) (simp_all add: r)
qed

end
