(* ===== verification/Volume_Type.thy ===== *)
theory Volume_Type
  imports Pf_Prelude
begin

text \<open>
  The identifiers, address arithmetic and on-disk layout constants of
  \<open>common/include/pf_volume_type.h\<close>, \<open>common/include/basetype.h\<close> and
  \<open>common/include/pf_message.h\<close>. Identifiers and offsets are \<open>uint64_t\<close> and are
  kept at that width; an order (a shift amount) is a natural number.
\<close>

section \<open>Volume, shard and replica identifiers\<close>

definition SHARD_ID :: "u64 \<Rightarrow> u64" where
  "SHARD_ID x = x AND 0xffffffffffffff00"

definition SHARD_INDEX :: "u64 \<Rightarrow> u64" where
  "SHARD_INDEX x = drop_bit 8 (x AND 0x0000000000ffff00)"

definition REPLICA_INDEX :: "u64 \<Rightarrow> u64" where
  "REPLICA_INDEX x = x AND 0x00000000000000ff"

definition VOLUME_ID :: "u64 \<Rightarrow> u64" where
  "VOLUME_ID x = x AND 0xffffffffff000000"

definition VOL_ID_TO_VOL_INDEX :: "u64 \<Rightarrow> u64" where
  "VOL_ID_TO_VOL_INDEX x = drop_bit 24 x"

definition VOL_ID_TO_SHARD_INDEX :: "u64 \<Rightarrow> u64" where
  "VOL_ID_TO_SHARD_INDEX x = drop_bit 4 x AND 0x0fffff"

section \<open>Sizes\<close>

abbreviation LBA_LENGTH :: u64 where "LBA_LENGTH \<equiv> 4096"
abbreviation LBA_LENGTH_ORDER :: nat where "LBA_LENGTH_ORDER \<equiv> 12"
abbreviation SECTOR_SIZE :: u64 where "SECTOR_SIZE \<equiv> 512"
abbreviation SHARD_LBA_CNT_ORDER :: nat where "SHARD_LBA_CNT_ORDER \<equiv> 24"
abbreviation SHARD_SIZE_ORDER :: nat where "SHARD_SIZE_ORDER \<equiv> 36"
definition SHARD_LBA_CNT :: u64 where "SHARD_LBA_CNT = push_bit 20 16"
definition SHARD_SIZE :: u64 where "SHARD_SIZE = push_bit SHARD_SIZE_ORDER 1"
definition DEFAULT_OBJ_SIZE :: u64 where "DEFAULT_OBJ_SIZE = push_bit 20 64"
definition DEFAULT_OBJ_SIZE_ORDER :: nat where "DEFAULT_OBJ_SIZE_ORDER = 26"
definition COW_OBJ_SIZE :: u64 where "COW_OBJ_SIZE = push_bit 10 128"
definition RECOVERY_IO_SIZE :: u64 where "RECOVERY_IO_SIZE = push_bit 10 128"

section \<open>Address arithmetic\<close>

definition vol_offset_to_block_slba :: "u64 \<Rightarrow> nat \<Rightarrow> u64" where
  "vol_offset_to_block_slba off obj_size_order =
     push_bit (obj_size_order - LBA_LENGTH_ORDER) (drop_bit obj_size_order off)"

definition offset_in_block :: "u64 \<Rightarrow> u64 \<Rightarrow> u64" where
  "offset_in_block off in_obj_offset_mask = off AND in_obj_offset_mask"

definition OFFSET_TO_SHARD_INDEX :: "u64 \<Rightarrow> u64" where
  "OFFSET_TO_SHARD_INDEX off = drop_bit (LBA_LENGTH_ORDER + SHARD_LBA_CNT_ORDER) off"

definition up_align :: "u64 \<Rightarrow> u64 \<Rightarrow> u64" where
  "up_align number alignment = ((number + alignment - 1) div alignment) * alignment"

section \<open>On-disk layout of the metadata area\<close>

definition META_RESERVE_SIZE :: u64 where "META_RESERVE_SIZE = push_bit 30 40"
definition MIN_META_RESERVE_SIZE :: u64 where "MIN_META_RESERVE_SIZE = push_bit 30 10"
definition OFFSET_HEAD :: u64 where "OFFSET_HEAD = 0"
definition OFFSET_FREE_LIST_FIRST :: u64 where "OFFSET_FREE_LIST_FIRST = 4096"
definition OFFSET_TRIM_LIST_FIRST :: u64 where "OFFSET_TRIM_LIST_FIRST = push_bit 20 128"
definition OFFSET_LMT_MAP_FIRST :: u64 where "OFFSET_LMT_MAP_FIRST = push_bit 20 256"
definition OFFSET_FREE_LIST_SECOND :: u64 where "OFFSET_FREE_LIST_SECOND = push_bit 30 3"
definition OFFSET_TRIM_LIST_SECOND :: u64 where
  "OFFSET_TRIM_LIST_SECOND = OFFSET_FREE_LIST_SECOND + push_bit 20 128"
definition OFFSET_LMT_MAP_SECOND :: u64 where
  "OFFSET_LMT_MAP_SECOND = OFFSET_FREE_LIST_SECOND + push_bit 20 256"
definition OFFSET_REDO_LOG_FIRST :: u64 where "OFFSET_REDO_LOG_FIRST = push_bit 30 6"
definition REDO_LOG_SIZE :: u64 where "REDO_LOG_SIZE = push_bit 20 256"
definition OFFSET_REDO_LOG_SECOND :: u64 where
  "OFFSET_REDO_LOG_SECOND = OFFSET_REDO_LOG_FIRST + REDO_LOG_SIZE"

text \<open>
  The lock offset is written with \<open>int\<close> literals, so it is computed in 32-bit
  two's complement before it is used as an offset.
\<close>

definition OFFSET_GLOBAL_META_LOCK :: int where
  "OFFSET_GLOBAL_META_LOCK = sint (push_bit 30 2 + push_bit 20 512 :: 32 word)"

lemmas layout_defs =
  OFFSET_HEAD_def OFFSET_FREE_LIST_FIRST_def OFFSET_TRIM_LIST_FIRST_def OFFSET_LMT_MAP_FIRST_def
  OFFSET_FREE_LIST_SECOND_def OFFSET_TRIM_LIST_SECOND_def OFFSET_LMT_MAP_SECOND_def
  OFFSET_REDO_LOG_FIRST_def OFFSET_REDO_LOG_SECOND_def REDO_LOG_SIZE_def
  META_RESERVE_SIZE_def MIN_META_RESERVE_SIZE_def

section \<open>Facts on masks\<close>

lemma and_mask_word:
  "n < LENGTH('a) \<Longrightarrow> x AND (2 ^ n - 1) = take_bit n (x :: 'a::len word)"
  by (simp add: take_bit_eq_mask mask_eq_exp_minus_1)

lemma word_split_bits:
  "push_bit n (drop_bit n x) + take_bit n x = (x :: 'a::len word)"
  by (simp add: bits_ident)

lemma drop_push_drop:
  "drop_bit n (push_bit n (drop_bit n x)) = drop_bit n (x :: 'a::len word)"
  by (rule bit_word_eqI) (auto simp: bit_simps dest: bit_imp_le_length)

lemma slba_mult_lba:
  assumes "12 \<le> order" and "order < 64"
  shows "push_bit 12 (vol_offset_to_block_slba off order) = push_bit order (drop_bit order off)"
  using assms by (simp add: vol_offset_to_block_slba_def push_bit_push_bit add.commute)

lemmas id_part_defs = VOLUME_ID_def SHARD_INDEX_def REPLICA_INDEX_def SHARD_ID_def

lemma id_masks:
  "(0xffffffffffffff00 :: u64) = NOT (mask 8)"
  "(0x0000000000ffff00 :: u64) = mask 24 AND NOT (mask 8)"
  "(0x00000000000000ff :: u64) = mask 8"
  "(0xffffffffff000000 :: u64) = NOT (mask 24)"
  by (simp_all add: mask_eq_exp_minus_1)

section \<open>Properties\<close>

text \<open>
  Round trip of the block addressing: a byte offset of a volume is the start
  of its block, in bytes, plus the offset inside the block. The read and the write
  path therefore address the byte the client asked for, and two offsets share a
  block key exactly when they lie in the same object.
\<close>

theorem block_address_roundtrip:
  assumes "12 \<le> order" and "order < 64"
  shows "push_bit 12 (vol_offset_to_block_slba off order) + offset_in_block off (2 ^ order - 1) = off \<and>
         (vol_offset_to_block_slba off order = vol_offset_to_block_slba off' order \<longleftrightarrow>
          drop_bit order off = drop_bit order off')"
proof
  show "push_bit 12 (vol_offset_to_block_slba off order) + offset_in_block off (2 ^ order - 1) = off"
    using assms by (simp add: slba_mult_lba offset_in_block_def and_mask_word word_split_bits)
  show "vol_offset_to_block_slba off order = vol_offset_to_block_slba off' order \<longleftrightarrow>
          drop_bit order off = drop_bit order off'"
  proof
    assume "vol_offset_to_block_slba off order = vol_offset_to_block_slba off' order"
    then have "push_bit order (drop_bit order off) = push_bit order (drop_bit order off')"
      using slba_mult_lba [OF assms] by metis
    then have "drop_bit order (push_bit order (drop_bit order off)) =
        drop_bit order (push_bit order (drop_bit order off'))" by simp
    then show "drop_bit order off = drop_bit order off'"
      by (simp only: drop_push_drop)
  qed (simp add: vol_offset_to_block_slba_def)
qed

theorem block_address_roundtrip_witness:
  "push_bit 12 (vol_offset_to_block_slba 0x123456789a 26) + offset_in_block 0x123456789a (2 ^ 26 - 1)
     = (0x123456789a :: u64)"
  using block_address_roundtrip [of 26 "0x123456789a" 0] by simp

text \<open>
  A replica identifier is exactly its volume, shard and replica parts, and
  dropping the replica part (\<open>to_shard_id\<close>) keeps the volume and the shard index,
  so the key of an object does not depend on which replica the request names.
\<close>

theorem replica_id_parts:
  "VOLUME_ID x OR push_bit 8 (SHARD_INDEX x) OR REPLICA_INDEX x = x \<and>
   VOLUME_ID (SHARD_ID x) = VOLUME_ID x \<and> SHARD_INDEX (SHARD_ID x) = SHARD_INDEX x \<and>
   REPLICA_INDEX (SHARD_ID x) = 0"
  unfolding id_part_defs id_masks
  by (intro conjI; rule bit_word_eqI) (auto simp: bit_simps)

text \<open>
  The offset of the global metadata lock is negative: the two shifts are
  computed in \<open>int\<close>, where \<open>2 << 30\<close> is the most negative value, so the constant
  is not the 2 GB + 512 MB that its comment announces.
\<close>

theorem global_meta_lock_offset_wraps:
  "OFFSET_GLOBAL_META_LOCK = - 1610612736 \<and> OFFSET_GLOBAL_META_LOCK \<noteq> 2 * 2 ^ 30 + 512 * 2 ^ 20"
  by (simp add: OFFSET_GLOBAL_META_LOCK_def push_bit_eq_mult)

end
