(* ===== verification/Bitmap.thy ===== *)
theory Bitmap
  imports Pf_Prelude
begin

text \<open>
  \<open>PfBitmap\<close> of \<open>pfs/include/pf_bitmap.h\<close>: an array of 64-bit words. The recovery
  path marks with it the sectors a client wrote while an object was being
  recovered. An index is the \<open>int\<close> argument of the code, taken as a natural number.
\<close>

section \<open>The bitmap\<close>

record pf_bitmap =
  bits_data :: "u64 list"
  bit_count :: nat

definition bmp_new :: "nat \<Rightarrow> pf_bitmap" where
  "bmp_new n = \<lparr>bits_data = replicate (n div 8 div 8 + 1) 0, bit_count = n\<rparr>"

definition bmp_set_bit :: "pf_bitmap \<Rightarrow> nat \<Rightarrow> pf_bitmap" where
  "bmp_set_bit b index =
     b\<lparr>bits_data := (bits_data b)
         [index div 64 := bits_data b ! (index div 64) OR push_bit (index mod 64) 1]\<rparr>"

definition bmp_is_set :: "pf_bitmap \<Rightarrow> nat \<Rightarrow> bool" where
  "bmp_is_set b index \<longleftrightarrow> bits_data b ! (index div 64) AND push_bit (index mod 64) 1 \<noteq> 0"

text \<open>The loop of \<open>is_empty\<close> runs over the \<open>bit_count/8/8 + 1\<close> words of the array.\<close>

definition bmp_is_empty :: "pf_bitmap \<Rightarrow> bool" where
  "bmp_is_empty b \<longleftrightarrow> list_all (\<lambda>i. bits_data b ! i = 0) [0..<bit_count b div 8 div 8 + 1]"

text \<open>
  \<open>memset(bits_data, 0, bit_count/8)\<close> clears bytes: word \<open>i\<close> loses its lowest
  bytes up to byte \<open>bit_count/8\<close> of the array (the array is little-endian).
\<close>

definition clear_bytes :: "nat \<Rightarrow> nat \<Rightarrow> u64 \<Rightarrow> u64" where
  "clear_bytes nbytes i w =
     (let k = 8 * (nbytes - 8 * i) in if 64 \<le> k then 0 else push_bit k (drop_bit k w))"

definition bmp_clear :: "pf_bitmap \<Rightarrow> pf_bitmap" where
  "bmp_clear b =
     b\<lparr>bits_data := map (\<lambda>i. clear_bytes (bit_count b div 8) i (bits_data b ! i))
         [0..<length (bits_data b)]\<rparr>"

section \<open>Lemmas\<close>

definition bmp_inv :: "pf_bitmap \<Rightarrow> bool" where
  "bmp_inv b \<longleftrightarrow> length (bits_data b) = bit_count b div 8 div 8 + 1"

lemma bmp_inv_new: "bmp_inv (bmp_new n)"
  by (simp add: bmp_inv_def bmp_new_def)

lemma bmp_inv_set_bit: "bmp_inv b \<Longrightarrow> bmp_inv (bmp_set_bit b i)"
  by (simp add: bmp_inv_def bmp_set_bit_def)

lemma bmp_inv_clear: "bmp_inv b \<Longrightarrow> bmp_inv (bmp_clear b)"
  by (simp add: bmp_inv_def bmp_clear_def)

lemma word_index_less: "bmp_inv b \<Longrightarrow> i < bit_count b \<Longrightarrow> i div 64 < length (bits_data b)"
  by (simp add: bmp_inv_def div_mult2_eq [symmetric] less_Suc_eq_le div_le_mono)

lemma and_single_bit: "w AND push_bit n 1 \<noteq> 0 \<longleftrightarrow> n < 64 \<and> bit (w :: u64) n"
proof
  assume "w AND push_bit n 1 \<noteq> 0"
  then obtain m where "bit (w AND push_bit n 1) m"
    by (metis bit_0_eq bit_eq_iff bot_apply bot_bool_def)
  then show "n < 64 \<and> bit w n" by (auto simp: bit_simps)
next
  assume "n < 64 \<and> bit w n"
  then have "bit (w AND push_bit n 1) n" by (simp add: bit_simps)
  then show "w AND push_bit n 1 \<noteq> 0" by auto
qed

lemma bmp_is_set_bit: "bmp_is_set b i \<longleftrightarrow> bit (bits_data b ! (i div 64)) (i mod 64)"
  unfolding bmp_is_set_def and_single_bit by simp

lemma is_set_set_bit:
  assumes "bmp_inv b" and "i < bit_count b"
  shows "bmp_is_set (bmp_set_bit b i) j \<longleftrightarrow> i = j \<or> bmp_is_set b j"
proof (cases "i div 64 = j div 64")
  case True
  have "i = j \<longleftrightarrow> i mod 64 = j mod 64" using True by (metis div_mult_mod_eq)
  then show ?thesis
    using word_index_less [OF assms] True
    by (auto simp: bmp_is_set_bit bmp_set_bit_def bit_simps)
next
  case False
  then show ?thesis by (auto simp: bmp_is_set_bit bmp_set_bit_def)
qed

lemma is_set_clear:
  assumes "bmp_inv b" and "j div 64 < length (bits_data b)"
  shows "bmp_is_set (bmp_clear b) j \<longleftrightarrow> 8 * (bit_count b div 8) \<le> j \<and> bmp_is_set b j"
proof -
  let ?k = "8 * (bit_count b div 8 - 8 * (j div 64))"
  have j: "j = 64 * (j div 64) + j mod 64" by simp
  have "?k \<le> j mod 64 \<longleftrightarrow> 8 * (bit_count b div 8) \<le> j"
    using j by linarith
  then show ?thesis
    using assms(2) by (auto simp: bmp_is_set_bit bmp_clear_def clear_bytes_def Let_def bit_simps)
qed

lemma is_empty_iff_no_bit:
  assumes "bmp_inv b"
  shows "bmp_is_empty b \<longleftrightarrow> (\<forall>j. j div 64 < length (bits_data b) \<longrightarrow> \<not> bmp_is_set b j)"
proof
  assume "bmp_is_empty b"
  then have "\<And>i. i < length (bits_data b) \<Longrightarrow> bits_data b ! i = 0"
    using assms by (simp add: bmp_is_empty_def bmp_inv_def list_all_iff del: upt_Suc)
  then show "\<forall>j. j div 64 < length (bits_data b) \<longrightarrow> \<not> bmp_is_set b j"
    by (simp add: bmp_is_set_bit)
next
  assume none: "\<forall>j. j div 64 < length (bits_data b) \<longrightarrow> \<not> bmp_is_set b j"
  have "bits_data b ! i = 0" if "i < length (bits_data b)" for i
  proof (rule bit_word_eqI)
    fix n
    assume "n < LENGTH(64)"
    then have "(64 * i + n) div 64 = i" "(64 * i + n) mod 64 = n" by simp_all
    then show "bit (bits_data b ! i) n = bit 0 n"
      using none [rule_format, of "64 * i + n"] that by (simp add: bmp_is_set_bit)
  qed
  then show "bmp_is_empty b"
    using assms by (simp add: bmp_is_empty_def bmp_inv_def list_all_iff)
qed

section \<open>Properties\<close>

text \<open>
  (C17) The bitmap is a set of indices: a new one holds none, \<open>set_bit\<close> adds its
  index and no other, and \<open>is_empty\<close> says whether some bit of the array is set.
\<close>

theorem bitmap_is_index_set:
  assumes "bmp_inv b" and "i < bit_count b"
  shows "bmp_is_empty (bmp_new n) \<and> bmp_inv (bmp_set_bit b i) \<and>
    (\<forall>j. bmp_is_set (bmp_set_bit b i) j \<longleftrightarrow> i = j \<or> bmp_is_set b j) \<and>
    \<not> bmp_is_empty (bmp_set_bit b i)"
proof (intro conjI allI)
  show "bmp_is_empty (bmp_new n)"
    by (auto simp: bmp_is_empty_def bmp_new_def list_all_iff simp del: replicate_Suc)
  show "bmp_inv (bmp_set_bit b i)" by (rule bmp_inv_set_bit [OF assms(1)])
  show "bmp_is_set (bmp_set_bit b i) j \<longleftrightarrow> i = j \<or> bmp_is_set b j" for j
    by (rule is_set_set_bit [OF assms])
  have "bmp_is_set (bmp_set_bit b i) i" by (simp add: is_set_set_bit [OF assms])
  then show "\<not> bmp_is_empty (bmp_set_bit b i)"
    using is_empty_iff_no_bit [OF bmp_inv_set_bit [OF assms(1)], of i] word_index_less [OF assms]
    by (auto simp: bmp_set_bit_def)
qed

theorem bitmap_is_index_set_witness:
  "\<not> bmp_is_empty (bmp_set_bit (bmp_new 131072) 70)"
  using bitmap_is_index_set [of "bmp_new 131072" 70 1] bmp_inv_new [of 131072]
  by (simp add: bmp_new_def)

text \<open>
  \<open>clear\<close> empties a bitmap whose number of bits is a multiple of 8, as in the
  recovery code, but when it is not, the last \<open>bit_count mod 8\<close> bits survive.
\<close>

theorem bitmap_clear_tail:
  assumes "bmp_inv b" and "\<forall>j. j div 64 < length (bits_data b) \<and> bmp_is_set b j \<longrightarrow> j < bit_count b"
  shows "(8 dvd bit_count b \<longrightarrow> bmp_is_empty (bmp_clear b)) \<and>
    (\<forall>j < bit_count b. bmp_is_set (bmp_clear b) j \<longleftrightarrow> 8 * (bit_count b div 8) \<le> j \<and> bmp_is_set b j)"
proof (intro conjI impI allI)
  assume "8 dvd bit_count b"
  then have "8 * (bit_count b div 8) = bit_count b" by simp
  moreover have "length (bits_data (bmp_clear b)) = length (bits_data b)"
    by (simp add: bmp_clear_def)
  ultimately show "bmp_is_empty (bmp_clear b)"
    using assms(2) is_set_clear [OF assms(1)]
    by (fastforce simp: is_empty_iff_no_bit [OF bmp_inv_clear [OF assms(1)]])
next
  fix j
  assume "j < bit_count b"
  then show "bmp_is_set (bmp_clear b) j \<longleftrightarrow> 8 * (bit_count b div 8) \<le> j \<and> bmp_is_set b j"
    using is_set_clear [OF assms(1)] word_index_less [OF assms(1)] by blast
qed

theorem bitmap_clear_tail_witness:
  "bmp_is_set (bmp_clear (bmp_set_bit (bmp_new 12) 9)) 9"
proof -
  let ?b = "bmp_set_bit (bmp_new 12) 9"
  have set: "bmp_is_set ?b j \<longleftrightarrow> j = 9" if "j div 64 < 1" for j
    using that is_set_set_bit [OF bmp_inv_new, of 9 12 j]
    by (auto simp: bmp_new_def bmp_is_set_def)
  have "bmp_inv ?b" by (rule bmp_inv_set_bit [OF bmp_inv_new])
  moreover have "length (bits_data ?b) = 1" "bit_count ?b = 12"
    by (simp_all add: bmp_new_def bmp_set_bit_def)
  moreover have "\<forall>j. j div 64 < length (bits_data ?b) \<and> bmp_is_set ?b j \<longrightarrow> j < bit_count ?b"
    using calculation(2,3) set by auto
  ultimately show ?thesis
    using bitmap_clear_tail [of ?b] set [of 9] by simp
qed

end
