(* ===== verification/Message.thy ===== *)
theory Message
  imports Pf_Prelude
begin

text \<open>
  The wire protocol of \<open>common/include/pf_message.h\<close> and \<open>common/src/pf_message.cpp\<close>
  (operation codes, completion status, message and reply heads) and the I/O sub
  tasks of \<open>common/include/pf_iotask.h\<close>. Codes arrive from the network, so an
  operation code is any 8-bit value and a status any 16-bit value; the enumerators
  are constants of these types.
\<close>

section \<open>Operation codes\<close>

definition WRITE_OP :: u8 where "WRITE_OP = 0x01"
definition READ_OP :: u8 where "READ_OP = 0x02"
definition NODATA_OP :: u8 where "NODATA_OP = 0"

definition IS_WRITE_OP :: "u8 \<Rightarrow> bool" where
  "IS_WRITE_OP op \<longleftrightarrow> op AND 0x03 = WRITE_OP"

definition IS_READ_OP :: "u8 \<Rightarrow> bool" where
  "IS_READ_OP op \<longleftrightarrow> op AND 0x03 = READ_OP"

definition OP_CODE :: "u8 \<Rightarrow> u8 \<Rightarrow> u8" where
  "OP_CODE x dir = push_bit 2 x OR dir"

definition S5_OP_WRITE :: u8 where "S5_OP_WRITE = OP_CODE 0 WRITE_OP"
definition S5_OP_READ :: u8 where "S5_OP_READ = OP_CODE 0 READ_OP"
definition S5_OP_HEARTBEAT :: u8 where "S5_OP_HEARTBEAT = OP_CODE 1 NODATA_OP"
definition S5_OP_REPLICATE_WRITE :: u8 where "S5_OP_REPLICATE_WRITE = OP_CODE 1 WRITE_OP"
definition S5_OP_COW_READ :: u8 where "S5_OP_COW_READ = OP_CODE 2 READ_OP"
definition S5_OP_COW_WRITE :: u8 where "S5_OP_COW_WRITE = OP_CODE 2 WRITE_OP"
definition S5_OP_RECOVERY_READ :: u8 where "S5_OP_RECOVERY_READ = OP_CODE 3 READ_OP"
definition S5_OP_RECOVERY_WRITE :: u8 where "S5_OP_RECOVERY_WRITE = OP_CODE 3 WRITE_OP"
definition S5_OP_RPC_ALLOC_BLOCK :: u8 where "S5_OP_RPC_ALLOC_BLOCK = OP_CODE 4 NODATA_OP"
definition S5_OP_RPC_DELETE_BLOCK :: u8 where "S5_OP_RPC_DELETE_BLOCK = OP_CODE 5 NODATA_OP"

lemmas op_code_defs =
  S5_OP_WRITE_def S5_OP_READ_def S5_OP_HEARTBEAT_def S5_OP_REPLICATE_WRITE_def S5_OP_COW_READ_def
  S5_OP_COW_WRITE_def S5_OP_RECOVERY_READ_def S5_OP_RECOVERY_WRITE_def
  S5_OP_RPC_ALLOC_BLOCK_def S5_OP_RPC_DELETE_BLOCK_def OP_CODE_def
  WRITE_OP_def READ_OP_def NODATA_OP_def

lemma op_code_values:
  "S5_OP_WRITE = 1" "S5_OP_READ = 2" "S5_OP_HEARTBEAT = 4" "S5_OP_REPLICATE_WRITE = 5"
  "S5_OP_COW_READ = 10" "S5_OP_COW_WRITE = 9" "S5_OP_RECOVERY_READ = 14"
  "S5_OP_RECOVERY_WRITE = 13" "S5_OP_RPC_ALLOC_BLOCK = 16" "S5_OP_RPC_DELETE_BLOCK = 20"
  by (simp_all add: op_code_defs)

definition PfOpCode2Str :: "u8 \<Rightarrow> string" where
  "PfOpCode2Str op =
     (if op = S5_OP_READ then ''S5_OP_READ''
      else if op = S5_OP_WRITE then ''S5_OP_WRITE''
      else if op = S5_OP_REPLICATE_WRITE then ''S5_OP_REPLICATE_WRITE''
      else if op = S5_OP_COW_READ then ''S5_OP_COW_READ''
      else if op = S5_OP_COW_WRITE then ''S5_OP_COW_WRITE''
      else if op = S5_OP_RECOVERY_READ then ''S5_OP_RECOVERY_READ''
      else if op = S5_OP_RECOVERY_WRITE then ''S5_OP_RECOVERY_WRITE''
      else if op = S5_OP_HEARTBEAT then ''S5_OP_HEARTBEAT''
      else ''UNKNOWN_TYPE'')"

section \<open>Completion status\<close>

abbreviation (input) MSG_STATUS_SUCCESS :: u16 where "MSG_STATUS_SUCCESS \<equiv> 0x0"
abbreviation (input) MSG_STATUS_INVALID_OPCODE :: u16 where "MSG_STATUS_INVALID_OPCODE \<equiv> 0x1"
abbreviation (input) MSG_STATUS_INVALID_FIELD :: u16 where "MSG_STATUS_INVALID_FIELD \<equiv> 0x2"
abbreviation (input) MSG_STATUS_INTERNAL :: u16 where "MSG_STATUS_INTERNAL \<equiv> 0x6"
abbreviation (input) MSG_STATUS_INVALID_STATE :: u16 where "MSG_STATUS_INVALID_STATE \<equiv> 0x9"
abbreviation (input) MSG_STATUS_NOT_PRIMARY :: u16 where "MSG_STATUS_NOT_PRIMARY \<equiv> 0xC0"
abbreviation (input) MSG_STATUS_NOSPACE :: u16 where "MSG_STATUS_NOSPACE \<equiv> 0xC1"
abbreviation (input) MSG_STATUS_READONLY :: u16 where "MSG_STATUS_READONLY \<equiv> 0xC2"
abbreviation (input) MSG_STATUS_CONN_LOST :: u16 where "MSG_STATUS_CONN_LOST \<equiv> 0xC3"
abbreviation (input) MSG_STATUS_AIOERROR :: u16 where "MSG_STATUS_AIOERROR \<equiv> 0xC4"
abbreviation (input) MSG_STATUS_LOGFAILED :: u16 where "MSG_STATUS_LOGFAILED \<equiv> 0xCA"
abbreviation (input) MSG_STATUS_REP_TO_PRIMARY :: u16 where "MSG_STATUS_REP_TO_PRIMARY \<equiv> 0xCE"
abbreviation (input) MSG_STATUS_NO_RESOURCE :: u16 where "MSG_STATUS_NO_RESOURCE \<equiv> 0xCF"
abbreviation (input) MSG_STATUS_DEGRADE :: u16 where "MSG_STATUS_DEGRADE \<equiv> 0x2000"
abbreviation (input) MSG_STATUS_REOPEN :: u16 where "MSG_STATUS_REOPEN \<equiv> 0x4000"

text \<open>The table of the enumerators, in the order of the \<open>switch\<close>.\<close>

definition status_names :: "(u16 \<times> string) list" where
  "status_names =
    [(0x0, ''MSG_STATUS_SUCCESS''), (0x1, ''MSG_STATUS_INVALID_OPCODE''),
     (0x2, ''MSG_STATUS_INVALID_FIELD''), (0x3, ''MSG_STATUS_CMDID_CONFLICT''),
     (0x4, ''MSG_STATUS_DATA_XFER_ERROR''), (0x5, ''MSG_STATUS_POWER_LOSS''),
     (0x6, ''MSG_STATUS_INTERNAL''), (0x7, ''MSG_STATUS_ABORT_REQ''),
     (0x8, ''MSG_STATUS_INVALID_IO_TIMEOUT''), (0x09, ''MSG_STATUS_INVALID_STATE''),
     (0x80, ''MSG_STATUS_LBA_RANGE''), (0x82, ''MSG_STATUS_NS_NOT_READY''),
     (0xC0, ''MSG_STATUS_NOT_PRIMARY''), (0xC1, ''MSG_STATUS_NOSPACE''),
     (0xC2, ''MSG_STATUS_READONLY''), (0xC3, ''MSG_STATUS_CONN_LOST''),
     (0xC4, ''MSG_STATUS_AIOERROR''), (0xC5, ''MSG_STATUS_ERROR_HANDLED''),
     (0xC6, ''MSG_STATUS_ERROR_UNRECOVERABLE''), (0xC7, ''MSG_STATUS_AIO_TIMEOUT''),
     (0xC8, ''MSG_STATUS_REPLICATING_TIMEOUT''), (0xC9, ''MSG_STATUS_NODE_LOST''),
     (0xCA, ''MSG_STATUS_LOGFAILED''), (0xCB, ''MSG_STATUS_METRO_REPLICATING_FAILED''),
     (0xCC, ''MSG_STATUS_RECOVERY_FAILED''), (0xCD, ''MSG_STATUS_SSD_ERROR''),
     (0xCE, ''MSG_STATUS_REP_TO_PRIMARY''), (0xCF, ''MSG_STATUS_NO_RESOURCE''),
     (0x2000, ''MSG_STATUS_DEGRADE''), (0x4000, ''MSG_STATUS_REOPEN'')]"

fun digits_of :: "nat \<Rightarrow> nat \<Rightarrow> string" where
  "digits_of 0 n = ''''"
| "digits_of (Suc k) n =
     (if n < 10 then [char_of (48 + n)] else digits_of k (n div 10) @ [char_of (48 + n mod 10)])"

text \<open>
  The default branch prints the code with \<open>%d\<close>. A 16-bit value has at most five
  decimal digits, which is the fuel of \<open>digits_of\<close>.
\<close>

definition PfMessageStatus2Str :: "u16 \<Rightarrow> string" where
  "PfMessageStatus2Str msg_st =
     (case map_of status_names msg_st of
        Some name \<Rightarrow> name
      | None \<Rightarrow> ''Unknown status:'' @ digits_of 5 (unat msg_st))"

section \<open>Message heads\<close>

record PfMessageHead =
  m_opcode :: u8
  m_command_id :: u16
  m_snap_seq :: u32
  m_vol_id :: u64
  m_buf_addr :: u64
  m_rkey :: u32
  m_meta_ver :: u16
  m_offset :: u64
  m_length :: u32
  m_command_seq :: u32

record PfMessageReply =
  r_status :: u16
  r_meta_ver :: u16
  r_command_id :: u16
  r_command_seq :: u32

definition SNAP_SEQ_HEAD :: u32 where "SNAP_SEQ_HEAD = 0xffffffff"

section \<open>I/O sub tasks\<close>

text \<open>
  A sub task with the command head and the data buffer of its parent request.
  \<open>io_id\<close> is the identity of the object (its address). The \<open>next\<close> pointer, which
  only chains tasks that wait for a copy on write, is the position in a list.
\<close>

record io_sub_task =
  io_id :: nat
  io_opcode :: u8
  io_rep_id :: u64
  io_cmd :: PfMessageHead
  io_data :: "u8 list"

section \<open>Properties\<close>

text \<open>
  The direction bits of the operation codes: every write operation of the
  protocol is classified as a write, every read as a read, and the operations
  without data as neither; no code is both.
\<close>

theorem op_direction:
  "list_all IS_WRITE_OP [S5_OP_WRITE, S5_OP_REPLICATE_WRITE, S5_OP_COW_WRITE, S5_OP_RECOVERY_WRITE] \<and>
   list_all IS_READ_OP [S5_OP_READ, S5_OP_COW_READ, S5_OP_RECOVERY_READ] \<and>
   list_all (\<lambda>op. \<not> IS_WRITE_OP op \<and> \<not> IS_READ_OP op)
     [S5_OP_HEARTBEAT, S5_OP_RPC_ALLOC_BLOCK, S5_OP_RPC_DELETE_BLOCK] \<and>
   (\<forall>op. \<not> (IS_WRITE_OP op \<and> IS_READ_OP op))"
  by (simp add: op_code_values IS_WRITE_OP_def IS_READ_OP_def WRITE_OP_def READ_OP_def)

end
