(* ===== verification/Lmt.thy ===== *)
theory Lmt
  imports Message Bitmap
begin

text \<open>
  The logical mapping table of \<open>common/include/pf_lmt.h\<close>: the key of an object,
  the entries of its snapshot chain and the two list routines of the header. The
  routines are modelled twice. \<open>insert_lmt_entry_list\<close> and \<open>delete_matched_entry\<close>
  follow the code on pointers (addresses and a \<open>prev_snap\<close> field for each), where a
  loop may run forever; \<open>insert_chain\<close> and \<open>filter\<close> are the same operations on the
  list of a chain. The refinement lemmas show that on every well-formed chain the
  pointer routines end and compute the list versions, which the flash store uses.
\<close>

section \<open>Keys and entries\<close>

text \<open>The reserved words of a key are always 0 and not compared by \<open>operator==\<close>.\<close>

record lmt_key =
  vol_id :: u64
  slba :: u64

datatype EntryStatus = UNINIT | NORMAL | COPYING | DELAY_DELETE_AFTER_COW | RECOVERYING

text \<open>
  \<open>e_addr\<close> is the address of an entry, its slot in \<open>lmt_entry_pool\<close>; \<open>prev_snap\<close> is
  the position in the list that represents a chain, newest snapshot first.
  \<open>waiting_io\<close> is the list chained by \<open>IoSubTask::next\<close>. The bitmap and the buffer
  of a recovery are \<open>None\<close> where the pointers are NULL.
\<close>

record lmt_entry =
  e_addr :: nat
  e_offset :: u64
  e_snap_seq :: u32
  e_status :: EntryStatus
  e_waiting_io :: "io_sub_task list"
  e_recovery_bmp :: "pf_bitmap option"
  e_recovery_buf :: "(nat \<Rightarrow> u8) option"

definition init_for_redo :: "lmt_entry \<Rightarrow> lmt_entry" where
  "init_for_redo e = e\<lparr>e_waiting_io := [], e_recovery_bmp := None, e_recovery_buf := None\<rparr>"

definition lmt_key_hash :: "lmt_key \<Rightarrow> u64" where
  "lmt_key_hash k =
     ((push_bit 8 (vol_id k) * slba k) XOR 14695981039346656037) * 1099511628211"

section \<open>The list routines on pointers\<close>

text \<open>
  A pointer is \<open>nat option\<close>, \<open>prv a\<close> is the field \<open>prev_snap\<close> of the entry at address
  \<open>a\<close>. The predicates given by the callers read fields that the routines do not
  change, so they are predicates on addresses. The result is \<open>None\<close> when a loop does
  not end.
\<close>

partial_function (option) insert_loop ::
  "(nat \<Rightarrow> bool) \<Rightarrow> (nat \<Rightarrow> bool) \<Rightarrow> nat \<Rightarrow> nat \<Rightarrow> (nat \<Rightarrow> nat option) \<Rightarrow>
     (int \<times> (nat \<Rightarrow> nat option)) option" where
  "insert_loop after_entry same_entry entry h prv =
     (if same_entry h then Some (- EEXIST, prv)
      else case prv h of
          None \<Rightarrow> Some (0, prv(h := Some entry))
        | Some b \<Rightarrow>
            if after_entry b then insert_loop after_entry same_entry entry b prv
            else Some (0, prv(entry := Some b, h := Some entry)))"

definition insert_lmt_entry_list ::
  "nat option \<Rightarrow> nat \<Rightarrow> (nat \<Rightarrow> bool) \<Rightarrow> (nat \<Rightarrow> bool) \<Rightarrow> (nat \<Rightarrow> nat option) \<Rightarrow>
     (fault + int \<times> nat option \<times> (nat \<Rightarrow> nat option)) option" where
  "insert_lmt_entry_list head_ref entry after_entry same_entry prv =
     (case head_ref of
        None \<Rightarrow> Some (Inl Null_deref)
      | Some h \<Rightarrow>
          if same_entry h then Some (Inr (- EEXIST, head_ref, prv))
          else if \<not> after_entry h then Some (Inr (0, Some entry, prv(entry := Some h)))
          else map_option (\<lambda>(rc, prv'). Inr (rc, head_ref, prv'))
                 (insert_loop after_entry same_entry entry h prv))"

partial_function (option) delete_heads ::
  "(nat \<Rightarrow> bool) \<Rightarrow> (nat \<Rightarrow> nat option) \<Rightarrow> nat option \<Rightarrow> nat list \<Rightarrow>
     (nat option \<times> nat list) option" where
  "delete_heads match prv head_ref freed =
     (case head_ref of
        None \<Rightarrow> Some (None, freed)
      | Some t \<Rightarrow>
          if match t then delete_heads match prv (prv t) (freed @ [t])
          else Some (head_ref, freed))"

text \<open>
  The nested loops that unlink matches behind the head. \<open>prev\<close> is not initialised
  before the first element is skipped; using it then is the branch \<open>Null_deref\<close>.
\<close>

partial_function (option) delete_rest ::
  "(nat \<Rightarrow> bool) \<Rightarrow> nat option \<Rightarrow> nat option \<Rightarrow> (nat \<Rightarrow> nat option) \<Rightarrow> nat list \<Rightarrow>
     (fault + (nat \<Rightarrow> nat option) \<times> nat list) option" where
  "delete_rest match prev temp prv freed =
     (case temp of
        None \<Rightarrow> Some (Inr (prv, freed))
      | Some a \<Rightarrow>
          if \<not> match a then delete_rest match (Some a) (prv a) prv freed
          else case prev of
              None \<Rightarrow> Some (Inl Null_deref)
            | Some b \<Rightarrow>
                delete_rest match prev (prv a) (prv(b := prv a)) (freed @ [a]))"

text \<open>The result: the new head, the new links and the freed entries, in order.\<close>

definition delete_matched_entry ::
  "nat option \<Rightarrow> (nat \<Rightarrow> bool) \<Rightarrow> (nat \<Rightarrow> nat option) \<Rightarrow>
     (fault + nat option \<times> (nat \<Rightarrow> nat option) \<times> nat list) option" where
  "delete_matched_entry head_ref match prv =
     Option.bind (delete_heads match prv head_ref []) (\<lambda>(h, freed).
       map_option (\<lambda>r. bnd r (\<lambda>(prv', freed'). Inr (h, prv', freed')))
         (delete_rest match None h prv freed))"

section \<open>The list routines on chains\<close>

fun insert_behind ::
  "('e \<Rightarrow> bool) \<Rightarrow> ('e \<Rightarrow> bool) \<Rightarrow> 'e \<Rightarrow> 'e \<Rightarrow> 'e list \<Rightarrow> int \<times> 'e list" where
  "insert_behind after_entry same_entry e h [] =
     (if same_entry h then (- EEXIST, [h]) else (0, [h, e]))"
| "insert_behind after_entry same_entry e h (b # t) =
     (if same_entry h then (- EEXIST, h # b # t)
      else if after_entry b
        then (case insert_behind after_entry same_entry e b t of (rc, r) \<Rightarrow> (rc, h # r))
      else (0, h # e # b # t))"

definition insert_chain ::
  "('e \<Rightarrow> bool) \<Rightarrow> ('e \<Rightarrow> bool) \<Rightarrow> 'e \<Rightarrow> 'e list \<Rightarrow> fault + int \<times> 'e list" where
  "insert_chain after_entry same_entry e c =
     (case c of
        [] \<Rightarrow> Inl Null_deref
      | h # t \<Rightarrow>
          if same_entry h then Inr (- EEXIST, c)
          else if \<not> after_entry h then Inr (0, e # c)
          else Inr (insert_behind after_entry same_entry e h t))"

section \<open>Refinement of the pointer routines\<close>

primrec is_chain :: "(nat \<Rightarrow> nat option) \<Rightarrow> nat option \<Rightarrow> nat list \<Rightarrow> bool" where
  "is_chain prv h [] \<longleftrightarrow> h = None"
| "is_chain prv h (x # xs) \<longleftrightarrow> h = Some x \<and> is_chain prv (prv x) xs"

lemma is_chain_other [simp]: "y \<notin> set xs \<Longrightarrow> is_chain (prv(y := z)) h xs = is_chain prv h xs"
  by (induction xs arbitrary: h) auto

lemma delete_heads_chain:
  "is_chain prv h xs \<Longrightarrow>
     \<exists>h'. delete_heads match prv h freed = Some (h', freed @ takeWhile match xs) \<and>
       is_chain prv h' (dropWhile match xs)"
proof (induction xs arbitrary: h freed)
  case Nil
  then show ?case by (subst delete_heads.simps) simp
next
  case (Cons x xs)
  then show ?case
    using Cons.IH [of "prv x" "freed @ [x]"] by (subst delete_heads.simps) simp
qed

lemma delete_rest_chain:
  "is_chain prv t xs \<Longrightarrow> distinct (b # xs) \<Longrightarrow> prv b = t \<Longrightarrow>
     \<exists>prv'. delete_rest match (Some b) t prv freed = Some (Inr (prv', freed @ filter match xs)) \<and>
       is_chain prv' (prv' b) (filter (\<lambda>x. \<not> match x) xs) \<and>
       (\<forall>y. y \<notin> set (b # xs) \<longrightarrow> prv' y = prv y)"
proof (induction xs arbitrary: b t prv freed)
  case Nil
  then show ?case by (simp add: delete_rest.simps)
next
  case (Cons a xs)
  show ?case
  proof (cases "match a")
    case True
    let ?prv = "prv(b := prv a)"
    have "is_chain ?prv (prv a) xs" "distinct (b # xs)" "?prv b = prv a"
      using Cons.prems by simp_all
    then obtain prv' where "delete_rest match (Some b) (prv a) ?prv (freed @ [a])
          = Some (Inr (prv', (freed @ [a]) @ filter match xs))"
      "is_chain prv' (prv' b) (filter (\<lambda>x. \<not> match x) xs)"
      "\<forall>y. y \<notin> set (b # xs) \<longrightarrow> prv' y = ?prv y"
      using Cons.IH [of ?prv "prv a" b "freed @ [a]"] by blast
    then show ?thesis
      using True Cons.prems
      by (intro exI [of _ prv']) (subst delete_rest.simps, simp)
  next
    case False
    then obtain prv' where "delete_rest match (Some a) (prv a) prv freed
          = Some (Inr (prv', freed @ filter match xs))"
      "is_chain prv' (prv' a) (filter (\<lambda>x. \<not> match x) xs)"
      "\<forall>y. y \<notin> set (a # xs) \<longrightarrow> prv' y = prv y"
      using Cons.IH [of prv "prv a" a freed] Cons.prems by auto
    moreover have "prv' b = Some a" using calculation(3) Cons.prems by auto
    ultimately show ?thesis
      using False Cons.prems
      by (intro exI [of _ prv']) (subst delete_rest.simps, simp)
  qed
qed

lemma takeWhile_dropWhile_filter:
  "takeWhile P xs @ filter P (dropWhile P xs) = filter P xs"
  by (induction xs) auto

lemma dropWhile_filter_not:
  "filter (\<lambda>x. \<not> P x) (dropWhile P xs) = filter (\<lambda>x. \<not> P x) xs"
  by (induction xs) auto

text \<open>
  (C9) \<open>delete_matched_entry\<close> ends on every chain, whatever entries match. It frees
  exactly the matching entries, each once and in chain order, the remaining entries
  stay linked in their order, and no entry outside the chain is touched.
\<close>

theorem delete_matched_entry_correct:
  assumes "is_chain prv h xs" and "distinct xs"
  shows "\<exists>h' prv'. delete_matched_entry h match prv = Some (Inr (h', prv', filter match xs)) \<and>
    is_chain prv' h' (filter (\<lambda>x. \<not> match x) xs) \<and> (\<forall>y. y \<notin> set xs \<longrightarrow> prv' y = prv y)"
proof -
  obtain h' where heads: "delete_heads match prv h [] = Some (h', takeWhile match xs)"
    and ch: "is_chain prv h' (dropWhile match xs)"
    using delete_heads_chain [OF assms(1), of match "[]"] by auto
  show ?thesis
  proof (cases "dropWhile match xs")
    case Nil
    have "filter match xs = takeWhile match xs" "filter (\<lambda>x. \<not> match x) xs = []"
      unfolding takeWhile_dropWhile_filter [of match xs, symmetric]
        dropWhile_filter_not [of match xs, symmetric] by (simp_all only: Nil) simp_all
    moreover have "h' = None" using ch Nil by simp
    ultimately show ?thesis
      using heads by (simp add: delete_matched_entry_def) (subst delete_rest.simps, simp)
  next
    case (Cons b ys)
    then have nb: "\<not> match b" by (metis dropWhile_eq_Cons_conv)
    have sub: "set (b # ys) \<subseteq> set xs" unfolding Cons [symmetric] by (auto dest: set_dropWhileD)
    have d: "distinct (b # ys)" using assms(2) Cons by (metis distinct_dropWhile)
    obtain prv' where r: "delete_rest match (Some b) (prv b) prv (takeWhile match xs)
          = Some (Inr (prv', takeWhile match xs @ filter match ys))"
      and c': "is_chain prv' (prv' b) (filter (\<lambda>x. \<not> match x) ys)"
      and other: "\<forall>y. y \<notin> set (b # ys) \<longrightarrow> prv' y = prv y"
      using delete_rest_chain [OF _ d refl, of prv match "takeWhile match xs"] ch Cons by auto
    have f: "filter match xs = takeWhile match xs @ filter match ys"
      "filter (\<lambda>x. \<not> match x) xs = b # filter (\<lambda>x. \<not> match x) ys"
      using takeWhile_dropWhile_filter [of match xs] dropWhile_filter_not [of match xs] Cons nb
      by simp_all
    have "delete_matched_entry h match prv = Some (Inr (h', prv', filter match xs))"
      using heads ch Cons nb r f(1)
      by (simp add: delete_matched_entry_def) (subst delete_rest.simps, simp)
    then show ?thesis using c' ch Cons f(2) other sub by auto
  qed
qed

theorem delete_matched_entry_correct_witness:
  "\<exists>h' prv'. delete_matched_entry (Some 4) (\<lambda>a. a = 7) ((\<lambda>a. None)(4 := Some 7, 7 := Some 2))
       = Some (Inr (h', prv', [7])) \<and> is_chain prv' h' [4, 2]"
  using delete_matched_entry_correct [of "(\<lambda>a. None)(4 := Some 7, 7 := Some 2)" "Some 4" "[4, 7, 2]"
      "\<lambda>a. a = 7"] by auto


section \<open>Insertion\<close>

lemma insert_loop_chain:
  "is_chain prv (prv h) t \<Longrightarrow> distinct (h # t) \<Longrightarrow> e \<notin> set (h # t) \<Longrightarrow> prv e = None \<Longrightarrow>
     insert_behind after_entry same_entry e h t = (rc, c) \<Longrightarrow>
     \<exists>prv'. insert_loop after_entry same_entry e h prv = Some (rc, prv') \<and>
       is_chain prv' (Some h) c \<and> (\<forall>y. y \<notin> insert e (set (h # t)) \<longrightarrow> prv' y = prv y)"
proof (induction t arbitrary: h rc c)
  case Nil
  then show ?case by (subst insert_loop.simps) (auto split: if_splits)
next
  case (Cons b t)
  show ?case
  proof (cases "same_entry h \<or> \<not> after_entry b")
    case True
    then show ?thesis using Cons.prems by (subst insert_loop.simps) (auto split: if_splits)
  next
    case False
    obtain rc' c' where r: "insert_behind after_entry same_entry e b t = (rc', c')"
      by (rule prod.exhaust)
    have "is_chain prv (prv b) t" "distinct (b # t)" "e \<notin> set (b # t)" "prv h = Some b"
      using Cons.prems by simp_all
    then obtain prv' where "insert_loop after_entry same_entry e b prv = Some (rc', prv')"
      "is_chain prv' (Some b) c'" "\<forall>y. y \<notin> insert e (set (b # t)) \<longrightarrow> prv' y = prv y"
      using Cons.IH [OF _ _ _ Cons.prems(4) r] by blast
    moreover have "prv' h = Some b" using calculation(3) Cons.prems by auto
    ultimately show ?thesis
      using False Cons.prems r \<open>prv h = Some b\<close>
      by (subst insert_loop.simps) auto
  qed
qed

text \<open>
  (C10) \<open>insert_lmt_entry_list\<close> ends on every non-empty chain and links the new entry
  where the list version puts it, provided the \<open>prev_snap\<close> field of the new entry is
  NULL: the branch that appends at the end of the chain does not write this field.
\<close>

theorem insert_lmt_entry_list_correct:
  assumes "is_chain prv h xs" and "xs \<noteq> []" and "distinct xs" and "e \<notin> set xs" and "prv e = None"
  shows "\<exists>rc h' prv' c. insert_lmt_entry_list h e after_entry same_entry prv = Some (Inr (rc, h', prv')) \<and>
    insert_chain after_entry same_entry e xs = Inr (rc, c) \<and> is_chain prv' h' c \<and>
    (\<forall>y. y \<notin> insert e (set xs) \<longrightarrow> prv' y = prv y)"
proof -
  obtain x t where xs: "xs = x # t" using assms(2) by (cases xs) auto
  obtain rc c where r: "insert_behind after_entry same_entry e x t = (rc, c)" by (rule prod.exhaust)
  obtain prv' where "insert_loop after_entry same_entry e x prv = Some (rc, prv')"
    "is_chain prv' (Some x) c" "\<forall>y. y \<notin> insert e (set (x # t)) \<longrightarrow> prv' y = prv y"
    using insert_loop_chain [of prv x t e, OF _ _ _ assms(5) r] assms xs by auto
  then show ?thesis
    using assms xs r by (auto simp: insert_lmt_entry_list_def insert_chain_def)
qed

theorem insert_lmt_entry_list_correct_witness:
  "\<exists>rc h' prv' c. insert_lmt_entry_list (Some 4) 9 (\<lambda>a. a = 4) (\<lambda>a. False) ((\<lambda>a. None)(4 := Some 7))
       = Some (Inr (rc, h', prv')) \<and>
     insert_chain (\<lambda>a. a = 4) (\<lambda>a. False) 9 [4, 7] = Inr (rc, c) \<and> is_chain prv' h' c"
  using insert_lmt_entry_list_correct [of "(\<lambda>a. None)(4 := Some 7)" "Some 4" "[4, 7]" 9
      "\<lambda>a. a = 4" "\<lambda>a. False"] by fastforce

section \<open>Chains in snapshot order\<close>

text \<open>A chain is in order when the snapshot sequence numbers strictly decrease.\<close>

abbreviation desc_chain :: "lmt_entry list \<Rightarrow> bool" where
  "desc_chain c \<equiv> sorted_wrt (\<lambda>a b. e_snap_seq b < e_snap_seq a) c"

text \<open>
  The walk of the read path: the first entry whose sequence number is not above the
  requested one.
\<close>

definition chain_at :: "u32 \<Rightarrow> lmt_entry list \<Rightarrow> lmt_entry option" where
  "chain_at seq c = find (\<lambda>e. \<not> seq < e_snap_seq e) c"

lemma chain_at_Nil [simp]: "chain_at seq [] = None"
  by (simp add: chain_at_def)

lemma chain_at_Cons [simp]:
  "chain_at seq (e # c) = (if seq < e_snap_seq e then chain_at seq c else Some e)"
  by (simp add: chain_at_def)

lemma chain_at_SomeD: "chain_at seq c = Some e \<Longrightarrow> e \<in> set c \<and> e_snap_seq e \<le> seq"
  by (induction c) (auto split: if_splits)

lemma chain_at_newest:
  "desc_chain c \<Longrightarrow> chain_at seq c = Some e \<Longrightarrow> x \<in> set c \<Longrightarrow> e_snap_seq x \<le> seq \<Longrightarrow>
     e_snap_seq x \<le> e_snap_seq e"
  by (induction c) (auto split: if_splits)

lemma chain_at_None: "chain_at seq c = None \<longleftrightarrow> (\<forall>e \<in> set c. seq < e_snap_seq e)"
  by (auto simp: chain_at_def find_None_iff)

lemma chain_at_filter:
  "chain_at seq c = Some e \<Longrightarrow> P e \<Longrightarrow> chain_at seq (filter P c) = Some e"
  by (induction c) (auto split: if_splits)

lemma desc_chain_distinct: "desc_chain c \<Longrightarrow> distinct (map e_snap_seq c)"
  by (induction c) auto

abbreviation newer :: "lmt_entry \<Rightarrow> lmt_entry \<Rightarrow> bool" where
  "newer e x \<equiv> e_snap_seq e < e_snap_seq x"

abbreviation same_seq :: "lmt_entry \<Rightarrow> lmt_entry \<Rightarrow> bool" where
  "same_seq e x \<equiv> e_snap_seq x = e_snap_seq e"

lemma insert_behind_desc:
  "desc_chain (h # t) \<Longrightarrow> e_snap_seq e < e_snap_seq h \<Longrightarrow>
     insert_behind (newer e) (same_seq e) e h t =
       (0, h # takeWhile (newer e) t @ e # dropWhile (newer e) t)"
  by (induction t arbitrary: h) auto

lemma insert_chain_desc:
  "desc_chain c \<Longrightarrow> c \<noteq> [] \<Longrightarrow>
     insert_chain (newer e) (same_seq e) e c =
       Inr (if e_snap_seq (hd c) = e_snap_seq e then (- EEXIST, c)
            else (0, takeWhile (newer e) c @ e # dropWhile (newer e) c))"
  by (cases c) (auto simp: insert_chain_def insert_behind_desc not_less)

lemma insert_chain_head:
  "c \<noteq> [] \<Longrightarrow> e_snap_seq (hd c) < e_snap_seq e \<Longrightarrow>
     insert_chain (newer e) (same_seq e) e c = Inr (0, e # c)"
  by (cases c) (auto simp: insert_chain_def)

lemma desc_insert:
  assumes "desc_chain c" and "e_snap_seq e \<notin> e_snap_seq ` set c"
  shows "desc_chain (takeWhile (newer e) c @ e # dropWhile (newer e) c)"
  using assms
proof (induction c)
  case Nil
  then show ?case by simp
next
  case (Cons h t)
  have "\<And>x. x \<in> set (dropWhile (newer e) t) \<Longrightarrow> x \<in> set t" by (rule set_dropWhileD)
  moreover have "\<And>x. x \<in> set (takeWhile (newer e) t) \<Longrightarrow> x \<in> set t" by (auto dest: set_takeWhileD)
  ultimately show ?case using Cons
    by (cases "e_snap_seq e < e_snap_seq h") (fastforce simp: not_less)+
qed

text \<open>
  (C11) Insertion in snapshot order, as redo and recovery use it. A new sequence
  number lands at the place that keeps the chain in order. A duplicate is reported
  with \<open>-EEXIST\<close> only at the head of the chain: behind the head it is inserted again,
  and the chain then holds the same sequence number twice.
\<close>

theorem insert_in_snapshot_order:
  assumes "desc_chain c" and "c \<noteq> []"
  shows "(e_snap_seq e \<notin> e_snap_seq ` set c \<longrightarrow>
      (\<exists>c'. insert_chain (newer e) (same_seq e) e c = Inr (0, c') \<and> desc_chain c' \<and>
        set c' = insert e (set c))) \<and>
    (e_snap_seq (hd c) = e_snap_seq e \<longrightarrow>
      insert_chain (newer e) (same_seq e) e c = Inr (- EEXIST, c)) \<and>
    (e_snap_seq e \<in> e_snap_seq ` set (tl c) \<longrightarrow>
      (\<exists>c'. insert_chain (newer e) (same_seq e) e c = Inr (0, c') \<and> \<not> distinct (map e_snap_seq c')))"
proof (intro conjI impI)
  let ?c = "takeWhile (newer e) c @ e # dropWhile (newer e) c"
  have set: "set ?c = insert e (set c)"
    using takeWhile_dropWhile_id [of "newer e" c] by (metis list.simps(15) set_append Un_insert_right)
  show "\<exists>c'. insert_chain (newer e) (same_seq e) e c = Inr (0, c') \<and> desc_chain c' \<and>
        set c' = insert e (set c)" if "e_snap_seq e \<notin> e_snap_seq ` set c"
    using that assms desc_insert [OF assms(1) that] set
    by (cases c) (auto simp: insert_chain_desc)
  show "insert_chain (newer e) (same_seq e) e c = Inr (- EEXIST, c)"
    if "e_snap_seq (hd c) = e_snap_seq e"
    using that assms by (simp add: insert_chain_desc)
  show "\<exists>c'. insert_chain (newer e) (same_seq e) e c = Inr (0, c') \<and> \<not> distinct (map e_snap_seq c')"
    if dup: "e_snap_seq e \<in> e_snap_seq ` set (tl c)"
  proof -
    have ne: "e_snap_seq (hd c) \<noteq> e_snap_seq e" using assms dup by (cases c) auto
    obtain x where "x \<in> set (tl c)" "e_snap_seq x = e_snap_seq e" using dup by auto
    then have x: "x \<in> set c" "e_snap_seq x = e_snap_seq e" by (auto intro: list.set_sel)
    have "x \<notin> set (takeWhile (newer e) c)" using x(2) by (auto dest: set_takeWhileD)
    then have "x \<in> set (dropWhile (newer e) c)"
      using x(1) takeWhile_dropWhile_id [of "newer e" c] by (metis Un_iff set_append)
    then have "e_snap_seq e \<in> e_snap_seq ` set (dropWhile (newer e) c)"
      using x(2) by (metis image_eqI)
    then show ?thesis using assms ne by (simp add: insert_chain_desc)
  qed
qed

definition example_entry :: "u32 \<Rightarrow> lmt_entry" where
  "example_entry seq = \<lparr>e_addr = unat seq, e_offset = ucast seq, e_snap_seq = seq, e_status = NORMAL,
     e_waiting_io = [], e_recovery_bmp = None, e_recovery_buf = None\<rparr>"

theorem insert_in_snapshot_order_witness:
  "desc_chain [example_entry 5, example_entry 3] \<and>
   (\<exists>c'. insert_chain (newer (example_entry 3)) (same_seq (example_entry 3)) (example_entry 3)
       [example_entry 5, example_entry 3] = Inr (0, c') \<and> \<not> distinct (map e_snap_seq c'))"
  using insert_in_snapshot_order [of "[example_entry 5, example_entry 3]" "example_entry 3"]
  by (simp add: example_entry_def)

end
