(* ===== verification/Store_State.thy ===== *)
theory Store_State
  imports Lmt Mem_Pool Volume_Type
begin

text \<open>
  The state of a flash store (\<open>PfFlashStore\<close> of \<open>pfs/include/pf_flash_store.h\<close> with
  its \<open>PfRedoLog\<close>) and the device below it. The device is modelled by the typed
  content of its areas: the head page, the redo log pages and the metadata blocks by
  their byte offset, and the object area byte by byte. Calls that may fail for a
  reason outside the program (a synchronous transfer, an aligned allocation) take
  their outcome from the stream \<open>d_err\<close>: entry \<open>n\<close> is the error number of the
  \<open>n\<close>-th such call, 0 for success. The modelled engine is \<open>PfAioEngine\<close>, whose
  synchronous calls are \<open>pread\<close> and \<open>pwrite\<close>.
\<close>

section \<open>The head page\<close>

abbreviation (input) FIRST_METADATA_ZONE :: nat where "FIRST_METADATA_ZONE \<equiv> 0"
abbreviation (input) SECOND_METADATA_ZONE :: nat where "SECOND_METADATA_ZONE \<equiv> 1"
abbreviation (input) FIRST_REDOLOG_ZONE :: nat where "FIRST_REDOLOG_ZONE \<equiv> 2"
abbreviation (input) SECOND_REDOLOG_ZONE :: nat where "SECOND_REDOLOG_ZONE \<equiv> 3"

datatype meta_type = FREELIST | TRIMLIST | LMT | METADATA | REDOLOG | CURRENT | OPPOSITE

record HeadPage =
  magic :: u32
  version :: u32
  uuid :: "u8 list"
  key_size :: u32
  entry_size :: u32
  objsize :: u64
  tray_capacity :: u64
  meta_size :: u64
  objsize_order :: nat
  free_list_position_first :: u64
  free_list_position_second :: u64
  free_list_size_first :: u64
  free_list_size_second :: u64
  trim_list_position_first :: u64
  trim_list_position_second :: u64
  trim_list_size :: u64
  lmt_position_first :: u64
  lmt_position_second :: u64
  lmt_size :: u64
  redolog_position_first :: u64
  redolog_position_second :: u64
  redolog_size :: u64
  redolog_phase :: int
  current_metadata :: nat
  current_redolog :: nat
  md5_first :: int
  md5_second :: int
  create_time :: string

definition get_meta_position :: "HeadPage \<Rightarrow> meta_type \<Rightarrow> meta_type \<Rightarrow> fault + u64" where
  "get_meta_position h mtype which =
     (case mtype of
        FREELIST \<Rightarrow>
          Inr (if which = CURRENT
               then (if current_metadata h = FIRST_METADATA_ZONE
                     then free_list_position_first h else free_list_position_second h)
               else (if current_metadata h = FIRST_METADATA_ZONE
                     then free_list_position_second h else free_list_position_first h))
      | TRIMLIST \<Rightarrow>
          Inr (if which = CURRENT
               then (if current_metadata h = FIRST_METADATA_ZONE
                     then trim_list_position_first h else trim_list_position_second h)
               else (if current_metadata h = FIRST_METADATA_ZONE
                     then trim_list_position_second h else trim_list_position_first h))
      | LMT \<Rightarrow>
          Inr (if which = CURRENT
               then (if current_metadata h = FIRST_METADATA_ZONE
                     then lmt_position_first h else lmt_position_second h)
               else (if current_metadata h = FIRST_METADATA_ZONE
                     then lmt_position_second h else lmt_position_first h))
      | REDOLOG \<Rightarrow>
          Inr (if which = CURRENT
               then (if current_redolog h = FIRST_REDOLOG_ZONE
                     then redolog_position_first h else redolog_position_second h)
               else (if current_redolog h = FIRST_REDOLOG_ZONE
                     then redolog_position_second h else redolog_position_first h))
      | _ \<Rightarrow> Inl Fatal_exit)"

definition meta_positon_2str :: "meta_type \<Rightarrow> nat \<Rightarrow> fault + string" where
  "meta_positon_2str mtype which =
     (case mtype of
        REDOLOG \<Rightarrow> Inr (if which = FIRST_REDOLOG_ZONE then ''[FIRST_LOGZONE]'' else ''[SECOND_LOGZONE]'')
      | METADATA \<Rightarrow> Inr (if which = FIRST_METADATA_ZONE then ''[FIRST_METAZONE]'' else ''[SECOND_METAZONE]'')
      | _ \<Rightarrow> Inl Fatal_exit)"

definition oppsite_md_zone :: "HeadPage \<Rightarrow> nat" where
  "oppsite_md_zone h =
     (if current_metadata h = FIRST_METADATA_ZONE then SECOND_METADATA_ZONE else FIRST_METADATA_ZONE)"

definition oppsite_redolog_zone :: "HeadPage \<Rightarrow> nat" where
  "oppsite_redolog_zone h =
     (if current_redolog h = FIRST_REDOLOG_ZONE then SECOND_REDOLOG_ZONE else FIRST_REDOLOG_ZONE)"

text \<open>The position of the redo log zone \<open>which\<close>; this type never takes the fatal branch.\<close>

definition redolog_position :: "HeadPage \<Rightarrow> meta_type \<Rightarrow> u64" where
  "redolog_position h which = (case get_meta_position h REDOLOG which of Inr p \<Rightarrow> p | Inl _ \<Rightarrow> 0)"

section \<open>Object identifiers and offsets\<close>

definition obj_id_to_offset :: "HeadPage \<Rightarrow> int \<Rightarrow> u64" where
  "obj_id_to_offset h obj_id = push_bit (objsize_order h) (word_of_int obj_id) + meta_size h"

text \<open>All callers cast the result of \<open>offset_to_obj_id\<close> to a 32-bit \<open>int\<close>.\<close>

definition offset_to_obj_id :: "HeadPage \<Rightarrow> u64 \<Rightarrow> int" where
  "offset_to_obj_id h off = sint (ucast (drop_bit (objsize_order h) (off - meta_size h)) :: 32 word)"

definition obj_count :: "HeadPage \<Rightarrow> int" where
  "obj_count h = sint (ucast (drop_bit (objsize_order h) (tray_capacity h - meta_size h)) :: 32 word)"

section \<open>The device\<close>

datatype redo_item =
    ALLOCATE_OBJ lmt_key lmt_entry int
  | TRIM_OBJ lmt_key lmt_entry int
  | FREE_OBJ int int int
  | SNAP_SEQ_CHANGE lmt_key lmt_entry u32
  | STATUS_CHANGE lmt_key lmt_entry EntryStatus

text \<open>
  A page of the redo log: its phase, and the item unless the type field holds no
  known type. A page of zeros has phase 0 and type 0.
\<close>

record log_page =
  lp_phase :: int
  lp_item :: "redo_item option"

definition zero_log_page :: log_page where
  "zero_log_page = \<lparr>lp_phase = 0, lp_item = None\<rparr>"

text \<open>
  A block of the metadata area: integers (the heads of the lists and the object
  queues), or the keys and entries that the serializer puts at byte positions of its
  buffer. The flag of an entry tells whether its \<open>prev_snap\<close> field is not NULL.
\<close>

datatype ser_cell = Key_cell lmt_key | Entry_cell lmt_entry bool

datatype meta_block = Zero_block | Ints_block "int list" | Cells_block "nat \<Rightarrow> ser_cell option"

record device =
  d_head :: "HeadPage option"
  d_log :: "u64 \<Rightarrow> log_page"
  d_meta :: "u64 \<Rightarrow> meta_block"
  d_data :: "u64 \<Rightarrow> u8"
  d_cap :: u64
  d_err :: "nat \<Rightarrow> int"
  d_cnt :: nat
  d_md5 :: "meta_block list \<Rightarrow> int"

section \<open>The flash store\<close>

datatype compact_state =
  COMPACT_IDLE | COMPACT_TODO | COMPACT_STOP | COMPACT_RUNNING | COMPACT_ERROR

text \<open>
  What the store asks of other components, in the order of the calls: complete a
  task, hand it to the engine with media offset and length, hand it to the error
  handler, start a copy on write, hand a piece of a copy to the engine, wake the
  compaction thread, post the event to save the metadata, start one of the two threads.
\<close>

datatype store_action =
    Complete io_sub_task u16
  | Complete_zero io_sub_task
  | Submit_io io_sub_task u64 u32
  | Submit_error io_sub_task u16
  | Begin_cow lmt_key nat nat
  | Begin_cow_scc lmt_key nat nat
  | Submit_cow_io u8 u64 int
  | Signal_compaction
  | Post_savemd
  | Start_compaction_thread
  | Start_trim_thread

record flash_store =
  head :: HeadPage
  in_obj_offset_mask :: u64
  obj_lmt :: "(lmt_key \<times> lmt_entry list) list"
  free_obj_queue :: "int fixed_queue"
  trim_obj_queue :: "int fixed_queue"
  lmt_entry_pool :: mem_pool
  log_phase :: int
  log_size :: u64
  log_start :: u64
  log_current :: u64
  to_run_compact :: compact_state
  compact_lmt_exist :: bool
  use_scc :: bool
  dev :: device
  acts :: "store_action list"

abbreviation act :: "store_action \<Rightarrow> flash_store \<Rightarrow> flash_store" where
  "act a s \<equiv> s\<lparr>acts := acts s @ [a]\<rparr>"

text \<open>The outcome of the next external call.\<close>

definition ext_call :: "flash_store \<Rightarrow> int \<times> flash_store" where
  "ext_call s = (d_err (dev s) (d_cnt (dev s)), s\<lparr>dev := (dev s)\<lparr>d_cnt := d_cnt (dev s) + 1\<rparr>\<rparr>)"

definition sync_write_head :: "flash_store \<Rightarrow> int \<times> flash_store" where
  "sync_write_head s =
     (case ext_call s of (e, s1) \<Rightarrow>
        if e \<noteq> 0 then (- e, s1)
        else (0, s1\<lparr>dev := (dev s1)\<lparr>d_head := Some (head s1)\<rparr>\<rparr>))"

section \<open>Head page operations\<close>

text \<open>
  \<open>initialize_store_head\<close> with the uuid and the creation time that the libraries
  supply and the configured size of the metadata area. The allocation of the page
  buffer is the first external call.
\<close>

definition initialize_store_head :: "u8 list \<Rightarrow> string \<Rightarrow> u64 \<Rightarrow> flash_store \<Rightarrow> int \<times> flash_store" where
  "initialize_store_head uid time_str conf_meta_size s =
     (let h = \<lparr>magic = 0x3553424e, version = 0x00030000, uuid = uid, key_size = 32, entry_size = 48,
           objsize = DEFAULT_OBJ_SIZE, tray_capacity = d_cap (dev s), meta_size = conf_meta_size,
           objsize_order = DEFAULT_OBJ_SIZE_ORDER,
           free_list_position_first = OFFSET_FREE_LIST_FIRST,
           free_list_position_second = OFFSET_FREE_LIST_SECOND,
           free_list_size_first = push_bit 20 128 - 4096,
           free_list_size_second = push_bit 20 128,
           trim_list_position_first = OFFSET_TRIM_LIST_FIRST,
           trim_list_position_second = OFFSET_TRIM_LIST_SECOND,
           trim_list_size = push_bit 20 128,
           lmt_position_first = OFFSET_LMT_MAP_FIRST,
           lmt_position_second = OFFSET_LMT_MAP_SECOND,
           lmt_size = push_bit 30 2,
           redolog_position_first = OFFSET_REDO_LOG_FIRST,
           redolog_position_second = OFFSET_REDO_LOG_SECOND,
           redolog_size = REDO_LOG_SIZE, redolog_phase = 0,
           current_metadata = FIRST_METADATA_ZONE, current_redolog = FIRST_REDOLOG_ZONE,
           md5_first = 0, md5_second = 0, create_time = time_str\<rparr>
      in case ext_call (s\<lparr>head := h\<rparr>) of (nomem, s1) \<Rightarrow>
           if nomem \<noteq> 0 then (- ENOMEM, s1) else sync_write_head s1)"

text \<open>A page of zeros read as a head page.\<close>

definition zero_head :: HeadPage where
  "zero_head = \<lparr>magic = 0, version = 0, uuid = replicate 16 0, key_size = 0, entry_size = 0,
     objsize = 0, tray_capacity = 0, meta_size = 0, objsize_order = 0,
     free_list_position_first = 0, free_list_position_second = 0,
     free_list_size_first = 0, free_list_size_second = 0,
     trim_list_position_first = 0, trim_list_position_second = 0, trim_list_size = 0,
     lmt_position_first = 0, lmt_position_second = 0, lmt_size = 0,
     redolog_position_first = 0, redolog_position_second = 0, redolog_size = 0,
     redolog_phase = 0, current_metadata = 0, current_redolog = 0,
     md5_first = 0, md5_second = 0, create_time = []\<rparr>"

definition read_store_head :: "flash_store \<Rightarrow> int \<times> flash_store" where
  "read_store_head s =
     (case ext_call s of (nomem, s1) \<Rightarrow>
        if nomem \<noteq> 0 then (- ENOMEM, s1)
        else case ext_call s1 of (e, s2) \<Rightarrow>
          if e \<noteq> 0 then (- e, s2)
          else case d_head (dev s2) of
              None \<Rightarrow> (- EUCLEAN, s2\<lparr>head := zero_head\<rparr>)
            | Some h \<Rightarrow>
                if magic h \<noteq> 0x3553424e then (- EUCLEAN, s2\<lparr>head := h\<rparr>)
                else if version h \<noteq> 0x00030000 then (- EUCLEAN, s2\<lparr>head := h\<rparr>)
                else (0, s2\<lparr>head := h\<rparr>))"

definition write_store_head :: "flash_store \<Rightarrow> int \<times> flash_store" where
  "write_store_head s =
     (case ext_call s of (nomem, s1) \<Rightarrow>
        if nomem \<noteq> 0 then (- ENOMEM, s1) else sync_write_head s1)"

definition is_disk_clean :: "flash_store \<Rightarrow> bool \<times> flash_store" where
  "is_disk_clean s =
     (case ext_call s of (e, s1) \<Rightarrow>
        (e = 0 \<and> d_head (dev s1) = None, s1))"

end
