(* ===== verification/Meta_Data.thy ===== *)
theory Meta_Data
  imports Store_State
begin

text \<open>
  Saving and loading the metadata of a flash store (\<open>pfs/src/pf_flash_store.cpp\<close>,
  \<open>pfs/src/pf_md5.cpp\<close>): the MD5 stream, the serializer of keys and entries, the two
  object queues, and the compaction trigger. The hash function of the library is the
  parameter \<open>d_md5\<close> of the device; the stream state is the list of the hashed blocks.
\<close>

section \<open>The MD5 stream\<close>

type_synonym md5_stream = "meta_block list"

text \<open>\<open>MD5Stream::write\<close> and \<open>read\<close> return \<open>-errno\<close>, not -1, when the transfer fails.\<close>

definition md5_write :: "meta_block \<Rightarrow> u64 \<Rightarrow> flash_store \<Rightarrow> int \<times> flash_store" where
  "md5_write blk off s =
     (case ext_call s of (e, s1) \<Rightarrow>
        if e \<noteq> 0 then (- e, s1)
        else (0, s1\<lparr>dev := (dev s1)\<lparr>d_meta := (d_meta (dev s1))(off := blk)\<rparr>\<rparr>))"

definition md5_read :: "u64 \<Rightarrow> meta_block \<Rightarrow> flash_store \<Rightarrow> int \<times> meta_block \<times> flash_store" where
  "md5_read off buf s =
     (case ext_call s of (e, s1) \<Rightarrow>
        if e \<noteq> 0 then (- e, buf, s1) else (0, d_meta (dev s1) off, s1))"

definition write_calc ::
  "meta_block \<Rightarrow> u64 \<Rightarrow> md5_stream \<Rightarrow> flash_store \<Rightarrow> int \<times> md5_stream \<times> flash_store" where
  "write_calc blk off st s =
     (case md5_write blk off s of (rc, s1) \<Rightarrow>
        if rc \<noteq> 0 then (rc, st, s1) else (0, st @ [blk], s1))"

definition read_calc ::
  "u64 \<Rightarrow> meta_block \<Rightarrow> md5_stream \<Rightarrow> flash_store \<Rightarrow> int \<times> meta_block \<times> md5_stream \<times> flash_store" where
  "read_calc off buf st s =
     (case md5_read off buf s of (rc, blk, s1) \<Rightarrow>
        if rc \<noteq> 0 then (rc, blk, st, s1) else (0, blk, st @ [blk], s1))"

text \<open>\<open>init\<close> allocates the page buffer and the hash manager.\<close>

definition md5_init :: "flash_store \<Rightarrow> int \<times> flash_store" where
  "md5_init s =
     (case ext_call s of (nomem, s1) \<Rightarrow>
        if nomem \<noteq> 0 then (- ENOMEM, s1)
        else case ext_call s1 of (nomem2, s2) \<Rightarrow>
          if nomem2 \<noteq> 0 then (- ENOMEM, s2) else (0, s2))"

text \<open>\<open>finalize\<close>: the digest to store, or the comparison with the stored one.\<close>

definition md5_digest :: "md5_stream \<Rightarrow> flash_store \<Rightarrow> int" where
  "md5_digest st s = d_md5 (dev s) (st @ [Zero_block])"

definition md5_check :: "int \<Rightarrow> md5_stream \<Rightarrow> flash_store \<Rightarrow> int" where
  "md5_check stored st s = (if md5_digest st s = stored then 0 else 1)"

section \<open>The serializer\<close>

record serializer =
  ser_offset :: u64
  ser_buf :: "nat \<Rightarrow> ser_cell option"
  ser_buf_size :: nat
  ser_pos :: nat

definition ser_new :: "u64 \<Rightarrow> nat \<Rightarrow> bool \<Rightarrow> serializer" where
  "ser_new off buf_size wr =
     \<lparr>ser_offset = off, ser_buf = (\<lambda>_. None), ser_buf_size = buf_size,
      ser_pos = (if wr then 0 else buf_size)\<rparr>"

text \<open>The serializer is passed along with the MD5 stream and the store.\<close>

type_synonym ser_state = "serializer \<times> md5_stream \<times> flash_store"

definition flush_buffer :: "ser_state \<Rightarrow> int \<times> ser_state" where
  "flush_buffer = (\<lambda>(z, st, s).
     case write_calc (Cells_block (ser_buf z)) (ser_offset z) st s of (rc, st1, s1) \<Rightarrow>
       if rc = -1 then (-1, z, st1, s1)
       else (0, z\<lparr>ser_offset := ser_offset z + of_nat (ser_buf_size z), ser_pos := 0\<rparr>, st1, s1))"

definition cells_of :: "meta_block \<Rightarrow> nat \<Rightarrow> ser_cell option" where
  "cells_of b = (case b of Cells_block f \<Rightarrow> f | _ \<Rightarrow> (\<lambda>_. None))"

definition load_buffer :: "ser_state \<Rightarrow> int \<times> ser_state" where
  "load_buffer = (\<lambda>(z, st, s).
     case read_calc (ser_offset z) (Cells_block (ser_buf z)) st s of (rc, blk, st1, s1) \<Rightarrow>
       let z1 = z\<lparr>ser_buf := cells_of blk\<rparr>
       in if rc = -1 then (-1, z1, st1, s1)
          else (0, z1\<lparr>ser_offset := ser_offset z + of_nat (ser_buf_size z), ser_pos := 0\<rparr>, st1, s1))"

text \<open>Storing a cell of \<open>n\<close> bytes destroys whatever the buffer held in these bytes.\<close>

definition put_cell :: "nat \<Rightarrow> ser_cell \<Rightarrow> serializer \<Rightarrow> serializer" where
  "put_cell n c z =
     z\<lparr>ser_buf := (\<lambda>p. if p = ser_pos z then Some c
                     else if ser_pos z < p \<and> p < ser_pos z + n then None else ser_buf z p),
       ser_pos := ser_pos z + n\<rparr>"

definition ser_write :: "nat \<Rightarrow> ser_cell \<Rightarrow> ser_state \<Rightarrow> int \<times> ser_state" where
  "ser_write n c = (\<lambda>(z, st, s).
     if ser_pos z + n > ser_buf_size z
     then (case flush_buffer (z, st, s) of (rc, z1, st1, s1) \<Rightarrow>
             if rc \<noteq> 0 then (rc, z1, st1, s1) else (0, put_cell n c z1, st1, s1))
     else (0, put_cell n c z, st, s))"

definition write_key :: "lmt_key \<Rightarrow> ser_state \<Rightarrow> int \<times> ser_state" where
  "write_key k = ser_write 32 (Key_cell k)"

definition write_lmt_entry :: "lmt_entry \<Rightarrow> bool \<Rightarrow> ser_state \<Rightarrow> int \<times> ser_state" where
  "write_lmt_entry e has_prev = ser_write 48 (Entry_cell e has_prev)"

definition ser_read :: "nat \<Rightarrow> ser_state \<Rightarrow> int \<times> ser_cell option \<times> ser_state" where
  "ser_read n = (\<lambda>(z, st, s).
     if ser_pos z + n > ser_buf_size z
     then (case load_buffer (z, st, s) of (rc, z1, st1, s1) \<Rightarrow>
             if rc \<noteq> 0 then (rc, None, z1, st1, s1)
             else (0, ser_buf z1 (ser_pos z1), z1\<lparr>ser_pos := ser_pos z1 + n\<rparr>, st1, s1))
     else (0, ser_buf z (ser_pos z), z\<lparr>ser_pos := ser_pos z + n\<rparr>, st, s))"

text \<open>
  Reading bytes that were not written as a key (an entry) gives the key (entry) of
  zeros here; the round trip theorem shows that saved metadata is never read so.
\<close>

definition zero_key :: lmt_key where "zero_key = \<lparr>vol_id = 0, slba = 0\<rparr>"

definition zero_entry :: lmt_entry where
  "zero_entry = \<lparr>e_addr = 0, e_offset = 0, e_snap_seq = 0, e_status = UNINIT, e_waiting_io = [],
     e_recovery_bmp = None, e_recovery_buf = None\<rparr>"

definition read_key :: "ser_state \<Rightarrow> int \<times> lmt_key \<times> ser_state" where
  "read_key z = (case ser_read 32 z of (rc, c, z1) \<Rightarrow>
     (rc, case c of Some (Key_cell k) \<Rightarrow> k | _ \<Rightarrow> zero_key, z1))"

definition read_lmt_entry :: "nat \<Rightarrow> ser_state \<Rightarrow> int \<times> (lmt_entry \<times> bool) \<times> ser_state" where
  "read_lmt_entry addr z = (case ser_read 48 z of (rc, c, z1) \<Rightarrow>
     (rc, case c of Some (Entry_cell e p) \<Rightarrow> (e\<lparr>e_addr := addr\<rparr>, p)
                  | _ \<Rightarrow> (zero_entry\<lparr>e_addr := addr\<rparr>, False), z1))"

section \<open>The object queues\<close>

definition meta_buf_size :: nat where "meta_buf_size = 2 ^ 20"

text \<open>The loops over the queue data; \<open>src\<close> counts bytes and an item has 4 bytes.\<close>

function save_queue_data ::
  "int list \<Rightarrow> nat \<Rightarrow> u64 \<Rightarrow> nat \<Rightarrow> md5_stream \<Rightarrow> flash_store \<Rightarrow> int \<times> md5_stream \<times> flash_store" where
  "save_queue_data xs nbytes off src st s =
     (if src < nbytes then
        let n = min (nbytes - src) meta_buf_size
        in case write_calc (Ints_block (take (n div 4) (drop (src div 4) xs)))
                  (off + of_nat src + LBA_LENGTH) st s of (rc, st1, s1) \<Rightarrow>
             if rc = -1 then (-1, st1, s1)
             else save_queue_data xs nbytes off (src + n) st1 s1
      else (0, st, s))"
  by pat_completeness auto
termination
  by (relation "measure (\<lambda>(xs, nbytes, off, src, st, s). nbytes - src)")
    (auto simp: meta_buf_size_def)

definition save_fixed_queue ::
  "int fixed_queue \<Rightarrow> u64 \<Rightarrow> md5_stream \<Rightarrow> flash_store \<Rightarrow> int \<times> md5_stream \<times> flash_store" where
  "save_fixed_queue q off st s =
     (case write_calc (Ints_block [q_depth q, q_head q, q_tail q]) off st s of (rc, st1, s1) \<Rightarrow>
        if rc = -1 then (-1, st1, s1)
        else save_queue_data (q_data q) (nat (q_depth q) * 4) off 0 st1 s1)"

definition int_at :: "meta_block \<Rightarrow> nat \<Rightarrow> int" where
  "int_at b i = (case b of Ints_block xs \<Rightarrow> if i < length xs then xs ! i else 0 | _ \<Rightarrow> 0)"

text \<open>\<open>memcpy\<close> of \<open>n\<close> items of the buffer to position \<open>pos\<close> of the queue data.\<close>

definition copy_ints :: "int list \<Rightarrow> nat \<Rightarrow> nat \<Rightarrow> meta_block \<Rightarrow> int list" where
  "copy_ints xs pos n b = take pos xs @ map (int_at b) [0..<n] @ drop (pos + n) xs"

function load_queue_data ::
  "int list \<Rightarrow> nat \<Rightarrow> u64 \<Rightarrow> nat \<Rightarrow> meta_block \<Rightarrow> md5_stream \<Rightarrow> flash_store \<Rightarrow>
     int \<times> int list \<times> meta_block \<times> md5_stream \<times> flash_store" where
  "load_queue_data xs nbytes off src buf st s =
     (if src < nbytes then
        let n = min (nbytes - src) meta_buf_size
        in case read_calc (off + of_nat src + LBA_LENGTH) Zero_block st s of (rc, blk, st1, s1) \<Rightarrow>
             if rc \<noteq> 0 then (rc, xs, blk, st1, s1)
             else load_queue_data (copy_ints xs (src div 4) (n div 4) blk) nbytes off (src + n) blk st1 s1
      else (0, xs, buf, st, s))"
  by pat_completeness auto
termination
  by (relation "measure (\<lambda>(xs, nbytes, off, src, buf, st, s). nbytes - src)")
    (auto simp: meta_buf_size_def)

declare save_queue_data.simps [simp del] load_queue_data.simps [simp del]

text \<open>
  \<open>load_fixed_queue\<close> returns the buffer too, which the caller goes on using. The
  \<open>calloc\<close> of \<open>q->init\<close> is an external call.
\<close>

definition load_fixed_queue ::
  "int fixed_queue \<Rightarrow> u64 \<Rightarrow> meta_block \<Rightarrow> md5_stream \<Rightarrow> flash_store \<Rightarrow>
     int \<times> int fixed_queue \<times> meta_block \<times> md5_stream \<times> flash_store" where
  "load_fixed_queue q off buf st s =
     (case read_calc off buf st s of (rc, blk, st1, s1) \<Rightarrow>
        if rc \<noteq> 0 then (rc, q, blk, st1, s1)
        else case ext_call s1 of (nomem, s2) \<Rightarrow>
          case q_init (nomem = 0) 0 (int_at blk 0 - 1) q of (rc2, q1) \<Rightarrow>
            if rc2 \<noteq> 0 then (rc2, q1, blk, st1, s2)
            else let q2 = q1\<lparr>q_head := int_at blk 1, q_tail := int_at blk 2\<rparr>
                 in case load_queue_data (q_data q2) (nat (q_depth q2) * 4) off 0 blk st1 s2
                    of (rc3, xs, blk3, st3, s3) \<Rightarrow> (rc3, q2\<lparr>q_data := xs\<rparr>, blk3, st3, s3))"

section \<open>Saving\<close>

definition discard :: "flash_store \<Rightarrow> flash_store" where
  "discard s =
     s\<lparr>head := (head s)\<lparr>redolog_phase := redolog_phase (head s) + 1,
                       current_redolog := oppsite_redolog_zone (head s)\<rparr>\<rparr>"

fun save_chain :: "lmt_entry list \<Rightarrow> ser_state \<Rightarrow> int \<times> ser_state" where
  "save_chain [] z = (0, z)"
| "save_chain (e # c) z =
     (case write_lmt_entry e (c \<noteq> []) z of (rc, z1) \<Rightarrow>
        if rc \<noteq> 0 then (rc, z1) else save_chain c z1)"

fun save_lmt :: "(lmt_key \<times> lmt_entry list) list \<Rightarrow> ser_state \<Rightarrow> int \<times> ser_state" where
  "save_lmt [] z = (0, z)"
| "save_lmt ((k, c) # m) z =
     (case write_key k z of (rc, z1) \<Rightarrow>
        if rc \<noteq> 0 then (rc, z1)
        else case save_chain c z1 of (rc2, z2) \<Rightarrow>
          if rc2 \<noteq> 0 then (rc2, z2) else save_lmt m z2)"

text \<open>The end of \<open>save_meta_data\<close>: switch to the new zones and persist the head page.\<close>

definition persist_head :: "nat \<Rightarrow> flash_store \<Rightarrow> int \<times> flash_store" where
  "persist_head md_zone s =
     (let old = head s;
          s1 = discard (s\<lparr>head := (head s)\<lparr>current_metadata := md_zone\<rparr>\<rparr>)
      in case sync_write_head s1 of (rc, s2) \<Rightarrow>
           if rc \<noteq> 0
           then (rc, s2\<lparr>head := (head s2)\<lparr>current_metadata := current_metadata old,
                          redolog_phase := redolog_phase old,
                          current_redolog := current_redolog old\<rparr>\<rparr>)
           else (0, s2))"

definition store_md5 :: "nat \<Rightarrow> int \<Rightarrow> flash_store \<Rightarrow> flash_store" where
  "store_md5 md_zone digest s =
     s\<lparr>head := (if md_zone = FIRST_METADATA_ZONE then (head s)\<lparr>md5_first := digest\<rparr>
               else (head s)\<lparr>md5_second := digest\<rparr>)\<rparr>"

text \<open>The result of the last \<open>flush_buffer\<close> is not looked at.\<close>

definition save_lmt_area :: "nat \<Rightarrow> u64 \<Rightarrow> md5_stream \<Rightarrow> flash_store \<Rightarrow> int \<times> flash_store" where
  "save_lmt_area md_zone lmt_position st s =
     (case write_calc (Ints_block [int (length (obj_lmt s)), 48, 0]) lmt_position st s of (rc, st1, s1) \<Rightarrow>
        if rc = -1 then (-1, s1)
        else case save_lmt (obj_lmt s1) (ser_new (lmt_position + LBA_LENGTH) meta_buf_size True, st1, s1)
             of (rc2, z2) \<Rightarrow>
               if rc2 \<noteq> 0 then (rc2, snd (snd z2))
               else case flush_buffer z2 of (_, _, st3, s3) \<Rightarrow>
                 persist_head md_zone (store_md5 md_zone (md5_digest st3 s3) s3))"

definition save_meta_data :: "nat \<Rightarrow> flash_store \<Rightarrow> int \<times> flash_store" where
  "save_meta_data md_zone s =
     (case ext_call s of (nomem, s1) \<Rightarrow>
        if nomem \<noteq> 0 then (- ENOMEM, s1)
        else
          let first = (md_zone = FIRST_METADATA_ZONE);
              fl_position = (if first then free_list_position_first (head s1) else free_list_position_second (head s1));
              tl_position = (if first then trim_list_position_first (head s1) else trim_list_position_second (head s1));
              lmt_position = (if first then lmt_position_first (head s1) else lmt_position_second (head s1))
          in case md5_init s1 of (rc, s2) \<Rightarrow>
            if rc \<noteq> 0 then (rc, s2)
            else case save_fixed_queue (free_obj_queue s2) fl_position [] s2 of (rc3, st3, s3) \<Rightarrow>
              if rc3 \<noteq> 0 then (rc3, s3)
              else case save_fixed_queue (trim_obj_queue s3) tl_position st3 s3 of (rc4, st4, s4) \<Rightarrow>
                if rc4 \<noteq> 0 then (rc4, s4)
                else save_lmt_area md_zone lmt_position st4 s4)"

section \<open>Loading\<close>

fun free_entries :: "lmt_entry list \<Rightarrow> mem_pool \<Rightarrow> fault + mem_pool" where
  "free_entries [] p = Inr p"
| "free_entries (e # es) p = bnd (pool_free p (e_addr e)) (free_entries es)"

text \<open>
  The entries behind the first one. The loop ends at an entry without \<open>prev_snap\<close>, or
  when the pool has no entry left and NULL is dereferenced; the fuel is the number of
  slots of the pool, so it never runs out before the pool does.
\<close>

fun load_rest :: "nat \<Rightarrow> bool \<Rightarrow> ser_state \<Rightarrow> fault + int \<times> lmt_entry list \<times> ser_state" where
  "load_rest fuel False z = Inr (0, [], z)"
| "load_rest 0 True z = Inl Null_deref"
| "load_rest (Suc fuel) True (z, st, s) =
     (case pool_alloc (lmt_entry_pool s) of
        (None, _) \<Rightarrow> Inl Null_deref
      | (Some a, p) \<Rightarrow>
          (case read_lmt_entry a (z, st, s\<lparr>lmt_entry_pool := p\<rparr>) of (rc, (e, has_prev), z1) \<Rightarrow>
             if rc \<noteq> 0 then Inr (rc, [], z1)
             else bnd (load_rest fuel has_prev z1) (\<lambda>(rc2, es, z2). Inr (rc2, e # es, z2))))"

definition load_key :: "ser_state \<Rightarrow> fault + int \<times> ser_state" where
  "load_key = (\<lambda>(z, st, s).
     case pool_alloc (lmt_entry_pool s) of
       (None, _) \<Rightarrow> Inl Null_deref
     | (Some a, p) \<Rightarrow>
         (case read_key (z, st, s\<lparr>lmt_entry_pool := p\<rparr>) of (rc, k, z1) \<Rightarrow>
            if rc \<noteq> 0 then Inr (rc, z1)
            else case read_lmt_entry a z1 of (rc2, (e, has_prev), z2) \<Rightarrow>
              if rc2 \<noteq> 0 then Inr (rc2, z2)
              else bnd (load_rest (p_slots p) has_prev z2) (\<lambda>(rc3, es, (z3, st3, s3)).
                if rc3 \<noteq> 0 then Inr (rc3, z3, st3, s3)
                else
                  let c = filter (\<lambda>x. e_status x \<noteq> RECOVERYING) (e # es)
                  in bnd (free_entries (filter (\<lambda>x. e_status x = RECOVERYING) (e # es)) (lmt_entry_pool s3))
                       (\<lambda>p3. Inr (0, z3, st3,
                          s3\<lparr>lmt_entry_pool := p3,
                             obj_lmt := (if c \<noteq> [] then AList.update k c (obj_lmt s3) else obj_lmt s3)\<rparr>)))))"

primrec load_keys :: "nat \<Rightarrow> ser_state \<Rightarrow> fault + int \<times> ser_state" where
  "load_keys 0 z = Inr (0, z)"
| "load_keys (Suc n) z =
     bnd (load_key z) (\<lambda>(rc, z1). if rc \<noteq> 0 then Inr (rc, z1) else load_keys n z1)"

definition init_entry_pool :: "flash_store \<Rightarrow> int \<times> flash_store" where
  "init_entry_pool s =
     (case ext_call s of (spin_rc, s1) \<Rightarrow> case ext_call s1 of (nomem1, s2) \<Rightarrow>
      case ext_call s2 of (nomem2, s3) \<Rightarrow>
        case pool_init spin_rc (nomem1 = 0) (nomem2 = 0) (q_depth (free_obj_queue s3) * 2) (lmt_entry_pool s3)
        of (rc, p) \<Rightarrow> (rc, s3\<lparr>lmt_entry_pool := p\<rparr>))"

text \<open>
  The entries of the table. A failed read of the head block is only logged, and the
  key count is then taken from what the buffer held before. The MD5 check is only
  logged too.
\<close>

definition load_lmt_area :: "u64 \<Rightarrow> meta_block \<Rightarrow> md5_stream \<Rightarrow> flash_store \<Rightarrow> fault + int \<times> flash_store" where
  "load_lmt_area lmt_position buf st s =
     (case read_calc lmt_position buf st s of (rc, blk, st1, s1) \<Rightarrow>
        let key_count = int_at blk 0
        in bnd (load_keys (nat key_count)
                  (ser_new (lmt_position + LBA_LENGTH) meta_buf_size False, st1, s1))
             (\<lambda>(rc2, z2). if rc2 \<noteq> 0 then Inr (rc2, snd (snd z2))
                else if key_count = 0 then Inr (0, snd (snd (snd (load_buffer z2))))
                else Inr (0, snd (snd z2))))"

definition load_meta_data :: "nat \<Rightarrow> bool \<Rightarrow> flash_store \<Rightarrow> fault + int \<times> flash_store" where
  "load_meta_data md_zone compaction s =
     (case ext_call s of (nomem, s1) \<Rightarrow>
        if nomem \<noteq> 0 then Inr (- ENOMEM, s1)
        else
          let first = (md_zone = FIRST_METADATA_ZONE);
              fl_position = (if first then free_list_position_first (head s1) else free_list_position_second (head s1));
              tl_position = (if first then trim_list_position_first (head s1) else trim_list_position_second (head s1));
              lmt_position = (if first then lmt_position_first (head s1) else lmt_position_second (head s1))
          in case md5_init s1 of (rc, s2) \<Rightarrow>
            if rc \<noteq> 0 then Inr (rc, s2)
            else case load_fixed_queue (free_obj_queue s2) fl_position Zero_block [] s2
                 of (rc3, fq, buf3, st3, s3) \<Rightarrow>
              if rc3 \<noteq> 0 then Inr (rc3, s3\<lparr>free_obj_queue := fq\<rparr>)
              else case load_fixed_queue (trim_obj_queue s3) tl_position buf3 st3 (s3\<lparr>free_obj_queue := fq\<rparr>)
                   of (rc4, tq, buf4, st4, s4) \<Rightarrow>
                if rc4 \<noteq> 0 then Inr (rc4, s4\<lparr>trim_obj_queue := tq\<rparr>)
                else
                  let s5 = s4\<lparr>trim_obj_queue := tq\<rparr>
                  in case (if compaction then (0, s5) else init_entry_pool s5) of (rc6, s6) \<Rightarrow>
                    if rc6 \<noteq> 0 then Inr (rc6, s6)
                    else load_lmt_area lmt_position buf4 st4 s6)"

section \<open>The compaction trigger\<close>

definition set_log_phase :: "int \<Rightarrow> u64 \<Rightarrow> flash_store \<Rightarrow> flash_store" where
  "set_log_phase ph off s = s\<lparr>log_phase := ph, log_start := off, log_current := off\<rparr>"

text \<open>
  The body runs under \<open>md_lock\<close>, which the compaction thread holds while it runs; a
  forced call therefore finds the thread not running.
\<close>

definition meta_data_compaction_trigger ::
  "compact_state \<Rightarrow> bool \<Rightarrow> flash_store \<Rightarrow> fault + int \<times> flash_store" where
  "meta_data_compaction_trigger state force_wait s =
     (if \<not> force_wait \<and> to_run_compact s = COMPACT_RUNNING then Inr (0, s)
      else
        let last_state = to_run_compact s;
            s1 = s\<lparr>to_run_compact := state\<rparr>
        in if state = COMPACT_TODO \<and> last_state = COMPACT_ERROR
           then (case save_meta_data (oppsite_md_zone (head s1))
                        (s1\<lparr>head := (head s1)\<lparr>redolog_phase := log_phase s1\<rparr>\<rparr>) of (rc, s2) \<Rightarrow>
                   if rc \<noteq> 0 then Inl Fatal_exit
                   else Inr (0, (set_log_phase (redolog_phase (head s2))
                                   (redolog_position (head s2) OPPOSITE) s2)
                                \<lparr>to_run_compact := COMPACT_IDLE\<rparr>))
           else if state = COMPACT_TODO
           then Inr (0, act Signal_compaction
                          (set_log_phase (redolog_phase (head s1) + 1)
                             (redolog_position (head s1) OPPOSITE) s1))
           else Inr (0, s1))"

end
