(* ===== verification/Redo_Log.thy ===== *)
theory Redo_Log
  imports Meta_Data
begin

text \<open>
  \<open>PfRedoLog\<close> of \<open>pfs/src/pf_redolog.cpp\<close>: writing the log, redoing one item and
  replaying a zone of the log.
\<close>

section \<open>Writing\<close>

text \<open>\<open>init\<close> allocates the page buffer.\<close>

definition redolog_init :: "flash_store \<Rightarrow> int \<times> flash_store" where
  "redolog_init s =
     (case ext_call (s\<lparr>log_size := redolog_size (head s)\<rparr>) of (nomem, s1) \<Rightarrow>
        if nomem \<noteq> 0 then (- ENOMEM, s1) else (0, s1))"

definition put_log_page :: "redo_item \<Rightarrow> flash_store \<Rightarrow> flash_store" where
  "put_log_page it s =
     s\<lparr>dev := (dev s)\<lparr>d_log := (d_log (dev s))
                (log_current s := \<lparr>lp_phase = log_phase s, lp_item = Some it\<rparr>)\<rparr>\<rparr>"

definition write_entry :: "redo_item \<Rightarrow> flash_store \<Rightarrow> fault + int \<times> flash_store" where
  "write_entry it s =
     (case ext_call s of (e, s1) \<Rightarrow>
        if e \<noteq> 0 then Inr (- e, s1)
        else
          let s2 = (put_log_page it s1)\<lparr>log_current := log_current s1 + LBA_LENGTH\<rparr>
          in if log_start s2 + log_size s2 \<le> log_current s2
             then meta_data_compaction_trigger COMPACT_TODO True s2
             else Inr (0, s2))"

definition log_allocation :: "lmt_key \<Rightarrow> lmt_entry \<Rightarrow> int \<Rightarrow> flash_store \<Rightarrow> fault + int \<times> flash_store" where
  "log_allocation key entry free_list_head = write_entry (ALLOCATE_OBJ key entry free_list_head)"

definition log_free :: "int \<Rightarrow> int \<Rightarrow> int \<Rightarrow> flash_store \<Rightarrow> fault + int \<times> flash_store" where
  "log_free block_id trim_queue_head free_queue_tail =
     write_entry (FREE_OBJ block_id trim_queue_head free_queue_tail)"

definition log_trim :: "lmt_key \<Rightarrow> lmt_entry \<Rightarrow> int \<Rightarrow> flash_store \<Rightarrow> fault + int \<times> flash_store" where
  "log_trim key entry trim_list_tail = write_entry (TRIM_OBJ key entry trim_list_tail)"

definition log_snap_seq_change ::
  "lmt_key \<Rightarrow> lmt_entry \<Rightarrow> u32 \<Rightarrow> flash_store \<Rightarrow> fault + int \<times> flash_store" where
  "log_snap_seq_change key entry old_seq = write_entry (SNAP_SEQ_CHANGE key entry old_seq)"

definition log_status_change ::
  "lmt_key \<Rightarrow> lmt_entry \<Rightarrow> EntryStatus \<Rightarrow> flash_store \<Rightarrow> fault + int \<times> flash_store" where
  "log_status_change key entry old_status = write_entry (STATUS_CHANGE key entry old_status)"

section \<open>Redoing one item\<close>

definition redo_allocation :: "lmt_key \<Rightarrow> lmt_entry \<Rightarrow> int \<Rightarrow> flash_store \<Rightarrow> fault + int \<times> flash_store" where
  "redo_allocation bkey bentry free_queue_head s =
     (case pool_alloc (lmt_entry_pool s) of
        (None, _) \<Rightarrow> Inr (- ENOMEM, s)
      | (Some a, p) \<Rightarrow>
          let entry = init_for_redo (bentry\<lparr>e_addr := a\<rparr>);
              s1 = s\<lparr>lmt_entry_pool := p\<rparr>
          in bnd (case map_of (obj_lmt s1) bkey of
                    None \<Rightarrow> Inr (s1\<lparr>obj_lmt := AList.update bkey [entry] (obj_lmt s1)\<rparr>)
                  | Some c \<Rightarrow>
                      bnd (insert_chain (newer entry) (same_seq entry) entry c) (\<lambda>(rc, c').
                        if rc = - EEXIST
                        then bnd (pool_free (lmt_entry_pool s1) a) (\<lambda>p1. Inr (s1\<lparr>lmt_entry_pool := p1\<rparr>))
                        else Inr (s1\<lparr>obj_lmt := AList.update bkey c' (obj_lmt s1)\<rparr>)))
               (\<lambda>s2. Inr (0, s2\<lparr>free_obj_queue := (free_obj_queue s2)\<lparr>q_head := free_queue_head\<rparr>\<rparr>)))"

text \<open>
  Setting the tail of a queue and the element in front of it, as \<open>redo_trim\<close> and
  \<open>redo_free\<close> do. An index outside the array is a fault.
\<close>

definition redo_enqueue :: "int \<Rightarrow> int \<Rightarrow> int fixed_queue \<Rightarrow> fault + int fixed_queue" where
  "redo_enqueue new_tail x q =
     (let t = (if new_tail - 1 < 0 then q_depth q - 1 else new_tail - 1)
      in if 0 \<le> t \<and> t < int (length (q_data q))
         then Inr (q\<lparr>q_tail := new_tail, q_data := (q_data q)[nat t := x]\<rparr>)
         else Inl Out_of_bounds)"

definition redo_trim :: "lmt_key \<Rightarrow> lmt_entry \<Rightarrow> int \<Rightarrow> flash_store \<Rightarrow> fault + int \<times> flash_store" where
  "redo_trim bkey bentry trim_queue_tail s =
     bnd (redo_enqueue trim_queue_tail (offset_to_obj_id (head s) (e_offset bentry)) (trim_obj_queue s))
       (\<lambda>q. let s1 = s\<lparr>trim_obj_queue := q\<rparr>
            in case map_of (obj_lmt s1) bkey of
                 None \<Rightarrow> Inr (0, s1)
               | Some c \<Rightarrow>
                   bnd (free_entries (filter (\<lambda>e. e_offset e = e_offset bentry) c) (lmt_entry_pool s1))
                     (\<lambda>p. let c' = filter (\<lambda>e. e_offset e \<noteq> e_offset bentry) c
                          in Inr (0, s1\<lparr>lmt_entry_pool := p,
                                obj_lmt := (if c' = [] then AList.delete bkey (obj_lmt s1)
                                            else AList.update bkey c' (obj_lmt s1))\<rparr>)))"

definition redo_free :: "int \<Rightarrow> int \<Rightarrow> int \<Rightarrow> flash_store \<Rightarrow> fault + int \<times> flash_store" where
  "redo_free obj_id trim_queue_head free_queue_tail s =
     bnd (redo_enqueue free_queue_tail obj_id (free_obj_queue s))
       (\<lambda>q. Inr (0, s\<lparr>free_obj_queue := q,
               trim_obj_queue := (trim_obj_queue s)\<lparr>q_head := trim_queue_head\<rparr>\<rparr>))"

text \<open>Changing the first entry with the given offset, as the two loops do.\<close>

fun change_at :: "u64 \<Rightarrow> (lmt_entry \<Rightarrow> lmt_entry) \<Rightarrow> lmt_entry list \<Rightarrow> lmt_entry list" where
  "change_at off f [] = []"
| "change_at off f (e # c) = (if e_offset e = off then f e # c else e # change_at off f c)"

definition change_entry ::
  "lmt_key \<Rightarrow> u64 \<Rightarrow> (lmt_entry \<Rightarrow> lmt_entry) \<Rightarrow> flash_store \<Rightarrow> flash_store" where
  "change_entry k off f s =
     (case map_of (obj_lmt s) k of
        None \<Rightarrow> s
      | Some c \<Rightarrow> s\<lparr>obj_lmt := AList.update k (change_at off f c) (obj_lmt s)\<rparr>)"

definition redo_snap_seq_change :: "lmt_key \<Rightarrow> lmt_entry \<Rightarrow> u32 \<Rightarrow> flash_store \<Rightarrow> int \<times> flash_store" where
  "redo_snap_seq_change bkey bentry old_snap_seq s =
     (0, change_entry bkey (e_offset bentry)
           (\<lambda>h. if e_snap_seq h = old_snap_seq then h\<lparr>e_snap_seq := e_snap_seq bentry\<rparr> else h) s)"

definition redo_state_change :: "lmt_key \<Rightarrow> lmt_entry \<Rightarrow> EntryStatus \<Rightarrow> flash_store \<Rightarrow> int \<times> flash_store" where
  "redo_state_change bkey bentry old_status s =
     (0, change_entry bkey (e_offset bentry)
           (\<lambda>h. if e_status h = old_status then h\<lparr>e_status := e_status bentry\<rparr> else h) s)"

section \<open>Replay\<close>

text \<open>The \<open>switch\<close> on the type of an item; an unknown type ends the process.\<close>

definition redo_one :: "redo_item option \<Rightarrow> flash_store \<Rightarrow> fault + int \<times> flash_store" where
  "redo_one it s =
     (case it of
        Some (ALLOCATE_OBJ k e h) \<Rightarrow> redo_allocation k e h s
      | Some (FREE_OBJ i h t) \<Rightarrow> redo_free i h t s
      | Some (TRIM_OBJ k e t) \<Rightarrow> redo_trim k e t s
      | Some (SNAP_SEQ_CHANGE k e q) \<Rightarrow> Inr (redo_snap_seq_change k e q s)
      | Some (STATUS_CHANGE k e q) \<Rightarrow> Inr (redo_state_change k e q s)
      | None \<Rightarrow> Inl Fatal_exit)"

text \<open>The loop has no bound of its own: it ends at a page of another phase or an error.\<close>

partial_function (option) replay_loop ::
  "int \<Rightarrow> u64 \<Rightarrow> flash_store \<Rightarrow> (fault + int \<times> flash_store) option" where
  "replay_loop start_phase off s =
     (case ext_call s of (e, s1) \<Rightarrow>
        if e \<noteq> 0 then Some (Inr (- e, s1))
        else
          let pg = d_log (dev s1) off
          in if lp_phase pg \<noteq> start_phase then Some (Inr (0, s1))
             else case redo_one (lp_item pg) s1 of
                 Inl f \<Rightarrow> Some (Inl f)
               | Inr (rc, s2) \<Rightarrow>
                   if rc \<noteq> 0 then Some (Inr (rc, s2))
                   else replay_loop start_phase (off + LBA_LENGTH) s2)"

definition replay :: "int \<Rightarrow> meta_type \<Rightarrow> flash_store \<Rightarrow> (fault + int \<times> flash_store) option" where
  "replay start_phase which s = replay_loop start_phase (redolog_position (head s) which) s"

end
