(* ===== verification/Flash_Store.thy ===== *)
theory Flash_Store
  imports Redo_Log
begin

text \<open>
  The operations of \<open>PfFlashStore\<close> on its tables (\<open>pfs/src/pf_flash_store.cpp\<close>): read,
  write, deletion, trimming and the checks after loading. Each operation runs as one
  event of the store's thread; an effect outside the store is an element of \<open>acts\<close>.
\<close>

section \<open>Access to the tables\<close>

abbreviation lmt_find :: "lmt_key \<Rightarrow> flash_store \<Rightarrow> lmt_entry list option" where
  "lmt_find k s \<equiv> map_of (obj_lmt s) k"

abbreviation set_chain :: "lmt_key \<Rightarrow> lmt_entry list \<Rightarrow> flash_store \<Rightarrow> flash_store" where
  "set_chain k c s \<equiv> s\<lparr>obj_lmt := AList.update k c (obj_lmt s)\<rparr>"

definition find_entry :: "lmt_key \<Rightarrow> nat \<Rightarrow> flash_store \<Rightarrow> lmt_entry option" where
  "find_entry k addr s =
     (case lmt_find k s of None \<Rightarrow> None | Some c \<Rightarrow> find (\<lambda>e. e_addr e = addr) c)"

definition update_entry :: "lmt_key \<Rightarrow> nat \<Rightarrow> (lmt_entry \<Rightarrow> lmt_entry) \<Rightarrow> flash_store \<Rightarrow> flash_store" where
  "update_entry k addr f s =
     (case lmt_find k s of
        None \<Rightarrow> s
      | Some c \<Rightarrow> set_chain k (map (\<lambda>e. if e_addr e = addr then f e else e) c) s)"

text \<open>The key of the object that a task addresses.\<close>

definition io_key :: "flash_store \<Rightarrow> io_sub_task \<Rightarrow> lmt_key" where
  "io_key s io = \<lparr>vol_id = VOLUME_ID (io_rep_id io),
     slba = vol_offset_to_block_slba (m_offset (io_cmd io)) (objsize_order (head s))\<rparr>"

definition media_offset :: "flash_store \<Rightarrow> io_sub_task \<Rightarrow> lmt_entry \<Rightarrow> u64" where
  "media_offset s io entry =
     e_offset entry + offset_in_block (m_offset (io_cmd io)) (in_obj_offset_mask s)"

text \<open>
  Taking an object from the free queue and an entry from the pool. The caller has
  checked that the queue is not empty; the result of the pool is used unchecked.
\<close>

definition new_entry :: "u32 \<Rightarrow> EntryStatus \<Rightarrow> flash_store \<Rightarrow> fault + lmt_entry \<times> flash_store" where
  "new_entry seq stat s =
     bnd (dequeue (free_obj_queue s)) (\<lambda>(obj_id, fq).
       case pool_alloc (lmt_entry_pool s) of
         (None, _) \<Rightarrow> Inl Null_deref
       | (Some a, p) \<Rightarrow>
           Inr (\<lparr>e_addr = a, e_offset = obj_id_to_offset (head s) obj_id, e_snap_seq = seq,
                 e_status = stat, e_waiting_io = [], e_recovery_bmp = None, e_recovery_buf = None\<rparr>,
                s\<lparr>free_obj_queue := fq, lmt_entry_pool := p\<rparr>))"

section \<open>Read\<close>

definition do_read :: "io_sub_task \<Rightarrow> flash_store \<Rightarrow> int \<times> flash_store" where
  "do_read io s =
     (let entry = (case lmt_find (io_key s io) s of
                     None \<Rightarrow> None
                   | Some c \<Rightarrow> chain_at (m_snap_seq (io_cmd io)) c)
      in case entry of
           None \<Rightarrow> (0, act (Complete_zero io) s)
         | Some e \<Rightarrow>
             if e_status e = NORMAL \<or> e_status e = DELAY_DELETE_AFTER_COW
             then (0, act (Submit_io (io\<lparr>io_opcode := S5_OP_READ\<rparr>) (media_offset s io e)
                             (m_length (io_cmd io))) s)
             else (0, act (Complete io MSG_STATUS_INTERNAL) s))"

section \<open>Write\<close>

text \<open>
  A write to an object under recovery goes to the pending buffer, and its sectors are
  marked in the bitmap. A sector outside the bitmap would be written outside its array.
\<close>

definition recovery_pend :: "flash_store \<Rightarrow> io_sub_task \<Rightarrow> lmt_entry \<Rightarrow> fault + lmt_entry" where
  "recovery_pend s io entry =
     (let off = unat (offset_in_block (m_offset (io_cmd io)) (in_obj_offset_mask s));
          len = unat (m_length (io_cmd io));
          first = off div 512; n = len div 512
      in case (e_recovery_buf entry, e_recovery_bmp entry) of
           (Some buf, Some bmp) \<Rightarrow>
             if 0 < n \<and> bit_count bmp < first + n then Inl Out_of_bounds
             else Inr (entry\<lparr>e_recovery_buf := Some (\<lambda>p. if off \<le> p \<and> p < off + len
                                then io_data io ! (p - off) else buf p),
                             e_recovery_bmp := Some (fold (\<lambda>i b. bmp_set_bit b (first + i)) [0..<n] bmp)\<rparr>)
         | _ \<Rightarrow> Inl Null_deref)"

definition write_recovering ::
  "io_sub_task \<Rightarrow> lmt_key \<Rightarrow> lmt_entry \<Rightarrow> lmt_entry list \<Rightarrow> flash_store \<Rightarrow> fault + int \<times> flash_store" where
  "write_recovering io key entry c s =
     (let seq = m_snap_seq (io_cmd io);
          e1 = (if e_snap_seq entry = 0 then entry\<lparr>e_snap_seq := seq\<rparr> else entry)
      in if seq \<noteq> e_snap_seq e1 then Inl Assert_failed
         else bnd (recovery_pend s io e1) (\<lambda>e2.
                Inr (0, act (Complete io MSG_STATUS_SUCCESS) (set_chain key (e2 # c) s))))"

text \<open>The first write to an object.\<close>

definition write_new :: "io_sub_task \<Rightarrow> lmt_key \<Rightarrow> flash_store \<Rightarrow> fault + int \<times> flash_store" where
  "write_new io key s =
     (if q_is_empty (free_obj_queue s) then Inr (0, act (Submit_error io MSG_STATUS_NOSPACE) s)
      else bnd (new_entry (m_snap_seq (io_cmd io)) NORMAL s) (\<lambda>(entry, s1).
        let s2 = set_chain key [entry] s1
        in bnd (log_allocation key entry (q_head (free_obj_queue s2)) s2) (\<lambda>(rc, s3).
             if rc \<noteq> 0 then Inr (0, act (Submit_error io MSG_STATUS_LOGFAILED) s3)
             else Inr (0, act (Submit_io io (media_offset s3 io entry) (m_length (io_cmd io))) s3))))"

text \<open>A write above the newest snapshot of the object: copy on write.\<close>

definition write_cow ::
  "io_sub_task \<Rightarrow> lmt_key \<Rightarrow> lmt_entry \<Rightarrow> lmt_entry list \<Rightarrow> flash_store \<Rightarrow> fault + int \<times> flash_store" where
  "write_cow io key entry c s =
     (if q_is_empty (free_obj_queue s)
      then Inr (- ENOSPC, act (Submit_error io MSG_STATUS_NOSPACE) s)
      else bnd (new_entry (m_snap_seq (io_cmd io)) COPYING s) (\<lambda>(cow_entry, s1).
        let s2 = set_chain key (cow_entry # entry # c) s1
        in bnd (log_allocation key cow_entry (q_head (free_obj_queue s2)) s2) (\<lambda>(rc, s3).
             if rc \<noteq> 0 then Inr (- EIO, act (Submit_error io MSG_STATUS_LOGFAILED) s3)
             else
               let s4 = set_chain key (cow_entry\<lparr>e_waiting_io := [io]\<rparr> # entry # c) s3
               in Inr (0, act (if use_scc s4 then Begin_cow_scc key (e_addr entry) (e_addr cow_entry)
                               else Begin_cow key (e_addr entry) (e_addr cow_entry)) s4))))"

definition do_write :: "io_sub_task \<Rightarrow> flash_store \<Rightarrow> fault + int \<times> flash_store" where
  "do_write io0 s =
     (let cmd = io_cmd io0;
          io = io0\<lparr>io_opcode := m_opcode cmd\<rparr>;
          key = io_key s io
      in case lmt_find key s of
           None \<Rightarrow> write_new io key s
         | Some [] \<Rightarrow> Inl Null_deref
         | Some (entry # c) \<Rightarrow>
             if e_status entry = RECOVERYING then write_recovering io key entry c s
             else if m_snap_seq cmd = e_snap_seq entry then
               (if e_status entry = NORMAL
                then Inr (0, act (Submit_io io (media_offset s io entry) (m_length cmd)) s)
                else if e_status entry = COPYING
                then Inr (0, set_chain key (entry\<lparr>e_waiting_io := io # e_waiting_io entry\<rparr> # c) s)
                else Inl Fatal_exit)
             else if m_snap_seq cmd < e_snap_seq entry
             then Inr (0, act (Complete io MSG_STATUS_READONLY) s)
             else write_cow io key entry c s)"

section \<open>Deletion\<close>

text \<open>
  The callback that \<open>delete_obj\<close> gives to \<open>delete_matched_entry\<close>, for the matching
  entries in chain order: the entry is already unlinked, its object goes to the trim
  queue, the trim is logged and the entry returns to the pool. The results of
  \<open>enqueue\<close> and \<open>log_trim\<close> are not looked at.
\<close>

primrec trim_entries :: "lmt_key \<Rightarrow> lmt_entry list \<Rightarrow> flash_store \<Rightarrow> fault + flash_store" where
  "trim_entries key [] s = Inr s"
| "trim_entries key (e # es) s =
     (let s1 = (case lmt_find key s of
                  None \<Rightarrow> s
                | Some c \<Rightarrow> set_chain key (filter (\<lambda>x. e_addr x \<noteq> e_addr e) c) s);
          s2 = s1\<lparr>trim_obj_queue :=
                 snd (enqueue (trim_obj_queue s1) (offset_to_obj_id (head s1) (e_offset e)))\<rparr>
      in bnd (log_trim key e (q_tail (trim_obj_queue s2)) s2) (\<lambda>(rc, s3).
           bnd (pool_free (lmt_entry_pool s3) (e_addr e)) (\<lambda>p.
             trim_entries key es (s3\<lparr>lmt_entry_pool := p\<rparr>))))"

definition delete_where :: "lmt_key \<Rightarrow> (lmt_entry \<Rightarrow> bool) \<Rightarrow> flash_store \<Rightarrow> fault + int \<times> flash_store" where
  "delete_where key match s =
     (case lmt_find key s of
        None \<Rightarrow> Inr (0, s)
      | Some c \<Rightarrow>
          bnd (trim_entries key (filter match c) s) (\<lambda>s1.
            Inr (0, if lmt_find key s1 = Some [] then s1\<lparr>obj_lmt := AList.delete key (obj_lmt s1)\<rparr> else s1)))"

definition delete_obj :: "lmt_key \<Rightarrow> nat \<Rightarrow> flash_store \<Rightarrow> fault + int \<times> flash_store" where
  "delete_obj key entry = delete_where key (\<lambda>e. e_addr e = entry)"

definition delete_obj_by_snap_seq :: "lmt_key \<Rightarrow> u32 \<Rightarrow> flash_store \<Rightarrow> fault + int \<times> flash_store" where
  "delete_obj_by_snap_seq key seq = delete_where key (\<lambda>e. e_snap_seq e = seq)"

primrec delete_all :: "lmt_key \<Rightarrow> nat list \<Rightarrow> flash_store \<Rightarrow> fault + flash_store" where
  "delete_all key [] s = Inr s"
| "delete_all key (a # as) s = bnd (delete_obj key a s) (\<lambda>(rc, s1). delete_all key as s1)"

definition delete_replica_obj :: "u64 \<Rightarrow> u64 \<Rightarrow> flash_store \<Rightarrow> fault + flash_store" where
  "delete_replica_obj rep_id off s =
     (let key = \<lparr>vol_id = VOLUME_ID rep_id,
                 slba = vol_offset_to_block_slba off (objsize_order (head s))\<rparr>
      in case lmt_find key s of
           None \<Rightarrow> Inr s
         | Some [] \<Rightarrow> Inl Null_deref
         | Some (h # c) \<Rightarrow>
             if e_status h = RECOVERYING then Inr s
             else delete_all key (map e_addr (h # c)) s)"

primrec delete_replica_objs :: "u64 \<Rightarrow> nat list \<Rightarrow> flash_store \<Rightarrow> fault + flash_store" where
  "delete_replica_objs rep_id [] s = Inr s"
| "delete_replica_objs rep_id (i # is) s =
     bnd (delete_replica_obj rep_id
            (push_bit SHARD_SIZE_ORDER (SHARD_INDEX rep_id) + objsize (head s) * of_nat i) s)
       (delete_replica_objs rep_id is)"

definition delete_replica :: "u64 \<Rightarrow> flash_store \<Rightarrow> fault + int \<times> flash_store" where
  "delete_replica rep_id s =
     bnd (delete_replica_objs rep_id [0..<unat (SHARD_SIZE div objsize (head s))] s)
       (\<lambda>s1. Inr (0, s1))"

section \<open>Trimming\<close>

text \<open>The event that \<open>trim_proc\<close> sends to the store thread, and one round of its loop.\<close>

definition trim_one :: "flash_store \<Rightarrow> fault + int \<times> flash_store" where
  "trim_one s =
     (if q_is_empty (trim_obj_queue s) then Inr (- ENOENT, s)
      else bnd (dequeue (trim_obj_queue s)) (\<lambda>(id, tq).
        let s1 = s\<lparr>trim_obj_queue := tq, free_obj_queue := snd (enqueue (free_obj_queue s) id)\<rparr>
        in log_free id (q_head (trim_obj_queue s1)) (q_tail (free_obj_queue s1)) s1))"

primrec trim_round :: "nat \<Rightarrow> flash_store \<Rightarrow> fault + flash_store" where
  "trim_round 0 s = Inr s"
| "trim_round (Suc n) s =
     bnd (trim_one s) (\<lambda>(rc, s1). if rc = - ENOENT then Inr s1 else trim_round n s1)"

section \<open>Listing and checks\<close>

definition get_snap_list :: "u64 \<Rightarrow> u64 \<Rightarrow> flash_store \<Rightarrow> u32 list" where
  "get_snap_list volume_id off s =
     (case lmt_find \<lparr>vol_id = volume_id, slba = vol_offset_to_block_slba off (objsize_order (head s))\<rparr> s of
        None \<Rightarrow> []
      | Some c \<Rightarrow>
          map e_snap_seq
            (case c of
               p # c' \<Rightarrow> if e_status p = RECOVERYING \<and> e_offset p = 0 then c' else c
             | [] \<Rightarrow> []))"

definition unfinished :: "lmt_entry \<Rightarrow> bool" where
  "unfinished e \<longleftrightarrow> e_status e = COPYING \<or> e_status e = RECOVERYING"

fun fix_lmt ::
  "(lmt_key \<times> lmt_entry list) list \<Rightarrow> mem_pool \<Rightarrow> fault + (lmt_key \<times> lmt_entry list) list \<times> mem_pool" where
  "fix_lmt [] p = Inr ([], p)"
| "fix_lmt ((k, c) # m) p =
     bnd (free_entries (filter unfinished c) p) (\<lambda>p1.
       bnd (fix_lmt m p1) (\<lambda>(m', p2).
         let c' = filter (\<lambda>e. \<not> unfinished e) c
         in Inr (if c' = [] then m' else (k, c') # m', p2)))"

definition post_load_fix :: "flash_store \<Rightarrow> fault + flash_store" where
  "post_load_fix s =
     bnd (fix_lmt (obj_lmt s) (lmt_entry_pool s)) (\<lambda>(m, p).
       Inr (s\<lparr>obj_lmt := m, lmt_entry_pool := p\<rparr>))"

text \<open>The number of errors in a chain, compared with the neighbour.\<close>

fun chain_errors :: "lmt_entry list \<Rightarrow> nat" where
  "chain_errors (a # b # c) =
     (if e_snap_seq b = e_snap_seq a \<or> e_offset b = e_offset a then 1 else 0) + chain_errors (b # c)"
| "chain_errors _ = 0"

definition post_load_check :: "flash_store \<Rightarrow> fault + unit" where
  "post_load_check s =
     (if list_ex (\<lambda>(k, c). c = []) (obj_lmt s) then Inl Null_deref
      else if sum_list (map (\<lambda>(k, c). chain_errors c) (obj_lmt s)) \<noteq> 0 then Inl Fatal_exit
      else Inr ())"

end
