(* ===== verification/Store_Tables.thy ===== *)
theory Store_Tables
  imports Flash_Store "HOL-Library.Multiset"
begin

text \<open>
  The invariant of the tables of a flash store, on the tables alone: the geometry
  given by the head page, the mapping table, the two object queues and the entry pool.
  Two conservation laws are its core. Every object of the disk is in exactly one of
  three places, the free queue, the trim queue or one entry of the table; and every
  slot of the pool is either free or one entry of the table.
\<close>

section \<open>The entries of a table\<close>

type_synonym lmt_table = "(lmt_key \<times> lmt_entry list) list"

definition table_entries :: "lmt_table \<Rightarrow> lmt_entry multiset" where
  "table_entries m = mset (concat (map snd m))"

definition chain_of :: "lmt_key \<Rightarrow> lmt_table \<Rightarrow> lmt_entry list" where
  "chain_of k m = (case map_of m k of None \<Rightarrow> [] | Some c \<Rightarrow> c)"

lemma table_entries_Nil [simp]: "table_entries [] = {#}"
  by (simp add: table_entries_def)

lemma table_entries_Cons [simp]: "table_entries ((k, c) # m) = mset c + table_entries m"
  by (simp add: table_entries_def)

lemma entries_update:
  "table_entries (AList.update k c m) + mset (chain_of k m) = mset c + table_entries m"
proof (induction m)
  case Nil
  then show ?case by (simp add: chain_of_def)
next
  case (Cons p m)
  obtain k' c' where p: "p = (k', c')" by (rule prod.exhaust)
  show ?case
  proof (cases "k' = k")
    case True
    then show ?thesis by (simp add: p chain_of_def)
  next
    case False
    then show ?thesis using Cons by (simp add: p chain_of_def)
  qed
qed

lemma delete_absent: "k \<notin> fst ` set m \<Longrightarrow> AList.delete k m = m"
  by (simp add: AList.delete_id)

lemma chain_of_absent: "k \<notin> fst ` set m \<Longrightarrow> chain_of k m = []"
  by (simp add: chain_of_def map_of_eq_None_iff [THEN iffD2])

lemma entries_delete:
  "distinct (map fst m) \<Longrightarrow>
     table_entries (AList.delete k m) + mset (chain_of k m) = table_entries m"
proof (induction m)
  case Nil
  then show ?case by (simp add: chain_of_def)
next
  case (Cons p m)
  obtain k' c' where p: "p = (k', c')" by (rule prod.exhaust)
  show ?case
  proof (cases "k' = k")
    case True
    then show ?thesis using Cons.prems by (simp add: p chain_of_def delete_absent)
  next
    case False
    then show ?thesis using Cons by (simp add: p chain_of_def)
  qed
qed

lemma chain_of_entries: "mset (chain_of k m) \<subseteq># table_entries m"
proof (induction m)
  case Nil
  then show ?case by (simp add: chain_of_def)
next
  case (Cons p m)
  obtain k' c' where p: "p = (k', c')" by (rule prod.exhaust)
  show ?case using Cons
    by (cases "k' = k") (auto simp: p chain_of_def intro: subset_mset.add_increasing)
qed

definition chains_ok :: "lmt_table \<Rightarrow> bool" where
  "chains_ok m \<longleftrightarrow> distinct (map fst m) \<and> list_all desc_chain (map snd m)"

definition no_empty_chain :: "lmt_table \<Rightarrow> bool" where
  "no_empty_chain m \<longleftrightarrow> list_all (\<lambda>c. c \<noteq> []) (map snd m)"

lemma list_all_snd_update:
  "list_all P (map snd m) \<Longrightarrow> P c \<Longrightarrow> list_all P (map snd (AList.update k c m))"
  by (induction m) auto

lemma list_all_snd_delete:
  "list_all P (map snd m) \<Longrightarrow> list_all P (map snd (AList.delete k m))"
  by (induction m) (auto simp: AList.delete_eq)

lemma list_all_snd_map_of:
  "list_all P (map snd m) \<Longrightarrow> map_of m k = Some c \<Longrightarrow> P c"
  by (induction m) (auto split: if_splits)

lemma chains_ok_update: "chains_ok m \<Longrightarrow> desc_chain c \<Longrightarrow> chains_ok (AList.update k c m)"
  unfolding chains_ok_def by (intro conjI distinct_keys_update list_all_snd_update) simp_all

lemma chains_ok_delete: "chains_ok m \<Longrightarrow> chains_ok (AList.delete k m)"
  unfolding chains_ok_def by (intro conjI distinct_keys_delete list_all_snd_delete) simp_all

lemma chains_ok_desc: "chains_ok m \<Longrightarrow> desc_chain (chain_of k m)"
  unfolding chains_ok_def chain_of_def
  by (auto split: option.split dest: list_all_snd_map_of)

lemma no_empty_update: "no_empty_chain m \<Longrightarrow> c \<noteq> [] \<Longrightarrow> no_empty_chain (AList.update k c m)"
  unfolding no_empty_chain_def by (rule list_all_snd_update)

lemma no_empty_delete: "no_empty_chain m \<Longrightarrow> no_empty_chain (AList.delete k m)"
  unfolding no_empty_chain_def by (rule list_all_snd_delete)

lemma no_empty_map_of: "no_empty_chain m \<Longrightarrow> map_of m k \<noteq> Some []"
  unfolding no_empty_chain_def using list_all_snd_map_of by fastforce

section \<open>Geometry\<close>

text \<open>The fields of the head page that saving the metadata does not change.\<close>

definition fixed_head :: "HeadPage \<Rightarrow> HeadPage" where
  "fixed_head h = h\<lparr>redolog_phase := 0, current_metadata := 0, current_redolog := 0,
                    md5_first := 0, md5_second := 0\<rparr>"

definition geom_ok :: "HeadPage \<Rightarrow> bool" where
  "geom_ok h \<longleftrightarrow> objsize_order h \<le> 32 \<and> 0 \<le> obj_count h"

lemma fixed_head_fields:
  assumes "fixed_head h' = fixed_head h"
  shows "objsize_order h' = objsize_order h" and "meta_size h' = meta_size h"
    and "tray_capacity h' = tray_capacity h" and "objsize h' = objsize h"
  using assms by (cases h; cases h'; simp add: fixed_head_def)+

lemma fixed_head_geometry:
  assumes "fixed_head h' = fixed_head h"
  shows "obj_id_to_offset h' = obj_id_to_offset h" and "offset_to_obj_id h' = offset_to_obj_id h"
    and "obj_count h' = obj_count h" and "geom_ok h' = geom_ok h"
proof -
  show 1: "obj_id_to_offset h' = obj_id_to_offset h"
    by (intro ext) (simp add: obj_id_to_offset_def fixed_head_fields [OF assms])
  show 2: "offset_to_obj_id h' = offset_to_obj_id h"
    by (intro ext) (simp add: offset_to_obj_id_def fixed_head_fields [OF assms])
  show 3: "obj_count h' = obj_count h"
    by (simp add: obj_count_def fixed_head_fields [OF assms])
  show "geom_ok h' = geom_ok h"
    by (simp add: geom_ok_def 3 fixed_head_fields [OF assms])
qed

lemma drop_push_small:
  assumes "0 \<le> i" and "i < 2 ^ 31" and "k \<le> 32"
  shows "drop_bit k (push_bit k (word_of_int i)) = (word_of_int i :: u64)"
proof (rule bit_word_eqI)
  fix n
  assume n: "n < LENGTH(64)"
  have small: "\<not> bit i j" if "31 \<le> j" for j
  proof -
    have "i < 2 ^ j" using assms(2) that
      by (meson less_le_trans one_le_numeral power_increasing)
    then have "take_bit j i = i" using assms(1) by (simp add: take_bit_int_eq_self)
    then show ?thesis by (metis bit_take_bit_iff less_irrefl)
  qed
  show "bit (drop_bit k (push_bit k (word_of_int i)) :: u64) n = bit (word_of_int i :: u64) n"
    using n assms(3) small [of n] by (cases "31 \<le> n") (auto simp: bit_simps)
qed

lemma obj_id_roundtrip:
  assumes "objsize_order h \<le> 32" and "0 \<le> i" and "i < 2 ^ 31"
  shows "offset_to_obj_id h (obj_id_to_offset h i) = i"
proof -
  have "offset_to_obj_id h (obj_id_to_offset h i) = sint (ucast (word_of_int i :: u64) :: 32 word)"
    using drop_push_small [OF assms(2,3,1)] by (simp add: offset_to_obj_id_def obj_id_to_offset_def)
  also have "\<dots> = sint (word_of_int i :: 32 word)"
    using assms(2,3) by (simp add: ucast_eq unsigned_of_int take_bit_int_eq_self)
  also have "\<dots> = i"
    using assms(2,3) by (simp add: sint_sbintrunc' signed_take_bit_int_eq_self)
  finally show ?thesis .
qed

lemma obj_count_bound: "obj_count h < 2 ^ 31"
  using sint_lt [of "ucast (drop_bit (objsize_order h) (tray_capacity h - meta_size h)) :: 32 word"]
  by (simp add: obj_count_def)

lemma obj_id_roundtrip_range:
  "geom_ok h \<Longrightarrow> 0 \<le> i \<Longrightarrow> i < obj_count h \<Longrightarrow> offset_to_obj_id h (obj_id_to_offset h i) = i"
  using obj_count_bound [of h] by (intro obj_id_roundtrip) (auto simp: geom_ok_def)

section \<open>The invariant of the tables\<close>

definition all_ids :: "HeadPage \<Rightarrow> int multiset" where
  "all_ids h = mset (map int [0..<nat (obj_count h)])"

definition used_ids :: "HeadPage \<Rightarrow> lmt_table \<Rightarrow> int multiset" where
  "used_ids h m = image_mset (\<lambda>e. offset_to_obj_id h (e_offset e)) (table_entries m)"

definition objects_conserved ::
  "HeadPage \<Rightarrow> lmt_table \<Rightarrow> int fixed_queue \<Rightarrow> int fixed_queue \<Rightarrow> bool" where
  "objects_conserved h m fq tq \<longleftrightarrow>
     used_ids h m + mset (q_list fq) + mset (q_list tq) = all_ids h"

definition slots_conserved :: "lmt_table \<Rightarrow> mem_pool \<Rightarrow> bool" where
  "slots_conserved m p \<longleftrightarrow>
     image_mset e_addr (table_entries m) + mset (q_list (p_free p)) = mset [0..<p_slots p]"

definition offsets_ok :: "HeadPage \<Rightarrow> lmt_table \<Rightarrow> bool" where
  "offsets_ok h m \<longleftrightarrow>
     (\<forall>off \<in># image_mset e_offset (table_entries m). obj_id_to_offset h (offset_to_obj_id h off) = off)"

definition queues_ok :: "HeadPage \<Rightarrow> int fixed_queue \<Rightarrow> int fixed_queue \<Rightarrow> mem_pool \<Rightarrow> bool" where
  "queues_ok h fq tq p \<longleftrightarrow>
     q_inv fq \<and> q_cap fq = nat (obj_count h) \<and> q_inv tq \<and> q_cap tq = nat (obj_count h) \<and>
     q_inv (p_free p) \<and> q_cap (p_free p) = p_slots p \<and> nat (obj_count h) < p_slots p"

text \<open>The invariant without and with the condition that no chain is empty.\<close>

definition tables_inv0 ::
  "HeadPage \<Rightarrow> lmt_table \<Rightarrow> int fixed_queue \<Rightarrow> int fixed_queue \<Rightarrow> mem_pool \<Rightarrow> bool" where
  "tables_inv0 h m fq tq p \<longleftrightarrow>
     geom_ok h \<and> queues_ok h fq tq p \<and> chains_ok m \<and> objects_conserved h m fq tq \<and>
     slots_conserved m p \<and> offsets_ok h m"

definition tables_inv ::
  "HeadPage \<Rightarrow> lmt_table \<Rightarrow> int fixed_queue \<Rightarrow> int fixed_queue \<Rightarrow> mem_pool \<Rightarrow> bool" where
  "tables_inv h m fq tq p \<longleftrightarrow> tables_inv0 h m fq tq p \<and> no_empty_chain m"

lemma used_ids_def': "used_ids h m = image_mset (offset_to_obj_id h) (image_mset e_offset (table_entries m))"
  by (simp add: used_ids_def image_mset.compositionality comp_def)

lemma distinct_part: "mset xs \<subseteq># mset ys \<Longrightarrow> distinct ys \<Longrightarrow> distinct xs"
proof -
  assume sub: "mset xs \<subseteq># mset ys" and d: "distinct ys"
  have "count (mset xs) a \<le> 1" for a
    using mset_subset_eq_count [OF sub, of a] d distinct_count_atmost_1 [of ys]
    by (metis le_trans le_numeral_extra(4) zero_le_one)
  then have "count (mset xs) a = (if a \<in> set xs then 1 else 0)" for a
    by (metis count_mset_0_iff le_antisym less_one not_le)
  then show "distinct xs" by (simp add: distinct_count_atmost_1)
qed

lemma all_ids_range: "i \<in># all_ids h \<longleftrightarrow> 0 \<le> i \<and> i < obj_count h"
  by (auto simp: all_ids_def image_iff intro: bexI [of _ "nat i"])

lemma size_all_ids: "size (all_ids h) = nat (obj_count h)"
  by (simp add: all_ids_def)

lemma tables_sizes:
  assumes "tables_inv0 h m fq tq p"
  shows "size (table_entries m) + length (q_list fq) + length (q_list tq) = nat (obj_count h)"
    and "size (table_entries m) + length (q_list (p_free p)) = p_slots p"
proof -
  have "size (used_ids h m + mset (q_list fq) + mset (q_list tq)) = size (all_ids h)"
    using assms by (simp add: tables_inv0_def objects_conserved_def)
  then show "size (table_entries m) + length (q_list fq) + length (q_list tq) = nat (obj_count h)"
    by (simp add: used_ids_def size_all_ids)
  have "size (image_mset e_addr (table_entries m) + mset (q_list (p_free p))) = size (mset [0..<p_slots p])"
    using assms by (simp only: tables_inv0_def slots_conserved_def)
  then show "size (table_entries m) + length (q_list (p_free p)) = p_slots p"
    by simp
qed

text \<open>An entry of the pool is available whenever the tables are in order.\<close>

lemma pool_never_empty:
  assumes "tables_inv0 h m fq tq p"
  shows "q_list (p_free p) \<noteq> []"
  using tables_sizes [OF assms] assms by (auto simp: tables_inv0_def queues_ok_def)

lemma alloc_available:
  assumes "tables_inv0 h m fq tq p"
  shows "case pool_alloc p of
      (None, p') \<Rightarrow> False
    | (Some a, p') \<Rightarrow> mset (q_list (p_free p)) = add_mset a (mset (q_list (p_free p'))) \<and>
        q_inv (p_free p') \<and> q_cap (p_free p') = q_cap (p_free p) \<and> p_slots p' = p_slots p"
proof -
  have qi: "q_inv (p_free p)" using assms by (simp add: tables_inv0_def queues_ok_def)
  obtain x xs where "q_list (p_free p) = x # xs"
    using pool_never_empty [OF assms] by (cases "q_list (p_free p)") auto
  then obtain q' where "dequeue (p_free p) = Inr (x, q')" "q_inv q'" "q_list q' = xs"
      "q_depth q' = q_depth (p_free p)"
    using dequeue_ok [OF qi] by metis
  then show ?thesis
    using q_is_empty_iff [OF qi] \<open>q_list (p_free p) = x # xs\<close>
    by (simp add: pool_alloc_def dequeue_def q_cap_def)
qed

section \<open>What the operations do to the tables\<close>

lemmas tables_defs = tables_inv0_def queues_ok_def objects_conserved_def slots_conserved_def offsets_ok_def

lemma entries_push:
  "table_entries (AList.update k (e # chain_of k m) m) = add_mset e (table_entries m)"
  using entries_update [of k "e # chain_of k m" m] by simp

lemma tables_alloc:
  assumes inv: "tables_inv0 h m fq tq p" and dq: "dequeue fq = Inr (i, fq')"
    and al: "pool_alloc p = (Some a, p')"
    and e: "e_addr e = a" "e_offset e = obj_id_to_offset h i"
    and desc: "desc_chain (e # chain_of k m)"
  shows "tables_inv0 h (AList.update k (e # chain_of k m) m) fq' tq p'"
proof -
  have fq: "q_list fq = i # q_list fq'" "q_inv fq'" "q_cap fq' = q_cap fq"
    using fsq.deq_some [OF _ dq] inv by (auto simp: tables_defs)
  have p': "mset (q_list (p_free p)) = add_mset a (mset (q_list (p_free p')))" "q_inv (p_free p')"
      "q_cap (p_free p') = q_cap (p_free p)" "p_slots p' = p_slots p"
    using alloc_available [OF inv] al by simp_all
  have "i \<in># all_ids h"
    using inv unfolding tables_inv0_def objects_conserved_def fq(1) by (metis list.set_intros(1) set_mset_mset union_iff)
  then have id: "offset_to_obj_id h (e_offset e) = i"
    using inv e(2) by (simp add: all_ids_range obj_id_roundtrip_range tables_inv0_def)
  show ?thesis
    using inv fq p' id e desc
    by (simp add: tables_defs used_ids_def entries_push chains_ok_update)
qed

lemma mset_remove_key:
  "distinct (map f c) \<Longrightarrow> e \<in> set c \<Longrightarrow> mset c = add_mset e (mset (filter (\<lambda>x. f x \<noteq> f e) c))"
proof (induction c)
  case Nil
  then show ?case by simp
next
  case (Cons x c)
  show ?case
  proof (cases "x = e")
    case True
    then have "filter (\<lambda>x. f x \<noteq> f e) c = c" using Cons.prems by (intro filter_True) (metis distinct.simps(2) imageI list.simps(9) set_map)
    then show ?thesis using True by simp
  next
    case False
    then have "f x \<noteq> f e" using Cons.prems by auto
    then show ?thesis using Cons False by simp
  qed
qed

lemma chain_addr_distinct:
  assumes "slots_conserved m p"
  shows "distinct (map e_addr (chain_of k m))"
proof (rule distinct_part)
  have "image_mset e_addr (mset (chain_of k m)) \<subseteq># image_mset e_addr (table_entries m)"
    by (rule image_mset_subseteq_mono [OF chain_of_entries])
  also have "\<dots> \<subseteq># mset [0..<p_slots p]"
    using assms by (metis slots_conserved_def mset_subset_eq_add_left)
  finally show "mset (map e_addr (chain_of k m)) \<subseteq># mset [0..<p_slots p]" by simp
qed simp

lemma chain_id_distinct:
  assumes "objects_conserved h m fq tq"
  shows "distinct (map (\<lambda>e. offset_to_obj_id h (e_offset e)) (chain_of k m))"
proof (rule distinct_part)
  have "image_mset (\<lambda>e. offset_to_obj_id h (e_offset e)) (mset (chain_of k m)) \<subseteq># used_ids h m"
    unfolding used_ids_def by (rule image_mset_subseteq_mono [OF chain_of_entries])
  also have "\<dots> \<subseteq># all_ids h"
    using assms by (metis objects_conserved_def add.assoc mset_subset_eq_add_left)
  finally show "mset (map (\<lambda>e. offset_to_obj_id h (e_offset e)) (chain_of k m))
      \<subseteq># mset (map int [0..<nat (obj_count h)])"
    by (simp add: all_ids_def)
qed (simp add: distinct_map)

lemma chain_offset_distinct:
  assumes "objects_conserved h m fq tq"
  shows "distinct (map e_offset (chain_of k m))"
proof -
  have "distinct (map (offset_to_obj_id h) (map e_offset (chain_of k m)))"
    using chain_id_distinct [OF assms, of k] by (simp add: comp_def)
  then show ?thesis by (simp only: distinct_map)
qed

lemma entries_remove:
  assumes "slots_conserved m p" and "e \<in> set (chain_of k m)"
  shows "table_entries m =
    add_mset e (table_entries (AList.update k (filter (\<lambda>x. e_addr x \<noteq> e_addr e) (chain_of k m)) m))"
proof -
  let ?c = "filter (\<lambda>x. e_addr x \<noteq> e_addr e) (chain_of k m)"
  have "table_entries (AList.update k ?c m) + add_mset e (mset ?c) = mset ?c + table_entries m"
    using entries_update [of k ?c m]
    unfolding mset_remove_key [OF chain_addr_distinct [OF assms(1)] assms(2)] .
  then show ?thesis by (simp del: mset_filter)
qed

lemma tables_trim:
  assumes inv: "tables_inv0 h m fq tq p" and e: "e \<in> set (chain_of k m)"
    and enq: "enqueue tq (offset_to_obj_id h (e_offset e)) = (rc, tq')"
  shows "rc = 0 \<and> (case pool_free p (e_addr e) of
      Inl f \<Rightarrow> False
    | Inr p' \<Rightarrow> tables_inv0 h (AList.update k (filter (\<lambda>x. e_addr x \<noteq> e_addr e) (chain_of k m)) m)
        fq tq' p')"
proof -
  let ?c = "filter (\<lambda>x. e_addr x \<noteq> e_addr e) (chain_of k m)"
  have E: "table_entries m = add_mset e (table_entries (AList.update k ?c m))"
    using entries_remove [OF _ e, of p] inv by (simp add: tables_inv0_def)
  have "length (q_list tq) < q_cap tq"
    using tables_sizes(1) [OF inv] inv E by (simp add: tables_defs)
  then have tq: "rc = 0" "q_inv tq'" "q_list tq' = q_list tq @ [offset_to_obj_id h (e_offset e)]"
      "q_cap tq' = q_cap tq"
    using fsq.enq_room [OF _ _ enq] inv by (simp_all add: tables_defs)
  have room: "length (q_list (p_free p)) < q_cap (p_free p)"
    using tables_sizes(2) [OF inv] inv E by (simp add: tables_defs)
  obtain rcp q' where q: "enqueue (p_free p) (e_addr e) = (rcp, q')" by (rule prod.exhaust)
  have q': "rcp = 0" "q_inv q'" "q_list q' = q_list (p_free p) @ [e_addr e]" "q_cap q' = q_cap (p_free p)"
    using fsq.enq_room [OF _ room q] inv by (simp_all add: tables_defs)
  have pf: "pool_free p (e_addr e) = Inr (p\<lparr>p_free := q'\<rparr>)"
    using q q'(1) by (simp add: pool_free_def enqueue_eq_nolock [symmetric])
  have ch: "chains_ok (AList.update k ?c m)"
    using inv by (intro chains_ok_update sorted_wrt_filter chains_ok_desc) (simp_all add: tables_inv0_def)
  have "tables_inv0 h (AList.update k ?c m) fq tq' (p\<lparr>p_free := q'\<rparr>)"
    using inv tq q' ch E by (simp add: tables_defs used_ids_def)
  then show ?thesis using tq(1) pf by simp
qed

lemma tables_free:
  assumes inv: "tables_inv0 h m fq tq p" and dq: "dequeue tq = Inr (i, tq')"
    and enq: "enqueue fq i = (rc, fq')"
  shows "rc = 0 \<and> tables_inv0 h m fq' tq' p"
proof -
  have tq: "q_list tq = i # q_list tq'" "q_inv tq'" "q_cap tq' = q_cap tq"
    using fsq.deq_some [OF _ dq] inv by (auto simp: tables_defs)
  have "length (q_list fq) < q_cap fq"
    using tables_sizes(1) [OF inv] inv tq by (simp add: tables_defs)
  then have fq: "rc = 0" "q_inv fq'" "q_list fq' = q_list fq @ [i]" "q_cap fq' = q_cap fq"
    using fsq.enq_room [OF _ _ enq] inv by (simp_all add: tables_defs)
  then show ?thesis using inv tq by (simp add: tables_defs)
qed

lemma entries_image_same:
  assumes "map f c' = map f (chain_of k m)"
  shows "image_mset f (table_entries (AList.update k c' m)) = image_mset f (table_entries m)"
proof -
  have "image_mset f (table_entries (AList.update k c' m)) + mset (map f (chain_of k m))
      = mset (map f c') + image_mset f (table_entries m)"
    using arg_cong [OF entries_update [of k c' m], of "image_mset f"] by simp
  then show ?thesis using assms by simp
qed

lemma tables_change:
  assumes inv: "tables_inv0 h m fq tq p"
    and same: "map e_addr c' = map e_addr (chain_of k m)" "map e_offset c' = map e_offset (chain_of k m)"
    and desc: "desc_chain c'"
  shows "tables_inv0 h (AList.update k c' m) fq tq p"
proof -
  have "used_ids h (AList.update k c' m) = used_ids h m"
    by (simp add: used_ids_def' entries_image_same [OF same(2)])
  then show ?thesis
    using inv desc entries_image_same [OF same(1)] entries_image_same [OF same(2)]
    by (simp add: tables_defs chains_ok_update)
qed

lemma tables_erase_empty:
  assumes "tables_inv0 h m fq tq p" and "map_of m k = Some []"
  shows "tables_inv0 h (AList.delete k m) fq tq p"
proof -
  have "table_entries (AList.delete k m) = table_entries m"
    using entries_delete [of m k] assms by (simp add: tables_inv0_def chains_ok_def chain_of_def)
  then show ?thesis using assms(1) by (simp add: tables_defs used_ids_def chains_ok_delete)
qed

end
