(* ===== verification/Store_Inv.thy ===== *)
theory Store_Inv
  imports Store_Tables
begin

text \<open>
  Every operation of the flash store keeps the invariant of its tables, on every
  branch: also when the log cannot be written, when the disk is full and when the log
  is full and the metadata is saved in the middle of an operation.
\<close>

section \<open>Logging leaves the tables alone\<close>

definition tbl :: "flash_store \<Rightarrow> HeadPage \<times> u64 \<times> lmt_table \<times> int fixed_queue \<times> int fixed_queue \<times> mem_pool \<times> bool" where
  "tbl s = (fixed_head (head s), in_obj_offset_mask s, obj_lmt s, free_obj_queue s,
     trim_obj_queue s, lmt_entry_pool s, use_scc s)"

lemma tbl_other [simp]:
  "tbl (s\<lparr>to_run_compact := a\<rparr>) = tbl s" "tbl (s\<lparr>log_phase := b\<rparr>) = tbl s"
  "tbl (s\<lparr>log_size := c\<rparr>) = tbl s" "tbl (s\<lparr>log_start := c\<rparr>) = tbl s"
  "tbl (s\<lparr>log_current := c\<rparr>) = tbl s" "tbl (s\<lparr>dev := d\<rparr>) = tbl s"
  "tbl (s\<lparr>acts := as\<rparr>) = tbl s" "tbl (s\<lparr>compact_lmt_exist := x\<rparr>) = tbl s"
  by (simp_all add: tbl_def)

lemma tbl_ext_call [simp]: "tbl (snd (ext_call s)) = tbl s"
  by (simp add: ext_call_def tbl_def)

lemma tbl_md5_write [simp]: "tbl (snd (md5_write blk off s)) = tbl s"
  by (simp add: md5_write_def ext_call_def tbl_def)

lemma tbl_write_calc [simp]: "tbl (snd (snd (write_calc blk off st s))) = tbl s"
  by (simp add: write_calc_def case_prod_beta)

lemma tbl_md5_init [simp]: "tbl (snd (md5_init s)) = tbl s"
  by (simp add: md5_init_def case_prod_beta)

lemma tbl_save_queue_data [simp]: "tbl (snd (snd (save_queue_data xs n off src st s))) = tbl s"
proof (induction xs n off src st s rule: save_queue_data.induct)
  case (1 xs n off src st s)
  show ?case
  proof (cases "src < n")
    case True
    let ?n = "min (n - src) meta_buf_size"
    let ?w = "write_calc (Ints_block (take (?n div 4) (drop (src div 4) xs))) (off + of_nat src + LBA_LENGTH) st s"
    have "tbl (snd (snd ?w)) = tbl s" by simp
    then show ?thesis
      using 1 [OF True refl, of "fst ?w" "(fst (snd ?w), snd (snd ?w))" "fst (snd ?w)" "snd (snd ?w)"] True
      by (subst save_queue_data.simps) (simp add: Let_def case_prod_beta)
  next
    case False
    then show ?thesis by (subst save_queue_data.simps) simp
  qed
qed

lemma tbl_save_fixed_queue [simp]: "tbl (snd (snd (save_fixed_queue q off st s))) = tbl s"
  by (simp add: save_fixed_queue_def case_prod_beta)

lemma tbl_flush_buffer [simp]: "tbl (snd (snd (snd (flush_buffer z)))) = tbl (snd (snd z))"
  by (simp add: flush_buffer_def case_prod_beta)

lemma tbl_ser_write [simp]: "tbl (snd (snd (snd (ser_write n c z)))) = tbl (snd (snd z))"
  by (cases z) (simp add: ser_write_def case_prod_beta)

lemma tbl_save_chain [simp]: "tbl (snd (snd (snd (save_chain c z)))) = tbl (snd (snd z))"
  by (induction c arbitrary: z) (simp_all add: write_lmt_entry_def case_prod_beta)

lemma tbl_save_lmt [simp]: "tbl (snd (snd (snd (save_lmt m z)))) = tbl (snd (snd z))"
proof (induction m arbitrary: z)
  case (Cons p m)
  then show ?case by (cases p) (simp add: write_key_def case_prod_beta)
qed simp

lemma tbl_sync_write_head [simp]: "tbl (snd (sync_write_head s)) = tbl s"
  by (simp add: sync_write_head_def ext_call_def tbl_def)

lemma fixed_head_collapse [simp]:
  "fixed_head (h\<lparr>redolog_phase := a\<rparr>) = fixed_head h"
  "fixed_head (h\<lparr>current_metadata := b\<rparr>) = fixed_head h"
  "fixed_head (h\<lparr>current_redolog := c\<rparr>) = fixed_head h"
  "fixed_head (h\<lparr>md5_first := d\<rparr>) = fixed_head h"
  "fixed_head (h\<lparr>md5_second := d\<rparr>) = fixed_head h"
  by (simp_all add: fixed_head_def)

lemma tbl_head_update:
  "fixed_head h = fixed_head (head s) \<Longrightarrow> tbl (s\<lparr>head := h\<rparr>) = tbl s"
  by (simp add: tbl_def)

lemma tbl_discard [simp]: "tbl (discard s) = tbl s"
  by (simp add: discard_def tbl_def)

lemma tbl_persist_head [simp]: "tbl (snd (persist_head zone s)) = tbl s"
proof -
  let ?s = "discard (s\<lparr>head := (head s)\<lparr>current_metadata := zone\<rparr>\<rparr>)"
  have "tbl ?s = tbl s" by (simp add: tbl_head_update)
  then show ?thesis
    by (simp add: persist_head_def Let_def case_prod_beta tbl_head_update)
qed

lemma tbl_store_md5 [simp]: "tbl (store_md5 zone d s) = tbl s"
  by (simp add: store_md5_def tbl_def)

lemma tbl_save_lmt_area [simp]: "tbl (snd (save_lmt_area zone pos st s)) = tbl s"
  by (simp add: save_lmt_area_def case_prod_beta)

lemma tbl_save_meta_data [simp]: "tbl (snd (save_meta_data zone s)) = tbl s"
  by (simp add: save_meta_data_def Let_def case_prod_beta)

lemma tbl_set_log_phase [simp]: "tbl (set_log_phase ph off s) = tbl s"
  by (simp add: set_log_phase_def)

lemma tbl_trigger:
  "case meta_data_compaction_trigger st force s of Inl f \<Rightarrow> True | Inr (rc, s') \<Rightarrow> tbl s' = tbl s"
  by (simp add: meta_data_compaction_trigger_def Let_def case_prod_beta tbl_head_update)

lemma tbl_put_log_page [simp]: "tbl (put_log_page it s) = tbl s"
  by (simp add: put_log_page_def)

lemma tbl_write_entry:
  "case write_entry it s of Inl f \<Rightarrow> True | Inr (rc, s') \<Rightarrow> tbl s' = tbl s"
proof -
  let ?s1 = "snd (ext_call s)"
  let ?s2 = "(put_log_page it ?s1)\<lparr>log_current := log_current ?s1 + LBA_LENGTH\<rparr>"
  have "case meta_data_compaction_trigger COMPACT_TODO True ?s2 of
      Inl f \<Rightarrow> True | Inr (rc, s') \<Rightarrow> tbl s' = tbl ?s2"
    by (rule tbl_trigger)
  then show ?thesis
    by (cases "meta_data_compaction_trigger COMPACT_TODO True ?s2")
      (simp_all add: write_entry_def Let_def case_prod_beta)
qed

lemma write_entry_tbl: "write_entry it s = Inr (rc, s') \<Longrightarrow> tbl s' = tbl s"
  using tbl_write_entry [where it = it and s = s] by simp

lemmas log_defs = log_allocation_def log_free_def log_trim_def log_snap_seq_change_def log_status_change_def

section \<open>The invariant\<close>

definition statuses_ok :: "lmt_table \<Rightarrow> bool" where
  "statuses_ok m \<longleftrightarrow> set_mset (image_mset e_status (table_entries m)) \<subseteq> {NORMAL, COPYING}"

definition store_inv0 :: "flash_store \<Rightarrow> bool" where
  "store_inv0 s \<longleftrightarrow>
     tables_inv0 (head s) (obj_lmt s) (free_obj_queue s) (trim_obj_queue s) (lmt_entry_pool s) \<and>
     statuses_ok (obj_lmt s)"

text \<open>The invariant of a store in which no object is being recovered.\<close>

definition store_inv :: "flash_store \<Rightarrow> bool" where
  "store_inv s \<longleftrightarrow> store_inv0 s \<and> no_empty_chain (obj_lmt s)"

lemma tables_inv0_head:
  assumes "fixed_head h' = fixed_head h"
  shows "tables_inv0 h' m fq tq p = tables_inv0 h m fq tq p"
  by (simp add: tables_defs used_ids_def all_ids_def fixed_head_geometry [OF assms])

lemma tblD:
  assumes "tbl s' = tbl s"
  shows "obj_lmt s' = obj_lmt s" "free_obj_queue s' = free_obj_queue s"
    "trim_obj_queue s' = trim_obj_queue s" "lmt_entry_pool s' = lmt_entry_pool s"
    "fixed_head (head s') = fixed_head (head s)" "in_obj_offset_mask s' = in_obj_offset_mask s"
  using assms by (simp_all add: tbl_def)

lemma store_inv0_tbl: "tbl s' = tbl s \<Longrightarrow> store_inv0 s' = store_inv0 s"
  using tables_inv0_head [of "head s'" "head s"] by (simp add: store_inv0_def tbl_def)

lemma store_inv_tbl:
  assumes "tbl s' = tbl s"
  shows "store_inv s' = store_inv s"
  using store_inv0_tbl [OF assms] by (simp add: store_inv_def tblD(1) [OF assms])

text \<open>
  The outcome of an operation that keeps the invariant: the only end of the process
  is the failure to save the metadata synchronously.
\<close>

definition keeps :: "fault + int \<times> flash_store \<Rightarrow> bool" where
  "keeps r \<longleftrightarrow> (case r of Inl f \<Rightarrow> f = Fatal_exit | Inr (rc, s') \<Rightarrow> store_inv s')"

definition keeps0 :: "fault + flash_store \<Rightarrow> bool" where
  "keeps0 r \<longleftrightarrow> (case r of Inl f \<Rightarrow> f = Fatal_exit | Inr s' \<Rightarrow> store_inv0 s')"

lemma keeps_simps [simp]:
  "keeps (Inl f) \<longleftrightarrow> f = Fatal_exit" "keeps (Inr (rc, s')) \<longleftrightarrow> store_inv s'"
  "keeps0 (Inl f) \<longleftrightarrow> f = Fatal_exit" "keeps0 (Inr s') \<longleftrightarrow> store_inv0 s'"
  by (simp_all add: keeps_def keeps0_def)

lemma store_inv_act [simp]: "store_inv (s\<lparr>acts := as\<rparr>) = store_inv s"
  by (rule store_inv_tbl) simp

lemma trigger_fault: "meta_data_compaction_trigger st force s = Inl f \<Longrightarrow> f = Fatal_exit"
  by (auto simp: meta_data_compaction_trigger_def Let_def case_prod_beta split: if_splits)

lemma write_entry_fault: "write_entry it s = Inl f \<Longrightarrow> f = Fatal_exit"
  by (auto simp: write_entry_def Let_def case_prod_beta split: if_splits dest: trigger_fault)

text \<open>Sequencing after a log record: the continuation sees the same tables.\<close>

lemma keeps_after_log:
  assumes "\<And>rc s'. write_entry it s = Inr (rc, s') \<Longrightarrow> tbl s' = tbl s \<Longrightarrow> keeps (f (rc, s'))"
  shows "keeps (bnd (write_entry it s) f)"
proof (cases "write_entry it s")
  case (Inl e)
  then show ?thesis using write_entry_fault by simp
next
  case (Inr p)
  then show ?thesis using assms [of "fst p" "snd p"] write_entry_tbl [of it s "fst p" "snd p"] by simp
qed

lemma keeps0_after_log:
  assumes "\<And>rc s'. write_entry it s = Inr (rc, s') \<Longrightarrow> tbl s' = tbl s \<Longrightarrow> keeps0 (f (rc, s'))"
  shows "keeps0 (bnd (write_entry it s) f)"
proof (cases "write_entry it s")
  case (Inl e)
  then show ?thesis using write_entry_fault by simp
next
  case (Inr p)
  then show ?thesis using assms [of "fst p" "snd p"] write_entry_tbl [of it s "fst p" "snd p"] by simp
qed

section \<open>Write\<close>

lemma statuses_ok_push:
  "statuses_ok (AList.update k (e # chain_of k m) m) \<longleftrightarrow> statuses_ok m \<and> e_status e \<in> {NORMAL, COPYING}"
  by (auto simp: statuses_ok_def entries_push)

lemma new_entryE:
  assumes inv: "store_inv0 s" and ne: "\<not> q_is_empty (free_obj_queue s)"
  obtains e s1 where "new_entry seq stat s = Inr (e, s1)"
    and "e_snap_seq e = seq" and "e_status e = stat" and "e_waiting_io e = []"
    and "obj_lmt s1 = obj_lmt s"
    and "desc_chain (e # chain_of k (obj_lmt s)) \<Longrightarrow> stat \<in> {NORMAL, COPYING} \<Longrightarrow>
           store_inv0 (set_chain k (e # chain_of k (obj_lmt s)) s1)"
proof -
  let ?fq = "free_obj_queue s" and ?p = "lmt_entry_pool s"
  have t: "tables_inv0 (head s) (obj_lmt s) ?fq (trim_obj_queue s) ?p"
    using inv by (simp add: store_inv0_def)
  then have qi: "q_inv ?fq" by (simp add: tables_defs)
  obtain i xs where "q_list ?fq = i # xs"
    using ne q_is_empty_iff [OF qi] by (cases "q_list ?fq") auto
  then obtain fq' where dq: "dequeue ?fq = Inr (i, fq')" using dequeue_ok [OF qi] by metis
  obtain r p' where al: "pool_alloc ?p = (r, p')" by (rule prod.exhaust)
  then obtain a where r: "r = Some a" using alloc_available [OF t] by (cases r) auto
  let ?e = "\<lparr>e_addr = a, e_offset = obj_id_to_offset (head s) i, e_snap_seq = seq, e_status = stat,
    e_waiting_io = [], e_recovery_bmp = None, e_recovery_buf = None\<rparr>"
  show ?thesis
  proof (rule that [of ?e "s\<lparr>free_obj_queue := fq', lmt_entry_pool := p'\<rparr>"])
    show "new_entry seq stat s = Inr (?e, s\<lparr>free_obj_queue := fq', lmt_entry_pool := p'\<rparr>)"
      using dq al r by (simp add: new_entry_def)
    show "store_inv0 (set_chain k (?e # chain_of k (obj_lmt s)) (s\<lparr>free_obj_queue := fq', lmt_entry_pool := p'\<rparr>))"
      if "desc_chain (?e # chain_of k (obj_lmt s))" "stat \<in> {NORMAL, COPYING}"
      using tables_alloc [OF t dq al [unfolded r] _ _ that(1)] that(2) inv
      by (simp add: store_inv0_def statuses_ok_push)
  qed simp_all
qed

lemma statuses_ok_update:
  assumes "statuses_ok m" and "set (map e_status c) \<subseteq> {NORMAL, COPYING}"
  shows "statuses_ok (AList.update k c m)"
proof -
  have "table_entries (AList.update k c m) \<subseteq># mset c + table_entries m"
    using entries_update [of k c m] by (metis mset_subset_eq_add_left)
  then have "set_mset (image_mset e_status (table_entries (AList.update k c m)))
      \<subseteq> set (map e_status c) \<union> set_mset (image_mset e_status (table_entries m))"
    using set_mset_mono by fastforce
  then show ?thesis using assms unfolding statuses_ok_def by blast
qed

text \<open>A chain may be replaced by one with the same objects and addresses.\<close>

lemma store_inv_change:
  assumes inv: "store_inv s" and c: "lmt_find k s = Some c"
    and same: "map e_addr c' = map e_addr c" "map e_offset c' = map e_offset c"
    and desc: "desc_chain c'" and st: "set (map e_status c') \<subseteq> {NORMAL, COPYING}"
  shows "store_inv (set_chain k c' s)"
proof -
  have ch: "chain_of k (obj_lmt s) = c" using c by (simp add: chain_of_def)
  have "c \<noteq> []" using inv c no_empty_map_of by (auto simp: store_inv_def)
  then have "c' \<noteq> []" using same(1) by auto
  moreover have "tables_inv0 (head s) (AList.update k c' (obj_lmt s)) (free_obj_queue s)
      (trim_obj_queue s) (lmt_entry_pool s)"
    using tables_change [of _ _ _ _ _ c' k] inv same desc ch by (simp add: store_inv_def store_inv0_def)
  moreover have "statuses_ok (AList.update k c' (obj_lmt s))"
    using inv st by (intro statuses_ok_update) (simp_all add: store_inv_def store_inv0_def)
  ultimately show ?thesis using inv by (simp add: store_inv_def store_inv0_def no_empty_update)
qed

lemma store_inv_chain:
  assumes "store_inv s" and "lmt_find k s = Some c"
  shows "c \<noteq> []" and "desc_chain c" and "set (map e_status c) \<subseteq> {NORMAL, COPYING}"
    and "distinct (map e_addr c)" and "distinct (map e_offset c)"
proof -
  have ch: "chain_of k (obj_lmt s) = c" using assms(2) by (simp add: chain_of_def)
  have t: "chains_ok (obj_lmt s)" "slots_conserved (obj_lmt s) (lmt_entry_pool s)"
    "objects_conserved (head s) (obj_lmt s) (free_obj_queue s) (trim_obj_queue s)"
    "statuses_ok (obj_lmt s)"
    using assms(1) by (simp_all add: store_inv_def store_inv0_def tables_inv0_def)
  show "c \<noteq> []" using assms no_empty_map_of by (auto simp: store_inv_def)
  show "desc_chain c" using chains_ok_desc [OF t(1), of k] ch by simp
  show "distinct (map e_addr c)" using chain_addr_distinct [OF t(2), of k] ch by simp
  show "distinct (map e_offset c)" using chain_offset_distinct [OF t(3), of k] ch by simp
  have "set_mset (image_mset e_status (mset c)) \<subseteq> set_mset (image_mset e_status (table_entries (obj_lmt s)))"
    using set_mset_mono [OF image_mset_subseteq_mono [OF chain_of_entries [of k "obj_lmt s"]]] ch by simp
  then show "set (map e_status c) \<subseteq> {NORMAL, COPYING}"
    using t(4) by (simp add: statuses_ok_def)
qed

lemma write_new_keeps:
  assumes inv: "store_inv s" and absent: "lmt_find k s = None"
  shows "keeps (write_new io k s)"
proof (cases "q_is_empty (free_obj_queue s)")
  case True
  then show ?thesis using inv by (simp add: write_new_def)
next
  case False
  have c: "chain_of k (obj_lmt s) = []" using absent by (simp add: chain_of_def)
  have inv0: "store_inv0 s" using inv by (simp add: store_inv_def)
  obtain e s1 where n: "new_entry (m_snap_seq (io_cmd io)) NORMAL s = Inr (e, s1)"
    "obj_lmt s1 = obj_lmt s" "store_inv0 (set_chain k (e # chain_of k (obj_lmt s)) s1)"
    by (rule new_entryE [OF inv0 False, where k = k and seq = "m_snap_seq (io_cmd io)" and stat = NORMAL])
      (simp add: c)
  have i: "store_inv (set_chain k [e] s1)"
    using inv n(3) unfolding store_inv_def c by (simp add: n(2) no_empty_update)
  have "keeps (bnd (write_entry it (set_chain k [e] s1)) (\<lambda>(rc, s3).
        if rc \<noteq> 0 then Inr (0, act (Submit_error io MSG_STATUS_LOGFAILED) s3)
        else Inr (0, act (Submit_io io (media_offset s3 io e) (m_length (io_cmd io))) s3)))" for it
      by (rule keeps_after_log) (simp add: store_inv_tbl [THEN iffD2, OF _ i])
  then show ?thesis
    using False n(1) by (simp add: write_new_def log_defs)
qed

lemma write_cow_keeps:
  assumes inv: "store_inv s" and c: "lmt_find k s = Some (entry # c)"
    and newer: "e_snap_seq entry < m_snap_seq (io_cmd io)"
  shows "keeps (write_cow io k entry c s)"
proof (cases "q_is_empty (free_obj_queue s)")
  case True
  then show ?thesis using inv by (simp add: write_cow_def)
next
  case False
  have ch: "chain_of k (obj_lmt s) = entry # c" using c by (simp add: chain_of_def)
  have inv0: "store_inv0 s" using inv by (simp add: store_inv_def)
  note desc = store_inv_chain [OF inv c]
  obtain e s1 where n: "new_entry (m_snap_seq (io_cmd io)) COPYING s = Inr (e, s1)"
    "e_snap_seq e = m_snap_seq (io_cmd io)" "e_status e = COPYING" "obj_lmt s1 = obj_lmt s"
    and s1: "desc_chain (e # entry # c) \<Longrightarrow> store_inv0 (set_chain k (e # entry # c) s1)"
    by (rule new_entryE [OF inv0 False, where k = k and seq = "m_snap_seq (io_cmd io)" and stat = COPYING])
      (simp add: ch)
  have d: "desc_chain (e # entry # c)" using desc(2) newer n(2) by auto
  have i: "store_inv (set_chain k (e # entry # c) s1)"
    using inv s1 [OF d] unfolding store_inv_def by (simp add: n(4) no_empty_update)
    have ch': "store_inv (set_chain k (e\<lparr>e_waiting_io := w\<rparr> # entry # c) s3)"
      if t: "tbl s3 = tbl (set_chain k (e # entry # c) s1)" for s3 w
    proof (rule store_inv_change)
      show "store_inv s3" using store_inv_tbl [OF t] i by simp
      show "lmt_find k s3 = Some (e # entry # c)" by (simp add: tblD [OF t])
      show "desc_chain (e\<lparr>e_waiting_io := w\<rparr> # entry # c)" using d by simp
      show "set (map e_status (e\<lparr>e_waiting_io := w\<rparr> # entry # c)) \<subseteq> {NORMAL, COPYING}"
        using desc(3) n(3) by simp
    qed simp_all
    have "keeps (bnd (write_entry it (set_chain k (e # entry # c) s1)) (\<lambda>(rc, s3).
        if rc \<noteq> 0 then Inr (- EIO, act (Submit_error io MSG_STATUS_LOGFAILED) s3)
        else let s4 = set_chain k (e\<lparr>e_waiting_io := [io]\<rparr> # entry # c) s3
             in Inr (0, act (if use_scc s4 then Begin_cow_scc k (e_addr entry) (e_addr e)
                             else Begin_cow k (e_addr entry) (e_addr e)) s4)))" for it
    proof (rule keeps_after_log)
      fix rc s3
      assume "tbl s3 = tbl (set_chain k (e # entry # c) s1)"
      from ch' [OF this, of "[io]"] store_inv_tbl [OF this] i
      show "keeps (case (rc, s3) of (rc, s3) \<Rightarrow>
        if rc \<noteq> 0 then Inr (- EIO, act (Submit_error io MSG_STATUS_LOGFAILED) s3)
        else let s4 = set_chain k (e\<lparr>e_waiting_io := [io]\<rparr> # entry # c) s3
             in Inr (0, act (if use_scc s4 then Begin_cow_scc k (e_addr entry) (e_addr e)
                             else Begin_cow k (e_addr entry) (e_addr e)) s4))"
        by (simp add: Let_def)
    qed
    then show ?thesis
      using False n(1) by (simp add: write_cow_def log_defs Let_def)
qed

lemma do_write_keeps:
  assumes inv: "store_inv s"
  shows "keeps (do_write io s)"
proof -
  let ?io = "io\<lparr>io_opcode := m_opcode (io_cmd io)\<rparr>"
  let ?k = "io_key s ?io"
  show ?thesis
  proof (cases "lmt_find ?k s")
    case None
    then show ?thesis using write_new_keeps [OF inv None] by (simp add: do_write_def Let_def)
  next
    case (Some ch)
    note facts = store_inv_chain [OF inv Some]
    obtain e c where ch: "ch = e # c" using facts(1) by (cases ch) auto
    have st: "e_status e = NORMAL \<or> e_status e = COPYING" using facts(3) ch by auto
    have w: "store_inv (set_chain ?k (e\<lparr>e_waiting_io := ws\<rparr> # c) s)" for ws
      using facts ch by (intro store_inv_change [OF inv Some]) simp_all
    have cow: "keeps (write_cow ?io ?k e c s)" if "e_snap_seq e < m_snap_seq (io_cmd io)"
      using write_cow_keeps [of s ?k e c ?io] inv Some ch that by simp
    show ?thesis
      using Some ch inv st w cow by (auto simp: do_write_def Let_def)
  qed
qed

section \<open>Deletion\<close>

lemma update_same: "map_of m k = Some v \<Longrightarrow> AList.update k v m = m"
  by (induction m) auto

lemma delete_update_same: "AList.delete k (AList.update k v m) = AList.delete k m"
  by (induction m) (auto simp: AList.delete_eq)

lemma filter_addr_step:
  "filter (\<lambda>x. e_addr x \<notin> set (map e_addr es)) (filter (\<lambda>x. e_addr x \<noteq> e_addr e) c) =
     filter (\<lambda>x. e_addr x \<notin> set (map e_addr (e # es))) c"
  by (simp add: conj_commute)

lemma filter_keep_others:
  "set es \<subseteq> set c \<Longrightarrow> e_addr e \<notin> set (map e_addr es) \<Longrightarrow>
     set es \<subseteq> set (filter (\<lambda>x. e_addr x \<noteq> e_addr e) c)"
  by (auto simp: image_iff)

lemma filter_not_matched:
  "distinct (map f c) \<Longrightarrow> filter (\<lambda>x. f x \<notin> set (map f (filter P c))) c = filter (\<lambda>x. \<not> P x) c"
  by (intro filter_cong [OF refl]) (auto simp: distinct_map inj_on_def)

lemma trim_entries_step:
  assumes inv: "store_inv0 s" and c: "lmt_find k s = Some c" and e: "e \<in> set c"
    and s2: "s2 = s\<lparr>obj_lmt := AList.update k (filter (\<lambda>x. e_addr x \<noteq> e_addr e) c) (obj_lmt s),
      trim_obj_queue := snd (enqueue (trim_obj_queue s) (offset_to_obj_id (head s) (e_offset e)))\<rparr>"
    and log: "tbl s3 = tbl s2"
  shows "case pool_free (lmt_entry_pool s3) (e_addr e) of
      Inl f \<Rightarrow> False
    | Inr p \<Rightarrow> store_inv0 (s3\<lparr>lmt_entry_pool := p\<rparr>) \<and>
        obj_lmt s3 = AList.update k (filter (\<lambda>x. e_addr x \<noteq> e_addr e) c) (obj_lmt s)"
proof -
  have ch: "chain_of k (obj_lmt s) = c" using c by (simp add: chain_of_def)
  have t: "tables_inv0 (head s) (obj_lmt s) (free_obj_queue s) (trim_obj_queue s) (lmt_entry_pool s)"
    and so: "statuses_ok (obj_lmt s)" using inv by (simp_all add: store_inv0_def)
  have ec: "e \<in> set (chain_of k (obj_lmt s))" using e ch by simp
  note T = tables_trim [OF t ec surjective_pairing]
  have fields: "obj_lmt s3 = AList.update k (filter (\<lambda>x. e_addr x \<noteq> e_addr e) c) (obj_lmt s)"
    "free_obj_queue s3 = free_obj_queue s" "lmt_entry_pool s3 = lmt_entry_pool s"
    "trim_obj_queue s3 = snd (enqueue (trim_obj_queue s) (offset_to_obj_id (head s) (e_offset e)))"
    "fixed_head (head s3) = fixed_head (head s)"
    using tblD [OF log] by (simp_all add: s2)
  have "set_mset (image_mset e_status (mset c)) \<subseteq> {NORMAL, COPYING}"
    using so image_mset_subseteq_mono [OF chain_of_entries [of k "obj_lmt s"]] ch
    unfolding statuses_ok_def by (metis order_trans set_mset_mono)
  then have st: "statuses_ok (obj_lmt s3)"
    unfolding fields(1) by (intro statuses_ok_update [OF so]) auto
  show ?thesis
    using T st tables_inv0_head [OF fields(5)]
    by (cases "pool_free (lmt_entry_pool s) (e_addr e)") (simp_all add: fields ch store_inv0_def)
qed

lemma trim_entries_ok:
  "store_inv0 s \<Longrightarrow> lmt_find k s = Some c \<Longrightarrow> set es \<subseteq> set c \<Longrightarrow> distinct (map e_addr es) \<Longrightarrow>
     case trim_entries k es s of
       Inl f \<Rightarrow> f = Fatal_exit
     | Inr s' \<Rightarrow> store_inv0 s' \<and>
         obj_lmt s' = AList.update k (filter (\<lambda>x. e_addr x \<notin> set (map e_addr es)) c) (obj_lmt s)"
proof (induction es arbitrary: s c)
  case Nil
  then show ?case by (simp add: update_same)
next
  case (Cons e es)
  let ?c = "filter (\<lambda>x. e_addr x \<noteq> e_addr e) c"
  let ?s2 = "s\<lparr>obj_lmt := AList.update k ?c (obj_lmt s),
      trim_obj_queue := snd (enqueue (trim_obj_queue s) (offset_to_obj_id (head s) (e_offset e)))\<rparr>"
  let ?it = "TRIM_OBJ k e (q_tail (trim_obj_queue ?s2))"
  have unfold: "trim_entries k (e # es) s = bnd (write_entry ?it ?s2) (\<lambda>(rc, s3).
      bnd (pool_free (lmt_entry_pool s3) (e_addr e)) (\<lambda>p. trim_entries k es (s3\<lparr>lmt_entry_pool := p\<rparr>)))"
    using Cons.prems(2) by (simp add: log_defs Let_def)
  show ?case
  proof (cases "write_entry ?it ?s2")
    case (Inl f)
    then show ?thesis unfolding unfold using write_entry_fault by simp
  next
    case (Inr r)
    obtain rc s3 where r: "r = (rc, s3)" by (rule prod.exhaust)
    have t: "tbl s3 = tbl ?s2" using write_entry_tbl Inr r by simp
    note step = trim_entries_step [OF Cons.prems(1,2) _ refl t]
    show ?thesis
    proof (cases "pool_free (lmt_entry_pool s3) (e_addr e)")
      case (Inl f)
      then show ?thesis using step Cons.prems(3) by simp
    next
      case (Inr p)
      let ?s4 = "s3\<lparr>lmt_entry_pool := p\<rparr>"
      have s4: "store_inv0 ?s4" "obj_lmt ?s4 = AList.update k ?c (obj_lmt s)"
        using step Cons.prems(3) Inr by simp_all
      have "set es \<subseteq> set ?c" using Cons.prems(3,4) by (intro filter_keep_others) simp_all
      moreover have "lmt_find k ?s4 = Some ?c" using s4(2) by simp
      ultimately have "case trim_entries k es ?s4 of
          Inl f \<Rightarrow> f = Fatal_exit
        | Inr s' \<Rightarrow> store_inv0 s' \<and> obj_lmt s' =
            AList.update k (filter (\<lambda>x. e_addr x \<notin> set (map e_addr es)) ?c) (obj_lmt ?s4)"
        using Cons.prems(4) by (intro Cons.IH [OF s4(1)]) simp_all
      then show ?thesis
        unfolding unfold s4(2) filter_addr_step using \<open>write_entry ?it ?s2 = Inr r\<close> r Inr
        by (cases "trim_entries k es ?s4") (simp_all add: AList.update_last)
    qed
  qed
qed

lemma delete_where_ok:
  assumes inv: "store_inv s" and c: "lmt_find k s = Some c"
  shows "case delete_where k match s of
      Inl f \<Rightarrow> f = Fatal_exit
    | Inr (rc, s') \<Rightarrow> rc = 0 \<and> store_inv s' \<and>
        obj_lmt s' = (let c' = filter (\<lambda>x. \<not> match x) c in
          if c' = [] then AList.delete k (obj_lmt s) else AList.update k c' (obj_lmt s))"
proof -
  have d: "distinct (map e_addr c)" using store_inv_chain [OF inv c] by simp
  have keep: "filter (\<lambda>x. e_addr x \<notin> set (map e_addr (filter match c))) c = filter (\<lambda>x. \<not> match x) c"
    by (rule filter_not_matched [OF d])
  have inv0: "store_inv0 s" using inv by (simp add: store_inv_def)
  have "case trim_entries k (filter match c) s of
      Inl f \<Rightarrow> f = Fatal_exit
    | Inr s' \<Rightarrow> store_inv0 s' \<and> obj_lmt s' = AList.update k (filter (\<lambda>x. \<not> match x) c) (obj_lmt s)"
    using trim_entries_ok [OF inv0 c, of "filter match c"] d unfolding keep
    by (simp add: distinct_map_filter)
  then show ?thesis
  proof (cases "trim_entries k (filter match c) s")
    case (Inl f)
    then show ?thesis using \<open>case _ of Inl _ \<Rightarrow> _ | Inr _ \<Rightarrow> _\<close> c by (simp add: delete_where_def)
  next
    case (Inr s')
    then have s': "store_inv0 s'" "obj_lmt s' = AList.update k (filter (\<lambda>x. \<not> match x) c) (obj_lmt s)"
      using \<open>case _ of Inl _ \<Rightarrow> _ | Inr _ \<Rightarrow> _\<close> by simp_all
    have ne: "no_empty_chain (obj_lmt s)" using inv by (simp add: store_inv_def)
    show ?thesis
    proof (cases "filter (\<lambda>x. \<not> match x) c = []")
      case True
      have "lmt_find k s' = Some []" using s'(2) True by simp
      moreover have "tables_inv0 (head s') (AList.delete k (obj_lmt s')) (free_obj_queue s')
          (trim_obj_queue s') (lmt_entry_pool s')"
        using tables_erase_empty [OF _ calculation] s'(1) by (simp add: store_inv0_def)
      moreover have "table_entries (AList.delete k (obj_lmt s')) = table_entries (obj_lmt s')"
        using entries_delete [of "obj_lmt s'" k] s'(1) calculation(1)
        by (simp add: store_inv0_def tables_inv0_def chains_ok_def chain_of_def)
      then have "statuses_ok (AList.delete k (obj_lmt s'))"
        using s'(1) by (simp add: store_inv0_def statuses_ok_def)
      with calculation show ?thesis
        using Inr c True s'(2) no_empty_delete [OF ne]
        by (simp add: delete_where_def store_inv_def store_inv0_def delete_update_same Let_def)
    next
      case False
      then show ?thesis
        using Inr c s' no_empty_update [OF ne False]
        by (simp add: delete_where_def store_inv_def Let_def)
    qed
  qed
qed

lemma delete_where_keeps:
  assumes inv: "store_inv s"
  shows "keeps (delete_where k match s)"
proof (cases "lmt_find k s")
  case None
  then show ?thesis using inv by (simp add: delete_where_def)
next
  case (Some c)
  show ?thesis
    using delete_where_ok [OF inv Some, of match]
    by (cases "delete_where k match s") (auto simp: keeps_def)
qed

lemma delete_all_keeps: "store_inv s \<Longrightarrow>
    case delete_all k as s of Inl f \<Rightarrow> f = Fatal_exit | Inr s' \<Rightarrow> store_inv s'"
proof (induction as arbitrary: s)
  case Nil
  then show ?case by simp
next
  case (Cons a as)
  have "keeps (delete_obj k a s)" unfolding delete_obj_def by (rule delete_where_keeps [OF Cons.prems])
  then show ?case using Cons.IH
    by (cases "delete_obj k a s") (simp_all add: keeps_def case_prod_beta)
qed

lemma delete_replica_obj_keeps:
  assumes inv: "store_inv s"
  shows "case delete_replica_obj r off s of Inl f \<Rightarrow> f = Fatal_exit | Inr s' \<Rightarrow> store_inv s'"
proof -
  let ?k = "\<lparr>vol_id = VOLUME_ID r, slba = vol_offset_to_block_slba off (objsize_order (head s))\<rparr>"
  show ?thesis
  proof (cases "lmt_find ?k s")
    case None
    then show ?thesis using inv by (simp add: delete_replica_obj_def)
  next
    case (Some c)
    then obtain h t where c: "c = h # t" using store_inv_chain(1) [OF inv Some] by (cases c) auto
    show ?thesis using Some c inv delete_all_keeps [OF inv, of ?k "map e_addr (h # t)"]
      by (simp add: delete_replica_obj_def)
  qed
qed

lemma delete_replica_objs_keeps: "store_inv s \<Longrightarrow>
    case delete_replica_objs r is s of Inl f \<Rightarrow> f = Fatal_exit | Inr s' \<Rightarrow> store_inv s'"
proof (induction "is" arbitrary: s)
  case Nil
  then show ?case by simp
next
  case (Cons i "is")
  let ?r = "delete_replica_obj r (push_bit SHARD_SIZE_ORDER (SHARD_INDEX r) + objsize (head s) * of_nat i) s"
  show ?case
    using delete_replica_obj_keeps [OF Cons.prems, of r
        "push_bit SHARD_SIZE_ORDER (SHARD_INDEX r) + objsize (head s) * of_nat i"] Cons.IH
    by (cases ?r) simp_all
qed

lemma delete_replica_keeps:
  assumes "store_inv s"
  shows "keeps (delete_replica r s)"
  using delete_replica_objs_keeps [OF assms, of r "[0..<unat (SHARD_SIZE div objsize (head s))]"]
  by (cases "delete_replica_objs r [0..<unat (SHARD_SIZE div objsize (head s))] s")
    (simp_all add: delete_replica_def)

section \<open>Trimming\<close>

lemma trim_one_keeps:
  assumes inv: "store_inv s"
  shows "keeps (trim_one s)"
proof (cases "q_is_empty (trim_obj_queue s)")
  case True
  then show ?thesis using inv by (simp add: trim_one_def)
next
  case False
  have t: "tables_inv0 (head s) (obj_lmt s) (free_obj_queue s) (trim_obj_queue s) (lmt_entry_pool s)"
    using inv by (simp add: store_inv_def store_inv0_def)
  then have qi: "q_inv (trim_obj_queue s)" by (simp add: tables_defs)
  obtain i xs where "q_list (trim_obj_queue s) = i # xs"
    using False q_is_empty_iff [OF qi] by (cases "q_list (trim_obj_queue s)") auto
  then obtain tq' where dq: "dequeue (trim_obj_queue s) = Inr (i, tq')"
    using dequeue_ok [OF qi] by metis
  let ?s1 = "s\<lparr>trim_obj_queue := tq', free_obj_queue := snd (enqueue (free_obj_queue s) i)\<rparr>"
  have i: "store_inv ?s1"
    using tables_free [OF t dq surjective_pairing] inv by (simp add: store_inv_def store_inv0_def)
  have "keeps (bnd (write_entry it ?s1) Inr)" for it
    by (rule keeps_after_log) (simp add: store_inv_tbl [THEN iffD2, OF _ i])
  moreover have "bnd r Inr = r" for r :: "fault + int \<times> flash_store" by (cases r) simp_all
  ultimately show ?thesis using False dq by (simp add: trim_one_def log_defs)
qed

lemma trim_round_keeps:
  "store_inv s \<Longrightarrow> case trim_round n s of Inl f \<Rightarrow> f = Fatal_exit | Inr s' \<Rightarrow> store_inv s'"
proof (induction n arbitrary: s)
  case 0
  then show ?case by simp
next
  case (Suc n)
  have "keeps (trim_one s)" by (rule trim_one_keeps [OF Suc.prems])
  then show ?case using Suc.IH
    by (cases "trim_one s") (simp_all add: keeps_def case_prod_beta)
qed

section \<open>A sample store\<close>

text \<open>
  A disk of four objects of 64 MB behind 10 GB of metadata. Objects 0 and 1 hold the
  snapshots 2 and 5 of the first block of volume \<open>0x1000000\<close>, objects 2 and 3 are
  free. It shows that the hypotheses of the theorems can hold.
\<close>

definition sample_head :: HeadPage where
  "sample_head = zero_head\<lparr>magic := 0x3553424e, version := 0x00030000, key_size := 32, entry_size := 48,
     objsize := 0x4000000, objsize_order := 26, meta_size := 0x280000000, tray_capacity := 0x290000000,
     free_list_position_first := 0x1000, free_list_position_second := 0xc0000000,
     trim_list_position_first := 0x8000000, trim_list_position_second := 0xc8000000,
     lmt_position_first := 0x10000000, lmt_position_second := 0xd0000000,
     redolog_position_first := 0x180000000, redolog_position_second := 0x190000000,
     redolog_size := 0x10000000, redolog_phase := 1, current_redolog := 2\<rparr>"

definition sample_entry :: "nat \<Rightarrow> int \<Rightarrow> u32 \<Rightarrow> EntryStatus \<Rightarrow> lmt_entry" where
  "sample_entry a i seq st = \<lparr>e_addr = a, e_offset = obj_id_to_offset sample_head i, e_snap_seq = seq,
     e_status = st, e_waiting_io = [], e_recovery_bmp = None, e_recovery_buf = None\<rparr>"

definition sample_key :: lmt_key where "sample_key = \<lparr>vol_id = 0x1000000, slba = 0\<rparr>"

definition sample_device :: device where
  "sample_device = \<lparr>d_head = Some sample_head, d_log = (\<lambda>_. zero_log_page), d_meta = (\<lambda>_. Zero_block),
     d_data = (\<lambda>_. 0), d_cap = 0x290000000, d_err = (\<lambda>_. 0), d_cnt = 0, d_md5 = (\<lambda>_. 0)\<rparr>"

definition sample_store :: "EntryStatus \<Rightarrow> flash_store" where
  "sample_store st = \<lparr>head = sample_head, in_obj_offset_mask = 0x3ffffff,
     obj_lmt = [(sample_key, [sample_entry 1 1 5 st, sample_entry 0 0 2 NORMAL])],
     free_obj_queue = \<lparr>q_tail = 4, q_head = 2, q_depth = 5, q_data = [0, 1, 2, 3, 0]\<rparr>,
     trim_obj_queue = \<lparr>q_tail = 0, q_head = 0, q_depth = 5, q_data = [0, 0, 0, 0, 0]\<rparr>,
     lmt_entry_pool = \<lparr>p_free = \<lparr>q_tail = 10, q_head = 2, q_depth = 11,
       q_data = [0, 1, 2, 3, 4, 5, 6, 7, 8, 9, 0]\<rparr>, p_slots = 10, p_count = 10\<rparr>,
     log_phase = 1, log_size = 0x10000000, log_start = 0x180000000, log_current = 0x180000000,
     to_run_compact = COMPACT_IDLE, compact_lmt_exist = False, use_scc = False,
     dev = sample_device, acts = []\<rparr>"

lemmas sample_defs = sample_store_def sample_head_def sample_entry_def sample_key_def sample_device_def
  zero_head_def

lemma sample_geometry [simp]:
  "obj_count sample_head = 4" "geom_ok sample_head" "objsize_order sample_head = 26"
  "meta_size sample_head = 0x280000000"
  "offset_to_obj_id sample_head (obj_id_to_offset sample_head 0) = 0"
  "offset_to_obj_id sample_head (obj_id_to_offset sample_head 1) = 1"
proof -
  show c: "obj_count sample_head = 4"
    by (simp add: obj_count_def sample_head_def zero_head_def)
  show o: "objsize_order sample_head = 26" and "meta_size sample_head = 0x280000000"
    by (simp_all add: sample_head_def)
  then show g: "geom_ok sample_head" using c by (simp add: geom_ok_def)
  show "offset_to_obj_id sample_head (obj_id_to_offset sample_head 0) = 0"
    "offset_to_obj_id sample_head (obj_id_to_offset sample_head 1) = 1"
    using c by (simp_all add: obj_id_roundtrip_range [OF g])
qed

lemma sample_store_inv:
  assumes "st \<in> {NORMAL, COPYING}"
  shows "store_inv (sample_store st)"
proof -
  let ?s = "sample_store st"
  have E: "table_entries (obj_lmt ?s) = {#sample_entry 1 1 5 st, sample_entry 0 0 2 NORMAL#}"
    by (simp add: sample_store_def)
  have q: "q_list (free_obj_queue ?s) = [2, 3]" "q_list (trim_obj_queue ?s) = []"
    "q_list (p_free (lmt_entry_pool ?s)) = [2, 3, 4, 5, 6, 7, 8, 9]"
    by (simp_all add: sample_store_def q_list_def q_count_def QUEUE_COUNT_def q_slot_def upt_rec)
  have "queues_ok (head ?s) (free_obj_queue ?s) (trim_obj_queue ?s) (lmt_entry_pool ?s)"
    by (simp add: queues_ok_def q_inv_def q_cap_def sample_store_def)
  moreover have "chains_ok (obj_lmt ?s)" "no_empty_chain (obj_lmt ?s)"
    by (simp_all add: chains_ok_def no_empty_chain_def sample_store_def sample_entry_def)
  moreover have h: "head ?s = sample_head" by (simp add: sample_store_def)
  moreover have "objects_conserved (head ?s) (obj_lmt ?s) (free_obj_queue ?s) (trim_obj_queue ?s)"
    unfolding objects_conserved_def used_ids_def E q h all_ids_def
    by (simp add: sample_entry_def upt_rec)
  moreover have "slots_conserved (obj_lmt ?s) (lmt_entry_pool ?s)"
    unfolding slots_conserved_def E q by (simp add: sample_entry_def sample_store_def upt_rec numeral_eq_Suc)
  moreover have "offsets_ok (head ?s) (obj_lmt ?s)"
    unfolding offsets_ok_def E h by (simp add: sample_entry_def)
  moreover have "statuses_ok (obj_lmt ?s)"
    unfolding statuses_ok_def E using assms by (simp add: sample_entry_def)
  ultimately show ?thesis by (simp add: store_inv_def store_inv0_def tables_inv0_def)
qed

end
