(* ===== verification/Cow.thy ===== *)
theory Cow
  imports Store_Inv
begin

text \<open>
  Copy on write (\<open>begin_cow\<close>, \<open>do_cow_entry\<close> and \<open>end_cow_scc\<close> of
  \<open>pfs/src/pf_flash_store.cpp\<close>). The copy runs in a thread pool next to the store
  thread; its end is an event of the store thread. An entry is named by its key and
  its address; a name without an entry is a dangling pointer, and using it is the
  branch \<open>Null_deref\<close>.
\<close>

section \<open>Copying the object\<close>

definition copy_bytes :: "u64 \<Rightarrow> u64 \<Rightarrow> u64 \<Rightarrow> (u64 \<Rightarrow> u8) \<Rightarrow> u64 \<Rightarrow> u8" where
  "copy_bytes src dst n data = (\<lambda>a. if a - dst < n then data (src + (a - dst)) else data a)"

text \<open>
  One of the pieces of \<open>COW_OBJ_SIZE\<close> bytes that the asynchronous tasks copy. The
  result tells whether the piece failed. The pieces of one object do not overlap, so
  the order in which the tasks run does not matter.
\<close>

definition cow_piece :: "u64 \<Rightarrow> u64 \<Rightarrow> nat \<Rightarrow> flash_store \<Rightarrow> bool \<times> flash_store" where
  "cow_piece src dst j s =
     (case ext_call s of (e, s1) \<Rightarrow>
        if e \<noteq> 0 then (True, s1)
        else case ext_call s1 of (e2, s2) \<Rightarrow>
          if e2 \<noteq> 0 then (True, s2)
          else (False, s2\<lparr>dev := (dev s2)\<lparr>d_data :=
                  copy_bytes (src + of_nat j * COW_OBJ_SIZE) (dst + of_nat j * COW_OBJ_SIZE) COW_OBJ_SIZE
                    (d_data (dev s2))\<rparr>\<rparr>))"

primrec cow_copy :: "u64 \<Rightarrow> u64 \<Rightarrow> nat list \<Rightarrow> flash_store \<Rightarrow> bool \<times> flash_store" where
  "cow_copy src dst [] s = (False, s)"
| "cow_copy src dst (j # js) s =
     (case cow_piece src dst j s of (failed, s1) \<Rightarrow>
        if failed then (True, s1) else cow_copy src dst js s1)"

section \<open>The waiting writes\<close>

text \<open>
  The loop over the waiting list follows \<open>t->next\<close> after \<open>do_write(t)\<close>. When the write
  puts the task into a waiting list again, it changes this pointer, so the loop goes
  on with what is behind the task in that list.
\<close>

definition waiting_behind :: "io_sub_task \<Rightarrow> flash_store \<Rightarrow> io_sub_task list option" where
  "waiting_behind io s =
     (case lmt_find (io_key s io) s of
        Some (e # c) \<Rightarrow>
          (case e_waiting_io e of
             w # ws \<Rightarrow> if io_id w = io_id io then Some ws else None
           | [] \<Rightarrow> None)
      | _ \<Rightarrow> None)"

definition is_write_task :: "io_sub_task \<Rightarrow> bool" where
  "is_write_task t \<longleftrightarrow> io_opcode t = S5_OP_WRITE \<or> io_opcode t = S5_OP_REPLICATE_WRITE"

partial_function (option) run_waiting ::
  "io_sub_task list \<Rightarrow> flash_store \<Rightarrow> (fault + flash_store) option" where
  "run_waiting ts s =
     (case ts of
        [] \<Rightarrow> Some (Inr s)
      | t # rest \<Rightarrow>
          if \<not> is_write_task t then Some (Inl Fatal_exit)
          else case do_write t s of
              Inl f \<Rightarrow> Some (Inl f)
            | Inr (rc, s1) \<Rightarrow>
                run_waiting (case waiting_behind t s1 of Some ws \<Rightarrow> ws | None \<Rightarrow> rest) s1)"

section \<open>The end of a copy\<close>

definition delete_delayed :: "lmt_key \<Rightarrow> nat \<Rightarrow> flash_store \<Rightarrow> fault + flash_store" where
  "delete_delayed key src s =
     (case find_entry key src s of
        None \<Rightarrow> Inl Null_deref
      | Some e \<Rightarrow>
          if e_status e = DELAY_DELETE_AFTER_COW
          then bnd (delete_obj key src s) (\<lambda>(rc, s1). Inr s1) else Inr s)"

definition cow_done :: "lmt_key \<Rightarrow> nat \<Rightarrow> nat \<Rightarrow> flash_store \<Rightarrow> (fault + flash_store) option" where
  "cow_done key src dst s =
     (case find_entry key dst s of
        None \<Rightarrow> Some (Inl Null_deref)
      | Some d \<Rightarrow>
          let s1 = update_entry key dst (\<lambda>e. e\<lparr>e_status := NORMAL\<rparr>) s
          in case log_status_change key (d\<lparr>e_status := NORMAL\<rparr>) (e_status d) s1 of
               Inl f \<Rightarrow> Some (Inl f)
             | Inr (rc, s2) \<Rightarrow>
                 Option.bind (run_waiting (e_waiting_io d)
                                (update_entry key dst (\<lambda>e. e\<lparr>e_waiting_io := []\<rparr>) s2))
                   (\<lambda>r. Some (bnd r (delete_delayed key src))))"

definition cow_failed :: "lmt_key \<Rightarrow> nat \<Rightarrow> flash_store \<Rightarrow> fault + flash_store" where
  "cow_failed key dst s =
     (case find_entry key dst s of
        None \<Rightarrow> Inl Null_deref
      | Some d \<Rightarrow>
          Inr (fold (\<lambda>t s'. act (Complete t MSG_STATUS_REOPEN) s') (e_waiting_io d)
                 (update_entry key dst (\<lambda>e. e\<lparr>e_waiting_io := []\<rparr>) s)))"

definition do_cow_entry :: "lmt_key \<Rightarrow> nat \<Rightarrow> nat \<Rightarrow> flash_store \<Rightarrow> (fault + flash_store) option" where
  "do_cow_entry key src dst s =
     (case (find_entry key src s, find_entry key dst s) of
        (Some a, Some b) \<Rightarrow>
          (case cow_copy (e_offset a) (e_offset b) [0..<unat (objsize (head s) div COW_OBJ_SIZE)] s
           of (failed, s1) \<Rightarrow>
             if failed then Some (cow_failed key dst s1) else cow_done key src dst s1)
      | _ \<Rightarrow> Some (Inl Null_deref))"

text \<open>
  The end of a copy that the device did by itself (\<open>cow_rc\<close> its result). The status
  of the new entry is not changed here.
\<close>

definition end_cow_scc :: "int \<Rightarrow> lmt_key \<Rightarrow> nat \<Rightarrow> nat \<Rightarrow> flash_store \<Rightarrow> (fault + flash_store) option" where
  "end_cow_scc cow_rc key src dst s =
     (case find_entry key dst s of
        None \<Rightarrow> Some (Inl Null_deref)
      | Some d \<Rightarrow>
          let s1 = update_entry key dst (\<lambda>e. e\<lparr>e_waiting_io := []\<rparr>) s
          in if cow_rc = 0
             then Option.bind (run_waiting (e_waiting_io d) s1)
                    (\<lambda>r. Some (bnd r (delete_delayed key src)))
             else Some (Inr (fold (\<lambda>t s'. act (Complete t MSG_STATUS_REOPEN) s') (e_waiting_io d) s1)))"

section \<open>The invariant\<close>

lemma map_if_same:
  "(\<And>e. f (g e) = f e) \<Longrightarrow> map f (map (\<lambda>e. if P e then g e else e) c) = map f c"
  by simp

lemma map_if_subset:
  "set (map f c) \<subseteq> S \<Longrightarrow> (\<And>e. f e \<in> S \<Longrightarrow> f (g e) \<in> S) \<Longrightarrow>
     set (map f (map (\<lambda>e. if P e then g e else e) c)) \<subseteq> S"
  by (induction c) auto

lemma update_entry_inv:
  assumes inv: "store_inv s"
    and g: "\<And>e. e_addr (g e) = e_addr e" "\<And>e. e_offset (g e) = e_offset e"
      "\<And>e. e_snap_seq (g e) = e_snap_seq e"
      "\<And>e. e_status e \<in> {NORMAL, COPYING} \<Longrightarrow> e_status (g e) \<in> {NORMAL, COPYING}"
  shows "store_inv (update_entry k a g s)"
proof (cases "lmt_find k s")
  case None
  then show ?thesis using inv by (simp add: update_entry_def)
next
  case (Some c)
  let ?c = "map (\<lambda>e. if e_addr e = a then g e else e) c"
  note facts = store_inv_chain [OF inv Some]
  have "sorted_wrt (\<lambda>a b. b < a) (map e_snap_seq c)" using facts(2) by (simp add: sorted_wrt_map)
  then have "sorted_wrt (\<lambda>a b. b < a) (map e_snap_seq ?c)"
    using g(3) by (simp only: map_if_same)
  then have d: "desc_chain ?c" by (simp only: sorted_wrt_map)
  have st: "set (map e_status ?c) \<subseteq> {NORMAL, COPYING}" by (rule map_if_subset [OF facts(3) g(4)])
  have "store_inv (set_chain k ?c s)"
    by (rule store_inv_change [OF inv Some _ _ d st]) (use g in \<open>simp_all add: map_if_same\<close>)
  then show ?thesis using Some by (simp add: update_entry_def)
qed

lemma cow_copy_tbl: "tbl (snd (cow_copy src dst js s)) = tbl s"
  by (induction js arbitrary: s) (simp_all add: cow_piece_def case_prod_beta)

lemma find_entry_cases:
  "find_entry k a s = Some d \<Longrightarrow> d \<in> set (chain_of k (obj_lmt s)) \<and> e_addr d = a"
  by (auto simp: find_entry_def chain_of_def find_Some_iff split: option.splits)

definition keeps1 :: "fault + flash_store \<Rightarrow> bool" where
  "keeps1 r \<longleftrightarrow> (case r of Inl f \<Rightarrow> f = Fatal_exit | Inr s' \<Rightarrow> store_inv s')"

lemma keeps1_simps [simp]:
  "keeps1 (Inl f) \<longleftrightarrow> f = Fatal_exit" "keeps1 (Inr s') \<longleftrightarrow> store_inv s'"
  by (simp_all add: keeps1_def)

lemma run_waiting_keeps:
  "run_waiting ts s = Some r \<Longrightarrow> store_inv s \<longrightarrow> keeps1 r"
proof (erule run_waiting.raw_induct [rotated], intro impI, goal_cases)
  case (1 rw ts s r)
  show ?case
  proof (cases ts)
    case Nil
    then show ?thesis using 1(2,3) by auto
  next
    case (Cons t rest)
    show ?thesis
    proof (cases "is_write_task t")
      case False
      then show ?thesis using 1(2) Cons by auto
    next
      case True
      have k: "keeps (do_write t s)" by (rule do_write_keeps [OF 1(3)])
      show ?thesis
      proof (cases "do_write t s")
        case (Inl f)
        then show ?thesis using 1(2) Cons True k by auto
      next
        case (Inr p)
        obtain rc s1 where p: "p = (rc, s1)" by (rule prod.exhaust)
        have "rw (case waiting_behind t s1 of Some ws \<Rightarrow> ws | None \<Rightarrow> rest) s1 = Some r"
          using 1(2) Cons True Inr p by simp
        then show ?thesis using 1(1) k Inr p by simp
      qed
    qed
  qed
qed

lemma delete_delayed_keeps:
  assumes inv: "store_inv s" and src: "find_entry k a s \<noteq> None"
  shows "keeps1 (delete_delayed k a s)"
proof (cases "find_entry k a s")
  case None
  then show ?thesis using src by simp
next
  case (Some e)
  have "keeps (delete_obj k a s)" unfolding delete_obj_def by (rule delete_where_keeps [OF inv])
  then show ?thesis using Some inv
    by (cases "delete_obj k a s") (simp_all add: delete_delayed_def case_prod_beta keeps_def)
qed

lemma fold_complete_inv [simp]:
  "store_inv (fold (\<lambda>t s'. act (Complete t st) s') ts s) = store_inv s"
  by (induction ts arbitrary: s) simp_all

lemma cow_failed_keeps:
  assumes inv: "store_inv s" and dst: "find_entry k a s = Some d"
  shows "keeps1 (cow_failed k a s)"
proof -
  let ?s = "update_entry k a (\<lambda>e. e\<lparr>e_waiting_io := []\<rparr>) s"
  have "store_inv ?s" by (rule update_entry_inv [OF inv]) simp_all
  then show ?thesis using dst by (simp add: cow_failed_def)
qed

text \<open>
  The end of a copy: whatever the waiting writes do, the tables stay in order. The
  hypothesis excludes that the source entry was freed while the copy ran.
\<close>

lemma cow_done_keeps:
  assumes inv: "store_inv s" and fin0: "cow_done k src dst s = Some (Inr s')"
  shows "store_inv s'"
proof -
  obtain d where d: "find_entry k dst s = Some d"
    using fin0 by (cases "find_entry k dst s") (simp_all add: cow_done_def)
  let ?s1 = "update_entry k dst (\<lambda>e. e\<lparr>e_status := NORMAL\<rparr>) s"
  have i1: "store_inv ?s1" by (rule update_entry_inv [OF inv]) simp_all
  let ?log = "log_status_change k (d\<lparr>e_status := NORMAL\<rparr>) (e_status d) ?s1"
  have "\<not> isl ?log" using fin0 d by (cases ?log) (simp_all add: cow_done_def Let_def)
  then obtain b where b: "?log = Inr b" by (cases ?log) simp_all
  obtain rc s2 where bb: "b = (rc, s2)" by (rule prod.exhaust)
  have log: "?log = Inr (rc, s2)" using b bb by simp
  then have t: "tbl s2 = tbl ?s1" unfolding log_defs by (rule write_entry_tbl)
  have i2: "store_inv s2" using store_inv_tbl [OF t] i1 by simp
  let ?s3 = "update_entry k dst (\<lambda>e. e\<lparr>e_waiting_io := []\<rparr>) s2"
  have i3: "store_inv ?s3" by (rule update_entry_inv [OF i2]) simp_all
  obtain r where r: "run_waiting (e_waiting_io d) ?s3 = Some r" and fin: "bnd r (delete_delayed k src) = Inr s'"
    using fin0 d log
    by (cases "run_waiting (e_waiting_io d) ?s3") (simp_all add: cow_done_def Let_def)
  have kr: "keeps1 r" using run_waiting_keeps [OF r] i3 by simp
  show ?thesis
  proof (cases r)
    case (Inl f)
    then show ?thesis using fin by simp
  next
    case (Inr s4)
    then have f: "delete_delayed k src s4 = Inr s'" using fin by simp
    then have "find_entry k src s4 \<noteq> None"
      by (cases "find_entry k src s4") (simp_all add: delete_delayed_def)
    then show ?thesis using delete_delayed_keeps [of s4 k src] kr Inr f by simp
  qed
qed

end
