(* ===== verification/Snapshot.thy ===== *)
theory Snapshot
  imports Cow
begin

text \<open>
  Deleting a snapshot (\<open>delete_snapshot\<close> and \<open>delete_obj_snapshot\<close> of
  \<open>pfs/src/pf_flash_store.cpp\<close>). Names as in the comment of the source: \<open>Lps\<close>, \<open>Lts\<close>,
  \<open>Lns\<close> are the sequence numbers of the previous snapshot, the one to delete and the
  next one; \<open>Pps\<close>, \<open>Pts\<close>, \<open>Pns\<close> those of the objects on the disk around the target.
\<close>

section \<open>Definitions\<close>

text \<open>
  The search loop. It returns the next newer entry, the target and the entry behind
  it. When the chain ends, the loop body still reads \<open>target_entry->prev_snap\<close>.
\<close>

fun locate_target ::
  "u32 \<Rightarrow> lmt_entry option \<Rightarrow> lmt_entry list \<Rightarrow> fault + lmt_entry option \<times> lmt_entry \<times> lmt_entry option" where
  "locate_target seq nxt [] = Inl Null_deref"
| "locate_target seq nxt (t # c) =
     (if seq < e_snap_seq t then locate_target seq (Some t) c
      else Inr (nxt, t, case c of [] \<Rightarrow> None | p # _ \<Rightarrow> Some p))"

definition not_normal :: "lmt_entry option \<Rightarrow> bool" where
  "not_normal e \<longleftrightarrow> (case e of None \<Rightarrow> False | Some x \<Rightarrow> e_status x \<noteq> NORMAL)"

text \<open>The branches that drop the target object.\<close>

definition drop_target ::
  "lmt_key \<Rightarrow> lmt_entry option \<Rightarrow> lmt_entry \<Rightarrow> flash_store \<Rightarrow> fault + int \<times> flash_store" where
  "drop_target key next_entry target s =
     (case next_entry of
        None \<Rightarrow> Inl Null_deref
      | Some n \<Rightarrow>
          if e_status n = NORMAL
          then bnd (delete_obj key (e_addr target) s) (\<lambda>(rc, s1). Inr (0, s1))
          else Inr (0, update_entry key (e_addr target)
                         (\<lambda>e. e\<lparr>e_status := DELAY_DELETE_AFTER_COW\<rparr>) s))"

text \<open>The branches that keep it under another sequence number.\<close>

definition renumber_target :: "lmt_key \<Rightarrow> lmt_entry \<Rightarrow> u32 \<Rightarrow> flash_store \<Rightarrow> fault + int \<times> flash_store" where
  "renumber_target key target seq s =
     bnd (log_snap_seq_change key (target\<lparr>e_snap_seq := seq\<rparr>) (e_snap_seq target)
            (update_entry key (e_addr target) (\<lambda>e. e\<lparr>e_snap_seq := seq\<rparr>) s))
       (\<lambda>(rc, s1). Inr (0, s1))"

definition delete_target ::
  "lmt_key \<Rightarrow> u32 \<Rightarrow> u32 \<Rightarrow> u32 \<Rightarrow> lmt_entry option \<Rightarrow> lmt_entry \<Rightarrow> lmt_entry option \<Rightarrow> flash_store \<Rightarrow>
     fault + int \<times> flash_store" where
  "delete_target key Lts Lps Lns next_entry target prev_entry s =
     (let Pps = (case prev_entry of None \<Rightarrow> 0 | Some p \<Rightarrow> e_snap_seq p);
          Pts = e_snap_seq target;
          Pns = (case next_entry of None \<Rightarrow> 0xffffffff | Some n \<Rightarrow> e_snap_seq n)
      in if \<not> (Pts \<le> Lts \<and> Lts < Pns) then Inl Assert_failed
         else if Lps < Pps \<and> Pns \<le> Lns then drop_target key next_entry target s
         else if Lps < Pps \<and> Lns < Pns then renumber_target key target Lns s
         else if Lps < Pps \<and> next_entry = None then Inl Assert_failed
         else if Pps \<le> Lps \<and> Pns \<le> Lns then drop_target key next_entry target s
         else if Pps \<le> Lps \<and> Lns < Pns then renumber_target key target Lns s
         else if Pps \<le> Lps \<and> next_entry = None then Inl Assert_failed
         else if Pts < Lps then renumber_target key target Lps s
         else Inl Fatal_exit)"

definition delete_obj_snapshot ::
  "u64 \<Rightarrow> u64 \<Rightarrow> u32 \<Rightarrow> u32 \<Rightarrow> u32 \<Rightarrow> flash_store \<Rightarrow> fault + int \<times> flash_store" where
  "delete_obj_snapshot volume_id lba snap_seq prev_snap_seq next_snap_seq s =
     (let key = \<lparr>vol_id = volume_id, slba = lba\<rparr>
      in case lmt_find key s of
           None \<Rightarrow> Inr (- ENOENT, s)
         | Some c \<Rightarrow>
             bnd (locate_target snap_seq None c) (\<lambda>(next_entry, target, prev_entry).
               if not_normal prev_entry \<or> not_normal (Some target) \<or> not_normal next_entry
               then Inr (- EAGAIN, s)
               else delete_target key snap_seq prev_snap_seq next_snap_seq next_entry target prev_entry s))"

text \<open>The loop over the objects of a shard; the results are not looked at.\<close>

primrec delete_snapshot_objs ::
  "u64 \<Rightarrow> u64 list \<Rightarrow> u32 \<Rightarrow> u32 \<Rightarrow> u32 \<Rightarrow> flash_store \<Rightarrow> fault + flash_store" where
  "delete_snapshot_objs vol [] snap prev nxt s = Inr s"
| "delete_snapshot_objs vol (lba # lbas) snap prev nxt s =
     bnd (delete_obj_snapshot vol lba snap prev nxt s) (\<lambda>(rc, s1).
       delete_snapshot_objs vol lbas snap prev nxt s1)"

definition delete_snapshot :: "u64 \<Rightarrow> u32 \<Rightarrow> u32 \<Rightarrow> u32 \<Rightarrow> flash_store \<Rightarrow> fault + flash_store" where
  "delete_snapshot shard_id snap_seq_to_del prev_snap_seq next_snap_seq s =
     (let step = unat (objsize (head s) div LBA_LENGTH)
      in delete_snapshot_objs (VOLUME_ID shard_id)
           (map (\<lambda>i. SHARD_INDEX shard_id * SHARD_LBA_CNT + of_nat (i * step))
              [0..<(unat SHARD_LBA_CNT + step - 1) div step])
           snap_seq_to_del prev_snap_seq next_snap_seq s)"

section \<open>Locating the target\<close>

lemma locate_target_split:
  "locate_target seq nxt c = Inr (n, t, p) \<Longrightarrow>
     \<exists>pre post. c = pre @ t # post \<and> list_all (\<lambda>x. seq < e_snap_seq x) pre \<and> e_snap_seq t \<le> seq \<and>
       n = (if pre = [] then nxt else Some (last pre)) \<and>
       p = (case post of [] \<Rightarrow> None | x # _ \<Rightarrow> Some x)"
proof (induction seq nxt c rule: locate_target.induct)
  case (1 seq nxt)
  then show ?case by simp
next
  case (2 seq nxt x c)
  show ?case
  proof (cases "seq < e_snap_seq x")
    case True
    then obtain pre post where "c = pre @ t # post" "list_all (\<lambda>x. seq < e_snap_seq x) pre"
      "e_snap_seq t \<le> seq" "n = (if pre = [] then Some x else Some (last pre))"
      "p = (case post of [] \<Rightarrow> None | x # _ \<Rightarrow> Some x)"
      using 2 by auto
    then show ?thesis using True by (intro exI [of _ "x # pre"] exI [of _ post]) simp
  next
    case False
    then show ?thesis using 2(2) by (intro exI [of _ "[]"] exI [of _ c]) auto
  qed
qed

lemma locate_target_null:
  "locate_target seq nxt c = Inl f \<longleftrightarrow> f = Null_deref \<and> list_all (\<lambda>x. seq < e_snap_seq x) c"
  by (induction seq nxt c rule: locate_target.induct) auto

section \<open>Reads before and after\<close>

lemma chain_at_append:
  "chain_at q (a @ b) = (case chain_at q a of None \<Rightarrow> chain_at q b | Some e \<Rightarrow> Some e)"
  by (induction a) auto

lemma chain_at_all_newer: "list_all (\<lambda>x. q < e_snap_seq x) c \<Longrightarrow> chain_at q c = None"
  by (induction c) auto

lemma desc_chain_append:
  "desc_chain (pre @ t # post) \<Longrightarrow>
     list_all (\<lambda>x. e_snap_seq t < e_snap_seq x) pre \<and> list_all (\<lambda>x. e_snap_seq x < e_snap_seq t) post \<and>
     desc_chain pre \<and> desc_chain post"
  by (induction pre) (auto simp: list_all_iff)

lemma last_smallest:
  "desc_chain pre \<Longrightarrow> pre \<noteq> [] \<Longrightarrow> list_all (\<lambda>x. e_snap_seq (last pre) \<le> e_snap_seq x) pre"
proof (induction pre)
  case Nil
  then show ?case by simp
next
  case (Cons a pre)
  then show ?case by (cases "pre = []") (auto simp: list_all_iff less_imp_le)
qed

lemma list_all_less_trans:
  "list_all (\<lambda>x. b \<le> e_snap_seq x) c \<Longrightarrow> (a :: u32) < b \<Longrightarrow> list_all (\<lambda>x. a < e_snap_seq x) c"
  by (auto simp: list_all_iff)

lemma chain_at_found: "pre \<noteq> [] \<Longrightarrow> e_snap_seq (last pre) \<le> q \<Longrightarrow> chain_at q pre \<noteq> None"
  by (auto simp: chain_at_None not_less intro: last_in_set)

text \<open>
  Dropping the target is invisible to a reader that stays below the target or finds a
  newer entry at least as old as the next snapshot.
\<close>

lemma drop_invisible:
  assumes "q < e_snap_seq t \<or> (pre \<noteq> [] \<and> e_snap_seq (last pre) \<le> q)"
  shows "chain_at q (pre @ post) = chain_at q (pre @ t # post)"
proof (cases "q < e_snap_seq t")
  case True
  then show ?thesis by (simp add: chain_at_append split: option.split)
next
  case False
  then have "chain_at q pre \<noteq> None" using assms chain_at_found by blast
  then show ?thesis by (cases "chain_at q pre") (simp_all add: chain_at_append)
qed

text \<open>Renumbering the target is invisible to readers below it and not below its new number.\<close>

lemma renumber_invisible:
  assumes "q < e_snap_seq t \<or> n \<le> q" and "e_snap_seq t \<le> n"
  shows "map_option e_offset (chain_at q (pre @ t\<lparr>e_snap_seq := n\<rparr> # post)) =
    map_option e_offset (chain_at q (pre @ t # post))"
  using assms by (auto simp: chain_at_append not_less split: option.split)

section \<open>The decision\<close>

definition next_seq :: "lmt_entry option \<Rightarrow> u32" where
  "next_seq n = (case n of None \<Rightarrow> 0xffffffff | Some x \<Rightarrow> e_snap_seq x)"

text \<open>The case analysis of the source comes down to one comparison.\<close>

lemma delete_target_eq:
  assumes "e_snap_seq t \<le> Lts" and "Lts < next_seq n"
  shows "delete_target k Lts Lps Lns n t p s =
    (if next_seq n \<le> Lns then drop_target k n t s else renumber_target k t Lns s)"
proof -
  define Pps where "Pps = (case p of None \<Rightarrow> 0 | Some x \<Rightarrow> e_snap_seq x)"
  show ?thesis
    unfolding delete_target_def Let_def next_seq_def [symmetric] Pps_def [symmetric]
    using assms by (cases "next_seq n \<le> Lns"; cases "Pps \<le> Lps")
      (simp_all add: not_le [symmetric] del: not_le linorder_not_le)
qed

lemma update_entry_split:
  assumes "lmt_find k s = Some (pre @ t # post)" and "distinct (map e_addr (pre @ t # post))"
  shows "update_entry k (e_addr t) g s = set_chain k (pre @ g t # post) s"
proof -
  have "map (\<lambda>e. if e_addr e = e_addr t then g e else e) pre = pre"
    "map (\<lambda>e. if e_addr e = e_addr t then g e else e) post = post"
    using assms(2) by (simp_all add: map_if_other)
  then show ?thesis using assms(1) by (simp add: update_entry_def)
qed

lemma filter_split:
  assumes "distinct (map e_addr (pre @ t # post))"
  shows "filter (\<lambda>x. \<not> e_addr x = e_addr t) (pre @ t # post) = pre @ post"
  using assms by (simp add: filter_other)

lemma drop_target_ok:
  assumes inv: "store_inv s" and c: "lmt_find k s = Some (pre @ t # post)"
    and r: "drop_target k (Some n) t s = Inr (rc, s')" and nn: "e_status n = NORMAL"
  shows "rc = 0 \<and> store_inv s' \<and> chain_of k (obj_lmt s') = pre @ post \<and>
    (k' \<noteq> k \<longrightarrow> lmt_find k' s' = lmt_find k' s)"
proof -
  have d: "distinct (map e_addr (pre @ t # post))" using store_inv_chain(4) [OF inv c] .
  obtain rc1 where del: "delete_where k (\<lambda>e. e_addr e = e_addr t) s = Inr (rc1, s')" and "rc = 0"
    using r nn unfolding drop_target_def delete_obj_def by (simp add: bnd_ignore_rc) metis
  then show ?thesis
    using delete_where_ok [OF inv c, of "\<lambda>e. e_addr e = e_addr t"]
    unfolding filter_split [OF d] by (simp add: Let_def chain_of_def del)
qed

lemma renumber_target_ok:
  assumes inv: "store_inv s" and c: "lmt_find k s = Some (pre @ t # post)"
    and r: "renumber_target k t n s = Inr (rc, s')"
    and desc: "desc_chain (pre @ t\<lparr>e_snap_seq := n\<rparr> # post)"
  shows "rc = 0 \<and> store_inv s' \<and> chain_of k (obj_lmt s') = pre @ t\<lparr>e_snap_seq := n\<rparr> # post \<and>
    (k' \<noteq> k \<longrightarrow> lmt_find k' s' = lmt_find k' s)"
proof -
  note facts = store_inv_chain [OF inv c]
  let ?s1 = "set_chain k (pre @ t\<lparr>e_snap_seq := n\<rparr> # post) s"
  have u: "update_entry k (e_addr t) (\<lambda>e. e\<lparr>e_snap_seq := n\<rparr>) s = ?s1"
    by (rule update_entry_split [OF c facts(4)])
  have i: "store_inv ?s1"
    using facts(3) by (intro store_inv_change [OF inv c _ _ desc]) simp_all
  obtain rc1 where w: "write_entry (SNAP_SEQ_CHANGE k (t\<lparr>e_snap_seq := n\<rparr>) (e_snap_seq t)) ?s1 = Inr (rc1, s')"
    and "rc = 0"
    using r unfolding renumber_target_def u log_defs by (simp add: bnd_ignore_rc) metis
  have t: "tbl s' = tbl ?s1" by (rule write_entry_tbl [OF w])
  show ?thesis
    using \<open>rc = 0\<close> i store_inv_tbl [OF t] by (simp add: tblD(1) [OF t] chain_of_def)
qed

section \<open>What readers of other snapshots see\<close>

lemma locate_chain_at:
  "locate_target seq nxt c = Inr (n, t, p) \<Longrightarrow> chain_at seq c = Some t"
  by (induction seq nxt c rule: locate_target.induct) (auto split: if_splits)

lemma desc_chain_replace:
  assumes "desc_chain (pre @ t # post)" and "list_all (\<lambda>x. n < e_snap_seq x) pre" and "e_snap_seq t \<le> n"
  shows "desc_chain (pre @ t\<lparr>e_snap_seq := n\<rparr> # post)"
  using assms by (fastforce simp: sorted_wrt_append list_all_iff)

lemma all_above_next:
  assumes "desc_chain (pre @ t # post)"
    and "n = (if pre = [] then None else Some (last pre))" and "m < next_seq n"
  shows "list_all (\<lambda>x. m < e_snap_seq x) pre"
proof (cases "pre = []")
  case False
  then have "list_all (\<lambda>x. e_snap_seq (last pre) \<le> e_snap_seq x) pre"
    using desc_chain_append [OF assms(1)] by (intro last_smallest) simp_all
  then show ?thesis
    using assms(2,3) False by (intro list_all_less_trans) (simp_all add: next_seq_def)
qed simp

lemma max_word_bound: "(x :: u32) \<le> 0xffffffff"
proof -
  have "(0xffffffff :: u32) = - 1" by simp
  show ?thesis unfolding \<open>0xffffffff = - 1\<close> by (rule word_order.extremum)
qed

text \<open>The two ways in which a deletion that returns 0 changes the chain.\<close>

lemma delete_obj_snapshot_cases:
  fixes v lba
  defines "k \<equiv> \<lparr>vol_id = v, slba = lba\<rparr>"
  assumes inv: "store_inv s" and c: "lmt_find k s = Some c" and lt: "Lts < Lns"
    and r: "delete_obj_snapshot v lba Lts Lps Lns s = Inr (0, s')"
  obtains (drop) pre t post where "c = pre @ t # post" "chain_at Lts c = Some t"
      "pre \<noteq> []" "e_snap_seq (last pre) \<le> Lns" "chain_of k (obj_lmt s') = pre @ post" "store_inv s'"
  | (renumber) pre t post where "c = pre @ t # post" "chain_at Lts c = Some t"
      "chain_of k (obj_lmt s') = pre @ t\<lparr>e_snap_seq := Lns\<rparr> # post"
      "list_all (\<lambda>x. Lns < e_snap_seq x) pre" "e_snap_seq t \<le> Lts" "store_inv s'"
proof -
  obtain n t p where loc: "locate_target Lts None c = Inr (n, t, p)"
    and ok: "\<not> (not_normal p \<or> not_normal (Some t) \<or> not_normal n)"
    and d: "delete_target k Lts Lps Lns n t p s = Inr (0, s')"
  proof (cases "locate_target Lts None c")
    case (Inl f)
    then show ?thesis using r c by (simp add: delete_obj_snapshot_def k_def)
  next
    case (Inr x)
    obtain n t p where x: "x = (n, t, p)" by (cases x) blast
    show ?thesis
      using r c Inr x that [of n t p]
      by (cases "not_normal p \<or> not_normal (Some t) \<or> not_normal n")
        (simp_all add: delete_obj_snapshot_def k_def)
  qed
  obtain pre post where sp: "c = pre @ t # post" "list_all (\<lambda>x. Lts < e_snap_seq x) pre"
    "e_snap_seq t \<le> Lts" "n = (if pre = [] then None else Some (last pre))"
    using locate_target_split [OF loc] by blast
  have c': "lmt_find k s = Some (pre @ t # post)" using c sp(1) by simp
  have desc: "desc_chain (pre @ t # post)" using store_inv_chain(2) [OF inv c] sp(1) by simp
  have at: "chain_at Lts c = Some t" by (rule locate_chain_at [OF loc])
  have lt_next: "Lts < next_seq n"
    using sp(2,4) lt max_word_bound [of Lns] by (auto simp: next_seq_def list_all_iff)
  note dt = d [unfolded delete_target_eq [OF sp(3) lt_next]]
  show ?thesis
  proof (cases "next_seq n \<le> Lns")
    case True
    have ne: "pre \<noteq> []" using dt True sp(4) by (auto simp: drop_target_def)
    then have n: "n = Some (last pre)" "e_status (last pre) = NORMAL"
      using sp(4) ok by (simp_all add: not_normal_def)
    have "drop_target k (Some (last pre)) t s = Inr (0, s')" using dt True n by simp
    from drop_target_ok [OF inv c' this n(2)] show ?thesis
      using True n ne sp(1) at by (intro drop [of pre t post]) (simp_all add: next_seq_def)
  next
    case False
    then have above: "list_all (\<lambda>x. Lns < e_snap_seq x) pre"
      using all_above_next [OF desc sp(4), of Lns] by simp
    have "e_snap_seq t \<le> Lns" using sp(3) lt by simp
    then have "desc_chain (pre @ t\<lparr>e_snap_seq := Lns\<rparr> # post)"
      using desc_chain_replace [OF desc above] by simp
    from renumber_target_ok [OF inv c' _ this, of 0 s'] show ?thesis
      using dt False sp(1,3) at above by (intro renumber [of pre t post]) simp_all
  qed
qed

lemma chain_at_offset: "chain_at q c = Some e \<Longrightarrow> e_offset e \<in> e_offset ` set c"
  by (induction c) (auto split: if_splits)

lemma chain_at_lower:
  "chain_at q c = Some t \<Longrightarrow> q' \<le> q \<Longrightarrow> e_snap_seq t \<le> q' \<Longrightarrow> chain_at q' c = Some t"
  by (induction c) (auto split: if_splits)

section \<open>Evaluation on the sample store\<close>

lemmas snapshot_eval = delete_obj_snapshot_def not_normal_def delete_target_def renumber_target_def
  update_entry_def log_defs write_entry_def ext_call_def put_log_page_def Let_def

lemma sample_find: "lmt_find \<lparr>vol_id = 0x1000000, slba = 0\<rparr> (sample_store st) =
    Some [sample_entry 1 1 5 st, sample_entry 0 0 2 NORMAL]"
  by (simp add: sample_store_def sample_key_def)

text \<open>Deleting snapshot 5 between 2 and 7, and deleting snapshot 3 between 2 and 4.\<close>

definition after_delete_5 :: flash_store where
  "after_delete_5 = snd (projr (delete_obj_snapshot 0x1000000 0 5 2 7 (sample_store NORMAL)))"

definition after_delete_3 :: flash_store where
  "after_delete_3 = snd (projr (delete_obj_snapshot 0x1000000 0 3 2 4 (sample_store NORMAL)))"

lemma delete_5_ok: "delete_obj_snapshot 0x1000000 0 5 2 7 (sample_store NORMAL) = Inr (0, after_delete_5)"
  unfolding after_delete_5_def by (simp add: snapshot_eval sample_defs)

lemma delete_3_ok: "delete_obj_snapshot 0x1000000 0 3 2 4 (sample_store NORMAL) = Inr (0, after_delete_3)"
  unfolding after_delete_3_def by (simp add: snapshot_eval sample_defs)

section \<open>Properties\<close>

text \<open>
  (C6) Deleting a snapshot that has an object of its own: when \<open>delete_obj_snapshot\<close>
  returns 0 for a snapshot \<open>Lts\<close> between its neighbours \<open>Lps\<close> and \<open>Lns\<close>, and the object
  that \<open>Lts\<close> reads is newer than \<open>Lps\<close>, then every other snapshot (at most \<open>Lps\<close> or at
  least \<open>Lns\<close>) reads the same object as before, and the tables stay in order.
\<close>

theorem delete_snapshot_keeps_other_snapshots:
  assumes inv: "store_inv s" and c: "lmt_find \<lparr>vol_id = v, slba = lba\<rparr> s = Some c"
    and ord: "Lps < Lts" "Lts < Lns"
    and t: "chain_at Lts c = Some t" and own: "Lps < e_snap_seq t"
    and r: "delete_obj_snapshot v lba Lts Lps Lns s = Inr (0, s')"
  shows "store_inv s' \<and> (\<forall>q. q \<le> Lps \<or> Lns \<le> q \<longrightarrow>
    map_option e_offset (chain_at q (chain_of \<lparr>vol_id = v, slba = lba\<rparr> (obj_lmt s'))) =
    map_option e_offset (chain_at q c))"
proof (rule delete_obj_snapshot_cases [OF inv c ord(2) r])
  fix pre t1 post
  assume sp: "c = pre @ t1 # post" "chain_at Lts c = Some t1" "pre \<noteq> []" "e_snap_seq (last pre) \<le> Lns"
    and ch: "chain_of \<lparr>vol_id = v, slba = lba\<rparr> (obj_lmt s') = pre @ post" and i: "store_inv s'"
  have "t1 = t" using sp(2) t by simp
  moreover have "chain_at q (pre @ post) = chain_at q (pre @ t # post)" if "q \<le> Lps \<or> Lns \<le> q" for q
    using that own sp(3,4) by (intro drop_invisible) auto
  ultimately show ?thesis using sp(1) i by (simp add: ch)
next
  fix pre t1 post
  assume sp: "c = pre @ t1 # post" "chain_at Lts c = Some t1" "e_snap_seq t1 \<le> Lts"
    and ch: "chain_of \<lparr>vol_id = v, slba = lba\<rparr> (obj_lmt s') = pre @ t1\<lparr>e_snap_seq := Lns\<rparr> # post"
    and i: "store_inv s'"
  have "t1 = t" using sp(2) t by simp
  moreover have "map_option e_offset (chain_at q (pre @ t\<lparr>e_snap_seq := Lns\<rparr> # post)) =
      map_option e_offset (chain_at q (pre @ t # post))" if "q \<le> Lps \<or> Lns \<le> q" for q
    using that own sp(3) ord \<open>t1 = t\<close> by (intro renumber_invisible) auto
  ultimately show ?thesis using sp(1) i by (simp add: ch)
qed

theorem delete_snapshot_keeps_other_snapshots_witness:
  "store_inv after_delete_5 \<and>
   map_option e_offset (chain_at 2 (chain_of \<lparr>vol_id = 0x1000000, slba = 0\<rparr> (obj_lmt after_delete_5))) =
     Some (obj_id_to_offset sample_head 0) \<and>
   map_option e_offset (chain_at 9 (chain_of \<lparr>vol_id = 0x1000000, slba = 0\<rparr> (obj_lmt after_delete_5))) =
     Some (obj_id_to_offset sample_head 1)"
proof -
  have own: "2 < e_snap_seq (sample_entry 1 1 5 NORMAL)" by (simp add: sample_entry_def)
  have t: "chain_at 5 [sample_entry 1 1 5 NORMAL, sample_entry 0 0 2 NORMAL] = Some (sample_entry 1 1 5 NORMAL)"
    by (simp add: sample_entry_def)
  note P = delete_snapshot_keeps_other_snapshots [OF sample_store_inv sample_find _ _ t own delete_5_ok]
  show ?thesis using P by (simp add: sample_entry_def)
qed

text \<open>
  (C15) Deleting a snapshot that shares its object with the previous snapshot. When
  the object that \<open>Lts\<close> reads is also the one that \<open>Lps\<close> reads, the deletion takes it
  away from \<open>Lps\<close>: afterwards \<open>Lps\<close> no longer reads that object. The comment in the
  source says to keep the object if it is needed by \<open>Lps\<close>; the branch written for this
  case (A3) is never taken.
\<close>

theorem delete_snapshot_loses_previous:
  assumes inv: "store_inv s" and c: "lmt_find \<lparr>vol_id = v, slba = lba\<rparr> s = Some c"
    and ord: "Lps < Lts" "Lts < Lns"
    and t: "chain_at Lts c = Some t" and shared: "e_snap_seq t \<le> Lps"
    and r: "delete_obj_snapshot v lba Lts Lps Lns s = Inr (0, s')"
  shows "chain_at Lps c = Some t \<and>
    map_option e_offset (chain_at Lps (chain_of \<lparr>vol_id = v, slba = lba\<rparr> (obj_lmt s'))) \<noteq> Some (e_offset t)"
proof -
  have d: "distinct (map e_offset c)" using store_inv_chain(5) [OF inv c] .
  have notin: "map_option e_offset (chain_at q xs) \<noteq> Some (e_offset t)"
    if "e_offset t \<notin> e_offset ` set xs" for q xs
    using that chain_at_offset [of q xs] by (cases "chain_at q xs") auto
  have "chain_at Lps c = Some t" using chain_at_lower [OF t] ord(1) shared by simp
  moreover have "map_option e_offset (chain_at Lps (chain_of \<lparr>vol_id = v, slba = lba\<rparr> (obj_lmt s')))
      \<noteq> Some (e_offset t)"
  proof (rule delete_obj_snapshot_cases [OF inv c ord(2) r])
    fix pre t1 post
    assume sp: "c = pre @ t1 # post" "chain_at Lts c = Some t1"
      and ch: "chain_of \<lparr>vol_id = v, slba = lba\<rparr> (obj_lmt s') = pre @ post"
    have "t1 = t" using sp(2) t by simp
    then have "e_offset t \<notin> e_offset ` set (pre @ post)"
      using d sp(1) by (simp add: image_Un)
    then show ?thesis unfolding ch by (rule notin)
  next
    fix pre t1 post
    assume sp: "c = pre @ t1 # post" "chain_at Lts c = Some t1" "list_all (\<lambda>x. Lns < e_snap_seq x) pre"
      and ch: "chain_of \<lparr>vol_id = v, slba = lba\<rparr> (obj_lmt s') = pre @ t1\<lparr>e_snap_seq := Lns\<rparr> # post"
    have "t1 = t" using sp(2) t by simp
    then have post: "e_offset t \<notin> e_offset ` set post" using d sp(1) by simp
    have lt: "Lps < Lns" using ord by simp
    have "chain_at Lps pre = None"
      using sp(3) lt by (intro chain_at_all_newer) (auto simp: list_all_iff)
    then have "chain_at Lps (pre @ t1\<lparr>e_snap_seq := Lns\<rparr> # post) = chain_at Lps post"
      using lt by (simp add: chain_at_append)
    then show ?thesis unfolding ch using notin [OF post] by simp
  qed
  ultimately show ?thesis by simp
qed

theorem delete_snapshot_loses_previous_witness:
  "map_option e_offset (chain_at 2 (chain_of \<lparr>vol_id = 0x1000000, slba = 0\<rparr> (obj_lmt after_delete_3)))
     \<noteq> Some (obj_id_to_offset sample_head 0)"
proof -
  have sh: "e_snap_seq (sample_entry 0 0 2 NORMAL) \<le> 2" by (simp add: sample_entry_def)
  have t: "chain_at 3 [sample_entry 1 1 5 NORMAL, sample_entry 0 0 2 NORMAL] = Some (sample_entry 0 0 2 NORMAL)"
    by (simp add: sample_entry_def)
  note P = delete_snapshot_loses_previous [OF sample_store_inv sample_find _ _ t sh delete_3_ok]
  show ?thesis using P by (simp add: sample_entry_def)
qed

text \<open>
  (C16) Deleting a snapshot of an object that was first written after the snapshot
  ends in a NULL dereference: the search loop runs off the end of the chain.
\<close>

theorem delete_snapshot_null_deref:
  assumes "lmt_find \<lparr>vol_id = v, slba = lba\<rparr> s = Some c" and "list_all (\<lambda>e. Lts < e_snap_seq e) c"
  shows "delete_obj_snapshot v lba Lts Lps Lns s = Inl Null_deref"
  using assms locate_target_null [of Lts None c Null_deref] by (simp add: delete_obj_snapshot_def)

theorem delete_snapshot_null_deref_witness:
  "delete_obj_snapshot 0x1000000 0 1 0 2 (sample_store NORMAL) = Inl Null_deref"
  by (rule delete_snapshot_null_deref [OF sample_find]) (simp add: sample_entry_def)

end
