(* ===== verification/Redo_Sim.thy ===== *)
theory Redo_Sim
  imports Snapshot
begin

text \<open>
  Redoing a logged item has the same effect on the persistent part of the tables as
  the operation that logged it. The persistent part of an entry is its offset, its
  sequence number and its status; addresses and waiting tasks exist only in memory.
\<close>

section \<open>The persistent view\<close>

definition img :: "lmt_entry \<Rightarrow> u64 \<times> u32 \<times> EntryStatus" where
  "img e = (e_offset e, e_snap_seq e, e_status e)"

type_synonym lmt_image = "(lmt_key \<times> (u64 \<times> u32 \<times> EntryStatus) list) list"

definition img_lmt :: "lmt_table \<Rightarrow> lmt_image" where
  "img_lmt m = map (\<lambda>(k, c). (k, map img c)) m"

definition pview :: "flash_store \<Rightarrow> lmt_image \<times> int fixed_queue \<times> int fixed_queue" where
  "pview s = (img_lmt (obj_lmt s), free_obj_queue s, trim_obj_queue s)"

text \<open>
  \<open>r\<close> is a store that a replay works on, \<open>s\<close> the store that wrote the log.
\<close>

definition sim :: "flash_store \<Rightarrow> flash_store \<Rightarrow> bool" where
  "sim s r \<longleftrightarrow> pview r = pview s \<and> fixed_head (head r) = fixed_head (head s) \<and> store_inv s \<and> store_inv r"

lemma simD:
  assumes "sim s r"
  shows "img_lmt (obj_lmt r) = img_lmt (obj_lmt s)" "free_obj_queue r = free_obj_queue s"
    "trim_obj_queue r = trim_obj_queue s" "fixed_head (head r) = fixed_head (head s)"
    "store_inv s" "store_inv r"
  using assms by (simp_all add: sim_def pview_def)

lemma img_lmt_find: "map_of (img_lmt m) k = map_option (map img) (map_of m k)"
  by (induction m) (auto simp: img_lmt_def)

lemma img_lmt_update: "img_lmt (AList.update k c m) = AList.update k (map img c) (img_lmt m)"
  by (induction m) (auto simp: img_lmt_def)

lemma img_lmt_delete: "img_lmt (AList.delete k m) = AList.delete k (img_lmt m)"
  by (induction m) (auto simp: img_lmt_def AList.delete_eq)

lemma img_chain_of:
  assumes "img_lmt m' = img_lmt m"
  shows "map img (chain_of k m') = map img (chain_of k m)"
  using img_lmt_find [of m' k] img_lmt_find [of m k] assms
  by (cases "map_of m' k"; cases "map_of m k") (simp_all add: chain_of_def)

lemma img_eqD: "img e' = img e \<Longrightarrow> e_offset e' = e_offset e \<and> e_snap_seq e' = e_snap_seq e \<and> e_status e' = e_status e"
  by (simp add: img_def)

lemma map_img_snap: "map img c' = map img c \<Longrightarrow> map e_snap_seq c' = map e_snap_seq c"
proof -
  assume "map img c' = map img c"
  then have "map (fst \<circ> snd) (map img c') = map (fst \<circ> snd) (map img c)" by simp
  then show ?thesis by (simp add: img_def comp_def)
qed

lemma map_img_offset: "map img c' = map img c \<Longrightarrow> map e_offset c' = map e_offset c"
proof -
  assume "map img c' = map img c"
  then have "map fst (map img c') = map fst (map img c)" by simp
  then show ?thesis by (simp add: img_def comp_def)
qed

section \<open>Allocation\<close>

text \<open>
  Pushing a new entry on a chain, with the object at the head of the free queue, and
  the redo of its log record.
\<close>

lemma dequeue_head: "dequeue q = Inr (i, q') \<Longrightarrow> q\<lparr>q_head := q_head q'\<rparr> = q'"
  by (auto simp: dequeue_def dequeue_nolock_def split: if_splits)

lemma redo_allocation_sim:
  assumes sim: "sim s r" and dq: "dequeue (free_obj_queue s) = Inr (i, fq')"
    and off: "e_offset e = obj_id_to_offset (head s) i"
    and st: "e_status e \<in> {NORMAL, COPYING}"
    and desc: "desc_chain (e # chain_of k (obj_lmt s))"
    and s': "obj_lmt s' = AList.update k (e' # chain_of k (obj_lmt s)) (obj_lmt s)" "img e' = img e"
      "free_obj_queue s' = fq'" "trim_obj_queue s' = trim_obj_queue s"
      "fixed_head (head s') = fixed_head (head s)" "store_inv s'"
  shows "case redo_allocation k e (q_head fq') r of
      Inl f \<Rightarrow> False | Inr (rc, r') \<Rightarrow> rc = 0 \<and> sim s' r' \<and> dev r' = dev r"
proof -
  note S = simD [OF sim]
  have tr: "tables_inv0 (head r) (obj_lmt r) (free_obj_queue r) (trim_obj_queue r) (lmt_entry_pool r)"
    and so: "statuses_ok (obj_lmt r)" and ne: "no_empty_chain (obj_lmt r)"
    using S(6) by (simp_all add: store_inv_def store_inv0_def)
  obtain x p' where al: "pool_alloc (lmt_entry_pool r) = (x, p')" by (rule prod.exhaust)
  then obtain a where x: "x = Some a" using alloc_available [OF tr] by (cases x) auto
  define en where "en = init_for_redo (e\<lparr>e_addr := a\<rparr>)"
  have en: "e_addr en = a" "img en = img e" "e_snap_seq en = e_snap_seq e" "e_status en = e_status e"
    "e_offset en = e_offset e"
    by (simp_all add: en_def init_for_redo_def img_def)
  let ?cr = "chain_of k (obj_lmt r)"
  have imgc: "map img ?cr = map img (chain_of k (obj_lmt s))" by (rule img_chain_of [OF S(1)])
  have "sorted_wrt (\<lambda>a b. b < a) (map e_snap_seq (e # chain_of k (obj_lmt s)))"
    using desc by (simp add: sorted_wrt_map)
  then have "sorted_wrt (\<lambda>a b. b < a) (map e_snap_seq (en # ?cr))"
    using map_img_snap [OF imgc] en(3) by simp
  then have descr: "desc_chain (en # ?cr)" by (simp only: sorted_wrt_map)
  have dqr: "dequeue (free_obj_queue r) = Inr (i, fq')" using dq S(2) by simp
  have offr: "e_offset en = obj_id_to_offset (head r) i"
    using off en(5) fixed_head_geometry(1) [OF S(4)] by simp
  let ?r' = "r\<lparr>lmt_entry_pool := p', obj_lmt := AList.update k (en # ?cr) (obj_lmt r), free_obj_queue := fq'\<rparr>"
  have "tables_inv0 (head r) (AList.update k (en # ?cr) (obj_lmt r)) fq' (trim_obj_queue r) p'"
    by (rule tables_alloc [OF tr dqr al [unfolded x] en(1) offr descr])
  then have inv': "store_inv ?r'"
    using st en(4) so ne by (simp add: store_inv_def store_inv0_def statuses_ok_push no_empty_update)
  have "redo_allocation k e (q_head fq') r = Inr (0, ?r')"
  proof (cases "map_of (obj_lmt r) k")
    case None
    then have "?cr = []" by (simp add: chain_of_def)
    then show ?thesis using None al x dequeue_head [OF dqr]
      by (simp add: redo_allocation_def Let_def en_def)
  next
    case (Some c)
    then have cr: "?cr = c" by (simp add: chain_of_def)
    have cn: "c \<noteq> []" using Some no_empty_map_of [OF ne] by auto
    have "e_snap_seq (hd c) < e_snap_seq en" using descr cr cn by (cases c) auto
    then have "insert_chain (newer en) (same_seq en) en c = Inr (0, en # c)"
      by (rule insert_chain_head [OF cn])
    then show ?thesis using Some al x cr dequeue_head [OF dqr]
      by (simp add: redo_allocation_def Let_def en_def [symmetric])
  qed
  moreover have "sim s' ?r'"
    using inv' s' S en(2) imgc by (simp add: sim_def pview_def img_lmt_update)
  ultimately show ?thesis by simp
qed

section \<open>Trim\<close>

lemma redo_enqueue_eq:
  assumes "q_inv q" and "enqueue q x = (0, q')"
  shows "redo_enqueue (q_tail q') x q = Inr q'"
proof -
  have q': "q' = q\<lparr>q_data := (q_data q)[nat (q_tail q) := x], q_tail := (q_tail q + 1) mod q_depth q\<rparr>"
    using assms(2) by (simp add: enqueue_def split: if_splits)
  show ?thesis
  proof (cases "q_tail q + 1 = q_depth q")
    case True
    then show ?thesis using assms(1)
      by (simp add: q' redo_enqueue_def q_inv_def Let_def True [symmetric])
  next
    case False
    then have "(q_tail q + 1) mod q_depth q = q_tail q + 1" using assms(1) by (simp add: q_inv_def)
    then show ?thesis using assms(1) by (simp add: q' redo_enqueue_def q_inv_def Let_def)
  qed
qed

lemma split_by_key:
  assumes "x \<in> set c" and "distinct (map f c)" and "distinct (map g c)"
  obtains pre post where "c = pre @ x # post"
    and "filter (\<lambda>y. f y \<noteq> f x) c = pre @ post" and "filter (\<lambda>y. g y \<noteq> g x) c = pre @ post"
    and "filter (\<lambda>y. f y = f x) c = [x]"
proof -
  obtain pre post where c: "c = pre @ x # post" using assms(1) by (meson split_list)
  have o: "f x \<notin> f ` set pre" "f x \<notin> f ` set post" "g x \<notin> g ` set pre" "g x \<notin> g ` set post"
    using assms(2,3) c by auto
  have "filter (\<lambda>y. f y = f x) pre = []" "filter (\<lambda>y. f y = f x) post = []"
    using o by (auto simp: filter_empty_conv image_iff)
  then show ?thesis using that [of pre post] c o by (simp add: filter_other)
qed

lemma filter_img_offset:
  "map img (filter (\<lambda>e. e_offset e \<noteq> off) c) = filter (\<lambda>x. fst x \<noteq> off) (map img c)"
  by (simp add: filter_map comp_def img_def)

lemma erase_inv:
  assumes t: "tables_inv0 h (AList.update k c m) fq tq p" and ne: "no_empty_chain m"
    and so: "statuses_ok m" and st: "set (map e_status c) \<subseteq> {NORMAL, COPYING}"
  shows "tables_inv0 h (if c = [] then AList.delete k m else AList.update k c m) fq tq p \<and>
    no_empty_chain (if c = [] then AList.delete k m else AList.update k c m) \<and>
    statuses_ok (if c = [] then AList.delete k m else AList.update k c m)"
proof (cases "c = []")
  case True
  have e: "map_of (AList.update k [] m) k = Some []" by simp
  have "tables_inv0 h (AList.delete k m) fq tq p"
    using tables_erase_empty [OF t [unfolded True] e] by (simp add: delete_update_same)
  moreover have "table_entries (AList.delete k m) \<subseteq># table_entries m"
    using entries_update [of k "[]" m] entries_delete [of "AList.update k [] m" k] t True
    by (simp add: tables_inv0_def chains_ok_def delete_update_same chain_of_def)
      (metis mset_subset_eq_add_left)
  then have "statuses_ok (AList.delete k m)"
    using so unfolding statuses_ok_def
    by (meson image_mset_subseteq_mono order_trans set_mset_mono)
  ultimately show ?thesis using True no_empty_delete [OF ne] by simp
next
  case False
  then show ?thesis using t no_empty_update [OF ne False] statuses_ok_update [OF so st] by simp
qed

lemma redo_trim_sim:
  assumes sim: "sim s r" and c: "lmt_find k s = Some c" and e: "e \<in> set c"
    and enq: "enqueue (trim_obj_queue s) (offset_to_obj_id (head s) (e_offset e)) = (rc, tq')"
    and s': "obj_lmt s' = (let c' = filter (\<lambda>x. e_addr x \<noteq> e_addr e) c in
        if c' = [] then AList.delete k (obj_lmt s) else AList.update k c' (obj_lmt s))"
      "free_obj_queue s' = free_obj_queue s" "trim_obj_queue s' = tq'"
      "fixed_head (head s') = fixed_head (head s)" "store_inv s'"
  shows "case redo_trim k e (q_tail tq') r of
      Inl f \<Rightarrow> False | Inr (rc, r') \<Rightarrow> rc = 0 \<and> sim s' r' \<and> dev r' = dev r"
proof -
  note S = simD [OF sim]
  let ?off = "e_offset e" and ?id = "offset_to_obj_id (head r) (e_offset e)"
  have tr: "tables_inv0 (head r) (obj_lmt r) (free_obj_queue r) (trim_obj_queue r) (lmt_entry_pool r)"
    and so: "statuses_ok (obj_lmt r)" and ne: "no_empty_chain (obj_lmt r)"
    using S(6) by (simp_all add: store_inv_def store_inv0_def)
  have imgc: "map img (chain_of k (obj_lmt r)) = map img c"
    using img_chain_of [OF S(1), of k] c by (simp add: chain_of_def)
  have cne: "c \<noteq> []" using e by auto
  then obtain cr where cr: "map_of (obj_lmt r) k = Some cr" "chain_of k (obj_lmt r) = cr"
    using imgc by (cases "map_of (obj_lmt r) k") (simp_all add: chain_of_def)
  have "?off \<in> set (map e_offset cr)"
    using map_img_offset [OF imgc] cr(2) e by simp
  then obtain er where er: "er \<in> set cr" "e_offset er = ?off" by auto
  note F = store_inv_chain [OF S(6) cr(1)]
  obtain pre post where sp: "cr = pre @ er # post" "filter (\<lambda>y. e_offset y \<noteq> ?off) cr = pre @ post"
    "filter (\<lambda>y. e_addr y \<noteq> e_addr er) cr = pre @ post" "filter (\<lambda>y. e_offset y = ?off) cr = [er]"
    by (rule split_by_key [OF er(1) F(5) F(4)]) (simp add: er(2))
  obtain pres posts where ss: "c = pres @ e # posts" "filter (\<lambda>y. e_offset y \<noteq> ?off) c = pres @ posts"
    "filter (\<lambda>y. e_addr y \<noteq> e_addr e) c = pres @ posts"
    using split_by_key [OF e store_inv_chain(5,4) [OF S(5) c]] by metis
  have img': "map img (pre @ post) = map img (pres @ posts)"
    using filter_img_offset [of ?off cr] filter_img_offset [of ?off c] imgc cr(2) sp(2) ss(2) by simp
  have idr: "?id = offset_to_obj_id (head s) ?off" using fixed_head_geometry(2) [OF S(4)] by simp
  have enqr: "enqueue (trim_obj_queue r) (offset_to_obj_id (head r) (e_offset er)) = (rc, tq')"
    using enq S(3) idr er(2) by simp
  have ercr: "er \<in> set (chain_of k (obj_lmt r))" using er(1) cr(2) by simp
  have T: "rc = 0" "case pool_free (lmt_entry_pool r) (e_addr er) of Inl f \<Rightarrow> False
      | Inr p' \<Rightarrow> tables_inv0 (head r) (AList.update k (pre @ post) (obj_lmt r)) (free_obj_queue r) tq' p'"
    using tables_trim [OF tr ercr enqr] unfolding cr(2) sp(3) by simp_all
  then obtain p' where p': "pool_free (lmt_entry_pool r) (e_addr er) = Inr p'"
    by (cases "pool_free (lmt_entry_pool r) (e_addr er)") simp_all
  have t': "tables_inv0 (head r) (AList.update k (pre @ post) (obj_lmt r)) (free_obj_queue r) tq' p'"
    using T(2) p' by simp
  have st: "set (map e_status (pre @ post)) \<subseteq> {NORMAL, COPYING}" using F(3) sp(1) by auto
  note E = erase_inv [OF t' ne so st]
  have qi: "q_inv (trim_obj_queue r)" using tr by (simp add: tables_defs)
  have rq: "redo_enqueue (q_tail tq') ?id (trim_obj_queue r) = Inr tq'"
    using redo_enqueue_eq [OF qi] enqr T(1) er(2) by simp
  let ?m = "if pre @ post = [] then AList.delete k (obj_lmt r) else AList.update k (pre @ post) (obj_lmt r)"
  let ?r' = "r\<lparr>trim_obj_queue := tq', lmt_entry_pool := p', obj_lmt := ?m\<rparr>"
  have "redo_trim k e (q_tail tq') r = Inr (0, ?r')"
    using rq cr(1) sp(2,4) p' by (simp add: redo_trim_def Let_def)
  moreover have "store_inv ?r'" using E by (simp add: store_inv_def store_inv0_def)
  moreover have "img_lmt ?m = img_lmt (obj_lmt s')"
  proof (cases "pres @ posts = []")
    case True
    then have "pre @ post = []" using img' by simp
    then show ?thesis using s'(1) ss(3) True S(1) by (simp add: Let_def img_lmt_delete)
  next
    case False
    then have "pre @ post \<noteq> []" using img' by auto
    then have m: "?m = AList.update k (pre @ post) (obj_lmt r)" by (rule if_not_P)
    have m': "obj_lmt s' = AList.update k (pres @ posts) (obj_lmt s)"
      using s'(1) False unfolding ss(3) Let_def by (simp only: if_False)
    show ?thesis unfolding m m' img_lmt_update img' S(1) ..
  qed
  ultimately show ?thesis using s' S by (simp add: sim_def pview_def)
qed

section \<open>Free, sequence number and status\<close>

lemma redo_free_sim:
  assumes sim: "sim s r" and dq: "dequeue (trim_obj_queue s) = Inr (i, tq')"
    and enq: "enqueue (free_obj_queue s) i = (rc, fq')"
    and s': "obj_lmt s' = obj_lmt s" "free_obj_queue s' = fq'" "trim_obj_queue s' = tq'"
      "fixed_head (head s') = fixed_head (head s)" "store_inv s'"
  shows "case redo_free i (q_head tq') (q_tail fq') r of
      Inl f \<Rightarrow> False | Inr (rc, r') \<Rightarrow> rc = 0 \<and> sim s' r' \<and> dev r' = dev r"
proof -
  note S = simD [OF sim]
  have tr: "tables_inv0 (head r) (obj_lmt r) (free_obj_queue r) (trim_obj_queue r) (lmt_entry_pool r)"
    using S(6) by (simp add: store_inv_def store_inv0_def)
  have qi: "q_inv (free_obj_queue r)" using tr by (simp add: tables_defs)
  have dqr: "dequeue (trim_obj_queue r) = Inr (i, tq')" and enqr: "enqueue (free_obj_queue r) i = (rc, fq')"
    using dq enq S(2,3) by simp_all
  have T: "rc = 0" "tables_inv0 (head r) (obj_lmt r) fq' tq' (lmt_entry_pool r)"
    using tables_free [OF tr dqr enqr] by simp_all
  let ?r' = "r\<lparr>free_obj_queue := fq', trim_obj_queue := tq'\<rparr>"
  have "redo_free i (q_head tq') (q_tail fq') r = Inr (0, ?r')"
    using redo_enqueue_eq [OF qi] enqr T(1) dequeue_head [OF dqr] by (simp add: redo_free_def)
  moreover have "store_inv ?r'" using S(6) T(2) by (simp add: store_inv_def store_inv0_def)
  ultimately show ?thesis using s' S by (simp add: sim_def pview_def)
qed

lemma change_at_split:
  assumes "e_offset t = off" and "off \<notin> e_offset ` set pre"
  shows "change_at off f (pre @ t # post) = pre @ f t # post"
  using assms by (induction pre) auto

text \<open>
  Both kinds of change replace one entry of a chain by one that differs in its
  sequence number or its status.
\<close>

lemma redo_change_sim:
  assumes sim: "sim s r" and c: "lmt_find k s = Some (pres @ t # posts)"
    and g: "\<And>e. e_offset (g e) = e_offset e" "\<And>e. e_addr (g e) = e_addr e"
      "\<And>e. img e = img t \<Longrightarrow> img (g e) = img t'"
    and desc: "desc_chain (pres @ t' # posts)" and st: "e_status t' \<in> {NORMAL, COPYING}"
    and s': "img_lmt (obj_lmt s') = AList.update k (map img (pres @ t' # posts)) (img_lmt (obj_lmt s))"
      "free_obj_queue s' = free_obj_queue s" "trim_obj_queue s' = trim_obj_queue s"
      "fixed_head (head s') = fixed_head (head s)" "store_inv s'"
  shows "sim s' (change_entry k (e_offset t) g r)"
proof -
  note S = simD [OF sim]
  have imgc: "map img (chain_of k (obj_lmt r)) = map img (pres @ t # posts)"
    using img_chain_of [OF S(1), of k] c by (simp add: chain_of_def)
  obtain cr where cr: "map_of (obj_lmt r) k = Some cr" "chain_of k (obj_lmt r) = cr"
    using imgc by (cases "map_of (obj_lmt r) k") (simp_all add: chain_of_def)
  obtain pre tr post where sp: "cr = pre @ tr # post" "map img pre = map img pres" "img tr = img t"
      "map img post = map img posts"
    using imgc unfolding cr(2) by (auto simp: map_eq_append_conv map_eq_Cons_conv)
  note F = store_inv_chain [OF S(6) cr(1)]
  have off: "e_offset tr = e_offset t" using sp(3) by (simp add: img_def)
  have "e_offset t \<notin> e_offset ` set pre" using F(5) sp(1) off by simp
  then have ch: "change_at (e_offset t) g cr = pre @ g tr # post"
    using change_at_split [OF off] sp(1) by simp
  have im: "map img (pre @ g tr # post) = map img (pres @ t' # posts)"
    using sp(2,4) g(3) [OF sp(3)] by simp
  have "sorted_wrt (\<lambda>a b. b < a) (map e_snap_seq (pres @ t' # posts))"
    using desc by (simp only: sorted_wrt_map)
  then have d': "desc_chain (pre @ g tr # post)"
    unfolding map_img_snap [OF im, symmetric] by (simp only: sorted_wrt_map)
  have "e_status (g tr) = e_status t'" using g(3) [OF sp(3)] by (simp add: img_def)
  then have "set (map e_status (pre @ g tr # post)) \<subseteq> {NORMAL, COPYING}" using F(3) sp(1) st by auto
  then have "store_inv (set_chain k (pre @ g tr # post) r)"
    using g(1,2) sp(1) by (intro store_inv_change [OF S(6) cr(1) _ _ d']) simp_all
  then show ?thesis
    using s' S cr(1) im by (simp add: change_entry_def ch sim_def pview_def img_lmt_update)
qed

end
