(* ===== verification/Startup.thy ===== *)
theory Startup
  imports Snapshot
begin

text \<open>
  Bringing a disk into service, the events of the store thread and the compaction of
  the metadata (\<open>pfs/src/pf_flash_store.cpp\<close>, \<open>PfRedoLog::start\<close>). The compaction tool
  is a second \<open>PfFlashStore\<close> object on the same device; the device is handed over to it
  and taken back around each of its calls.
\<close>

section \<open>Cleaning the metadata area\<close>

text \<open>
  The buffer that \<open>clean_meta_area\<close> writes comes from \<open>aligned_alloc\<close> and is not
  cleared. Its content is a parameter, seen as the head page, as log pages, as metadata
  blocks and as bytes, by the offset in the buffer.
\<close>

record raw_buffer =
  rb_head :: "HeadPage option"
  rb_log :: "u64 \<Rightarrow> log_page"
  rb_meta :: "u64 \<Rightarrow> meta_block"
  rb_data :: "u64 \<Rightarrow> u8"

definition zero_buffer :: raw_buffer where
  "zero_buffer = \<lparr>rb_head = None, rb_log = (\<lambda>_. zero_log_page), rb_meta = (\<lambda>_. Zero_block), rb_data = (\<lambda>_. 0)\<rparr>"

definition clean_buf_len :: u64 where "clean_buf_len = push_bit 20 1"

definition overwrite :: "raw_buffer \<Rightarrow> u64 \<Rightarrow> device \<Rightarrow> device" where
  "overwrite b off d =
     d\<lparr>d_head := (if off = 0 then rb_head b else d_head d),
       d_log := (\<lambda>o'. if off \<le> o' \<and> o' - off < clean_buf_len then rb_log b (o' - off) else d_log d o'),
       d_meta := (\<lambda>o'. if off \<le> o' \<and> o' - off < clean_buf_len then rb_meta b (o' - off) else d_meta d o'),
       d_data := (\<lambda>o'. if off \<le> o' \<and> o' - off < clean_buf_len then rb_data b (o' - off) else d_data d o')\<rparr>"

primrec clean_chunks :: "raw_buffer \<Rightarrow> nat list \<Rightarrow> flash_store \<Rightarrow> int \<times> flash_store" where
  "clean_chunks b [] s = (0, s)"
| "clean_chunks b (i # is) s =
     (case ext_call s of (e, s1) \<Rightarrow>
        if e \<noteq> 0 then (- e, s1)
        else clean_chunks b is (s1\<lparr>dev := overwrite b (of_nat i * clean_buf_len) (dev s1)\<rparr>))"

text \<open>A failed allocation shows as \<open>EFAULT\<close> (14) of the first \<open>pwrite\<close>.\<close>

definition clean_meta_area :: "raw_buffer \<Rightarrow> u64 \<Rightarrow> flash_store \<Rightarrow> int \<times> flash_store" where
  "clean_meta_area b sz s =
     (case ext_call s of (nomem, s1) \<Rightarrow>
        if nomem \<noteq> 0 \<and> sz \<noteq> 0 then (- 14, s1)
        else clean_chunks b [0..<(unat sz + unat clean_buf_len - 1) div unat clean_buf_len] s1)"

section \<open>A new disk\<close>

text \<open>What the configuration and the libraries supply for a new disk.\<close>

record disk_conf =
  dc_uuid :: "u8 list"
  dc_time :: string
  dc_meta_size :: u64
  dc_buf :: raw_buffer

text \<open>The two object queues of a new disk: all objects free, none to trim.\<close>

definition new_obj_queues :: "flash_store \<Rightarrow> int \<times> flash_store" where
  "new_obj_queues s =
     (case ext_call s of (nomem, s1) \<Rightarrow>
        case q_init (nomem = 0) 0 (obj_count (head s1)) (free_obj_queue s1) of (rc, fq) \<Rightarrow>
          if rc \<noteq> 0 then (rc, s1\<lparr>free_obj_queue := fq\<rparr>)
          else
            let s2 = s1\<lparr>free_obj_queue := enq_all enqueue (map int [0..<nat (obj_count (head s1))]) fq\<rparr>
            in case ext_call s2 of (nomem2, s3) \<Rightarrow>
              case q_init (nomem2 = 0) 0 (obj_count (head s3)) (trim_obj_queue s3) of (rc2, tq) \<Rightarrow>
                (rc2, s3\<lparr>trim_obj_queue := tq\<rparr>))"

definition format_disk :: "disk_conf \<Rightarrow> flash_store \<Rightarrow> int \<times> flash_store" where
  "format_disk cf s =
     (case clean_meta_area (dc_buf cf) (dc_meta_size cf) s of (rc, s1) \<Rightarrow>
        if rc \<noteq> 0 then (rc, s1)
        else case initialize_store_head (dc_uuid cf) (dc_time cf) (dc_meta_size cf) s1 of (rc2, s2) \<Rightarrow>
          if rc2 \<noteq> 0 then (rc2, s2)
          else case new_obj_queues s2 of (rc3, s3) \<Rightarrow>
            let destroyed = (\<lambda>x. x\<lparr>free_obj_queue := q_destroy (free_obj_queue x),
                                  trim_obj_queue := q_destroy (trim_obj_queue x)\<rparr>)
            in if rc3 \<noteq> 0
               then (rc3, if q_data (free_obj_queue s3) = [] then s3
                          else s3\<lparr>free_obj_queue := q_destroy (free_obj_queue s3)\<rparr>)
               else case redolog_init (s3\<lparr>obj_lmt := []\<rparr>) of (rc4, s4) \<Rightarrow>
                 if rc4 \<noteq> 0 then (rc4, destroyed s4)
                 else (0, destroyed (snd (save_meta_data (current_metadata (head s4)) s4))))"

text \<open>
  The branch of \<open>start_metadata_service\<close> for a new disk. The result of
  \<open>save_meta_data\<close> is not looked at.
\<close>

definition init_new_disk :: "disk_conf \<Rightarrow> flash_store \<Rightarrow> int \<times> flash_store" where
  "init_new_disk cf s0 =
     (case is_disk_clean s0 of (clean, s) \<Rightarrow>
        if \<not> clean then (- EUCLEAN, s)
        else case clean_meta_area (dc_buf cf) (dc_meta_size cf) s of (rc, s1) \<Rightarrow>
          if rc \<noteq> 0 then (rc, s1)
          else case initialize_store_head (dc_uuid cf) (dc_time cf) (dc_meta_size cf) s1 of (rc2, s2) \<Rightarrow>
            if rc2 \<noteq> 0 then (rc2, s2)
            else case new_obj_queues s2 of (rc3, s3) \<Rightarrow>
              if rc3 \<noteq> 0 then (rc3, s3)
              else case init_entry_pool s3 of (rc4, s4) \<Rightarrow>
                if rc4 \<noteq> 0 then (rc4, s4)
                else case redolog_init s4 of (rc5, s5) \<Rightarrow>
                  if rc5 \<noteq> 0 then (rc5, s5)
                  else case save_meta_data (current_metadata (head s5)) s5 of (_, s6) \<Rightarrow>
                    (0, set_log_phase (redolog_phase (head s6)) (redolog_position (head s6) CURRENT) s6))"

section \<open>An existing disk\<close>

text \<open>
  The other branch: load the metadata of the current zone, replay the log of the
  current zone and, with the next phase, that of the opposite zone, drop unfinished
  entries, and save the result in the opposite metadata zone.
\<close>

definition load_disk :: "flash_store \<Rightarrow> (fault + int \<times> flash_store) option" where
  "load_disk s =
     obnd (Some (load_meta_data (current_metadata (head s)) False s)) (\<lambda>(rc, s1).
       if rc \<noteq> 0 then Some (Inr (rc, s1))
       else case redolog_init s1 of (rc2, s2) \<Rightarrow>
         if rc2 \<noteq> 0 then Some (Inr (rc2, s2))
         else obnd (replay (redolog_phase (head s2)) CURRENT s2) (\<lambda>(rc3, s3).
           if rc3 \<noteq> 0 then Some (Inr (rc3, s3))
           else
             let s4 = s3\<lparr>head := (head s3)\<lparr>redolog_phase := redolog_phase (head s3) + 1\<rparr>\<rparr>
             in obnd (replay (redolog_phase (head s4)) OPPOSITE s4) (\<lambda>(rc5, s5).
               if rc5 \<noteq> 0 then Some (Inr (rc5, s5))
               else obnd (Some (post_load_fix s5)) (\<lambda>s6.
                 obnd (Some (post_load_check s6)) (\<lambda>_.
                   case save_meta_data (oppsite_md_zone (head s6)) s6 of (_, s7) \<Rightarrow>
                     Some (Inr (0, set_log_phase (redolog_phase (head s7))
                                     (redolog_position (head s7) CURRENT) s7)))))))"

section \<open>The compaction tool\<close>

text \<open>
  \<open>compact_tool_init\<close>: the new object with the content \<open>mem\<close> of its memory, whose table
  is empty. The log is initialised before the head page is copied. On an error the
  object is deleted (\<open>None\<close>).
\<close>

definition compact_tool_init ::
  "flash_store \<Rightarrow> flash_store \<Rightarrow> int \<times> flash_store option \<times> flash_store" where
  "compact_tool_init mem s =
     (case redolog_init (mem\<lparr>obj_lmt := [], dev := dev s\<rparr>) of (_, t1) \<Rightarrow>
        case ext_call t1 of (spin_rc, t2) \<Rightarrow> case ext_call t2 of (nomem1, t3) \<Rightarrow>
        case ext_call t3 of (nomem2, t4) \<Rightarrow>
          case pool_init spin_rc (nomem1 = 0) (nomem2 = 0) (q_depth (free_obj_queue s) * 2) (lmt_entry_pool t4)
          of (rc, p) \<Rightarrow>
            let s1 = s\<lparr>dev := dev t4\<rparr>
            in if rc \<noteq> 0 then (rc, None, s1)
               else (0, Some (t4\<lparr>lmt_entry_pool := p, head := head s, use_scc := use_scc s\<rparr>), s1))"

text \<open>\<open>start_metadata_service\<close>; the result of \<open>compact_tool_init\<close> is not looked at.\<close>

definition start_metadata_service ::
  "disk_conf \<Rightarrow> flash_store \<Rightarrow> bool \<Rightarrow> flash_store \<Rightarrow>
     (fault + int \<times> flash_store option \<times> flash_store) option" where
  "start_metadata_service cf mem new_disk s =
     obnd (if new_disk then Some (Inr (init_new_disk cf s)) else load_disk s) (\<lambda>(rc, s1).
       if rc \<noteq> 0 then Some (Inr (rc, None, s1))
       else case compact_tool_init mem s1 of (_, t, s2) \<Rightarrow>
         Some (Inr (0, t, act Start_compaction_thread s2)))"

definition drop_tool_entries :: "flash_store \<Rightarrow> fault + flash_store" where
  "drop_tool_entries t =
     bnd (free_entries (concat (map snd (obj_lmt t))) (lmt_entry_pool t)) (\<lambda>p.
       Inr (t\<lparr>free_obj_queue := q_destroy (free_obj_queue t), trim_obj_queue := q_destroy (trim_obj_queue t),
              lmt_entry_pool := p, obj_lmt := []\<rparr>))"

definition compact_failed ::
  "int \<Rightarrow> flash_store \<Rightarrow> flash_store \<Rightarrow> (fault + int \<times> flash_store \<times> flash_store) option" where
  "compact_failed rc s t =
     Some (bnd (drop_tool_entries t) (\<lambda>t'. Inr (rc, s\<lparr>compact_lmt_exist := False, dev := dev t\<rparr>, t')))"

definition compact_meta_data ::
  "flash_store \<Rightarrow> flash_store \<Rightarrow> (fault + int \<times> flash_store \<times> flash_store) option" where
  "compact_meta_data s t =
     (let t0 = t\<lparr>head := head s, dev := dev s\<rparr>
      in obnd (Some (if compact_lmt_exist s then Inr (0, t0)
                     else load_meta_data (current_metadata (head s)) True t0)) (\<lambda>(rc, t1).
           if rc \<noteq> 0 then compact_failed rc s t1
           else obnd (replay (redolog_phase (head s)) CURRENT t1) (\<lambda>(rc2, t2).
             if rc2 \<noteq> 0 then compact_failed rc2 s t2
             else case save_meta_data (oppsite_md_zone (head s)) t2 of (rc3, t3) \<Rightarrow>
               if rc3 \<noteq> 0 then compact_failed rc3 s t3
               else Some (Inr (0, s\<lparr>head := head t3, compact_lmt_exist := True, dev := dev t3\<rparr>, t3)))))"

text \<open>
  The compaction thread, from one look at \<open>to_run_compact\<close> to the next. It holds
  \<open>md_lock\<close>, except while it waits; \<open>wait_rc\<close> is the result of the wait, after which
  it looks at the state again. The boolean of the result tells that the inner loop is
  left. The state \<open>COMPACT_RUNNING\<close> has no case.
\<close>

definition compaction_work ::
  "flash_store \<Rightarrow> flash_store \<Rightarrow> (fault + bool \<times> flash_store \<times> flash_store) option" where
  "compaction_work s t =
     (if to_run_compact s = COMPACT_TODO
      then obnd (compact_meta_data (s\<lparr>to_run_compact := COMPACT_RUNNING\<rparr>) t) (\<lambda>(rc, s1, t1).
             if rc \<noteq> 0
             then Some (Inr (True, act Post_savemd (s1\<lparr>to_run_compact := COMPACT_ERROR\<rparr>), t1))
             else Some (Inr (True, s1\<lparr>to_run_compact := COMPACT_IDLE\<rparr>, t1)))
      else Some (Inr (False, s, t)))"

definition compaction_woken :: "int \<Rightarrow> flash_store \<Rightarrow> bool \<times> flash_store" where
  "compaction_woken wait_rc s =
     (if to_run_compact s = COMPACT_STOP then (True, s)
      else if wait_rc = 0 then (False, s)
      else if wait_rc = 110 then (True, act Post_savemd s)
      else (True, s))"

section \<open>The disk becomes usable\<close>

text \<open>
  Assigning to the \<open>std::thread\<close> of a running thread ends the process.
\<close>

definition start_trimming :: "flash_store \<Rightarrow> fault + flash_store" where
  "start_trimming s =
     (if Start_trim_thread \<in> set (acts s) then Inl Runtime_error else Inr (act Start_trim_thread s))"

text \<open>\<open>init\<close>: opening the device file is an external call.\<close>

definition store_init ::
  "disk_conf \<Rightarrow> flash_store \<Rightarrow> flash_store \<Rightarrow> (fault + int \<times> flash_store option \<times> flash_store) option" where
  "store_init cf mem s0 =
     (case ext_call s0 of (e, s) \<Rightarrow>
        if e \<noteq> 0 then Some (Inr (- e, None, s))
        else case read_store_head s of (rc, s1) \<Rightarrow>
          if rc \<noteq> 0 \<and> rc \<noteq> - EUCLEAN then Some (Inr (rc, None, s1))
          else obnd (start_metadata_service cf mem (rc \<noteq> 0) s1) (\<lambda>(rc2, t, s2).
            obnd (Some (start_trimming (s2\<lparr>in_obj_offset_mask := objsize (head s2) - 1\<rparr>))) (\<lambda>s3.
              Some (Inr (rc2, t, s3\<lparr>to_run_compact := COMPACT_IDLE, compact_lmt_exist := False\<rparr>)))))"

definition owner_init ::
  "disk_conf \<Rightarrow> flash_store \<Rightarrow> flash_store \<Rightarrow> (fault + int \<times> flash_store option \<times> flash_store) option" where
  "owner_init cf mem s0 =
     (case ext_call s0 of (e, s) \<Rightarrow>
        if e \<noteq> 0 then Some (Inr (- e, None, s))
        else case read_store_head s of (rc, s1) \<Rightarrow>
          if rc \<noteq> 0 then Some (Inr (rc, None, s1))
          else obnd (start_metadata_service cf mem False s1) (\<lambda>(rc2, t, s2).
            obnd (Some (start_trimming (s2\<lparr>in_obj_offset_mask := objsize (head s2) - 1\<rparr>))) (\<lambda>s3.
              Some (Inr (rc2, t, s3)))))"

text \<open>
  \<open>shared_disk_init\<close>: \<open>locks\<close> are the results of the at most ten attempts to take the
  lock of the disk. A successful format does not leave the loop.
\<close>

primrec format_shared :: "disk_conf \<Rightarrow> int list \<Rightarrow> flash_store \<Rightarrow> int \<times> flash_store" where
  "format_shared cf [] s = (- EBUSY, s)"
| "format_shared cf (l # ls) s =
     (if l \<noteq> 0 then format_shared cf ls s
      else case read_store_head s of (rc, s1) \<Rightarrow>
        if rc = 0 then (0, s1)
        else case format_disk cf s1 of (rc2, s2) \<Rightarrow>
          if rc2 \<noteq> 0 then (rc2, s2) else format_shared cf ls s2)"

definition shared_disk_init :: "disk_conf \<Rightarrow> int list \<Rightarrow> flash_store \<Rightarrow> int \<times> flash_store" where
  "shared_disk_init cf locks s0 =
     (case ext_call s0 of (e, s) \<Rightarrow>
        if e \<noteq> 0 then (- e, s)
        else case read_store_head s of (rc, s1) \<Rightarrow>
          if rc = 0 then (0, s1\<lparr>in_obj_offset_mask := objsize (head s1) - 1\<rparr>)
          else if rc = - EUCLEAN
          then (case is_disk_clean s1 of (clean, s2) \<Rightarrow>
                  if \<not> clean then (rc, s2) else format_shared cf (take 10 locks) s2)
          else (rc, s1))"

section \<open>Events of the store thread\<close>

record cow_task =
  cow_src_offset :: u64
  cow_dst_offset :: u64
  cow_size :: int

datatype store_event =
    EVT_IO_REQ io_sub_task
  | EVT_COW_READ cow_task
  | EVT_COW_WRITE cow_task
  | EVT_SAVEMD
  | EVT_OTHER int

text \<open>
  The event \<open>EVT_WAIT_OWNER_LOCK\<close>, the first one of a shared disk, waits for the
  ownership: \<open>zk n\<close> is the result of the \<open>n\<close>-th wait
  for the lock and whether the thread is asked to exit.
\<close>

partial_function (option) wait_owner ::
  "(nat \<Rightarrow> int \<times> bool) \<Rightarrow> nat \<Rightarrow> disk_conf \<Rightarrow> flash_store \<Rightarrow> flash_store \<Rightarrow>
     (fault + int \<times> flash_store option \<times> flash_store) option" where
  "wait_owner zk n cf mem s =
     (case zk n of (rc, exiting) \<Rightarrow>
        if rc \<noteq> 0
        then (if exiting then Some (Inr (rc, None, s)) else wait_owner zk (n + 1) cf mem s)
        else case owner_init cf mem s of
            None \<Rightarrow> None
          | Some (Inl f) \<Rightarrow> Some (Inl f)
          | Some (Inr (rc2, t, s1)) \<Rightarrow>
              if rc2 \<noteq> 0 then wait_owner zk (n + 1) cf mem s1 else Some (Inr (0, t, s1)))"

text \<open>The other events; the results of the handlers are not looked at.\<close>

definition process_event :: "store_event \<Rightarrow> flash_store \<Rightarrow> fault + int \<times> flash_store" where
  "process_event ev s =
     (case ev of
        EVT_IO_REQ io \<Rightarrow>
          let op = m_opcode (io_cmd io)
          in if op = S5_OP_READ \<or> op = S5_OP_RECOVERY_READ then Inr (0, snd (do_read io s))
             else if op = S5_OP_WRITE \<or> op = S5_OP_REPLICATE_WRITE
             then bnd (do_write io s) (\<lambda>(rc, s1). Inr (0, s1))
             else Inl Fatal_exit
      | EVT_COW_READ t \<Rightarrow> Inr (0, act (Submit_cow_io S5_OP_COW_READ (cow_src_offset t) (cow_size t)) s)
      | EVT_COW_WRITE t \<Rightarrow> Inr (0, act (Submit_cow_io S5_OP_COW_WRITE (cow_dst_offset t) (cow_size t)) s)
      | EVT_SAVEMD \<Rightarrow>
          if log_current s = log_start s then Inr (0, s)
          else bnd (meta_data_compaction_trigger COMPACT_TODO False s) (\<lambda>(rc, s1). Inr (0, s1))
      | _ \<Rightarrow> Inl Fatal_exit)"

end
