(* ===== verification/Recovery.thy ===== *)
theory Recovery
  imports Snapshot
begin

text \<open>
  Recovery of a replica from another store (\<open>recovery_replica\<close> and the functions below it
  in \<open>pfs/src/pf_flash_store.cpp\<close>). The functions run in a thread of their own; each
  \<open>sync_invoke\<close> is one step of the store thread and one definition here. While an object
  is recovered, its chain starts with a placeholder entry without an object, which
  collects the writes of the clients. What the other store answers is a parameter.
\<close>

section \<open>Writing recovered data\<close>

definition write_bytes :: "u64 \<Rightarrow> u8 list \<Rightarrow> (u64 \<Rightarrow> u8) \<Rightarrow> u64 \<Rightarrow> u8" where
  "write_bytes off bs data = (\<lambda>a. if unat (a - off) < length bs then bs ! unat (a - off) else data a)"

definition sync_write_data :: "u64 \<Rightarrow> u8 list \<Rightarrow> flash_store \<Rightarrow> int \<times> flash_store" where
  "sync_write_data off bs s =
     (case ext_call s of (e, s1) \<Rightarrow>
        if e \<noteq> 0 then (- e, s1)
        else (0, s1\<lparr>dev := (dev s1)\<lparr>d_data := write_bytes off bs (d_data (dev s1))\<rparr>\<rparr>))"

definition recovery_write ::
  "lmt_entry option \<Rightarrow> u32 \<Rightarrow> u8 list \<Rightarrow> u64 \<Rightarrow> flash_store \<Rightarrow> fault + int \<times> flash_store" where
  "recovery_write entry snap_seq buf off s =
     (case entry of
        None \<Rightarrow> Inl Assert_failed
      | Some e \<Rightarrow>
          if e_snap_seq e \<noteq> snap_seq then Inl Fatal_exit
          else Inr (sync_write_data (e_offset e + offset_in_block off (in_obj_offset_mask s)) buf s))"

section \<open>One object of one snapshot\<close>

text \<open>
  The step that allocates the entry of a snapshot that is missing here. The placeholder
  is the first entry of the chain. When it has already taken the sequence number of a
  client's write, the comparison of the insertion may stop at it. An entry put in front
  of the placeholder is not seen by the table, and then the assertion on the status in
  \<open>finish_recovery_object\<close> fails.
\<close>

definition recov_after :: "u32 \<Rightarrow> lmt_entry \<Rightarrow> bool" where
  "recov_after seq e \<longleftrightarrow> e_snap_seq e = 0 \<or> seq < e_snap_seq e"

definition recov_same :: "u32 \<Rightarrow> lmt_entry \<Rightarrow> bool" where
  "recov_same seq e \<longleftrightarrow> e_snap_seq e \<noteq> 0 \<and> e_snap_seq e = seq"

definition recov_alloc :: "lmt_key \<Rightarrow> u32 \<Rightarrow> flash_store \<Rightarrow> fault + int \<times> nat \<times> flash_store" where
  "recov_alloc key seq s =
     (if q_is_empty (free_obj_queue s) then Inr (- ENOSPC, 0, s)
      else bnd (dequeue (free_obj_queue s)) (\<lambda>(obj_id, _).
        bnd (new_entry seq RECOVERYING s) (\<lambda>(entry, s1).
          bnd (log_allocation key entry (q_head (free_obj_queue s1)) s1) (\<lambda>(rc, s2).
            if rc \<noteq> 0
            then bnd (pool_free (lmt_entry_pool s2) (e_addr entry)) (\<lambda>p.
                   Inr (rc, 0, s2\<lparr>lmt_entry_pool := p,
                                 free_obj_queue := snd (enqueue (free_obj_queue s2) obj_id)\<rparr>))
            else case lmt_find key s2 of
                None \<Rightarrow> Inl Null_deref
              | Some c \<Rightarrow>
                  bnd (insert_chain (recov_after seq) (recov_same seq) entry c) (\<lambda>(rc2, c').
                    if rc2 \<noteq> 0 then Inl Fatal_exit
                    else if map e_addr c' = e_addr entry # map e_addr c then Inl Assert_failed
                    else Inr (0, e_addr entry, set_chain key c' s2))))))"

text \<open>
  The reads from the other store: at most four are on their way, and the data of a read
  is written when its task is used again. A read is its offset with the data, or \<open>None\<close>
  when it failed; the answers come in the order of the requests. The result tells
  whether something failed.
\<close>

type_synonym recov_read = "u64 \<times> u8 list option"

definition recov_retire ::
  "lmt_key \<Rightarrow> nat \<Rightarrow> u32 \<Rightarrow> recov_read \<Rightarrow> flash_store \<Rightarrow> fault + bool \<times> flash_store" where
  "recov_retire key target seq r s =
     (case snd r of
        None \<Rightarrow> Inr (True, s)
      | Some bs \<Rightarrow>
          bnd (recovery_write (find_entry key target s) seq bs (fst r) s) (\<lambda>(rc, s1). Inr (rc \<noteq> 0, s1)))"

definition recov_iodepth :: nat where "recov_iodepth = 4"

primrec recov_copy ::
  "(u32 \<Rightarrow> u64 \<Rightarrow> u8 list option) \<Rightarrow> lmt_key \<Rightarrow> nat \<Rightarrow> u32 \<Rightarrow> u64 \<Rightarrow> nat list \<Rightarrow> recov_read list \<Rightarrow> flash_store \<Rightarrow>
     fault + bool \<times> recov_read list \<times> flash_store" where
  "recov_copy remote key target seq off [] pend s = Inr (False, pend, s)"
| "recov_copy remote key target seq off (j # js) pend s =
     (let reuse = (recov_iodepth \<le> length pend);
          pend1 = (if reuse then tl pend else pend)
      in bnd (if reuse then recov_retire key target seq (List.hd pend) s else Inr (False, s)) (\<lambda>(failed, s1).
           if failed then Inr (True, pend1, s1)
           else case ext_call s1 of (nobd, s2) \<Rightarrow>
             if nobd \<noteq> 0 then Inr (True, pend1, s2)
             else let o' = off + of_nat j * RECOVERY_IO_SIZE
                  in recov_copy remote key target seq off js (pend1 @ [(o', remote seq o')]) s2))"

primrec recov_drain ::
  "lmt_key \<Rightarrow> nat \<Rightarrow> u32 \<Rightarrow> recov_read list \<Rightarrow> bool \<Rightarrow> flash_store \<Rightarrow> fault + bool \<times> flash_store" where
  "recov_drain key target seq [] failed s = Inr (failed, s)"
| "recov_drain key target seq (r # rs) failed s =
     bnd (recov_retire key target seq r s) (\<lambda>(f, s1). recov_drain key target seq rs (failed \<or> f) s1)"

text \<open>The last step sets the status, also when the copy has failed.\<close>

definition recov_set_normal :: "lmt_key \<Rightarrow> nat \<Rightarrow> flash_store \<Rightarrow> fault + int \<times> flash_store" where
  "recov_set_normal key target s =
     (case find_entry key target s of
        None \<Rightarrow> Inl Null_deref
      | Some e \<Rightarrow>
          if e_status e \<noteq> NORMAL
          then log_status_change key (e\<lparr>e_status := NORMAL\<rparr>) (e_status e)
                 (update_entry key target (\<lambda>x. x\<lparr>e_status := NORMAL\<rparr>) s)
          else Inr (0, s))"

definition recov_fill ::
  "(u32 \<Rightarrow> u64 \<Rightarrow> u8 list option) \<Rightarrow> u64 \<Rightarrow> lmt_key \<Rightarrow> nat \<Rightarrow> u32 \<Rightarrow> u64 \<Rightarrow> flash_store \<Rightarrow> fault + int \<times> flash_store" where
  "recov_fill remote obj_size key target seq off s =
     bnd (recov_copy remote key target seq off [0..<unat (obj_size div RECOVERY_IO_SIZE)] [] s)
       (\<lambda>(failed, pend, s1).
         bnd (recov_drain key target seq pend failed s1) (\<lambda>(failed2, s2).
           bnd (recov_set_normal key target s2) (\<lambda>(rc, s3).
             if rc \<noteq> 0 then Inr (rc, s3) else Inr (if failed2 then - EIO else 0, s3))))"

definition recovery_single_object_entry ::
  "(u32 \<Rightarrow> u64 \<Rightarrow> u8 list option) \<Rightarrow> u64 \<Rightarrow> lmt_key \<Rightarrow> u32 \<Rightarrow> u64 \<Rightarrow> flash_store \<Rightarrow> fault + int \<times> flash_store" where
  "recovery_single_object_entry remote obj_size key seq off s =
     (case lmt_find key s of
        None \<Rightarrow> Inl Null_deref
      | Some [] \<Rightarrow> Inl Null_deref
      | Some (placeholder # c) \<Rightarrow>
          (case find (\<lambda>e. e_snap_seq e = seq) c of
             Some e \<Rightarrow> recov_fill remote obj_size key (e_addr e) seq off s
           | None \<Rightarrow>
               bnd (recov_alloc key seq s) (\<lambda>(rc, target, s1).
                 if rc \<noteq> 0 then Inr (rc, s1) else recov_fill remote obj_size key target seq off s1)))"

section \<open>The end of the recovery of an object\<close>

text \<open>
  The first step of \<open>finish_recovery_object\<close>. Its result carries the offsets of the copy
  that has to be made when the result code is \<open>-ESTALE\<close>.
\<close>

definition recov_finish_begin ::
  "lmt_key \<Rightarrow> bool \<Rightarrow> flash_store \<Rightarrow> fault + int \<times> (u64 \<times> u64) \<times> flash_store" where
  "recov_finish_begin key failed s =
     (case lmt_find key s of
        None \<Rightarrow> Inl Null_deref
      | Some [] \<Rightarrow> Inl Null_deref
      | Some (h # c) \<Rightarrow>
          if e_status h \<noteq> RECOVERYING then Inl Assert_failed
          else if \<not> failed \<and> e_recovery_bmp h = None then Inl Null_deref
          else if failed \<or> bmp_is_empty (the (e_recovery_bmp h))
          then Inr (- EALREADY, (0, 0),
                 if c = [] then s\<lparr>obj_lmt := AList.delete key (obj_lmt s)\<rparr> else set_chain key c s)
          else if (case c of [] \<Rightarrow> True | d # _ \<Rightarrow> e_snap_seq d < e_snap_seq h)
          then (if q_is_empty (free_obj_queue s) then Inr (- ENOSPC, (0, 0), s)
                else bnd (dequeue (free_obj_queue s)) (\<lambda>(obj_id, _).
                  bnd (new_entry (e_snap_seq h) COPYING s) (\<lambda>(entry, s1).
                    bnd (log_allocation key entry (q_head (free_obj_queue s1)) s1) (\<lambda>(rc, s2).
                      if rc \<noteq> 0
                      then bnd (pool_free (lmt_entry_pool s2) (e_addr entry)) (\<lambda>p.
                             Inr (rc, (0, 0), s2\<lparr>lmt_entry_pool := p,
                                    free_obj_queue := snd (enqueue (free_obj_queue s2) obj_id)\<rparr>))
                      else
                        let s3 = set_chain key (h # entry # c) s2
                        in case c of
                             [] \<Rightarrow> Inr (0, (0, 0), s3)
                           | d # _ \<Rightarrow> Inr (- ESTALE, (e_offset d, e_offset entry), s3)))))
          else if (case c of [] \<Rightarrow> False | d # _ \<Rightarrow> e_snap_seq h < e_snap_seq d) then Inl Fatal_exit
          else Inr (0, (0, 0), s))"

text \<open>
  The copy of the object of the previous snapshot, with a buffer of the size of an
  object. A failed allocation shows as \<open>EFAULT\<close> (14) of the read.
\<close>

definition recov_cow :: "u64 \<Rightarrow> u64 \<Rightarrow> flash_store \<Rightarrow> int \<times> flash_store" where
  "recov_cow src dst s =
     (case ext_call s of (nomem, s0) \<Rightarrow>
        if nomem \<noteq> 0 then (- 14, s0)
        else case ext_call s0 of (e, s1) \<Rightarrow>
          if e \<noteq> 0 then (- e, s1)
          else case ext_call s1 of (e2, s2) \<Rightarrow>
            if e2 \<noteq> 0 then (- e2, s2)
            else (0, s2\<lparr>dev := (dev s2)\<lparr>d_data :=
                     copy_bytes src dst (objsize (head s2)) (d_data (dev s2))\<rparr>\<rparr>))"

text \<open>The last step: write the pending sectors, then make the entry the head of the chain.\<close>

primrec write_pending ::
  "pf_bitmap \<Rightarrow> (nat \<Rightarrow> u8) \<Rightarrow> u64 \<Rightarrow> nat list \<Rightarrow> flash_store \<Rightarrow> int \<times> flash_store" where
  "write_pending bmp buf base [] s = (0, s)"
| "write_pending bmp buf base (i # is) s =
     (if bmp_is_set bmp i
      then (case sync_write_data (base + of_nat i * SECTOR_SIZE) (map buf [i * 512..<i * 512 + 512]) s
            of (rc, s1) \<Rightarrow> if rc \<noteq> 0 then (rc, s1) else write_pending bmp buf base is s1)
      else write_pending bmp buf base is s)"

definition recov_finish_pending :: "lmt_key \<Rightarrow> u64 \<Rightarrow> flash_store \<Rightarrow> fault + int \<times> flash_store" where
  "recov_finish_pending key off s =
     (case lmt_find key s of
        Some (h # d # c) \<Rightarrow>
          (case (e_recovery_bmp h, e_recovery_buf h) of
             (Some bmp, Some buf) \<Rightarrow>
               (case write_pending bmp buf (e_offset d + offset_in_block off (in_obj_offset_mask s))
                       [0..<bit_count bmp] s of (rc, s1) \<Rightarrow>
                  if rc \<noteq> 0 then Inr (rc, s1)
                  else
                    let d1 = d\<lparr>e_status := NORMAL\<rparr>
                    in bnd (log_status_change key d1 (e_status d) (set_chain key (h # d1 # c) s1)) (\<lambda>(_, s2).
                         Inr (0, set_chain key (d1 # c) s2)))
           | _ \<Rightarrow> Inl Null_deref)
      | _ \<Rightarrow> Inl Null_deref)"

definition finish_recovery_object :: "lmt_key \<Rightarrow> u64 \<Rightarrow> bool \<Rightarrow> flash_store \<Rightarrow> fault + int \<times> flash_store" where
  "finish_recovery_object key off failed s =
     bnd (recov_finish_begin key failed s) (\<lambda>(rc, (src, dst), s1).
       if rc = - EALREADY then Inr (0, s1)
       else if rc = - ESTALE
       then (case recov_cow src dst s1 of (rc2, s2) \<Rightarrow>
               if rc2 \<noteq> 0 then Inr (rc2, s2) else recov_finish_pending key off s2)
       else if rc \<noteq> 0 then Inr (rc, s1)
       else recov_finish_pending key off s1)"

section \<open>All snapshots of an object\<close>

text \<open>The placeholder of \<open>RecoveryContext::init\<close> and its reset for the next object.\<close>

definition recov_placeholder :: "nat \<Rightarrow> u64 \<Rightarrow> (nat \<Rightarrow> u8) \<Rightarrow> lmt_entry" where
  "recov_placeholder addr obj_size buf =
     \<lparr>e_addr = addr, e_offset = 0, e_snap_seq = 0, e_status = RECOVERYING, e_waiting_io = [],
      e_recovery_bmp = Some (bmp_new (unat (obj_size div SECTOR_SIZE))), e_recovery_buf = Some buf\<rparr>"

definition recov_reset :: "lmt_entry \<Rightarrow> lmt_entry" where
  "recov_reset h = h\<lparr>e_recovery_bmp := map_option bmp_clear (e_recovery_bmp h), e_snap_seq := 0,
     e_status := RECOVERYING, e_waiting_io := []\<rparr>"

definition recov_link :: "lmt_key \<Rightarrow> lmt_entry \<Rightarrow> flash_store \<Rightarrow> fault + int \<times> flash_store" where
  "recov_link key h s =
     (case lmt_find key s of
        None \<Rightarrow> Inr (0, set_chain key [h] s)
      | Some [] \<Rightarrow> Inl Null_deref
      | Some (e # c) \<Rightarrow>
          if e_status e = RECOVERYING then Inl Fatal_exit
          else if e_status e = COPYING then Inr (- EBUSY, s)
          else Inr (0, set_chain key (h # e # c) s))"

text \<open>
  The loop waits while the object is in copy on write; \<open>env n\<close> is what the store thread
  does to the store during the \<open>n\<close>-th wait.
\<close>

partial_function (option) recov_link_loop ::
  "(nat \<Rightarrow> flash_store \<Rightarrow> flash_store) \<Rightarrow> nat \<Rightarrow> lmt_key \<Rightarrow> lmt_entry \<Rightarrow> flash_store \<Rightarrow>
     (fault + flash_store) option" where
  "recov_link_loop env n key h s =
     (case recov_link key h s of
        Inl f \<Rightarrow> Some (Inl f)
      | Inr (rc, s1) \<Rightarrow>
          if rc = 0 then Some (Inr s1) else recov_link_loop env (n + 1) key h (env n s1))"

text \<open>
  Deleting what the other store does not have: a local snapshot between two of its
  neighbours there. The sequence numbers are compared as signed integers.
\<close>

fun in_primary_gap :: "int \<Rightarrow> int \<Rightarrow> int list \<Rightarrow> bool" where
  "in_primary_gap snap prev [] = False"
| "in_primary_gap snap prev (p # ps) = ((prev < snap \<and> snap < p) \<or> in_primary_gap snap p ps)"

primrec delete_extra ::
  "lmt_key \<Rightarrow> int list \<Rightarrow> int list \<Rightarrow> flash_store \<Rightarrow> fault + int list \<times> flash_store" where
  "delete_extra key primary [] s = Inr ([], s)"
| "delete_extra key primary (x # xs) s =
     (if in_primary_gap x (- 1) (rev primary)
      then bnd (delete_obj_by_snap_seq key (word_of_int x) s) (\<lambda>(_, s1). delete_extra key primary xs s1)
      else bnd (delete_extra key primary xs s) (\<lambda>(ys, s1). Inr (x # ys, s1)))"

definition snap_to_recovery :: "int list \<Rightarrow> int list \<Rightarrow> int list" where
  "snap_to_recovery primary local =
     filter (\<lambda>p. length local < 2 \<or> p \<notin> set (drop 2 local)) primary"

text \<open>The snapshots from the oldest to the newest; the first failure ends the loop.\<close>

primrec recover_snaps ::
  "(u32 \<Rightarrow> u64 \<Rightarrow> u8 list option) \<Rightarrow> u64 \<Rightarrow> lmt_key \<Rightarrow> u64 \<Rightarrow> int list \<Rightarrow> flash_store \<Rightarrow> fault + int \<times> flash_store" where
  "recover_snaps remote obj_size key off [] s = Inr (0, s)"
| "recover_snaps remote obj_size key off (x # xs) s =
     bnd (recovery_single_object_entry remote obj_size key (word_of_int x) off s) (\<lambda>(rc, s1).
       if rc \<noteq> 0 then Inr (rc, s1) else recover_snaps remote obj_size key off xs s1)"

text \<open>
  What the other store answers: \<open>query off\<close> the list of its snapshots of the object (an
  error code, or an exception), and \<open>remote\<close> the data. The result carries the
  placeholder as it is when the recovery of the object ends.
\<close>

definition placeholder_in :: "lmt_key \<Rightarrow> lmt_entry \<Rightarrow> flash_store \<Rightarrow> lmt_entry" where
  "placeholder_in key h s = (case lmt_find key s of Some (x # _) \<Rightarrow> x | _ \<Rightarrow> h)"

definition recovery_object_series ::
  "(nat \<Rightarrow> flash_store \<Rightarrow> flash_store) \<Rightarrow> (u64 \<Rightarrow> fault + int \<times> int list) \<Rightarrow> (u32 \<Rightarrow> u64 \<Rightarrow> u8 list option) \<Rightarrow>
     u64 \<Rightarrow> lmt_key \<Rightarrow> u64 \<Rightarrow> lmt_entry \<Rightarrow> flash_store \<Rightarrow> (fault + int \<times> lmt_entry \<times> flash_store) option" where
  "recovery_object_series env query remote obj_size key off h0 s =
     (let h = recov_reset h0
      in obnd (recov_link_loop env 0 key h s) (\<lambda>s1.
           obnd (Some (query off)) (\<lambda>(rc, primary).
             if rc \<noteq> 0 then Some (Inr (rc, placeholder_in key h s1, s1))
             else obnd (Some (delete_extra key primary (map sint (get_snap_list (vol_id key) off s1)) s1))
               (\<lambda>(local, s2).
                 obnd (Some (recover_snaps remote obj_size key off (rev (snap_to_recovery primary local)) s2))
                   (\<lambda>(rc2, s3).
                     obnd (Some (finish_recovery_object key off (rc2 \<noteq> 0) s3)) (\<lambda>(rc3, s4).
                       Some (Inr (if rc2 \<noteq> 0 then rc2 else rc3, placeholder_in key h s3, s4))))))))"

section \<open>All objects of a replica\<close>

primrec recover_objects ::
  "(nat \<Rightarrow> flash_store \<Rightarrow> flash_store) \<Rightarrow> (u64 \<Rightarrow> fault + int \<times> int list) \<Rightarrow> (u32 \<Rightarrow> u64 \<Rightarrow> u8 list option) \<Rightarrow>
     u64 \<Rightarrow> u64 \<Rightarrow> nat list \<Rightarrow> lmt_entry \<Rightarrow> flash_store \<Rightarrow> (fault + int \<times> flash_store) option" where
  "recover_objects env query remote obj_size rep_id [] h s = Some (Inr (0, s))"
| "recover_objects env query remote obj_size rep_id (i # is) h s =
     (let off = push_bit SHARD_SIZE_ORDER (SHARD_INDEX rep_id) + obj_size * of_nat i;
          key = \<lparr>vol_id = VOLUME_ID rep_id, slba = vol_offset_to_block_slba off (objsize_order (head s))\<rparr>
      in obnd (recovery_object_series env query remote obj_size key off h s) (\<lambda>(rc, h1, s1).
           if rc \<noteq> 0 then Some (Inr (rc, s1))
           else recover_objects env query remote obj_size rep_id is h1 s1))"

text \<open>
  \<open>recovery_replica\<close>: \<open>vol_size\<close> is the size of the volume if it is open, \<open>buf\<close> the
  content of the pending buffer. The placeholder returns to the pool on every path.
\<close>

definition recovery_replica ::
  "(nat \<Rightarrow> flash_store \<Rightarrow> flash_store) \<Rightarrow> (u64 \<Rightarrow> fault + int \<times> int list) \<Rightarrow> (u32 \<Rightarrow> u64 \<Rightarrow> u8 list option) \<Rightarrow>
     u64 option \<Rightarrow> (nat \<Rightarrow> u8) \<Rightarrow> u64 \<Rightarrow> u64 \<Rightarrow> flash_store \<Rightarrow> (fault + int \<times> flash_store) option" where
  "recovery_replica env query remote vol_size buf rep_id obj_size s =
     (case vol_size of
        None \<Rightarrow> Some (Inr (- EINVAL, s))
      | Some vsize \<Rightarrow>
          if objsize (head s) \<noteq> obj_size then Some (Inl Fatal_exit)
          else
            let shard_size = min (sint SHARD_SIZE) (sint (vsize - SHARD_INDEX rep_id * SHARD_SIZE));
                obj_cnt = nat (shard_size div sint obj_size)
            in case ext_call s of (nomem, s1) \<Rightarrow>
              if nomem \<noteq> 0 then Some (Inr (- ENOMEM, s1))
              else case pool_alloc (lmt_entry_pool s1) of
                  (None, _) \<Rightarrow> Some (Inr (- ENOMEM, s1))
                | (Some a, p) \<Rightarrow>
                    (case ext_call (s1\<lparr>lmt_entry_pool := p\<rparr>) of (task_rc, s2) \<Rightarrow>
                       obnd (if task_rc \<noteq> 0 then Some (Inr (- task_rc, s2))
                             else recover_objects env query remote obj_size rep_id [0..<obj_cnt]
                                    (recov_placeholder a obj_size buf) s2) (\<lambda>(rc, s3).
                         Some (bnd (pool_free (lmt_entry_pool s3) a) (\<lambda>p3.
                           Inr (rc, s3\<lparr>lmt_entry_pool := p3\<rparr>))))))"

end
