(* ===== verification/Volume.thy ===== *)
theory Volume
  imports Message Volume_Type
begin

text \<open>
  Volumes, shards and replicas as a store knows them (\<open>pfs/include/pf_volume.h\<close>,
  \<open>pfs/src/pf_volume.cpp\<close>), and the assignment that replaces an opened volume by a newer
  description of it.
\<close>

section \<open>Health\<close>

datatype HealthStatus = HS_OK | HS_ERROR | HS_DEGRADED | HS_RECOVERYING

text \<open>The table of names lacks the last status; \<open>None\<close> stands for the value -1.\<close>

definition status_strs :: "string list" where
  "status_strs = [''OK'', ''ERROR'', ''DEGRADED'']"

definition health_of_index :: "nat \<Rightarrow> HealthStatus" where
  "health_of_index i =
     (if i = 0 then HS_OK else if i = 1 then HS_ERROR else if i = 2 then HS_DEGRADED else HS_RECOVERYING)"

fun health_search :: "string \<Rightarrow> nat \<Rightarrow> string list \<Rightarrow> HealthStatus option" where
  "health_search str i [] = None"
| "health_search str i (x # xs) = (if str = x then Some (health_of_index i) else health_search str (i + 1) xs)"

definition health_status_from_str :: "string \<Rightarrow> HealthStatus option" where
  "health_status_from_str str = health_search str 0 status_strs"

definition HealthStatus2Str :: "HealthStatus \<Rightarrow> string" where
  "HealthStatus2Str code =
     (case code of HS_OK \<Rightarrow> ''HS_OK'' | HS_ERROR \<Rightarrow> ''HS_ERROR''
      | HS_DEGRADED \<Rightarrow> ''HS_DEGRADED'' | HS_RECOVERYING \<Rightarrow> ''HS_RECOVERYING'')"

section \<open>Structures\<close>

record pf_replica =
  rp_status :: HealthStatus
  rp_id :: u64
  rp_store_id :: u64
  rp_is_local :: bool
  rp_is_primary :: bool
  rp_index :: int
  rp_ssd_index :: int

text \<open>\<open>replicas\<close> is an array of \<open>MAX_REP_COUNT\<close> (5) pointers.\<close>

record pf_shard =
  sh_id :: u64
  sh_index :: nat
  sh_replicas :: "pf_replica option list"
  sh_primary_index :: nat
  sh_duty_index :: nat
  sh_is_primary_node :: bool
  sh_rep_count :: nat
  sh_snap_seq :: int
  sh_status :: HealthStatus
  sh_meta_ver :: u64

record pf_volume =
  v_name :: string
  v_id :: u64
  v_size :: u64
  v_rep_count :: nat
  v_shard_count :: nat
  v_shards :: "pf_shard option list"
  v_snap_seq :: u32
  v_status :: HealthStatus
  v_meta_ver :: u64
  v_ref_count :: int

definition vol_add_ref :: "pf_volume \<Rightarrow> pf_volume" where
  "vol_add_ref v = v\<lparr>v_ref_count := v_ref_count v + 1\<rparr>"

text \<open>\<open>dec_ref\<close>: \<open>None\<close> when the volume is deleted.\<close>

definition vol_dec_ref :: "pf_volume \<Rightarrow> pf_volume option" where
  "vol_dec_ref v =
     (let v1 = v\<lparr>v_ref_count := v_ref_count v - 1\<rparr> in if v_ref_count v1 = 0 then None else Some v1)"

section \<open>Replacing a volume\<close>

text \<open>An access to an array of pointers.\<close>

definition arr_get :: "'a option list \<Rightarrow> nat \<Rightarrow> fault + 'a" where
  "arr_get xs i =
     (if length xs \<le> i then Inl Out_of_bounds
      else case xs ! i of None \<Rightarrow> Inl Null_deref | Some x \<Rightarrow> Inr x)"

text \<open>
  The inner loop over the replicas of shard \<open>i\<close>: a replica in recovery here stays so
  when the new description says that it has an error. \<open>old\<close> are the replicas of the old
  shard, \<open>new\<close> the shards of the new volume.
\<close>

primrec keep_recoverying ::
  "nat \<Rightarrow> pf_replica option list \<Rightarrow> nat list \<Rightarrow> pf_shard option list \<Rightarrow> fault + pf_shard option list" where
  "keep_recoverying i old [] new = Inr new"
| "keep_recoverying i old (j # js) new =
     (if length old \<le> j then Inl Out_of_bounds
      else case old ! j of
          None \<Rightarrow> keep_recoverying i old js new
        | Some r \<Rightarrow>
            if rp_status r = HS_RECOVERYING
            then bnd (arr_get new i) (\<lambda>n.
                   bnd (arr_get (sh_replicas n) j) (\<lambda>q.
                     keep_recoverying i old js
                       (if rp_status q = HS_ERROR
                        then new[i := Some (n\<lparr>sh_replicas :=
                                (sh_replicas n)[j := Some (q\<lparr>rp_status := HS_RECOVERYING\<rparr>)]\<rparr>)]
                        else new)))
            else keep_recoverying i old js new)"

text \<open>
  The loop over the shards. The bound is the shard count that has just been taken from
  the new volume; the arrays are those of the old and of the new volume.
\<close>

primrec replace_shards ::
  "nat list \<Rightarrow> pf_shard option list \<Rightarrow> pf_shard option list \<Rightarrow>
     fault + pf_shard option list \<times> pf_shard option list" where
  "replace_shards [] old new = Inr (old, new)"
| "replace_shards (i # is) old new =
     bnd (arr_get old i) (\<lambda>s.
       bnd (keep_recoverying i (sh_replicas s) [0..<sh_rep_count s] new) (\<lambda>new1.
         if length new1 \<le> i then Inl Out_of_bounds
         else replace_shards is (old[i := new1 ! i]) (new1[i := None])))"

text \<open>\<open>operator=\<close> with the volume that is replaced and the new one, which is emptied.\<close>

definition vol_assign :: "pf_volume \<Rightarrow> pf_volume \<Rightarrow> fault + pf_volume \<times> pf_volume" where
  "vol_assign this vol =
     (let this1 = this\<lparr>v_meta_ver := v_meta_ver vol, v_shard_count := v_shard_count vol, v_size := v_size vol,
                       v_snap_seq := v_snap_seq vol, v_status := v_status vol\<rparr>
      in bnd (replace_shards [0..<v_shard_count this1] (v_shards this1) (v_shards vol)) (\<lambda>(old, new).
           Inr (this1\<lparr>v_shards := old @ drop (v_shard_count this1) new\<rparr>,
                vol\<lparr>v_shards := take (v_shard_count this1) new @
                               map (\<lambda>_. None) (drop (v_shard_count this1) new)\<rparr>)))"


section \<open>The meaning of the assignment\<close>

definition merge_replica :: "pf_replica option \<Rightarrow> pf_replica option \<Rightarrow> pf_replica option" where
  "merge_replica old new =
     (case (old, new) of
        (Some r, Some q) \<Rightarrow>
          if rp_status r = HS_RECOVERYING \<and> rp_status q = HS_ERROR
          then Some (q\<lparr>rp_status := HS_RECOVERYING\<rparr>) else Some q
      | _ \<Rightarrow> new)"

definition merge_at :: "nat set \<Rightarrow> pf_replica option list \<Rightarrow> pf_replica option list \<Rightarrow> pf_replica option list" where
  "merge_at J old new =
     map (\<lambda>j. if j \<in> J then merge_replica (old ! j) (new ! j) else new ! j) [0..<length new]"

definition merge_shard :: "pf_shard \<Rightarrow> pf_shard \<Rightarrow> pf_shard" where
  "merge_shard old new =
     new\<lparr>sh_replicas := merge_at {..<sh_rep_count old} (sh_replicas old) (sh_replicas new)\<rparr>"

lemma merge_at_empty [simp]: "merge_at {} old new = new"
  by (simp add: merge_at_def map_nth)

lemma length_merge_at [simp]: "length (merge_at J old new) = length new"
  by (simp add: merge_at_def)

lemma nth_merge_at:
  "j < length new \<Longrightarrow>
     merge_at J old new ! j = (if j \<in> J then merge_replica (old ! j) (new ! j) else new ! j)"
  by (simp add: merge_at_def)

lemma merge_at_insert:
  assumes "j \<notin> J" and "j < length new"
  shows "merge_at J old (new[j := merge_replica (old ! j) (new ! j)]) = merge_at (insert j J) old new"
  using assms by (intro nth_equalityI) (auto simp: nth_merge_at nth_list_update)

lemma keep_recoverying_merge:
  assumes "i < length new" and "new ! i = Some n" and "distinct js"
    and "\<forall>j \<in> set js. j < length old \<and> j < length (sh_replicas n) \<and> sh_replicas n ! j \<noteq> None"
  shows "keep_recoverying i old js new = Inr (new[i := Some (n\<lparr>sh_replicas := merge_at (set js) old (sh_replicas n)\<rparr>)])"
  using assms
proof (induction js arbitrary: new n)
  case Nil
  then show ?case using list_update_id [of new i] by simp
next
  case (Cons j js)
  obtain q where q: "sh_replicas n ! j = Some q" using Cons.prems(4) by auto
  have j: "j < length old" "j < length (sh_replicas n)" "j \<notin> set js" using Cons.prems(3,4) by auto
  let ?n = "n\<lparr>sh_replicas := (sh_replicas n)[j := merge_replica (old ! j) (sh_replicas n ! j)]\<rparr>"
  have step: "keep_recoverying i old (j # js) new = keep_recoverying i old js (new[i := Some ?n])"
  proof (cases "\<exists>r. old ! j = Some r \<and> rp_status r = HS_RECOVERYING \<and> rp_status q = HS_ERROR")
    case True
    then show ?thesis using Cons.prems(1,2) q j by (auto simp: arr_get_def merge_replica_def)
  next
    case False
    then have "merge_replica (old ! j) (Some q) = Some q"
      by (cases "old ! j") (auto simp: merge_replica_def)
    then have "(sh_replicas n)[j := merge_replica (old ! j) (sh_replicas n ! j)] = sh_replicas n"
      using q list_update_id [of "sh_replicas n" j] by simp
    then have "new[i := Some ?n] = new" using Cons.prems(2) list_update_id [of new i] by simp
    then show ?thesis using False Cons.prems(1,2) q j by (cases "old ! j") (auto simp: arr_get_def)
  qed
  have "sh_replicas ?n ! k \<noteq> None" if "k \<in> set js" for k
    using that Cons.prems(4) j by (auto simp: nth_list_update)
  then have "keep_recoverying i old js (new[i := Some ?n]) =
      Inr (new[i := Some ?n, i := Some (?n\<lparr>sh_replicas := merge_at (set js) old (sh_replicas ?n)\<rparr>)])"
    using Cons.prems by (intro Cons.IH) auto
  then show ?case unfolding step using merge_at_insert [OF j(3,2)] by simp
qed

text \<open>
  Shards as \<open>convert_argument_to_volume\<close> builds them: five replica pointers, of which the
  first \<open>rep_count\<close> are set.
\<close>

definition shard_wf :: "nat \<Rightarrow> pf_shard option \<Rightarrow> bool" where
  "shard_wf k s \<longleftrightarrow> s \<noteq> None \<and> sh_rep_count (the s) = k \<and> k \<le> 5 \<and> length (sh_replicas (the s)) = 5 \<and>
     None \<notin> set (take k (sh_replicas (the s)))"

lemma shard_wf_replica: "shard_wf k (Some s) \<Longrightarrow> j < k \<Longrightarrow> sh_replicas s ! j \<noteq> None"
  using nth_mem [of j "take k (sh_replicas s)"] by (cases "sh_replicas s ! j") (auto simp: shard_wf_def)

lemma replace_one:
  assumes "i < length old" and "i < length new" and "shard_wf k (old ! i)" and "shard_wf k (new ! i)"
  shows "replace_shards (i # is) old new =
     replace_shards is (old[i := Some (merge_shard (the (old ! i)) (the (new ! i)))]) (new[i := None])"
proof -
  obtain a where a: "old ! i = Some a" using assms(3) by (auto simp: shard_wf_def)
  obtain n where n: "new ! i = Some n" using assms(4) by (auto simp: shard_wf_def)
  have wf: "sh_rep_count a = k" "k \<le> 5" "length (sh_replicas a) = 5" "length (sh_replicas n) = 5"
    using assms(3,4) a n by (simp_all add: shard_wf_def)
  have js: "\<forall>j \<in> set [0..<sh_rep_count a]. j < length (sh_replicas a) \<and> j < length (sh_replicas n) \<and>
      sh_replicas n ! j \<noteq> None"
    using wf shard_wf_replica [of k n] assms(4) n by auto
  have "keep_recoverying i (sh_replicas a) [0..<sh_rep_count a] new = Inr (new[i := Some (merge_shard a n)])"
    using keep_recoverying_merge [OF assms(2) n distinct_upt js]
    by (simp add: merge_shard_def atLeast_upt)
  then show ?thesis using assms(1,2) a n by (simp add: arr_get_def)
qed


lemma replace_shards_merge:
  assumes "distinct is" and "\<forall>i \<in> set is. i < length old \<and> i < length new \<and> shard_wf k (old ! i) \<and> shard_wf k (new ! i)"
  shows "replace_shards (is @ rest) old new =
     replace_shards rest
       (map (\<lambda>i. if i \<in> set is then Some (merge_shard (the (old ! i)) (the (new ! i))) else old ! i) [0..<length old])
       (map (\<lambda>i. if i \<in> set is then None else new ! i) [0..<length new])"
  using assms
proof (induction "is" arbitrary: old new)
  case Nil
  then show ?case by (simp add: map_nth)
next
  case (Cons i "is")
  let ?old = "old[i := Some (merge_shard (the (old ! i)) (the (new ! i)))]" and ?new = "new[i := None]"
  have i: "i < length old" "i < length new" "shard_wf k (old ! i)" "shard_wf k (new ! i)" "i \<notin> set is"
    using Cons.prems by auto
  have "replace_shards ((i # is) @ rest) old new = replace_shards (is @ rest) ?old ?new"
    using replace_one [OF i(1-4), of "is @ rest"] by simp
  also have "\<dots> = replace_shards rest
       (map (\<lambda>j. if j \<in> set is then Some (merge_shard (the (?old ! j)) (the (?new ! j))) else ?old ! j) [0..<length ?old])
       (map (\<lambda>j. if j \<in> set is then None else ?new ! j) [0..<length ?new])"
    using Cons.prems i(5) by (intro Cons.IH) (auto simp: nth_list_update)
  also have "map (\<lambda>j. if j \<in> set is then Some (merge_shard (the (?old ! j)) (the (?new ! j))) else ?old ! j) [0..<length ?old] =
      map (\<lambda>j. if j \<in> set (i # is) then Some (merge_shard (the (old ! j)) (the (new ! j))) else old ! j) [0..<length old]"
    using i by (intro map_cong) (auto simp: nth_list_update)
  also have "map (\<lambda>j. if j \<in> set is then None else ?new ! j) [0..<length ?new] =
      map (\<lambda>j. if j \<in> set (i # is) then None else new ! j) [0..<length new]"
    using i by (intro map_cong) (auto simp: nth_list_update)
  finally show ?case .
qed

section \<open>Properties\<close>

text \<open>
  (C32) Replacing a volume by a newer description with the same number of shards: the
  shards become those of the new description, except that a replica that is in recovery
  here and in error there stays in recovery; version, size, snapshot sequence number
  and status are the new ones, and the new description loses its shards.
\<close>

theorem vol_assign_same_shards:
  assumes "list_all (shard_wf k) (v_shards this)" and "list_all (shard_wf k) (v_shards vol)"
    and "length (v_shards this) = v_shard_count vol" and "length (v_shards vol) = v_shard_count vol"
  shows "\<exists>this' vol'. vol_assign this vol = Inr (this', vol') \<and>
     v_shards this' = map (\<lambda>i. Some (merge_shard (the (v_shards this ! i)) (the (v_shards vol ! i)))) [0..<v_shard_count vol] \<and>
     v_meta_ver this' = v_meta_ver vol \<and> v_shard_count this' = v_shard_count vol \<and> v_size this' = v_size vol \<and>
     v_snap_seq this' = v_snap_seq vol \<and> v_status this' = v_status vol \<and> v_id this' = v_id this \<and>
     set (v_shards vol') \<subseteq> {None}"
proof -
  have "\<forall>i \<in> set [0..<v_shard_count vol]. i < length (v_shards this) \<and> i < length (v_shards vol) \<and>
      shard_wf k (v_shards this ! i) \<and> shard_wf k (v_shards vol ! i)"
    using assms by (simp add: list_all_length)
  from replace_shards_merge [OF distinct_upt this, of "[]"] show ?thesis
    using assms(3,4) by (auto simp: vol_assign_def Let_def)
qed

text \<open>
  A volume can not be enlarged in place: the new shard count is taken over before
  the loop, so when the new description has more shards than the opened volume, the loop
  indexes the array of the old shards outside its bounds. The second loop, meant for the
  new shards, has nothing to do in any case.
\<close>

theorem vol_assign_enlarge_out_of_bounds:
  assumes "list_all (shard_wf k) (v_shards this)" and "list_all (shard_wf k) (v_shards vol)"
    and "length (v_shards this) < v_shard_count vol" and "length (v_shards vol) = v_shard_count vol"
  shows "vol_assign this vol = Inl Out_of_bounds"
proof -
  let ?m = "length (v_shards this)"
  have "\<forall>i \<in> set [0..<?m]. i < length (v_shards this) \<and> i < length (v_shards vol) \<and>
      shard_wf k (v_shards this ! i) \<and> shard_wf k (v_shards vol ! i)"
    using assms by (simp add: list_all_length)
  note loop = replace_shards_merge [OF distinct_upt this, of "[?m..<v_shard_count vol]"]
  have "[0..<v_shard_count vol] = [0..<?m] @ ?m # [Suc ?m..<v_shard_count vol]"
    using assms(3) upt_add_eq_append [of 0 ?m "v_shard_count vol - ?m"] by (simp add: upt_conv_Cons)
  moreover have "[?m..<v_shard_count vol] = ?m # [Suc ?m..<v_shard_count vol]"
    using assms(3) by (simp add: upt_conv_Cons)
  ultimately show ?thesis using loop by (simp add: vol_assign_def Let_def arr_get_def)
qed

definition example_replica :: "HealthStatus \<Rightarrow> pf_replica" where
  "example_replica st = \<lparr>rp_status = st, rp_id = 1, rp_store_id = 1, rp_is_local = True, rp_is_primary = True,
     rp_index = 0, rp_ssd_index = 0\<rparr>"

definition example_volume :: "nat \<Rightarrow> HealthStatus \<Rightarrow> u64 \<Rightarrow> pf_volume" where
  "example_volume n st ver = \<lparr>v_name = ''v'', v_id = 0x1000000, v_size = of_nat n * SHARD_SIZE, v_rep_count = 1, v_shard_count = n,
     v_shards = replicate n (Some \<lparr>sh_id = 0x1000000, sh_index = 0,
        sh_replicas = [Some (example_replica st), None, None, None, None], sh_primary_index = 0, sh_duty_index = 0,
        sh_is_primary_node = True, sh_rep_count = 1, sh_snap_seq = 0, sh_status = HS_OK, sh_meta_ver = ver\<rparr>),
     v_snap_seq = 1, v_status = HS_OK, v_meta_ver = ver, v_ref_count = 1\<rparr>"

theorem vol_assign_same_shards_witness:
  "\<exists>this' vol'. vol_assign (example_volume 1 HS_RECOVERYING 3) (example_volume 1 HS_ERROR 4) = Inr (this', vol') \<and>
     sh_replicas (the (v_shards this' ! 0)) ! 0 = Some (example_replica HS_RECOVERYING) \<and> v_meta_ver this' = 4"
proof -
  have "list_all (shard_wf 1) (v_shards (example_volume 1 st ver))"
    "length (v_shards (example_volume 1 st ver)) = 1" "v_shard_count (example_volume 1 st ver) = 1" for st ver
    by (simp_all add: example_volume_def shard_wf_def)
  then have "\<exists>this' vol'. vol_assign (example_volume 1 HS_RECOVERYING 3) (example_volume 1 HS_ERROR 4) = Inr (this', vol') \<and>
     v_shards this' = [Some (merge_shard (the (v_shards (example_volume 1 HS_RECOVERYING 3) ! 0))
                               (the (v_shards (example_volume 1 HS_ERROR 4) ! 0)))] \<and>
     v_meta_ver this' = v_meta_ver (example_volume 1 HS_ERROR 4)"
    using vol_assign_same_shards [of 1 "example_volume 1 HS_RECOVERYING 3" "example_volume 1 HS_ERROR 4"] by auto
  then show ?thesis
    by (auto simp: example_volume_def example_replica_def merge_shard_def nth_merge_at merge_replica_def)
qed

theorem vol_assign_enlarge_out_of_bounds_witness:
  "vol_assign (example_volume 1 HS_OK 3) (example_volume 2 HS_OK 4) = Inl Out_of_bounds"
  by (rule vol_assign_enlarge_out_of_bounds [of 1]) (simp_all add: example_volume_def shard_wf_def numeral_2_eq_2)

end
