(* ===== verification/Dispatcher.thy ===== *)
theory Dispatcher
  imports Volume Mem_Pool
begin

text \<open>
  \<open>PfDispatcher\<close> of \<open>pfs/src/pf_dispatcher.cpp\<close>: it checks a request against the opened
  volume, gives it to the replicas of the shard and replies when all of them have
  completed. A request (\<open>PfServerIocb\<close>) and a connection are objects named by numbers.
  The results of calls to other components (posting to an event queue, sending) come
  from the stream \<open>dp_ext\<close>, and what the dispatcher asks of them is the list \<open>dp_acts\<close>.
\<close>

section \<open>State\<close>

record sub_task =
  st_status :: u16
  st_opcode :: u8
  st_rep_id :: u64
  st_store_id :: u64

text \<open>Three sub tasks are set up; sub task \<open>i\<close> has the mask \<open>1 << i\<close>.\<close>

record server_iocb =
  ib_conn :: "nat option"
  ib_cmd :: PfMessageHead
  ib_vol_id :: u64
  ib_status :: u16
  ib_meta_ver :: u16
  ib_ref_count :: u32
  ib_is_timeout :: bool
  ib_task_mask :: u32
  ib_subtasks :: "sub_task list"

definition task_mask :: "nat \<Rightarrow> u32" where "task_mask i = push_bit i 1"

record connection =
  cn_ok :: bool
  cn_rdma :: bool
  cn_ref_count :: int

record dispatch_stat =
  rd_cnt :: int
  wr_cnt :: int
  rep_wr_cnt :: int
  rd_bytes :: int
  wr_bytes :: int
  rep_wr_bytes :: int

datatype disp_action =
    Submit_replica nat nat pf_replica
  | Send_reply nat PfMessageReply
  | Rdma_write nat
  | Report_error nat nat u16
  | Report_async nat u64
  | Post_complete nat nat
  | Destroy_conn nat

record dispatcher =
  dp_volumes :: "(u64 \<times> pf_volume) list"
  dp_iocb :: "nat \<Rightarrow> server_iocb"
  dp_conn :: "nat \<Rightarrow> connection"
  dp_pool :: mem_pool
  dp_stat :: dispatch_stat
  dp_ext :: "nat \<Rightarrow> int"
  dp_cnt :: nat
  dp_acts :: "disp_action list"

abbreviation dact :: "disp_action \<Rightarrow> dispatcher \<Rightarrow> dispatcher" where
  "dact a d \<equiv> d\<lparr>dp_acts := dp_acts d @ [a]\<rparr>"

abbreviation upd_iocb :: "nat \<Rightarrow> (server_iocb \<Rightarrow> server_iocb) \<Rightarrow> dispatcher \<Rightarrow> dispatcher" where
  "upd_iocb b f d \<equiv> d\<lparr>dp_iocb := (dp_iocb d)(b := f (dp_iocb d b))\<rparr>"

definition disp_call :: "dispatcher \<Rightarrow> int \<times> dispatcher" where
  "disp_call d = (dp_ext d (dp_cnt d), d\<lparr>dp_cnt := dp_cnt d + 1\<rparr>)"

section \<open>References\<close>

definition conn_dec_ref :: "nat \<Rightarrow> dispatcher \<Rightarrow> dispatcher" where
  "conn_dec_ref c d =
     (let n = cn_ref_count (dp_conn d c) - 1;
          d1 = d\<lparr>dp_conn := (dp_conn d)(c := (dp_conn d c)\<lparr>cn_ref_count := n\<rparr>)\<rparr>
      in if n = 0 then dact (Destroy_conn c) d1 else d1)"

definition free_to_pool :: "nat \<Rightarrow> dispatcher \<Rightarrow> fault + dispatcher" where
  "free_to_pool b d =
     (let c = ib_conn (dp_iocb d b);
          d1 = upd_iocb b (\<lambda>x. x\<lparr>ib_meta_ver := 0, ib_status := MSG_STATUS_SUCCESS, ib_vol_id := 0,
                             ib_is_timeout := False, ib_task_mask := 0, ib_conn := None\<rparr>) d;
          d2 = (case c of None \<Rightarrow> d1 | Some k \<Rightarrow> conn_dec_ref k d1)
      in bnd (pool_free (dp_pool d2) b) (\<lambda>p. Inr (d2\<lparr>dp_pool := p\<rparr>)))"

definition iocb_add_ref :: "nat \<Rightarrow> dispatcher \<Rightarrow> dispatcher" where
  "iocb_add_ref b d = upd_iocb b (\<lambda>x. x\<lparr>ib_ref_count := ib_ref_count x + 1\<rparr>) d"

definition iocb_dec_ref :: "nat \<Rightarrow> dispatcher \<Rightarrow> fault + dispatcher" where
  "iocb_dec_ref b d =
     (let d1 = upd_iocb b (\<lambda>x. x\<lparr>ib_ref_count := ib_ref_count x - 1\<rparr>) d
      in if ib_ref_count (dp_iocb d1 b) = 0 then free_to_pool b d1 else Inr d1)"

definition dec_ref_on_error :: "nat \<Rightarrow> dispatcher \<Rightarrow> fault + dispatcher" where
  "dec_ref_on_error b d =
     (let d1 = upd_iocb b (\<lambda>x. x\<lparr>ib_ref_count := ib_ref_count x - 1\<rparr>) d
      in if ib_ref_count (dp_iocb d1 b) = 0 then free_to_pool b d1
         else case ib_conn (dp_iocb d1 b) of
             None \<Rightarrow> Inr d1
           | Some c \<Rightarrow> Inr (conn_dec_ref c (upd_iocb b (\<lambda>x. x\<lparr>ib_conn := None\<rparr>) d1)))"

definition re_init :: "nat \<Rightarrow> dispatcher \<Rightarrow> dispatcher" where
  "re_init b d = upd_iocb b (\<lambda>x. x\<lparr>ib_meta_ver := 0, ib_status := MSG_STATUS_SUCCESS, ib_vol_id := 0,
                                ib_is_timeout := False, ib_task_mask := 0\<rparr>) d"

section \<open>Opened volumes\<close>

definition prepare_volume :: "pf_volume \<Rightarrow> dispatcher \<Rightarrow> fault + int \<times> pf_volume \<times> dispatcher" where
  "prepare_volume vol d =
     (case map_of (dp_volumes d) (v_id vol) of
        Some old \<Rightarrow>
          if v_meta_ver vol \<le> v_meta_ver old then Inr (0, vol, d)
          else bnd (vol_assign old vol) (\<lambda>(old', vol').
                 Inr (0, vol', d\<lparr>dp_volumes := AList.update (v_id vol) old' (dp_volumes d)\<rparr>))
      | None \<Rightarrow>
          let v = vol_add_ref vol
          in Inr (0, v, d\<lparr>dp_volumes := AList.update (v_id vol) v (dp_volumes d)\<rparr>))"

definition delete_volume :: "u64 \<Rightarrow> dispatcher \<Rightarrow> fault + int \<times> dispatcher" where
  "delete_volume vid d =
     (if vid = 0 then Inl Assert_failed
      else Inr (0, d\<lparr>dp_volumes := AList.delete vid (dp_volumes d)\<rparr>))"

definition set_snap_seq :: "u64 \<Rightarrow> u32 \<Rightarrow> dispatcher \<Rightarrow> dispatcher" where
  "set_snap_seq vid seq d =
     (case map_of (dp_volumes d) vid of
        None \<Rightarrow> d
      | Some v \<Rightarrow> d\<lparr>dp_volumes := AList.update vid (v\<lparr>v_snap_seq := seq\<rparr>) (dp_volumes d)\<rparr>)"

text \<open>The new version is an \<open>int\<close> that the comparison converts to an unsigned number.\<close>

definition set_meta_ver :: "u64 \<Rightarrow> int \<Rightarrow> dispatcher \<Rightarrow> int \<times> dispatcher" where
  "set_meta_ver vid ver d =
     (case map_of (dp_volumes d) vid of
        None \<Rightarrow> (- ENOENT, d)
      | Some v \<Rightarrow>
          if word_of_int ver < v_meta_ver v then (- EINVAL, d)
          else (0, d\<lparr>dp_volumes := AList.update vid (v\<lparr>v_meta_ver := word_of_int ver\<rparr>) (dp_volumes d)\<rparr>))"

primrec move_shards ::
  "nat list \<Rightarrow> pf_shard option list \<Rightarrow> pf_shard option list \<Rightarrow>
     fault + pf_shard option list \<times> pf_shard option list" where
  "move_shards [] old new = Inr (old, new)"
| "move_shards (i # is) old new =
     bnd (arr_get new i) (\<lambda>n.
       if length old \<le> sh_index n then Inl Out_of_bounds
       else move_shards is (old[sh_index n := Some n]) (new[i := None]))"

definition prepare_shards :: "pf_volume \<Rightarrow> dispatcher \<Rightarrow> fault + int \<times> pf_volume \<times> dispatcher" where
  "prepare_shards vol d =
     (case map_of (dp_volumes d) (v_id vol) of
        None \<Rightarrow> Inr (- ENOENT, vol, d)
      | Some old \<Rightarrow>
          bnd (move_shards [0..<length (v_shards vol)] (v_shards old) (v_shards vol)) (\<lambda>(sh, new).
            Inr (0, vol\<lparr>v_shards := new\<rparr>,
                 d\<lparr>dp_volumes := AList.update (v_id vol)
                     (old\<lparr>v_meta_ver := v_meta_ver vol, v_shards := sh\<rparr>) (dp_volumes d)\<rparr>)))"

section \<open>Replies\<close>

definition send_reply :: "nat \<Rightarrow> dispatcher \<Rightarrow> fault + dispatcher" where
  "send_reply b d =
     (let x = dp_iocb d b;
          r = \<lparr>r_status = ib_status x, r_meta_ver = ib_meta_ver x,
               r_command_id = m_command_id (ib_cmd x), r_command_seq = m_command_seq (ib_cmd x)\<rparr>
      in case disp_call d of (rc, d1) \<Rightarrow>
           if rc \<noteq> 0 then dec_ref_on_error b d1 else Inr (dact (Send_reply b r) d1))"

definition reply_io_to_client :: "nat \<Rightarrow> dispatcher \<Rightarrow> fault + dispatcher" where
  "reply_io_to_client b d =
     (case ib_conn (dp_iocb d b) of
        None \<Rightarrow> dec_ref_on_error b d
      | Some c \<Rightarrow>
          if \<not> cn_ok (dp_conn d c) then dec_ref_on_error b d
          else if IS_READ_OP (m_opcode (ib_cmd (dp_iocb d b))) \<and> cn_rdma (dp_conn d c) \<and>
                  ib_status (dp_iocb d b) = MSG_STATUS_SUCCESS
          then (case disp_call d of (rc, d1) \<Rightarrow>
                  if rc \<noteq> 0 then dec_ref_on_error b d1 else send_reply b (dact (Rdma_write b) d1))
          else send_reply b d)"

section \<open>Sub tasks\<close>

definition rep_writable :: "pf_replica \<Rightarrow> bool" where
  "rep_writable r \<longleftrightarrow> rp_status r = HS_OK \<or> rp_status r = HS_RECOVERYING"

text \<open>\<open>setup_one_subtask\<close>; the array has pointers to three sub tasks only.\<close>

definition setup_one_subtask :: "nat \<Rightarrow> nat \<Rightarrow> u8 \<Rightarrow> dispatcher \<Rightarrow> fault + dispatcher" where
  "setup_one_subtask b i op d =
     (if length (ib_subtasks (dp_iocb d b)) \<le> i then Inl Null_deref
      else Inr (upd_iocb b (\<lambda>x. x\<lparr>ib_subtasks := (ib_subtasks x)[i := (ib_subtasks x ! i)
                                      \<lparr>st_status := MSG_STATUS_SUCCESS, st_opcode := op\<rparr>],
                              ib_task_mask := ib_task_mask x OR task_mask i,
                              ib_ref_count := ib_ref_count x + 1\<rparr>) d))"

primrec setup_subtask :: "nat \<Rightarrow> pf_shard \<Rightarrow> u8 \<Rightarrow> nat list \<Rightarrow> dispatcher \<Rightarrow> fault + dispatcher" where
  "setup_subtask b s op [] d = Inr d"
| "setup_subtask b s op (i # is) d =
     (if length (sh_replicas s) \<le> i then Inl Out_of_bounds
      else case sh_replicas s ! i of
          None \<Rightarrow> setup_subtask b s op is d
        | Some r \<Rightarrow>
            if rep_writable r then bnd (setup_one_subtask b i op d) (setup_subtask b s op is)
            else setup_subtask b s op is d)"

text \<open>Posting sub task \<open>i\<close> to the replica; a full event queue is only logged.\<close>

definition submit_replica :: "nat \<Rightarrow> nat \<Rightarrow> pf_replica \<Rightarrow> dispatcher \<Rightarrow> fault + dispatcher" where
  "submit_replica b i r d =
     (if length (ib_subtasks (dp_iocb d b)) \<le> i then Inl Null_deref
      else case disp_call (upd_iocb b (\<lambda>x. x\<lparr>ib_subtasks := (ib_subtasks x)[i := (ib_subtasks x ! i)
                     \<lparr>st_rep_id := rp_id r, st_store_id := rp_store_id r\<rparr>]\<rparr>) d) of (rc, d1) \<Rightarrow>
        Inr (if rc \<noteq> 0 then d1 else dact (Submit_replica b i r) d1))"

section \<open>Dispatching\<close>

primrec submit_writes :: "nat \<Rightarrow> pf_shard \<Rightarrow> nat list \<Rightarrow> dispatcher \<Rightarrow> fault + dispatcher" where
  "submit_writes b s [] d = Inr d"
| "submit_writes b s (i # is) d =
     bnd (arr_get (sh_replicas s) i) (\<lambda>r.
       if rep_writable r then bnd (submit_replica b i r d) (submit_writes b s is)
       else submit_writes b s is d)"

definition dispatch_write :: "nat \<Rightarrow> pf_volume \<Rightarrow> pf_shard \<Rightarrow> dispatcher \<Rightarrow> fault + int \<times> dispatcher" where
  "dispatch_write b vol s d0 =
     (let d = upd_iocb b (\<lambda>x. x\<lparr>ib_task_mask := 0\<rparr>) d0
      in bnd (arr_get (sh_replicas s) (sh_duty_index s)) (\<lambda>duty.
           if \<not> sh_is_primary_node s \<or> rp_status duty \<noteq> HS_OK
           then Inr (1, dact (Report_async b (rp_id duty))
                          (upd_iocb b (\<lambda>x. x\<lparr>ib_status := MSG_STATUS_REOPEN\<rparr>) d))
           else bnd (setup_subtask b s (m_opcode (ib_cmd (dp_iocb d b))) [0..<sh_rep_count s] d) (\<lambda>d1.
                  bnd (submit_writes b s [0..<v_rep_count vol] d1) (\<lambda>d2. Inr (0, d2)))))"

text \<open>The answer of the conductor to the asynchronous report of \<open>dispatch_write\<close>.\<close>

definition write_reported :: "nat \<Rightarrow> u16 \<Rightarrow> u16 \<Rightarrow> dispatcher \<Rightarrow> fault + dispatcher" where
  "write_reported b action_code ver d =
     reply_io_to_client b (upd_iocb b (\<lambda>x. x\<lparr>ib_status := action_code, ib_meta_ver := ver\<rparr>) d)"

text \<open>\<open>submit_error\<close> of the error handler completes the sub task with the conductor's answer.\<close>

definition dispatch_read :: "nat \<Rightarrow> pf_volume \<Rightarrow> pf_shard \<Rightarrow> dispatcher \<Rightarrow> fault + int \<times> dispatcher" where
  "dispatch_read b vol s d0 =
     (let d = upd_iocb b (\<lambda>x. x\<lparr>ib_task_mask := 0\<rparr>) d0; i = sh_duty_index s
      in bnd (arr_get (sh_replicas s) i) (\<lambda>r.
           if rp_status r = HS_OK
           then bnd (setup_one_subtask b i (m_opcode (ib_cmd (dp_iocb d b))) d) (\<lambda>d1.
                  if \<not> sh_is_primary_node s
                  then Inr (1, dact (Report_error b i MSG_STATUS_NOT_PRIMARY)
                         (upd_iocb b (\<lambda>x. x\<lparr>ib_subtasks := (ib_subtasks x)[i := (ib_subtasks x ! i)
                            \<lparr>st_rep_id := rp_id r, st_store_id := rp_store_id r\<rparr>]\<rparr>) d1))
                  else bnd (submit_replica b i r d1) (\<lambda>d2. Inr (0, d2)))
           else Inr (0, d)))"

definition dispatch_rep_write :: "nat \<Rightarrow> pf_volume \<Rightarrow> pf_shard \<Rightarrow> dispatcher \<Rightarrow> fault + int \<times> dispatcher" where
  "dispatch_rep_write b vol s d0 =
     (let d = upd_iocb b (\<lambda>x. x\<lparr>ib_task_mask := 0\<rparr>) d0; i = sh_duty_index s
      in bnd (arr_get (sh_replicas s) i) (\<lambda>r.
           if rep_writable r
           then bnd (setup_one_subtask b i S5_OP_REPLICATE_WRITE d) (\<lambda>d1.
                  if sh_is_primary_node s
                  then Inr (1, dact (Report_error b i MSG_STATUS_REP_TO_PRIMARY)
                         (upd_iocb b (\<lambda>x. x\<lparr>ib_subtasks := (ib_subtasks x)[i := (ib_subtasks x ! i)
                            \<lparr>st_rep_id := rp_id r, st_store_id := rp_store_id r\<rparr>]\<rparr>) d1))
                  else bnd (submit_replica b i r d1) (\<lambda>d2. Inr (0, d2)))
           else Inl Fatal_exit))"

definition dispatch_reject :: "nat \<Rightarrow> u16 \<Rightarrow> u16 \<Rightarrow> dispatcher \<Rightarrow> fault + int \<times> dispatcher" where
  "dispatch_reject b status ver d =
     bnd (reply_io_to_client b (upd_iocb b (\<lambda>x. x\<lparr>ib_status := status, ib_meta_ver := ver\<rparr>) d))
       (\<lambda>d1. Inr (0, d1))"

definition dispatch_op :: "nat \<Rightarrow> pf_volume \<Rightarrow> pf_shard \<Rightarrow> dispatcher \<Rightarrow> fault + int \<times> dispatcher" where
  "dispatch_op b vol s d =
     (let cmd = ib_cmd (dp_iocb d b); op = m_opcode cmd; n = uint (m_length cmd); st = dp_stat d
      in if op = S5_OP_WRITE
         then dispatch_write b vol s
                (d\<lparr>dp_stat := st\<lparr>wr_cnt := wr_cnt st + 1, wr_bytes := wr_bytes st + n\<rparr>\<rparr>)
         else if op = S5_OP_READ \<or> op = S5_OP_RECOVERY_READ
         then dispatch_read b vol s
                (d\<lparr>dp_stat := st\<lparr>rd_cnt := rd_cnt st + 1, rd_bytes := rd_bytes st + n\<rparr>\<rparr>)
         else if op = S5_OP_REPLICATE_WRITE
         then dispatch_rep_write b vol s
                (d\<lparr>dp_stat := st\<lparr>rep_wr_cnt := rep_wr_cnt st + 1, rep_wr_bytes := rep_wr_bytes st + n\<rparr>\<rparr>)
         else Inl Fatal_exit)"

text \<open>The shard number is a 32-bit value, and the bound is compared with \<open>>\<close>.\<close>

definition dispatch_io :: "nat \<Rightarrow> dispatcher \<Rightarrow> fault + int \<times> dispatcher" where
  "dispatch_io b d =
     (let cmd = ib_cmd (dp_iocb d b)
      in case map_of (dp_volumes d) (m_vol_id cmd) of
           None \<Rightarrow> dispatch_reject b (MSG_STATUS_REOPEN OR MSG_STATUS_INVALID_STATE) (- 1) d
         | Some vol \<Rightarrow>
             if (ucast (m_meta_ver cmd) :: u64) \<noteq> v_meta_ver vol
             then dispatch_reject b MSG_STATUS_REOPEN (ucast (v_meta_ver vol)) d
             else
               let d1 = (if m_snap_seq cmd = SNAP_SEQ_HEAD
                         then upd_iocb b (\<lambda>x. x\<lparr>ib_cmd := (ib_cmd x)\<lparr>m_snap_seq := v_snap_seq vol\<rparr>\<rparr>) d else d);
                   shard_index = unat (ucast (OFFSET_TO_SHARD_INDEX (m_offset cmd)) :: u32)
               in if shard_index > v_shard_count vol
                  then dispatch_reject b (MSG_STATUS_REOPEN OR MSG_STATUS_INVALID_FIELD) (ucast (v_meta_ver vol)) d1
                  else bnd (arr_get (v_shards vol) shard_index) (\<lambda>s. dispatch_op b vol s d1))"

section \<open>Completion\<close>

definition server_complete :: "nat \<Rightarrow> nat \<Rightarrow> u16 \<Rightarrow> dispatcher \<Rightarrow> dispatcher" where
  "server_complete b i status d =
     dact (Post_complete b i)
       (upd_iocb b (\<lambda>x. x\<lparr>ib_subtasks := (ib_subtasks x)[i := (ib_subtasks x ! i)\<lparr>st_status := status\<rparr>]\<rparr>) d)"

definition server_complete_with_metaver :: "nat \<Rightarrow> nat \<Rightarrow> u16 \<Rightarrow> u16 \<Rightarrow> dispatcher \<Rightarrow> dispatcher" where
  "server_complete_with_metaver b i status ver d =
     server_complete b i status
       (if ib_meta_ver (dp_iocb d b) < ver then upd_iocb b (\<lambda>x. x\<lparr>ib_meta_ver := ver\<rparr>) d else d)"

definition dispatch_complete :: "nat \<Rightarrow> nat \<Rightarrow> dispatcher \<Rightarrow> fault + int \<times> dispatcher" where
  "dispatch_complete b i d =
     (let d1 = upd_iocb b (\<lambda>x. x\<lparr>ib_task_mask := ib_task_mask x AND NOT (task_mask i),
                               ib_status := (if ib_status x = MSG_STATUS_SUCCESS
                                             then st_status (ib_subtasks x ! i) else ib_status x)\<rparr>) d
      in bnd (if ib_task_mask (dp_iocb d1 b) = 0 then reply_io_to_client b d1 else Inr d1) (\<lambda>d2.
           bnd (iocb_dec_ref b d2) (\<lambda>d3. Inr (0, d3))))"

section \<open>Events\<close>

datatype disp_event =
    Disp_io_req nat
  | Disp_io_complete nat nat
  | Disp_force_release nat "nat list"
  | Disp_other

primrec release_iocbs :: "nat \<Rightarrow> nat list \<Rightarrow> dispatcher \<Rightarrow> fault + dispatcher" where
  "release_iocbs c [] d = Inr d"
| "release_iocbs c (b # bs) d =
     bnd (if ib_conn (dp_iocb d b) = Some c then dec_ref_on_error b d else Inr d) (release_iocbs c bs)"

text \<open>For \<open>EVT_FORCE_RELEASE_CONN\<close> the list is the \<open>used_iocb\<close> of the connection.\<close>

definition disp_process_event :: "disp_event \<Rightarrow> dispatcher \<Rightarrow> fault + int \<times> dispatcher" where
  "disp_process_event ev d =
     (case ev of
        Disp_io_req b \<Rightarrow> dispatch_io b d
      | Disp_io_complete b i \<Rightarrow> dispatch_complete b i d
      | Disp_force_release c used \<Rightarrow>
          if \<not> cn_rdma (dp_conn d c) then Inr (0, conn_dec_ref c d)
          else bnd (release_iocbs c used d) (\<lambda>d1. Inr (0, conn_dec_ref c d1))
      | Disp_other \<Rightarrow> Inr (0, d))"

section \<open>The request pool\<close>

definition fresh_subtask :: sub_task where
  "fresh_subtask = \<lparr>st_status = 0, st_opcode = 0, st_rep_id = 0, st_store_id = 0\<rparr>"

text \<open>
  The loop of \<open>init_mempools\<close>: take a request from the pool, give it its buffers and sub
  tasks, and put it back. An empty pool is a NULL dereference.
\<close>

primrec init_iocbs :: "nat \<Rightarrow> dispatcher \<Rightarrow> fault + dispatcher" where
  "init_iocbs 0 d = Inr d"
| "init_iocbs (Suc n) d =
     (case pool_alloc (dp_pool d) of
        (None, _) \<Rightarrow> Inl Null_deref
      | (Some b, p) \<Rightarrow>
          bnd (pool_free p b) (\<lambda>p1.
            init_iocbs n (upd_iocb b (\<lambda>x. x\<lparr>ib_subtasks := replicate 3 fresh_subtask\<rparr>) (d\<lparr>dp_pool := p1\<rparr>))))"

definition IO_POOL_SIZE :: nat where "IO_POOL_SIZE = 1024"

text \<open>
  \<open>init_mempools\<close>: the results of the three buffer pools, and the outcomes of the calls
  in the initialisation of the request pool.
\<close>

definition init_mempools ::
  "int \<Rightarrow> int \<Rightarrow> int \<Rightarrow> int \<Rightarrow> bool \<Rightarrow> bool \<Rightarrow> dispatcher \<Rightarrow> fault + int \<times> dispatcher" where
  "init_mempools cmd_rc data_rc reply_rc spin_rc queue_ok data_ok d =
     (if cmd_rc \<noteq> 0 then Inr (cmd_rc, d)
      else if data_rc \<noteq> 0 then Inr (data_rc, d)
      else if reply_rc \<noteq> 0 then Inr (reply_rc, d)
      else case pool_init spin_rc queue_ok data_ok (int (IO_POOL_SIZE * 2)) (dp_pool d) of (rc, p) \<Rightarrow>
        if rc \<noteq> 0 then Inr (rc, d\<lparr>dp_pool := p\<rparr>)
        else bnd (init_iocbs (IO_POOL_SIZE * 2) (d\<lparr>dp_pool := p\<rparr>)) (\<lambda>d1. Inr (0, d1)))"


section \<open>The life of a write\<close>

text \<open>The completions of a request in the order in which the replicas answer.\<close>

primrec complete_all :: "nat \<Rightarrow> (nat \<times> u16) list \<Rightarrow> dispatcher \<Rightarrow> fault + dispatcher" where
  "complete_all b [] d = Inr d"
| "complete_all b (a # as) d =
     bnd (dispatch_complete b (fst a) (server_complete b (fst a) (snd a) d)) (\<lambda>(rc, d1). complete_all b as d1)"

definition first_error :: "u16 list \<Rightarrow> u16" where
  "first_error sts = (case filter (\<lambda>x. x \<noteq> MSG_STATUS_SUCCESS) sts of [] \<Rightarrow> MSG_STATUS_SUCCESS | x # _ \<Rightarrow> x)"

lemma bit_task_mask: "bit (task_mask i) n \<longleftrightarrow> n = i \<and> n < 32"
  by (auto simp: task_mask_def bit_simps)

lemma mask_empty: "(w :: u32) = 0 \<longleftrightarrow> (\<forall>n < 32. \<not> bit w n)"
  by (auto simp: bit_eq_iff bit_simps)

lemma first_error_Cons: "first_error (x # xs) = (if x \<noteq> 0 then x else first_error xs)"
  by (simp add: first_error_def)


fun replies_to :: "nat \<Rightarrow> disp_action list \<Rightarrow> PfMessageReply list" where
  "replies_to b [] = []"
| "replies_to b (Send_reply b' r # as) = (if b' = b then r # replies_to b as else replies_to b as)"
| "replies_to b (a # as) = replies_to b as"

lemma replies_to_append: "replies_to b (as @ bs) = replies_to b as @ replies_to b bs"
  by (induction b as rule: replies_to.induct) simp_all

text \<open>
  A request in flight: the sub tasks in \<open>S\<close> are not yet complete, \<open>n\<close> references are
  held, its connection is open and takes the reply.
\<close>

definition inflight :: "nat \<Rightarrow> nat \<Rightarrow> nat set \<Rightarrow> nat \<Rightarrow> dispatcher \<Rightarrow> bool" where
  "inflight b c S n d \<longleftrightarrow>
     (\<forall>i < 32. bit (ib_task_mask (dp_iocb d b)) i \<longleftrightarrow> i \<in> S) \<and> S \<subseteq> {..<3} \<and>
     ib_ref_count (dp_iocb d b) = of_nat n \<and> n < 2 ^ 32 \<and> length (ib_subtasks (dp_iocb d b)) = 3 \<and>
     ib_conn (dp_iocb d b) = Some c \<and> cn_ok (dp_conn d c) \<and>
     \<not> (IS_READ_OP (m_opcode (ib_cmd (dp_iocb d b))) \<and> cn_rdma (dp_conn d c)) \<and>
     (\<forall>k. dp_cnt d \<le> k \<longrightarrow> dp_ext d k = 0)"

lemma inflight_mask:
  "inflight b c S n d \<Longrightarrow> ib_task_mask (dp_iocb d b) AND NOT (task_mask i) = 0 \<longleftrightarrow> S \<subseteq> {i}"
  unfolding mask_empty inflight_def
  by (auto simp: bit_simps bit_task_mask subset_iff)

lemma inflight_ref:
  assumes "inflight b c S n d" and "1 < n"
  shows "ib_ref_count (dp_iocb d b) - 1 = of_nat (n - 1)" and "ib_ref_count (dp_iocb d b) - 1 \<noteq> 0"
proof -
  show 1: "ib_ref_count (dp_iocb d b) - 1 = of_nat (n - 1)"
    using assms by (simp add: inflight_def of_nat_diff)
  obtain m where m: "n = Suc m" "0 < m" using assms(2) by (cases n) auto
  have "unat (of_nat m :: u32) = m"
    using assms(1) m by (simp add: inflight_def unsigned_of_nat take_bit_nat_eq_self)
  then have "(of_nat m :: u32) \<noteq> 0" using m(2) by (metis less_irrefl unsigned_0)
  then show "ib_ref_count (dp_iocb d b) - 1 \<noteq> 0" using assms(1) m(1) by (simp add: inflight_def)
qed

lemma complete_not_last:
  assumes fl: "inflight b c S n d" and i: "i \<in> S" and more: "\<not> S \<subseteq> {i}" and n: "1 < n"
  shows "\<exists>d'. dispatch_complete b i (server_complete b i st d) = Inr (0, d') \<and>
     inflight b c (S - {i}) (n - 1) d' \<and>
     ib_status (dp_iocb d' b) = (if ib_status (dp_iocb d b) = 0 then st else ib_status (dp_iocb d b)) \<and>
     ib_cmd (dp_iocb d' b) = ib_cmd (dp_iocb d b) \<and> ib_meta_ver (dp_iocb d' b) = ib_meta_ver (dp_iocb d b) \<and>
     replies_to b (dp_acts d') = replies_to b (dp_acts d)"
proof -
  note ref = inflight_ref [OF fl n]
  have mask: "ib_task_mask (dp_iocb d b) AND NOT (task_mask i) \<noteq> 0"
    using inflight_mask [OF fl] more by simp
  have len: "i < length (ib_subtasks (dp_iocb d b))" using fl i by (auto simp: inflight_def)
  show ?thesis
    using fl i mask ref(2) len ref(1) n
    by (auto simp: dispatch_complete_def server_complete_def iocb_dec_ref_def Let_def replies_to_append
        inflight_def bit_simps bit_task_mask)
qed


lemma complete_last:
  assumes fl: "inflight b c {i} n d" and n: "1 < n"
  shows "\<exists>d'. dispatch_complete b i (server_complete b i st d) = Inr (0, d') \<and>
     ib_ref_count (dp_iocb d' b) = of_nat (n - 1) \<and>
     replies_to b (dp_acts d') = replies_to b (dp_acts d) @
       [\<lparr>r_status = (if ib_status (dp_iocb d b) = 0 then st else ib_status (dp_iocb d b)),
         r_meta_ver = ib_meta_ver (dp_iocb d b), r_command_id = m_command_id (ib_cmd (dp_iocb d b)),
         r_command_seq = m_command_seq (ib_cmd (dp_iocb d b))\<rparr>]"
proof -
  note ref = inflight_ref [OF fl n]
  have mask: "ib_task_mask (dp_iocb d b) AND NOT (task_mask i) = 0"
    using inflight_mask [OF fl] by simp
  have len: "i < length (ib_subtasks (dp_iocb d b))" using fl by (auto simp: inflight_def)
  have conn: "ib_conn (dp_iocb d b) = Some c" "cn_ok (dp_conn d c)"
    "\<not> (IS_READ_OP (m_opcode (ib_cmd (dp_iocb d b))) \<and> cn_rdma (dp_conn d c))"
    "dp_ext d (dp_cnt d) = 0"
    using fl by (auto simp: inflight_def)
  show ?thesis
    using mask ref(2) len ref(1) n conn
    by (auto simp: dispatch_complete_def server_complete_def iocb_dec_ref_def Let_def replies_to_append
        reply_io_to_client_def send_reply_def disp_call_def)
qed

lemma complete_all_replies:
  assumes "inflight b c (fst ` set as) n d" and "distinct (map fst as)" and "as \<noteq> []" and "length as < n"
  shows "\<exists>d'. complete_all b as d = Inr d' \<and> ib_ref_count (dp_iocb d' b) = of_nat (n - length as) \<and>
     replies_to b (dp_acts d') = replies_to b (dp_acts d) @
       [\<lparr>r_status = first_error (ib_status (dp_iocb d b) # map snd as),
         r_meta_ver = ib_meta_ver (dp_iocb d b), r_command_id = m_command_id (ib_cmd (dp_iocb d b)),
         r_command_seq = m_command_seq (ib_cmd (dp_iocb d b))\<rparr>]"
  using assms
proof (induction as arbitrary: n d)
  case Nil
  then show ?case by simp
next
  case (Cons a as)
  show ?case
  proof (cases as)
    case Nil
    then show ?thesis using complete_last [of b c "fst a" n d "snd a"] Cons.prems
      by (auto simp: first_error_Cons first_error_def)
  next
    case (Cons a' as')
    have d: "fst a \<notin> fst ` set as" using Cons.prems(2) by simp
    have S: "fst ` set (a # as) - {fst a} = fst ` set as" using d by auto
    obtain d1 where d1: "dispatch_complete b (fst a) (server_complete b (fst a) (snd a) d) = Inr (0, d1)"
      "inflight b c (fst ` set as) (n - 1) d1"
      "ib_status (dp_iocb d1 b) = (if ib_status (dp_iocb d b) = 0 then snd a else ib_status (dp_iocb d b))"
      "ib_cmd (dp_iocb d1 b) = ib_cmd (dp_iocb d b)" "ib_meta_ver (dp_iocb d1 b) = ib_meta_ver (dp_iocb d b)"
      "replies_to b (dp_acts d1) = replies_to b (dp_acts d)"
      using complete_not_last [of b c "fst ` set (a # as)" n d "fst a" "snd a"] Cons.prems d Cons
      unfolding S by force
    show ?thesis using Cons.IH [OF d1(2)] Cons.prems Cons d1
      by (auto simp: first_error_Cons)
  qed
qed


definition frame :: "nat \<Rightarrow> dispatcher \<Rightarrow> dispatcher \<Rightarrow> bool" where
  "frame b d d' \<longleftrightarrow> dp_volumes d' = dp_volumes d \<and> dp_conn d' = dp_conn d \<and> dp_ext d' = dp_ext d \<and>
     dp_cnt d \<le> dp_cnt d' \<and> ib_conn (dp_iocb d' b) = ib_conn (dp_iocb d b) \<and>
     ib_cmd (dp_iocb d' b) = ib_cmd (dp_iocb d b) \<and> ib_status (dp_iocb d' b) = ib_status (dp_iocb d b) \<and>
     ib_meta_ver (dp_iocb d' b) = ib_meta_ver (dp_iocb d b) \<and>
     length (ib_subtasks (dp_iocb d' b)) = length (ib_subtasks (dp_iocb d b))"

lemma frame_trans: "frame b d d1 \<Longrightarrow> frame b d1 d2 \<Longrightarrow> frame b d d2"
  by (simp add: frame_def)

definition writable_at :: "pf_shard \<Rightarrow> nat \<Rightarrow> bool" where
  "writable_at s i \<longleftrightarrow> (case sh_replicas s ! i of None \<Rightarrow> False | Some r \<Rightarrow> rep_writable r)"

lemma setup_one_ok:
  assumes "i < length (ib_subtasks (dp_iocb d b))"
  shows "\<exists>d'. setup_one_subtask b i op d = Inr d' \<and> frame b d d' \<and> dp_acts d' = dp_acts d \<and>
     (\<forall>j. bit (ib_task_mask (dp_iocb d' b)) j \<longleftrightarrow> bit (ib_task_mask (dp_iocb d b)) j \<or> (j < 32 \<and> j = i)) \<and>
     ib_ref_count (dp_iocb d' b) = ib_ref_count (dp_iocb d b) + 1"
  using assms by (auto simp: setup_one_subtask_def frame_def bit_simps bit_task_mask)

lemma setup_subtask_ok:
  assumes "\<forall>i \<in> set is. i < length (sh_replicas s) \<and> i < length (ib_subtasks (dp_iocb d b))"
  shows "\<exists>d'. setup_subtask b s op is d = Inr d' \<and> frame b d d' \<and> dp_acts d' = dp_acts d \<and>
     (\<forall>j. bit (ib_task_mask (dp_iocb d' b)) j \<longleftrightarrow>
        bit (ib_task_mask (dp_iocb d b)) j \<or> (j < 32 \<and> j \<in> set (filter (writable_at s) is))) \<and>
     ib_ref_count (dp_iocb d' b) = ib_ref_count (dp_iocb d b) + of_nat (length (filter (writable_at s) is))"
  using assms
proof (induction "is" arbitrary: d)
  case Nil
  then show ?case by (simp add: frame_def)
next
  case (Cons i "is")
  show ?case
  proof (cases "writable_at s i")
    case True
    obtain d1 where d1: "setup_one_subtask b i op d = Inr d1" "frame b d d1" "dp_acts d1 = dp_acts d"
      "\<forall>j. bit (ib_task_mask (dp_iocb d1 b)) j \<longleftrightarrow> bit (ib_task_mask (dp_iocb d b)) j \<or> (j < 32 \<and> j = i)"
      "ib_ref_count (dp_iocb d1 b) = ib_ref_count (dp_iocb d b) + 1"
      using setup_one_ok [of i d b op] Cons.prems by auto
    have "\<forall>i \<in> set is. i < length (sh_replicas s) \<and> i < length (ib_subtasks (dp_iocb d1 b))"
      using Cons.prems d1(2) by (simp add: frame_def)
    from Cons.IH [OF this] show ?thesis using d1 True Cons.prems frame_trans [OF d1(2)]
      by (auto simp: writable_at_def split: option.splits)
  next
    case False
    then show ?thesis using Cons.IH [of d] Cons.prems
      by (auto simp: writable_at_def split: option.splits)
  qed
qed

lemma submit_replica_ok:
  assumes "i < length (ib_subtasks (dp_iocb d b))" and "dp_ext d (dp_cnt d) = 0"
  shows "\<exists>d'. submit_replica b i r d = Inr d' \<and> frame b d d' \<and>
     dp_acts d' = dp_acts d @ [Submit_replica b i r] \<and>
     ib_task_mask (dp_iocb d' b) = ib_task_mask (dp_iocb d b) \<and>
     ib_ref_count (dp_iocb d' b) = ib_ref_count (dp_iocb d b)"
  using assms by (auto simp: submit_replica_def disp_call_def frame_def)

lemma submit_writes_ok:
  assumes "\<forall>i \<in> set is. i < length (sh_replicas s) \<and> sh_replicas s ! i \<noteq> None \<and> i < length (ib_subtasks (dp_iocb d b))"
    and "\<forall>k. dp_cnt d \<le> k \<longrightarrow> dp_ext d k = 0"
  shows "\<exists>d'. submit_writes b s is d = Inr d' \<and> frame b d d' \<and>
     dp_acts d' = dp_acts d @ map (\<lambda>i. Submit_replica b i (the (sh_replicas s ! i))) (filter (writable_at s) is) \<and>
     ib_task_mask (dp_iocb d' b) = ib_task_mask (dp_iocb d b) \<and>
     ib_ref_count (dp_iocb d' b) = ib_ref_count (dp_iocb d b)"
  using assms
proof (induction "is" arbitrary: d)
  case Nil
  then show ?case by (simp add: frame_def)
next
  case (Cons i "is")
  obtain r where r: "sh_replicas s ! i = Some r" and i: "i < length (sh_replicas s)"
    using Cons.prems(1) by auto
  have get: "arr_get (sh_replicas s) i = Inr r" using r i by (simp add: arr_get_def)
  show ?case
  proof (cases "rep_writable r")
    case True
    obtain d1 where d1: "submit_replica b i r d = Inr d1" "frame b d d1"
      "dp_acts d1 = dp_acts d @ [Submit_replica b i r]"
      "ib_task_mask (dp_iocb d1 b) = ib_task_mask (dp_iocb d b)"
      "ib_ref_count (dp_iocb d1 b) = ib_ref_count (dp_iocb d b)"
      using submit_replica_ok [of i d b r] Cons.prems by auto
    have 1: "\<forall>i \<in> set is. i < length (sh_replicas s) \<and> sh_replicas s ! i \<noteq> None \<and> i < length (ib_subtasks (dp_iocb d1 b))"
      and 2: "\<forall>k. dp_cnt d1 \<le> k \<longrightarrow> dp_ext d1 k = 0"
      using Cons.prems d1(2) by (auto simp: frame_def)
    from Cons.IH [OF 1 2] show ?thesis using d1 True r get frame_trans [OF d1(2)]
      by (auto simp: writable_at_def)
  next
    case False
    then show ?thesis using Cons.IH [of d] Cons.prems r get by (auto simp: writable_at_def)
  qed
qed


text \<open>
  A write that can be dispatched: the request is fresh and its connection open, this
  node is the primary of the shard, every replica is known, and the calls to other
  components succeed.
\<close>

definition write_ready :: "nat \<Rightarrow> nat \<Rightarrow> pf_volume \<Rightarrow> pf_shard \<Rightarrow> nat \<Rightarrow> dispatcher \<Rightarrow> bool" where
  "write_ready b c vol s n d \<longleftrightarrow>
     length (ib_subtasks (dp_iocb d b)) = 3 \<and> ib_conn (dp_iocb d b) = Some c \<and> cn_ok (dp_conn d c) \<and>
     m_opcode (ib_cmd (dp_iocb d b)) = S5_OP_WRITE \<and> ib_status (dp_iocb d b) = 0 \<and>
     ib_ref_count (dp_iocb d b) = of_nat n \<and> 0 < n \<and> n < 1000 \<and> (\<forall>k. dp_cnt d \<le> k \<longrightarrow> dp_ext d k = 0) \<and>
     sh_rep_count s = v_rep_count vol \<and> v_rep_count vol \<le> 3 \<and> length (sh_replicas s) = 5 \<and>
     None \<notin> set (take (v_rep_count vol) (sh_replicas s)) \<and>
     sh_is_primary_node s \<and> sh_duty_index s < v_rep_count vol \<and>
     (case sh_replicas s ! sh_duty_index s of None \<Rightarrow> False | Some r \<Rightarrow> rp_status r = HS_OK)"

definition write_targets :: "pf_volume \<Rightarrow> pf_shard \<Rightarrow> nat list" where
  "write_targets vol s = filter (writable_at s) [0..<v_rep_count vol]"

lemma take_not_None: "None \<notin> set (take m xs) \<Longrightarrow> m \<le> length xs \<Longrightarrow> i < m \<Longrightarrow> xs ! i \<noteq> None"
  by (metis in_set_conv_nth length_take min.absorb2 nth_take)

lemma dispatch_write_inflight:
  assumes ready: "write_ready b c vol s n d"
  shows "\<exists>d'. dispatch_write b vol s d = Inr (0, d') \<and>
     inflight b c (set (write_targets vol s)) (n + length (write_targets vol s)) d' \<and> frame b d d' \<and>
     dp_acts d' = dp_acts d @
       map (\<lambda>i. Submit_replica b i (the (sh_replicas s ! i))) (write_targets vol s)"
proof -
  let ?d0 = "upd_iocb b (\<lambda>x. x\<lparr>ib_task_mask := 0\<rparr>) d"
  let ?op = "m_opcode (ib_cmd (dp_iocb ?d0 b))"
  let ?W = "write_targets vol s"
  have idx: "\<forall>i \<in> set [0..<sh_rep_count s]. i < length (sh_replicas s) \<and> i < length (ib_subtasks (dp_iocb ?d0 b))"
    using ready by (auto simp: write_ready_def)
  obtain d1 where d1: "setup_subtask b s ?op [0..<sh_rep_count s] ?d0 = Inr d1" "frame b ?d0 d1"
    "dp_acts d1 = dp_acts ?d0"
    "\<forall>j. bit (ib_task_mask (dp_iocb d1 b)) j \<longleftrightarrow>
        bit (ib_task_mask (dp_iocb ?d0 b)) j \<or> (j < 32 \<and> j \<in> set (filter (writable_at s) [0..<sh_rep_count s]))"
    "ib_ref_count (dp_iocb d1 b) =
       ib_ref_count (dp_iocb ?d0 b) + of_nat (length (filter (writable_at s) [0..<sh_rep_count s]))"
    using setup_subtask_ok [OF idx] by blast
  have rdy: "\<forall>i \<in> set [0..<v_rep_count vol]. i < length (sh_replicas s) \<and> sh_replicas s ! i \<noteq> None \<and>
      i < length (ib_subtasks (dp_iocb d1 b))"
    using ready d1(2) take_not_None [of "v_rep_count vol" "sh_replicas s"]
    by (auto simp: write_ready_def frame_def)
  have ext: "\<forall>k. dp_cnt d1 \<le> k \<longrightarrow> dp_ext d1 k = 0"
    using ready d1(2) by (auto simp: write_ready_def frame_def)
  obtain d2 where d2: "submit_writes b s [0..<v_rep_count vol] d1 = Inr d2" "frame b d1 d2"
    "dp_acts d2 = dp_acts d1 @ map (\<lambda>i. Submit_replica b i (the (sh_replicas s ! i)))
       (filter (writable_at s) [0..<v_rep_count vol])"
    "ib_task_mask (dp_iocb d2 b) = ib_task_mask (dp_iocb d1 b)"
    "ib_ref_count (dp_iocb d2 b) = ib_ref_count (dp_iocb d1 b)"
    using submit_writes_ok [OF rdy ext] by blast
  have run: "dispatch_write b vol s d = Inr (0, d2)"
    using ready d1(1) d2(1) by (auto simp: dispatch_write_def arr_get_def write_ready_def split: option.splits)
  have fr: "frame b ?d0 d2" by (rule frame_trans [OF d1(2) d2(2)])
  have rc: "sh_rep_count s = v_rep_count vol" and le: "v_rep_count vol \<le> 3" and op: "?op = S5_OP_WRITE"
    using ready by (simp_all add: write_ready_def)
  have len: "length ?W \<le> v_rep_count vol"
    unfolding write_targets_def using length_filter_le [of "writable_at s" "[0..<v_rep_count vol]"] by simp
  have "inflight b c (set ?W) (n + length ?W) d2"
    using ready fr d1(4,5) d2(4,5) len le op
    by (auto simp: inflight_def frame_def write_ready_def write_targets_def rc
        op_code_values IS_READ_OP_def READ_OP_def)
  moreover have "frame b d d2" using fr by (simp add: frame_def)
  moreover have "dp_acts d2 = dp_acts d @ map (\<lambda>i. Submit_replica b i (the (sh_replicas s ! i))) ?W"
    using d1(3) d2(3) by (simp add: write_targets_def)
  ultimately show ?thesis using run by blast
qed

section \<open>Properties\<close>

text \<open>
  (C28) A write is replied exactly once, after all replicas. The primary gives the write
  to every replica in state OK or RECOVERYING. Whatever the order \<open>as\<close> in which these
  replicas answer and whatever their answers are, the client gets one reply, when the
  last of them has answered; its status is the first error in the order of the answers
  or success, and it carries the identifiers of the command. The references taken for
  the sub tasks are all returned.
\<close>

theorem write_replied_once:
  assumes "write_ready b c vol s n d"
    and "distinct (map fst as)" and "set (map fst as) = set (write_targets vol s)"
  shows "\<exists>d1 d2. dispatch_write b vol s d = Inr (0, d1) \<and>
     dp_acts d1 = dp_acts d @ map (\<lambda>i. Submit_replica b i (the (sh_replicas s ! i))) (write_targets vol s) \<and>
     complete_all b as d1 = Inr d2 \<and> ib_ref_count (dp_iocb d2 b) = ib_ref_count (dp_iocb d b) \<and>
     replies_to b (dp_acts d2) = replies_to b (dp_acts d) @
       [\<lparr>r_status = first_error (map snd as), r_meta_ver = ib_meta_ver (dp_iocb d b),
         r_command_id = m_command_id (ib_cmd (dp_iocb d b)),
         r_command_seq = m_command_seq (ib_cmd (dp_iocb d b))\<rparr>]"
proof -
  let ?W = "write_targets vol s"
  obtain d1 where d1: "dispatch_write b vol s d = Inr (0, d1)"
    "inflight b c (set ?W) (n + length ?W) d1" "frame b d d1"
    "dp_acts d1 = dp_acts d @ map (\<lambda>i. Submit_replica b i (the (sh_replicas s ! i))) ?W"
    using dispatch_write_inflight [OF assms(1)] by blast
  have S: "fst ` set as = set ?W" using assms(3) by simp
  have "distinct ?W" by (simp add: write_targets_def)
  then have len: "length as = length ?W"
    using assms(2) S distinct_card [of ?W] distinct_card [of "map fst as"] by simp
  have "sh_duty_index s \<in> set ?W"
    using assms(1) by (auto simp: write_ready_def write_targets_def writable_at_def rep_writable_def split: option.splits)
  then have ne: "as \<noteq> []" using S by auto
  have n: "0 < n" "ib_ref_count (dp_iocb d b) = of_nat n" "ib_status (dp_iocb d b) = 0"
    using assms(1) by (simp_all add: write_ready_def)
  have rep: "replies_to b (map (\<lambda>i. Submit_replica b i (the (sh_replicas s ! i))) W) = []" for W
    by (induction W) simp_all
  from complete_all_replies [of b c as "n + length ?W" d1] d1(2) S assms(2) ne n(1) len
  obtain d2 where d2: "complete_all b as d1 = Inr d2" "ib_ref_count (dp_iocb d2 b) = of_nat (n + length ?W - length as)"
    "replies_to b (dp_acts d2) = replies_to b (dp_acts d1) @
       [\<lparr>r_status = first_error (ib_status (dp_iocb d1 b) # map snd as),
         r_meta_ver = ib_meta_ver (dp_iocb d1 b), r_command_id = m_command_id (ib_cmd (dp_iocb d1 b)),
         r_command_seq = m_command_seq (ib_cmd (dp_iocb d1 b))\<rparr>]"
    by auto
  show ?thesis
  proof (intro exI conjI)
    show "dispatch_write b vol s d = Inr (0, d1)" by (rule d1(1))
    show "dp_acts d1 = dp_acts d @ map (\<lambda>i. Submit_replica b i (the (sh_replicas s ! i))) ?W" by (rule d1(4))
    show "complete_all b as d1 = Inr d2" by (rule d2(1))
    show "ib_ref_count (dp_iocb d2 b) = ib_ref_count (dp_iocb d b)" using d2(2) len n(2) by simp
  qed (use d1(3,4) d2(3) n(3) rep in \<open>simp add: frame_def replies_to_append first_error_Cons\<close>)
qed


definition sample_replica :: "HealthStatus \<Rightarrow> u64 \<Rightarrow> pf_replica" where
  "sample_replica st i = \<lparr>rp_status = st, rp_id = 0x1000000 + i, rp_store_id = i, rp_is_local = (i = 0),
     rp_is_primary = (i = 0), rp_index = uint i, rp_ssd_index = 0\<rparr>"

definition sample_shard :: "HealthStatus \<Rightarrow> bool \<Rightarrow> pf_shard" where
  "sample_shard st prim = \<lparr>sh_id = 0x1000000, sh_index = 0,
     sh_replicas = [Some (sample_replica HS_OK 0), Some (sample_replica st 1),
                    Some (sample_replica HS_OK 2), None, None],
     sh_primary_index = 0, sh_duty_index = 0, sh_is_primary_node = prim, sh_rep_count = 3, sh_snap_seq = 0,
     sh_status = HS_OK, sh_meta_ver = 1\<rparr>"

definition sample_volume :: "nat \<Rightarrow> u64 \<Rightarrow> pf_volume" where
  "sample_volume k ver = \<lparr>v_name = ''vol'', v_id = 0x1000000, v_size = 0, v_rep_count = 3, v_shard_count = k,
     v_shards = replicate k (Some (sample_shard HS_RECOVERYING True)), v_snap_seq = 1, v_status = HS_OK,
     v_meta_ver = ver, v_ref_count = 1\<rparr>"

definition sample_cmd :: "u8 \<Rightarrow> u16 \<Rightarrow> u64 \<Rightarrow> PfMessageHead" where
  "sample_cmd op ver off = \<lparr>m_opcode = op, m_command_id = 7, m_snap_seq = 1, m_vol_id = 0x1000000, m_buf_addr = 0,
     m_rkey = 0, m_meta_ver = ver, m_offset = off, m_length = 4096, m_command_seq = 9\<rparr>"

definition sample_dispatcher :: "PfMessageHead \<Rightarrow> pf_volume \<Rightarrow> dispatcher" where
  "sample_dispatcher cmd vol = \<lparr>dp_volumes = [(0x1000000, vol)],
     dp_iocb = (\<lambda>_. \<lparr>ib_conn = Some 0, ib_cmd = cmd, ib_vol_id = 0, ib_status = 0, ib_meta_ver = 0,
        ib_ref_count = 1, ib_is_timeout = False, ib_task_mask = 0, ib_subtasks = replicate 3 fresh_subtask\<rparr>),
     dp_conn = (\<lambda>_. \<lparr>cn_ok = True, cn_rdma = False, cn_ref_count = 2\<rparr>),
     dp_pool = \<lparr>p_free = \<lparr>q_tail = 0, q_head = 0, q_depth = 1, q_data = [0]\<rparr>, p_slots = 0, p_count = 0\<rparr>,
     dp_stat = \<lparr>rd_cnt = 0, wr_cnt = 0, rep_wr_cnt = 0, rd_bytes = 0, wr_bytes = 0, rep_wr_bytes = 0\<rparr>,
     dp_ext = (\<lambda>_. 0), dp_cnt = 0, dp_acts = []\<rparr>"

lemmas disp_sample_defs = sample_replica_def sample_shard_def sample_volume_def sample_cmd_def sample_dispatcher_def

lemma sample_write_ready:
  "write_ready 5 0 (sample_volume 1 1) (sample_shard HS_RECOVERYING True) 1
     (sample_dispatcher (sample_cmd S5_OP_WRITE 1 0) (sample_volume 1 1))"
  by (simp add: write_ready_def disp_sample_defs)

lemma sample_write_targets:
  "write_targets (sample_volume 1 1) (sample_shard HS_RECOVERYING True) = [0, 1, 2]"
  by (simp add: write_targets_def writable_at_def rep_writable_def disp_sample_defs upt_rec)

text \<open>Three replicas that answer in the order 2, 0, 1; replica 0 reports an I/O error.\<close>

theorem write_replied_once_witness:
  "\<exists>d1 d2. dispatch_write 5 (sample_volume 1 1) (sample_shard HS_RECOVERYING True)
       (sample_dispatcher (sample_cmd S5_OP_WRITE 1 0) (sample_volume 1 1)) = Inr (0, d1) \<and>
     length (dp_acts d1) = 3 \<and>
     complete_all 5 [(2, 0), (0, MSG_STATUS_AIOERROR), (1, 0)] d1 = Inr d2 \<and>
     map r_status (replies_to 5 (dp_acts d2)) = [MSG_STATUS_AIOERROR]"
proof -
  let ?as = "[(2, 0), (0, MSG_STATUS_AIOERROR), (1, 0)] :: (nat \<times> u16) list"
  have S: "set (map fst ?as) = set (write_targets (sample_volume 1 1) (sample_shard HS_RECOVERYING True))"
    unfolding sample_write_targets by auto
  have D: "distinct (map fst ?as)" by simp
  have acts: "dp_acts (sample_dispatcher cmd v) = []" for cmd v by (simp add: sample_dispatcher_def)
  have err: "first_error (map snd ?as) = MSG_STATUS_AIOERROR" by (simp add: first_error_def)
  from write_replied_once [OF sample_write_ready D S] show ?thesis
    unfolding acts err sample_write_targets by fastforce
qed

section \<open>Checks before dispatching\<close>

fun is_submit :: "disp_action \<Rightarrow> bool" where
  "is_submit (Submit_replica b i r) = True"
| "is_submit a = False"

abbreviation submits :: "dispatcher \<Rightarrow> disp_action list" where
  "submits d \<equiv> filter is_submit (dp_acts d)"

lemma submits_conn_dec_ref [simp]: "submits (conn_dec_ref c d) = submits d"
  by (simp add: conn_dec_ref_def Let_def)

lemma submits_free: "free_to_pool b d = Inr d' \<Longrightarrow> submits d' = submits d"
  by (auto simp: free_to_pool_def Let_def split: option.splits)

lemma submits_dec_on_error: "dec_ref_on_error b d = Inr d' \<Longrightarrow> submits d' = submits d"
  by (auto simp: dec_ref_on_error_def Let_def split: if_splits option.splits dest: submits_free)

lemma submits_send_reply: "send_reply b d = Inr d' \<Longrightarrow> submits d' = submits d"
  by (auto simp: send_reply_def Let_def disp_call_def split: if_splits dest: submits_dec_on_error)

lemma submits_reply: "reply_io_to_client b d = Inr d' \<Longrightarrow> submits d' = submits d"
  by (auto simp: reply_io_to_client_def disp_call_def split: if_splits option.splits
      dest!: submits_dec_on_error submits_send_reply)


text \<open>What a dispatched request may have added: sub tasks for writable replicas of the shard.\<close>

definition only_shard :: "nat \<Rightarrow> pf_shard \<Rightarrow> dispatcher \<Rightarrow> dispatcher \<Rightarrow> bool" where
  "only_shard b s d d' \<longleftrightarrow>
     (\<exists>W. submits d' = submits d @ map (\<lambda>i. Submit_replica b i (the (sh_replicas s ! i))) W \<and>
          (\<forall>i \<in> set W. i < length (sh_replicas s) \<and> writable_at s i))"

lemma only_shard_refl: "submits d' = submits d \<Longrightarrow> only_shard b s d d'"
  unfolding only_shard_def by (rule exI [of _ "[]"]) simp

lemma only_shard_trans: "only_shard b s d d1 \<Longrightarrow> only_shard b s d1 d2 \<Longrightarrow> only_shard b s d d2"
  unfolding only_shard_def by (elim exE conjE) (rule_tac x = "W @ Wa" in exI, auto)

lemma only_shard_submit:
  assumes "submit_replica b i r d = Inr d'" and "sh_replicas s ! i = Some r" and "i < length (sh_replicas s)"
    and "rep_writable r"
  shows "only_shard b s d d'"
proof (cases "submits d' = submits d")
  case True
  then show ?thesis by (rule only_shard_refl)
next
  case False
  then have "submits d' = submits d @ [Submit_replica b i r]"
    using assms(1) by (auto simp: submit_replica_def disp_call_def split: if_splits)
  then show ?thesis unfolding only_shard_def
    using assms(2-4) by (intro exI [of _ "[i]"]) (simp add: writable_at_def)
qed

lemma setup_one_submits: "setup_one_subtask b i op d = Inr d' \<Longrightarrow> submits d' = submits d"
  by (auto simp: setup_one_subtask_def split: if_splits)

lemma setup_submits: "setup_subtask b s op is d = Inr d' \<Longrightarrow> submits d' = submits d"
  by (induction "is" arbitrary: d) (auto split: if_splits option.splits dest: setup_one_submits)

lemma submit_writes_shard: "submit_writes b s is d = Inr d' \<Longrightarrow> only_shard b s d d'"
proof (induction "is" arbitrary: d)
  case Nil
  then show ?case by (simp add: only_shard_refl)
next
  case (Cons i "is")
  then obtain r where r: "arr_get (sh_replicas s) i = Inr r"
    and rest: "(if rep_writable r then bnd (submit_replica b i r d) (submit_writes b s is)
       else submit_writes b s is d) = Inr d'" by auto
  have i: "i < length (sh_replicas s)" "sh_replicas s ! i = Some r"
    using r by (auto simp: arr_get_def split: if_splits option.splits)
  show ?case
  proof (cases "rep_writable r")
    case True
    then obtain d1 where d1: "submit_replica b i r d = Inr d1" "submit_writes b s is d1 = Inr d'"
      using rest by auto
    show ?thesis
      by (rule only_shard_trans [OF only_shard_submit [OF d1(1) i(2,1) True] Cons.IH [OF d1(2)]])
  next
    case False
    then show ?thesis using rest Cons.IH by simp
  qed
qed

lemma arr_getD: "arr_get xs i = Inr r \<Longrightarrow> i < length xs \<and> xs ! i = Some r"
  by (auto simp: arr_get_def split: if_splits option.splits)

lemma one_subtask_shard:
  assumes "setup_one_subtask b i op d = Inr d1" and "submit_replica b i r d1 = Inr d2"
    and "arr_get (sh_replicas s) i = Inr r" and "rep_writable r"
  shows "only_shard b s d d2"
  using only_shard_trans [OF only_shard_refl [OF setup_one_submits [OF assms(1)]]
      only_shard_submit [OF assms(2)]] arr_getD [OF assms(3)] assms(4) by simp

lemma only_shard_from:
  "only_shard b s d0 d' \<Longrightarrow> submits d0 = submits d \<Longrightarrow> only_shard b s d d'"
  by (simp add: only_shard_def)

lemma one_subtask_dispatch:
  assumes "bnd (setup_one_subtask b i op d) (\<lambda>d1. if P then Inr (1, g d1)
       else bnd (submit_replica b i r d1) (\<lambda>d2. Inr (0, d2))) = Inr (rc, d')"
    and "\<And>d1. submits (g d1) = submits d1"
    and "arr_get (sh_replicas s) i = Inr r" and "rep_writable r"
  shows "only_shard b s d d'"
proof -
  obtain d1 where d1: "setup_one_subtask b i op d = Inr d1"
    "(if P then Inr (1, g d1) else bnd (submit_replica b i r d1) (\<lambda>d2. Inr (0, d2))) = Inr (rc, d')"
    using assms(1) by auto
  show ?thesis
  proof (cases P)
    case True
    then show ?thesis using d1 assms(2) setup_one_submits [OF d1(1)] by (auto intro: only_shard_refl)
  next
    case False
    then show ?thesis using d1 one_subtask_shard [OF d1(1) _ assms(3,4)] by auto
  qed
qed

lemma dispatch_write_shard:
  assumes "dispatch_write b vol s d = Inr (rc, d')"
  shows "only_shard b s d d'"
proof -
  let ?d = "upd_iocb b (\<lambda>x. x\<lparr>ib_task_mask := 0\<rparr>) d"
  obtain duty where duty: "arr_get (sh_replicas s) (sh_duty_index s) = Inr duty"
    using assms by (auto simp: dispatch_write_def Let_def)
  show ?thesis
  proof (cases "\<not> sh_is_primary_node s \<or> rp_status duty \<noteq> HS_OK")
    case True
    then show ?thesis using assms duty by (auto simp: dispatch_write_def Let_def intro: only_shard_refl)
  next
    case False
    then obtain d1 where d1: "setup_subtask b s (m_opcode (ib_cmd (dp_iocb ?d b))) [0..<sh_rep_count s] ?d = Inr d1"
      "submit_writes b s [0..<v_rep_count vol] d1 = Inr d'"
      using assms duty by (auto simp: dispatch_write_def Let_def)
    show ?thesis
      using only_shard_from [OF submit_writes_shard [OF d1(2)]] setup_submits [OF d1(1)] by simp
  qed
qed

lemma dispatch_read_shard:
  assumes "dispatch_read b vol s d = Inr (rc, d')"
  shows "only_shard b s d d'"
proof -
  let ?d = "upd_iocb b (\<lambda>x. x\<lparr>ib_task_mask := 0\<rparr>) d"
  obtain r where r: "arr_get (sh_replicas s) (sh_duty_index s) = Inr r"
    using assms by (auto simp: dispatch_read_def Let_def)
  show ?thesis
  proof (cases "rp_status r = HS_OK")
    case True
    note eq = assms [unfolded dispatch_read_def Let_def r bnd_simps if_P [OF True]]
    have "only_shard b s ?d d'"
      by (rule one_subtask_dispatch [OF eq]) (use r True in \<open>simp_all add: rep_writable_def\<close>)
    then show ?thesis by (rule only_shard_from) simp
  next
    case False
    then show ?thesis using assms r by (auto simp: dispatch_read_def Let_def intro: only_shard_refl)
  qed
qed

lemma dispatch_rep_write_shard:
  assumes "dispatch_rep_write b vol s d = Inr (rc, d')"
  shows "only_shard b s d d'"
proof -
  let ?d = "upd_iocb b (\<lambda>x. x\<lparr>ib_task_mask := 0\<rparr>) d"
  obtain r where r: "arr_get (sh_replicas s) (sh_duty_index s) = Inr r" "rep_writable r"
    using assms by (auto simp: dispatch_rep_write_def Let_def split: if_splits)
  note eq = assms [unfolded dispatch_rep_write_def Let_def r(1) bnd_simps if_P [OF r(2)]]
  have "only_shard b s ?d d'"
    by (rule one_subtask_dispatch [OF eq]) (use r in simp_all)
  then show ?thesis by (rule only_shard_from) simp
qed

lemma dispatch_op_shard: "dispatch_op b vol s d = Inr (rc, d') \<Longrightarrow> only_shard b s d d'"
  by (auto simp: dispatch_op_def Let_def split: if_splits
      dest!: dispatch_write_shard dispatch_read_shard dispatch_rep_write_shard elim!: only_shard_from)

lemma dispatch_reject_submits: "dispatch_reject b st ver d = Inr (rc, d') \<Longrightarrow> submits d' = submits d"
  by (auto simp: dispatch_reject_def dest: submits_reply)

text \<open>
  (C31) A request reaches a replica only through its volume: when \<open>dispatch_io\<close> gives sub
  tasks to replicas, the volume of the request is open, the client's metadata version
  is the one of the volume, the shard is the one that the offset names, and every
  replica that gets a sub task belongs to this shard and is in state OK or RECOVERYING.
  Only the number of the shard is tested: an offset inside the last shard and behind the
  end of the volume passes.
\<close>

theorem dispatch_io_checked:
  assumes "dispatch_io b d = Inr (rc, d')" and "submits d' \<noteq> submits d"
  shows "\<exists>vol s. map_of (dp_volumes d) (m_vol_id (ib_cmd (dp_iocb d b))) = Some vol \<and>
     v_meta_ver vol = ucast (m_meta_ver (ib_cmd (dp_iocb d b))) \<and>
     arr_get (v_shards vol)
       (unat (ucast (OFFSET_TO_SHARD_INDEX (m_offset (ib_cmd (dp_iocb d b)))) :: u32)) = Inr s \<and>
     only_shard b s d d'"
  using assms
  by (auto simp: dispatch_io_def Let_def split: option.splits if_splits
      dest!: dispatch_reject_submits dispatch_op_shard elim!: only_shard_from)


text \<open>A read on the only shard goes to the replica that this node is responsible for.\<close>

lemma sample_read_dispatched:
  "\<exists>d'. dispatch_io 5 (sample_dispatcher (sample_cmd S5_OP_READ 1 0) (sample_volume 1 1)) = Inr (0, d') \<and>
     submits d' = [Submit_replica 5 0 (sample_replica HS_OK 0)]"
  by (simp add: dispatch_io_def dispatch_op_def dispatch_read_def disp_sample_defs arr_get_def Let_def
      OFFSET_TO_SHARD_INDEX_def setup_one_subtask_def submit_replica_def disp_call_def op_code_values
      SNAP_SEQ_HEAD_def)

theorem dispatch_io_checked_witness:
  "\<exists>d' s. dispatch_io 5 (sample_dispatcher (sample_cmd S5_OP_READ 1 0) (sample_volume 1 1)) = Inr (0, d') \<and>
     arr_get (v_shards (sample_volume 1 1)) 0 = Inr s \<and>
     only_shard 5 s (sample_dispatcher (sample_cmd S5_OP_READ 1 0) (sample_volume 1 1)) d'"
proof -
  let ?d = "sample_dispatcher (sample_cmd S5_OP_READ 1 0) (sample_volume 1 1)"
  obtain d' where d': "dispatch_io 5 ?d = Inr (0, d')" "submits d' = [Submit_replica 5 0 (sample_replica HS_OK 0)]"
    using sample_read_dispatched by blast
  have new: "submits d' \<noteq> submits ?d" using d'(2) by (simp add: sample_dispatcher_def)
  have vol: "map_of (dp_volumes ?d) (m_vol_id (ib_cmd (dp_iocb ?d 5))) = Some (sample_volume 1 1)"
    by (simp add: sample_dispatcher_def sample_cmd_def)
  have idx: "unat (ucast (OFFSET_TO_SHARD_INDEX (m_offset (ib_cmd (dp_iocb ?d 5)))) :: u32) = 0"
    by (simp add: sample_dispatcher_def sample_cmd_def OFFSET_TO_SHARD_INDEX_def)
  from dispatch_io_checked [OF d'(1) new] show ?thesis
    unfolding vol idx using d'(1) by auto
qed

text \<open>
  (C35) The bound of the shard number is off by one: a request whose offset is in the
  shard just behind the last one passes the check, and the array of shards is indexed
  outside its bounds.
\<close>

theorem dispatch_shard_off_by_one:
  assumes "map_of (dp_volumes d) (m_vol_id (ib_cmd (dp_iocb d b))) = Some vol"
    and "v_meta_ver vol = ucast (m_meta_ver (ib_cmd (dp_iocb d b)))"
    and "length (v_shards vol) = v_shard_count vol"
    and "unat (ucast (OFFSET_TO_SHARD_INDEX (m_offset (ib_cmd (dp_iocb d b)))) :: u32) = v_shard_count vol"
  shows "dispatch_io b d = Inl Out_of_bounds"
  using assms by (simp add: dispatch_io_def arr_get_def Let_def)

theorem dispatch_shard_off_by_one_witness:
  "dispatch_io 5 (sample_dispatcher (sample_cmd S5_OP_READ 1 (push_bit 36 1)) (sample_volume 1 1)) = Inl Out_of_bounds"
  by (rule dispatch_shard_off_by_one [where vol = "sample_volume 1 1"])
    (simp_all add: disp_sample_defs OFFSET_TO_SHARD_INDEX_def)

text \<open>
  The client's metadata version has 16 bits and is compared with the 64-bit version
  of the volume. From version 65536 on, every request on the volume is rejected.
\<close>

theorem dispatch_version_truncated:
  assumes "map_of (dp_volumes d) (m_vol_id (ib_cmd (dp_iocb d b))) = Some vol" and "2 ^ 16 \<le> unat (v_meta_ver vol)"
  shows "dispatch_io b d = dispatch_reject b MSG_STATUS_REOPEN (ucast (v_meta_ver vol)) d"
proof -
  have "unat (ucast w :: u64) < 2 ^ 16" for w :: u16
  proof -
    have "unat (ucast w :: u64) = unat w" by transfer simp
    then show ?thesis using unsigned_less [where ?'a = nat, of w] by simp
  qed
  then have "(ucast (m_meta_ver (ib_cmd (dp_iocb d b))) :: u64) \<noteq> v_meta_ver vol"
    using assms(2) by (metis linorder_not_less)
  then show ?thesis using assms(1) by (simp add: dispatch_io_def Let_def)
qed

theorem dispatch_version_truncated_witness:
  "dispatch_io 5 (sample_dispatcher (sample_cmd S5_OP_READ 0 0) (sample_volume 1 0x10000)) =
     dispatch_reject 5 MSG_STATUS_REOPEN 0 (sample_dispatcher (sample_cmd S5_OP_READ 0 0) (sample_volume 1 0x10000))"
proof -
  let ?d = "sample_dispatcher (sample_cmd S5_OP_READ 0 0) (sample_volume 1 0x10000)"
  have ver: "v_meta_ver (sample_volume 1 0x10000) = 0x10000" by (simp add: sample_volume_def)
  have cast: "(ucast (0x10000 :: u64) :: u16) = 0" by code_simp
  have vol: "map_of (dp_volumes ?d) (m_vol_id (ib_cmd (dp_iocb ?d 5))) = Some (sample_volume 1 0x10000)"
    by (simp add: sample_dispatcher_def sample_cmd_def)
  show ?thesis using dispatch_version_truncated [OF vol] unfolding ver cast by simp
qed

text \<open>
  A read on a replica that is not in state OK is dropped: no sub task is set up, no
  error is reported and no reply is sent, although the dispatcher returns success.
\<close>

theorem dispatch_read_dropped:
  assumes "arr_get (sh_replicas s) (sh_duty_index s) = Inr r" and "rp_status r \<noteq> HS_OK"
  shows "\<exists>d'. dispatch_read b vol s d = Inr (0, d') \<and> dp_acts d' = dp_acts d \<and>
     ib_task_mask (dp_iocb d' b) = 0 \<and> ib_ref_count (dp_iocb d' b) = ib_ref_count (dp_iocb d b)"
  using assms by (simp add: dispatch_read_def Let_def)

theorem dispatch_read_dropped_witness:
  "\<exists>d'. dispatch_read 5 (sample_volume 1 1) ((sample_shard HS_ERROR True)\<lparr>sh_duty_index := 1\<rparr>)
       (sample_dispatcher (sample_cmd S5_OP_READ 1 0) (sample_volume 1 1)) = Inr (0, d') \<and> dp_acts d' = []"
  using dispatch_read_dropped [of "(sample_shard HS_ERROR True)\<lparr>sh_duty_index := 1\<rparr>" "sample_replica HS_ERROR 1" 5
      "sample_volume 1 1" "sample_dispatcher (sample_cmd S5_OP_READ 1 0) (sample_volume 1 1)"]
  by (auto simp: arr_get_def disp_sample_defs)

end
