(* ===== verification/Event_Queue.thy ===== *)
theory Event_Queue
  imports Mem_Pool
begin

text \<open>
  \<open>PfEventQueue\<close> of \<open>common/src/pf_event_queue.cpp\<close> and the event loop of
  \<open>PfEventThread\<close> (\<open>common/src/pf_event_thread.cpp\<close>): two ring buffers, one that takes
  the posted events and one that the thread works on, and an event file descriptor that
  counts the posts. The spin lock makes each operation atomic.
\<close>

section \<open>The queue\<close>

record 'e event_queue =
  eq_queue1 :: "'e fixed_queue"
  eq_queue2 :: "'e fixed_queue"
  eq_current_first :: bool
  eq_fd_count :: nat
  eq_semaphore :: bool

definition eq_current :: "'e event_queue \<Rightarrow> 'e fixed_queue" where
  "eq_current q = (if eq_current_first q then eq_queue1 q else eq_queue2 q)"

definition eq_other :: "'e event_queue \<Rightarrow> 'e fixed_queue" where
  "eq_other q = (if eq_current_first q then eq_queue2 q else eq_queue1 q)"

definition set_current :: "'e fixed_queue \<Rightarrow> 'e event_queue \<Rightarrow> 'e event_queue" where
  "set_current c q = (if eq_current_first q then q\<lparr>eq_queue1 := c\<rparr> else q\<lparr>eq_queue2 := c\<rparr>)"

text \<open>\<open>init\<close>: the error number of \<open>eventfd\<close> and the outcomes of the two allocations.\<close>

definition eq_init ::
  "int \<Rightarrow> bool \<Rightarrow> bool \<Rightarrow> 'e \<Rightarrow> int \<Rightarrow> bool \<Rightarrow> 'e event_queue \<Rightarrow> int \<times> 'e event_queue" where
  "eq_init fd_err ok1 ok2 zero sz semaphore_mode q =
     (if fd_err \<noteq> 0 then (- fd_err, q)
      else let q0 = q\<lparr>eq_fd_count := 0, eq_semaphore := semaphore_mode\<rparr>
           in case q_init ok1 zero sz (eq_queue1 q0) of (rc, q1) \<Rightarrow>
                if rc \<noteq> 0 then (rc, q0\<lparr>eq_queue1 := q1\<rparr>)
                else case q_init ok2 zero sz (eq_queue2 q0) of (rc2, q2) \<Rightarrow>
                  if rc2 \<noteq> 0 then (rc2, q0\<lparr>eq_queue1 := q_destroy q1, eq_queue2 := q2\<rparr>)
                  else (0, q0\<lparr>eq_queue1 := q1, eq_queue2 := q2, eq_current_first := True\<rparr>))"

definition eq_destroy :: "'e event_queue \<Rightarrow> 'e event_queue" where
  "eq_destroy q = q\<lparr>eq_queue1 := q_destroy (eq_queue1 q), eq_queue2 := q_destroy (eq_queue2 q)\<rparr>"

text \<open>
  Posting: the event is stored under the lock, then the file descriptor is written. The two
  are one step here; a reader between them takes the event early and finds an empty queue
  for the later count, as the comment of \<open>get_events\<close> allows.
\<close>

definition post_event :: "'e \<Rightarrow> 'e event_queue \<Rightarrow> int \<times> 'e event_queue" where
  "post_event ev q =
     (case enqueue_nolock (eq_current q) ev of (rc, c) \<Rightarrow>
        if rc \<noteq> 0 then (rc, q)
        else (0, (set_current c q)\<lparr>eq_fd_count := eq_fd_count q + 1\<rparr>))"

text \<open>
  Reading the event file descriptor blocks (\<open>None\<close>) while its counter is 0. It returns the
  counter and resets it or, in semaphore mode, counts it down by one.
\<close>

definition fd_read :: "'e event_queue \<Rightarrow> 'e event_queue option" where
  "fd_read q =
     (if eq_fd_count q = 0 then None
      else Some (q\<lparr>eq_fd_count := (if eq_semaphore q then eq_fd_count q - 1 else 0)\<rparr>))"

text \<open>
  \<open>get_events\<close> hands out the current queue and makes the other one current: after the
  call, the queue that was handed out is \<open>eq_other\<close>.
\<close>

definition get_events :: "'e event_queue \<Rightarrow> 'e event_queue option" where
  "get_events q = map_option (\<lambda>q1. q1\<lparr>eq_current_first := \<not> eq_current_first q1\<rparr>) (fd_read q)"

definition get_event :: "'e event_queue \<Rightarrow> (int \<times> 'e option \<times> 'e event_queue) option" where
  "get_event q =
     map_option (\<lambda>q1.
       if q_is_empty (eq_current q1) then (- ENOENT, None, q1)
       else let c = eq_current q1
            in (0, Some (q_data c ! nat (q_head c)),
                set_current (c\<lparr>q_head := (q_head c + 1) mod q_depth c\<rparr>) q1)) (fd_read q)"

section \<open>The event loop\<close>

text \<open>
  The inner loop of \<open>thread_proc_eventq\<close>, with the events in the order of processing. The
  event that ends the thread, \<open>EVT_THREAD_EXIT\<close>, is not among them.
\<close>

partial_function (option) drain :: "'e list \<Rightarrow> 'e fixed_queue \<Rightarrow> ('e list \<times> 'e fixed_queue) option" where
  "drain seen q =
     (if q_is_empty q then Some (seen, q)
      else drain (seen @ [q_data q ! nat (q_head q)]) (q\<lparr>q_head := (q_head q + 1) mod q_depth q\<rparr>))"

definition set_other :: "'e fixed_queue \<Rightarrow> 'e event_queue \<Rightarrow> 'e event_queue" where
  "set_other c q = (if eq_current_first q then q\<lparr>eq_queue2 := c\<rparr> else q\<lparr>eq_queue1 := c\<rparr>)"

text \<open>One round: \<open>None\<close> when the thread blocks.\<close>

definition thread_round :: "'e event_queue \<Rightarrow> ('e list \<times> 'e event_queue) option" where
  "thread_round q =
     Option.bind (get_events q) (\<lambda>q1.
       map_option (\<lambda>(evs, c). (evs, set_other c q1)) (drain [] (eq_other q1)))"

section \<open>Calls into the thread\<close>

text \<open>
  \<open>sync_invoke\<close> posts an event and waits on a semaphore that the thread posts after it has
  run the function. The version of the queue checks the result of the post, the one of
  the thread does not.
\<close>

datatype invoke_state = Returned int | Waiting

definition queue_sync_invoke :: "'e \<Rightarrow> 'e event_queue \<Rightarrow> invoke_state \<times> 'e event_queue" where
  "queue_sync_invoke ev q =
     (case post_event ev q of (rc, q1) \<Rightarrow> if rc \<noteq> 0 then (Returned rc, q1) else (Waiting, q1))"

definition thread_sync_invoke :: "'e \<Rightarrow> 'e event_queue \<Rightarrow> invoke_state \<times> 'e event_queue" where
  "thread_sync_invoke ev q = (case post_event ev q of (rc, q1) \<Rightarrow> (Waiting, q1))"

section \<open>The interface: a channel of events\<close>

datatype 'e chan_op = Post 'e | Round

text \<open>
  A run of posts and rounds; a round that blocks is skipped. The results are the accepted
  and the delivered events, in order.
\<close>

primrec chan_run ::
  "('e \<Rightarrow> 'q \<Rightarrow> int \<times> 'q) \<Rightarrow> ('q \<Rightarrow> ('e list \<times> 'q) option) \<Rightarrow> 'e chan_op list \<Rightarrow> 'q \<Rightarrow>
     'e list \<times> 'e list \<times> 'q" where
  "chan_run post rnd [] q = ([], [], q)"
| "chan_run post rnd (a # as) q =
     (case a of
        Post e \<Rightarrow>
          (case post e q of (rc, q1) \<Rightarrow>
             case chan_run post rnd as q1 of (acc, del, q2) \<Rightarrow> (if rc = 0 then e # acc else acc, del, q2))
      | Round \<Rightarrow>
          (case rnd q of
             None \<Rightarrow> chan_run post rnd as q
           | Some (evs, q1) \<Rightarrow>
               case chan_run post rnd as q1 of (acc, del, q2) \<Rightarrow> (acc, evs @ del, q2)))"

locale event_channel =
  fixes post :: "'e \<Rightarrow> 'q \<Rightarrow> int \<times> 'q"
    and rnd :: "'q \<Rightarrow> ('e list \<times> 'q) option"
    and pend :: "'q \<Rightarrow> 'e list"
    and inv :: "'q \<Rightarrow> bool"
  assumes post_ok: "inv q \<Longrightarrow> post e q = (0, q') \<Longrightarrow> inv q' \<and> pend q' = pend q @ [e]"
    and post_refused: "inv q \<Longrightarrow> post e q = (rc, q') \<Longrightarrow> rc \<noteq> 0 \<Longrightarrow> q' = q"
    and round_idle: "inv q \<Longrightarrow> pend q = [] \<Longrightarrow> rnd q = None"
    and round_all: "inv q \<Longrightarrow> pend q \<noteq> [] \<Longrightarrow> \<exists>q'. rnd q = Some (pend q, q') \<and> inv q' \<and> pend q' = []"
begin

lemma round_cases:
  assumes "inv q"
  shows "case rnd q of None \<Rightarrow> pend q = [] | Some (evs, q') \<Rightarrow> evs = pend q \<and> inv q' \<and> pend q' = []"
  using round_idle [OF assms] round_all [OF assms] by (cases "pend q = []") auto

lemma exactly_once:
  "inv q \<Longrightarrow> chan_run post rnd as q = (acc, del, q') \<Longrightarrow> del @ pend q' = pend q @ acc \<and> inv q'"
proof (induction as arbitrary: q acc del)
  case Nil
  then show ?case by simp
next
  case (Cons a as)
  show ?case
  proof (cases a)
    case (Post e)
    obtain rc q1 where p: "post e q = (rc, q1)" by (rule prod.exhaust)
    obtain acc1 del1 where r: "chan_run post rnd as q1 = (acc1, del1, q')"
      and acc: "acc = (if rc = 0 then e # acc1 else acc1)" "del = del1"
      using Cons.prems(2) Post p by (auto split: prod.splits)
    show ?thesis
    proof (cases "rc = 0")
      case True
      then have "inv q1 \<and> pend q1 = pend q @ [e]" using post_ok Cons.prems(1) p by blast
      then show ?thesis using Cons.IH [OF _ r] acc True by simp
    next
      case False
      then have "q1 = q" using post_refused Cons.prems(1) p by blast
      then show ?thesis using Cons.IH [OF _ r] acc False Cons.prems(1) by simp
    qed
  next
    case Round
    show ?thesis
    proof (cases "rnd q")
      case None
      then show ?thesis using Cons Round by simp
    next
      case (Some p)
      obtain evs q1 where p: "p = (evs, q1)" by (rule prod.exhaust)
      obtain del1 where r: "chan_run post rnd as q1 = (acc, del1, q')" and del: "del = evs @ del1"
        using Cons.prems(2) Round Some p by (auto split: prod.splits)
      have "evs = pend q \<and> inv q1 \<and> pend q1 = []"
        using round_cases [OF Cons.prems(1)] Some p by simp
      then show ?thesis using Cons.IH [OF _ r] del by simp
    qed
  qed
qed

lemma last_round_delivers_all:
  assumes "inv q" and "chan_run post rnd (as @ [Round]) q = (acc, del, q')"
  shows "del = pend q @ acc"
proof -
  have app: "chan_run post rnd (xs @ ys) q =
      (case chan_run post rnd xs q of (a1, d1, q1) \<Rightarrow>
       case chan_run post rnd ys q1 of (a2, d2, q2) \<Rightarrow> (a1 @ a2, d1 @ d2, q2))" for xs ys q
    by (induction xs arbitrary: q) (auto split: chan_op.splits option.splits prod.splits)
  obtain a1 d1 q1 where r: "chan_run post rnd as q = (a1, d1, q1)" by (metis prod_cases3)
  have e: "d1 @ pend q1 = pend q @ a1" "inv q1" using exactly_once [OF assms(1) r] by auto
  show ?thesis
    using assms(2) app [of as "[Round]" q] r e round_cases [OF e(2)]
    by (auto split: option.splits prod.splits)
qed

end

section \<open>The event queue is a channel\<close>

definition eq_inv :: "'e event_queue \<Rightarrow> bool" where
  "eq_inv q \<longleftrightarrow> q_inv (eq_current q) \<and> q_inv (eq_other q) \<and> q_list (eq_other q) = [] \<and>
     eq_fd_count q = length (q_list (eq_current q)) \<and> \<not> eq_semaphore q"

lemma eq_set_current [simp]:
  "eq_current (set_current c q) = c" "eq_other (set_current c q) = eq_other q"
  "eq_current (q\<lparr>eq_fd_count := n\<rparr>) = eq_current q" "eq_other (q\<lparr>eq_fd_count := n\<rparr>) = eq_other q"
  "eq_semaphore (set_current c q) = eq_semaphore q" "eq_fd_count (set_current c q) = eq_fd_count q"
  by (simp_all add: eq_current_def eq_other_def set_current_def)

lemma eq_set_other [simp]:
  "eq_current (set_other c q) = eq_current q" "eq_other (set_other c q) = c"
  "eq_semaphore (set_other c q) = eq_semaphore q" "eq_fd_count (set_other c q) = eq_fd_count q"
  by (simp_all add: eq_current_def eq_other_def set_other_def)

lemma eq_swap:
  "eq_current (q\<lparr>eq_current_first := \<not> eq_current_first q\<rparr>) = eq_other q"
  "eq_other (q\<lparr>eq_current_first := \<not> eq_current_first q\<rparr>) = eq_current q"
  by (simp_all add: eq_current_def eq_other_def)

lemma enqueue_nolock_eq: "enqueue_nolock q x = enqueue q x"
  by (simp add: enqueue_nolock_def enqueue_def)

lemma drain_all:
  assumes "q_inv q"
  shows "\<exists>q'. drain seen q = Some (seen @ q_list q, q') \<and> q_inv q' \<and> q_list q' = [] \<and> q_cap q' = q_cap q"
  using assms
proof (induction "length (q_list q)" arbitrary: q seen)
  case 0
  then show ?case by (subst drain.simps) (simp add: q_is_empty_iff)
next
  case (Suc n)
  then obtain x xs where l: "q_list q = x # xs" by (cases "q_list q") auto
  let ?q = "q\<lparr>q_head := (q_head q + 1) mod q_depth q\<rparr>"
  have ne: "\<not> q_is_empty q" using l Suc.prems by (simp add: q_is_empty_iff)
  then have "dequeue q = Inr (q_data q ! nat (q_head q), ?q)"
    by (simp add: dequeue_def dequeue_nolock_def)
  then have d: "q_list q = (q_data q ! nat (q_head q)) # q_list ?q" "q_inv ?q" "q_cap ?q = q_cap q"
    using fsq.deq_some [OF Suc.prems] by blast+
  have "n = length (q_list ?q)" using Suc.hyps(2) d(1) by simp
  from Suc.hyps(1) [OF this d(2), of "seen @ [q_data q ! nat (q_head q)]"] show ?case
    using ne d(1,3) by (subst drain.simps) auto
qed

interpretation evq: event_channel post_event thread_round "\<lambda>q. q_list (eq_current q)" eq_inv
proof
  fix q q' :: "'a event_queue" and e rc
  assume inv: "eq_inv q"
  then have c: "q_inv (eq_current q)" by (simp add: eq_inv_def)
  show "eq_inv q' \<and> q_list (eq_current q') = q_list (eq_current q) @ [e]" if "post_event e q = (0, q')"
  proof -
    obtain r c' where e: "enqueue (eq_current q) e = (r, c')" by (rule prod.exhaust)
    have r: "r = 0" and q': "q' = (set_current c' q)\<lparr>eq_fd_count := eq_fd_count q + 1\<rparr>"
      using that e by (auto simp: post_event_def enqueue_nolock_eq split: if_splits)
    have "length (q_list (eq_current q)) < q_cap (eq_current q)"
      using fsq.enq_full [OF c] fsq.within_cap [OF c] e r by (cases "length (q_list (eq_current q)) = q_cap (eq_current q)") auto
    from fsq.enq_room [OF c this e] show ?thesis using q' inv by (simp add: eq_inv_def)
  qed
  show "q' = q" if "post_event e q = (rc, q')" and "rc \<noteq> 0"
    using that by (auto simp: post_event_def split: prod.splits if_splits)
  show "thread_round q = None" if "q_list (eq_current q) = []"
    using inv that by (simp add: thread_round_def get_events_def fd_read_def eq_inv_def)
  show "\<exists>q'. thread_round q = Some (q_list (eq_current q), q') \<and> eq_inv q' \<and> q_list (eq_current q') = []"
    if ne: "q_list (eq_current q) \<noteq> []"
  proof -
    obtain c' where d: "drain [] (eq_current q) = Some (q_list (eq_current q), c')" "q_inv c'" "q_list c' = []"
      using drain_all [OF c, of "[]"] by auto
    let ?q = "q\<lparr>eq_fd_count := 0, eq_current_first := \<not> eq_current_first q\<rparr>"
    have "get_events q = Some ?q" using inv ne by (simp add: get_events_def fd_read_def eq_inv_def)
    moreover have "eq_other ?q = eq_current q" "eq_current ?q = eq_other q"
      by (simp_all add: eq_current_def eq_other_def)
    ultimately show ?thesis using inv d by (simp add: thread_round_def eq_inv_def)
  qed
qed

section \<open>Properties\<close>

text \<open>
  (C29) Events are delivered exactly once and in order: for every interleaving \<open>as\<close> of
  posts and rounds of the thread on a well-formed queue, the delivered events followed by
  those still pending are the events that were pending before followed by the accepted
  ones, in the order of the posts; after a final round nothing is pending, so no accepted
  event waits for another post. A round on a non-empty queue never blocks.
\<close>

theorem events_exactly_once:
  assumes "eq_inv q" and "chan_run post_event thread_round as q = (acc, del, q')"
  shows "del @ q_list (eq_current q') = q_list (eq_current q) @ acc \<and> eq_inv q' \<and>
     (q_list (eq_current q') \<noteq> [] \<longrightarrow>
       (\<exists>q2. thread_round q' = Some (q_list (eq_current q'), q2) \<and> q_list (eq_current q2) = []))"
  using evq.exactly_once [OF assms] evq.round_all [of q'] by blast

definition example_events :: "int event_queue" where
  "example_events = snd (eq_init 0 True True 0 2 False
     \<lparr>eq_queue1 = q_destroy \<lparr>q_tail = 0, q_head = 0, q_depth = 0, q_data = []\<rparr>,
      eq_queue2 = q_destroy \<lparr>q_tail = 0, q_head = 0, q_depth = 0, q_data = []\<rparr>,
      eq_current_first = True, eq_fd_count = 0, eq_semaphore = False\<rparr>)"

lemma example_events_inv: "eq_inv example_events"
  by (simp add: example_events_def eq_init_def q_init_def q_destroy_def eq_inv_def eq_current_def eq_other_def
      q_inv_def q_list_def q_count_def QUEUE_COUNT_def)

theorem events_exactly_once_witness:
  "\<exists>acc del q'. chan_run post_event thread_round [Post 7, Post 8, Post 9, Round] example_events = (acc, del, q') \<and>
     del @ q_list (eq_current q') = acc"
proof -
  obtain acc del q' where r:
    "chan_run post_event thread_round [Post 7, Post 8, Post 9, Round] example_events = (acc, del, q')"
    by (metis prod_cases3)
  have "q_list (eq_current example_events) = []"
    by (simp add: example_events_def eq_init_def q_init_def eq_current_def q_list_def q_count_def QUEUE_COUNT_def)
  then show ?thesis using events_exactly_once [OF example_events_inv r] r by auto
qed

text \<open>
  \<open>PfEventThread::sync_invoke\<close> on a full queue waits although its event was not
  posted: the queue is unchanged, so no round of the thread ever runs the function. The
  version of the queue returns \<open>-EAGAIN\<close>.
\<close>

theorem sync_invoke_lost:
  assumes "eq_inv q" and "length (q_list (eq_current q)) = q_cap (eq_current q)"
  shows "thread_sync_invoke ev q = (Waiting, q) \<and> queue_sync_invoke ev q = (Returned (- EAGAIN), q)"
proof -
  have "enqueue_nolock (eq_current q) ev = (- EAGAIN, eq_current q)"
    using assms fsq.enq_full [of "eq_current q" ev] by (simp add: enqueue_nolock_eq eq_inv_def)
  then show ?thesis by (simp add: thread_sync_invoke_def queue_sync_invoke_def post_event_def)
qed

definition full_events :: "int event_queue" where
  "full_events = \<lparr>eq_queue1 = \<lparr>q_tail = 1, q_head = 0, q_depth = 2, q_data = [4, 0]\<rparr>,
     eq_queue2 = \<lparr>q_tail = 0, q_head = 0, q_depth = 2, q_data = [0, 0]\<rparr>,
     eq_current_first = True, eq_fd_count = 1, eq_semaphore = False\<rparr>"

theorem sync_invoke_lost_witness: "thread_sync_invoke 5 full_events = (Waiting, full_events)"
  using sync_invoke_lost [of full_events 5]
  by (simp add: full_events_def eq_inv_def eq_current_def eq_other_def q_inv_def q_list_def q_count_def
      QUEUE_COUNT_def q_slot_def q_cap_def)

end
