(* ===== verification/Io_Engine.thy ===== *)
theory Io_Engine
  imports Startup
begin

text \<open>
  \<open>PfAioEngine\<close> of \<open>common/src/pf_ioengine.cpp\<close>: requests are prepared into a batch that
  \<open>io_submit\<close> hands to the kernel, and a polling thread completes them. The kernel is the
  list of the requests that it has accepted; the result of an \<open>io_submit\<close> call comes from
  outside.
\<close>

section \<open>Batches\<close>

datatype aio_op = Aio_read | Aio_write

record aio_req =
  ar_task :: io_sub_task
  ar_op :: aio_op
  ar_offset :: u64
  ar_len :: u32

record aio_engine =
  ae_batch :: "aio_req list"
  ae_kernel :: "aio_req list"
  ae_results :: "nat \<Rightarrow> int"
  ae_calls :: nat

definition BATCH_IO_CNT :: nat where "BATCH_IO_CNT = 512"

text \<open>
  \<open>io_submit\<close> on \<open>n\<close> requests returns the number \<open>k\<close> of requests that the kernel took,
  the first ones, or a negative error number.
\<close>

definition io_submit :: "aio_req list \<Rightarrow> aio_engine \<Rightarrow> int \<times> aio_engine" where
  "io_submit rs e =
     (let k = ae_results e (ae_calls e); e1 = e\<lparr>ae_calls := ae_calls e + 1\<rparr>
      in if k < 0 then (k, e1)
         else (min k (int (length rs)), e1\<lparr>ae_kernel := ae_kernel e1 @ take (nat k) rs\<rparr>))"

definition submit_batch :: "aio_engine \<Rightarrow> int \<times> aio_engine" where
  "submit_batch e =
     (if ae_batch e = [] then (0, e)
      else case io_submit (ae_batch e) e of (rc, e1) \<Rightarrow>
        if rc \<noteq> int (length (ae_batch e)) then (rc, e1) else (0, e1\<lparr>ae_batch := []\<rparr>))"

definition aio_prep :: "io_sub_task \<Rightarrow> u64 \<Rightarrow> u32 \<Rightarrow> aio_req" where
  "aio_prep io off len = \<lparr>ar_task = io, ar_op = (if IS_READ_OP (io_opcode io) then Aio_read else Aio_write),
     ar_offset = off, ar_len = len\<rparr>"

text \<open>The array has \<open>BATCH_IO_CNT\<close> slots; writing behind it is the branch \<open>Out_of_bounds\<close>.\<close>

definition submit_io :: "io_sub_task \<Rightarrow> u64 \<Rightarrow> u32 \<Rightarrow> aio_engine \<Rightarrow> fault + int \<times> aio_engine" where
  "submit_io io off len e =
     (if BATCH_IO_CNT \<le> length (ae_batch e) then Inl Out_of_bounds
      else
        let e1 = e\<lparr>ae_batch := ae_batch e @ [aio_prep io off len]\<rparr>
        in if length (ae_batch e1) \<ge> BATCH_IO_CNT div 2
           then (if length (ae_batch e1) \<ge> BATCH_IO_CNT then Inl Fatal_exit else Inr (submit_batch e1))
           else Inr (0, e1))"

definition submit_cow_io :: "io_sub_task \<Rightarrow> u64 \<Rightarrow> u32 \<Rightarrow> aio_engine \<Rightarrow> int \<times> aio_engine" where
  "submit_cow_io io off len e = io_submit [aio_prep io off len] e"

section \<open>Completion\<close>

text \<open>
  What the polling thread does with a finished request: the status with which the task is
  completed, or waking the copy on write. \<open>len\<close> and \<open>res\<close> are the results in the event;
  \<open>expected\<close> is the length in the command or the size of the copy.
\<close>

datatype aio_done = Done u16 | Cow_error u16 | Cow_wake

definition aio_complete :: "u8 \<Rightarrow> int \<Rightarrow> int \<Rightarrow> int \<Rightarrow> fault + aio_done" where
  "aio_complete op expected len res =
     (if op = S5_OP_READ \<or> op = S5_OP_WRITE \<or> op = S5_OP_REPLICATE_WRITE
      then Inr (Done (if len \<noteq> expected \<or> res < 0 then MSG_STATUS_AIOERROR else MSG_STATUS_SUCCESS))
      else if op = S5_OP_COW_READ \<or> op = S5_OP_COW_WRITE
      then Inr (if len \<noteq> expected \<or> res < 0 then Cow_error MSG_STATUS_AIOERROR else Cow_wake)
      else Inl Fatal_exit)"

section \<open>Requests are handed to the kernel once and in order\<close>

text \<open>A run of requests and batch commits, as the store thread makes them.\<close>

datatype eng_op = Eng_io io_sub_task u64 u32 | Eng_commit

primrec eng_run :: "eng_op list \<Rightarrow> aio_engine \<Rightarrow> fault + aio_engine" where
  "eng_run [] e = Inr e"
| "eng_run (a # as) e =
     bnd (case a of Eng_io io off len \<Rightarrow> submit_io io off len e | Eng_commit \<Rightarrow> Inr (submit_batch e))
       (\<lambda>(rc, e1). eng_run as e1)"

primrec eng_reqs :: "eng_op list \<Rightarrow> aio_req list" where
  "eng_reqs [] = []"
| "eng_reqs (a # as) = (case a of Eng_io io off len \<Rightarrow> [aio_prep io off len] | Eng_commit \<Rightarrow> []) @ eng_reqs as"

definition kernel_takes_all :: "aio_engine \<Rightarrow> bool" where
  "kernel_takes_all e \<longleftrightarrow> (\<forall>n. int BATCH_IO_CNT \<le> ae_results e n)"

lemma submit_batch_all:
  assumes "kernel_takes_all e" and "length (ae_batch e) < BATCH_IO_CNT"
  shows "submit_batch e = (0, snd (submit_batch e)) \<and> ae_batch (snd (submit_batch e)) = [] \<and>
     ae_kernel (snd (submit_batch e)) = ae_kernel e @ ae_batch e \<and> kernel_takes_all (snd (submit_batch e))"
proof -
  have k: "int BATCH_IO_CNT \<le> ae_results e (ae_calls e)" using assms(1) by (simp add: kernel_takes_all_def)
  then have "length (ae_batch e) \<le> nat (ae_results e (ae_calls e))" "\<not> ae_results e (ae_calls e) < 0"
    "min (ae_results e (ae_calls e)) (int (length (ae_batch e))) = int (length (ae_batch e))"
    using assms(2) by auto
  then show ?thesis using assms(1)
    by (auto simp: submit_batch_def io_submit_def Let_def kernel_takes_all_def)
qed

lemma eng_run_all:
  assumes "kernel_takes_all e" and "length (ae_batch e) < BATCH_IO_CNT div 2"
  shows "\<exists>e'. eng_run as e = Inr e' \<and> length (ae_batch e') < BATCH_IO_CNT div 2 \<and>
     ae_kernel e' @ ae_batch e' = ae_kernel e @ ae_batch e @ eng_reqs as \<and> kernel_takes_all e'"
  using assms
proof (induction as arbitrary: e)
  case Nil
  then show ?case by simp
next
  case (Cons a as)
  let ?P = "\<lambda>e1 r. length (ae_batch e1) < BATCH_IO_CNT div 2 \<and> kernel_takes_all e1 \<and>
     ae_kernel e1 @ ae_batch e1 = ae_kernel e @ ae_batch e @ r"
  have "\<exists>rc e1. (case a of Eng_io io off len \<Rightarrow> submit_io io off len e | Eng_commit \<Rightarrow> Inr (submit_batch e)) = Inr (rc, e1) \<and>
     ?P e1 (case a of Eng_io io off len \<Rightarrow> [aio_prep io off len] | Eng_commit \<Rightarrow> [])"
  proof (cases a)
    case (Eng_io io off len)
    let ?e = "e\<lparr>ae_batch := ae_batch e @ [aio_prep io off len]\<rparr>"
    have k: "kernel_takes_all ?e" using Cons.prems(1) by (simp add: kernel_takes_all_def)
    have l: "length (ae_batch ?e) < BATCH_IO_CNT" using Cons.prems(2) by (simp add: BATCH_IO_CNT_def)
    show ?thesis
    proof (cases "length (ae_batch ?e) \<ge> BATCH_IO_CNT div 2")
      case True
      then show ?thesis using submit_batch_all [OF k l] Eng_io l Cons.prems(2)
        by (intro exI [of _ 0] exI [of _ "snd (submit_batch ?e)"])
          (simp add: submit_io_def Let_def BATCH_IO_CNT_def)
    next
      case False
      then show ?thesis using Eng_io k Cons.prems(2) l by (simp add: submit_io_def Let_def)
    qed
  next
    case Eng_commit
    have l: "length (ae_batch e) < BATCH_IO_CNT" using Cons.prems(2) by (simp add: BATCH_IO_CNT_def)
    show ?thesis using submit_batch_all [OF Cons.prems(1) l] Eng_commit
      by (intro exI [of _ 0] exI [of _ "snd (submit_batch e)"]) (simp add: BATCH_IO_CNT_def)
  qed
  then obtain rc e1 where
    1: "(case a of Eng_io io off len \<Rightarrow> submit_io io off len e | Eng_commit \<Rightarrow> Inr (submit_batch e)) = Inr (rc, e1)"
    and 2: "?P e1 (case a of Eng_io io off len \<Rightarrow> [aio_prep io off len] | Eng_commit \<Rightarrow> [])" by blast
  from Cons.IH [of e1] 2 obtain e' where
    "eng_run as e1 = Inr e'" "length (ae_batch e') < BATCH_IO_CNT div 2" "kernel_takes_all e'"
    "ae_kernel e' @ ae_batch e' = ae_kernel e1 @ ae_batch e1 @ eng_reqs as" by blast
  then show ?case using 1 2 by simp
qed

section \<open>Properties\<close>

text \<open>
  (C30) While the kernel accepts the batches it is given, every request of a run reaches
  the kernel exactly once and in the order of submission; at the end fewer than 256
  requests wait, and a commit leaves none. The batch array never overflows and the run
  does not end the process.
\<close>

theorem aio_exactly_once:
  assumes "kernel_takes_all e" and "length (ae_batch e) < BATCH_IO_CNT div 2"
  shows "\<exists>e'. eng_run (as @ [Eng_commit]) e = Inr e' \<and> ae_batch e' = [] \<and>
     ae_kernel e' = ae_kernel e @ ae_batch e @ eng_reqs as"
proof -
  have app: "eng_run (xs @ ys) e = bnd (eng_run xs e) (eng_run ys)" for xs ys e
  proof (induction xs arbitrary: e)
    case (Cons x xs)
    then show ?case
      by (cases "(case x of Eng_io io off len \<Rightarrow> submit_io io off len e | Eng_commit \<Rightarrow> Inr (submit_batch e))")
        (auto split: prod.splits)
  qed simp
  obtain e1 where e1: "eng_run as e = Inr e1" "length (ae_batch e1) < BATCH_IO_CNT div 2"
    "ae_kernel e1 @ ae_batch e1 = ae_kernel e @ ae_batch e @ eng_reqs as" "kernel_takes_all e1"
    using eng_run_all [OF assms] by blast
  have l: "length (ae_batch e1) < BATCH_IO_CNT" using e1(2) by (simp add: BATCH_IO_CNT_def)
  show ?thesis using submit_batch_all [OF e1(4) l] e1(1,3) by (simp add: app case_prod_beta)
qed

definition example_engine :: "int list \<Rightarrow> aio_engine" where
  "example_engine rs = \<lparr>ae_batch = [], ae_kernel = [], ae_results = (\<lambda>n. if n < length rs then rs ! n else 1000), ae_calls = 0\<rparr>"

definition example_task :: "nat \<Rightarrow> io_sub_task" where
  "example_task i = \<lparr>io_id = i, io_opcode = S5_OP_WRITE, io_rep_id = 0,
     io_cmd = \<lparr>m_opcode = S5_OP_WRITE, m_command_id = 0, m_snap_seq = 0, m_vol_id = 0, m_buf_addr = 0, m_rkey = 0,
       m_meta_ver = 0, m_offset = 0, m_length = 4096, m_command_seq = 0\<rparr>, io_data = []\<rparr>"

theorem aio_exactly_once_witness:
  "\<exists>e'. eng_run ([Eng_io (example_task 1) 0 4096, Eng_io (example_task 2) 4096 4096] @ [Eng_commit]) (example_engine []) = Inr e' \<and>
     map (io_id \<circ> ar_task) (ae_kernel e') = [1, 2]"
  using aio_exactly_once [of "example_engine []" "[Eng_io (example_task 1) 0 4096, Eng_io (example_task 2) 4096 4096]"]
  by (auto simp: example_engine_def kernel_takes_all_def BATCH_IO_CNT_def aio_prep_def example_task_def)

text \<open>
  A partly accepted batch is submitted twice: when the kernel takes \<open>k\<close> requests of
  a longer batch, the whole batch is kept, and the next successful commit hands the first
  \<open>k\<close> requests to the kernel again.
\<close>

theorem aio_partial_batch_twice:
  assumes "length (ae_batch e) < BATCH_IO_CNT" and "0 < k" and "k < length (ae_batch e)"
    and "ae_results e (ae_calls e) = int k" and "ae_results e (ae_calls e + 1) = int (length (ae_batch e))"
  shows "\<exists>e1 e2. submit_batch e = (int k, e1) \<and> submit_batch e1 = (0, e2) \<and>
     ae_kernel e2 = ae_kernel e @ take k (ae_batch e) @ ae_batch e"
  using assms by (auto simp: submit_batch_def io_submit_def Let_def)

theorem aio_partial_batch_twice_witness:
  "\<exists>e1 e2. submit_batch ((example_engine [1, 2])\<lparr>ae_batch := [aio_prep (example_task 1) 0 512, aio_prep (example_task 2) 512 512]\<rparr>) = (1, e1) \<and>
     submit_batch e1 = (0, e2) \<and> map (io_id \<circ> ar_task) (ae_kernel e2) = [1, 1, 2]"
  using aio_partial_batch_twice [of "(example_engine [1, 2])\<lparr>ae_batch := [aio_prep (example_task 1) 0 512, aio_prep (example_task 2) 512 512]\<rparr>" 1]
  by (auto simp: example_engine_def BATCH_IO_CNT_def aio_prep_def example_task_def)

end
