(* ===== verification/Error_Handler.thy ===== *)
theory Error_Handler
  imports Dispatcher
begin

text \<open>
  \<open>PfErrorHandler\<close> of \<open>pfs/src/pf_error_handler.cpp\<close>: an error of a replica is reported to
  the conductor, whose answer decides how the request is completed. The answers of the
  conductor come from outside.
\<close>

section \<open>Reporting\<close>

record error_reply =
  er_ret_code :: int
  er_action_code :: u16
  er_meta_ver :: u16

text \<open>
  \<open>eh_conductor\<close> is the cached address, empty when it must be looked up. What the lookup
  gives at attempt \<open>i\<close>, and what the conductor at an address answers then (\<open>None\<close> for no
  answer), comes from outside.
\<close>

record error_handler =
  eh_conductor :: string
  eh_attempts :: nat

record conductor_env =
  ce_lookup :: "nat \<Rightarrow> string"
  ce_answer :: "string \<Rightarrow> nat \<Rightarrow> error_reply option"

definition retry_times :: nat where
  "retry_times = 5"

text \<open>
  One attempt per round, the index counted by \<open>eh_attempts\<close>; the address is forgotten after
  every failure but the last. An answer with an error code throws an exception that nothing
  catches. An answer is taken to be a well-formed reply; the parser's exceptions for others
  are not modelled.
\<close>

primrec report_attempts ::
  "nat \<Rightarrow> conductor_env \<Rightarrow> error_reply \<Rightarrow> error_handler \<Rightarrow> fault + int \<times> error_reply \<times> error_handler" where
  "report_attempts 0 env r h = Inr (- 1, r, h)"
| "report_attempts (Suc n) env r h =
     (let i = eh_attempts h;
          ip = (if eh_conductor h = [] then ce_lookup env i else eh_conductor h);
          h1 = \<lparr>eh_conductor = ip, eh_attempts = i + 1\<rparr>
      in case ce_answer env ip i of
           Some a \<Rightarrow> if er_ret_code a \<noteq> 0 then Inl Runtime_error else Inr (0, a, h1)
         | None \<Rightarrow> report_attempts n env r (if i < retry_times - 1 then h1\<lparr>eh_conductor := []\<rparr> else h1))"

definition report_error_to_conductor ::
  "conductor_env \<Rightarrow> error_reply \<Rightarrow> error_handler \<Rightarrow> fault + int \<times> error_reply \<times> error_handler" where
  "report_error_to_conductor env r h = report_attempts retry_times env r (h\<lparr>eh_attempts := 0\<rparr>)"

text \<open>
  \<open>submit_error\<close> completes the sub task with the reply, also when there was no answer; \<open>r\<close>
  is then the content of the uninitialised variable.
\<close>

definition submit_error ::
  "conductor_env \<Rightarrow> error_reply \<Rightarrow> nat \<Rightarrow> nat \<Rightarrow> error_handler \<Rightarrow> dispatcher \<Rightarrow>
     fault + int \<times> error_handler \<times> dispatcher" where
  "submit_error env r b i h d =
     bnd (report_error_to_conductor env r h) (\<lambda>(rc, a, h1).
       Inr (0, h1, server_complete_with_metaver b i (er_action_code a) (er_meta_ver a) d))"

section \<open>Properties\<close>

text \<open>The address used at attempt \<open>i\<close>: only the first may use the cached one.\<close>

definition tried_ip :: "conductor_env \<Rightarrow> error_handler \<Rightarrow> nat \<Rightarrow> string" where
  "tried_ip env h i = (if i = 0 \<and> eh_conductor h \<noteq> [] then eh_conductor h else ce_lookup env i)"

abbreviation attempt :: "conductor_env \<Rightarrow> error_handler \<Rightarrow> nat \<Rightarrow> error_reply option" where
  "attempt env h i \<equiv> ce_answer env (tried_ip env h i) i"

lemma report_unrolled:
  "report_error_to_conductor env r h =
     (let answer = (\<lambda>i a. if er_ret_code a \<noteq> 0 then Inl Runtime_error
                         else Inr (0, a, \<lparr>eh_conductor = tried_ip env h i, eh_attempts = Suc i\<rparr>))
      in case attempt env h 0 of Some a \<Rightarrow> answer 0 a | None \<Rightarrow>
        (case attempt env h 1 of Some a \<Rightarrow> answer 1 a | None \<Rightarrow>
          (case attempt env h 2 of Some a \<Rightarrow> answer 2 a | None \<Rightarrow>
            (case attempt env h 3 of Some a \<Rightarrow> answer 3 a | None \<Rightarrow>
              (case attempt env h 4 of Some a \<Rightarrow> answer 4 a
               | None \<Rightarrow> Inr (- 1, r, \<lparr>eh_conductor = tried_ip env h 4, eh_attempts = 5\<rparr>))))))"
  by (simp add: report_error_to_conductor_def retry_times_def eval_nat_numeral tried_ip_def Let_def
      split: option.split)

text \<open>
  (C34) A report makes at most five attempts and takes the first answer of the
  conductor; an answer with an error code ends in an exception. When the conductor does
  not answer five times, the sub task is completed all the same, with the content of the
  uninitialised reply as its status.
\<close>

theorem error_report_ends:
  "(case report_error_to_conductor env r h of
      Inl f \<Rightarrow> f = Runtime_error \<and>
        (\<exists>n < 5. (\<exists>a. attempt env h n = Some a \<and> er_ret_code a \<noteq> 0) \<and> (\<forall>j < n. attempt env h j = None))
    | Inr (rc, a, h') \<Rightarrow>
        rc = 0 \<and> eh_attempts h' \<le> 5 \<and> attempt env h (eh_attempts h' - 1) = Some a \<and>
          (\<forall>j < eh_attempts h' - 1. attempt env h j = None) \<or>
        rc = - 1 \<and> eh_attempts h' = 5 \<and> a = r \<and> (\<forall>j < 5. attempt env h j = None) \<and>
          submit_error env r b i h d =
            Inr (0, h', server_complete_with_metaver b i (er_action_code r) (er_meta_ver r) d))"
  by (simp add: report_unrolled submit_error_def Let_def eval_nat_numeral All_less_Suc Ex_less_Suc
      split: option.split)

definition silent_conductor :: conductor_env where
  "silent_conductor = \<lparr>ce_lookup = (\<lambda>_. ''10.0.0.1''), ce_answer = (\<lambda>_ _. None)\<rparr>"

definition success_reply :: error_reply where
  "success_reply = \<lparr>er_ret_code = 0, er_action_code = MSG_STATUS_SUCCESS, er_meta_ver = 0\<rparr>"

theorem error_report_ends_witness:
  "case report_error_to_conductor silent_conductor success_reply \<lparr>eh_conductor = [], eh_attempts = 0\<rparr> of
     Inl f \<Rightarrow> False
   | Inr (rc, a, h') \<Rightarrow> rc = - 1 \<and> a = success_reply \<and>
       submit_error silent_conductor success_reply 5 0 \<lparr>eh_conductor = [], eh_attempts = 0\<rparr>
         (sample_dispatcher (sample_cmd S5_OP_READ 1 0) (sample_volume 1 1)) =
       Inr (0, h', server_complete_with_metaver 5 0 MSG_STATUS_SUCCESS 0
         (sample_dispatcher (sample_cmd S5_OP_READ 1 0) (sample_volume 1 1)))"
  using error_report_ends [where env = silent_conductor and r = success_reply and h = "\<lparr>eh_conductor = [], eh_attempts = 0\<rparr>" and b = 5 and i = 0 and
      d = "sample_dispatcher (sample_cmd S5_OP_READ 1 0) (sample_volume 1 1)"]
  by (auto simp: silent_conductor_def success_reply_def split: sum.splits prod.splits)

end
