(* ===== verification/Bg_Task.thy ===== *)
theory Bg_Task
  imports Pf_Prelude
begin

text \<open>
  \<open>BackgroundTaskManager\<close> of \<open>pfs/src/pf_bgtask_manager.cpp\<close> and the thread pool of
  \<open>pfs/include/pf_threadpool.h\<close> with the one thread the manager gives it, together with the
  two requests of \<open>pf_restful_api.cpp\<close> that use them: starting a recovery and asking for the
  status of a task. Identifiers are a C \<open>long\<close> counted up from 0, here an \<open>int\<close>.
\<close>

section \<open>Tasks\<close>

datatype TaskType = RECOVERY | SCRUB | GC

datatype TaskStatus = WAITING | RUNNING | SUCCEEDED | FAILED

definition TaskStatusToStr :: "TaskStatus \<Rightarrow> string" where
  "TaskStatusToStr st =
     (case st of WAITING \<Rightarrow> ''WAITING'' | RUNNING \<Rightarrow> ''RUNNING'' | SUCCEEDED \<Rightarrow> ''SUCCEEDED'' | FAILED \<Rightarrow> ''FAILED'')"

text \<open>\<open>bt_result\<close> is the return code in the reply the executor returned.\<close>

record bg_task =
  bt_id :: int
  bt_type :: TaskType
  bt_desc :: string
  bt_status :: TaskStatus
  bt_result :: "int option"

text \<open>
  What the thread of the pool is doing: waiting for the queue, holding a function it has
  taken from the queue and not called yet, inside the executor of a task, or behind it
  with the reply stored and the status not yet set.
\<close>

datatype worker = Idle | Popped int | Executing int | Replied int

text \<open>
  A value of \<open>bm_task_map\<close> is a pointer, \<open>None\<close> is NULL. \<open>bm_queue\<close> holds the committed
  functions, by the task each captured. \<open>bm_thrown\<close> is a ghost field: the tasks whose
  executor has thrown an exception.
\<close>

record bg_manager =
  bm_id_seed :: int
  bm_task_map :: "(int \<times> bg_task option) list"
  bm_queue :: "int list"
  bm_worker :: worker
  bm_thrown :: "int set"

definition bg_init :: bg_manager where
  "bg_init = \<lparr>bm_id_seed = 0, bm_task_map = [], bm_queue = [], bm_worker = Idle, bm_thrown = {}\<rparr>"

section \<open>Operations\<close>

definition initiate_task :: "TaskType \<Rightarrow> string \<Rightarrow> bg_manager \<Rightarrow> int \<times> bg_manager" where
  "initiate_task ty desc m =
     (let k = bm_id_seed m + 1;
          t = \<lparr>bt_id = k, bt_type = ty, bt_desc = desc, bt_status = WAITING, bt_result = None\<rparr>
      in (k, m\<lparr>bm_id_seed := k, bm_task_map := AList.update k (Some t) (bm_task_map m)\<rparr>))"

definition commit_task :: "int \<Rightarrow> bg_manager \<Rightarrow> bg_manager" where
  "commit_task k m = m\<lparr>bm_queue := bm_queue m @ [k]\<rparr>"

definition upd_task :: "int \<Rightarrow> (bg_task \<Rightarrow> bg_task) \<Rightarrow> bg_manager \<Rightarrow> bg_manager" where
  "upd_task k f m =
     (case map_of (bm_task_map m) k of
        Some (Some t) \<Rightarrow> m\<lparr>bm_task_map := AList.update k (Some (f t)) (bm_task_map m)\<rparr>
      | _ \<Rightarrow> m)"

text \<open>
  The worker loop and the committed function, one step for each access that another thread
  can see. The function is called through a \<open>std::packaged_task\<close>, which catches an exception
  of the executor and stores it in a future nobody asks: the rest of the function is skipped
  and the loop goes on. \<open>recovery_replica\<close> throws when another store answers with an error
  or with a reply that does not parse (\<open>query_store\<close>).
\<close>

definition worker_pop :: "bg_manager \<Rightarrow> bg_manager" where
  "worker_pop m =
     (case (bm_worker m, bm_queue m) of
        (Idle, k # ks) \<Rightarrow> m\<lparr>bm_queue := ks, bm_worker := Popped k\<rparr>
      | _ \<Rightarrow> m)"

definition worker_begin :: "bg_manager \<Rightarrow> bg_manager" where
  "worker_begin m =
     (case bm_worker m of
        Popped k \<Rightarrow> upd_task k (\<lambda>t. t\<lparr>bt_status := RUNNING\<rparr>) (m\<lparr>bm_worker := Executing k\<rparr>)
      | _ \<Rightarrow> m)"

definition worker_return :: "int \<Rightarrow> bg_manager \<Rightarrow> bg_manager" where
  "worker_return ret_code m =
     (case bm_worker m of
        Executing k \<Rightarrow> upd_task k (\<lambda>t. t\<lparr>bt_result := Some ret_code\<rparr>) (m\<lparr>bm_worker := Replied k\<rparr>)
      | _ \<Rightarrow> m)"

definition worker_finish :: "bg_manager \<Rightarrow> bg_manager" where
  "worker_finish m =
     (case bm_worker m of
        Replied k \<Rightarrow>
          upd_task k (\<lambda>t. t\<lparr>bt_status := (if bt_result t = Some 0 then SUCCEEDED else FAILED)\<rparr>)
            (m\<lparr>bm_worker := Idle\<rparr>)
      | _ \<Rightarrow> m)"

definition worker_throw :: "bg_manager \<Rightarrow> bg_manager" where
  "worker_throw m =
     (case bm_worker m of
        Executing k \<Rightarrow> m\<lparr>bm_worker := Idle, bm_thrown := insert k (bm_thrown m)\<rparr>
      | _ \<Rightarrow> m)"

text \<open>
  The requests. \<open>found\<close> says that this node has the disk the request names. \<open>operator[]\<close> of
  the map adds a NULL for an identifier it does not have.
\<close>

definition handle_recovery :: "bool \<Rightarrow> string \<Rightarrow> bg_manager \<Rightarrow> (int + int \<times> string) \<times> bg_manager" where
  "handle_recovery found desc m =
     (if \<not> found then (Inl (- ENOENT), m)
      else case initiate_task RECOVERY desc m of
             (k, m1) \<Rightarrow> (Inr (k, TaskStatusToStr WAITING), commit_task k m1))"

definition handle_query_task :: "int \<Rightarrow> bg_manager \<Rightarrow> (int + int \<times> string) \<times> bg_manager" where
  "handle_query_task k m =
     (case map_of (bm_task_map m) k of
        Some (Some t) \<Rightarrow> (Inr (bt_id t, TaskStatusToStr (bt_status t)), m)
      | Some None \<Rightarrow> (Inl (- ENOENT), m)
      | None \<Rightarrow> (Inl (- ENOENT), m\<lparr>bm_task_map := AList.update k None (bm_task_map m)\<rparr>))"

section \<open>Reachable managers\<close>

inductive bg_step :: "bg_manager \<Rightarrow> bg_manager \<Rightarrow> bool" where
  recovery: "bg_step m (snd (handle_recovery found desc m))"
| query: "bg_step m (snd (handle_query_task k m))"
| pop: "bg_step m (worker_pop m)"
| start: "bg_step m (worker_begin m)"
| return: "bg_step m (worker_return rc m)"
| finish: "bg_step m (worker_finish m)"
| throw: "bg_step m (worker_throw m)"

inductive bg_reachable :: "bg_manager \<Rightarrow> bool" where
  init: "bg_reachable bg_init"
| step: "bg_reachable m \<Longrightarrow> bg_step m m' \<Longrightarrow> bg_reachable m'"

inductive_cases bg_stepE: "bg_step m m'"

text \<open>The status of a task says where it is.\<close>

definition task_at :: "bg_manager \<Rightarrow> int \<Rightarrow> bg_task \<Rightarrow> bool" where
  "task_at m k t \<longleftrightarrow> bt_id t = k \<and>
     (bt_status t = WAITING \<longleftrightarrow> k \<in> set (bm_queue m) \<or> bm_worker m = Popped k) \<and>
     (bt_status t = RUNNING \<longleftrightarrow> bm_worker m = Executing k \<or> bm_worker m = Replied k \<or> k \<in> bm_thrown m) \<and>
     (bt_status t = SUCCEEDED \<longleftrightarrow> bt_result t = Some 0 \<and> bm_worker m \<noteq> Replied k) \<and>
     (bt_status t = FAILED \<longleftrightarrow> (\<exists>rc. rc \<noteq> 0 \<and> bt_result t = Some rc) \<and> bm_worker m \<noteq> Replied k) \<and>
     (bm_worker m = Replied k \<longrightarrow> bt_result t \<noteq> None)"

definition bg_tasks :: "bg_manager \<Rightarrow> int \<Rightarrow> bg_task option" where
  "bg_tasks m k = (case map_of (bm_task_map m) k of Some (Some t) \<Rightarrow> Some t | _ \<Rightarrow> None)"

fun worker_tasks :: "worker \<Rightarrow> int list" where
  "worker_tasks Idle = []"
| "worker_tasks (Popped k) = [k]"
| "worker_tasks (Executing k) = [k]"
| "worker_tasks (Replied k) = [k]"

text \<open>
  Tasks have exactly the identifiers handed out and are taken in this order; one that has
  thrown is behind the worker.
\<close>

definition bg_inv :: "bg_manager \<Rightarrow> bool" where
  "bg_inv m \<longleftrightarrow> 0 \<le> bm_id_seed m \<and>
     (\<forall>k. bg_tasks m k \<noteq> None \<longleftrightarrow> 0 < k \<and> k \<le> bm_id_seed m) \<and>
     (\<forall>k t. bg_tasks m k = Some t \<longrightarrow> task_at m k t) \<and>
     sorted_wrt (<) (worker_tasks (bm_worker m) @ bm_queue m) \<and>
     (\<forall>k \<in> set (worker_tasks (bm_worker m) @ bm_queue m) \<union> bm_thrown m. bg_tasks m k \<noteq> None) \<and>
     (\<forall>k \<in> set (worker_tasks (bm_worker m) @ bm_queue m). k \<notin> bm_thrown m)"

lemma bg_tasks_upd_task [simp]:
  "bg_tasks (upd_task k f m) j = (if j = k then map_option f (bg_tasks m k) else bg_tasks m j)"
  by (auto simp: upd_task_def bg_tasks_def update_conv' split: option.splits)

lemma upd_task_fields [simp]:
  "bm_queue (upd_task k f m) = bm_queue m" "bm_worker (upd_task k f m) = bm_worker m"
  "bm_id_seed (upd_task k f m) = bm_id_seed m" "bm_thrown (upd_task k f m) = bm_thrown m"
  by (auto simp: upd_task_def split: option.splits)

lemma bg_tasks_fields [simp]:
  "bg_tasks (m\<lparr>bm_queue := q\<rparr>) = bg_tasks m" "bg_tasks (m\<lparr>bm_worker := w\<rparr>) = bg_tasks m"
  "bg_tasks (m\<lparr>bm_id_seed := s\<rparr>) = bg_tasks m" "bg_tasks (m\<lparr>bm_thrown := x\<rparr>) = bg_tasks m"
  by (auto simp: bg_tasks_def fun_eq_iff)

lemma bg_inv_seed: "bg_inv m \<Longrightarrow> 0 \<le> bm_id_seed m"
  by (simp add: bg_inv_def)

lemma bg_inv_dom: "bg_inv m \<Longrightarrow> bg_tasks m k \<noteq> None \<longleftrightarrow> 0 < k \<and> k \<le> bm_id_seed m"
  by (simp add: bg_inv_def)

lemma bg_inv_sorted: "bg_inv m \<Longrightarrow> sorted_wrt (<) (worker_tasks (bm_worker m) @ bm_queue m)"
  by (simp add: bg_inv_def)

lemma bg_inv_member:
  "bg_inv m \<Longrightarrow> k \<in> set (worker_tasks (bm_worker m) @ bm_queue m) \<union> bm_thrown m \<Longrightarrow> 0 < k \<and> k \<le> bm_id_seed m"
  unfolding bg_inv_def by blast

lemma bg_inv_apart:
  "bg_inv m \<Longrightarrow> k \<in> set (worker_tasks (bm_worker m) @ bm_queue m) \<Longrightarrow> k \<notin> bm_thrown m"
  unfolding bg_inv_def by blast

lemma bg_inv_task: "bg_inv m \<Longrightarrow> bg_tasks m k = Some t \<Longrightarrow> task_at m k t"
  by (simp add: bg_inv_def)

text \<open>A step of the worker: it moves one task \<open>k\<close> and changes at most this task.\<close>

lemma bg_inv_moved:
  assumes inv: "bg_inv m" and seed: "bm_id_seed m' = bm_id_seed m"
    and dom: "\<And>j. bg_tasks m' j \<noteq> None \<longleftrightarrow> bg_tasks m j \<noteq> None"
    and new: "\<And>t. bg_tasks m' k = Some t \<Longrightarrow> task_at m' k t"
    and old: "\<And>j. j \<noteq> k \<Longrightarrow> bg_tasks m' j = bg_tasks m j"
      "\<And>j t. j \<noteq> k \<Longrightarrow> task_at m' j t = task_at m j t"
    and order: "sorted_wrt (<) (worker_tasks (bm_worker m') @ bm_queue m')"
    and sub: "set (worker_tasks (bm_worker m') @ bm_queue m') \<subseteq> set (worker_tasks (bm_worker m) @ bm_queue m)"
      "bm_thrown m' \<subseteq> bm_thrown m \<union> set (worker_tasks (bm_worker m) @ bm_queue m)"
      "set (worker_tasks (bm_worker m') @ bm_queue m') \<inter> bm_thrown m' = {}"
  shows "bg_inv m'"
proof -
  have "task_at m' j t" if "bg_tasks m' j = Some t" for j t
    using that new old bg_inv_task [OF inv, of j t] by (cases "j = k") simp_all
  moreover have "bg_tasks m' j \<noteq> None" if "j \<in> set (worker_tasks (bm_worker m') @ bm_queue m') \<union> bm_thrown m'" for j
    using that sub(1,2) bg_inv_member [OF inv, of j] bg_inv_dom [OF inv, of j] dom [of j] by blast
  ultimately show ?thesis
    unfolding bg_inv_def using seed bg_inv_seed [OF inv] bg_inv_dom [OF inv] dom order sub(3) by auto
qed

lemma bg_inv_init: "bg_inv bg_init"
  by (auto simp: bg_inv_def bg_init_def bg_tasks_def)

lemma bg_inv_query:
  assumes "bg_inv m"
  shows "bg_inv (snd (handle_query_task k m))"
proof -
  let ?m = "snd (handle_query_task k m)"
  have "bg_tasks ?m = bg_tasks m"
    by (auto simp: handle_query_task_def bg_tasks_def fun_eq_iff update_conv' split: option.splits)
  moreover have "bm_queue ?m = bm_queue m" "bm_worker ?m = bm_worker m" "bm_id_seed ?m = bm_id_seed m"
      "bm_thrown ?m = bm_thrown m"
    by (auto simp: handle_query_task_def split: option.splits)
  ultimately have "bg_inv ?m = bg_inv m" unfolding bg_inv_def task_at_def by (simp only:)
  with assms show ?thesis by simp
qed

lemma bg_inv_recovery:
  assumes inv: "bg_inv m"
  shows "bg_inv (snd (handle_recovery found desc m))"
proof (cases found)
  case True
  let ?m = "snd (handle_recovery True desc m)" and ?k = "bm_id_seed m + 1"
  have f: "bm_queue ?m = bm_queue m @ [?k]" "bm_worker ?m = bm_worker m" "bm_id_seed ?m = ?k"
      "bm_thrown ?m = bm_thrown m"
    by (simp_all add: handle_recovery_def initiate_task_def commit_task_def Let_def)
  have t: "bg_tasks ?m j = (if j = ?k
      then Some \<lparr>bt_id = ?k, bt_type = RECOVERY, bt_desc = desc, bt_status = WAITING, bt_result = None\<rparr>
      else bg_tasks m j)" for j
    by (simp add: handle_recovery_def initiate_task_def commit_task_def Let_def bg_tasks_def update_conv')
  have below: "j < ?k" if "j \<in> set (worker_tasks (bm_worker m) @ bm_queue m) \<union> bm_thrown m" for j
    using bg_inv_member [OF inv that] by simp
  then have k: "bm_worker m \<noteq> Executing ?k" "bm_worker m \<noteq> Replied ?k" "?k \<notin> bm_thrown m"
    by fastforce+
  have "task_at ?m j x" if "bg_tasks ?m j = Some x" for j x
    using that k bg_inv_task [OF inv, of j x] by (auto simp: t f task_at_def split: if_splits)
  moreover have "sorted_wrt (<) (worker_tasks (bm_worker ?m) @ bm_queue ?m)"
    using bg_inv_sorted [OF inv] below by (simp add: f sorted_wrt_append)
  moreover have "bg_tasks ?m j \<noteq> None \<longleftrightarrow> 0 < j \<and> j \<le> bm_id_seed ?m" for j
    using bg_inv_seed [OF inv] bg_inv_dom [OF inv, of j] by (auto simp: t f)
  ultimately show ?thesis
    using True below bg_inv_seed [OF inv] bg_inv_apart [OF inv] bg_inv_member [OF inv] k(3)
    unfolding bg_inv_def by (simp add: f) force
qed (use inv in \<open>simp add: handle_recovery_def\<close>)

lemma bg_inv_pop: "bg_inv m \<Longrightarrow> bg_inv (worker_pop m)"
proof (cases "bm_worker m = Idle \<and> bm_queue m \<noteq> []")
  case True
  assume inv: "bg_inv m"
  obtain k ks where q: "bm_worker m = Idle" "bm_queue m = k # ks" using True by (cases "bm_queue m") auto
  then have m': "worker_pop m = m\<lparr>bm_queue := ks, bm_worker := Popped k\<rparr>" by (simp add: worker_pop_def)
  show ?thesis unfolding m'
    by (rule bg_inv_moved [OF inv, where k = k])
      (use q bg_inv_sorted [OF inv] bg_inv_apart [OF inv] bg_inv_task [OF inv, of k] in \<open>auto simp: task_at_def\<close>)
next
  case False
  assume "bg_inv m"
  moreover have "worker_pop m = m" using False by (auto simp: worker_pop_def split: worker.splits list.splits)
  ultimately show ?thesis by simp
qed

text \<open>The other steps keep the queue and stay at the task \<open>k\<close> the worker has.\<close>

lemma bg_inv_worker:
  assumes inv: "bg_inv m" and w: "worker_tasks (bm_worker m) = [k]"
    and f: "bm_id_seed m' = bm_id_seed m" "bm_queue m' = bm_queue m"
      "worker_tasks (bm_worker m') = [k] \<or> bm_worker m' = Idle"
      "bm_thrown m' = bm_thrown m \<or> bm_worker m' = Idle \<and> bm_thrown m' = insert k (bm_thrown m)"
    and t: "\<And>j. bg_tasks m' j = (if j = k then map_option g (bg_tasks m k) else bg_tasks m j)"
      "\<And>t. task_at m k t \<Longrightarrow> k \<notin> set (bm_queue m) \<Longrightarrow> k \<notin> bm_thrown m \<Longrightarrow> task_at m' k (g t)"
  shows "bg_inv m'"
proof (rule bg_inv_moved [OF inv f(1), where k = k])
  have s: "sorted_wrt (<) (k # bm_queue m)" using bg_inv_sorted [OF inv] w by simp
  then have kq: "k \<notin> set (bm_queue m)" by auto
  have kt: "k \<notin> bm_thrown m" using bg_inv_apart [OF inv, of k] w by simp
  show "bg_tasks m' j \<noteq> None \<longleftrightarrow> bg_tasks m j \<noteq> None" for j by (simp add: t(1))
  show "task_at m' k x" if "bg_tasks m' k = Some x" for x
    using that t(2) bg_inv_task [OF inv, of k] kq kt by (auto simp: t(1))
  show "bg_tasks m' j = bg_tasks m j" if "j \<noteq> k" for j using that by (simp add: t(1))
  have "bm_worker m \<noteq> W j \<and> bm_worker m' \<noteq> W j" if "j \<noteq> k" "W \<in> {Popped, Executing, Replied}" for j W
    using that w f(3) by auto
  then show "task_at m' j x = task_at m j x" if "j \<noteq> k" for j x
    using that f(2,4) unfolding task_at_def by auto
  show "sorted_wrt (<) (worker_tasks (bm_worker m') @ bm_queue m')" using f(2,3) s by auto
  show "set (worker_tasks (bm_worker m') @ bm_queue m') \<subseteq> set (worker_tasks (bm_worker m) @ bm_queue m)"
    using f(2,3) w by auto
  show "bm_thrown m' \<subseteq> bm_thrown m \<union> set (worker_tasks (bm_worker m) @ bm_queue m)" using f(4) w by auto
  show "set (worker_tasks (bm_worker m') @ bm_queue m') \<inter> bm_thrown m' = {}"
    using f bg_inv_apart [OF inv] w kq by auto
qed

lemma bg_inv_begin: "bg_inv m \<Longrightarrow> bg_inv (worker_begin m)"
  by (cases "bm_worker m")
    (auto simp: worker_begin_def task_at_def intro!: bg_inv_worker [where m = m and g = "\<lambda>t. t\<lparr>bt_status := RUNNING\<rparr>"])

lemma bg_inv_return: "bg_inv m \<Longrightarrow> bg_inv (worker_return rc m)"
  by (cases "bm_worker m")
    (auto simp: worker_return_def task_at_def intro!: bg_inv_worker [where m = m and g = "\<lambda>t. t\<lparr>bt_result := Some rc\<rparr>"])

lemma bg_inv_finish: "bg_inv m \<Longrightarrow> bg_inv (worker_finish m)"
  by (cases "bm_worker m")
    (auto simp: worker_finish_def task_at_def
      intro!: bg_inv_worker [where m = m and g = "\<lambda>t. t\<lparr>bt_status := (if bt_result t = Some 0 then SUCCEEDED else FAILED)\<rparr>"])

lemma bg_inv_throw: "bg_inv m \<Longrightarrow> bg_inv (worker_throw m)"
  by (cases "bm_worker m")
    (auto simp: worker_throw_def task_at_def option.map_id intro!: bg_inv_worker [where m = m and g = id])

lemma bg_inv_step: "bg_step m m' \<Longrightarrow> bg_inv m \<Longrightarrow> bg_inv m'"
  by (elim bg_stepE)
    (simp_all add: bg_inv_recovery bg_inv_query bg_inv_pop bg_inv_begin bg_inv_return bg_inv_finish bg_inv_throw)

lemma bg_inv_reachable: "bg_reachable m \<Longrightarrow> bg_inv m"
  by (induction rule: bg_reachable.induct) (auto simp: bg_inv_init intro: bg_inv_step)

text \<open>
  A task that has thrown stays where it is: the set only grows, and the result is never set.
\<close>

lemma bg_step_thrown:
  assumes "bg_step m m'"
  shows "bm_thrown m \<subseteq> bm_thrown m'"
  using assms
  by (elim bg_stepE)
    (auto simp: handle_recovery_def initiate_task_def commit_task_def handle_query_task_def worker_pop_def worker_begin_def
      worker_return_def worker_finish_def worker_throw_def Let_def split: option.splits worker.splits list.splits)

section \<open>Properties\<close>

text \<open>
  (C33) In every reachable manager the status that a query reports for a task says where the
  task is: WAITING from its creation until the single thread calls its function, SUCCEEDED
  or FAILED by the return code once the thread is done with the reply, and RUNNING while the
  thread executes it, but also for ever after an exception of its executor: after any
  further steps a task that has thrown is still reported as RUNNING. At most one task
  is executed at a time, no task is queued twice, and tasks are queued in the order of their
  identifiers.
\<close>

theorem bg_task_status_exact:
  assumes reach: "bg_reachable m" and t: "bg_tasks m k = Some t"
  shows "0 < k \<and> k \<le> bm_id_seed m \<and>
      fst (handle_query_task k m) = Inr (k, TaskStatusToStr (bt_status t)) \<and>
      (bt_status t = WAITING \<longleftrightarrow> k \<in> set (bm_queue m) \<or> bm_worker m = Popped k) \<and>
      (bt_status t = RUNNING \<longleftrightarrow> bm_worker m = Executing k \<or> bm_worker m = Replied k \<or> k \<in> bm_thrown m) \<and>
      (bt_status t = SUCCEEDED \<longleftrightarrow> bt_result t = Some 0 \<and> bm_worker m \<noteq> Replied k) \<and>
      (bt_status t = FAILED \<longleftrightarrow> (\<exists>rc. rc \<noteq> 0 \<and> bt_result t = Some rc) \<and> bm_worker m \<noteq> Replied k) \<and>
      distinct (bm_queue m) \<and> sorted (bm_queue m) \<and>
      (k \<in> bm_thrown m \<longrightarrow> (\<forall>m'. bg_step\<^sup>*\<^sup>* m m' \<longrightarrow> fst (handle_query_task k m') = Inr (k, ''RUNNING'')))"
proof -
  note inv = bg_inv_reachable [OF reach]
  have ok: "task_at m k t" using bg_inv_task [OF inv t] .
  have q: "fst (handle_query_task k n) = Inr (k, TaskStatusToStr (bt_status x))" if "bg_inv n" "bg_tasks n k = Some x" for n x
    using that(2) bg_inv_task [OF that] by (simp add: handle_query_task_def bg_tasks_def task_at_def split: option.splits)
  have "fst (handle_query_task k m') = Inr (k, ''RUNNING'')" if th: "k \<in> bm_thrown m" and st: "bg_step\<^sup>*\<^sup>* m m'" for m'
  proof -
    have m': "bg_inv m' \<and> k \<in> bm_thrown m'"
      using st by (induction rule: rtranclp_induct) (use inv th bg_inv_step bg_step_thrown in blast)+
    then have "0 < k \<and> k \<le> bm_id_seed m'" using bg_inv_member [of m' k] by blast
    then obtain x where x: "bg_tasks m' k = Some x" using m' bg_inv_dom [of m' k] by blast
    then have "bt_status x = RUNNING" using m' bg_inv_task [of m' k x] by (simp add: task_at_def)
    then show ?thesis using q [of m' x] m' x by (simp add: TaskStatusToStr_def)
  qed
  moreover have "sorted_wrt (<) (bm_queue m)" using bg_inv_sorted [OF inv] by (simp add: sorted_wrt_append)
  then have "distinct (bm_queue m) \<and> sorted (bm_queue m)" by (simp add: strict_sorted_iff)
  moreover have "0 < k \<and> k \<le> bm_id_seed m" using bg_inv_dom [OF inv, of k] t by simp
  ultimately show ?thesis using ok q [OF inv t] by (simp add: task_at_def)
qed

text \<open>Two recoveries; the executor of the first one throws, the second one is taken.\<close>

definition sample_manager :: bg_manager where
  "sample_manager = worker_pop (worker_throw (worker_begin (worker_pop
     (snd (handle_recovery True ''b'' (snd (handle_recovery True ''a'' bg_init)))))))"

lemma sample_manager_reachable: "bg_reachable sample_manager"
  unfolding sample_manager_def
  by (intro bg_reachable.step [OF _ bg_step.pop] bg_reachable.step [OF _ bg_step.throw]
      bg_reachable.step [OF _ bg_step.start] bg_reachable.step [OF _ bg_step.recovery] bg_reachable.init)

lemma sample_manager_tasks:
  "bg_tasks sample_manager 1 = Some \<lparr>bt_id = 1, bt_type = RECOVERY, bt_desc = ''a'', bt_status = RUNNING, bt_result = None\<rparr>"
  "bm_thrown sample_manager = {1}" "bm_worker sample_manager = Popped 2"
  by code_simp+

theorem bg_task_status_exact_witness:
  "fst (handle_query_task 1 (worker_finish (worker_return 0 (worker_begin sample_manager)))) = Inr (1, ''RUNNING'') \<and>
   bm_worker sample_manager \<noteq> Executing 1"
proof -
  have "bg_step\<^sup>*\<^sup>* sample_manager (worker_finish (worker_return 0 (worker_begin sample_manager)))"
    by (meson bg_step.start bg_step.return bg_step.finish rtranclp.rtrancl_into_rtrancl rtranclp.rtrancl_refl)
  then show ?thesis
    using bg_task_status_exact [OF sample_manager_reachable sample_manager_tasks(1)] sample_manager_tasks(2,3) by simp
qed

end
