(* ===== verification/Store_Machine.thy ===== *)
theory Store_Machine
  imports Startup
begin

text \<open>
  The flash store as a state machine: what can happen to a store between its start on a
  new disk and its end, one step per event of the store thread or per round of the
  compaction thread. The invariant of the tables holds in every reachable state. The
  recovery of replicas is not among the steps; it is the subject of the theory
  \<open>Recovery\<close>.
\<close>

section \<open>Starting on a new disk\<close>

lemma ext_call_fields [simp]:
  "obj_lmt (snd (ext_call s)) = obj_lmt s" "head (snd (ext_call s)) = head s"
  "d_cap (dev (snd (ext_call s))) = d_cap (dev s)" "d_head (dev (snd (ext_call s))) = d_head (dev s)"
  "free_obj_queue (snd (ext_call s)) = free_obj_queue s" "trim_obj_queue (snd (ext_call s)) = trim_obj_queue s"
  "lmt_entry_pool (snd (ext_call s)) = lmt_entry_pool s"
  by (simp_all add: ext_call_def)

lemma clean_chunks_fields:
  "obj_lmt (snd (clean_chunks b is s)) = obj_lmt s \<and> d_cap (dev (snd (clean_chunks b is s))) = d_cap (dev s)"
  by (induction "is" arbitrary: s) (simp_all add: case_prod_beta overwrite_def)

lemma clean_meta_area_fields:
  "obj_lmt (snd (clean_meta_area b n s)) = obj_lmt s \<and> d_cap (dev (snd (clean_meta_area b n s))) = d_cap (dev s)"
  by (simp add: clean_meta_area_def case_prod_beta clean_chunks_fields)

lemma sync_write_head_fields:
  "obj_lmt (snd (sync_write_head s)) = obj_lmt s \<and> head (snd (sync_write_head s)) = head s"
  by (simp add: sync_write_head_def case_prod_beta)

lemma initialize_store_head_fields:
  assumes "initialize_store_head u t n s = (rc, s')"
  shows "obj_lmt s' = obj_lmt s" "meta_size (head s') = n" "tray_capacity (head s') = d_cap (dev s)"
    "objsize_order (head s') = DEFAULT_OBJ_SIZE_ORDER" "objsize (head s') = DEFAULT_OBJ_SIZE"
proof -
  have "s' = snd (initialize_store_head u t n s)" using assms by simp
  then show "obj_lmt s' = obj_lmt s" "meta_size (head s') = n" "tray_capacity (head s') = d_cap (dev s)"
    "objsize_order (head s') = DEFAULT_OBJ_SIZE_ORDER" "objsize (head s') = DEFAULT_OBJ_SIZE"
    by (simp_all add: initialize_store_head_def Let_def case_prod_beta sync_write_head_fields)
qed

lemma depth_of_cap: "q_inv q \<Longrightarrow> q_cap q = nat n \<Longrightarrow> 0 \<le> n \<Longrightarrow> q_depth q = n + 1"
  unfolding q_inv_def q_cap_def by linarith

lemma new_obj_queues_ok:
  assumes r: "new_obj_queues s = (0, s')" and n: "0 \<le> obj_count (head s)"
  shows "head s' = head s \<and> obj_lmt s' = obj_lmt s \<and> lmt_entry_pool s' = lmt_entry_pool s \<and>
    q_inv (free_obj_queue s') \<and> q_list (free_obj_queue s') = map int [0..<nat (obj_count (head s))] \<and>
    q_depth (free_obj_queue s') = obj_count (head s) + 1 \<and>
    q_inv (trim_obj_queue s') \<and> q_list (trim_obj_queue s') = [] \<and>
    q_cap (trim_obj_queue s') = nat (obj_count (head s))"
proof -
  let ?s1 = "snd (ext_call s)" and ?n = "obj_count (head s)"
  let ?i = "q_init (fst (ext_call s) = 0) 0 ?n (free_obj_queue s)"
  have rc1: "fst ?i = 0"
    using r by (simp add: new_obj_queues_def case_prod_beta split: if_splits)
  then have ok1: "fst (ext_call s) = 0" by (simp add: q_init_def Let_def split: if_splits)
  define fq where "fq = snd ?i"
  have i1: "q_init True 0 ?n (free_obj_queue s) = (0, fq)"
    using rc1 ok1 by (simp add: fq_def prod_eq_iff)
  note F = q_init_ok [OF n i1]
  let ?fq = "enq_all enqueue (map int [0..<nat ?n]) fq"
  have e: "q_inv ?fq \<and> q_list ?fq = map int [0..<nat ?n] \<and> q_cap ?fq = nat ?n"
    using fsq.enq_all_room [of fq "map int [0..<nat ?n]"] F by simp
  then have dep: "q_depth ?fq = ?n + 1" using n depth_of_cap [of ?fq ?n] by simp
  let ?s2 = "?s1\<lparr>free_obj_queue := ?fq\<rparr>"
  let ?j = "q_init (fst (ext_call ?s2) = 0) 0 ?n (trim_obj_queue s)"
  have s': "fst ?j = 0" "s' = (snd (ext_call ?s2))\<lparr>trim_obj_queue := snd ?j\<rparr>"
    using r i1 ok1 by (auto simp: new_obj_queues_def case_prod_beta Let_def prod_eq_iff)
  then have "fst (ext_call ?s2) = 0" by (simp add: q_init_def Let_def split: if_splits)
  then have i2: "q_init True 0 ?n (trim_obj_queue s) = (0, snd ?j)" using s'(1) by (simp add: prod_eq_iff)
  note T = q_init_ok [OF n i2]
  show ?thesis using e dep T s'(2) by simp
qed

lemma init_entry_pool_ok:
  assumes r: "init_entry_pool s = (0, s')" and n: "0 \<le> q_depth (free_obj_queue s)"
  shows "head s' = head s \<and> obj_lmt s' = obj_lmt s \<and> free_obj_queue s' = free_obj_queue s \<and>
    trim_obj_queue s' = trim_obj_queue s \<and> q_inv (p_free (lmt_entry_pool s')) \<and>
    q_cap (p_free (lmt_entry_pool s')) = p_slots (lmt_entry_pool s') \<and>
    mset (q_list (p_free (lmt_entry_pool s'))) = mset [0..<p_slots (lmt_entry_pool s')] \<and>
    p_slots (lmt_entry_pool s') = nat (q_depth (free_obj_queue s) * 2)"
proof -
  let ?e = "\<lambda>x. snd (ext_call x)"
  let ?p = "pool_init (fst (ext_call s)) (fst (ext_call (?e s)) = 0) (fst (ext_call (?e (?e s))) = 0)
      (q_depth (free_obj_queue s) * 2) (lmt_entry_pool s)"
  have s': "s' = (?e (?e (?e s)))\<lparr>lmt_entry_pool := snd ?p\<rparr>" and rc: "fst ?p = 0"
    using r by (auto simp: init_entry_pool_def case_prod_beta)
  from rc have z: "fst (ext_call s) = 0" "fst (ext_call (?e s)) = 0" "fst (ext_call (?e (?e s))) = 0"
    by (simp_all add: pool_init_def Let_def q_init_def split: if_splits)
  have p: "pool_init 0 True True (q_depth (free_obj_queue s) * 2) (lmt_entry_pool s) = (0, snd ?p)"
    using rc z by (simp add: prod_eq_iff)
  have P: "pool_inv (snd ?p)" "pool_avail (snd ?p) = {..<p_slots (snd ?p)}"
    "p_slots (snd ?p) = nat (q_depth (free_obj_queue s) * 2)"
    using pool_init_success [OF _ p] n by simp_all
  have "mset (q_list (p_free (snd ?p))) = mset [0..<p_slots (snd ?p)]"
    using P by (intro set_eq_iff_mset_eq_distinct [THEN iffD1])
      (simp_all add: pool_inv_def pool_avail_def atLeast0LessThan)
  then show ?thesis using P s' by (simp add: pool_inv_def)
qed

text \<open>The disk has room for its metadata and at most \<open>2 ^ 31\<close> objects of 64 MB behind it.\<close>

definition disk_fits :: "disk_conf \<Rightarrow> flash_store \<Rightarrow> bool" where
  "disk_fits cf s \<longleftrightarrow> dc_meta_size cf \<le> d_cap (dev s) \<and> d_cap (dev s) - dc_meta_size cf < 2 ^ 57"

lemma sint_word_small: "0 \<le> i \<Longrightarrow> i < 2 ^ 31 \<Longrightarrow> sint (word_of_int i :: 32 word) = i"
  by (simp add: sint_sbintrunc' signed_take_bit_int_eq_self)

lemma sint_small_u32: "uint (x :: u64) < 2 ^ 31 \<Longrightarrow> sint (ucast x :: 32 word) = uint x"
  unfolding ucast_eq by (rule sint_word_small [OF uint_ge_0])

lemma obj_count_exact:
  assumes "objsize_order h = DEFAULT_OBJ_SIZE_ORDER" and "tray_capacity h - meta_size h < 2 ^ 57"
  shows "obj_count h = uint (tray_capacity h - meta_size h) div 2 ^ 26 \<and> 0 \<le> obj_count h"
proof -
  define w where "w = tray_capacity h - meta_size h"
  have x: "uint (drop_bit 26 w) = uint w div 2 ^ 26" by (simp add: drop_bit_eq_div uint_div)
  have "uint w < uint (2 ^ 57 :: u64)" using assms(2) unfolding w_def word_less_def .
  then have "uint w < 2 ^ 57" by simp
  then have "uint w div 2 ^ 26 < 2 ^ 31" by simp
  then have "obj_count h = uint w div 2 ^ 26"
    using sint_small_u32 [of "drop_bit 26 w"] assms(1)
    by (simp only: obj_count_def DEFAULT_OBJ_SIZE_ORDER_def w_def [symmetric] x)
  moreover have "0 \<le> uint w div 2 ^ 26" by (simp add: pos_imp_zdiv_nonneg_iff)
  ultimately show ?thesis by (simp only: w_def)
qed

lemma init_new_disk_inv:
  assumes r: "init_new_disk cf s = (0, s')" and fits: "disk_fits cf s" and empty: "obj_lmt s = []"
  shows "store_inv s' \<and> obj_lmt s' = [] \<and> obj_count (head s') = uint (d_cap (dev s) - dc_meta_size cf) div 2 ^ 26 \<and>
    objsize (head s') = DEFAULT_OBJ_SIZE \<and> objsize_order (head s') = DEFAULT_OBJ_SIZE_ORDER \<and>
    meta_size (head s') = dc_meta_size cf \<and> tray_capacity (head s') = d_cap (dev s) \<and>
    q_list (free_obj_queue s') = map int [0..<nat (obj_count (head s'))] \<and> q_list (trim_obj_queue s') = []"
proof -
  let ?a = "snd (is_disk_clean s)"
  have a: "obj_lmt ?a = []" "d_cap (dev ?a) = d_cap (dev s)"
    using empty by (simp_all add: is_disk_clean_def case_prod_beta)
  let ?b = "clean_meta_area (dc_buf cf) (dc_meta_size cf) ?a"
  let ?c = "initialize_store_head (dc_uuid cf) (dc_time cf) (dc_meta_size cf) (snd ?b)"
  let ?d = "new_obj_queues (snd ?c)" and ?e = "\<lambda>x. init_entry_pool x" and ?f = "\<lambda>x. redolog_init x"
  have ok: "fst ?d = 0" "fst (?e (snd ?d)) = 0" "fst (?f (snd (?e (snd ?d)))) = 0"
    and s': "tbl s' = tbl (snd (?f (snd (?e (snd ?d)))))"
    using r by (auto simp: init_new_disk_def case_prod_beta split: if_splits)
  note H = initialize_store_head_fields [of "dc_uuid cf" "dc_time cf" "dc_meta_size cf" "snd ?b" "fst ?c" "snd ?c", simplified]
  have b: "obj_lmt (snd ?b) = []" "d_cap (dev (snd ?b)) = d_cap (dev s)"
    using a clean_meta_area_fields [of "dc_buf cf" "dc_meta_size cf" ?a] by simp_all
  have cnt: "obj_count (head (snd ?c)) = uint (d_cap (dev s) - dc_meta_size cf) div 2 ^ 26 \<and> 0 \<le> obj_count (head (snd ?c))"
    using obj_count_exact [of "head (snd ?c)"] fits H b by (simp add: disk_fits_def)
  have D: "?d = (0, snd ?d)" using ok(1) by (simp add: prod_eq_iff)
  note Q = new_obj_queues_ok [OF D conjunct2 [OF cnt]]
  have E: "?e (snd ?d) = (0, snd (?e (snd ?d)))" using ok(2) by (simp add: prod_eq_iff)
  have "0 \<le> q_depth (free_obj_queue (snd ?d))" using Q cnt by simp
  note P = init_entry_pool_ok [OF E this]
  let ?s5 = "snd (?e (snd ?d))"
  have L: "obj_lmt ?s5 = []" using P Q H b by simp
  have hd: "head ?s5 = head (snd ?c)" using P Q by simp
  have "tables_inv0 (head ?s5) [] (free_obj_queue ?s5) (trim_obj_queue ?s5) (lmt_entry_pool ?s5)"
    using P Q H(4) cnt unfolding hd
    by (simp add: tables_defs geom_ok_def DEFAULT_OBJ_SIZE_ORDER_def chains_ok_def used_ids_def all_ids_def q_cap_def)
  then have i: "store_inv ?s5"
    using L by (simp add: store_inv_def store_inv0_def statuses_ok_def no_empty_chain_def)
  have t: "tbl (snd (?f ?s5)) = tbl ?s5" by (simp add: redolog_init_def case_prod_beta)
  have t': "tbl s' = tbl ?s5" using s' t by simp
  note G = fixed_head_geometry [OF tblD(5) [OF t']] fixed_head_fields [OF tblD(5) [OF t']]
  show ?thesis
    using i store_inv_tbl [OF t'] G hd H b cnt L tblD(1-3) [OF t'] P Q by simp
qed

section \<open>Starting succeeds\<close>

text \<open>Saving the metadata asks nothing of other components.\<close>

lemma acts_ext_call [simp]: "acts (snd (ext_call s)) = acts s"
  by (simp add: ext_call_def)

lemma acts_write_calc [simp]: "acts (snd (snd (write_calc blk off st s))) = acts s"
  by (simp add: write_calc_def md5_write_def case_prod_beta)

lemma acts_md5_init [simp]: "acts (snd (md5_init s)) = acts s"
  by (simp add: md5_init_def case_prod_beta)

lemma acts_save_queue_data [simp]: "acts (snd (snd (save_queue_data xs n off src st s))) = acts s"
proof (induction xs n off src st s rule: save_queue_data.induct)
  case (1 xs n off src st s)
  show ?case
  proof (cases "src < n")
    case True
    let ?n = "min (n - src) meta_buf_size"
    let ?w = "write_calc (Ints_block (take (?n div 4) (drop (src div 4) xs))) (off + of_nat src + LBA_LENGTH) st s"
    have "acts (snd (snd ?w)) = acts s" by simp
    then show ?thesis
      using 1 [OF True refl, of "fst ?w" "(fst (snd ?w), snd (snd ?w))" "fst (snd ?w)" "snd (snd ?w)"] True
      by (subst save_queue_data.simps) (simp add: Let_def case_prod_beta)
  next
    case False
    then show ?thesis by (subst save_queue_data.simps) simp
  qed
qed

lemma acts_save_fixed_queue [simp]: "acts (snd (snd (save_fixed_queue q off st s))) = acts s"
  by (simp add: save_fixed_queue_def case_prod_beta)

lemma acts_flush_buffer [simp]: "acts (snd (snd (snd (flush_buffer z)))) = acts (snd (snd z))"
  by (simp add: flush_buffer_def case_prod_beta)

lemma acts_ser_write [simp]: "acts (snd (snd (snd (ser_write n c z)))) = acts (snd (snd z))"
  by (cases z) (simp add: ser_write_def case_prod_beta)

lemma acts_save_chain [simp]: "acts (snd (snd (snd (save_chain c z)))) = acts (snd (snd z))"
  by (induction c arbitrary: z) (simp_all add: write_lmt_entry_def case_prod_beta)

lemma acts_save_lmt [simp]: "acts (snd (snd (snd (save_lmt m z)))) = acts (snd (snd z))"
proof (induction m arbitrary: z)
  case (Cons p m)
  then show ?case by (cases p) (simp add: write_key_def case_prod_beta)
qed simp

lemma acts_sync_write_head [simp]: "acts (snd (sync_write_head s)) = acts s"
  by (simp add: sync_write_head_def case_prod_beta)

lemma acts_persist_head [simp]: "acts (snd (persist_head zone s)) = acts s"
  by (simp add: persist_head_def discard_def Let_def case_prod_beta)

lemma acts_save_lmt_area [simp]: "acts (snd (save_lmt_area zone pos st s)) = acts s"
  by (simp add: save_lmt_area_def case_prod_beta store_md5_def)

lemma acts_save_meta_data [simp]: "acts (snd (save_meta_data zone s)) = acts s"
  by (simp add: save_meta_data_def Let_def case_prod_beta)

text \<open>No call that may fail for a reason outside the program does fail.\<close>

definition no_err :: "flash_store \<Rightarrow> bool" where
  "no_err s \<longleftrightarrow> d_err (dev s) = (\<lambda>_. 0)"

lemma no_err_ext_call [simp]:
  "no_err s \<Longrightarrow> fst (ext_call s) = 0" "no_err (snd (ext_call s)) = no_err s"
  by (simp_all add: no_err_def ext_call_def)

lemma no_err_clean_chunks:
  "no_err s \<Longrightarrow> fst (clean_chunks b is s) = 0 \<and> no_err (snd (clean_chunks b is s)) \<and>
     acts (snd (clean_chunks b is s)) = acts s"
proof (induction "is" arbitrary: s)
  case (Cons i "is")
  have "no_err ((snd (ext_call s))\<lparr>dev := overwrite b (of_nat i * clean_buf_len) (dev (snd (ext_call s)))\<rparr>)"
    using Cons.prems by (simp add: no_err_def overwrite_def ext_call_def)
  from Cons.IH [OF this] Cons.prems show ?case by (simp add: case_prod_beta)
qed simp

lemma no_err_initialize_store_head:
  assumes "no_err s"
  shows "fst (initialize_store_head u t n s) = 0 \<and> no_err (snd (initialize_store_head u t n s)) \<and>
    acts (snd (initialize_store_head u t n s)) = acts s"
  using assms
  by (simp add: initialize_store_head_def Let_def case_prod_beta sync_write_head_def no_err_def ext_call_def)

lemma no_err_new_obj_queues:
  assumes "no_err s"
  shows "fst (new_obj_queues s) = 0 \<and> no_err (snd (new_obj_queues s)) \<and> acts (snd (new_obj_queues s)) = acts s"
  using assms by (simp add: new_obj_queues_def Let_def case_prod_beta no_err_def ext_call_def q_init_def)

lemma no_err_init_entry_pool:
  assumes "no_err s"
  shows "fst (init_entry_pool s) = 0 \<and> no_err (snd (init_entry_pool s)) \<and> acts (snd (init_entry_pool s)) = acts s"
  using assms by (simp add: init_entry_pool_def pool_init_def Let_def case_prod_beta no_err_def ext_call_def q_init_def)

lemma init_new_disk_succeeds:
  assumes ok: "no_err s" and new: "d_head (dev s) = None"
  shows "fst (init_new_disk cf s) = 0 \<and> acts (snd (init_new_disk cf s)) = acts s"
proof -
  let ?a = "snd (is_disk_clean s)"
  have a: "fst (is_disk_clean s)" "no_err ?a" "acts ?a = acts s"
    using ok new by (simp_all add: is_disk_clean_def case_prod_beta)
  let ?b = "clean_meta_area (dc_buf cf) (dc_meta_size cf) ?a"
  have b: "fst ?b = 0" "no_err (snd ?b)" "acts (snd ?b) = acts s"
    using a no_err_clean_chunks [of "snd (ext_call ?a)"] by (simp_all add: clean_meta_area_def case_prod_beta)
  let ?c = "initialize_store_head (dc_uuid cf) (dc_time cf) (dc_meta_size cf) (snd ?b)"
  have c: "fst ?c = 0" "no_err (snd ?c)" "acts (snd ?c) = acts s"
    using no_err_initialize_store_head [OF b(2), of "dc_uuid cf" "dc_time cf" "dc_meta_size cf"] b by simp_all
  let ?d = "new_obj_queues (snd ?c)"
  have d: "fst ?d = 0" "no_err (snd ?d)" "acts (snd ?d) = acts s" using no_err_new_obj_queues [OF c(2)] c by simp_all
  let ?e = "init_entry_pool (snd ?d)"
  have e: "fst ?e = 0" "no_err (snd ?e)" "acts (snd ?e) = acts s" using no_err_init_entry_pool [OF d(2)] d by simp_all
  let ?f = "redolog_init (snd ?e)"
  have f: "fst ?f = 0" "acts (snd ?f) = acts s"
    using e by (simp_all add: redolog_init_def case_prod_beta no_err_def ext_call_def)
  show ?thesis using a(1) b(1) c(1) d(1) e(1) f
    by (simp add: init_new_disk_def case_prod_beta set_log_phase_def)
qed

lemma acts_compact_tool_init: "acts (snd (snd (compact_tool_init mem s))) = acts s"
  by (simp add: compact_tool_init_def case_prod_beta Let_def)

lemma store_init_succeeds:
  assumes ok: "no_err s" and new: "d_head (dev s) = None" and thr: "Start_trim_thread \<notin> set (acts s)"
  shows "\<exists>t s'. store_init cf mem s = Some (Inr (0, t, s'))"
proof -
  let ?h = "read_store_head (snd (ext_call s))"
  have h: "fst ?h = - EUCLEAN" "no_err (snd ?h)" "d_head (dev (snd ?h)) = None" "acts (snd ?h) = acts s"
    using ok new by (simp_all add: read_store_head_def case_prod_beta no_err_def ext_call_def)
  let ?i = "init_new_disk cf (snd ?h)"
  have i: "fst ?i = 0" "acts (snd ?i) = acts s" using init_new_disk_succeeds [OF h(2,3), of cf] h(4) by simp_all
  let ?x = "act Start_compaction_thread (snd (snd (compact_tool_init mem (snd ?i))))"
  have m: "start_metadata_service cf mem True (snd ?h) = Some (Inr (0, fst (snd (compact_tool_init mem (snd ?i))), ?x))"
    using i by (simp add: start_metadata_service_def case_prod_beta)
  have "Start_trim_thread \<notin> set (acts ?x)" using thr i(2) by (simp add: acts_compact_tool_init)
  then show ?thesis using ok h(1) m by (simp add: store_init_def case_prod_beta start_trimming_def)
qed

section \<open>The compaction thread\<close>

lemma read_calc_head [simp]: "head (snd (snd (snd (read_calc off buf st s)))) = head s"
  by (simp add: read_calc_def md5_read_def case_prod_beta)

lemma load_queue_data_head [simp]:
  "head (snd (snd (snd (snd (load_queue_data xs n off src buf st s))))) = head s"
proof (induction xs n off src buf st s rule: load_queue_data.induct)
  case (1 xs n off src buf st s)
  let ?r = "read_calc (off + of_nat src + LBA_LENGTH) Zero_block st s"
  show ?case
  proof (cases "src < n")
    case True
    have "head (snd (snd (snd ?r))) = head s" by simp
    then show ?thesis
      using 1 [OF True refl, of "fst ?r" "snd ?r" "fst (snd ?r)" "snd (snd ?r)" "fst (snd (snd ?r))" "snd (snd (snd ?r))"] True
      by (subst load_queue_data.simps) (simp add: Let_def case_prod_beta)
  next
    case False
    then show ?thesis by (subst load_queue_data.simps) simp
  qed
qed

lemma load_fixed_queue_head [simp]:
  "head (snd (snd (snd (snd (load_fixed_queue q off buf st s))))) = head s"
  by (simp add: load_fixed_queue_def case_prod_beta Let_def)

lemma load_buffer_head [simp]: "head (snd (snd (snd (load_buffer z)))) = head (snd (snd z))"
  by (simp add: load_buffer_def case_prod_beta Let_def)

lemma ser_read_head [simp]: "head (snd (snd (snd (snd (ser_read n z))))) = head (snd (snd z))"
  by (cases z) (simp add: ser_read_def case_prod_beta Let_def)

lemma read_key_head [simp]: "head (snd (snd (snd (snd (read_key z))))) = head (snd (snd z))"
  by (simp add: read_key_def case_prod_beta)

lemma read_lmt_entry_head [simp]: "head (snd (snd (snd (snd (read_lmt_entry a z))))) = head (snd (snd z))"
  by (simp add: read_lmt_entry_def case_prod_beta)

lemma load_rest_head:
  "load_rest n b z = Inr (rc, es, z') \<Longrightarrow> head (snd (snd z')) = head (snd (snd z))"
proof (induction n b z arbitrary: rc es z' rule: load_rest.induct)
  case (3 n z st s)
  obtain x p where al: "pool_alloc (lmt_entry_pool s) = (x, p)" by (rule prod.exhaust)
  show ?case
  proof (cases x)
    case None
    then show ?thesis using 3(2) al by simp
  next
    case (Some a)
    let ?r = "read_lmt_entry a (z, st, s\<lparr>lmt_entry_pool := p\<rparr>)"
    show ?thesis
      using 3(1) [OF al [symmetric] Some, of "fst ?r" "snd ?r" "fst (snd ?r)" "snd (snd ?r)" "fst (fst (snd ?r))" "snd (fst (snd ?r))"]
        3(2) al Some
      by (auto simp: case_prod_beta split: if_splits)
  qed
qed auto

lemma load_key_head:
  assumes "load_key z = Inr (rc, z')"
  shows "head (snd (snd z')) = head (snd (snd z))"
proof -
  obtain y st s where z: "z = (y, st, s)" by (rule prod_cases3)
  obtain x p where al: "pool_alloc (lmt_entry_pool s) = (x, p)" by (rule prod.exhaust)
  obtain a where x: "x = Some a" using assms z al by (cases x) (simp_all add: load_key_def)
  let ?k = "read_key (y, st, s\<lparr>lmt_entry_pool := p\<rparr>)"
  let ?e = "read_lmt_entry a (snd (snd ?k))"
  let ?r = "load_rest (p_slots p) (snd (fst (snd ?e))) (snd (snd ?e))"
  have h: "head (snd (snd (snd (snd ?e)))) = head s" "head (snd (snd (snd (snd ?k)))) = head s" by simp_all
  show ?thesis
  proof (cases "fst ?k \<noteq> 0 \<or> fst ?e \<noteq> 0")
    case True
    then show ?thesis using assms z al x h by (auto simp: load_key_def case_prod_beta split: if_splits)
  next
    case False
    show ?thesis
    proof (cases ?r)
      case (Inl f)
      then show ?thesis using assms z al x False by (simp add: load_key_def case_prod_beta)
    next
      case (Inr b)
      have "?r = Inr (fst b, fst (snd b), snd (snd b))" using Inr by simp
      from load_rest_head [OF this] h(1) have hb: "head (snd (snd (snd (snd b)))) = head s" by simp
      show ?thesis
      proof (cases "fst b = 0")
        case True
        let ?f = "free_entries (filter (\<lambda>x. e_status x = RECOVERYING) (fst (fst (snd ?e)) # fst (snd b)))
            (lmt_entry_pool (snd (snd (snd (snd b)))))"
        show ?thesis using assms z al x False Inr hb True
          by (cases ?f) (auto simp: load_key_def case_prod_beta Let_def)
      next
        case neq: False
        then show ?thesis using assms z al x False Inr hb by (auto simp: load_key_def case_prod_beta)
      qed
    qed
  qed
qed

lemma load_keys_head: "load_keys n z = Inr (rc, z') \<Longrightarrow> head (snd (snd z')) = head (snd (snd z))"
proof (induction n arbitrary: z)
  case (Suc n)
  then obtain rc1 z1 where k: "load_key z = Inr (rc1, z1)" by (cases "load_key z") auto
  then show ?case using Suc load_key_head [OF k] by (auto split: if_splits)
qed auto

lemma init_entry_pool_head [simp]: "head (snd (init_entry_pool s)) = head s"
  by (simp add: init_entry_pool_def case_prod_beta)

lemma load_lmt_area_head:
  assumes "load_lmt_area pos buf st s = Inr (rc, s')"
  shows "head s' = head s"
proof -
  let ?r = "read_calc pos buf st s"
  let ?z = "(ser_new (pos + LBA_LENGTH) meta_buf_size False, fst (snd (snd ?r)), snd (snd (snd ?r)))"
  show ?thesis
  proof (cases "load_keys (nat (int_at (fst (snd ?r)) 0)) ?z")
    case (Inl f)
    then show ?thesis using assms by (simp add: load_lmt_area_def case_prod_beta Let_def)
  next
    case (Inr b)
    have "load_keys (nat (int_at (fst (snd ?r)) 0)) ?z = Inr (fst b, snd b)" using Inr by simp
    from load_keys_head [OF this] have "head (snd (snd (snd b))) = head s" by simp
    then show ?thesis using assms Inr
      by (auto simp: load_lmt_area_def case_prod_beta Let_def split: if_splits)
  qed
qed

lemma md5_init_head [simp]: "head (snd (md5_init s)) = head s"
  by (simp add: md5_init_def case_prod_beta)

lemma pair_heads:
  "md5_init s = (rc, s') \<Longrightarrow> head s' = head s" "init_entry_pool s = (rc, s') \<Longrightarrow> head s' = head s"
  using md5_init_head [of s] init_entry_pool_head [of s] by simp_all

lemma load_meta_data_head:
  "load_meta_data zone c s = Inr (rc, s') \<Longrightarrow> head s' = head s"
  by (auto simp: load_meta_data_def Let_def case_prod_beta split: if_splits dest!: load_lmt_area_head pair_heads)

lemma change_entry_head [simp]: "head (change_entry k off f s) = head s"
  by (simp add: change_entry_def split: option.split)

lemma redo_one_head: "redo_one it s = Inr (rc, s') \<Longrightarrow> head s' = head s"
  by (auto simp: redo_one_def redo_allocation_def redo_free_def redo_trim_def redo_snap_seq_change_def
      redo_state_change_def Let_def case_prod_beta split: option.splits redo_item.splits prod.splits if_splits)

lemma replay_loop_head:
  "replay_loop ph off s = Some r \<Longrightarrow> r = Inr (rc, s') \<longrightarrow> head s' = head s"
proof (erule replay_loop.raw_induct [rotated], intro impI, goal_cases)
  case (1 rl ph off s r)
  let ?s1 = "snd (ext_call s)"
  show ?case
  proof (cases "redo_one (lp_item (d_log (dev ?s1) off)) ?s1")
    case (Inl f)
    then show ?thesis using 1(2,3) by (auto simp: case_prod_beta Let_def split: if_splits)
  next
    case (Inr b)
    then have "head (snd b) = head s" using redo_one_head [of _ ?s1 "fst b" "snd b"] by simp
    then show ?thesis using 1 Inr by (auto simp: case_prod_beta Let_def split: if_splits)
  qed
qed

lemma tbl_new_head: "fixed_head h = fixed_head (head s) \<Longrightarrow> tbl (s\<lparr>head := h, dev := d, compact_lmt_exist := b\<rparr>) = tbl s"
  by (simp add: tbl_def)

lemma compact_failed_tbl:
  "compact_failed rc s t = Some (Inr (rc', s', t')) \<Longrightarrow> tbl s' = tbl s"
  by (auto simp: compact_failed_def)

lemma compact_meta_data_tbl:
  assumes r: "compact_meta_data s t = Some (Inr (rc, s', t'))"
  shows "tbl s' = tbl s"
proof -
  let ?t0 = "t\<lparr>head := head s, dev := dev s\<rparr>"
  let ?l = "if compact_lmt_exist s then Inr (0, ?t0) else load_meta_data (current_metadata (head s)) True ?t0"
  show ?thesis
  proof (cases ?l)
    case (Inl f)
    then show ?thesis using r by (simp add: compact_meta_data_def)
  next
    case (Inr b)
    have h1: "head (snd b) = head s"
    proof (cases "compact_lmt_exist s")
      case True
      then show ?thesis using Inr by auto
    next
      case False
      then show ?thesis using Inr load_meta_data_head [of _ True ?t0 "fst b" "snd b"] by simp
    qed
    show ?thesis
    proof (cases "fst b = 0")
      case False
      then show ?thesis using r Inr by (auto simp: compact_meta_data_def case_prod_beta dest: compact_failed_tbl)
    next
      case rc: True
      have r1: "obnd (replay (redolog_phase (head s)) CURRENT (snd b)) (\<lambda>(rc2, t2).
             if rc2 \<noteq> 0 then compact_failed rc2 s t2
             else case save_meta_data (oppsite_md_zone (head s)) t2 of (rc3, t3) \<Rightarrow>
               if rc3 \<noteq> 0 then compact_failed rc3 s t3
               else Some (Inr (0, s\<lparr>head := head t3, compact_lmt_exist := True, dev := dev t3\<rparr>, t3)))
           = Some (Inr (rc, s', t'))"
        using r Inr rc by (simp add: compact_meta_data_def case_prod_beta)
      then obtain c where c: "replay (redolog_phase (head s)) CURRENT (snd b) = Some (Inr c)"
        by (cases "replay (redolog_phase (head s)) CURRENT (snd b)"; cases "the (replay (redolog_phase (head s)) CURRENT (snd b))")
          simp_all
      have h2: "head (snd c) = head s"
        using replay_loop_head [of _ _ _ "Inr c" "fst c" "snd c"] c h1 by (simp add: replay_def)
      have h3: "fixed_head (head (snd (save_meta_data z (snd c)))) = fixed_head (head s)" for z
        using tblD(5) [OF tbl_save_meta_data [of z "snd c"]] h2 by simp
      show ?thesis using r1 c h3
        by (auto simp: case_prod_beta tbl_def split: if_splits dest: compact_failed_tbl)
    qed
  qed
qed

lemma compaction_work_inv:
  assumes "compaction_work s t = Some (Inr (b, s', t'))" and "store_inv s"
  shows "store_inv s'"
proof -
  let ?c = "compact_meta_data (s\<lparr>to_run_compact := COMPACT_RUNNING\<rparr>) t"
  show ?thesis
  proof (cases "to_run_compact s = COMPACT_TODO")
    case True
    then obtain x where x: "?c = Some (Inr x)"
      using assms(1) by (cases ?c; cases "the ?c") (simp_all add: compaction_work_def)
    have "?c = Some (Inr (fst x, fst (snd x), snd (snd x)))" using x by simp
    from compact_meta_data_tbl [OF this] have "tbl (fst (snd x)) = tbl s" by simp
    moreover have "tbl s' = tbl (fst (snd x))"
      using assms(1) True x by (auto simp: compaction_work_def case_prod_beta split: if_splits)
    ultimately have "tbl s' = tbl s" by simp
    from store_inv_tbl [OF this] assms(2) show ?thesis by simp
  next
    case False
    then show ?thesis using assms by (simp add: compaction_work_def)
  qed
qed

section \<open>The end of a copy\<close>

lemma do_cow_entry_inv:
  assumes inv: "store_inv s" and r: "do_cow_entry k src dst s = Some (Inr s')"
  shows "store_inv s'"
proof -
  obtain a b where f: "find_entry k src s = Some a" "find_entry k dst s = Some b"
    using r by (cases "find_entry k src s"; cases "find_entry k dst s") (simp_all add: do_cow_entry_def)
  let ?c = "cow_copy (e_offset a) (e_offset b) [0..<unat (objsize (head s) div COW_OBJ_SIZE)] s"
  have t: "tbl (snd ?c) = tbl s" by (rule cow_copy_tbl)
  have i: "store_inv (snd ?c)" using store_inv_tbl [OF t] inv by simp
  have "find_entry k dst (snd ?c) = Some b" using f(2) tblD(1) [OF t] by (simp add: find_entry_def)
  from cow_failed_keeps [OF i this] cow_done_keeps [OF i, of k src dst s'] r f show ?thesis
    by (cases "fst ?c") (simp_all add: do_cow_entry_def case_prod_beta)
qed

lemma end_cow_scc_inv:
  assumes inv: "store_inv s" and r: "end_cow_scc rc k src dst s = Some (Inr s')"
  shows "store_inv s'"
proof -
  obtain d where d: "find_entry k dst s = Some d"
    using r by (cases "find_entry k dst s") (simp_all add: end_cow_scc_def)
  let ?s1 = "update_entry k dst (\<lambda>e. e\<lparr>e_waiting_io := []\<rparr>) s"
  have i: "store_inv ?s1" by (rule update_entry_inv [OF inv]) simp_all
  show ?thesis
  proof (cases "rc = 0")
    case True
    then obtain w where w: "run_waiting (e_waiting_io d) ?s1 = Some w" and f: "bnd w (delete_delayed k src) = Inr s'"
      using r d by (cases "run_waiting (e_waiting_io d) ?s1") (simp_all add: end_cow_scc_def Let_def)
    have kw: "keeps1 w" using run_waiting_keeps [OF w] i by simp
    then obtain s4 where s4: "w = Inr s4" "store_inv s4" "delete_delayed k src s4 = Inr s'"
      using f by (cases w) simp_all
    then have "find_entry k src s4 \<noteq> None"
      by (cases "find_entry k src s4") (simp_all add: delete_delayed_def)
    from delete_delayed_keeps [OF s4(2) this] s4(3) show ?thesis by simp
  next
    case False
    then show ?thesis using r d i by (auto simp: end_cow_scc_def Let_def)
  qed
qed

section \<open>Deleting a snapshot\<close>

lemma delete_obj_snapshot_inv:
  assumes inv: "store_inv s" and lt: "Lts < Lns" and r: "delete_obj_snapshot v lba Lts Lps Lns s = Inr (rc, s')"
  shows "store_inv s'"
proof (cases "rc = 0")
  case True
  then obtain c where c: "lmt_find \<lparr>vol_id = v, slba = lba\<rparr> s = Some c"
    using r by (cases "lmt_find \<lparr>vol_id = v, slba = lba\<rparr> s") (simp_all add: delete_obj_snapshot_def)
  show ?thesis by (rule delete_obj_snapshot_cases [OF inv c lt r [unfolded True]])
next
  case False
  let ?k = "\<lparr>vol_id = v, slba = lba\<rparr>"
  have z: "rc' = 0" if "delete_target ?k Lts Lps Lns n t p s = Inr (rc', x)" for n t p rc' x
    using that by (auto simp: delete_target_def Let_def drop_target_def renumber_target_def bnd_ignore_rc
        split: if_splits option.splits)
  show ?thesis
  proof (cases "lmt_find ?k s")
    case None
    then show ?thesis using r inv by (simp add: delete_obj_snapshot_def)
  next
    case (Some c)
    then obtain n t p where "locate_target Lts None c = Inr (n, t, p)"
      using r by (cases "locate_target Lts None c") (auto simp: delete_obj_snapshot_def)
    then show ?thesis using r Some inv False z
      by (auto simp: delete_obj_snapshot_def split: if_splits)
  qed
qed

lemma delete_snapshot_objs_inv:
  "delete_snapshot_objs v lbas Lts Lps Lns s = Inr s' \<Longrightarrow> store_inv s \<Longrightarrow> Lts < Lns \<Longrightarrow> store_inv s'"
proof (induction lbas arbitrary: s)
  case (Cons lba lbas)
  then obtain rc s1 where d: "delete_obj_snapshot v lba Lts Lps Lns s = Inr (rc, s1)"
    and n: "delete_snapshot_objs v lbas Lts Lps Lns s1 = Inr s'"
    by (cases "delete_obj_snapshot v lba Lts Lps Lns s") auto
  show ?case
    by (rule Cons.IH [OF n delete_obj_snapshot_inv [OF Cons.prems(2,3) d] Cons.prems(3)])
qed auto

section \<open>Steps\<close>

text \<open>
  A state is the store with the second store of the compaction thread. The caller of
  \<open>delete_snapshot\<close> passes the snapshot to delete with its neighbours, in this order.
\<close>

type_synonym machine = "flash_store \<times> flash_store option"

inductive store_step :: "machine \<Rightarrow> machine \<Rightarrow> bool" where
  event: "process_event ev s = Inr (rc, s') \<Longrightarrow> store_step (s, t) (s', t)"
| trim: "trim_one s = Inr (rc, s') \<Longrightarrow> store_step (s, t) (s', t)"
| del_replica: "delete_replica rep s = Inr (rc, s') \<Longrightarrow> store_step (s, t) (s', t)"
| del_snapshot: "prev < snap \<Longrightarrow> snap < nxt \<Longrightarrow> delete_snapshot shard snap prev nxt s = Inr s' \<Longrightarrow>
    store_step (s, t) (s', t)"
| cow: "do_cow_entry k src dst s = Some (Inr s') \<Longrightarrow> store_step (s, t) (s', t)"
| cow_scc: "end_cow_scc rc k src dst s = Some (Inr s') \<Longrightarrow> store_step (s, t) (s', t)"
| compact: "compaction_work s t = Some (Inr (b, s', t')) \<Longrightarrow> store_step (s, Some t) (s', Some t')"
| woken: "store_step (s, t) (snd (compaction_woken rc s), t)"

inductive_cases store_stepE: "store_step m m'"

inductive store_reachable :: "disk_conf \<Rightarrow> flash_store \<Rightarrow> flash_store \<Rightarrow> machine \<Rightarrow> bool"
  for cf mem s0 where
  start: "store_init cf mem s0 = Some (Inr (0, t, s)) \<Longrightarrow> store_reachable cf mem s0 (s, t)"
| step: "store_reachable cf mem s0 m \<Longrightarrow> store_step m m' \<Longrightarrow> store_reachable cf mem s0 m'"

lemma process_event_keeps:
  assumes "store_inv s"
  shows "keeps (process_event ev s)"
proof (cases ev)
  case (EVT_IO_REQ io)
  have w: "keeps (do_write io s)" by (rule do_write_keeps [OF assms])
  have "store_inv (snd (do_read io s))"
    using assms by (simp add: do_read_def Let_def split: option.split)
  with w show ?thesis using EVT_IO_REQ
    by (cases "do_write io s") (auto simp: process_event_def Let_def)
next
  case EVT_SAVEMD
  let ?t = "meta_data_compaction_trigger COMPACT_TODO False s"
  show ?thesis
  proof (cases ?t)
    case (Inl f)
    then show ?thesis using EVT_SAVEMD assms trigger_fault [OF Inl] by (simp add: process_event_def)
  next
    case (Inr b)
    have t: "tbl (snd b) = tbl s" using tbl_trigger [where st = COMPACT_TODO and force = False and s = s] Inr by (simp add: case_prod_beta)
    show ?thesis using EVT_SAVEMD assms store_inv_tbl [OF t] Inr by (simp add: process_event_def case_prod_beta)
  qed
qed (use assms in \<open>simp_all add: process_event_def\<close>)

lemma store_step_inv:
  assumes "store_step (s, t) (s', t')" and inv: "store_inv s"
  shows "store_inv s'"
  using assms(1)
proof (cases rule: store_step.cases)
  case (event ev rc)
  then show ?thesis using process_event_keeps [OF inv, of ev] by simp
next
  case (trim rc)
  then show ?thesis using trim_one_keeps [OF inv] by simp
next
  case (del_replica rep rc)
  then show ?thesis using delete_replica_keeps [OF inv, of rep] by simp
next
  case (del_snapshot prev snap nxt shard)
  then show ?thesis using delete_snapshot_objs_inv inv by (auto simp: delete_snapshot_def Let_def)
next
  case (cow k src dst)
  then show ?thesis using do_cow_entry_inv [OF inv] by blast
next
  case (cow_scc rc k src dst)
  then show ?thesis using end_cow_scc_inv [OF inv] by blast
next
  case (compact t1 b t1')
  then show ?thesis using compaction_work_inv inv by blast
next
  case (woken rc)
  then show ?thesis using inv by (simp add: compaction_woken_def)
qed

lemma compact_tool_init_tbl: "tbl (snd (snd (compact_tool_init mem s))) = tbl s"
  by (simp add: compact_tool_init_def case_prod_beta Let_def)

lemma set_mask_fields:
  assumes x: "tbl x = tbl i" and s: "tbl s = tbl (x\<lparr>in_obj_offset_mask := objsize (head x) - 1\<rparr>)"
    and inv: "store_inv i"
  shows "store_inv s \<and> obj_lmt s = obj_lmt i \<and> obj_count (head s) = obj_count (head i) \<and>
    objsize (head s) = objsize (head i) \<and> objsize_order (head s) = objsize_order (head i) \<and>
    meta_size (head s) = meta_size (head i) \<and> tray_capacity (head s) = tray_capacity (head i) \<and>
    in_obj_offset_mask s = objsize (head i) - 1 \<and>
    free_obj_queue s = free_obj_queue i \<and> trim_obj_queue s = trim_obj_queue i"
proof -
  let ?y = "x\<lparr>in_obj_offset_mask := objsize (head x) - 1\<rparr>"
  have "store_inv x" using store_inv_tbl [OF x] inv by simp
  then have "store_inv ?y" by (simp add: store_inv_def store_inv0_def)
  then have i: "store_inv s" using store_inv_tbl [OF s] by simp
  have h: "fixed_head (head s) = fixed_head (head i)" using tblD(5) [OF s] tblD(5) [OF x] by simp
  show ?thesis
    using i fixed_head_geometry [OF h] fixed_head_fields [OF h] tblD(1-3,6) [OF s] tblD(1-3) [OF x]
      fixed_head_fields(4) [OF tblD(5) [OF x]] by simp
qed

lemma store_init_new_disk:
  assumes r: "store_init cf mem s0 = Some (Inr (0, t, s))"
    and fits: "disk_fits cf s0" and new: "d_head (dev s0) = None" and empty: "obj_lmt s0 = []"
  shows "store_inv s \<and> obj_lmt s = [] \<and> obj_count (head s) = uint (d_cap (dev s0) - dc_meta_size cf) div 2 ^ 26 \<and>
    objsize (head s) = DEFAULT_OBJ_SIZE \<and> objsize_order (head s) = DEFAULT_OBJ_SIZE_ORDER \<and>
    meta_size (head s) = dc_meta_size cf \<and> tray_capacity (head s) = d_cap (dev s0) \<and>
    in_obj_offset_mask s = DEFAULT_OBJ_SIZE - 1 \<and>
    q_list (free_obj_queue s) = map int [0..<nat (obj_count (head s))] \<and> q_list (trim_obj_queue s) = []"
proof -
  let ?a = "snd (ext_call s0)"
  let ?h = "read_store_head ?a"
  have h: "obj_lmt (snd ?h) = []" "d_cap (dev (snd ?h)) = d_cap (dev s0)" "fst ?h \<noteq> 0"
    using empty new by (auto simp: read_store_head_def case_prod_beta)
  let ?i = "init_new_disk cf (snd ?h)"
  have ok: "fst ?h = - EUCLEAN" "fst (ext_call s0) = 0"
    using r h(3) by (auto simp: store_init_def case_prod_beta split: if_splits)
  have rc0: "fst ?i = 0"
    using r ok h(3) by (auto simp: store_init_def case_prod_beta start_metadata_service_def obnd_def start_trimming_def
        split: if_splits)
  then have i: "?i = (0, snd ?i)" by (simp add: prod_eq_iff)
  have fits': "disk_fits cf (snd ?h)" using fits h(2) by (simp add: disk_fits_def)
  note N = init_new_disk_inv [OF i fits' h(1)]
  let ?x = "act Start_compaction_thread (snd (snd (compact_tool_init mem (snd ?i))))"
  have x: "tbl ?x = tbl (snd ?i)" using compact_tool_init_tbl by simp
  have m: "start_metadata_service cf mem True (snd ?h) = Some (Inr (0, fst (snd (compact_tool_init mem (snd ?i))), ?x))"
    using rc0 by (simp add: start_metadata_service_def case_prod_beta)
  have "start_trimming (?x\<lparr>in_obj_offset_mask := objsize (head ?x) - 1\<rparr>) =
      Inr (act Start_trim_thread (?x\<lparr>in_obj_offset_mask := objsize (head ?x) - 1\<rparr>))"
    using r ok h(3) m by (simp add: store_init_def case_prod_beta start_trimming_def split: if_splits)
  then have "s = (act Start_trim_thread (?x\<lparr>in_obj_offset_mask := objsize (head ?x) - 1\<rparr>))
      \<lparr>to_run_compact := COMPACT_IDLE, compact_lmt_exist := False\<rparr>"
    using r ok h(3) m by (simp add: store_init_def case_prod_beta)
  then have s: "tbl s = tbl (?x\<lparr>in_obj_offset_mask := objsize (head ?x) - 1\<rparr>)" by (simp only: tbl_other)
  from set_mask_fields [OF x s conjunct1 [OF N]] N show ?thesis unfolding h(2) by (elim conjE) (intro conjI; simp only:)
qed

lemma store_reachable_inv:
  assumes reach: "store_reachable cf mem s0 (s, t)"
    and fits: "disk_fits cf s0" and new: "d_head (dev s0) = None" and empty: "obj_lmt s0 = []"
  shows "store_inv s"
proof -
  have "store_inv (fst m)" if "store_reachable cf mem s0 m" for m
    using that
  proof (induction rule: store_reachable.induct)
    case (start t s)
    then show ?case using store_init_new_disk [OF start fits new empty] by simp
  next
    case (step m m')
    then show ?case using store_step_inv [of "fst m" "snd m" "fst m'" "snd m'"] by simp
  qed
  from this [OF reach] show ?thesis by simp
qed

section \<open>Properties\<close>

text \<open>
  (C2) From the start on a new disk, through any sequence of reads, writes, copies on
  write that succeed or fail, deletions of snapshots and replicas, trimming and
  compactions, with any outcome of every transfer: every object of the disk is either
  free, waiting for its trim, or in exactly one entry of the table; every slot of the
  entry pool is free or in exactly one entry; the chains are in descending snapshot order
  and none is empty. In such a state an event of the store thread ends the process only
  through the deliberate exit, never through a NULL pointer, a failed assertion, an index
  out of bounds or an exception.
\<close>

theorem reachable_store_consistent:
  assumes "store_reachable cf mem s0 (s, t)"
    and "disk_fits cf s0" and "d_head (dev s0) = None" and "obj_lmt s0 = []"
  shows "used_ids (head s) (obj_lmt s) + mset (q_list (free_obj_queue s)) + mset (q_list (trim_obj_queue s)) =
      mset (map int [0..<nat (obj_count (head s))]) \<and>
    image_mset e_addr (table_entries (obj_lmt s)) + mset (q_list (p_free (lmt_entry_pool s))) =
      mset [0..<p_slots (lmt_entry_pool s)] \<and>
    list_all (\<lambda>(k, c). c \<noteq> [] \<and> desc_chain c) (obj_lmt s) \<and>
    (case process_event ev s of Inl f \<Rightarrow> f = Fatal_exit | Inr _ \<Rightarrow> True)"
proof -
  have inv: "store_inv s" by (rule store_reachable_inv [OF assms])
  have "list_all (\<lambda>c. c \<noteq> [] \<and> desc_chain c) (map snd (obj_lmt s))"
    using inv by (auto simp: store_inv_def store_inv0_def tables_inv0_def chains_ok_def no_empty_chain_def list_all_iff)
  then have "list_all (\<lambda>(k, c). c \<noteq> [] \<and> desc_chain c) (obj_lmt s)"
    by (simp add: list_all_iff case_prod_beta)
  moreover have "case process_event ev s of Inl f \<Rightarrow> f = Fatal_exit | Inr _ \<Rightarrow> True"
    using process_event_keeps [OF inv, of ev] by (simp add: keeps_def split: sum.splits)
  ultimately show ?thesis
    using inv unfolding store_inv_def store_inv0_def tables_defs all_ids_def by (elim conjE) (intro conjI)
qed

definition blank_store :: flash_store where
  "blank_store = (sample_store NORMAL)\<lparr>obj_lmt := [], head := zero_head, dev := sample_device\<lparr>d_head := None\<rparr>\<rparr>"

definition sample_conf :: disk_conf where
  "sample_conf = \<lparr>dc_uuid = replicate 16 7, dc_time = ''now'', dc_meta_size = 0x280000000, dc_buf = zero_buffer\<rparr>"

lemma blank_store_ok:
  "disk_fits sample_conf blank_store" "d_head (dev blank_store) = None" "obj_lmt blank_store = []"
  "no_err blank_store" "Start_trim_thread \<notin> set (acts blank_store)"
  by (simp_all add: blank_store_def sample_conf_def sample_store_def sample_device_def disk_fits_def no_err_def)

theorem reachable_store_consistent_witness:
  "\<exists>s t. store_reachable sample_conf blank_store blank_store (s, t) \<and>
     used_ids (head s) (obj_lmt s) + mset (q_list (free_obj_queue s)) + mset (q_list (trim_obj_queue s)) =
       mset (map int [0..<nat (obj_count (head s))])"
proof -
  obtain t s where r: "store_reachable sample_conf blank_store blank_store (s, t)"
    using store_init_succeeds [OF blank_store_ok(4,2,5), of sample_conf blank_store] store_reachable.start by blast
  show ?thesis using r reachable_store_consistent [OF r blank_store_ok(1-3)] by blast
qed

end
