(* ===== verification/Store_Layout.thy ===== *)
theory Store_Layout
  imports Store_Machine
begin

text \<open>
  Where the I/O of the store goes on the device. The geometry fixed by the format never
  changes, the objects of the disk do not overlap each other or the metadata, and every
  request, also one that had to wait for a copy on write, is sent to the object of an entry
  of its own chain.
\<close>

section \<open>The geometry never changes\<close>

definition geo :: "flash_store \<Rightarrow> HeadPage \<times> u64" where
  "geo s = (fixed_head (head s), in_obj_offset_mask s)"

lemma geo_tbl: "tbl s' = tbl s \<Longrightarrow> geo s' = geo s"
  by (simp add: geo_def tbl_def)

lemma geo_fields [simp]:
  "geo (s\<lparr>obj_lmt := m\<rparr>) = geo s" "geo (s\<lparr>free_obj_queue := q\<rparr>) = geo s"
  "geo (s\<lparr>trim_obj_queue := q\<rparr>) = geo s" "geo (s\<lparr>lmt_entry_pool := p\<rparr>) = geo s"
  "geo (s\<lparr>acts := as\<rparr>) = geo s" "geo (s\<lparr>dev := d\<rparr>) = geo s" "geo (s\<lparr>to_run_compact := c\<rparr>) = geo s"
  "geo (update_entry k a g s) = geo s"
  by (simp_all add: geo_def update_entry_def split: option.split)

lemma write_entry_geo: "write_entry it s = Inr (rc, s') \<Longrightarrow> geo s' = geo s"
  by (rule geo_tbl) (rule write_entry_tbl)

lemma new_entry_geo: "new_entry seq st s = Inr (e, s1) \<Longrightarrow> geo s1 = geo s"
  by (auto simp: new_entry_def split: prod.splits option.splits)

lemma do_write_geo: "do_write io s = Inr (rc, s') \<Longrightarrow> geo s' = geo s"
  by (auto simp: do_write_def write_new_def write_cow_def write_recovering_def log_defs Let_def
      split: option.splits list.splits if_splits dest!: write_entry_geo new_entry_geo)

lemma trim_entries_geo: "trim_entries k es s = Inr s' \<Longrightarrow> geo s' = geo s"
proof (induction es arbitrary: s)
  case (Cons e es)
  let ?s1 = "case lmt_find k s of None \<Rightarrow> s
    | Some c \<Rightarrow> set_chain k (filter (\<lambda>x. e_addr x \<noteq> e_addr e) c) s"
  have g: "geo ?s1 = geo s" by (simp split: option.split)
  show ?case using Cons.prems Cons.IH
    by (auto simp: Let_def log_defs g dest!: write_entry_geo)
qed simp

lemma delete_where_geo: "delete_where k m s = Inr (rc, s') \<Longrightarrow> geo s' = geo s"
  by (auto simp: delete_where_def split: option.splits if_splits dest!: trim_entries_geo)

lemma delete_all_geo: "delete_all k as s = Inr s' \<Longrightarrow> geo s' = geo s"
  by (induction as arbitrary: s) (auto simp: delete_obj_def dest!: delete_where_geo)

lemma delete_replica_obj_geo: "delete_replica_obj r off s = Inr s' \<Longrightarrow> geo s' = geo s"
  by (auto simp: delete_replica_obj_def delete_obj_def Let_def split: option.splits list.splits if_splits
      dest!: delete_all_geo delete_where_geo)

lemma delete_replica_objs_geo: "delete_replica_objs r is s = Inr s' \<Longrightarrow> geo s' = geo s"
  by (induction "is" arbitrary: s) (auto dest!: delete_replica_obj_geo)

lemma trim_one_geo: "trim_one s = Inr (rc, s') \<Longrightarrow> geo s' = geo s"
  by (auto simp: trim_one_def log_defs Let_def split: if_splits dest!: write_entry_geo)

lemma run_waiting_geo: "run_waiting ts s = Some r \<Longrightarrow> r = Inr s' \<longrightarrow> geo s' = geo s"
proof (erule run_waiting.raw_induct [rotated], intro impI, goal_cases)
  case (1 rw ts s r)
  show ?case
  proof (cases ts)
    case Nil
    then show ?thesis using 1(2,3) by auto
  next
    case (Cons t rest)
    show ?thesis
    proof (cases "do_write t s")
      case (Inl f)
      then show ?thesis using 1(2,3) Cons by (auto split: if_splits)
    next
      case (Inr b)
      have g: "geo (snd b) = geo s" using do_write_geo [of t s "fst b" "snd b"] Inr by simp
      show ?thesis using 1 Cons Inr g by (auto simp: case_prod_beta split: if_splits)
    qed
  qed
qed

lemma delete_delayed_geo: "delete_delayed k a s = Inr s' \<Longrightarrow> geo s' = geo s"
  by (auto simp: delete_delayed_def delete_obj_def split: option.splits if_splits dest!: delete_where_geo)

lemma fold_complete_geo [simp]: "geo (fold (\<lambda>t s'. act (Complete t st) s') ts s) = geo s"
  by (induction ts arbitrary: s) simp_all

lemma finish_waiting_geo:
  assumes "Option.bind (run_waiting ws s) (\<lambda>r. Some (bnd r (delete_delayed k src))) = Some (Inr s')"
  shows "geo s' = geo s"
proof -
  obtain r where r: "run_waiting ws s = Some r" and f: "bnd r (delete_delayed k src) = Inr s'"
    using assms by (cases "run_waiting ws s") simp_all
  then obtain s4 where "r = Inr s4" "delete_delayed k src s4 = Inr s'" by (cases r) simp_all
  then show ?thesis using run_waiting_geo [OF r] delete_delayed_geo by metis
qed

lemma cow_done_geo: "cow_done k src dst s = Some (Inr s') \<Longrightarrow> geo s' = geo s"
  by (auto simp: cow_done_def log_defs Let_def split: option.splits sum.splits
      dest!: write_entry_geo finish_waiting_geo)

lemma do_cow_entry_geo:
  assumes r: "do_cow_entry k src dst s = Some (Inr s')"
  shows "geo s' = geo s"
proof -
  obtain a b where f: "find_entry k src s = Some a" "find_entry k dst s = Some b"
    using r by (cases "find_entry k src s"; cases "find_entry k dst s") (simp_all add: do_cow_entry_def)
  let ?c = "cow_copy (e_offset a) (e_offset b) [0..<unat (objsize (head s) div COW_OBJ_SIZE)] s"
  have g: "geo (snd ?c) = geo s" by (rule geo_tbl [OF cow_copy_tbl])
  show ?thesis
  proof (cases "fst ?c")
    case True
    then show ?thesis using r f g
      by (auto simp: do_cow_entry_def case_prod_beta cow_failed_def split: option.splits)
  next
    case False
    then show ?thesis using r f g cow_done_geo [of k src dst "snd ?c" s']
      by (simp add: do_cow_entry_def case_prod_beta)
  qed
qed

lemma end_cow_scc_geo: "end_cow_scc rc k src dst s = Some (Inr s') \<Longrightarrow> geo s' = geo s"
  by (auto simp: end_cow_scc_def Let_def split: option.splits if_splits dest!: finish_waiting_geo)

lemma drop_target_geo: "drop_target k n t s = Inr (rc, s') \<Longrightarrow> geo s' = geo s"
  by (auto simp: drop_target_def delete_obj_def split: option.splits if_splits dest!: delete_where_geo)

lemma renumber_target_geo: "renumber_target k t n s = Inr (rc, s') \<Longrightarrow> geo s' = geo s"
  by (auto simp: renumber_target_def log_defs dest!: write_entry_geo)

lemma delete_target_geo: "delete_target k a b c n t p s = Inr (rc, s') \<Longrightarrow> geo s' = geo s"
  by (auto simp: delete_target_def Let_def split: if_splits dest!: drop_target_geo renumber_target_geo)

lemma delete_obj_snapshot_geo: "delete_obj_snapshot v lba a b c s = Inr (rc, s') \<Longrightarrow> geo s' = geo s"
  by (auto simp: delete_obj_snapshot_def Let_def split: option.splits if_splits dest!: delete_target_geo)

lemma delete_snapshot_objs_geo: "delete_snapshot_objs v ls a b c s = Inr s' \<Longrightarrow> geo s' = geo s"
  by (induction ls arbitrary: s) (auto dest!: delete_obj_snapshot_geo)

lemma compaction_work_geo:
  assumes "compaction_work s t = Some (Inr (b, s', t'))"
  shows "geo s' = geo s"
proof -
  let ?c = "compact_meta_data (s\<lparr>to_run_compact := COMPACT_RUNNING\<rparr>) t"
  show ?thesis
  proof (cases "to_run_compact s = COMPACT_TODO")
    case True
    then obtain x where x: "?c = Some (Inr x)"
      using assms(1) by (cases ?c; cases "the ?c") (simp_all add: compaction_work_def)
    have "?c = Some (Inr (fst x, fst (snd x), snd (snd x)))" using x by simp
    from geo_tbl [OF compact_meta_data_tbl [OF this]] show ?thesis
      using assms(1) True x by (auto simp: compaction_work_def case_prod_beta split: if_splits)
  qed (use assms in \<open>simp add: compaction_work_def\<close>)
qed

lemma process_event_geo:
  assumes "process_event ev s = Inr (rc, s')"
  shows "geo s' = geo s"
proof (cases ev)
  case (EVT_IO_REQ io)
  have "geo (snd (do_read io s)) = geo s" by (simp add: do_read_def Let_def split: option.split)
  then show ?thesis using assms EVT_IO_REQ
    by (auto simp: process_event_def Let_def split: if_splits dest!: do_write_geo)
next
  case EVT_SAVEMD
  have "tbl (snd b) = tbl s" if "meta_data_compaction_trigger COMPACT_TODO False s = Inr b" for b
    using tbl_trigger [where st = COMPACT_TODO and force = False and s = s] that by (simp add: case_prod_beta)
  then show ?thesis using assms EVT_SAVEMD
    by (auto simp: process_event_def split: if_splits dest!: geo_tbl)
qed (use assms in \<open>auto simp: process_event_def\<close>)

lemma store_step_geo:
  assumes "store_step (s, t) (s', t')"
  shows "geo s' = geo s"
  using assms
proof (cases rule: store_step.cases)
  case (woken rc)
  then show ?thesis by (simp add: compaction_woken_def)
qed (auto simp: delete_replica_def delete_snapshot_def Let_def
    dest!: process_event_geo trim_one_geo delete_replica_objs_geo delete_snapshot_objs_geo
      do_cow_entry_geo end_cow_scc_geo compaction_work_geo)

section \<open>Objects on the device\<close>

definition geom_exact :: "flash_store \<Rightarrow> bool" where
  "geom_exact s \<longleftrightarrow> objsize (head s) = DEFAULT_OBJ_SIZE \<and> objsize_order (head s) = DEFAULT_OBJ_SIZE_ORDER \<and>
     in_obj_offset_mask s = DEFAULT_OBJ_SIZE - 1 \<and> meta_size (head s) \<le> tray_capacity (head s) \<and>
     obj_count (head s) = uint (tray_capacity (head s) - meta_size (head s)) div 2 ^ 26"

lemma geom_exact_geo:
  assumes "geo s' = geo s"
  shows "geom_exact s' = geom_exact s"
proof -
  have h: "fixed_head (head s') = fixed_head (head s)" and m: "in_obj_offset_mask s' = in_obj_offset_mask s"
    using assms by (simp_all add: geo_def)
  show ?thesis unfolding geom_exact_def fixed_head_fields [OF h] fixed_head_geometry [OF h] m ..
qed

lemma store_reachable_geom:
  assumes reach: "store_reachable cf mem s0 (s, t)"
    and fits: "disk_fits cf s0" and new: "d_head (dev s0) = None" and empty: "obj_lmt s0 = []"
  shows "geom_exact s"
proof -
  have "geom_exact (fst m)" if "store_reachable cf mem s0 m" for m
    using that
  proof (induction rule: store_reachable.induct)
    case (start t s)
    then show ?case using store_init_new_disk [OF start fits new empty] fits by (simp add: geom_exact_def disk_fits_def)
  next
    case (step m m')
    have "geo (fst m') = geo (fst m)"
      using step.hyps(2) store_step_geo [of "fst m" "snd m" "fst m'" "snd m'"] by simp
    from geom_exact_geo [OF this] step.IH show ?case by simp
  qed
  from this [OF reach] show ?thesis by simp
qed

text \<open>The byte range of an object, as numbers.\<close>

definition obj_lo :: "lmt_entry \<Rightarrow> int" where
  "obj_lo e = uint (e_offset e)"

definition table_list :: "flash_store \<Rightarrow> lmt_entry list" where
  "table_list s = concat (map snd (obj_lmt s))"

lemma uint_push_bit_small:
  assumes "0 \<le> i" and "i < 2 ^ 31"
  shows "uint (push_bit 26 (word_of_int i) :: u64) = i * 2 ^ 26"
proof -
  have "uint (push_bit 26 (word_of_int i) :: u64) = take_bit 64 (push_bit 26 i)"
    by (simp add: unsigned_of_int flip: of_int_push_bit)
  then show ?thesis using assms by (simp add: push_bit_eq_mult take_bit_int_eq_self)
qed

lemma object_position:
  assumes g: "geom_exact s" and i: "0 \<le> i" "i < obj_count (head s)"
  shows "uint (obj_id_to_offset (head s) i) = uint (meta_size (head s)) + i * 2 ^ 26 \<and>
    uint (obj_id_to_offset (head s) i) + 2 ^ 26 \<le> uint (tray_capacity (head s))"
proof -
  let ?m = "meta_size (head s)" and ?t = "tray_capacity (head s)"
  have le: "uint ?m \<le> uint ?t" using g by (simp add: geom_exact_def word_le_def)
  have sub: "uint (?t - ?m) = uint ?t - uint ?m"
    using g by (simp add: geom_exact_def uint_sub_if' word_le_def)
  have "(i + 1) \<le> (uint ?t - uint ?m) div 2 ^ 26" using i(2) g sub by (simp add: geom_exact_def)
  then have "(i + 1) * 2 ^ 26 \<le> (uint ?t - uint ?m) div 2 ^ 26 * 2 ^ 26" by (intro mult_right_mono) simp_all
  also have "\<dots> \<le> uint ?t - uint ?m" using le by (simp add: div_mult_mod_eq [symmetric] minus_mod_eq_div_mult [symmetric])
  finally have b: "uint ?m + i * 2 ^ 26 + 2 ^ 26 \<le> uint ?t" by (simp add: algebra_simps)
  have "i < 2 ^ 31" using i(2) obj_count_bound [of "head s"] by simp
  then have p: "uint (push_bit 26 (word_of_int i) :: u64) = i * 2 ^ 26" by (rule uint_push_bit_small [OF i(1)])
  have "uint ?t < 2 ^ 64" using uint_lt2p [of ?t] by simp
  then have "uint (push_bit 26 (word_of_int i) + ?m) = uint ?m + i * 2 ^ 26"
    using b p by (simp add: uint_add_lem [THEN iffD1])
  then show ?thesis using g b by (simp add: obj_id_to_offset_def geom_exact_def DEFAULT_OBJ_SIZE_ORDER_def)
qed

lemma table_list_mset: "mset (table_list s) = table_entries (obj_lmt s)"
  by (simp add: table_list_def table_entries_def)

lemma chain_in_table: "set (chain_of k (obj_lmt s)) \<subseteq> set (table_list s)"
  using set_mset_mono [OF chain_of_entries [of k "obj_lmt s"]]
  unfolding table_list_mset [symmetric] by simp

lemma table_ids:
  assumes "store_inv s"
  shows "distinct (map (\<lambda>e. offset_to_obj_id (head s) (e_offset e)) (table_list s))"
    and "e \<in> set (table_list s) \<Longrightarrow> 0 \<le> offset_to_obj_id (head s) (e_offset e) \<and>
      offset_to_obj_id (head s) (e_offset e) < obj_count (head s) \<and>
      obj_id_to_offset (head s) (offset_to_obj_id (head s) (e_offset e)) = e_offset e"
proof -
  let ?id = "\<lambda>e. offset_to_obj_id (head s) (e_offset e)"
  have t: "objects_conserved (head s) (obj_lmt s) (free_obj_queue s) (trim_obj_queue s)" "offsets_ok (head s) (obj_lmt s)"
    using assms by (simp_all add: store_inv_def store_inv0_def tables_inv0_def)
  have eq: "mset (map ?id (table_list s)) + (mset (q_list (free_obj_queue s)) + mset (q_list (trim_obj_queue s))) =
      mset (map int [0..<nat (obj_count (head s))])"
    using t(1) by (simp only: objects_conserved_def used_ids_def table_list_mset [symmetric] all_ids_def mset_map add.assoc)
  have sub: "mset (map ?id (table_list s)) \<subseteq># mset (map int [0..<nat (obj_count (head s))])"
    unfolding eq [symmetric] by (rule mset_subset_eq_add_left)
  show "distinct (map ?id (table_list s))"
    by (rule distinct_part [OF sub]) (simp add: distinct_map)
  show "0 \<le> ?id e \<and> ?id e < obj_count (head s) \<and> obj_id_to_offset (head s) (?id e) = e_offset e"
    if e: "e \<in> set (table_list s)"
  proof -
    have "?id e \<in># mset (map ?id (table_list s))" using e by auto
    then have "?id e \<in># all_ids (head s)" using mset_subset_eqD [OF sub] unfolding all_ids_def by blast
    moreover have "e_offset e \<in># image_mset e_offset (table_entries (obj_lmt s))"
      using e unfolding table_list_mset [symmetric] by simp
    ultimately show ?thesis using t(2) unfolding all_ids_range offsets_ok_def by blast
  qed
qed

lemma table_position:
  assumes inv: "store_inv s" and g: "geom_exact s" and e: "e \<in> set (table_list s)"
  shows "obj_lo e = uint (meta_size (head s)) + offset_to_obj_id (head s) (e_offset e) * 2 ^ 26"
    and "uint (meta_size (head s)) \<le> obj_lo e" and "obj_lo e + 2 ^ 26 \<le> uint (tray_capacity (head s))"
proof -
  note I = table_ids(2) [OF inv e]
  have P: "uint (obj_id_to_offset (head s) (offset_to_obj_id (head s) (e_offset e))) =
      uint (meta_size (head s)) + offset_to_obj_id (head s) (e_offset e) * 2 ^ 26 \<and>
    uint (obj_id_to_offset (head s) (offset_to_obj_id (head s) (e_offset e))) + 2 ^ 26 \<le> uint (tray_capacity (head s))"
    using object_position [OF g] I by blast
  show "obj_lo e = uint (meta_size (head s)) + offset_to_obj_id (head s) (e_offset e) * 2 ^ 26"
    "uint (meta_size (head s)) \<le> obj_lo e" "obj_lo e + 2 ^ 26 \<le> uint (tray_capacity (head s))"
    using P I by (simp_all add: obj_lo_def)
qed

lemma objects_apart:
  assumes inv: "store_inv s" and g: "geom_exact s"
    and e: "e \<in> set (table_list s)" "e' \<in> set (table_list s)" "e \<noteq> e'"
  shows "obj_lo e + 2 ^ 26 \<le> obj_lo e' \<or> obj_lo e' + 2 ^ 26 \<le> obj_lo e"
proof -
  let ?id = "\<lambda>e. offset_to_obj_id (head s) (e_offset e)"
  have "inj_on ?id (set (table_list s))" using table_ids(1) [OF inv] by (simp add: distinct_map)
  then have "?id e \<noteq> ?id e'" using e by (meson inj_on_def)
  then have "?id e + 1 \<le> ?id e' \<or> ?id e' + 1 \<le> ?id e" by linarith
  then show ?thesis unfolding table_position(1) [OF inv g e(1)] table_position(1) [OF inv g e(2)] by auto
qed

section \<open>The requests sent to the engine\<close>

fun io_request :: "store_action \<Rightarrow> (io_sub_task \<times> u64 \<times> u32) list" where
  "io_request (Submit_io io off len) = [(io, off, len)]"
| "io_request _ = []"

definition io_requests :: "flash_store \<Rightarrow> (io_sub_task \<times> u64 \<times> u32) list" where
  "io_requests s = concat (map io_request (acts s))"

lemma io_requests_simps [simp]:
  "io_requests (s\<lparr>obj_lmt := m\<rparr>) = io_requests s" "io_requests (s\<lparr>free_obj_queue := q\<rparr>) = io_requests s"
  "io_requests (s\<lparr>trim_obj_queue := q\<rparr>) = io_requests s" "io_requests (s\<lparr>lmt_entry_pool := p\<rparr>) = io_requests s"
  "io_requests (s\<lparr>to_run_compact := c\<rparr>) = io_requests s" "io_requests (s\<lparr>dev := d\<rparr>) = io_requests s"
  "io_requests (update_entry k ad g s) = io_requests s"
  "io_requests (act a s) = io_requests s @ io_request a"
  by (simp_all add: io_requests_def update_entry_def split: option.split)

lemma trigger_ios: "meta_data_compaction_trigger st force s = Inr (rc, s') \<Longrightarrow> io_requests s' = io_requests s"
  by (auto simp: meta_data_compaction_trigger_def set_log_phase_def io_requests_def Let_def case_prod_beta split: if_splits)

lemma write_entry_ios: "write_entry it s = Inr (rc, s') \<Longrightarrow> io_requests s' = io_requests s"
  by (auto simp: write_entry_def put_log_page_def io_requests_def Let_def case_prod_beta split: if_splits
      dest!: trigger_ios)

lemma new_entry_ios: "new_entry seq st s = Inr (e, s1) \<Longrightarrow> io_requests s1 = io_requests s"
  by (auto simp: new_entry_def split: prod.splits option.splits)

text \<open>Trimming, deleting and compacting send no request.\<close>

lemma trim_entries_ios: "trim_entries k es s = Inr s' \<Longrightarrow> io_requests s' = io_requests s"
proof (induction es arbitrary: s)
  case (Cons e es)
  let ?s1 = "case lmt_find k s of None \<Rightarrow> s
    | Some c \<Rightarrow> set_chain k (filter (\<lambda>x. e_addr x \<noteq> e_addr e) c) s"
  have g: "io_requests ?s1 = io_requests s" by (simp split: option.split)
  show ?case using Cons.prems Cons.IH
    by (auto simp: Let_def log_defs g dest!: write_entry_ios)
qed simp

lemma delete_where_ios: "delete_where k m s = Inr (rc, s') \<Longrightarrow> io_requests s' = io_requests s"
  by (auto simp: delete_where_def split: option.splits if_splits dest!: trim_entries_ios)

lemma delete_all_ios: "delete_all k as s = Inr s' \<Longrightarrow> io_requests s' = io_requests s"
  by (induction as arbitrary: s) (auto simp: delete_obj_def dest!: delete_where_ios)

lemma delete_replica_obj_ios: "delete_replica_obj r off s = Inr s' \<Longrightarrow> io_requests s' = io_requests s"
  by (auto simp: delete_replica_obj_def delete_obj_def Let_def split: option.splits list.splits if_splits
      dest!: delete_all_ios delete_where_ios)

lemma delete_replica_objs_ios: "delete_replica_objs r is s = Inr s' \<Longrightarrow> io_requests s' = io_requests s"
  by (induction "is" arbitrary: s) (auto dest!: delete_replica_obj_ios)

lemma trim_one_ios: "trim_one s = Inr (rc, s') \<Longrightarrow> io_requests s' = io_requests s"
  by (auto simp: trim_one_def log_defs Let_def split: if_splits dest!: write_entry_ios)

lemma drop_target_ios: "drop_target k n t s = Inr (rc, s') \<Longrightarrow> io_requests s' = io_requests s"
  by (auto simp: drop_target_def delete_obj_def split: option.splits if_splits dest!: delete_where_ios)

lemma renumber_target_ios: "renumber_target k t n s = Inr (rc, s') \<Longrightarrow> io_requests s' = io_requests s"
  by (auto simp: renumber_target_def log_defs dest!: write_entry_ios)

lemma delete_target_ios: "delete_target k a b c n t p s = Inr (rc, s') \<Longrightarrow> io_requests s' = io_requests s"
  by (auto simp: delete_target_def Let_def split: if_splits dest!: drop_target_ios renumber_target_ios)

lemma delete_obj_snapshot_ios: "delete_obj_snapshot v lba a b c s = Inr (rc, s') \<Longrightarrow> io_requests s' = io_requests s"
  by (auto simp: delete_obj_snapshot_def Let_def split: option.splits if_splits dest!: delete_target_ios)

lemma delete_snapshot_objs_ios: "delete_snapshot_objs v ls a b c s = Inr s' \<Longrightarrow> io_requests s' = io_requests s"
  by (induction ls arbitrary: s) (auto dest!: delete_obj_snapshot_ios)

lemma compact_meta_data_acts: "compact_meta_data s t = Some (Inr (rc, s', t')) \<Longrightarrow> acts s' = acts s"
  by (auto simp: compact_meta_data_def compact_failed_def obnd_def Let_def
      split: option.splits sum.splits prod.splits if_splits)

lemma compaction_work_ios:
  assumes "compaction_work s t = Some (Inr (b, s', t'))"
  shows "io_requests s' = io_requests s"
proof -
  let ?c = "compact_meta_data (s\<lparr>to_run_compact := COMPACT_RUNNING\<rparr>) t"
  show ?thesis
  proof (cases "to_run_compact s = COMPACT_TODO")
    case True
    then obtain x where x: "?c = Some (Inr x)"
      using assms(1) by (cases ?c; cases "the ?c") (simp_all add: compaction_work_def)
    have "?c = Some (Inr (fst x, fst (snd x), snd (snd x)))" using x by simp
    from compact_meta_data_acts [OF this] show ?thesis
      using assms(1) True x by (auto simp: compaction_work_def io_requests_def case_prod_beta split: if_splits)
  qed (use assms in \<open>simp add: compaction_work_def\<close>)
qed

lemma cow_copy_acts: "acts (snd (cow_copy src dst js s)) = acts s"
  by (induction js arbitrary: s) (simp_all add: cow_piece_def ext_call_def case_prod_beta)

lemma fold_complete_ios [simp]: "io_requests (fold (\<lambda>t s'. act (Complete t st) s') ts s) = io_requests s"
  by (induction ts arbitrary: s) simp_all

text \<open>
  A request of a task goes to the object of an entry of the task's own chain. Further
  writes keep the objects of every chain, so it does so also after them.
\<close>

definition sent_to :: "flash_store \<Rightarrow> io_sub_task \<times> u64 \<times> u32 \<Rightarrow> bool" where
  "sent_to s r \<longleftrightarrow> (case r of (io, off, len) \<Rightarrow> len = m_length (io_cmd io) \<and>
     (\<exists>e \<in> set (chain_of (io_key s io) (obj_lmt s)). off = media_offset s io e))"

definition sends :: "flash_store \<Rightarrow> flash_store \<Rightarrow> bool" where
  "sends s s' \<longleftrightarrow> (\<exists>rs. io_requests s' = io_requests s @ rs \<and> list_all (sent_to s') rs)"

definition keeps_objects :: "flash_store \<Rightarrow> flash_store \<Rightarrow> bool" where
  "keeps_objects s s' \<longleftrightarrow> geo s' = geo s \<and>
     (\<forall>k. e_offset ` set (chain_of k (obj_lmt s)) \<subseteq> e_offset ` set (chain_of k (obj_lmt s')))"

lemma geo_task:
  assumes "geo s' = geo s"
  shows "io_key s' io = io_key s io" "media_offset s' io e = media_offset s io e"
proof -
  have h: "fixed_head (head s') = fixed_head (head s)" and m: "in_obj_offset_mask s' = in_obj_offset_mask s"
    using assms by (simp_all add: geo_def)
  show "io_key s' io = io_key s io" by (simp add: io_key_def fixed_head_fields [OF h])
  show "media_offset s' io e = media_offset s io e" by (simp add: media_offset_def m)
qed

lemma task_act [simp]:
  "io_key (s\<lparr>acts := as\<rparr>) io = io_key s io" "media_offset (s\<lparr>acts := as\<rparr>) io e = media_offset s io e"
  by (simp_all add: io_key_def media_offset_def)

lemma sends_none: "io_requests s' = io_requests s \<Longrightarrow> sends s s'"
  by (simp add: sends_def)

lemma sends_one:
  assumes "io_requests s' = io_requests s @ [(io, media_offset s' io e, m_length (io_cmd io))]"
    and "e \<in> set (chain_of (io_key s' io) (obj_lmt s'))"
  shows "sends s s'"
  using assms by (auto simp: sends_def sent_to_def)

lemma sent_to_kept:
  assumes "sent_to s r" and k: "keeps_objects s s'"
  shows "sent_to s' r"
proof -
  obtain io off len where r: "r = (io, off, len)" by (cases r)
  have g: "geo s' = geo s" using k by (simp add: keeps_objects_def)
  obtain e where e: "e \<in> set (chain_of (io_key s io) (obj_lmt s))" "off = media_offset s io e"
      and len: "len = m_length (io_cmd io)"
    using assms(1) r by (auto simp: sent_to_def)
  obtain e' where e': "e' \<in> set (chain_of (io_key s io) (obj_lmt s'))" "e_offset e' = e_offset e"
    using k e(1) unfolding keeps_objects_def by (metis (no_types, lifting) image_eqI image_iff subsetD)
  have "media_offset s io e' = media_offset s io e" using e'(2) by (simp add: media_offset_def)
  then have "off = media_offset s io e'" using e(2) by simp
  then show ?thesis using e'(1) len by (auto simp: r sent_to_def geo_task [OF g])
qed

lemma sends_trans: "sends s s1 \<Longrightarrow> sends s1 s' \<Longrightarrow> keeps_objects s1 s' \<Longrightarrow> sends s s'"
proof -
  assume "sends s s1" "sends s1 s'" and k: "keeps_objects s1 s'"
  then obtain rs rs' where rs: "io_requests s1 = io_requests s @ rs" "list_all (sent_to s1) rs"
      "io_requests s' = io_requests s1 @ rs'" "list_all (sent_to s') rs'"
    unfolding sends_def by blast
  have "list_all (sent_to s') rs" using rs(2) by (rule list.pred_mono_strong) (rule sent_to_kept [OF _ k])
  then have "io_requests s' = io_requests s @ (rs @ rs')" "list_all (sent_to s') (rs @ rs')" using rs by simp_all
  then show ?thesis unfolding sends_def by blast
qed

lemma keeps_objects_trans: "keeps_objects s s1 \<Longrightarrow> keeps_objects s1 s' \<Longrightarrow> keeps_objects s s'"
  unfolding keeps_objects_def
  by (intro conjI allI; elim conjE) (simp, rule subset_trans, erule spec, erule spec)

lemma keeps_objects_set:
  assumes "geo s' = geo s" and "map_of (obj_lmt s') = (map_of (obj_lmt s))(k \<mapsto> c)"
    and "e_offset ` set (chain_of k (obj_lmt s)) \<subseteq> e_offset ` set c"
  shows "keeps_objects s s'"
proof -
  have "chain_of j (obj_lmt s') = (if j = k then c else chain_of j (obj_lmt s))" for j
    using assms(2) by (simp add: chain_of_def)
  then show ?thesis using assms(1,3) by (simp add: keeps_objects_def)
qed

lemma keeps_objects_same: "geo s' = geo s \<Longrightarrow> obj_lmt s' = obj_lmt s \<Longrightarrow> keeps_objects s s'"
  by (simp add: keeps_objects_def)

lemma new_entry_lmt: "new_entry seq st s = Inr (e, s1) \<Longrightarrow> obj_lmt s1 = obj_lmt s"
  by (auto simp: new_entry_def split: prod.splits option.splits)

lemma write_new_sends:
  assumes r: "write_new io (io_key s io) s = Inr (rc, s')" and absent: "lmt_find (io_key s io) s = None"
  shows "sends s s' \<and> keeps_objects s s'"
proof (cases "q_is_empty (free_obj_queue s)")
  case True
  then have "s' = act (Submit_error io MSG_STATUS_NOSPACE) s" using r by (simp add: write_new_def)
  then show ?thesis by (simp add: sends_none keeps_objects_same)
next
  case False
  let ?k = "io_key s io"
  obtain e s1 where n: "new_entry (m_snap_seq (io_cmd io)) NORMAL s = Inr (e, s1)"
    using r False by (auto simp: write_new_def)
  let ?s2 = "set_chain ?k [e] s1"
  obtain rc3 s3 where w: "write_entry (ALLOCATE_OBJ ?k e (q_head (free_obj_queue s1))) ?s2 = Inr (rc3, s3)"
    using r False n by (auto simp: write_new_def log_defs Let_def)
  have i3: "io_requests s3 = io_requests s" using write_entry_ios [OF w] new_entry_ios [OF n] by simp
  have g3: "geo s3 = geo s" using write_entry_geo [OF w] new_entry_geo [OF n] by simp
  have l3: "obj_lmt s3 = AList.update ?k [e] (obj_lmt s)"
    using tblD(1) [OF write_entry_tbl [OF w]] new_entry_lmt [OF n] by simp
  have k3: "keeps_objects s (act a s3)" for a
    using g3 l3 absent by (intro keeps_objects_set [where k = ?k and c = "[e]"]) (simp_all add: chain_of_def update_conv')
  show ?thesis
  proof (cases "rc3 = 0")
    case True
    let ?s' = "act (Submit_io io (media_offset s3 io e) (m_length (io_cmd io))) s3"
    have s': "s' = ?s'" using r False n w True by (auto simp: write_new_def log_defs Let_def)
    have "sends s ?s'"
      using i3 l3 by (intro sends_one [where e = e and io = io]) (simp_all add: geo_task [OF g3] chain_of_def)
    then show ?thesis using s' k3 by simp
  next
    case False
    then have "s' = act (Submit_error io MSG_STATUS_LOGFAILED) s3"
      using r n w \<open>\<not> q_is_empty (free_obj_queue s)\<close> by (auto simp: write_new_def log_defs Let_def)
    then show ?thesis using i3 k3 by (simp add: sends_none)
  qed
qed

lemma write_cow_sends:
  assumes r: "write_cow io k e0 c s = Inr (rc, s')" and old: "lmt_find k s = Some (e0 # c)"
  shows "sends s s' \<and> keeps_objects s s'"
proof (cases "q_is_empty (free_obj_queue s)")
  case True
  then have "s' = act (Submit_error io MSG_STATUS_NOSPACE) s" using r by (simp add: write_cow_def)
  then show ?thesis by (simp add: sends_none keeps_objects_same)
next
  case False
  obtain e s1 where n: "new_entry (m_snap_seq (io_cmd io)) COPYING s = Inr (e, s1)"
    using r False by (auto simp: write_cow_def)
  obtain rc3 s3 where w: "write_entry (ALLOCATE_OBJ k e (q_head (free_obj_queue s1))) (set_chain k (e # e0 # c) s1) = Inr (rc3, s3)"
    using r False n by (auto simp: write_cow_def log_defs Let_def)
  have i3: "io_requests s3 = io_requests s" using write_entry_ios [OF w] new_entry_ios [OF n] by simp
  have g3: "geo s3 = geo s" using write_entry_geo [OF w] new_entry_geo [OF n] by simp
  have l3: "obj_lmt s3 = AList.update k (e # e0 # c) (obj_lmt s)"
    using tblD(1) [OF write_entry_tbl [OF w]] new_entry_lmt [OF n] by simp
  have i: "io_requests s' = io_requests s" and g: "geo s' = geo s"
    using r False n w i3 g3 by (auto simp: write_cow_def log_defs Let_def io_requests_def split: if_splits)
  have "\<exists>ws. map_of (obj_lmt s') = (map_of (obj_lmt s))(k \<mapsto> e\<lparr>e_waiting_io := ws\<rparr> # e0 # c)"
  proof (cases "rc3 = 0")
    case True
    then have "obj_lmt s' = AList.update k (e\<lparr>e_waiting_io := [io]\<rparr> # e0 # c) (obj_lmt s3)"
      using r False n w by (auto simp: write_cow_def log_defs Let_def split: if_splits)
    then have "map_of (obj_lmt s') = (map_of (obj_lmt s))(k \<mapsto> e\<lparr>e_waiting_io := [io]\<rparr> # e0 # c)"
      using l3 by (simp add: update_conv')
    then show ?thesis by blast
  next
    case rc: False
    then have "map_of (obj_lmt s') = (map_of (obj_lmt s))(k \<mapsto> e\<lparr>e_waiting_io := e_waiting_io e\<rparr> # e0 # c)"
      using r False n w l3 by (auto simp: write_cow_def log_defs Let_def update_conv' split: if_splits)
    then show ?thesis ..
  qed
  then obtain ws where l: "map_of (obj_lmt s') = (map_of (obj_lmt s))(k \<mapsto> e\<lparr>e_waiting_io := ws\<rparr> # e0 # c)" ..
  have "keeps_objects s s'" by (rule keeps_objects_set [OF g l]) (use old in \<open>auto simp: chain_of_def\<close>)
  then show ?thesis using i by (simp add: sends_none)
qed

lemma do_write_sends:
  assumes inv: "store_inv s" and r: "do_write io s = Inr (rc, s')"
  shows "sends s s' \<and> keeps_objects s s'"
proof -
  let ?io = "io\<lparr>io_opcode := m_opcode (io_cmd io)\<rparr>"
  let ?k = "io_key s io"
  have io: "io_key s ?io = ?k" "io_cmd ?io = io_cmd io" by (simp_all add: io_key_def)
  show ?thesis
  proof (cases "lmt_find ?k s")
    case None
    then have "write_new ?io (io_key s ?io) s = Inr (rc, s')" using r io by (simp add: do_write_def Let_def)
    from write_new_sends [OF this] None io show ?thesis by simp
  next
    case (Some ch)
    note facts = store_inv_chain [OF inv Some]
    obtain e c where ch: "ch = e # c" using facts(1) by (cases ch) auto
    have st: "e_status e = NORMAL \<or> e_status e = COPYING" using facts(3) ch by auto
    consider (newer) "e_snap_seq e < m_snap_seq (io_cmd io)" | (same) "m_snap_seq (io_cmd io) = e_snap_seq e"
      | (older) "m_snap_seq (io_cmd io) < e_snap_seq e" by fastforce
    then show ?thesis
    proof cases
      case newer
      then have "m_snap_seq (io_cmd io) \<noteq> e_snap_seq e" "\<not> m_snap_seq (io_cmd io) < e_snap_seq e" by auto
      then have "write_cow ?io ?k e c s = Inr (rc, s')" using r io(1) Some ch st by (auto simp: do_write_def Let_def)
      from write_cow_sends [OF this] Some ch show ?thesis by simp
    next
      case older
      then have "m_snap_seq (io_cmd io) \<noteq> e_snap_seq e" by auto
      with older have "s' = act (Complete ?io MSG_STATUS_READONLY) s" using r io(1) Some ch st
        by (auto simp: do_write_def Let_def)
      then show ?thesis by (simp add: sends_none keeps_objects_same)
    next
      case same
      show ?thesis
      proof (cases "e_status e = NORMAL")
        case True
        let ?s' = "act (Submit_io ?io (media_offset s ?io e) (m_length (io_cmd io))) s"
        have s': "s' = ?s'" using True same r io(1) Some ch by (auto simp: do_write_def Let_def)
        have "sends s ?s'"
          by (rule sends_one [where e = e and io = ?io]) (use Some ch in \<open>simp_all add: io chain_of_def\<close>)
        then show ?thesis using s' by (simp add: keeps_objects_same)
      next
        case False
        then have s': "s' = set_chain ?k (e\<lparr>e_waiting_io := ?io # e_waiting_io e\<rparr> # c) s"
          using same r io(1) Some ch st by (auto simp: do_write_def Let_def)
        have "keeps_objects s s'" unfolding s'
          by (rule keeps_objects_set [where k = ?k and c = "e\<lparr>e_waiting_io := ?io # e_waiting_io e\<rparr> # c"])
            (use Some ch in \<open>simp_all add: chain_of_def update_conv'\<close>)
        then show ?thesis by (simp add: s' sends_none)
      qed
    qed
  qed
qed

lemma chain_at_mem: "chain_at q c = Some e \<Longrightarrow> e \<in> set c"
  by (induction c) (auto split: if_splits)

lemma do_read_sends: "sends s (snd (do_read io s))"
proof (cases "lmt_find (io_key s io) s")
  case None
  then show ?thesis by (intro sends_none) (simp add: do_read_def)
next
  case (Some c)
  show ?thesis
  proof (cases "chain_at (m_snap_seq (io_cmd io)) c")
    case None
    then show ?thesis using Some by (intro sends_none) (simp add: do_read_def)
  next
    case at: (Some e)
    show ?thesis
    proof (cases "e_status e = NORMAL \<or> e_status e = DELAY_DELETE_AFTER_COW")
      case True
      let ?io = "io\<lparr>io_opcode := S5_OP_READ\<rparr>"
      let ?s' = "act (Submit_io ?io (media_offset s io e) (m_length (io_cmd io))) s"
      have s': "snd (do_read io s) = ?s'" using Some at True by (auto simp: do_read_def)
      have "io_key s ?io = io_key s io" "media_offset s ?io e = media_offset s io e"
        by (simp_all add: io_key_def media_offset_def)
      then show ?thesis unfolding s'
        by (intro sends_one [where e = e and io = ?io])
          (use Some chain_at_mem [OF at] in \<open>simp_all add: chain_of_def\<close>)
    next
      case False
      then show ?thesis using Some at by (intro sends_none) (simp add: do_read_def)
    qed
  qed
qed

text \<open>
  The writes that waited for a copy are written when it ends. No entry is marked for
  deletion after the copy in a store without recovery, so nothing is deleted behind them.
\<close>

lemma run_waiting_sends:
  "run_waiting ts s = Some r \<Longrightarrow> store_inv s \<and> r = Inr s' \<longrightarrow> sends s s' \<and> keeps_objects s s'"
proof (erule run_waiting.raw_induct [rotated], intro impI, elim conjE, goal_cases)
  case (1 rw ts s r)
  show ?case
  proof (cases ts)
    case Nil
    then show ?thesis using 1(2,4) by (auto simp: sends_none keeps_objects_same)
  next
    case (Cons t rest)
    have w: "is_write_task t" using 1(2,4) Cons by (auto split: if_splits)
    obtain rc s1 where d: "do_write t s = Inr (rc, s1)"
      using 1(2,4) Cons w by (cases "do_write t s") auto
    have "rw (case waiting_behind t s1 of Some ws \<Rightarrow> ws | None \<Rightarrow> rest) s1 = Some r"
      using 1(2) Cons w d by simp
    moreover have "store_inv s1" using do_write_keeps [OF 1(3), of t] d by simp
    ultimately have "sends s1 s' \<and> keeps_objects s1 s'" using 1(1,4) by blast
    then show ?thesis using do_write_sends [OF 1(3) d] sends_trans keeps_objects_trans by blast
  qed
qed

lemma delete_delayed_idle:
  assumes inv: "store_inv s" and r: "delete_delayed k src s = Inr s'"
  shows "s' = s"
proof (cases "find_entry k src s")
  case None
  then show ?thesis using r by (simp add: delete_delayed_def)
next
  case (Some e)
  then obtain c where c: "lmt_find k s = Some c" "e \<in> set c"
    by (auto simp: find_entry_def find_Some_iff split: option.splits)
  have "e_status e \<noteq> DELAY_DELETE_AFTER_COW" using store_inv_chain(3) [OF inv c(1)] c(2) by auto
  then show ?thesis using r Some by (simp add: delete_delayed_def)
qed

lemma finish_waiting_sends:
  assumes inv: "store_inv s"
    and "Option.bind (run_waiting ws s) (\<lambda>r. Some (bnd r (delete_delayed k src))) = Some (Inr s')"
  shows "sends s s'"
proof -
  obtain r where r: "run_waiting ws s = Some r" and f: "bnd r (delete_delayed k src) = Inr s'"
    using assms(2) by (cases "run_waiting ws s") simp_all
  then obtain s4 where s4: "r = Inr s4" "delete_delayed k src s4 = Inr s'" by (cases r) simp_all
  have "store_inv s4" using run_waiting_keeps [OF r] inv s4(1) by simp
  from delete_delayed_idle [OF this s4(2)] show ?thesis using run_waiting_sends [OF r] inv s4(1) by blast
qed

lemma sends_from: "io_requests s1 = io_requests s \<Longrightarrow> sends s1 s' \<Longrightarrow> sends s s'"
  by (simp add: sends_def)

lemma cow_done_sends:
  assumes inv: "store_inv s" and r: "cow_done k src dst s = Some (Inr s')"
  shows "sends s s'"
proof -
  obtain d where d: "find_entry k dst s = Some d" using r by (cases "find_entry k dst s") (simp_all add: cow_done_def)
  let ?s1 = "update_entry k dst (\<lambda>e. e\<lparr>e_status := NORMAL\<rparr>) s"
  obtain rc s2 where w: "log_status_change k (d\<lparr>e_status := NORMAL\<rparr>) (e_status d) ?s1 = Inr (rc, s2)"
    using r d by (cases "log_status_change k (d\<lparr>e_status := NORMAL\<rparr>) (e_status d) ?s1") (auto simp: cow_done_def Let_def)
  let ?s3 = "update_entry k dst (\<lambda>e. e\<lparr>e_waiting_io := []\<rparr>) s2"
  have "store_inv ?s1" by (rule update_entry_inv [OF inv]) simp_all
  then have "store_inv s2" using store_inv_tbl [OF write_entry_tbl [OF w [unfolded log_defs]]] by simp
  then have i3: "store_inv ?s3" by (rule update_entry_inv) simp_all
  have "sends ?s3 s'" using r d w by (intro finish_waiting_sends [OF i3]) (simp add: cow_done_def Let_def)
  moreover have "io_requests ?s3 = io_requests s" using write_entry_ios [OF w [unfolded log_defs]] by simp
  ultimately show ?thesis by (rule sends_from [rotated])
qed

lemma do_cow_entry_sends:
  assumes inv: "store_inv s" and r: "do_cow_entry k src dst s = Some (Inr s')"
  shows "sends s s'"
proof -
  obtain a b where f: "find_entry k src s = Some a" "find_entry k dst s = Some b"
    using r by (cases "find_entry k src s"; cases "find_entry k dst s") (simp_all add: do_cow_entry_def)
  let ?c = "cow_copy (e_offset a) (e_offset b) [0..<unat (objsize (head s) div COW_OBJ_SIZE)] s"
  have i: "io_requests (snd ?c) = io_requests s" by (simp add: io_requests_def cow_copy_acts)
  have inv1: "store_inv (snd ?c)" using store_inv_tbl [OF cow_copy_tbl] inv by blast
  show ?thesis
  proof (cases "fst ?c")
    case True
    then have "io_requests s' = io_requests s" using r f i
      by (auto simp: do_cow_entry_def case_prod_beta cow_failed_def split: option.splits)
    then show ?thesis by (rule sends_none)
  next
    case False
    then have "cow_done k src dst (snd ?c) = Some (Inr s')" using r f by (simp add: do_cow_entry_def case_prod_beta)
    from cow_done_sends [OF inv1 this] show ?thesis by (rule sends_from [OF i])
  qed
qed

lemma end_cow_scc_sends:
  assumes inv: "store_inv s" and r: "end_cow_scc rc k src dst s = Some (Inr s')"
  shows "sends s s'"
proof -
  obtain d where d: "find_entry k dst s = Some d"
    using r by (cases "find_entry k dst s") (simp_all add: end_cow_scc_def)
  let ?s1 = "update_entry k dst (\<lambda>e. e\<lparr>e_waiting_io := []\<rparr>) s"
  have i: "store_inv ?s1" by (rule update_entry_inv [OF inv]) simp_all
  show ?thesis
  proof (cases "rc = 0")
    case True
    then have "sends ?s1 s'" using r d by (intro finish_waiting_sends [OF i]) (simp add: end_cow_scc_def Let_def)
    then show ?thesis by (rule sends_from [rotated]) simp
  next
    case False
    then have "io_requests s' = io_requests s" using r d by (auto simp: end_cow_scc_def Let_def)
    then show ?thesis by (rule sends_none)
  qed
qed

lemma process_event_sends:
  assumes inv: "store_inv s" and r: "process_event ev s = Inr (rc, s')"
  shows "sends s s'"
proof (cases ev)
  case (EVT_IO_REQ io)
  consider "s' = snd (do_read io s)" | rc' where "do_write io s = Inr (rc', s')"
    using r EVT_IO_REQ by (cases "do_write io s") (auto simp: process_event_def Let_def split: if_splits)
  then show ?thesis
  proof cases
    case 1
    then show ?thesis using do_read_sends by simp
  next
    case (2 rc')
    from do_write_sends [OF inv this] show ?thesis by simp
  qed
next
  case EVT_SAVEMD
  then have "io_requests s' = io_requests s" using r
    by (auto simp: process_event_def split: if_splits dest!: trigger_ios)
  then show ?thesis by (rule sends_none)
qed (use r in \<open>auto simp: process_event_def intro!: sends_none\<close>)

lemma store_step_sends:
  assumes inv: "store_inv s" and st: "store_step (s, t) (s', t')"
  shows "sends s s'"
  using st
proof (cases rule: store_step.cases)
  case (event ev rc)
  from process_event_sends [OF inv event(2)] show ?thesis .
next
  case (cow k src dst)
  from do_cow_entry_sends [OF inv cow(2)] show ?thesis .
next
  case (cow_scc rc k src dst)
  from end_cow_scc_sends [OF inv cow_scc(2)] show ?thesis .
next
  case (woken rc)
  then show ?thesis by (intro sends_none) (simp add: compaction_woken_def)
qed (auto simp: delete_replica_def delete_snapshot_def Let_def intro!: sends_none
    dest!: trim_one_ios delete_replica_objs_ios delete_snapshot_objs_ios compaction_work_ios)

text \<open>
  The place of a task in its block, and the bytes of a request that belong to the object
  of an entry.
\<close>

definition block_offset :: "io_sub_task \<Rightarrow> int" where
  "block_offset io = uint (m_offset (io_cmd io)) mod 2 ^ 26"

definition inside_object :: "lmt_entry \<Rightarrow> u64 \<times> u32 \<Rightarrow> bool" where
  "inside_object e r \<longleftrightarrow> obj_lo e \<le> uint (fst r) \<and> uint (fst r) + uint (snd r) \<le> obj_lo e + 2 ^ 26"

lemma media_offset_exact:
  assumes inv: "store_inv s" and g: "geom_exact s" and e: "e \<in> set (table_list s)"
  shows "uint (media_offset s io e) = obj_lo e + block_offset io"
proof -
  let ?o = "offset_in_block (m_offset (io_cmd io)) (DEFAULT_OBJ_SIZE - 1)"
  have m: "media_offset s io e = e_offset e + ?o" using g by (simp add: media_offset_def geom_exact_def)
  have "?o = take_bit 26 (m_offset (io_cmd io))"
    by (simp add: offset_in_block_def DEFAULT_OBJ_SIZE_def take_bit_eq_mask mask_eq_exp_minus_1)
  then have o: "uint ?o = block_offset io"
    by (simp add: block_offset_def uint_mod take_bit_eq_mod)
  have ol: "block_offset io < 2 ^ 26" by (simp add: block_offset_def)
  have "uint (e_offset e) + 2 ^ 26 \<le> uint (tray_capacity (head s))"
    using table_position(3) [OF inv g e] by (simp add: obj_lo_def)
  moreover have "uint (tray_capacity (head s)) < 2 ^ 64" using uint_lt2p [of "tray_capacity (head s)"] by simp
  ultimately have "uint (e_offset e) + uint ?o < 2 ^ 64" using ol o by linarith
  then have "uint (e_offset e + ?o) = uint (e_offset e) + uint ?o" by (simp add: uint_add_lem [THEN iffD1])
  then show ?thesis by (simp add: m o obj_lo_def)
qed

section \<open>Properties\<close>

text \<open>
  (C3) In every reachable store the objects of the table lie between the metadata area
  and the end of the disk, and no two of them overlap. Whatever the store does next, also
  when it writes what had waited for a copy on write, each request it sends to the engine
  has the length of its task and starts in the object of an entry of the task's own volume
  and block, at the place of the task in its block. It stays inside this object exactly
  if the task does not cross the end of its block. The store does not test this, and
  a task that does cross it is sent as it is and also reaches the bytes behind the object.
\<close>

theorem io_isolated:
  assumes reach: "store_reachable cf mem s0 (s, t)"
    and "disk_fits cf s0" and "d_head (dev s0) = None" and "obj_lmt s0 = []"
    and step: "store_step (s, t) (s', t')"
  shows "(\<exists>rs. io_requests s' = io_requests s @ rs \<and>
      list_all (\<lambda>(io, off, len). len = m_length (io_cmd io) \<and>
        (\<exists>e \<in> set (chain_of (io_key s' io) (obj_lmt s')).
           uint off = obj_lo e + block_offset io \<and>
           (inside_object e (off, len) \<longleftrightarrow> block_offset io + uint (m_length (io_cmd io)) \<le> 2 ^ 26))) rs) \<and>
    list_all (\<lambda>e. uint (meta_size (head s')) \<le> obj_lo e \<and> obj_lo e + 2 ^ 26 \<le> uint (tray_capacity (head s'))) (table_list s') \<and>
    distinct (map e_offset (table_list s')) \<and>
    (\<forall>e \<in> set (table_list s'). \<forall>e' \<in> set (table_list s').
       e \<noteq> e' \<longrightarrow> obj_lo e + 2 ^ 26 \<le> obj_lo e' \<or> obj_lo e' + 2 ^ 26 \<le> obj_lo e)"
proof -
  note A = assms(2-4)
  have reach': "store_reachable cf mem s0 (s', t')" by (rule store_reachable.step [OF reach step])
  have inv: "store_inv s" and inv': "store_inv s'" and g': "geom_exact s'"
    by (rule store_reachable_inv [OF reach A], rule store_reachable_inv [OF reach' A], rule store_reachable_geom [OF reach' A])
  obtain rs where rs: "io_requests s' = io_requests s @ rs" "list_all (sent_to s') rs"
    using store_step_sends [OF inv step] by (auto simp: sends_def)
  have "list_all (\<lambda>(io, off, len). len = m_length (io_cmd io) \<and>
        (\<exists>e \<in> set (chain_of (io_key s' io) (obj_lmt s')).
           uint off = obj_lo e + block_offset io \<and>
           (inside_object e (off, len) \<longleftrightarrow> block_offset io + uint (m_length (io_cmd io)) \<le> 2 ^ 26))) rs"
    using rs(2)
  proof (rule list.pred_mono_strong)
    fix r
    assume r: "sent_to s' r"
    obtain io off len where f: "r = (io, off, len)" by (cases r)
    obtain e where e: "e \<in> set (chain_of (io_key s' io) (obj_lmt s'))" "off = media_offset s' io e" "len = m_length (io_cmd io)"
      using r by (auto simp: sent_to_def f)
    have o: "uint off = obj_lo e + block_offset io"
      using media_offset_exact [OF inv' g'] e(1,2) chain_in_table by blast
    have "0 \<le> block_offset io" by (simp add: block_offset_def)
    then have "inside_object e (off, len) \<longleftrightarrow> block_offset io + uint (m_length (io_cmd io)) \<le> 2 ^ 26"
      using o e(3) by (auto simp: inside_object_def)
    then show "case r of (io, off, len) \<Rightarrow> len = m_length (io_cmd io) \<and>
        (\<exists>e \<in> set (chain_of (io_key s' io) (obj_lmt s')). uint off = obj_lo e + block_offset io \<and>
           (inside_object e (off, len) \<longleftrightarrow> block_offset io + uint (m_length (io_cmd io)) \<le> 2 ^ 26))"
      using o e(1,3) by (auto simp: f)
  qed
  moreover have "list_all (\<lambda>e. uint (meta_size (head s')) \<le> obj_lo e \<and> obj_lo e + 2 ^ 26 \<le> uint (tray_capacity (head s'))) (table_list s')"
    using table_position(2,3) [OF inv' g'] unfolding list_all_iff by blast
  moreover have "distinct (map (offset_to_obj_id (head s')) (map e_offset (table_list s')))"
    using table_ids(1) [OF inv'] by (simp add: comp_def)
  then have "distinct (map e_offset (table_list s'))" by (simp only: distinct_map)
  ultimately show ?thesis using rs(1) objects_apart [OF inv' g'] by blast
qed

text \<open>A first write on the sample disk.\<close>

lemma store_init_idle:
  assumes "store_init cf mem s0 = Some (Inr (0, t, s))" and "d_head (dev s0) = None"
  shows "to_run_compact s = COMPACT_IDLE"
proof -
  let ?h = "read_store_head (snd (ext_call s0))"
  have "fst ?h \<noteq> 0" using assms(2) by (simp add: read_store_head_def case_prod_beta)
  then show ?thesis using assms(1)
    by (auto simp: store_init_def case_prod_beta obnd_def split: if_splits option.splits sum.splits)
qed

lemma write_entry_idle: "to_run_compact s \<noteq> COMPACT_ERROR \<Longrightarrow> write_entry it s \<noteq> Inl f"
  by (simp add: write_entry_def Let_def case_prod_beta meta_data_compaction_trigger_def put_log_page_def ext_call_def)

definition sample_write :: io_sub_task where
  "sample_write = \<lparr>io_id = 1, io_opcode = S5_OP_WRITE, io_rep_id = 0x1000000,
     io_cmd = \<lparr>m_opcode = S5_OP_WRITE, m_command_id = 1, m_snap_seq = 1, m_vol_id = 0x1000000, m_buf_addr = 0,
       m_rkey = 0, m_meta_ver = 1, m_offset = 4096, m_length = 4096, m_command_seq = 0\<rparr>,
     io_data = replicate 4096 1\<rparr>"

lemma first_write_ok:
  assumes inv: "store_inv s" and empty: "obj_lmt s = []"
    and idle: "to_run_compact s = COMPACT_IDLE"
  shows "\<exists>rc s'. process_event (EVT_IO_REQ sample_write) s = Inr (rc, s')"
proof -
  let ?io = "sample_write\<lparr>io_opcode := m_opcode (io_cmd sample_write)\<rparr>" and ?k = "io_key s sample_write"
  have w: "do_write sample_write s \<noteq> Inl f" for f
  proof (cases "q_is_empty (free_obj_queue s)")
    case True
    then show ?thesis using empty by (simp add: do_write_def Let_def write_new_def)
  next
    case False
    obtain e s1 where e: "new_entry (m_snap_seq (io_cmd sample_write)) NORMAL s = Inr (e, s1)"
      using new_entryE [OF _ False, of "m_snap_seq (io_cmd sample_write)" NORMAL ?k] inv by (metis store_inv_def)
    then have "to_run_compact s1 = COMPACT_IDLE"
      using idle by (auto simp: new_entry_def split: prod.splits option.splits)
    then have "write_entry it (set_chain k c s1) \<noteq> Inl f" for it k c f by (intro write_entry_idle) simp
    then show ?thesis using empty False e
      by (auto simp: do_write_def Let_def write_new_def log_defs bnd_eq_Inl split: if_splits)
  qed
  then show ?thesis
    by (cases "do_write sample_write s")
      (auto simp: process_event_def Let_def sample_write_def S5_OP_READ_def S5_OP_WRITE_def)
qed

theorem io_isolated_witness:
  "\<exists>s t rc s' rs. store_reachable sample_conf blank_store blank_store (s, t) \<and>
     process_event (EVT_IO_REQ sample_write) s = Inr (rc, s') \<and> io_requests s' = io_requests s @ rs \<and>
     list_all (\<lambda>(io, off, len). len = m_length (io_cmd io) \<and>
       (\<exists>e \<in> set (chain_of (io_key s' io) (obj_lmt s')). uint off = obj_lo e + block_offset io)) rs"
proof -
  obtain t s where i: "store_init sample_conf blank_store blank_store = Some (Inr (0, t, s))"
    using store_init_succeeds [OF blank_store_ok(4,2,5)] by blast
  have r: "store_reachable sample_conf blank_store blank_store (s, t)" by (rule store_reachable.start [OF i])
  obtain rc s' where w: "process_event (EVT_IO_REQ sample_write) s = Inr (rc, s')"
    using first_write_ok store_init_new_disk [OF i blank_store_ok(1-3)] store_init_idle [OF i blank_store_ok(2)]
    by blast
  have "store_step (s, t) (s', t)" by (rule store_step.event [OF w])
  from io_isolated [OF r blank_store_ok(1-3) this] show ?thesis using r w by (fastforce simp: list_all_iff)
qed

text \<open>
  (C4) A disk without a store, whose read and write calls succeed, is brought into service by
  the first \<open>init\<close>: initialisation ends with return code 0, the table is empty, nothing is
  waiting to be trimmed, the free queue holds every 64 MiB object of the data area, in
  ascending order, and nothing keeps a compaction pending.
\<close>

theorem new_disk_starts:
  assumes "no_err s0" and "Start_trim_thread \<notin> set (acts s0)" and new: "d_head (dev s0) = None"
    and fits: "disk_fits cf s0" and empty: "obj_lmt s0 = []"
  shows "\<exists>t s. store_init cf mem s0 = Some (Inr (0, t, s)) \<and> obj_lmt s = [] \<and>
    to_run_compact s = COMPACT_IDLE \<and> q_list (trim_obj_queue s) = [] \<and>
    q_list (free_obj_queue s) = map int [0..<nat (uint (d_cap (dev s0) - dc_meta_size cf) div 2 ^ 26)]"
proof -
  obtain t s where i: "store_init cf mem s0 = Some (Inr (0, t, s))"
    using store_init_succeeds [OF assms(1) new assms(2)] by blast
  from store_init_new_disk [OF i fits new empty] show ?thesis using i store_init_idle [OF i new] by auto
qed

theorem new_disk_starts_witness:
  "\<exists>t s. store_init sample_conf blank_store blank_store = Some (Inr (0, t, s)) \<and> obj_lmt s = [] \<and>
     q_list (trim_obj_queue s) = []"
  using new_disk_starts [OF blank_store_ok(4,5,2,1,3), of blank_store] by blast

end
