(* ===== verification/Save_Load.thy ===== *)
theory Save_Load
  imports Store_Machine Redo_Sim
begin

text \<open>
  Saving the metadata and loading it again. On a device whose calls succeed,
  \<open>load_meta_data\<close> finds in a zone exactly what \<open>save_meta_data\<close> put there: both object
  queues, and the table with every key, offset, sequence number and status. Saving to
  one zone leaves the blocks of the other zone as they are.
\<close>

section \<open>Addresses\<close>

lemma unat_offset: "unat (a :: u64) + n < 2 ^ 64 \<Longrightarrow> unat (a + of_nat n) = unat a + n"
  using unat_add_lem [of a "of_nat n"] by (simp add: unat_of_nat)

definition span :: "u64 \<Rightarrow> nat \<Rightarrow> u64 set" where
  "span a n = {x. unat a \<le> unat x \<and> unat x < unat a + n}"

section \<open>Device calls that succeed\<close>

text \<open>\<open>mwrote R s s'\<close>: only metadata blocks with an address in \<open>R\<close> were written.\<close>

definition mwrote :: "u64 set \<Rightarrow> flash_store \<Rightarrow> flash_store \<Rightarrow> bool" where
  "mwrote R s s' \<longleftrightarrow>
     (\<exists>m n. s' = s\<lparr>dev := (dev s)\<lparr>d_meta := m, d_cnt := n\<rparr>\<rparr> \<and> (\<forall>x. x \<notin> R \<longrightarrow> m x = d_meta (dev s) x))"

lemma mwrote_refl: "mwrote R s s"
  unfolding mwrote_def by (intro exI [of _ "d_meta (dev s)"] exI [of _ "d_cnt (dev s)"]) simp

lemma mwroteD:
  assumes "mwrote R s s'"
  shows "no_err s' = no_err s" "head s' = head s" "obj_lmt s' = obj_lmt s" "free_obj_queue s' = free_obj_queue s"
    "trim_obj_queue s' = trim_obj_queue s" "lmt_entry_pool s' = lmt_entry_pool s"
    "d_log (dev s') = d_log (dev s)" "d_head (dev s') = d_head (dev s)" "acts s' = acts s"
    "x \<notin> R \<Longrightarrow> d_meta (dev s') x = d_meta (dev s) x"
  using assms by (auto simp: mwrote_def no_err_def)

lemma mwrote_trans:
  assumes "mwrote R s s1" and "mwrote R' s1 s'" and "R \<subseteq> Q" and "R' \<subseteq> Q"
  shows "mwrote Q s s'"
proof -
  obtain m n where 1: "s1 = s\<lparr>dev := (dev s)\<lparr>d_meta := m, d_cnt := n\<rparr>\<rparr>" "\<forall>x. x \<notin> R \<longrightarrow> m x = d_meta (dev s) x"
    using assms(1) by (auto simp: mwrote_def)
  obtain m' n' where 2: "s' = s1\<lparr>dev := (dev s1)\<lparr>d_meta := m', d_cnt := n'\<rparr>\<rparr>"
      "\<forall>x. x \<notin> R' \<longrightarrow> m' x = d_meta (dev s1) x"
    using assms(2) by (auto simp: mwrote_def)
  show ?thesis unfolding mwrote_def
  proof (rule exI [of _ m'], rule exI [of _ n'], intro conjI allI impI)
    show "s' = s\<lparr>dev := (dev s)\<lparr>d_meta := m', d_cnt := n'\<rparr>\<rparr>" using 1(1) 2(1) by simp
    fix x
    assume "x \<notin> Q"
    then have "x \<notin> R" "x \<notin> R'" using assms(3,4) by auto
    then show "m' x = d_meta (dev s) x" using 1 2(2) by simp
  qed
qed

lemma write_calc_ok:
  assumes "no_err s"
  obtains s' where "write_calc blk off st s = (0, st @ [blk], s')" and "mwrote {off} s s'"
    and "d_meta (dev s') off = blk"
proof
  let ?s' = "s\<lparr>dev := (dev s)\<lparr>d_meta := (d_meta (dev s))(off := blk), d_cnt := d_cnt (dev s) + 1\<rparr>\<rparr>"
  show "write_calc blk off st s = (0, st @ [blk], ?s')"
    using assms by (simp add: write_calc_def md5_write_def ext_call_def no_err_def)
  show "mwrote {off} s ?s'" unfolding mwrote_def by (rule exI, rule exI, rule conjI [OF refl]) simp
qed simp

text \<open>A read changes nothing but the count of the calls.\<close>

abbreviation ticked :: "flash_store \<Rightarrow> flash_store \<Rightarrow> bool" where
  "ticked \<equiv> mwrote {}"

lemma ticked_meta: "ticked s s' \<Longrightarrow> d_meta (dev s') = d_meta (dev s)"
  using mwroteD(10) [of "{}" s s'] by auto

lemma ticked_trans: "ticked s s1 \<Longrightarrow> ticked s1 s' \<Longrightarrow> ticked s s'"
  by (rule mwrote_trans) simp_all

lemma ext_call_ok:
  assumes "no_err s"
  obtains s' where "ext_call s = (0, s')" and "ticked s s'"
proof
  show "ext_call s = (0, s\<lparr>dev := (dev s)\<lparr>d_cnt := d_cnt (dev s) + 1\<rparr>\<rparr>)"
    using assms by (simp add: ext_call_def no_err_def)
  show "ticked s (s\<lparr>dev := (dev s)\<lparr>d_cnt := d_cnt (dev s) + 1\<rparr>\<rparr>)"
    unfolding mwrote_def by (intro exI [of _ "d_meta (dev s)"] exI [of _ "d_cnt (dev s) + 1"]) simp
qed

lemma read_calc_ok:
  assumes "no_err s"
  obtains s' where "read_calc off buf st s = (0, d_meta (dev s) off, st @ [d_meta (dev s) off], s')" and "ticked s s'"
proof -
  obtain s' where e: "ext_call s = (0, s')" "ticked s s'" using ext_call_ok [OF assms] .
  then show ?thesis using that ticked_meta [OF e(2)] by (simp add: read_calc_def md5_read_def)
qed

section \<open>The object queues\<close>

definition queue_chunk :: "int list \<Rightarrow> nat \<Rightarrow> nat \<Rightarrow> meta_block" where
  "queue_chunk xs n src = Ints_block (take (min (n - src) meta_buf_size div 4) (drop (src div 4) xs))"

definition data_saved :: "(u64 \<Rightarrow> meta_block) \<Rightarrow> u64 \<Rightarrow> int list \<Rightarrow> nat \<Rightarrow> nat \<Rightarrow> bool" where
  "data_saved dm off xs n src \<longleftrightarrow>
     (\<forall>i. src \<le> i * meta_buf_size \<and> i * meta_buf_size < n \<longrightarrow>
        dm (off + of_nat (i * meta_buf_size) + LBA_LENGTH) = queue_chunk xs n (i * meta_buf_size))"

lemma queue_addr:
  assumes "unat (off :: u64) + 4096 + n < 2 ^ 64" and "src \<le> n"
  shows "unat (off + of_nat src + LBA_LENGTH) = unat off + 4096 + src"
proof -
  have "off + of_nat src + LBA_LENGTH = off + of_nat (src + 4096)" by simp
  then show ?thesis using unat_offset [of off "src + 4096"] assms by (simp add: add.assoc)
qed

lemma save_queue_data_ok:
  assumes "no_err s" and "(\<exists>j. src = j * meta_buf_size) \<or> n \<le> src" and "unat off + 4096 + n < 2 ^ 64"
  shows "\<exists>st' s'. save_queue_data xs n off src st s = (0, st', s') \<and>
     mwrote {x. unat off + 4096 + src \<le> unat x \<and> unat x < unat off + 4096 + n} s s' \<and>
     data_saved (d_meta (dev s')) off xs n src"
  using assms
proof (induction xs n off src st s rule: save_queue_data.induct)
  case (1 xs n off src st s)
  show ?case
  proof (cases "src < n")
    case False
    then have "save_queue_data xs n off src st s = (0, st, s)" by (simp add: save_queue_data.simps)
    then show ?thesis using False mwrote_refl by (auto simp: data_saved_def)
  next
    case True
    then obtain j where j: "src = j * meta_buf_size" using 1(3) by auto
    let ?n = "min (n - src) meta_buf_size" and ?off = "off + of_nat src + LBA_LENGTH"
    let ?R = "\<lambda>src. {x. unat off + 4096 + src \<le> unat x \<and> unat x < unat off + 4096 + n}"
    have addr: "unat ?off = unat off + 4096 + src" using queue_addr [OF 1(4)] True by simp
    obtain s1 where w: "write_calc (queue_chunk xs n src) ?off st s = (0, st @ [queue_chunk xs n src], s1)"
      "mwrote {?off} s s1" "d_meta (dev s1) ?off = queue_chunk xs n src"
      using write_calc_ok [OF 1(2)] .
    have nxt: "(\<exists>j. src + ?n = j * meta_buf_size) \<or> n \<le> src + ?n"
      using j by (cases "n - src < meta_buf_size") (auto intro: exI [of _ "Suc j"])
    have "no_err s1" using mwroteD(1) [OF w(2)] 1(2) by simp
    then obtain st' s' where ih: "save_queue_data xs n off (src + ?n) (st @ [queue_chunk xs n src]) s1 = (0, st', s')"
        "mwrote (?R (src + ?n)) s1 s'" "data_saved (d_meta (dev s')) off xs n (src + ?n)"
      using 1(1) [OF True refl w(1) [unfolded queue_chunk_def, symmetric] refl] nxt 1(4)
      by (auto simp: queue_chunk_def)
    have "save_queue_data xs n off src st s = (0, st', s')"
      using True w(1) ih(1) by (subst save_queue_data.simps) (simp add: queue_chunk_def Let_def)
    moreover have "mwrote (?R src) s s'"
      by (rule mwrote_trans [OF w(2) ih(2)]) (use addr True in auto)
    moreover have "?off \<notin> ?R (src + ?n)" using addr True by (auto simp: meta_buf_size_def)
    then have "d_meta (dev s') ?off = queue_chunk xs n src" using mwroteD(10) [OF ih(2)] w(3) by simp
    then have "data_saved (d_meta (dev s')) off xs n src"
      unfolding data_saved_def
    proof (intro allI impI)
      fix i
      assume i: "src \<le> i * meta_buf_size \<and> i * meta_buf_size < n"
      assume here: "d_meta (dev s') ?off = queue_chunk xs n src"
      show "d_meta (dev s') (off + of_nat (i * meta_buf_size) + LBA_LENGTH) = queue_chunk xs n (i * meta_buf_size)"
      proof (cases "i = j")
        case True
        then show ?thesis using here j by simp
      next
        case False
        then have "j < i" using i j by (auto simp: meta_buf_size_def)
        then have "Suc j * meta_buf_size \<le> i * meta_buf_size" by (intro mult_le_mono1) simp
        then have "src + ?n \<le> i * meta_buf_size" using j by simp
        then show ?thesis using ih(3) i by (simp add: data_saved_def)
      qed
    qed
    ultimately show ?thesis by blast
  qed
qed

definition queue_saved :: "(u64 \<Rightarrow> meta_block) \<Rightarrow> u64 \<Rightarrow> int fixed_queue \<Rightarrow> bool" where
  "queue_saved dm off q \<longleftrightarrow>
     dm off = Ints_block [q_depth q, q_head q, q_tail q] \<and>
     data_saved dm off (q_data q) (nat (q_depth q) * 4) 0"

definition queue_span :: "u64 \<Rightarrow> int fixed_queue \<Rightarrow> u64 set" where
  "queue_span off q = span off (4096 + nat (q_depth q) * 4)"

lemma save_fixed_queue_ok:
  assumes "no_err s" and "unat off + 4096 + nat (q_depth q) * 4 < 2 ^ 64"
  obtains st' s' where "save_fixed_queue q off st s = (0, st', s')" and "mwrote (queue_span off q) s s'"
    and "queue_saved (d_meta (dev s')) off q"
proof -
  let ?b = "Ints_block [q_depth q, q_head q, q_tail q]" and ?n = "nat (q_depth q) * 4"
  obtain s1 where w: "write_calc ?b off st s = (0, st @ [?b], s1)" "mwrote {off} s s1" "d_meta (dev s1) off = ?b"
    using write_calc_ok [OF assms(1)] .
  have "no_err s1" using mwroteD(1) [OF w(2)] assms(1) by simp
  then obtain st' s' where d: "save_queue_data (q_data q) ?n off 0 (st @ [?b]) s1 = (0, st', s')"
      "mwrote {x. unat off + 4096 + 0 \<le> unat x \<and> unat x < unat off + 4096 + ?n} s1 s'"
      "data_saved (d_meta (dev s')) off (q_data q) ?n 0"
    using save_queue_data_ok [of s1 0 ?n off "q_data q" "st @ [?b]"] assms(2) by auto
  have "d_meta (dev s') off = ?b" using mwroteD(10) [OF d(2), of off] w(3) by simp
  moreover have "mwrote (queue_span off q) s s'"
    by (rule mwrote_trans [OF w(2) d(2)]) (auto simp: queue_span_def span_def)
  ultimately show ?thesis using that w(1) d(1,3) by (simp add: save_fixed_queue_def queue_saved_def)
qed

lemma map_int_at: "map (int_at (Ints_block ys)) [0..<length ys] = ys"
  by (rule nth_equalityI) (simp_all add: int_at_def)

lemma chunk_items: "min (4 * a - 4 * b) meta_buf_size = 4 * min (a - b) (2 ^ 18)"
  unfolding diff_mult_distrib2 [symmetric] by (simp add: meta_buf_size_def min_def)

lemma copy_ints_chunk:
  assumes n: "n = 4 * length ys" and src: "src = 4 * p" "src \<le> n" and len: "length xs = length ys"
    and front: "take p xs = take p ys"
  defines "k \<equiv> min (n - src) meta_buf_size div 4"
  shows "length (copy_ints xs p k (queue_chunk ys n src)) = length ys \<and>
    take (p + k) (copy_ints xs p k (queue_chunk ys n src)) = take (p + k) ys"
proof -
  let ?c = "take k (drop p ys)"
  have k: "k \<le> length ys - p" unfolding k_def n src(1) chunk_items by simp
  then have lc: "length ?c = k" by simp
  have "queue_chunk ys n src = Ints_block ?c" using src(1) by (simp add: queue_chunk_def k_def)
  then have "map (int_at (queue_chunk ys n src)) [0..<k] = ?c" using map_int_at [of ?c] lc by simp
  then have c: "copy_ints xs p k (queue_chunk ys n src) = take p ys @ ?c @ drop (p + k) xs"
    by (simp add: copy_ints_def front)
  have p: "p \<le> length ys" using n src by simp
  show ?thesis using k p lc len unfolding c by (simp add: take_add)
qed

lemma load_queue_data_ok:
  assumes "no_err s" and "(\<exists>j. src = j * meta_buf_size) \<or> n \<le> src" and "data_saved (d_meta (dev s)) off ys n src"
    and "n = 4 * length ys" and "length xs = length ys" and "take (src div 4) xs = take (src div 4) ys"
    and "src = 4 * (src div 4)"
  shows "\<exists>blk st' s'. load_queue_data xs n off src buf st s = (0, ys, blk, st', s') \<and> ticked s s'"
  using assms
proof (induction xs n off src buf st s rule: load_queue_data.induct)
  case (1 xs n off src buf st s)
  show ?case
  proof (cases "src < n")
    case False
    then have "load_queue_data xs n off src buf st s = (0, xs, buf, st, s)" by (simp add: load_queue_data.simps)
    moreover have "xs = ys" using False 1(5-8) by simp
    ultimately show ?thesis using mwrote_refl by blast
  next
    case True
    then obtain j where j: "src = j * meta_buf_size" using 1(3) by auto
    let ?n = "min (n - src) meta_buf_size" and ?off = "off + of_nat src + LBA_LENGTH"
    let ?b = "queue_chunk ys n src"
    have blk: "d_meta (dev s) ?off = ?b" using 1(4) True j by (auto simp: data_saved_def)
    obtain s1 where r: "read_calc ?off Zero_block st s = (0, ?b, st @ [?b], s1)" "ticked s s1"
      using read_calc_ok [OF 1(2), of ?off Zero_block st] unfolding blk by metis
    let ?xs = "copy_ints xs (src div 4) (?n div 4) ?b"
    have nxt: "(\<exists>j. src + ?n = j * meta_buf_size) \<or> n \<le> src + ?n"
      using j by (cases "n - src < meta_buf_size") (auto intro: exI [of _ "Suc j"])
    have n4: "?n = 4 * (?n div 4)" using chunk_items [of "length ys" "src div 4"] 1(5) 1(8) by simp
    have c: "length ?xs = length ys" "take (src div 4 + ?n div 4) ?xs = take (src div 4 + ?n div 4) ys"
      using copy_ints_chunk [OF 1(5) 1(8) less_imp_le [OF True] 1(6,7)] by simp_all
    have d: "(src + ?n) div 4 = src div 4 + ?n div 4" using n4 1(8) by arith
    have ds: "data_saved (d_meta (dev s1)) off ys n (src + ?n)"
      using 1(4) unfolding ticked_meta [OF r(2)] data_saved_def by auto
    have ok1: "no_err s1" using mwroteD(1) [OF r(2)] 1(2) by simp
    have "src + ?n = 4 * ((src + ?n) div 4)" using n4 1(8) d by linarith
    from 1(1) [OF True refl r(1) [symmetric] refl refl _ ok1 nxt ds 1(5) c(1) c(2) [folded d] this]
    obtain blk st' s' where ih: "load_queue_data ?xs n off (src + ?n) ?b (st @ [?b]) s1 = (0, ys, blk, st', s')"
        "ticked s1 s'"
      by auto
    have "load_queue_data xs n off src buf st s = (0, ys, blk, st', s')"
      using True r(1) ih(1) by (subst load_queue_data.simps) (simp add: Let_def)
    then show ?thesis using ticked_trans [OF r(2) ih(2)] by blast
  qed
qed

lemma load_fixed_queue_ok:
  assumes ok: "no_err s" and saved: "queue_saved (d_meta (dev s)) off q" and inv: "q_inv q"
  obtains blk st' s' where "load_fixed_queue q0 off buf st s = (0, q, blk, st', s')" and "ticked s s'"
proof -
  let ?b = "Ints_block [q_depth q, q_head q, q_tail q]"
  have b: "d_meta (dev s) off = ?b" using saved by (simp add: queue_saved_def)
  obtain s1 where r: "read_calc off buf st s = (0, ?b, st @ [?b], s1)" "ticked s s1"
    using read_calc_ok [OF ok, of off buf st] unfolding b by metis
  have ok1: "no_err s1" using mwroteD(1) [OF r(2)] ok by simp
  obtain s2 where e: "ext_call s1 = (0, s2)" "ticked s1 s2" using ext_call_ok [OF ok1] .
  have t2: "ticked s s2" by (rule ticked_trans [OF r(2) e(2)])
  let ?xs = "replicate (nat (q_depth q)) 0"
  have "\<exists>blk st' s'. load_queue_data ?xs (nat (q_depth q) * 4) off 0 ?b (st @ [?b]) s2 = (0, q_data q, blk, st', s')
      \<and> ticked s2 s'"
    using saved inv mwroteD(1) [OF t2] ok
    by (intro load_queue_data_ok) (auto simp: queue_saved_def q_inv_def ticked_meta [OF t2])
  then obtain blk st' s' where l: "load_queue_data ?xs (nat (q_depth q) * 4) off 0 ?b (st @ [?b]) s2 = (0, q_data q, blk, st', s')"
      "ticked s2 s'" by blast
  have "load_fixed_queue q0 off buf st s = (0, q, blk, st', s')"
    using r(1) e(1) l(1) by (simp add: load_fixed_queue_def q_init_def int_at_def Let_def)
  then show ?thesis using that ticked_trans [OF t2 l(2)] by blast
qed

section \<open>The serializer\<close>

text \<open>The cells of a table in the order in which they are written.\<close>

fun entry_cells :: "lmt_entry list \<Rightarrow> ser_cell list" where
  "entry_cells [] = []"
| "entry_cells (e # c) = Entry_cell e (c \<noteq> []) # entry_cells c"

fun table_cells :: "lmt_table \<Rightarrow> ser_cell list" where
  "table_cells [] = []"
| "table_cells ((k, c) # m) = Key_cell k # entry_cells c @ table_cells m"

definition csize :: "ser_cell \<Rightarrow> nat" where
  "csize c = (case c of Key_cell _ \<Rightarrow> 32 | Entry_cell _ _ \<Rightarrow> 48)"

lemma csize_bounds: "0 < csize c" "csize c \<le> 48"
  by (cases c; simp add: csize_def)+

primrec write_cells :: "ser_cell list \<Rightarrow> ser_state \<Rightarrow> int \<times> ser_state" where
  "write_cells [] z = (0, z)"
| "write_cells (c # cs) z =
     (case ser_write (csize c) c z of (rc, z1) \<Rightarrow> if rc \<noteq> 0 then (rc, z1) else write_cells cs z1)"

lemma write_cells_append:
  "write_cells (cs @ ds) z =
     (case write_cells cs z of (rc, z1) \<Rightarrow> if rc \<noteq> 0 then (rc, z1) else write_cells ds z1)"
  by (induction cs arbitrary: z) (simp_all add: case_prod_beta)

lemma save_chain_cells: "save_chain c z = write_cells (entry_cells c) z"
  by (induction c arbitrary: z) (simp_all add: write_lmt_entry_def csize_def case_prod_beta)

lemma save_lmt_cells: "save_lmt m z = write_cells (table_cells m) z"
  by (induction m arbitrary: z rule: table_cells.induct)
    (simp_all add: save_chain_cells write_key_def csize_def write_cells_append case_prod_beta)

text \<open>
  \<open>readable dm off pos f cs\<close>: a reader whose buffer holds \<open>f\<close>, at position \<open>pos\<close>, and whose
  next block is at \<open>off\<close>, reads the cells \<open>cs\<close>.
\<close>

fun readable :: "(u64 \<Rightarrow> meta_block) \<Rightarrow> u64 \<Rightarrow> nat \<Rightarrow> (nat \<Rightarrow> ser_cell option) \<Rightarrow> ser_cell list \<Rightarrow> bool" where
  "readable dm off pos f [] \<longleftrightarrow> True"
| "readable dm off pos f (c # cs) \<longleftrightarrow>
     (if pos + csize c > meta_buf_size
      then cells_of (dm off) 0 = Some c \<and>
        readable dm (off + of_nat meta_buf_size) (csize c) (cells_of (dm off)) cs
      else f pos = Some c \<and> readable dm off (pos + csize c) f cs)"

definition cbytes :: "ser_cell list \<Rightarrow> nat" where
  "cbytes cs = sum_list (map csize cs)"

lemma cbytes_simps [simp]: "cbytes [] = 0" "cbytes (c # cs) = csize c + cbytes cs"
  by (simp_all add: cbytes_def)

text \<open>The bytes between the first and the last block that a writer at \<open>pos\<close> may flush to.\<close>

definition flush_room :: "nat \<Rightarrow> nat" where
  "flush_room n = (n div (meta_buf_size - 48) + 1) * meta_buf_size"

lemma flush_ok:
  assumes "no_err s"
  obtains s' where "flush_buffer (z, st, s) =
      (0, z\<lparr>ser_offset := ser_offset z + of_nat (ser_buf_size z), ser_pos := 0\<rparr>, st @ [Cells_block (ser_buf z)], s')"
    and "mwrote {ser_offset z} s s'" and "d_meta (dev s') (ser_offset z) = Cells_block (ser_buf z)"
proof -
  obtain s' where "write_calc (Cells_block (ser_buf z)) (ser_offset z) st s = (0, st @ [Cells_block (ser_buf z)], s')"
      "mwrote {ser_offset z} s s'" "d_meta (dev s') (ser_offset z) = Cells_block (ser_buf z)"
    using write_calc_ok [OF assms] .
  then show ?thesis using that by (simp add: flush_buffer_def)
qed

lemma flush_room_step: "meta_buf_size < pos + k \<Longrightarrow> k \<le> 48 \<Longrightarrow> flush_room (k + n) + meta_buf_size \<le> flush_room (pos + (k + n))"
proof -
  let ?d = "meta_buf_size - 48"
  assume "meta_buf_size < pos + k" "k \<le> 48"
  then have "?d + (k + n) \<le> pos + (k + n)" by simp
  then have "(?d + (k + n)) div ?d \<le> (pos + (k + n)) div ?d" by (rule div_le_mono)
  moreover have "(?d + (k + n)) div ?d = 1 + (k + n) div ?d" by (simp add: meta_buf_size_def div_add_self1)
  ultimately have "((k + n) div ?d + 1) + 1 \<le> (pos + (k + n)) div ?d + 1" by simp
  then have "(((k + n) div ?d + 1) + 1) * meta_buf_size \<le> ((pos + (k + n)) div ?d + 1) * meta_buf_size"
    by (rule mult_le_mono1)
  then show ?thesis by (simp add: flush_room_def)
qed

lemma flush_room_ge: "meta_buf_size \<le> flush_room n"
  by (simp add: flush_room_def)

lemma span_next:
  assumes "unat (off :: u64) + n < 2 ^ 64" and "k + m \<le> n"
  shows "span (off + of_nat k) m \<subseteq> span off n" and "0 < k \<Longrightarrow> off \<notin> span (off + of_nat k) m"
    and "unat (off + of_nat k) + m < 2 ^ 64"
  using unat_offset [of off k] assms by (auto simp: span_def)

text \<open>Writing the cells and flushing the last buffer leaves them readable.\<close>

lemma write_cells_ok:
  assumes "no_err s" and "ser_buf_size z = meta_buf_size" and "ser_pos z \<le> meta_buf_size"
    and "unat (ser_offset z) + flush_room (ser_pos z + cbytes cs) < 2 ^ 64"
  shows "\<exists>z1 z2 st2 s' f. write_cells cs (z, st, s) = (0, z1) \<and> flush_buffer z1 = (0, z2, st2, s') \<and>
     mwrote (span (ser_offset z) (flush_room (ser_pos z + cbytes cs))) s s' \<and>
     d_meta (dev s') (ser_offset z) = Cells_block f \<and> (\<forall>p < ser_pos z. f p = ser_buf z p) \<and>
     readable (d_meta (dev s')) (ser_offset z + of_nat meta_buf_size) (ser_pos z) f cs"
  using assms
proof (induction cs arbitrary: z st s)
  case Nil
  obtain s' where f: "flush_buffer (z, st, s) =
      (0, z\<lparr>ser_offset := ser_offset z + of_nat (ser_buf_size z), ser_pos := 0\<rparr>, st @ [Cells_block (ser_buf z)], s')"
    "mwrote {ser_offset z} s s'" "d_meta (dev s') (ser_offset z) = Cells_block (ser_buf z)"
    using flush_ok [OF Nil(1)] .
  have "mwrote (span (ser_offset z) (flush_room (ser_pos z))) s s'"
    by (rule mwrote_trans [OF f(2) mwrote_refl]) (auto simp: span_def flush_room_def meta_buf_size_def)
  then show ?case using f by simp
next
  case (Cons c cs)
  let ?o = "ser_offset z" and ?S = "meta_buf_size"
  let ?room = "flush_room (ser_pos z + cbytes (c # cs))"
  show ?case
  proof (cases "ser_pos z + csize c > ?S")
    case True
    obtain s1 where f: "flush_buffer (z, st, s) =
        (0, z\<lparr>ser_offset := ?o + of_nat ?S, ser_pos := 0\<rparr>, st @ [Cells_block (ser_buf z)], s1)"
      "mwrote {?o} s s1" "d_meta (dev s1) ?o = Cells_block (ser_buf z)"
      by (rule flush_ok [OF Cons.prems(1), of z st]) (simp add: Cons.prems(2))
    let ?z = "put_cell (csize c) c (z\<lparr>ser_offset := ?o + of_nat ?S, ser_pos := 0\<rparr>)"
    have z: "ser_offset ?z = ?o + of_nat ?S" "ser_pos ?z = csize c" "ser_buf_size ?z = ?S" "ser_buf ?z 0 = Some c"
      using Cons.prems(2) by (simp_all add: put_cell_def)
    have room: "?S + flush_room (csize c + cbytes cs) \<le> ?room"
      using flush_room_step [OF True csize_bounds(2), of "cbytes cs"] by (simp add: add.commute)
    note sp = span_next [OF Cons.prems(4) room]
    have "no_err s1" using mwroteD(1) [OF f(2)] Cons.prems(1) by simp
    moreover have "ser_pos ?z \<le> ?S" using csize_bounds(2) [of c] z(2) by (simp add: meta_buf_size_def)
    moreover have "unat (ser_offset ?z) + flush_room (ser_pos ?z + cbytes cs) < 2 ^ 64" using sp(3) z by simp
    ultimately obtain z1 z2 st2 s' g where ih: "write_cells cs (?z, st @ [Cells_block (ser_buf z)], s1) = (0, z1)"
        "flush_buffer z1 = (0, z2, st2, s')"
        "mwrote (span (?o + of_nat ?S) (flush_room (csize c + cbytes cs))) s1 s'"
        "d_meta (dev s') (?o + of_nat ?S) = Cells_block g" "\<forall>p < csize c. g p = ser_buf ?z p"
        "readable (d_meta (dev s')) (?o + of_nat ?S + of_nat ?S) (csize c) g cs"
      using Cons.IH [of s1 ?z "st @ [Cells_block (ser_buf z)]"] unfolding z(1,2,3) by blast
    have "g 0 = Some c" using ih(5) z(4) csize_bounds(1) [of c] by simp
    then have "readable (d_meta (dev s')) (?o + of_nat ?S) (ser_pos z) (ser_buf z) (c # cs)"
      using True ih(4,6) by (simp add: cells_of_def)
    moreover have "d_meta (dev s') ?o = Cells_block (ser_buf z)"
      using mwroteD(10) [OF ih(3) sp(2)] f(3) by (simp add: meta_buf_size_def)
    moreover have "mwrote (span ?o ?room) s s'"
      by (rule mwrote_trans [OF f(2) ih(3) _ sp(1)])
        (use flush_room_ge [of "ser_pos z + cbytes (c # cs)"] in \<open>simp add: span_def meta_buf_size_def\<close>)
    moreover have "write_cells (c # cs) (z, st, s) = (0, z1)"
      using True f(1) ih(1) Cons.prems(2) by (simp add: ser_write_def)
    ultimately show ?thesis using ih(2) by blast
  next
    case False
    let ?z = "put_cell (csize c) c z"
    have z: "ser_offset ?z = ?o" "ser_pos ?z = ser_pos z + csize c" "ser_buf_size ?z = ?S"
        "ser_buf ?z (ser_pos z) = Some c" "\<And>p. p < ser_pos z \<Longrightarrow> ser_buf ?z p = ser_buf z p"
      using Cons.prems(2) by (simp_all add: put_cell_def)
    have r: "unat ?o + flush_room (ser_pos z + csize c + cbytes cs) < 2 ^ 64"
      using Cons.prems(4) by (simp add: add.assoc)
    obtain z1 z2 st2 s' g where ih: "write_cells cs (?z, st, s) = (0, z1)" "flush_buffer z1 = (0, z2, st2, s')"
        "mwrote (span ?o (flush_room (ser_pos z + csize c + cbytes cs))) s s'"
        "d_meta (dev s') ?o = Cells_block g" "\<forall>p < ser_pos z + csize c. g p = ser_buf ?z p"
        "readable (d_meta (dev s')) (?o + of_nat ?S) (ser_pos z + csize c) g cs"
      using Cons.IH [of s ?z st] Cons.prems(1) False r unfolding z(1,2,3) by (auto simp: not_less)
    have "g (ser_pos z) = Some c" using ih(5) z(4) csize_bounds(1) [of c] by simp
    then have "readable (d_meta (dev s')) (?o + of_nat ?S) (ser_pos z) g (c # cs)" using False ih(6) by simp
    moreover have "\<forall>p < ser_pos z. g p = ser_buf z p" using ih(5) z(5) by simp
    moreover have "write_cells (c # cs) (z, st, s) = (0, z1)"
      using False ih(1) Cons.prems(2) by (simp add: ser_write_def)
    moreover have "mwrote (span ?o ?room) s s'" using ih(3) by (simp add: add.assoc)
    ultimately show ?thesis using ih(2,4) by blast
  qed
qed

text \<open>Reading: the state of a reader that has the cells \<open>cs\<close> in front of it.\<close>

definition reader :: "ser_cell list \<Rightarrow> ser_state \<Rightarrow> bool" where
  "reader cs = (\<lambda>(z, st, s). no_err s \<and> ser_buf_size z = meta_buf_size \<and>
     readable (d_meta (dev s)) (ser_offset z) (ser_pos z) (ser_buf z) cs)"

lemma reader_cong:
  "reader cs (z, st, s) \<Longrightarrow> dev s' = dev s \<Longrightarrow> reader cs (z, st', s')"
  by (simp add: reader_def no_err_def)

lemma ser_read_ok:
  assumes "reader (c # cs) (z, st, s)"
  obtains z' st' s' where "ser_read (csize c) (z, st, s) = (0, Some c, z', st', s')"
    and "reader cs (z', st', s')" and "ticked s s'"
proof -
  have ok: "no_err s" and sz: "ser_buf_size z = meta_buf_size"
    and rd: "readable (d_meta (dev s)) (ser_offset z) (ser_pos z) (ser_buf z) (c # cs)"
    using assms by (simp_all add: reader_def)
  show ?thesis
  proof (cases "ser_pos z + csize c > meta_buf_size")
    case True
    let ?b = "d_meta (dev s) (ser_offset z)"
    obtain s' where r: "read_calc (ser_offset z) (Cells_block (ser_buf z)) st s = (0, ?b, st @ [?b], s')" "ticked s s'"
      using read_calc_ok [OF ok] .
    show ?thesis
      by (rule that [of "z\<lparr>ser_buf := cells_of ?b, ser_offset := ser_offset z + of_nat meta_buf_size, ser_pos := csize c\<rparr>"
            "st @ [?b]" s'])
        (use True r rd sz ok mwroteD(1) [OF r(2)] in
          \<open>simp_all add: reader_def ser_read_def load_buffer_def Let_def ticked_meta [OF r(2)]\<close>)
  next
    case False
    show ?thesis
      by (rule that [of "z\<lparr>ser_pos := ser_pos z + csize c\<rparr>" st s])
        (use False rd sz ok in \<open>simp_all add: reader_def ser_read_def mwrote_refl\<close>)
  qed
qed

lemma read_key_ok:
  assumes "reader (Key_cell k # cs) (z, st, s)"
  obtains z' st' s' where "read_key (z, st, s) = (0, k, z', st', s')" and "reader cs (z', st', s')" and "ticked s s'"
proof -
  obtain z' st' s' where "ser_read (csize (Key_cell k)) (z, st, s) = (0, Some (Key_cell k), z', st', s')"
      "reader cs (z', st', s')" "ticked s s'"
    using ser_read_ok [OF assms] .
  then show ?thesis using that by (simp add: read_key_def csize_def)
qed

lemma read_lmt_entry_ok:
  assumes "reader (Entry_cell e b # cs) (z, st, s)"
  obtains z' st' s' where "read_lmt_entry a (z, st, s) = (0, (e\<lparr>e_addr := a\<rparr>, b), z', st', s')"
    and "reader cs (z', st', s')" and "ticked s s'"
proof -
  obtain z' st' s' where "ser_read (csize (Entry_cell e b)) (z, st, s) = (0, Some (Entry_cell e b), z', st', s')"
      "reader cs (z', st', s')" "ticked s s'"
    using ser_read_ok [OF assms] .
  then show ?thesis using that by (simp add: read_lmt_entry_def csize_def)
qed

section \<open>Entries from the pool\<close>

text \<open>\<open>took as s s'\<close>: the slots \<open>as\<close> were taken from the pool, and nothing else changed.\<close>

definition took :: "nat list \<Rightarrow> flash_store \<Rightarrow> flash_store \<Rightarrow> bool" where
  "took as s s' \<longleftrightarrow>
     ticked (s\<lparr>lmt_entry_pool := lmt_entry_pool s'\<rparr>) s' \<and>
     q_inv (p_free (lmt_entry_pool s')) \<and> q_depth (p_free (lmt_entry_pool s')) = q_depth (p_free (lmt_entry_pool s)) \<and>
     p_slots (lmt_entry_pool s') = p_slots (lmt_entry_pool s) \<and>
     mset (q_list (p_free (lmt_entry_pool s))) = mset as + mset (q_list (p_free (lmt_entry_pool s')))"

lemma took_ticked:
  assumes "ticked s s'" and "q_inv (p_free (lmt_entry_pool s))"
  shows "took [] s s'"
  using assms mwroteD(6) [OF assms(1)] by (simp add: took_def)

lemma ticked_pool:
  assumes "ticked s s'"
  shows "ticked (s\<lparr>lmt_entry_pool := p\<rparr>) (s'\<lparr>lmt_entry_pool := p\<rparr>)"
proof -
  obtain m n where "s' = s\<lparr>dev := (dev s)\<lparr>d_meta := m, d_cnt := n\<rparr>\<rparr>" "\<forall>x. m x = d_meta (dev s) x"
    using assms by (auto simp: mwrote_def)
  then show ?thesis unfolding mwrote_def by (intro exI [of _ m] exI [of _ n]) simp
qed

lemma took_trans:
  assumes "took as s s1" and "took bs s1 s'"
  shows "took (as @ bs) s s'"
proof -
  let ?p = "lmt_entry_pool s'"
  have "ticked (s\<lparr>lmt_entry_pool := ?p\<rparr>) (s1\<lparr>lmt_entry_pool := ?p\<rparr>)"
    using ticked_pool [of "s\<lparr>lmt_entry_pool := lmt_entry_pool s1\<rparr>" s1 ?p] assms(1) by (simp add: took_def)
  then have "ticked (s\<lparr>lmt_entry_pool := ?p\<rparr>) s'"
    using ticked_trans assms(2) by (simp add: took_def)
  then show ?thesis using assms by (simp add: took_def)
qed

lemma pool_alloc_ok:
  assumes "q_inv (p_free (lmt_entry_pool s))" and "q_list (p_free (lmt_entry_pool s)) \<noteq> []"
  obtains a p where "pool_alloc (lmt_entry_pool s) = (Some a, p)" and "took [a] s (s\<lparr>lmt_entry_pool := p\<rparr>)"
proof -
  obtain x xs where l: "q_list (p_free (lmt_entry_pool s)) = x # xs"
    using assms(2) by (cases "q_list (p_free (lmt_entry_pool s))") auto
  obtain q' where "dequeue (p_free (lmt_entry_pool s)) = Inr (x, q')" "q_inv q'" "q_list q' = xs"
      "q_depth q' = q_depth (p_free (lmt_entry_pool s))"
    using dequeue_ok [OF assms(1) l] by metis
  then show ?thesis
    using that [of x "(lmt_entry_pool s)\<lparr>p_free := q'\<rparr>"] q_is_empty_iff [OF assms(1)] l
    by (simp add: pool_alloc_def dequeue_def took_def mwrote_refl)
qed

lemma tookD:
  assumes "took as s s'"
  shows "no_err s' = no_err s" "head s' = head s" "obj_lmt s' = obj_lmt s" "free_obj_queue s' = free_obj_queue s"
    "trim_obj_queue s' = trim_obj_queue s" "d_meta (dev s') = d_meta (dev s)" "q_inv (p_free (lmt_entry_pool s'))"
    "length (q_list (p_free (lmt_entry_pool s))) = length as + length (q_list (p_free (lmt_entry_pool s')))"
    "p_slots (lmt_entry_pool s') = p_slots (lmt_entry_pool s)"
proof -
  have t: "ticked (s\<lparr>lmt_entry_pool := lmt_entry_pool s'\<rparr>) s'" using assms by (simp add: took_def)
  show "no_err s' = no_err s" "head s' = head s" "obj_lmt s' = obj_lmt s" "free_obj_queue s' = free_obj_queue s"
    "trim_obj_queue s' = trim_obj_queue s" "d_meta (dev s') = d_meta (dev s)"
    using mwroteD(1-5) [OF t] ticked_meta [OF t] by (simp_all add: no_err_def)
  show "q_inv (p_free (lmt_entry_pool s'))" "p_slots (lmt_entry_pool s') = p_slots (lmt_entry_pool s)"
    using assms by (simp_all add: took_def)
  have "size (mset (q_list (p_free (lmt_entry_pool s)))) = size (mset as + mset (q_list (p_free (lmt_entry_pool s'))))"
    using assms by (simp only: took_def)
  then show "length (q_list (p_free (lmt_entry_pool s))) = length as + length (q_list (p_free (lmt_entry_pool s')))"
    by simp
qed

section \<open>Loading the table\<close>

lemma img_addr [simp]: "img (e\<lparr>e_addr := a\<rparr>) = img e"
  by (simp add: img_def)

lemma img_status: "map img c' = map img c \<Longrightarrow> map e_status c' = map e_status c"
proof -
  assume "map img c' = map img c"
  then have "map (snd \<circ> snd) (map img c') = map (snd \<circ> snd) (map img c)" by simp
  then show ?thesis by (simp add: img_def comp_def)
qed

lemma load_rest_ok:
  assumes "reader (entry_cells c @ cs) (z, st, s)" and "length c \<le> fuel"
    and "q_inv (p_free (lmt_entry_pool s))" and "length c \<le> length (q_list (p_free (lmt_entry_pool s)))"
  shows "\<exists>es z' st' s'. load_rest fuel (c \<noteq> []) (z, st, s) = Inr (0, es, z', st', s') \<and>
    map img es = map img c \<and> reader cs (z', st', s') \<and> took (map e_addr es) s s'"
  using assms
proof (induction c arbitrary: fuel z st s)
  case Nil
  then show ?case using took_ticked [OF mwrote_refl] by simp
next
  case (Cons e c)
  obtain n where n: "fuel = Suc n" using Cons.prems(2) by (cases fuel) auto
  obtain a p where al: "pool_alloc (lmt_entry_pool s) = (Some a, p)" "took [a] s (s\<lparr>lmt_entry_pool := p\<rparr>)"
    by (rule pool_alloc_ok [OF Cons.prems(3)]) (use Cons.prems(4) in auto)
  have "reader (Entry_cell e (c \<noteq> []) # entry_cells c @ cs) (z, st, s\<lparr>lmt_entry_pool := p\<rparr>)"
    using reader_cong [OF Cons.prems(1)] by simp
  then obtain z1 st1 s1 where r: "read_lmt_entry a (z, st, s\<lparr>lmt_entry_pool := p\<rparr>) = (0, (e\<lparr>e_addr := a\<rparr>, c \<noteq> []), z1, st1, s1)"
      "reader (entry_cells c @ cs) (z1, st1, s1)" "ticked (s\<lparr>lmt_entry_pool := p\<rparr>) s1"
    by (rule read_lmt_entry_ok)
  have t1: "took [a] s s1"
    using took_trans [OF al(2) took_ticked [OF r(3) tookD(7) [OF al(2)]]] by simp
  have "length c \<le> n" "length c \<le> length (q_list (p_free (lmt_entry_pool s1)))"
    using Cons.prems(2,4) n tookD(8) [OF t1] by simp_all
  then obtain es z' st' s' where ih: "load_rest n (c \<noteq> []) (z1, st1, s1) = Inr (0, es, z', st', s')"
      "map img es = map img c" "reader cs (z', st', s')" "took (map e_addr es) s1 s'"
    using Cons.IH [OF r(2) _ tookD(7) [OF t1]] by blast
  have "load_rest fuel (e # c \<noteq> []) (z, st, s) = Inr (0, e\<lparr>e_addr := a\<rparr> # es, z', st', s')"
    using al(1) r(1) ih(1) n by simp
  moreover have "took (map e_addr (e\<lparr>e_addr := a\<rparr> # es)) s s'" using took_trans [OF t1 ih(4)] by simp
  ultimately show ?case using ih(2,3) by fastforce
qed

lemma load_key_ok:
  assumes rd: "reader (Key_cell k # entry_cells c @ cs) (z, st, s)" and ne: "c \<noteq> []"
    and stat: "set (map e_status c) \<subseteq> {NORMAL, COPYING}"
    and q: "q_inv (p_free (lmt_entry_pool s))" and room: "length c \<le> length (q_list (p_free (lmt_entry_pool s)))"
    and cap: "length (q_list (p_free (lmt_entry_pool s))) \<le> p_slots (lmt_entry_pool s)"
  obtains es z' st' s' where "load_key (z, st, s) = Inr (0, z', st', s'\<lparr>obj_lmt := AList.update k es (obj_lmt s)\<rparr>)"
    and "map img es = map img c" and "reader cs (z', st', s')" and "took (map e_addr es) s s'"
proof -
  obtain e c1 where c: "c = e # c1" using ne by (cases c) auto
  obtain a p where al: "pool_alloc (lmt_entry_pool s) = (Some a, p)" "took [a] s (s\<lparr>lmt_entry_pool := p\<rparr>)"
    by (rule pool_alloc_ok [OF q]) (use room c in auto)
  have "reader (Key_cell k # Entry_cell e (c1 \<noteq> []) # entry_cells c1 @ cs) (z, st, s\<lparr>lmt_entry_pool := p\<rparr>)"
    using reader_cong [OF rd] c by simp
  then obtain z1 st1 s1 where k: "read_key (z, st, s\<lparr>lmt_entry_pool := p\<rparr>) = (0, k, z1, st1, s1)"
      "reader (Entry_cell e (c1 \<noteq> []) # entry_cells c1 @ cs) (z1, st1, s1)" "ticked (s\<lparr>lmt_entry_pool := p\<rparr>) s1"
    by (rule read_key_ok)
  from k(2) obtain z2 st2 s2 where r: "read_lmt_entry a (z1, st1, s1) = (0, (e\<lparr>e_addr := a\<rparr>, c1 \<noteq> []), z2, st2, s2)"
      "reader (entry_cells c1 @ cs) (z2, st2, s2)" "ticked s1 s2"
    by (rule read_lmt_entry_ok)
  have t2: "took [a] s s2"
    using took_trans [OF al(2) took_ticked [OF ticked_trans [OF k(3) r(3)] tookD(7) [OF al(2)]]] by simp
  have p: "p_slots p = p_slots (lmt_entry_pool s)" using tookD(9) [OF al(2)] by simp
  have "length c1 \<le> p_slots p" "length c1 \<le> length (q_list (p_free (lmt_entry_pool s2)))"
    using room cap c p tookD(8) [OF t2] by simp_all
  then obtain es z' st' s' where l: "load_rest (p_slots p) (c1 \<noteq> []) (z2, st2, s2) = Inr (0, es, z', st', s')"
      "map img es = map img c1" "reader cs (z', st', s')" "took (map e_addr es) s2 s'"
    using load_rest_ok [OF r(2) _ tookD(7) [OF t2]] by blast
  let ?es = "e\<lparr>e_addr := a\<rparr> # es"
  have im: "map img ?es = map img c" using l(2) c by simp
  have "set (map e_status ?es) \<subseteq> {NORMAL, COPYING}" using stat img_status [OF im] by simp
  then have st: "x \<in> set ?es \<Longrightarrow> e_status x \<noteq> RECOVERYING" for x by (auto simp: image_subset_iff)
  have f: "filter (\<lambda>x. e_status x \<noteq> RECOVERYING) ?es = ?es" "filter (\<lambda>x. e_status x = RECOVERYING) ?es = []"
    using st by (simp_all add: filter_id_conv filter_empty_conv del: filter.simps)
  have t: "took (map e_addr ?es) s s'" using took_trans [OF t2 l(4)] by simp
  have same: "s'\<lparr>lmt_entry_pool := lmt_entry_pool s', obj_lmt := m\<rparr> = s'\<lparr>obj_lmt := m\<rparr>" for m by simp
  have "load_key (z, st, s) = Inr (0, z', st', s'\<lparr>obj_lmt := AList.update k ?es (obj_lmt s)\<rparr>)"
    unfolding load_key_def prod.case al(1) option.case k(1) r(1) l(1) bnd_simps Let_def f free_entries.simps
    using tookD(3) [OF t] by (simp add: k(1) r(1) l(1) f same del: filter.simps)
  then show ?thesis using that im l(3) t by blast
qed

lemma alist_update_new: "k \<notin> fst ` set m \<Longrightarrow> AList.update k v m = m @ [(k, v)]"
  by (induction m) auto

lemma img_lmt_Cons [simp]: "img_lmt ((k, c) # m) = (k, map img c) # img_lmt m" "img_lmt [] = []"
  by (simp_all add: img_lmt_def)

text \<open>Taking slots does not look at the table.\<close>

lemma took_lmt:
  assumes "took as s s'"
  shows "took as (s\<lparr>obj_lmt := m\<rparr>) (s'\<lparr>obj_lmt := m\<rparr>)"
proof -
  obtain d n where "s' = s\<lparr>lmt_entry_pool := lmt_entry_pool s', dev := (dev s)\<lparr>d_meta := d, d_cnt := n\<rparr>\<rparr>"
      "\<forall>x. d x = d_meta (dev s) x"
    using assms by (auto simp: took_def mwrote_def)
  then have "s'\<lparr>obj_lmt := m\<rparr> = s\<lparr>lmt_entry_pool := lmt_entry_pool s', dev := (dev s)\<lparr>d_meta := d, d_cnt := n\<rparr>, obj_lmt := m\<rparr>"
    by (metis (no_types, lifting) flash_store.unfold_congs(3))
  then have "ticked (s\<lparr>obj_lmt := m, lmt_entry_pool := lmt_entry_pool s'\<rparr>) (s'\<lparr>obj_lmt := m\<rparr>)"
    unfolding mwrote_def using \<open>\<forall>x. d x = d_meta (dev s) x\<close> by (intro exI [of _ d] exI [of _ n]) simp
  then show ?thesis using assms by (simp add: took_def)
qed

lemma load_keys_ok:
  assumes "reader (table_cells m @ cs) (z, st, s)" and "no_empty_chain m" and "statuses_ok m"
    and "distinct (map fst m)" and "fst ` set m \<inter> fst ` set (obj_lmt s) = {}"
    and "q_inv (p_free (lmt_entry_pool s))" and "size (table_entries m) \<le> length (q_list (p_free (lmt_entry_pool s)))"
    and "length (q_list (p_free (lmt_entry_pool s))) \<le> p_slots (lmt_entry_pool s)"
  shows "\<exists>new z' st' s'. load_keys (length m) (z, st, s) = Inr (0, z', st', s'\<lparr>obj_lmt := obj_lmt s @ new\<rparr>) \<and>
    img_lmt new = img_lmt m \<and> reader cs (z', st', s') \<and> took (map e_addr (concat (map snd new))) s s'"
  using assms
proof (induction m arbitrary: z st s)
  case Nil
  have "took [] s s" by (rule took_ticked [OF mwrote_refl Nil(6)])
  then show ?case using Nil(1)
    by (intro exI [of _ "[]"] exI [of _ z] exI [of _ st] exI [of _ s]) simp
next
  case (Cons kc m)
  obtain k c where kc: "kc = (k, c)" by (rule prod.exhaust)
  have ne: "c \<noteq> []" using Cons.prems(2) kc by (simp add: no_empty_chain_def)
  have so: "set (map e_status c) \<subseteq> {NORMAL, COPYING}" "statuses_ok m"
    using Cons.prems(3) kc by (simp_all add: statuses_ok_def)
  have sz: "length c + size (table_entries m) \<le> length (q_list (p_free (lmt_entry_pool s)))"
    using Cons.prems(7) kc by simp
  have rd: "reader (Key_cell k # entry_cells c @ (table_cells m @ cs)) (z, st, s)" using Cons.prems(1) kc by simp
  obtain es z1 st1 s1 where l: "load_key (z, st, s) = Inr (0, z1, st1, s1\<lparr>obj_lmt := AList.update k es (obj_lmt s)\<rparr>)"
      "map img es = map img c" "reader (table_cells m @ cs) (z1, st1, s1)" "took (map e_addr es) s s1"
    by (rule load_key_ok [OF rd ne so(1) Cons.prems(6) _ Cons.prems(8)]) (use sz in auto)
  have k: "k \<notin> fst ` set (obj_lmt s)" "k \<notin> fst ` set m" using Cons.prems(4,5) kc by auto
  let ?s1 = "s1\<lparr>obj_lmt := obj_lmt s @ [(k, es)]\<rparr>"
  have up: "AList.update k es (obj_lmt s) = obj_lmt s @ [(k, es)]" by (rule alist_update_new [OF k(1)])
  note T = tookD [OF l(4)]
  have len: "length es = length c" using l(2) by (rule map_eq_imp_length_eq)
  have rd1: "reader (table_cells m @ cs) (z1, st1, ?s1)" by (rule reader_cong [OF l(3)]) simp
  have "fst ` set m \<inter> fst ` set (obj_lmt ?s1) = {}" using Cons.prems(5) kc k by auto
  moreover have "size (table_entries m) \<le> length (q_list (p_free (lmt_entry_pool ?s1)))"
    "length (q_list (p_free (lmt_entry_pool ?s1))) \<le> p_slots (lmt_entry_pool ?s1)"
    using sz T(8,9) Cons.prems(8) len by simp_all
  ultimately obtain new z' st' s' where ih: "load_keys (length m) (z1, st1, ?s1) = Inr (0, z', st', s'\<lparr>obj_lmt := obj_lmt ?s1 @ new\<rparr>)"
      "img_lmt new = img_lmt m" "reader cs (z', st', s')" "took (map e_addr (concat (map snd new))) ?s1 s'"
    using Cons.IH [OF rd1 _ so(2)] Cons.prems(2,4) T(7) kc by (auto simp: no_empty_chain_def)
  have b: "took (map e_addr (concat (map snd new))) s1 (s'\<lparr>obj_lmt := obj_lmt s1\<rparr>)"
    using took_lmt [OF ih(4), of "obj_lmt s1"] by simp
  have "took (map e_addr (concat (map snd ((k, es) # new)))) s (s'\<lparr>obj_lmt := obj_lmt s1\<rparr>)"
    using took_trans [OF l(4) b] by simp
  moreover have "load_keys (length (kc # m)) (z, st, s) =
      Inr (0, z', st', (s'\<lparr>obj_lmt := obj_lmt s1\<rparr>)\<lparr>obj_lmt := obj_lmt s @ (k, es) # new\<rparr>)"
    using l(1) up ih(1) by simp
  moreover have "reader cs (z', st', s'\<lparr>obj_lmt := obj_lmt s1\<rparr>)" by (rule reader_cong [OF ih(3)]) simp
  moreover have "img_lmt ((k, es) # new) = img_lmt (kc # m)" using l(2) ih(2) kc by simp
  ultimately show ?case by blast
qed

section \<open>A zone of the metadata area\<close>

text \<open>The positions that \<open>initialize_store_head\<close> writes.\<close>

definition std_head :: "HeadPage \<Rightarrow> bool" where
  "std_head h \<longleftrightarrow>
     free_list_position_first h = OFFSET_FREE_LIST_FIRST \<and> free_list_position_second h = OFFSET_FREE_LIST_SECOND \<and>
     trim_list_position_first h = OFFSET_TRIM_LIST_FIRST \<and> trim_list_position_second h = OFFSET_TRIM_LIST_SECOND \<and>
     lmt_position_first h = OFFSET_LMT_MAP_FIRST \<and> lmt_position_second h = OFFSET_LMT_MAP_SECOND \<and>
     redolog_position_first h = OFFSET_REDO_LOG_FIRST \<and> redolog_position_second h = OFFSET_REDO_LOG_SECOND \<and>
     redolog_size h = REDO_LOG_SIZE"

lemma std_head_fixed:
  assumes "fixed_head h' = fixed_head h"
  shows "std_head h' = std_head h"
proof -
  have "std_head (fixed_head x) = std_head x" for x by (simp add: std_head_def fixed_head_def)
  then show ?thesis using assms by metis
qed

definition fl_pos :: "nat \<Rightarrow> u64" where
  "fl_pos z = (if z = FIRST_METADATA_ZONE then OFFSET_FREE_LIST_FIRST else OFFSET_FREE_LIST_SECOND)"

definition tl_pos :: "nat \<Rightarrow> u64" where
  "tl_pos z = (if z = FIRST_METADATA_ZONE then OFFSET_TRIM_LIST_FIRST else OFFSET_TRIM_LIST_SECOND)"

definition lmt_pos :: "nat \<Rightarrow> u64" where
  "lmt_pos z = (if z = FIRST_METADATA_ZONE then OFFSET_LMT_MAP_FIRST else OFFSET_LMT_MAP_SECOND)"

lemma std_positions:
  assumes "std_head h"
  shows "(if z = FIRST_METADATA_ZONE then free_list_position_first h else free_list_position_second h) = fl_pos z"
    "(if z = FIRST_METADATA_ZONE then trim_list_position_first h else trim_list_position_second h) = tl_pos z"
    "(if z = FIRST_METADATA_ZONE then lmt_position_first h else lmt_position_second h) = lmt_pos z"
  using assms by (simp_all add: std_head_def fl_pos_def tl_pos_def lmt_pos_def)

definition zone_base :: "nat \<Rightarrow> nat" where
  "zone_base z = (if z = FIRST_METADATA_ZONE then 0 else 3 * 2 ^ 30)"

text \<open>The blocks of a zone lie in 3 GB.\<close>

definition zone_blocks :: "nat \<Rightarrow> u64 set" where
  "zone_blocks z = {x. zone_base z \<le> unat x \<and> unat x < zone_base z + 3 * 2 ^ 30}"

lemma zone_positions:
  "zone_base z \<le> unat (fl_pos z)" "unat (fl_pos z) \<le> zone_base z + 4096"
  "unat (tl_pos z) = zone_base z + 2 ^ 27" "unat (lmt_pos z) = zone_base z + 2 ^ 28"
  by (simp_all add: zone_base_def fl_pos_def tl_pos_def lmt_pos_def OFFSET_FREE_LIST_FIRST_def
      OFFSET_FREE_LIST_SECOND_def OFFSET_TRIM_LIST_FIRST_def OFFSET_TRIM_LIST_SECOND_def
      OFFSET_LMT_MAP_FIRST_def OFFSET_LMT_MAP_SECOND_def)

definition md_saved :: "(u64 \<Rightarrow> meta_block) \<Rightarrow> nat \<Rightarrow> flash_store \<Rightarrow> bool" where
  "md_saved dm z v \<longleftrightarrow>
     queue_saved dm (fl_pos z) (free_obj_queue v) \<and> queue_saved dm (tl_pos z) (trim_obj_queue v) \<and>
     dm (lmt_pos z) = Ints_block [int (length (obj_lmt v)), 48, 0] \<and>
     readable dm (lmt_pos z + LBA_LENGTH) meta_buf_size (\<lambda>_. None) (table_cells (obj_lmt v))"

text \<open>The tables fit into the areas of a zone: up to \<open>2 ^ 24\<close> objects, a disk of 1 PB.\<close>

definition fits_zone :: "flash_store \<Rightarrow> bool" where
  "fits_zone v \<longleftrightarrow> nat (q_depth (free_obj_queue v)) \<le> 2 ^ 24 + 1 \<and> nat (q_depth (trim_obj_queue v)) \<le> 2 ^ 24 + 1 \<and>
     cbytes (table_cells (obj_lmt v)) \<le> 80 * 2 ^ 24"

lemma cbytes_append [simp]: "cbytes (a @ b) = cbytes a + cbytes b"
  by (simp add: cbytes_def)

lemma cbytes_entries [simp]: "cbytes (entry_cells c) = 48 * length c"
  by (induction c) (simp_all add: csize_def)

lemma cbytes_table: "no_empty_chain m \<Longrightarrow> cbytes (table_cells m) \<le> 80 * size (table_entries m)"
proof (induction m rule: table_cells.induct)
  case (2 k c m)
  then have "1 \<le> length c" by (cases c) (simp_all add: no_empty_chain_def)
  moreover have "no_empty_chain m" using 2(2) by (simp add: no_empty_chain_def)
  ultimately show ?case using 2(1) by (simp add: csize_def)
qed simp

lemma store_inv_fits:
  assumes inv: "store_inv s" and small: "obj_count (head s) \<le> 2 ^ 24"
  shows "fits_zone s"
proof -
  have t: "tables_inv0 (head s) (obj_lmt s) (free_obj_queue s) (trim_obj_queue s) (lmt_entry_pool s)"
    and ne: "no_empty_chain (obj_lmt s)"
    using inv by (simp_all add: store_inv_def store_inv0_def)
  have d: "nat (q_depth q) \<le> 2 ^ 24 + 1" if "q_inv q" "q_cap q = nat (obj_count (head s))" for q :: "int fixed_queue"
    using that small by (simp add: q_inv_def q_cap_def)
  have "size (table_entries (obj_lmt s)) \<le> 2 ^ 24" using tables_sizes(1) [OF t] small by simp
  then have "cbytes (table_cells (obj_lmt s)) \<le> 80 * 2 ^ 24" using cbytes_table [OF ne] by simp
  then show ?thesis using t d by (simp add: fits_zone_def tables_defs)
qed

section \<open>What a zone holds does not depend on blocks outside it\<close>

lemma queue_saved_frame:
  assumes "queue_saved dm off q" and "\<And>x. x \<in> queue_span off q \<Longrightarrow> dm' x = dm x"
    and room: "unat off + 4096 + nat (q_depth q) * 4 < 2 ^ 64"
  shows "queue_saved dm' off q"
proof -
  let ?n = "nat (q_depth q) * 4"
  have "dm' off = dm off" by (rule assms(2)) (simp add: queue_span_def span_def)
  moreover have "dm' (off + of_nat (i * meta_buf_size) + LBA_LENGTH) = dm (off + of_nat (i * meta_buf_size) + LBA_LENGTH)"
    if "i * meta_buf_size < ?n" for i
    using that queue_addr [OF room, of "i * meta_buf_size"]
    by (intro assms(2)) (simp add: queue_span_def span_def)
  ultimately show ?thesis using assms(1) by (simp add: queue_saved_def data_saved_def)
qed

lemma readable_frame:
  assumes "readable dm off pos f cs" and "\<And>x. x \<in> span off (flush_room (pos + cbytes cs)) \<Longrightarrow> dm' x = dm x"
    and "unat off + flush_room (pos + cbytes cs) < 2 ^ 64"
  shows "readable dm' off pos f cs"
  using assms
proof (induction cs arbitrary: off pos f)
  case (Cons c cs)
  show ?case
  proof (cases "pos + csize c > meta_buf_size")
    case True
    let ?o = "off + of_nat meta_buf_size" and ?g = "cells_of (dm off)"
    have room: "meta_buf_size + flush_room (csize c + cbytes cs) \<le> flush_room (pos + cbytes (c # cs))"
      using flush_room_step [OF True csize_bounds(2), of "cbytes cs"] by (simp add: add.commute)
    note sp = span_next [OF Cons.prems(3) room]
    have b: "dm' off = dm off"
      by (rule Cons.prems(2)) (simp add: span_def flush_room_def meta_buf_size_def)
    have "readable dm ?o (csize c) ?g cs" using Cons.prems(1) True by simp
    then have "readable dm' ?o (csize c) ?g cs"
      using Cons.prems(2) sp(1,3) by (intro Cons.IH) blast+
    then show ?thesis using Cons.prems(1) True b by simp
  next
    case False
    have "readable dm off (pos + csize c) f cs" using Cons.prems(1) False by simp
    then have "readable dm' off (pos + csize c) f cs"
      using Cons.prems(2,3) by (intro Cons.IH) (simp_all add: add.assoc)
    then show ?thesis using Cons.prems(1) False by simp
  qed
qed simp

text \<open>The areas of a zone that hold the tables of a store that fits.\<close>

lemma lmt_room: "n \<le> meta_buf_size + 80 * 2 ^ 24 \<Longrightarrow> flush_room n \<le> 2 ^ 31"
proof -
  assume "n \<le> meta_buf_size + 80 * 2 ^ 24"
  then have "n div (meta_buf_size - 48) \<le> (meta_buf_size + 80 * 2 ^ 24) div (meta_buf_size - 48)" by (rule div_le_mono)
  also have "\<dots> \<le> 1300" by (simp add: meta_buf_size_def)
  finally show ?thesis by (simp add: flush_room_def meta_buf_size_def)
qed

lemma zone_areas:
  assumes "fits_zone v"
  shows "queue_span (fl_pos z) (free_obj_queue v) \<subseteq> {x. zone_base z \<le> unat x \<and> unat x < zone_base z + 2 ^ 27}"
    and "queue_span (tl_pos z) (trim_obj_queue v) \<subseteq> {x. zone_base z + 2 ^ 27 \<le> unat x \<and> unat x < zone_base z + 2 ^ 28}"
    and "n \<le> meta_buf_size \<Longrightarrow> span (lmt_pos z + LBA_LENGTH) (flush_room (n + cbytes (table_cells (obj_lmt v)))) \<subseteq>
      {x. zone_base z + 2 ^ 28 < unat x \<and> unat x < zone_base z + 3 * 2 ^ 30}"
    and "unat (fl_pos z) + 4096 + nat (q_depth (free_obj_queue v)) * 4 < 2 ^ 64"
    and "unat (tl_pos z) + 4096 + nat (q_depth (trim_obj_queue v)) * 4 < 2 ^ 64"
    and "n \<le> meta_buf_size \<Longrightarrow>
      unat (lmt_pos z + LBA_LENGTH) + flush_room (n + cbytes (table_cells (obj_lmt v))) < 2 ^ 64"
    and "unat (lmt_pos z + LBA_LENGTH) = zone_base z + 2 ^ 28 + 4096"
proof -
  note P = zone_positions [of z]
  have B: "zone_base z \<le> 3 * 2 ^ 30" by (simp add: zone_base_def)
  have F: "nat (q_depth (free_obj_queue v)) \<le> 2 ^ 24 + 1" "nat (q_depth (trim_obj_queue v)) \<le> 2 ^ 24 + 1"
    "cbytes (table_cells (obj_lmt v)) \<le> 80 * 2 ^ 24"
    using assms by (simp_all add: fits_zone_def)
  show l: "unat (lmt_pos z + LBA_LENGTH) = zone_base z + 2 ^ 28 + 4096"
    using unat_offset [of "lmt_pos z" 4096] P(4) B by simp
  have r: "flush_room (n + cbytes (table_cells (obj_lmt v))) \<le> 2 ^ 31" if "n \<le> meta_buf_size"
    using F(3) that by (intro lmt_room) simp
  show "queue_span (fl_pos z) (free_obj_queue v) \<subseteq> {x. zone_base z \<le> unat x \<and> unat x < zone_base z + 2 ^ 27}"
    using P F by (auto simp: queue_span_def span_def)
  show "queue_span (tl_pos z) (trim_obj_queue v) \<subseteq> {x. zone_base z + 2 ^ 27 \<le> unat x \<and> unat x < zone_base z + 2 ^ 28}"
    using P F by (auto simp: queue_span_def span_def)
  show "span (lmt_pos z + LBA_LENGTH) (flush_room (n + cbytes (table_cells (obj_lmt v)))) \<subseteq>
      {x. zone_base z + 2 ^ 28 < unat x \<and> unat x < zone_base z + 3 * 2 ^ 30}" if "n \<le> meta_buf_size"
    using r [OF that] unfolding span_def l by auto
  show "unat (fl_pos z) + 4096 + nat (q_depth (free_obj_queue v)) * 4 < 2 ^ 64"
    "unat (tl_pos z) + 4096 + nat (q_depth (trim_obj_queue v)) * 4 < 2 ^ 64"
    using P B F by simp_all
  show "unat (lmt_pos z + LBA_LENGTH) + flush_room (n + cbytes (table_cells (obj_lmt v))) < 2 ^ 64"
    if "n \<le> meta_buf_size"
    using r [OF that] B unfolding l by simp
qed

lemma md_saved_frame:
  assumes saved: "md_saved dm z v" and fits: "fits_zone v" and same: "\<And>x. x \<in> zone_blocks z \<Longrightarrow> dm' x = dm x"
  shows "md_saved dm' z v"
proof -
  note A = zone_areas [OF fits, where z = z]
  have "zone_base z + 2 ^ 28 < zone_base z + 3 * 2 ^ 30" by simp
  then have h: "dm' (lmt_pos z) = dm (lmt_pos z)"
    using zone_positions(4) [of z] by (intro same) (simp add: zone_blocks_def)
  have sub: "queue_span (fl_pos z) (free_obj_queue v) \<subseteq> zone_blocks z"
    "queue_span (tl_pos z) (trim_obj_queue v) \<subseteq> zone_blocks z"
    "span (lmt_pos z + LBA_LENGTH) (flush_room (meta_buf_size + cbytes (table_cells (obj_lmt v)))) \<subseteq> zone_blocks z"
    using A(1,2) A(3) [OF order_refl] by (auto simp: zone_blocks_def)
  have q1: "queue_saved dm' (fl_pos z) (free_obj_queue v)"
    by (rule queue_saved_frame [of dm, OF _ same [OF subsetD [OF sub(1)]] A(4)]) (use saved in \<open>simp add: md_saved_def\<close>)
  have q2: "queue_saved dm' (tl_pos z) (trim_obj_queue v)"
    by (rule queue_saved_frame [of dm, OF _ same [OF subsetD [OF sub(2)]] A(5)]) (use saved in \<open>simp add: md_saved_def\<close>)
  have "readable dm' (lmt_pos z + LBA_LENGTH) meta_buf_size (\<lambda>_. None) (table_cells (obj_lmt v))"
    by (rule readable_frame [of dm, OF _ same [OF subsetD [OF sub(3)]] A(6) [OF order_refl]])
      (use saved in \<open>simp add: md_saved_def\<close>)
  then show ?thesis using saved h q1 q2 by (simp add: md_saved_def)
qed

section \<open>Saving\<close>

lemma readable_start:
  assumes "dm off = Cells_block f" and "readable dm (off + of_nat meta_buf_size) 0 f cs"
  shows "readable dm off meta_buf_size g cs"
proof (cases cs)
  case (Cons c cs')
  have "csize c \<le> meta_buf_size" "0 < csize c"
    using csize_bounds [of c] by (simp_all add: meta_buf_size_def)
  then show ?thesis using assms Cons by (simp add: cells_of_def)
qed simp

lemma persist_head_ok:
  assumes "no_err s"
  obtains n where "persist_head z s = (0, s\<lparr>
      head := (head s)\<lparr>current_metadata := z, redolog_phase := redolog_phase (head s) + 1,
        current_redolog := oppsite_redolog_zone (head s)\<rparr>,
      dev := (dev s)\<lparr>d_cnt := n, d_head := Some ((head s)\<lparr>current_metadata := z,
        redolog_phase := redolog_phase (head s) + 1, current_redolog := oppsite_redolog_zone (head s)\<rparr>)\<rparr>\<rparr>)"
proof -
  have "oppsite_redolog_zone ((head s)\<lparr>current_metadata := z\<rparr>) = oppsite_redolog_zone (head s)"
    by (simp add: oppsite_redolog_zone_def)
  then show ?thesis using assms that
    by (simp add: persist_head_def discard_def sync_write_head_def ext_call_def no_err_def Let_def)
qed

lemma md5_init_ok:
  assumes "no_err s"
  obtains s' where "md5_init s = (0, s')" and "ticked s s'"
proof -
  obtain s1 where 1: "ext_call s = (0, s1)" "ticked s s1" using ext_call_ok [OF assms] .
  then obtain s2 where 2: "ext_call s1 = (0, s2)" "ticked s1 s2"
    using ext_call_ok [of s1] mwroteD(1) [OF 1(2)] assms by metis
  then show ?thesis using that 1 ticked_trans [OF 1(2) 2(2)] by (simp add: md5_init_def)
qed

text \<open>\<open>saved_to z s s'\<close>: what a successful save to zone \<open>z\<close> changes.\<close>

definition saved_to :: "nat \<Rightarrow> flash_store \<Rightarrow> flash_store \<Rightarrow> bool" where
  "saved_to z s s' \<longleftrightarrow>
     (\<exists>h m n. s' = s\<lparr>head := h, dev := (dev s)\<lparr>d_meta := m, d_cnt := n, d_head := Some h\<rparr>\<rparr> \<and>
        fixed_head h = fixed_head (head s) \<and> current_metadata h = z \<and>
        redolog_phase h = redolog_phase (head s) + 1 \<and> current_redolog h = oppsite_redolog_zone (head s) \<and>
        md_saved m z s \<and> (\<forall>x. x \<notin> zone_blocks z \<longrightarrow> m x = d_meta (dev s) x))"

lemma save_lmt_area_ok:
  assumes ok: "no_err s" and fits: "fits_zone s"
  obtains s1 digest st where "save_lmt_area z (lmt_pos z) st0 s = persist_head z (store_md5 z digest s1)"
    and "mwrote {x. zone_base z + 2 ^ 28 \<le> unat x \<and> unat x < zone_base z + 3 * 2 ^ 30} s s1"
    and "d_meta (dev s1) (lmt_pos z) = Ints_block [int (length (obj_lmt s)), 48, 0]"
    and "readable (d_meta (dev s1)) (lmt_pos z + LBA_LENGTH) meta_buf_size (\<lambda>_. None) (table_cells (obj_lmt s))"
proof -
  let ?b = "Ints_block [int (length (obj_lmt s)), 48, 0]" and ?o = "lmt_pos z + LBA_LENGTH"
  let ?R = "{x. zone_base z + 2 ^ 28 \<le> unat x \<and> unat x < zone_base z + 3 * 2 ^ 30}"
  note L = zone_areas(3,6) [OF fits, where z = z and n = 0, simplified]
  obtain s1 where w: "write_calc ?b (lmt_pos z) st0 s = (0, st0 @ [?b], s1)" "mwrote {lmt_pos z} s s1"
      "d_meta (dev s1) (lmt_pos z) = ?b"
    using write_calc_ok [OF ok] .
  let ?z = "ser_new ?o meta_buf_size True"
  have z: "ser_offset ?z = ?o" "ser_pos ?z = 0" "ser_buf_size ?z = meta_buf_size" by (simp_all add: ser_new_def)
  have ok1: "no_err s1" using mwroteD(1) [OF w(2)] ok by simp
  obtain z1 z2 st2 s2 f where c: "write_cells (table_cells (obj_lmt s)) (?z, st0 @ [?b], s1) = (0, z1)"
      "flush_buffer z1 = (0, z2, st2, s2)"
      "mwrote (span ?o (flush_room (cbytes (table_cells (obj_lmt s))))) s1 s2"
      "d_meta (dev s2) ?o = Cells_block f"
      "readable (d_meta (dev s2)) (?o + of_nat meta_buf_size) 0 f (table_cells (obj_lmt s))"
    using write_cells_ok [OF ok1 z(3), of "table_cells (obj_lmt s)" "st0 @ [?b]"] L(2) unfolding z by auto
  have "save_lmt_area z (lmt_pos z) st0 s = persist_head z (store_md5 z (md5_digest st2 s2) s2)"
    using w(1) c(1,2) mwroteD(3) [OF w(2)] by (simp add: save_lmt_area_def save_lmt_cells)
  moreover have "mwrote ?R s s2"
    by (rule mwrote_trans [OF w(2) c(3)]) (use zone_positions(4) [of z] L(1) in auto)
  moreover have "lmt_pos z \<notin> span ?o (flush_room (cbytes (table_cells (obj_lmt s))))"
    using L(1) zone_positions(4) [of z] by auto
  then have "d_meta (dev s2) (lmt_pos z) = ?b" using mwroteD(10) [OF c(3)] w(3) by simp
  moreover note readable_start [OF c(4,5)]
  ultimately show ?thesis using that by blast
qed

lemma saved_toI:
  assumes "mwrote (zone_blocks z) s s5" and "md_saved (d_meta (dev s5)) z s"
    and "fixed_head h = fixed_head (head s)" and "current_metadata h = z"
    and "redolog_phase h = redolog_phase (head s) + 1" and "current_redolog h = oppsite_redolog_zone (head s)"
  shows "saved_to z s ((store_md5 z dg s5)\<lparr>head := h, dev := (dev (store_md5 z dg s5))\<lparr>d_cnt := n, d_head := Some h\<rparr>\<rparr>)"
proof -
  obtain m c where s5: "s5 = s\<lparr>dev := (dev s)\<lparr>d_meta := m, d_cnt := c\<rparr>\<rparr>"
      "\<forall>x. x \<notin> zone_blocks z \<longrightarrow> m x = d_meta (dev s) x"
    using assms(1) by (auto simp: mwrote_def)
  show ?thesis unfolding saved_to_def
    by (rule exI [of _ h], rule exI [of _ m], rule exI [of _ n])
      (use assms(2-) s5 in \<open>simp add: store_md5_def\<close>)
qed

lemma save_meta_data_ok:
  assumes ok: "no_err s" and std: "std_head (head s)" and fits: "fits_zone s"
  obtains s' where "save_meta_data z s = (0, s')" and "saved_to z s s'"
proof -
  let ?fq = "free_obj_queue s" and ?tq = "trim_obj_queue s"
  note A = zone_areas(1,2,4,5) [OF fits, where z = z]
  obtain s1 where 1: "ext_call s = (0, s1)" "ticked s s1" using ext_call_ok [OF ok] .
  have ok1: "no_err s1" using mwroteD(1) [OF 1(2)] ok by simp
  obtain s2 where 2: "md5_init s1 = (0, s2)" "ticked s1 s2" using md5_init_ok [OF ok1] .
  note t2 = ticked_trans [OF 1(2) 2(2)]
  have ok2: "no_err s2" using mwroteD(1) [OF t2] ok by simp
  obtain st3 s3 where 3: "save_fixed_queue ?fq (fl_pos z) [] s2 = (0, st3, s3)"
      "mwrote (queue_span (fl_pos z) ?fq) s2 s3" "queue_saved (d_meta (dev s3)) (fl_pos z) ?fq"
    using save_fixed_queue_ok [OF ok2 A(3)] .
  have ok3: "no_err s3" using mwroteD(1) [OF 3(2)] ok2 by simp
  obtain st4 s4 where 4: "save_fixed_queue ?tq (tl_pos z) st3 s3 = (0, st4, s4)"
      "mwrote (queue_span (tl_pos z) ?tq) s3 s4" "queue_saved (d_meta (dev s4)) (tl_pos z) ?tq"
    using save_fixed_queue_ok [OF ok3 A(4)] .
  have t4: "mwrote {x. zone_base z \<le> unat x \<and> unat x < zone_base z + 2 ^ 28} s s4"
    by (rule mwrote_trans [OF mwrote_trans [OF t2 3(2) _ subset_refl] 4(2)]) (use A(1,2) in auto)
  note D = mwroteD [OF t4]
  have ok4: "no_err s4" and fits4: "fits_zone s4" using D ok fits by (simp_all add: fits_zone_def)
  obtain s5 dg where 5: "save_lmt_area z (lmt_pos z) st4 s4 = persist_head z (store_md5 z dg s5)"
      "mwrote {x. zone_base z + 2 ^ 28 \<le> unat x \<and> unat x < zone_base z + 3 * 2 ^ 30} s4 s5"
      "d_meta (dev s5) (lmt_pos z) = Ints_block [int (length (obj_lmt s4)), 48, 0]"
      "readable (d_meta (dev s5)) (lmt_pos z + LBA_LENGTH) meta_buf_size (\<lambda>_. None) (table_cells (obj_lmt s4))"
    using save_lmt_area_ok [OF ok4 fits4] .
  let ?m = "d_meta (dev s5)" and ?s5 = "store_md5 z dg s5"
  have t5: "mwrote (zone_blocks z) s s5"
    by (rule mwrote_trans [OF t4 5(2)]) (auto simp: zone_blocks_def)
  have far: "x \<in> queue_span (fl_pos z) ?fq \<union> queue_span (tl_pos z) ?tq \<Longrightarrow> ?m x = d_meta (dev s4) x" for x
    using A(1,2) by (intro mwroteD(10) [OF 5(2)]) auto
  have far3: "x \<in> queue_span (fl_pos z) ?fq \<Longrightarrow> d_meta (dev s4) x = d_meta (dev s3) x" for x
    using subsetD [OF A(1), of x] subsetD [OF A(2), of x] by (intro mwroteD(10) [OF 4(2)]) auto
  have "queue_saved ?m (fl_pos z) ?fq"
    by (rule queue_saved_frame [OF 3(3) _ A(3)]) (simp add: far far3)
  moreover have "queue_saved ?m (tl_pos z) ?tq"
    by (rule queue_saved_frame [OF 4(3) _ A(4)]) (simp add: far)
  ultimately have md: "md_saved ?m z s" using 5(3,4) D(3) by (simp add: md_saved_def)
  have "no_err ?s5" using mwroteD(1) [OF t5] ok by (simp add: store_md5_def no_err_def)
  then obtain n where p: "persist_head z ?s5 = (0, ?s5\<lparr>
      head := (head ?s5)\<lparr>current_metadata := z, redolog_phase := redolog_phase (head ?s5) + 1,
        current_redolog := oppsite_redolog_zone (head ?s5)\<rparr>,
      dev := (dev ?s5)\<lparr>d_cnt := n, d_head := Some ((head ?s5)\<lparr>current_metadata := z,
        redolog_phase := redolog_phase (head ?s5) + 1, current_redolog := oppsite_redolog_zone (head ?s5)\<rparr>)\<rparr>\<rparr>)"
    by (rule persist_head_ok)
  let ?h = "(head ?s5)\<lparr>current_metadata := z, redolog_phase := redolog_phase (head ?s5) + 1,
        current_redolog := oppsite_redolog_zone (head ?s5)\<rparr>"
  have h5: "fixed_head (head ?s5) = fixed_head (head s)" "redolog_phase (head ?s5) = redolog_phase (head s)"
      "oppsite_redolog_zone (head ?s5) = oppsite_redolog_zone (head s)"
    using mwroteD(2) [OF t5] by (simp_all add: store_md5_def oppsite_redolog_zone_def)
  have "save_meta_data z s = persist_head z ?s5"
    by (simp only: save_meta_data_def Let_def 1(1) prod.case mwroteD(2) [OF 1(2)] std_positions [OF std] 2(1)
        mwroteD(4) [OF t2] 3(1) mwroteD(5) [OF 3(2)] mwroteD(5) [OF t2] 4(1) 5(1) simp_thms if_False)
  moreover have "saved_to z s (snd (persist_head z ?s5))"
    unfolding p snd_conv by (rule saved_toI [OF t5 md]) (simp_all add: h5)
  ultimately show ?thesis using that p by simp
qed

section \<open>Loading\<close>

lemma ticked_dev: "ticked s s' \<Longrightarrow> \<exists>n. s' = s\<lparr>dev := (dev s)\<lparr>d_cnt := n\<rparr>\<rparr>"
proof -
  assume "ticked s s'"
  then obtain m n where s': "s' = s\<lparr>dev := (dev s)\<lparr>d_meta := m, d_cnt := n\<rparr>\<rparr>" "\<forall>x. m x = d_meta (dev s) x"
    by (auto simp: mwrote_def)
  then have "m = d_meta (dev s)" by (intro ext) simp
  then show ?thesis using s'(1) by (intro exI [of _ n]) simp
qed

lemma init_entry_pool_dev:
  "init_entry_pool s = (rc, s') \<Longrightarrow> ticked (s\<lparr>lmt_entry_pool := lmt_entry_pool s'\<rparr>) s'"
proof -
  assume "init_entry_pool s = (rc, s')"
  then have s': "s' = snd (init_entry_pool s)" by simp
  show ?thesis unfolding mwrote_def
    by (rule exI [of _ "d_meta (dev s)"], rule exI [of _ "d_cnt (dev s) + 3"])
      (simp add: s' init_entry_pool_def ext_call_def case_prod_beta)
qed

text \<open>The pool with which the table is loaded: all its slots are free.\<close>

definition pool_fresh :: "mem_pool \<Rightarrow> bool" where
  "pool_fresh p \<longleftrightarrow> q_inv (p_free p) \<and> q_cap (p_free p) = p_slots p \<and>
     mset (q_list (p_free p)) = mset [0..<p_slots p]"

lemma pool_fresh_length: "pool_fresh p \<Longrightarrow> length (q_list (p_free p)) = p_slots p"
proof -
  assume "pool_fresh p"
  then have "size (mset (q_list (p_free p))) = size (mset [0..<p_slots p])" by (simp only: pool_fresh_def)
  then show ?thesis by simp
qed

lemma load_lmt_area_ok:
  assumes ok: "no_err s" and empty: "obj_lmt s = []"
    and blk: "d_meta (dev s) pos = Ints_block [int (length m), 48, 0]"
    and rd: "readable (d_meta (dev s)) (pos + LBA_LENGTH) meta_buf_size (\<lambda>_. None) (table_cells m)"
    and m: "no_empty_chain m" "statuses_ok m" "distinct (map fst m)"
    and p: "pool_fresh (lmt_entry_pool s)" "size (table_entries m) < p_slots (lmt_entry_pool s)"
  obtains new s' where "load_lmt_area pos buf st s = Inr (0, s'\<lparr>obj_lmt := new\<rparr>)" and "img_lmt new = img_lmt m"
    and "took (map e_addr (concat (map snd new))) s s'"
proof -
  let ?b = "Ints_block [int (length m), 48, 0]"
  obtain s1 where r: "read_calc pos buf st s = (0, ?b, st @ [?b], s1)" "ticked s s1"
    using read_calc_ok [OF ok, of pos buf st] unfolding blk by metis
  note D = mwroteD [OF r(2)]
  let ?z = "ser_new (pos + LBA_LENGTH) meta_buf_size False"
  have rd1: "reader (table_cells m @ []) (?z, st @ [?b], s1)"
    using rd D(1) ok ticked_meta [OF r(2)] by (simp add: reader_def ser_new_def)
  have q: "q_inv (p_free (lmt_entry_pool s1))" "length (q_list (p_free (lmt_entry_pool s1))) = p_slots (lmt_entry_pool s1)"
    using p(1) pool_fresh_length [OF p(1)] D(6) by (simp_all add: pool_fresh_def)
  obtain new z' st' s' where l: "load_keys (length m) (?z, st @ [?b], s1) = Inr (0, z', st', s'\<lparr>obj_lmt := obj_lmt s1 @ new\<rparr>)"
      "img_lmt new = img_lmt m" "reader [] (z', st', s')" "took (map e_addr (concat (map snd new))) s1 s'"
    using load_keys_ok [OF rd1 m _ q(1)] q(2) p(2) D(3,6) empty by auto
  have t: "took (map e_addr (concat (map snd new))) s s'"
    using took_trans [OF took_ticked [OF r(2)] l(4)] p(1) by (simp add: pool_fresh_def)
  have e: "obj_lmt s1 = []" using D(3) empty by simp
  have int: "int_at ?b 0 = int (length m)" by (simp add: int_at_def)
  show ?thesis
  proof (cases "m = []")
    case False
    then have "load_lmt_area pos buf st s = Inr (0, s'\<lparr>obj_lmt := new\<rparr>)"
      using r(1) l(1) e by (simp add: load_lmt_area_def int)
    then show ?thesis using that l(2) t by blast
  next
    case True
    let ?s2 = "s'\<lparr>obj_lmt := new\<rparr>"
    have "new = []" using l(2) True by (cases new) auto
    have ok2: "no_err ?s2" using tookD(1) [OF t] ok by (simp add: no_err_def)
    let ?bb = "d_meta (dev ?s2) (ser_offset z')"
    obtain s3 where r3: "read_calc (ser_offset z') (Cells_block (ser_buf z')) st' ?s2 = (0, ?bb, st' @ [?bb], s3)"
        "ticked ?s2 s3"
      using read_calc_ok [OF ok2] .
    have "load_lmt_area pos buf st s = Inr (0, s3)"
      using r(1) l(1) e True r3(1) by (simp add: load_lmt_area_def int_at_def load_buffer_def Let_def)
    moreover have "s3 = (s3\<lparr>obj_lmt := obj_lmt s\<rparr>)\<lparr>obj_lmt := new\<rparr>" using mwroteD(3) [OF r3(2)] by simp
    moreover have "took (map e_addr (concat (map snd new)) @ []) s (s3\<lparr>obj_lmt := obj_lmt s\<rparr>)"
    proof -
      have "took [] ?s2 s3" by (rule took_ticked [OF r3(2)]) (use tookD(7) [OF t] in simp)
      then have "took [] (?s2\<lparr>obj_lmt := obj_lmt s\<rparr>) (s3\<lparr>obj_lmt := obj_lmt s\<rparr>)" by (rule took_lmt)
      then have "took [] s' (s3\<lparr>obj_lmt := obj_lmt s\<rparr>)" by (simp add: tookD(3) [OF t, symmetric])
      then show ?thesis using took_trans [OF t] by blast
    qed
    ultimately show ?thesis using that l(2) by (metis append_Nil2)
  qed
qed

text \<open>The invariant, apart from the pool, is a property of the image of the table.\<close>

lemma image_entries:
  assumes "img_lmt m' = img_lmt m" and "\<And>e e'. img e' = img e \<Longrightarrow> f e' = f e"
  shows "image_mset f (table_entries m') = image_mset f (table_entries m)"
proof -
  have g: "f e = (\<lambda>i. f (SOME x. img x = i)) (img e)" for e
    using assms(2) [of "SOME x. img x = img e" e] someI [of "\<lambda>x. img x = img e" e] by simp
  have "image_mset img (table_entries x) = mset (concat (map snd (img_lmt x)))" for x
    by (induction x) (auto simp: img_lmt_def)
  then have "image_mset img (table_entries m') = image_mset img (table_entries m)" using assms(1) by simp
  then have "image_mset (\<lambda>i. f (SOME x. img x = i)) (image_mset img (table_entries m')) =
      image_mset (\<lambda>i. f (SOME x. img x = i)) (image_mset img (table_entries m))" by simp
  then show ?thesis by (simp only: image_mset.compositionality comp_def g [symmetric])
qed

lemma img_lmt_all:
  "img_lmt m' = img_lmt m \<Longrightarrow> (\<And>c c'. map img c' = map img c \<Longrightarrow> P c' = P c) \<Longrightarrow>
     list_all P (map snd m') = list_all P (map snd m)"
proof (induction m' arbitrary: m)
  case Nil
  have "m = []" using Nil.prems(1) by (cases m) (auto simp: img_lmt_def)
  then show ?case by simp
next
  case (Cons kc m')
  obtain kd n where m: "m = kd # n" using Cons.prems(1) by (cases m) (auto simp: img_lmt_def)
  obtain k c l d where p: "kc = (k, c)" "kd = (l, d)" by (meson prod.exhaust)
  have eq: "map img c = map img d" "img_lmt m' = img_lmt n" using Cons.prems(1) m p by simp_all
  show ?case using Cons.IH [OF eq(2) Cons.prems(2)] Cons.prems(2) [OF eq(1)] m p by simp
qed

lemma img_lmt_keys: "map fst (img_lmt m) = map fst m"
  by (induction m) (auto simp: img_lmt_def)

lemma store_inv_image:
  assumes inv: "store_inv v" and im: "img_lmt (obj_lmt r) = img_lmt (obj_lmt v)"
    and q: "free_obj_queue r = free_obj_queue v" "trim_obj_queue r = trim_obj_queue v"
    and h: "fixed_head (head r) = fixed_head (head v)"
    and p: "slots_conserved (obj_lmt r) (lmt_entry_pool r)" "q_inv (p_free (lmt_entry_pool r))"
      "q_cap (p_free (lmt_entry_pool r)) = p_slots (lmt_entry_pool r)" "nat (obj_count (head v)) < p_slots (lmt_entry_pool r)"
  shows "store_inv r"
proof -
  have I: "image_mset e_offset (table_entries (obj_lmt r)) = image_mset e_offset (table_entries (obj_lmt v))"
    "image_mset e_status (table_entries (obj_lmt r)) = image_mset e_status (table_entries (obj_lmt v))"
    by (rule image_entries [OF im], simp add: img_def)+
  have "desc_chain c' = desc_chain c" if "map img c' = map img c" for c c'
  proof -
    have "sorted_wrt (\<lambda>a b. b < a) (map e_snap_seq c') = sorted_wrt (\<lambda>a b. b < a) (map e_snap_seq c)"
      using map_img_snap [OF that] by simp
    then show ?thesis by (simp only: sorted_wrt_map)
  qed
  then have d: "list_all desc_chain (map snd (obj_lmt r)) = list_all desc_chain (map snd (obj_lmt v))"
    by (rule img_lmt_all [OF im])
  have ne: "no_empty_chain (obj_lmt r) = no_empty_chain (obj_lmt v)"
    unfolding no_empty_chain_def by (rule img_lmt_all [OF im]) (metis map_is_Nil_conv)
  have k: "map fst (obj_lmt r) = map fst (obj_lmt v)" using im img_lmt_keys by metis
  note G = fixed_head_geometry [OF h]
  have t: "tables_inv0 (head v) (obj_lmt v) (free_obj_queue v) (trim_obj_queue v) (lmt_entry_pool v)"
    "statuses_ok (obj_lmt v)" "no_empty_chain (obj_lmt v)"
    using inv by (simp_all add: store_inv_def store_inv0_def)
  have u: "used_ids (head r) (obj_lmt r) = used_ids (head v) (obj_lmt v)" unfolding used_ids_def' I(1) G(2) ..
  have "tables_inv0 (head r) (obj_lmt r) (free_obj_queue r) (trim_obj_queue r) (lmt_entry_pool r)"
    using t(1) p by (simp add: tables_inv0_def queues_ok_def objects_conserved_def offsets_ok_def chains_ok_def
        q d k u I(1) G all_ids_def)
  then show ?thesis using t(2,3) ne I(2) by (simp add: store_inv_def store_inv0_def statuses_ok_def)
qed

lemma took_dev: "took as s s' \<Longrightarrow> acts s' = acts s \<and> (\<exists>n. dev s' = (dev s)\<lparr>d_cnt := n\<rparr>)"
proof -
  assume "took as s s'"
  then have t: "ticked (s\<lparr>lmt_entry_pool := lmt_entry_pool s'\<rparr>) s'" by (simp add: took_def)
  have "s' = s\<lparr>lmt_entry_pool := lmt_entry_pool s', dev := (dev s)\<lparr>d_cnt := n\<rparr>\<rparr> \<Longrightarrow> dev s' = (dev s)\<lparr>d_cnt := n\<rparr>" for n
    by (drule arg_cong [of _ _ dev]) simp
  then show ?thesis using ticked_dev [OF t] mwroteD(9) [OF t] by auto
qed

lemma size_image_entries: "img_lmt m' = img_lmt m \<Longrightarrow> size (table_entries m') = size (table_entries m)"
  using arg_cong [OF image_entries [of m' m "\<lambda>_. ()"], of size] by simp

text \<open>
  Loading a zone that holds the tables of \<open>v\<close> gives a store with the same tables.
\<close>

lemma load_meta_data_ok:
  assumes ok: "no_err t" and std: "std_head (head t)" and empty: "obj_lmt t = []"
    and saved: "md_saved (d_meta (dev t)) z v" and inv: "store_inv v"
    and h: "fixed_head (head t) = fixed_head (head v)"
    and pool: "cmp \<Longrightarrow> pool_fresh (lmt_entry_pool t) \<and> nat (obj_count (head v)) < p_slots (lmt_entry_pool t)"
  obtains r n where "load_meta_data z cmp t = Inr (0, r)" and "sim v r" and "head r = head t"
    and "acts r = acts t" and "dev r = (dev t)\<lparr>d_cnt := n\<rparr>"
proof -
  let ?fq = "free_obj_queue v" and ?tq = "trim_obj_queue v"
  have tv: "tables_inv0 (head v) (obj_lmt v) ?fq ?tq (lmt_entry_pool v)"
    and so: "statuses_ok (obj_lmt v)" and ne: "no_empty_chain (obj_lmt v)"
    using inv by (simp_all add: store_inv_def store_inv0_def)
  have qi: "q_inv ?fq" "q_inv ?tq" "q_cap ?fq = nat (obj_count (head v))" "0 \<le> obj_count (head v)"
    and dk: "distinct (map fst (obj_lmt v))"
    using tv by (simp_all add: tables_defs chains_ok_def geom_ok_def)
  have few: "size (table_entries (obj_lmt v)) \<le> nat (obj_count (head v))" using tables_sizes(1) [OF tv] by simp
  obtain s1 where 1: "ext_call t = (0, s1)" "ticked t s1" using ext_call_ok [OF ok] .
  have ok1: "no_err s1" using mwroteD(1) [OF 1(2)] ok by simp
  obtain s2 where 2: "md5_init s1 = (0, s2)" "ticked s1 s2" using md5_init_ok [OF ok1] .
  note t2 = ticked_trans [OF 1(2) 2(2)]
  have ok2: "no_err s2" using mwroteD(1) [OF t2] ok by simp
  have "queue_saved (d_meta (dev s2)) (fl_pos z) ?fq"
    using saved ticked_meta [OF t2] by (simp add: md_saved_def)
  then obtain b3 st3 s3 where 3: "load_fixed_queue (free_obj_queue s2) (fl_pos z) Zero_block [] s2 = (0, ?fq, b3, st3, s3)"
      "ticked s2 s3"
    using load_fixed_queue_ok [OF ok2 _ qi(1)] by blast
  note t3 = ticked_trans [OF t2 3(2)]
  let ?s3 = "s3\<lparr>free_obj_queue := ?fq\<rparr>"
  have ok3: "no_err ?s3" using mwroteD(1) [OF t3] ok by (simp add: no_err_def)
  have "queue_saved (d_meta (dev ?s3)) (tl_pos z) ?tq"
    using saved ticked_meta [OF t3] by (simp add: md_saved_def)
  then obtain b4 st4 s4 where 4: "load_fixed_queue (trim_obj_queue s3) (tl_pos z) b3 st3 ?s3 = (0, ?tq, b4, st4, s4)"
      "ticked ?s3 s4"
    using load_fixed_queue_ok [OF ok3 _ qi(2)] by blast
  let ?s5 = "s4\<lparr>trim_obj_queue := ?tq\<rparr>"
  obtain n3 where s3: "s3 = t\<lparr>dev := (dev t)\<lparr>d_cnt := n3\<rparr>\<rparr>" using ticked_dev [OF t3] by blast
  obtain n4 where s4: "s4 = ?s3\<lparr>dev := (dev ?s3)\<lparr>d_cnt := n4\<rparr>\<rparr>" using ticked_dev [OF 4(2)] by blast
  have d5: "dev ?s5 = (dev t)\<lparr>d_cnt := n4\<rparr>" "obj_lmt ?s5 = []" "head ?s5 = head t" "acts ?s5 = acts t"
      "free_obj_queue ?s5 = ?fq" "lmt_entry_pool ?s5 = lmt_entry_pool t"
    using s3 s4 empty by simp_all
  have ok5: "no_err ?s5" using ok d5(1) by (simp add: no_err_def)
  obtain s6 where 6: "(if cmp then (0, ?s5) else init_entry_pool ?s5) = (0, s6)"
      "ticked (?s5\<lparr>lmt_entry_pool := lmt_entry_pool s6\<rparr>) s6" "pool_fresh (lmt_entry_pool s6)"
      "nat (obj_count (head v)) < p_slots (lmt_entry_pool s6)"
  proof (cases cmp)
    case True
    show ?thesis
    proof (rule that [of ?s5])
      show "ticked (?s5\<lparr>lmt_entry_pool := lmt_entry_pool ?s5\<rparr>) ?s5" using mwrote_refl [of "{}" ?s5] by simp
    qed (use True pool d5(6) in simp_all)
  next
    case False
    obtain s6 where e: "init_entry_pool ?s5 = (0, s6)"
      using no_err_init_entry_pool [OF ok5] by (cases "init_entry_pool ?s5") simp
    have dep: "q_depth ?fq = obj_count (head v) + 1" using depth_of_cap [OF qi(1,3,4)] .
    note I = init_entry_pool_ok [OF e]
    have "pool_fresh (lmt_entry_pool s6)" "nat (obj_count (head v)) < p_slots (lmt_entry_pool s6)"
      using I d5(5) dep qi(4) by (simp_all add: pool_fresh_def)
    then show ?thesis using that [of s6] False e init_entry_pool_dev [OF e] by simp
  qed
  note D6 = mwroteD [OF 6(2)]
  have ok6: "no_err s6" using D6(1) ok5 by (simp add: no_err_def)
  have m6: "d_meta (dev s6) = d_meta (dev t)" using ticked_meta [OF 6(2)] d5(1) by simp
  have e6: "obj_lmt s6 = []" using D6(3) d5(2) by simp
  have lm: "d_meta (dev s6) (lmt_pos z) = Ints_block [int (length (obj_lmt v)), 48, 0]"
    "readable (d_meta (dev s6)) (lmt_pos z + LBA_LENGTH) meta_buf_size (\<lambda>_. None) (table_cells (obj_lmt v))"
    using saved m6 by (simp_all add: md_saved_def)
  obtain new s7 where 7: "load_lmt_area (lmt_pos z) b4 st4 s6 = Inr (0, s7\<lparr>obj_lmt := new\<rparr>)"
      "img_lmt new = img_lmt (obj_lmt v)" "took (map e_addr (concat (map snd new))) s6 s7"
    by (rule load_lmt_area_ok [OF ok6 e6 lm ne so dk 6(3) le_less_trans [OF few 6(4)]])
  let ?r = "s7\<lparr>obj_lmt := new\<rparr>"
  have "load_meta_data z cmp t = Inr (0, ?r)"
    by (simp only: load_meta_data_def Let_def 1(1) prod.case mwroteD(2) [OF 1(2)] std_positions [OF std] 2(1)
        3(1) 4(1) 6(1) 7(1) simp_thms if_False)
  moreover note K = tookD [OF 7(3)]
  have hr: "head ?r = head t" using K(2) D6(2) d5(3) by simp
  moreover have "acts ?r = acts t" using took_dev [OF 7(3)] D6(9) d5(4) by simp
  moreover obtain n where n: "dev s7 = (dev s6)\<lparr>d_cnt := n\<rparr>" using took_dev [OF 7(3)] by blast
  obtain n6 where n6: "s6 = ?s5\<lparr>lmt_entry_pool := lmt_entry_pool s6, dev := (dev ?s5)\<lparr>d_cnt := n6\<rparr>\<rparr>"
    using ticked_dev [OF 6(2)] by auto
  have "dev s6 = (dev t)\<lparr>d_cnt := n6\<rparr>" using arg_cong [OF n6, of dev] d5(1) by simp
  then have "dev ?r = (dev t)\<lparr>d_cnt := n\<rparr>" using n by simp
  moreover have pv: "pview ?r = pview v"
    using 7(2) K(4,5) D6(4,5) d5(5) by (simp add: pview_def)
  have "slots_conserved new (lmt_entry_pool s7)"
  proof -
    have "mset (q_list (p_free (lmt_entry_pool s6))) =
        mset (map e_addr (concat (map snd new))) + mset (q_list (p_free (lmt_entry_pool s7)))"
      using 7(3) by (simp only: took_def)
    then show ?thesis using 6(3) K(9) by (simp add: slots_conserved_def table_entries_def pool_fresh_def)
  qed
  then have "store_inv ?r"
    using 7(2,3) 6(3,4) K(4,5,7,9) D6(4,5) d5(5) hr h
    by (intro store_inv_image [OF inv]) (simp_all add: took_def pool_fresh_def q_cap_def)
  then have "sim v ?r" using pv hr h inv by (simp add: sim_def)
  ultimately show ?thesis using that [of ?r n] by simp
qed

section \<open>The round trip\<close>

lemma saved_toD:
  assumes "saved_to z s s'"
  shows "tbl s' = tbl s" "no_err s' = no_err s" "md_saved (d_meta (dev s')) z s" "d_head (dev s') = Some (head s')"
    "fixed_head (head s') = fixed_head (head s)" "current_metadata (head s') = z"
    "redolog_phase (head s') = redolog_phase (head s) + 1" "current_redolog (head s') = oppsite_redolog_zone (head s)"
    "d_log (dev s') = d_log (dev s)" "acts s' = acts s" "to_run_compact s' = to_run_compact s"
    "log_phase s' = log_phase s" "log_start s' = log_start s" "log_current s' = log_current s" "log_size s' = log_size s"
    "x \<notin> zone_blocks z \<Longrightarrow> d_meta (dev s') x = d_meta (dev s) x"
  using assms by (auto simp: saved_to_def tbl_def no_err_def)

text \<open>
  (C5) Saving the metadata and loading it. On a disk with the standard layout and at most
  \<open>2 ^ 24\<close> objects, whose calls succeed, \<open>save_meta_data\<close> returns 0, and a store that
  starts from the written head page loads from this zone the table with the same keys,
  offsets, sequence numbers and statuses in the same order, and both object queues slot by slot.
  The loaded store satisfies the invariant, and the blocks of the other zone are untouched.
\<close>

theorem meta_data_roundtrip:
  assumes "store_inv s" and "no_err s" and "std_head (head s)" and "obj_count (head s) \<le> 2 ^ 24"
  shows "\<exists>s'. save_meta_data z s = (0, s') \<and> d_head (dev s') = Some (head s') \<and> current_metadata (head s') = z \<and>
    (\<forall>x. x \<notin> zone_blocks z \<longrightarrow> d_meta (dev s') x = d_meta (dev s) x) \<and>
    (\<forall>t. head t = head s' \<and> dev t = dev s' \<and> obj_lmt t = [] \<longrightarrow>
      (\<exists>r. load_meta_data z False t = Inr (0, r) \<and> pview r = pview s \<and> store_inv r))"
proof -
  obtain s' where s': "save_meta_data z s = (0, s')" "saved_to z s s'"
    using save_meta_data_ok [OF assms(2,3) store_inv_fits [OF assms(1,4)]] .
  note D = saved_toD [OF s'(2)]
  have "\<exists>r. load_meta_data z False t = Inr (0, r) \<and> pview r = pview s \<and> store_inv r"
    if t: "head t = head s'" "dev t = dev s'" "obj_lmt t = []" for t
  proof -
    have ok: "no_err t" using D(2) assms(2) t(2) by (simp add: no_err_def)
    have std: "std_head (head t)" using std_head_fixed [OF D(5)] assms(3) t(1) by simp
    have md: "md_saved (d_meta (dev t)) z s" using D(3) t(2) by simp
    have h: "fixed_head (head t) = fixed_head (head s)" using D(5) t(1) by simp
    obtain r where "load_meta_data z False t = Inr (0, r)" "sim s r"
      by (rule load_meta_data_ok [OF ok std t(3) md assms(1) h, of False]) simp
    then show ?thesis by (auto simp: sim_def)
  qed
  then show ?thesis using s'(1) D(4,6,16) by blast
qed

lemma sample_std: "std_head (head (sample_store st))" "no_err (sample_store st)" "obj_count (head (sample_store st)) \<le> 2 ^ 24"
  by (simp_all add: std_head_def no_err_def sample_store_def sample_device_def)
    (simp add: sample_head_def OFFSET_FREE_LIST_FIRST_def
      OFFSET_FREE_LIST_SECOND_def OFFSET_TRIM_LIST_FIRST_def OFFSET_TRIM_LIST_SECOND_def
      OFFSET_LMT_MAP_FIRST_def OFFSET_LMT_MAP_SECOND_def OFFSET_REDO_LOG_FIRST_def OFFSET_REDO_LOG_SECOND_def REDO_LOG_SIZE_def)

theorem meta_data_roundtrip_witness:
  "\<exists>s' r. save_meta_data 1 (sample_store NORMAL) = (0, s') \<and>
     load_meta_data 1 False ((sample_store NORMAL)\<lparr>head := head s', dev := dev s', obj_lmt := []\<rparr>) = Inr (0, r) \<and>
     pview r = pview (sample_store NORMAL)"
proof -
  have inv: "store_inv (sample_store NORMAL)" by (rule sample_store_inv) simp
  obtain s' where s': "save_meta_data 1 (sample_store NORMAL) = (0, s')"
    and l: "\<forall>t. head t = head s' \<and> dev t = dev s' \<and> obj_lmt t = [] \<longrightarrow>
      (\<exists>r. load_meta_data 1 False t = Inr (0, r) \<and> pview r = pview (sample_store NORMAL) \<and> store_inv r)"
    using meta_data_roundtrip [OF inv sample_std(2,1,3), of 1] by blast
  show ?thesis
    using s' l [rule_format, of "(sample_store NORMAL)\<lparr>head := head s', dev := dev s', obj_lmt := []\<rparr>"] by auto
qed

end
