(* ===== verification/Durability.thy ===== *)
theory Durability
  imports Save_Load
begin

text \<open>
  What survives a crash. At every moment between two steps of the store, the metadata
  zone that the head page names and the two zones of the redo log determine the tables
  in memory: loading the zone and redoing the log gives them back. The log may be
  switched and compacted in between. The steps must be calm: no compaction is asked for
  while another one is pending, because such a request starts the log anew and
  overwrites records that are still needed.
\<close>

section \<open>Redoing logged items\<close>

lemma redo_one_frame:
  "redo_one it s = Inr (rc, s') \<Longrightarrow> head s' = head s \<and> acts s' = acts s \<and> dev s' = dev s \<and> log_size s' = log_size s"
  by (auto simp: redo_one_def redo_allocation_def redo_free_def redo_trim_def redo_snap_seq_change_def
      redo_state_change_def change_entry_def Let_def case_prod_beta
      split: option.splits redo_item.splits prod.splits if_splits)

text \<open>\<open>v'\<close> is the store after the item \<open>it\<close> was logged in \<open>v\<close>.\<close>

definition rstep :: "flash_store \<Rightarrow> redo_item \<Rightarrow> flash_store \<Rightarrow> bool" where
  "rstep v it v' \<longleftrightarrow> (\<forall>r. sim v r \<longrightarrow> (\<exists>r'. redo_one (Some it) r = Inr (0, r') \<and> sim v' r'))"

fun rsteps :: "flash_store \<Rightarrow> redo_item list \<Rightarrow> flash_store \<Rightarrow> bool" where
  "rsteps v [] v' \<longleftrightarrow> (\<forall>r. sim v r \<longrightarrow> sim v' r)"
| "rsteps v (it # its) v' \<longleftrightarrow> (\<exists>u. rstep v it u \<and> rsteps u its v')"

lemma rstep_pre: "rstep v it v' \<Longrightarrow> rsteps u [] v \<Longrightarrow> rstep u it v'"
  by (auto simp: rstep_def)

lemma rsteps_pre: "rsteps v its v' \<Longrightarrow> rsteps u [] v \<Longrightarrow> rsteps u its v'"
  using rstep_pre by (cases its) (simp, metis rsteps.simps(2))

lemma rstep_post: "rstep v it u \<Longrightarrow> rsteps u [] v' \<Longrightarrow> rstep v it v'"
  by (fastforce simp: rstep_def)

lemma rsteps_post: "rsteps v its u \<Longrightarrow> rsteps u [] v' \<Longrightarrow> rsteps v its v'"
proof (induction its arbitrary: v)
  case Nil
  then show ?case by auto
next
  case (Cons it its)
  then show ?case by (metis rsteps.simps(2))
qed

lemma rsteps_snoc:
  assumes "rsteps v its u" and "rstep u it v'"
  shows "rsteps v (its @ [it]) v'"
  using assms
proof (induction its arbitrary: v)
  case Nil
  have "rstep v it v'" by (rule rstep_pre [OF Nil(2,1)])
  then show ?case by auto
next
  case (Cons i its)
  then show ?case by (metis append_Cons rsteps.simps(2))
qed

lemma rsteps_silent:
  assumes "pview v' = pview v" and "fixed_head (head v') = fixed_head (head v)" and "store_inv v'"
  shows "rsteps v [] v'"
  using assms by (simp add: sim_def)

text \<open>The items that the operations log.\<close>

lemma rstep_alloc:
  assumes dq: "dequeue (free_obj_queue s) = Inr (i, fq')"
    and off: "e_offset e = obj_id_to_offset (head s) i"
    and st: "e_status e \<in> {NORMAL, COPYING}"
    and desc: "desc_chain (e # chain_of k (obj_lmt s))"
    and s': "obj_lmt s' = AList.update k (e' # chain_of k (obj_lmt s)) (obj_lmt s)" "img e' = img e"
      "free_obj_queue s' = fq'" "trim_obj_queue s' = trim_obj_queue s"
      "fixed_head (head s') = fixed_head (head s)" "store_inv s'"
  shows "rstep s (ALLOCATE_OBJ k e (q_head fq')) s'"
  unfolding rstep_def
proof (intro allI impI)
  fix r
  assume "sim s r"
  from redo_allocation_sim [OF this assms]
  show "\<exists>r'. redo_one (Some (ALLOCATE_OBJ k e (q_head fq'))) r = Inr (0, r') \<and> sim s' r'"
    by (auto simp: redo_one_def split: sum.splits)
qed

lemma rstep_trim:
  assumes c: "lmt_find k s = Some c" and e: "e \<in> set c"
    and enq: "enqueue (trim_obj_queue s) (offset_to_obj_id (head s) (e_offset e)) = (rc, tq')"
    and s': "obj_lmt s' = (let c' = filter (\<lambda>x. e_addr x \<noteq> e_addr e) c in
        if c' = [] then AList.delete k (obj_lmt s) else AList.update k c' (obj_lmt s))"
      "free_obj_queue s' = free_obj_queue s" "trim_obj_queue s' = tq'"
      "fixed_head (head s') = fixed_head (head s)" "store_inv s'"
  shows "rstep s (TRIM_OBJ k e (q_tail tq')) s'"
  unfolding rstep_def
proof (intro allI impI)
  fix r
  assume "sim s r"
  from redo_trim_sim [OF this assms]
  show "\<exists>r'. redo_one (Some (TRIM_OBJ k e (q_tail tq'))) r = Inr (0, r') \<and> sim s' r'"
    by (auto simp: redo_one_def split: sum.splits)
qed

lemma rstep_free:
  assumes dq: "dequeue (trim_obj_queue s) = Inr (i, tq')"
    and enq: "enqueue (free_obj_queue s) i = (rc, fq')"
    and s': "obj_lmt s' = obj_lmt s" "free_obj_queue s' = fq'" "trim_obj_queue s' = tq'"
      "fixed_head (head s') = fixed_head (head s)" "store_inv s'"
  shows "rstep s (FREE_OBJ i (q_head tq') (q_tail fq')) s'"
  unfolding rstep_def
proof (intro allI impI)
  fix r
  assume "sim s r"
  from redo_free_sim [OF this assms]
  show "\<exists>r'. redo_one (Some (FREE_OBJ i (q_head tq') (q_tail fq'))) r = Inr (0, r') \<and> sim s' r'"
    by (auto simp: redo_one_def split: sum.splits)
qed

lemma rstep_seq:
  assumes c: "lmt_find k s = Some (pre @ t # post)"
    and desc: "desc_chain (pre @ t\<lparr>e_snap_seq := n\<rparr> # post)" and st: "e_status t \<in> {NORMAL, COPYING}"
    and s': "img_lmt (obj_lmt s') = AList.update k (map img (pre @ t\<lparr>e_snap_seq := n\<rparr> # post)) (img_lmt (obj_lmt s))"
      "free_obj_queue s' = free_obj_queue s" "trim_obj_queue s' = trim_obj_queue s"
      "fixed_head (head s') = fixed_head (head s)" "store_inv s'"
  shows "rstep s (SNAP_SEQ_CHANGE k (t\<lparr>e_snap_seq := n\<rparr>) (e_snap_seq t)) s'"
proof -
  let ?g = "\<lambda>h. if e_snap_seq h = e_snap_seq t then h\<lparr>e_snap_seq := n\<rparr> else h"
  have "sim s' (change_entry k (e_offset t) ?g r)" if "sim s r" for r
    by (rule redo_change_sim [OF that c _ _ _ desc _ s']) (use st in \<open>auto simp: img_def\<close>)
  then show ?thesis by (simp add: rstep_def redo_one_def redo_snap_seq_change_def cong: if_cong)
qed

lemma rstep_status:
  assumes c: "lmt_find k s = Some (pre @ t # post)"
    and desc: "desc_chain (pre @ t\<lparr>e_status := x\<rparr> # post)" and st: "x \<in> {NORMAL, COPYING}"
    and s': "img_lmt (obj_lmt s') = AList.update k (map img (pre @ t\<lparr>e_status := x\<rparr> # post)) (img_lmt (obj_lmt s))"
      "free_obj_queue s' = free_obj_queue s" "trim_obj_queue s' = trim_obj_queue s"
      "fixed_head (head s') = fixed_head (head s)" "store_inv s'"
  shows "rstep s (STATUS_CHANGE k (t\<lparr>e_status := x\<rparr>) (e_status t)) s'"
proof -
  let ?g = "\<lambda>h. if e_status h = e_status t then h\<lparr>e_status := x\<rparr> else h"
  have "sim s' (change_entry k (e_offset t) ?g r)" if "sim s r" for r
    by (rule redo_change_sim [OF that c _ _ _ desc _ s']) (use st in \<open>auto simp: img_def\<close>)
  then show ?thesis by (simp add: rstep_def redo_one_def redo_state_change_def cong: if_cong)
qed

section \<open>The log on the disk\<close>

text \<open>
  The two zones of the log lie next to each other. A page is named by its number from
  the start of the first zone; each zone has 65536 pages.
\<close>

definition log_addr :: "nat \<Rightarrow> u64" where
  "log_addr i = OFFSET_REDO_LOG_FIRST + of_nat (4096 * i)"

abbreviation zone_pages :: nat where "zone_pages \<equiv> 65536"

definition lpage :: "device \<Rightarrow> nat \<Rightarrow> log_page" where
  "lpage d i = d_log d (log_addr i)"

lemma unat_log_addr: "i < 2 ^ 40 \<Longrightarrow> unat (log_addr i) = 6 * 2 ^ 30 + 4096 * i"
  unfolding log_addr_def by (subst unat_offset) (simp_all add: OFFSET_REDO_LOG_FIRST_def)

lemma log_addr_inj:
  assumes "i < 2 ^ 40" and "j < 2 ^ 40"
  shows "log_addr i = log_addr j \<longleftrightarrow> i = j"
proof
  assume "log_addr i = log_addr j"
  then have "unat (log_addr i) = unat (log_addr j)" by simp
  then show "i = j" unfolding unat_log_addr [OF assms(1)] unat_log_addr [OF assms(2)] by simp
qed simp

lemma log_addr_next: "log_addr i + LBA_LENGTH = log_addr (Suc i)"
  by (simp add: log_addr_def algebra_simps)

text \<open>The first page of the zone that the head page calls current, and of the other one.\<close>

definition cur_page :: "HeadPage \<Rightarrow> nat" where
  "cur_page h = (if current_redolog h = FIRST_REDOLOG_ZONE then 0 else zone_pages)"

definition opp_page :: "HeadPage \<Rightarrow> nat" where
  "opp_page h = (if current_redolog h = FIRST_REDOLOG_ZONE then zone_pages else 0)"

lemma redolog_positions:
  assumes "std_head h"
  shows "redolog_position h CURRENT = log_addr (cur_page h)" "redolog_position h OPPOSITE = log_addr (opp_page h)"
  using assms
  by (simp_all add: std_head_def redolog_position_def get_meta_position_def log_addr_def cur_page_def opp_page_def
      OFFSET_REDO_LOG_FIRST_def OFFSET_REDO_LOG_SECOND_def REDO_LOG_SIZE_def)

lemma page_bounds: "cur_page h \<le> zone_pages" "opp_page h \<le> zone_pages" "cur_page h + opp_page h = zone_pages"
  by (simp_all add: cur_page_def opp_page_def)

text \<open>A zone holds the items \<open>its\<close> of phase \<open>p\<close>, and then pages of phases below \<open>q\<close>.\<close>

definition zone_holds :: "device \<Rightarrow> nat \<Rightarrow> int \<Rightarrow> redo_item list \<Rightarrow> int \<Rightarrow> bool" where
  "zone_holds d b p its q \<longleftrightarrow>
     length its \<le> zone_pages \<and>
     (\<forall>i < length its. lpage d (b + i) = \<lparr>lp_phase = p, lp_item = Some (its ! i)\<rparr>) \<and>
     (\<forall>i. length its \<le> i \<and> i < zone_pages \<longrightarrow> lp_phase (lpage d (b + i)) < q)"

definition zones_ok :: "flash_store \<Rightarrow> redo_item list \<Rightarrow> redo_item list \<Rightarrow> bool" where
  "zones_ok s its1 its2 \<longleftrightarrow>
     (let d = dev s; h = head s; p = redolog_phase h
      in 0 < p \<and> log_size s = REDO_LOG_SIZE \<and>
         zone_holds d (cur_page h) p its1 p \<and> zone_holds d (opp_page h) (p + 1) its2 p \<and>
         lp_phase (lpage d (2 * zone_pages)) < p)"

definition log_ok :: "flash_store \<Rightarrow> redo_item list \<Rightarrow> redo_item list \<Rightarrow> bool" where
  "log_ok s its1 its2 \<longleftrightarrow>
     zones_ok s its1 its2 \<and>
     (let h = head s; p = redolog_phase h
      in if to_run_compact s = COMPACT_TODO
         then log_phase s = p + 1 \<and> log_start s = log_addr (opp_page h) \<and>
           log_current s = log_addr (opp_page h + length its2) \<and> length its2 < zone_pages
         else to_run_compact s = COMPACT_IDLE \<and> its2 = [] \<and> log_phase s = p \<and>
           log_start s = log_addr (cur_page h) \<and> log_current s = log_addr (cur_page h + length its1) \<and>
           length its1 < zone_pages)"

lemma zone_holds_snoc:
  assumes "zone_holds d b p its q" and "length its < zone_pages" and "b \<le> zone_pages"
  shows "zone_holds (d\<lparr>d_log := (d_log d)(log_addr (b + length its) := \<lparr>lp_phase = p, lp_item = Some it\<rparr>)\<rparr>) b p (its @ [it]) q"
proof -
  have n: "log_addr (b + i) = log_addr (b + length its) \<longleftrightarrow> i = length its" if "i < zone_pages" for i
    using log_addr_inj [of "b + i" "b + length its"] assms(2,3) that by auto
  show ?thesis using assms unfolding zone_holds_def lpage_def
    by (auto simp: n nth_append less_Suc_eq)
qed

lemma zone_holds_other:
  assumes "zone_holds d b p its q" and "b \<le> zone_pages" and "a < 2 ^ 40" and "\<And>i. i < zone_pages \<Longrightarrow> b + i \<noteq> a"
  shows "zone_holds (d\<lparr>d_log := (d_log d)(log_addr a := pg)\<rparr>) b p its q"
proof -
  have n: "log_addr (b + i) \<noteq> log_addr a" if "i < zone_pages" for i
    using log_addr_inj [of "b + i" a] assms(2,3) assms(4) [OF that] that by auto
  show ?thesis using assms(1) n unfolding zone_holds_def lpage_def by auto
qed

lemma zone_full: "log_addr b + REDO_LOG_SIZE \<le> log_addr (b + n) \<longleftrightarrow> zone_pages \<le> n"
  if "b \<le> zone_pages" "n \<le> zone_pages"
proof -
  have "unat (REDO_LOG_SIZE) = 2 ^ 28" by (simp add: REDO_LOG_SIZE_def)
  then have "unat (log_addr b + REDO_LOG_SIZE) = unat (log_addr b) + 2 ^ 28"
    using unat_log_addr [of b] that(1) unat_add_lem [of "log_addr b" REDO_LOG_SIZE] by simp
  then show ?thesis using unat_log_addr [of b] unat_log_addr [of "b + n"] that
    by (simp add: word_le_nat_alt)
qed

section \<open>Durable stores\<close>

definition sound :: "flash_store \<Rightarrow> bool" where
  "sound s \<longleftrightarrow> no_err s \<and> std_head (head s) \<and> magic (head s) = 0x3553424e \<and> version (head s) = 0x00030000 \<and>
     obj_count (head s) \<le> 2 ^ 24 \<and> d_head (dev s) = Some (head s) \<and> current_metadata (head s) \<in> {0, 1}"

text \<open>The compaction tool holds the tables of the metadata zone, or is ready to load them.\<close>

definition tool_ok :: "flash_store \<Rightarrow> flash_store \<Rightarrow> flash_store option \<Rightarrow> bool" where
  "tool_ok base s t \<longleftrightarrow>
     (case t of None \<Rightarrow> True
      | Some u \<Rightarrow> if compact_lmt_exist s then sim base u
                  else obj_lmt u = [] \<and> pool_fresh (lmt_entry_pool u) \<and>
                    nat (obj_count (head s)) < p_slots (lmt_entry_pool u))"

text \<open>
  Loading the metadata and redoing the log gives the tables of \<open>v\<close>. The zone holds the
  tables of \<open>base\<close>, the current zone of the log leads from them to \<open>mid\<close>, the other
  zone from there to \<open>v\<close>.
\<close>

definition durable_at :: "flash_store \<Rightarrow> flash_store \<Rightarrow> flash_store option \<Rightarrow> bool" where
  "durable_at v s t \<longleftrightarrow>
     sound s \<and>
     (\<exists>base mid its1 its2.
        md_saved (d_meta (dev s)) (current_metadata (head s)) base \<and> store_inv base \<and>
        fixed_head (head base) = fixed_head (head s) \<and>
        rsteps base its1 mid \<and> rsteps mid its2 v \<and> log_ok s its1 its2 \<and> tool_ok base s t)"

abbreviation durable :: "flash_store \<Rightarrow> flash_store option \<Rightarrow> bool" where
  "durable s t \<equiv> durable_at s s t"

definition logpart :: "flash_store \<Rightarrow> HeadPage \<times> HeadPage option \<times> (u64 \<Rightarrow> log_page) \<times> (u64 \<Rightarrow> meta_block) \<times>
    (nat \<Rightarrow> int) \<times> int \<times> u64 \<times> u64 \<times> u64 \<times> compact_state \<times> bool" where
  "logpart s = (head s, d_head (dev s), d_log (dev s), d_meta (dev s), d_err (dev s), log_phase s, log_size s,
     log_start s, log_current s, to_run_compact s, compact_lmt_exist s)"

lemma zone_holds_cong: "d_log d' = d_log d \<Longrightarrow> zone_holds d' b p its q = zone_holds d b p its q"
  by (simp add: zone_holds_def lpage_def)

lemma durable_cong:
  assumes "logpart s' = logpart s"
  shows "durable_at v s' t = durable_at v s t"
proof -
  have "sound s' = sound s" "log_ok s' = log_ok s"
    using assms zone_holds_cong [of "dev s'" "dev s"]
    by (simp_all add: logpart_def sound_def no_err_def log_ok_def zones_ok_def Let_def lpage_def fun_eq_iff)
  moreover have "tool_ok base s' = tool_ok base s" for base
    using assms by (auto simp: logpart_def tool_ok_def fun_eq_iff split: option.split)
  ultimately show ?thesis using assms by (simp add: durable_at_def logpart_def)
qed

lemma durable_post: "durable_at v s t \<Longrightarrow> rsteps v [] v' \<Longrightarrow> durable_at v' s t"
  unfolding durable_at_def using rsteps_post by blast

text \<open>A step is calm if it does not ask for a compaction while another one is pending.\<close>

definition signals :: "flash_store \<Rightarrow> nat" where
  "signals s = length (filter (\<lambda>a. a = Signal_compaction) (acts s))"

definition pending :: "flash_store \<Rightarrow> nat" where
  "pending s = (if to_run_compact s = COMPACT_TODO then 1 else 0)"

definition calm :: "flash_store \<Rightarrow> flash_store \<Rightarrow> bool" where
  "calm s s' \<longleftrightarrow> signals s' + pending s \<le> signals s + pending s'"

lemma log_okE:
  assumes "log_ok s its1 its2"
  obtains (idle) "to_run_compact s = COMPACT_IDLE" "its2 = []" "log_phase s = redolog_phase (head s)"
      "log_start s = log_addr (cur_page (head s))" "log_current s = log_addr (cur_page (head s) + length its1)"
      "length its1 < zone_pages"
  | (todo) "to_run_compact s = COMPACT_TODO" "log_phase s = redolog_phase (head s) + 1"
      "log_start s = log_addr (opp_page (head s))" "log_current s = log_addr (opp_page (head s) + length its2)"
      "length its2 < zone_pages"
  using assms by (auto simp: log_ok_def Let_def split: if_splits)

lemma zones_okD:
  assumes "zones_ok s its1 its2"
  shows "0 < redolog_phase (head s)" "log_size s = REDO_LOG_SIZE"
    "zone_holds (dev s) (cur_page (head s)) (redolog_phase (head s)) its1 (redolog_phase (head s))"
    "zone_holds (dev s) (opp_page (head s)) (redolog_phase (head s) + 1) its2 (redolog_phase (head s))"
    "lp_phase (lpage (dev s) (2 * zone_pages)) < redolog_phase (head s)"
  using assms by (simp_all add: zones_ok_def Let_def)

text \<open>The page that a log record is written to, before the test whether the zone is full.\<close>

definition logged :: "redo_item \<Rightarrow> flash_store \<Rightarrow> flash_store" where
  "logged it s = (put_log_page it (snd (ext_call s)))\<lparr>log_current := log_current s + LBA_LENGTH\<rparr>"

lemma logged_fields [simp]:
  "head (logged it s) = head s" "log_size (logged it s) = log_size s" "log_phase (logged it s) = log_phase s"
  "log_start (logged it s) = log_start s" "log_current (logged it s) = log_current s + LBA_LENGTH"
  "to_run_compact (logged it s) = to_run_compact s" "acts (logged it s) = acts s"
  "compact_lmt_exist (logged it s) = compact_lmt_exist s" "d_meta (dev (logged it s)) = d_meta (dev s)"
  "d_head (dev (logged it s)) = d_head (dev s)" "d_err (dev (logged it s)) = d_err (dev s)"
  "d_log (dev (logged it s)) = (d_log (dev s))(log_current s := \<lparr>lp_phase = log_phase s, lp_item = Some it\<rparr>)"
  by (simp_all add: logged_def put_log_page_def ext_call_def)

lemma write_entry_logged:
  assumes "no_err s"
  shows "write_entry it s =
    (if log_start s + log_size s \<le> log_current s + LBA_LENGTH
     then meta_data_compaction_trigger COMPACT_TODO True (logged it s) else Inr (0, logged it s))"
  using assms by (simp add: write_entry_def ext_call_def no_err_def logged_def put_log_page_def Let_def)

lemma dev_log_upd: "d_log d' = (d_log d)(a := pg) \<Longrightarrow>
    zone_holds d' b p its q = zone_holds (d\<lparr>d_log := (d_log d)(a := pg)\<rparr>) b p its q"
  by (rule zone_holds_cong) simp

lemma zones_ok_cur:
  assumes z: "zones_ok s its1 its2" and n: "length its1 < zone_pages"
    and w: "log_current s = log_addr (cur_page (head s) + length its1)" "log_phase s = redolog_phase (head s)"
  shows "zones_ok (logged it s) (its1 @ [it]) its2"
proof -
  let ?c = "cur_page (head s)" and ?o = "opp_page (head s)"
  note Z = zones_okD [OF z] and B = page_bounds [of "head s"]
  have far: "?o + i \<noteq> ?c + length its1" if "i < zone_pages" for i
    using that n by (auto simp: cur_page_def opp_page_def split: if_splits)
  have big: "?c + length its1 < 2 ^ 40" "?c + length its1 \<noteq> 2 * zone_pages" using B n by auto
  have L: "d_log (dev (logged it s)) = (d_log (dev s))(log_addr (?c + length its1) := \<lparr>lp_phase = redolog_phase (head s), lp_item = Some it\<rparr>)"
    using w by simp
  have "zone_holds (dev (logged it s)) ?c (redolog_phase (head s)) (its1 @ [it]) (redolog_phase (head s))"
    unfolding dev_log_upd [OF L] by (rule zone_holds_snoc [OF Z(3) n B(1)])
  moreover have "zone_holds (dev (logged it s)) ?o (redolog_phase (head s) + 1) its2 (redolog_phase (head s))"
    unfolding dev_log_upd [OF L] by (rule zone_holds_other [OF Z(4) B(2) big(1) far])
  moreover have "lpage (dev (logged it s)) (2 * zone_pages) = lpage (dev s) (2 * zone_pages)"
    using log_addr_inj [of "2 * zone_pages" "?c + length its1"] big unfolding lpage_def L by simp
  ultimately show ?thesis using Z(1,2,5) by (simp add: zones_ok_def Let_def)
qed

lemma zones_ok_opp:
  assumes z: "zones_ok s its1 its2" and n: "length its2 < zone_pages"
    and w: "log_current s = log_addr (opp_page (head s) + length its2)" "log_phase s = redolog_phase (head s) + 1"
  shows "zones_ok (logged it s) its1 (its2 @ [it])"
proof -
  let ?c = "cur_page (head s)" and ?o = "opp_page (head s)"
  note Z = zones_okD [OF z] and B = page_bounds [of "head s"]
  have far: "?c + i \<noteq> ?o + length its2" if "i < zone_pages" for i
    using that n by (auto simp: cur_page_def opp_page_def split: if_splits)
  have big: "?o + length its2 < 2 ^ 40" "?o + length its2 \<noteq> 2 * zone_pages" using B n by auto
  have L: "d_log (dev (logged it s)) = (d_log (dev s))(log_addr (?o + length its2) := \<lparr>lp_phase = redolog_phase (head s) + 1, lp_item = Some it\<rparr>)"
    using w by simp
  have "zone_holds (dev (logged it s)) ?o (redolog_phase (head s) + 1) (its2 @ [it]) (redolog_phase (head s))"
    unfolding dev_log_upd [OF L] by (rule zone_holds_snoc [OF Z(4) n B(2)])
  moreover have "zone_holds (dev (logged it s)) ?c (redolog_phase (head s)) its1 (redolog_phase (head s))"
    unfolding dev_log_upd [OF L] by (rule zone_holds_other [OF Z(3) B(1) big(1) far])
  moreover have "lpage (dev (logged it s)) (2 * zone_pages) = lpage (dev s) (2 * zone_pages)"
    using log_addr_inj [of "2 * zone_pages" "?o + length its2"] big unfolding lpage_def L by simp
  ultimately show ?thesis using Z(1,2,5) by (simp add: zones_ok_def Let_def)
qed

definition triggered :: "flash_store \<Rightarrow> flash_store" where
  "triggered s = act Signal_compaction (set_log_phase (redolog_phase (head s) + 1) (redolog_position (head s) OPPOSITE)
     (s\<lparr>to_run_compact := COMPACT_TODO\<rparr>))"

lemma trigger_eq:
  assumes "to_run_compact s \<in> {COMPACT_IDLE, COMPACT_TODO}"
  shows "meta_data_compaction_trigger COMPACT_TODO f s = Inr (0, triggered s)"
  using assms by (auto simp: meta_data_compaction_trigger_def Let_def triggered_def)

lemma triggered_fields [simp]:
  "head (triggered s) = head s" "dev (triggered s) = dev s" "log_size (triggered s) = log_size s"
  "to_run_compact (triggered s) = COMPACT_TODO" "compact_lmt_exist (triggered s) = compact_lmt_exist s"
  "signals (triggered s) = signals s + 1" "pending (triggered s) = 1"
  by (simp_all add: triggered_def set_log_phase_def signals_def pending_def)

lemma triggered_log_ok:
  assumes "zones_ok s its1 []" and "std_head (head s)"
  shows "log_ok (triggered s) its1 []"
proof -
  have "zones_ok (triggered s) its1 []" using assms(1) by (simp add: zones_ok_def)
  then show ?thesis using redolog_positions(2) [OF assms(2)]
    by (simp add: log_ok_def Let_def) (simp add: triggered_def set_log_phase_def)
qed

lemma write_entry_durable:
  assumes d: "durable_at v s t" and w: "write_entry it s = Inr (rc, s')" and c: "calm s s'" and st: "rstep v it v'"
  shows "durable_at v' s' t"
proof -
  have so: "sound s" using d by (simp add: durable_at_def)
  then have ok: "no_err s" and std: "std_head (head s)" by (simp_all add: sound_def)
  obtain base mid its1 its2 where
    D: "md_saved (d_meta (dev s)) (current_metadata (head s)) base" "store_inv base"
      "fixed_head (head base) = fixed_head (head s)" "rsteps base its1 mid" "rsteps mid its2 v"
    and lo: "log_ok s its1 its2" and tl: "tool_ok base s t"
    using d by (auto simp: durable_at_def)
  have z: "zones_ok s its1 its2" using lo by (simp add: log_ok_def)
  note B = page_bounds [of "head s"]
  let ?full = "log_start s + log_size s \<le> log_current s + LBA_LENGTH"
  have w': "(if ?full then meta_data_compaction_trigger COMPACT_TODO True (logged it s) else Inr (0, logged it s)) = Inr (rc, s')"
    using w write_entry_logged [OF ok] by simp
  have build: "durable_at v' s' t"
    if "rsteps base i1 m" "rsteps m i2 v'" "log_ok s' i1 i2" "head s' = head s" "d_meta (dev s') = d_meta (dev s)"
      "d_head (dev s') = d_head (dev s)" "d_err (dev s') = d_err (dev s)" "compact_lmt_exist s' = compact_lmt_exist s"
    for i1 i2 m
  proof -
    have "sound s'" using so that(4,6,7) by (simp add: sound_def no_err_def)
    moreover have "tool_ok base s' t" using tl that(4,8) by (cases t) (simp_all add: tool_ok_def)
    ultimately show ?thesis unfolding durable_at_def using D(1-3) that(1-5) by metis
  qed
  from lo show ?thesis
  proof (cases rule: log_okE)
    case idle
    have zl: "zones_ok (logged it s) (its1 @ [it]) []"
      using zones_ok_cur [OF z idle(6,5,3)] idle(2) by simp
    have rs: "rsteps base (its1 @ [it]) v'"
      using rsteps_snoc [OF rsteps_post [OF D(4)] st] D(5) idle(2) by simp
    have f: "?full \<longleftrightarrow> zone_pages \<le> length its1 + 1"
      using zone_full [OF B(1), of "length its1 + 1"] idle(4,5,6) zones_okD(2) [OF z] log_addr_next by simp
    show ?thesis
    proof (cases ?full)
      case True
      then have s': "s' = triggered (logged it s)" using w' trigger_eq [of "logged it s"] idle(1) by simp
      have "log_ok s' (its1 @ [it]) []" using triggered_log_ok [OF zl] std s' by simp
      then show ?thesis using build [OF rs, of "[]"] s' by simp
    next
      case False
      then have s': "s' = logged it s" using w' by simp
      have "log_ok s' (its1 @ [it]) []"
        using zl idle False f log_addr_next unfolding s' by (simp add: log_ok_def Let_def)
      then show ?thesis using build [OF rs, of "[]"] s' by simp
    qed
  next
    case todo
    have zl: "zones_ok (logged it s) its1 (its2 @ [it])" by (rule zones_ok_opp [OF z todo(5,4,2)])
    have rs: "rsteps mid (its2 @ [it]) v'" by (rule rsteps_snoc [OF D(5) st])
    have f: "?full \<longleftrightarrow> zone_pages \<le> length its2 + 1"
      using zone_full [OF B(2), of "length its2 + 1"] todo(3,4,5) zones_okD(2) [OF z] log_addr_next by simp
    show ?thesis
    proof (cases ?full)
      case True
      then have "s' = triggered (logged it s)" using w' trigger_eq [of "logged it s"] todo(1) by simp
      then show ?thesis using c todo(1) by (simp add: calm_def) (simp add: signals_def pending_def)
    next
      case False
      then have s': "s' = logged it s" using w' by simp
      have "log_ok s' its1 (its2 @ [it])"
        using zl todo False f log_addr_next unfolding s' by (simp add: log_ok_def Let_def)
      then show ?thesis using build [OF D(4) rs] s' by simp
    qed
  qed
qed

section \<open>Sequences of log records\<close>

definition logs :: "flash_store \<Rightarrow> flash_store \<Rightarrow> flash_store \<Rightarrow> flash_store \<Rightarrow> bool" where
  "logs v s v' s' \<longleftrightarrow> calm s' s \<and> (\<forall>t. durable_at v s t \<longrightarrow> calm s s' \<longrightarrow> durable_at v' s' t)"

lemma logs_trans: "logs v s u s1 \<Longrightarrow> logs u s1 v' s' \<Longrightarrow> logs v s v' s'"
  by (auto simp: logs_def calm_def)

lemma pending_logpart: "logpart s' = logpart s \<Longrightarrow> pending s' = pending s"
  by (simp add: logpart_def pending_def)

lemma logs_silent:
  assumes "logpart s' = logpart s" and "signals s' = signals s" and "rsteps v [] v'"
  shows "logs v s v' s'"
  using durable_cong [OF assms(1)] durable_post [OF _ assms(3)] pending_logpart [OF assms(1)] assms(2)
  by (simp add: logs_def calm_def)

lemma trigger_signals:
  "meta_data_compaction_trigger st f s = Inr (rc, s') \<Longrightarrow> st = COMPACT_TODO \<Longrightarrow> calm s' s"
  by (auto simp: meta_data_compaction_trigger_def Let_def case_prod_beta calm_def signals_def pending_def
      set_log_phase_def split: if_splits)

lemma write_entry_signals:
  assumes "write_entry it s = Inr (rc, s')"
  shows "calm s' s"
proof -
  let ?s = "(put_log_page it (snd (ext_call s)))\<lparr>log_current := log_current (snd (ext_call s)) + LBA_LENGTH\<rparr>"
  have eq: "signals ?s = signals s" "pending ?s = pending s"
    by (simp_all add: signals_def pending_def put_log_page_def ext_call_def)
  have eq0: "signals (snd (ext_call s)) = signals s" "pending (snd (ext_call s)) = pending s"
    by (simp_all add: signals_def pending_def ext_call_def)
  have "s' = snd (ext_call s) \<or> s' = ?s \<or> meta_data_compaction_trigger COMPACT_TODO True ?s = Inr (rc, s')"
    using assms by (auto simp: write_entry_def Let_def case_prod_beta split: if_splits)
  then show ?thesis using eq eq0 trigger_signals [of COMPACT_TODO True ?s rc s'] by (auto simp: calm_def)
qed

lemma logs_write: "write_entry it s = Inr (rc, s') \<Longrightarrow> rstep v it v' \<Longrightarrow> logs v s v' s'"
  unfolding logs_def using write_entry_durable write_entry_signals by blast

lemma logs_quiet:
  assumes "logpart s' = logpart s" and "signals s' = signals s" and "pview s' = pview s" and "store_inv s'"
  shows "logs s s s' s'"
  using assms by (intro logs_silent rsteps_silent) (simp_all add: logpart_def)

lemma logs_refl: "logs v s v s"
  by (rule logs_silent) simp_all

lemma pview_tbl: "tbl s' = tbl s \<Longrightarrow> pview s' = pview s"
  by (simp add: tbl_def pview_def)

lemma logs_act: "store_inv s \<Longrightarrow> a \<noteq> Signal_compaction \<Longrightarrow> logs s s (act a s) (act a s)"
  by (rule logs_quiet) (simp_all add: logpart_def signals_def pview_def)

section \<open>Writes\<close>

lemma new_entry_cases:
  assumes "new_entry seq stat s = Inr (e, s1)"
  obtains i fq' a p' where "dequeue (free_obj_queue s) = Inr (i, fq')" and "pool_alloc (lmt_entry_pool s) = (Some a, p')"
    and "s1 = s\<lparr>free_obj_queue := fq', lmt_entry_pool := p'\<rparr>" and "e_offset e = obj_id_to_offset (head s) i"
    and "e_addr e = a" and "e_status e = stat" and "e_snap_seq e = seq"
  using assms by (auto simp: new_entry_def split: prod.splits option.splits)

lemma logs_alloc:
  assumes inv: "store_inv s" and n: "new_entry seq stat s = Inr (e, s1)" and st: "stat \<in> {NORMAL, COPYING}"
    and desc: "desc_chain (e # chain_of k (obj_lmt s))"
    and w: "write_entry (ALLOCATE_OBJ k e (q_head (free_obj_queue s1))) (set_chain k (e # chain_of k (obj_lmt s)) s1) = Inr (rc, s3)"
  shows "logs s s s3 s3 \<and> store_inv s3 \<and> obj_lmt s3 = AList.update k (e # chain_of k (obj_lmt s)) (obj_lmt s)"
proof -
  obtain i fq' a p' where d: "dequeue (free_obj_queue s) = Inr (i, fq')" "pool_alloc (lmt_entry_pool s) = (Some a, p')"
    "s1 = s\<lparr>free_obj_queue := fq', lmt_entry_pool := p'\<rparr>" "e_offset e = obj_id_to_offset (head s) i"
    "e_addr e = a" "e_status e = stat"
    by (rule new_entry_cases [OF n])
  let ?s2 = "set_chain k (e # chain_of k (obj_lmt s)) s1"
  have t: "tables_inv0 (head s) (obj_lmt s) (free_obj_queue s) (trim_obj_queue s) (lmt_entry_pool s)"
    "statuses_ok (obj_lmt s)" "no_empty_chain (obj_lmt s)"
    using inv by (simp_all add: store_inv_def store_inv0_def)
  have i2: "store_inv ?s2"
    using tables_alloc [OF t(1) d(1,2,5,4) desc] t(2,3) st d(3,6)
    by (simp add: store_inv_def store_inv0_def statuses_ok_push no_empty_update)
  note T = write_entry_tbl [OF w]
  have i3: "store_inv s3" using store_inv_tbl [OF T] i2 by simp
  have "rstep s (ALLOCATE_OBJ k e (q_head fq')) s3"
    using tblD [OF T] d i3 st by (intro rstep_alloc [OF d(1,4) _ desc, where e' = e]) simp_all
  then have "logs s ?s2 s3 s3" using logs_write [OF w] d(3) by simp
  moreover have "logs s s s ?s2" by (rule logs_silent) (simp_all add: d(3) logpart_def signals_def)
  ultimately show ?thesis using logs_trans i3 tblD(1) [OF T] d(3) by auto
qed

lemma write_new_logs:
  assumes inv: "store_inv s" and absent: "lmt_find k s = None" and r: "write_new io k s = Inr (rc, s')"
  shows "logs s s s' s'"
proof (cases "q_is_empty (free_obj_queue s)")
  case True
  then have "s' = act (Submit_error io MSG_STATUS_NOSPACE) s" using r by (simp add: write_new_def)
  then show ?thesis using logs_act [OF inv] by simp
next
  case False
  have c: "chain_of k (obj_lmt s) = []" using absent by (simp add: chain_of_def)
  obtain e s1 rc3 s3 a where n: "new_entry (m_snap_seq (io_cmd io)) NORMAL s = Inr (e, s1)"
      and w: "write_entry (ALLOCATE_OBJ k e (q_head (free_obj_queue s1))) (set_chain k [e] s1) = Inr (rc3, s3)"
      and s': "s' = act a s3" "a \<noteq> Signal_compaction"
    using r False by (auto simp: write_new_def log_defs Let_def split: if_splits)
  have o: "obj_lmt s1 = obj_lmt s" using n by (auto elim!: new_entry_cases)
  have "logs s s s3 s3 \<and> store_inv s3"
    using logs_alloc [OF inv n, of k rc3 s3] w c by simp
  then show ?thesis using logs_trans logs_act [of s3 a] s' by blast
qed

lemma write_cow_logs:
  assumes inv: "store_inv s" and c: "lmt_find k s = Some (entry # c)"
    and newer: "e_snap_seq entry < m_snap_seq (io_cmd io)" and r: "write_cow io k entry c s = Inr (rc, s')"
  shows "logs s s s' s'"
proof (cases "q_is_empty (free_obj_queue s)")
  case True
  then have "s' = act (Submit_error io MSG_STATUS_NOSPACE) s" using r by (simp add: write_cow_def)
  then show ?thesis using logs_act [OF inv] by simp
next
  case False
  have ch: "chain_of k (obj_lmt s) = entry # c" using c by (simp add: chain_of_def)
  obtain e s1 rc3 s3 where n: "new_entry (m_snap_seq (io_cmd io)) COPYING s = Inr (e, s1)"
      and w: "write_entry (ALLOCATE_OBJ k e (q_head (free_obj_queue s1))) (set_chain k (e # entry # c) s1) = Inr (rc3, s3)"
      and s': "s' = act (Submit_error io MSG_STATUS_LOGFAILED) s3 \<or>
        s' = act (if use_scc s3 then Begin_cow_scc k (e_addr entry) (e_addr e) else Begin_cow k (e_addr entry) (e_addr e))
          (set_chain k (e\<lparr>e_waiting_io := [io]\<rparr> # entry # c) s3)"
    using r False by (auto simp: write_cow_def log_defs Let_def split: if_splits)
  note F = store_inv_chain [OF inv c]
  have seq: "e_snap_seq e = m_snap_seq (io_cmd io)" "e_status e = COPYING" using n by (auto elim!: new_entry_cases)
  have d: "desc_chain (e # chain_of k (obj_lmt s))" using F(2) newer seq ch by auto
  have L: "logs s s s3 s3" "store_inv s3" "obj_lmt s3 = AList.update k (e # entry # c) (obj_lmt s)"
    using logs_alloc [OF inv n _ d, of rc3 s3] w ch by simp_all
  let ?s4 = "set_chain k (e\<lparr>e_waiting_io := [io]\<rparr> # entry # c) s3"
  have f: "lmt_find k s3 = Some (e # entry # c)" using L(3) by simp
  have i4: "store_inv ?s4"
    using d ch F(3) seq by (intro store_inv_change [OF L(2) f]) simp_all
  have "img_lmt (obj_lmt ?s4) = img_lmt (obj_lmt s3)"
    unfolding L(3) by (simp add: img_lmt_update AList.update_last img_def)
  then have "logs s3 s3 ?s4 ?s4" using i4 by (intro logs_quiet) (simp_all add: logpart_def signals_def pview_def)
  then have "logs s s ?s4 ?s4" by (rule logs_trans [OF L(1)])
  moreover have "logs ?s4 ?s4 (act (if use_scc s3 then Begin_cow_scc k (e_addr entry) (e_addr e) else Begin_cow k (e_addr entry) (e_addr e)) ?s4)
     (act (if use_scc s3 then Begin_cow_scc k (e_addr entry) (e_addr e) else Begin_cow k (e_addr entry) (e_addr e)) ?s4)"
    by (rule logs_act [OF i4]) simp
  moreover have "logs s3 s3 (act (Submit_error io MSG_STATUS_LOGFAILED) s3) (act (Submit_error io MSG_STATUS_LOGFAILED) s3)"
    by (rule logs_act [OF L(2)]) simp
  ultimately show ?thesis using s' logs_trans L(1) by blast
qed

lemma do_write_logs:
  assumes inv: "store_inv s" and r: "do_write io s = Inr (rc, s')"
  shows "logs s s s' s'"
proof -
  let ?io = "io\<lparr>io_opcode := m_opcode (io_cmd io)\<rparr>"
  let ?k = "io_key s ?io"
  show ?thesis
  proof (cases "lmt_find ?k s")
    case None
    then show ?thesis using write_new_logs [OF inv None, of ?io rc s'] r by (simp add: do_write_def Let_def)
  next
    case (Some ch)
    note facts = store_inv_chain [OF inv Some]
    obtain e c where ch: "ch = e # c" using facts(1) by (cases ch) auto
    have st: "e_status e = NORMAL \<or> e_status e = COPYING" using facts(3) ch by auto
    let ?w = "set_chain ?k (e\<lparr>e_waiting_io := ?io # e_waiting_io e\<rparr> # c) s"
    have iw: "store_inv ?w"
      using facts ch by (intro store_inv_change [OF inv Some]) simp_all
    have "img_lmt (AList.update ?k (e # c) (obj_lmt s)) = img_lmt (obj_lmt ?w)"
      by (simp add: img_lmt_update img_def)
    then have "img_lmt (obj_lmt ?w) = img_lmt (obj_lmt s)" using update_same [OF Some] ch by simp
    then have lw: "logs s s ?w ?w"
      using iw by (intro logs_quiet) (simp_all add: logpart_def signals_def pview_def)
    consider (act) a where "s' = act a s" "a \<noteq> Signal_compaction" | (wait) "s' = ?w"
      | (cow) "write_cow ?io ?k e c s = Inr (rc, s')" "e_snap_seq e < m_snap_seq (io_cmd io)"
      using r Some ch st by (auto simp: do_write_def Let_def split: if_splits)
    then show ?thesis
    proof cases
      case act
      then show ?thesis using logs_act [OF inv] by simp
    next
      case wait
      then show ?thesis using lw by simp
    next
      case cow
      then show ?thesis using write_cow_logs [OF inv, of ?k e c ?io rc s'] Some ch by simp
    qed
  qed
qed

section \<open>Deletion and trimming\<close>

text \<open>
  While the entries of a chain are trimmed, the chain may become empty before it is
  taken out of the table; redoing the log takes it out at once.
\<close>

definition norm :: "lmt_key \<Rightarrow> flash_store \<Rightarrow> flash_store" where
  "norm k s = (if lmt_find k s = Some [] then s\<lparr>obj_lmt := AList.delete k (obj_lmt s)\<rparr> else s)"

lemma norm_fields [simp]:
  "free_obj_queue (norm k s) = free_obj_queue s" "trim_obj_queue (norm k s) = trim_obj_queue s"
  "lmt_entry_pool (norm k s) = lmt_entry_pool s" "head (norm k s) = head s"
  by (simp_all add: norm_def)

lemma norm_inv:
  assumes "store_inv0 s" and "no_empty_chain (AList.delete k (obj_lmt s))"
  shows "store_inv (norm k s)"
proof (cases "lmt_find k s = Some []")
  case True
  have t: "tables_inv0 (head s) (AList.delete k (obj_lmt s)) (free_obj_queue s) (trim_obj_queue s) (lmt_entry_pool s)"
    using tables_erase_empty [OF _ True] assms(1) by (simp add: store_inv0_def)
  have "table_entries (AList.delete k (obj_lmt s)) = table_entries (obj_lmt s)"
    using entries_delete [of "obj_lmt s" k] assms(1) True
    by (simp add: store_inv0_def tables_inv0_def chains_ok_def chain_of_def)
  then show ?thesis using True t assms by (simp add: norm_def store_inv_def store_inv0_def statuses_ok_def)
next
  case False
  have "no_empty_chain (obj_lmt s)"
    unfolding no_empty_chain_def list_all_iff
  proof (rule ballI)
    fix c
    assume "c \<in> set (map snd (obj_lmt s))"
    then obtain k' where kc: "(k', c) \<in> set (obj_lmt s)" by auto
    have d: "distinct (map fst (obj_lmt s))"
      using assms(1) by (simp add: store_inv0_def tables_inv0_def chains_ok_def)
    show "c \<noteq> []"
    proof (cases "k' = k")
      case True
      then show ?thesis using map_of_is_SomeI [OF d kc] False by auto
    next
      case False
      then have "(k', c) \<in> set (AList.delete k (obj_lmt s))" using kc by (simp add: AList.delete_eq)
      then show ?thesis using assms(2) by (force simp: no_empty_chain_def list_all_iff)
    qed
  qed
  then show ?thesis using False assms(1) by (simp add: norm_def store_inv_def)
qed

lemma trim_entries_logs:
  "store_inv0 s \<Longrightarrow> no_empty_chain (AList.delete k (obj_lmt s)) \<Longrightarrow> lmt_find k s = Some c \<Longrightarrow> set es \<subseteq> set c \<Longrightarrow>
     distinct (map e_addr es) \<Longrightarrow> trim_entries k es s = Inr s' \<Longrightarrow> logs (norm k s) s (norm k s') s'"
proof (induction es arbitrary: s c)
  case Nil
  then show ?case using logs_refl by simp
next
  case (Cons e es)
  let ?c = "filter (\<lambda>x. e_addr x \<noteq> e_addr e) c" and ?id = "offset_to_obj_id (head s) (e_offset e)"
  let ?s2 = "s\<lparr>obj_lmt := AList.update k ?c (obj_lmt s), trim_obj_queue := snd (enqueue (trim_obj_queue s) ?id)\<rparr>"
  let ?it = "TRIM_OBJ k e (q_tail (trim_obj_queue ?s2))"
  have e: "e \<in> set c" using Cons.prems(4) by simp
  have unfold: "trim_entries k (e # es) s = bnd (write_entry ?it ?s2) (\<lambda>(rc, s3).
      bnd (pool_free (lmt_entry_pool s3) (e_addr e)) (\<lambda>p. trim_entries k es (s3\<lparr>lmt_entry_pool := p\<rparr>)))"
    using Cons.prems(3) by (simp add: log_defs Let_def)
  obtain rc s3 p where w: "write_entry ?it ?s2 = Inr (rc, s3)"
    and pf: "pool_free (lmt_entry_pool s3) (e_addr e) = Inr p"
    and rest: "trim_entries k es (s3\<lparr>lmt_entry_pool := p\<rparr>) = Inr s'"
    using Cons.prems(6) unfolding unfold by auto
  let ?s4 = "s3\<lparr>lmt_entry_pool := p\<rparr>"
  note T = write_entry_tbl [OF w]
  have s4: "store_inv0 ?s4" "obj_lmt ?s4 = AList.update k ?c (obj_lmt s)"
    using trim_entries_step [OF Cons.prems(1,3) e refl T] pf by simp_all
  have del: "AList.delete k (obj_lmt ?s4) = AList.delete k (obj_lmt s)" using s4(2) by (simp add: delete_update_same)
  have ne: "no_empty_chain (AList.delete k (obj_lmt ?s4))" using Cons.prems(2) del by simp
  have i4: "store_inv (norm k ?s4)" by (rule norm_inv [OF s4(1) ne])
  have "obj_lmt (norm k ?s4) = (let c' = ?c in if c' = [] then AList.delete k (obj_lmt s) else AList.update k c' (obj_lmt s))"
    using s4(2) by (simp add: norm_def Let_def delete_update_same)
  then have "rstep s ?it (norm k ?s4)"
    using tblD [OF T] i4
    by (intro rstep_trim [OF Cons.prems(3) e, where rc = "fst (enqueue (trim_obj_queue s) ?id)"]) simp_all
  then have l2: "logs s ?s2 (norm k ?s4) s3" by (rule logs_write [OF w])
  have l1: "logs s s s ?s2" by (rule logs_silent) (simp_all add: logpart_def signals_def)
  have l3: "logs (norm k ?s4) s3 (norm k ?s4) ?s4" by (rule logs_silent) (simp_all add: logpart_def signals_def)
  have l4: "logs (norm k ?s4) ?s4 (norm k s') s'"
  proof (rule Cons.IH [OF s4(1) ne _ _ _ rest])
    show "lmt_find k ?s4 = Some ?c" using s4(2) by simp
    show "set es \<subseteq> set ?c" using Cons.prems(4,5) by (intro filter_keep_others) simp_all
  qed (use Cons.prems(5) in simp)
  have "norm k s = s" using Cons.prems(3) e by (auto simp: norm_def)
  then show ?case using logs_trans [OF l1 logs_trans [OF l2 logs_trans [OF l3 l4]]] by simp
qed

lemma delete_where_logs:
  assumes inv: "store_inv s" and r: "delete_where k match s = Inr (rc, s')"
  shows "logs s s s' s'"
proof (cases "lmt_find k s")
  case None
  then show ?thesis using r logs_refl by (simp add: delete_where_def)
next
  case (Some c)
  note F = store_inv_chain [OF inv Some]
  have i0: "store_inv0 s" and ne: "no_empty_chain (obj_lmt s)" using inv by (simp_all add: store_inv_def)
  obtain s1 where t: "trim_entries k (filter match c) s = Inr s1" and s': "s' = norm k s1"
    using r Some by (auto simp: delete_where_def norm_def)
  have "norm k s = s" using F(1) Some by (simp add: norm_def)
  moreover have "logs (norm k s) s (norm k s1) s1"
    using F(4) by (intro trim_entries_logs [OF i0 no_empty_delete [OF ne] Some _ _ t]) (simp_all add: distinct_map_filter)
  moreover have "logs (norm k s1) s1 (norm k s1) (norm k s1)"
    by (rule logs_silent) (simp_all add: norm_def logpart_def signals_def)
  ultimately show ?thesis using s' logs_trans by metis
qed

lemma delete_all_logs: "store_inv s \<Longrightarrow> delete_all k as s = Inr s' \<Longrightarrow> logs s s s' s'"
proof (induction as arbitrary: s)
  case Nil
  then show ?case using logs_refl by simp
next
  case (Cons a as)
  obtain rc s1 where d: "delete_where k (\<lambda>e. e_addr e = a) s = Inr (rc, s1)" and n: "delete_all k as s1 = Inr s'"
    using Cons.prems(2) by (auto simp: delete_obj_def)
  have "store_inv s1" using delete_where_keeps [OF Cons.prems(1), of k "\<lambda>e. e_addr e = a"] d by simp
  then show ?case using logs_trans delete_where_logs [OF Cons.prems(1) d] Cons.IH n by blast
qed

lemma delete_replica_obj_logs:
  assumes "store_inv s" and "delete_replica_obj r off s = Inr s'"
  shows "logs s s s' s'"
  using assms delete_all_logs [OF assms(1)] logs_refl
  by (auto simp: delete_replica_obj_def Let_def split: option.splits list.splits if_splits simp del: delete_all.simps)

lemma delete_replica_objs_logs: "store_inv s \<Longrightarrow> delete_replica_objs r is s = Inr s' \<Longrightarrow> logs s s s' s'"
proof (induction "is" arbitrary: s)
  case Nil
  then show ?case using logs_refl by simp
next
  case (Cons i "is")
  obtain s1 where d: "delete_replica_obj r (push_bit SHARD_SIZE_ORDER (SHARD_INDEX r) + objsize (head s) * of_nat i) s = Inr s1"
    and n: "delete_replica_objs r is s1 = Inr s'"
    using Cons.prems(2) by auto
  have "store_inv s1" using delete_replica_obj_keeps [OF Cons.prems(1)] d by (metis sum.case(2))
  then show ?case using logs_trans delete_replica_obj_logs [OF Cons.prems(1) d] Cons.IH n by blast
qed

lemma delete_replica_logs:
  assumes "store_inv s" and "delete_replica r s = Inr (rc, s')"
  shows "logs s s s' s'"
  using assms delete_replica_objs_logs [OF assms(1)] by (auto simp: delete_replica_def)

lemma trim_one_logs:
  assumes inv: "store_inv s" and r: "trim_one s = Inr (rc, s')"
  shows "logs s s s' s'"
proof (cases "q_is_empty (trim_obj_queue s)")
  case True
  then show ?thesis using r logs_refl by (simp add: trim_one_def)
next
  case False
  obtain i tq where dq: "dequeue (trim_obj_queue s) = Inr (i, tq)"
    and w: "write_entry (FREE_OBJ i (q_head tq) (q_tail (snd (enqueue (free_obj_queue s) i))))
        (s\<lparr>trim_obj_queue := tq, free_obj_queue := snd (enqueue (free_obj_queue s) i)\<rparr>) = Inr (rc, s')"
    using r False by (auto simp: trim_one_def log_defs Let_def)
  note T = tblD [OF write_entry_tbl [OF w]]
  have i: "store_inv s'" using trim_one_keeps [OF inv] r by simp
  have "rstep s (FREE_OBJ i (q_head tq) (q_tail (snd (enqueue (free_obj_queue s) i)))) s'"
    using T i by (intro rstep_free [OF dq, where rc = "fst (enqueue (free_obj_queue s) i)"]) simp_all
  from logs_write [OF w this] show ?thesis
    by (rule logs_trans [rotated], intro logs_silent) (simp_all add: logpart_def signals_def)
qed

section \<open>The end of a copy\<close>

lemma run_waiting_logs:
  "run_waiting ts s = Some r \<Longrightarrow> store_inv s \<longrightarrow> r = Inr s' \<longrightarrow> logs s s s' s'"
proof (erule run_waiting.raw_induct [rotated], intro impI, goal_cases)
  case (1 rw ts s r)
  show ?case
  proof (cases ts)
    case Nil
    then show ?thesis using 1(2,4) logs_refl by simp
  next
    case (Cons t rest)
    have t: "is_write_task t" using 1(2,4) Cons by (cases "is_write_task t") auto
    obtain rc s1 where d: "do_write t s = Inr (rc, s1)"
      using 1(2,4) Cons t by (cases "do_write t s") auto
    have i: "store_inv s1" using do_write_keeps [OF 1(3), of t] d by simp
    have "rw (case waiting_behind t s1 of Some ws \<Rightarrow> ws | None \<Rightarrow> rest) s1 = Some r"
      using 1(2) Cons t d by simp
    then have "logs s1 s1 s' s'" using 1(1) i 1(4) by blast
    then show ?thesis by (rule logs_trans [OF do_write_logs [OF 1(3) d]])
  qed
qed

lemma delete_delayed_logs:
  assumes inv: "store_inv s" and r: "delete_delayed k a s = Inr s'"
  shows "logs s s s' s'"
  using r delete_where_logs [OF inv] logs_refl
  by (auto simp: delete_delayed_def delete_obj_def split: option.splits if_splits)

lemma update_entry_logpart [simp]:
  "logpart (update_entry k a g s) = logpart s" "signals (update_entry k a g s) = signals s"
  by (simp_all add: update_entry_def logpart_def signals_def split: option.split)

lemma update_waiting_logs:
  fixes k a ws
  assumes inv: "store_inv s"
  defines "s1 \<equiv> update_entry k a (\<lambda>e. e\<lparr>e_waiting_io := ws\<rparr>) s"
  shows "logs s s s1 s1" and "store_inv s1"
proof -
  show i: "store_inv s1" unfolding s1_def by (rule update_entry_inv [OF inv]) simp_all
  have same: "map img (map (\<lambda>e. if e_addr e = a then e\<lparr>e_waiting_io := ws\<rparr> else e) c) = map img c" for c
    by (simp add: img_def)
  have "pview s1 = pview s"
  proof (cases "lmt_find k s")
    case None
    then show ?thesis by (simp add: s1_def update_entry_def)
  next
    case (Some c)
    have "img_lmt (AList.update k (map (\<lambda>e. if e_addr e = a then e\<lparr>e_waiting_io := ws\<rparr> else e) c) (obj_lmt s)) =
        img_lmt (AList.update k c (obj_lmt s))"
      by (simp only: img_lmt_update same)
    then show ?thesis using Some update_same [OF Some] by (simp add: s1_def update_entry_def pview_def)
  qed
  then show "logs s s s1 s1" using i by (intro logs_quiet) (simp_all add: s1_def)
qed

lemma fold_complete_logs:
  "store_inv s \<Longrightarrow> logs s s (fold (\<lambda>t s'. act (Complete t st) s') ts s) (fold (\<lambda>t s'. act (Complete t st) s') ts s)"
proof (induction ts arbitrary: s)
  case Nil
  then show ?case using logs_refl by simp
next
  case (Cons t ts)
  have "logs s s (act (Complete t st) s) (act (Complete t st) s)" by (rule logs_act [OF Cons.prems]) simp
  then show ?case using logs_trans Cons by fastforce
qed

lemma cow_done_logs:
  assumes inv: "store_inv s" and fin0: "cow_done k src dst s = Some (Inr s')"
  shows "logs s s s' s'"
proof -
  obtain d where d: "find_entry k dst s = Some d"
    using fin0 by (cases "find_entry k dst s") (simp_all add: cow_done_def)
  then have dc: "d \<in> set (chain_of k (obj_lmt s))" "e_addr d = dst" using find_entry_cases [OF d] by simp_all
  then obtain c where c: "lmt_find k s = Some c" "d \<in> set c"
    by (cases "lmt_find k s") (simp_all add: chain_of_def)
  then obtain pre post where sp: "c = pre @ d # post" by (meson split_list)
  note F = store_inv_chain [OF inv c(1)]
  let ?g = "\<lambda>e. e\<lparr>e_status := NORMAL\<rparr>"
  let ?s1 = "update_entry k dst ?g s"
  have i1: "store_inv ?s1" by (rule update_entry_inv [OF inv]) simp_all
  have u: "?s1 = set_chain k (pre @ ?g d # post) s"
    using update_entry_split [where k = k and s = s and pre = pre and t = d and post = post and g = ?g] c(1) sp F(4) dc(2) by simp
  let ?it = "STATUS_CHANGE k (d\<lparr>e_status := NORMAL\<rparr>) (e_status d)"
  obtain rc s2 where w: "write_entry ?it ?s1 = Inr (rc, s2)"
    using fin0 d by (cases "write_entry ?it ?s1") (auto simp: cow_done_def Let_def log_defs)
  note T = write_entry_tbl [OF w]
  have i2: "store_inv s2" using store_inv_tbl [OF T] i1 by simp
  have desc: "desc_chain (pre @ ?g d # post)"
  proof -
    have "sorted_wrt (\<lambda>a b. b < a) (map e_snap_seq c)" using F(2) by (simp only: sorted_wrt_map)
    moreover have "map e_snap_seq c = map e_snap_seq (pre @ ?g d # post)" using sp by simp
    ultimately have "sorted_wrt (\<lambda>a b. b < a) (map e_snap_seq (pre @ ?g d # post))" by simp
    then show ?thesis by (simp only: sorted_wrt_map)
  qed
  have "rstep s ?it s2"
    using c(1) sp by (intro rstep_status [OF _ desc]) (simp_all add: tblD [OF T] u img_lmt_update i2)
  from logs_write [OF w this] have l2: "logs s s s2 s2"
    by (rule logs_trans [rotated], intro logs_silent) simp_all
  let ?s3 = "update_entry k dst (\<lambda>e. e\<lparr>e_waiting_io := []\<rparr>) s2"
  note U = update_waiting_logs [OF i2, of k dst "[]"]
  obtain r where r: "run_waiting (e_waiting_io d) ?s3 = Some r" and fin: "bnd r (delete_delayed k src) = Inr s'"
    using fin0 d w by (cases "run_waiting (e_waiting_io d) ?s3") (simp_all add: cow_done_def Let_def log_defs)
  obtain s4 where s4: "r = Inr s4" "delete_delayed k src s4 = Inr s'" using fin by (cases r) auto
  have "store_inv s4" using run_waiting_keeps [OF r] U(2) s4(1) by simp
  then have "logs s4 s4 s' s'" using delete_delayed_logs s4(2) by blast
  moreover have "logs ?s3 ?s3 s4 s4" using run_waiting_logs [OF r] U(2) s4(1) by blast
  ultimately show ?thesis using l2 U(1) logs_trans by metis
qed

lemma cow_failed_logs:
  assumes inv: "store_inv s" and r: "cow_failed k dst s = Inr s'"
  shows "logs s s s' s'"
proof -
  let ?s1 = "update_entry k dst (\<lambda>e. e\<lparr>e_waiting_io := []\<rparr>) s"
  note U = update_waiting_logs [OF inv, of k dst "[]"]
  obtain d where d: "find_entry k dst s = Some d" using r by (cases "find_entry k dst s") (simp_all add: cow_failed_def)
  have "s' = fold (\<lambda>t s'. act (Complete t MSG_STATUS_REOPEN) s') (e_waiting_io d) ?s1"
    using r d by (simp add: cow_failed_def)
  then show ?thesis using logs_trans [OF U(1) fold_complete_logs [OF U(2)]] by simp
qed

lemma cow_copy_logpart:
  "logpart (snd (cow_copy src dst js s)) = logpart s \<and> signals (snd (cow_copy src dst js s)) = signals s"
proof (induction js arbitrary: s)
  case (Cons j js)
  have "logpart (snd (cow_piece src dst j s)) = logpart s \<and> signals (snd (cow_piece src dst j s)) = signals s"
    by (simp add: cow_piece_def ext_call_def logpart_def signals_def case_prod_beta)
  then show ?case using Cons by (simp add: case_prod_beta)
qed simp

lemma do_cow_entry_logs:
  assumes inv: "store_inv s" and r: "do_cow_entry k src dst s = Some (Inr s')"
  shows "logs s s s' s'"
proof -
  obtain a b where f: "find_entry k src s = Some a" "find_entry k dst s = Some b"
    using r by (cases "find_entry k src s"; cases "find_entry k dst s") (simp_all add: do_cow_entry_def)
  let ?c = "cow_copy (e_offset a) (e_offset b) [0..<unat (objsize (head s) div COW_OBJ_SIZE)] s"
  have t: "tbl (snd ?c) = tbl s" by (rule cow_copy_tbl)
  have i: "store_inv (snd ?c)" using store_inv_tbl [OF t] inv by simp
  have "logs s s (snd ?c) (snd ?c)" using cow_copy_logpart pview_tbl [OF t] i by (intro logs_quiet) blast+
  moreover have "logs (snd ?c) (snd ?c) s' s'"
    using cow_failed_logs [OF i, of k dst s'] cow_done_logs [OF i, of k src dst s'] r f
    by (cases "fst ?c") (simp_all add: do_cow_entry_def case_prod_beta)
  ultimately show ?thesis by (rule logs_trans)
qed

lemma end_cow_scc_logs:
  assumes inv: "store_inv s" and r: "end_cow_scc rc k src dst s = Some (Inr s')"
  shows "logs s s s' s'"
proof -
  obtain d where d: "find_entry k dst s = Some d"
    using r by (cases "find_entry k dst s") (simp_all add: end_cow_scc_def)
  let ?s1 = "update_entry k dst (\<lambda>e. e\<lparr>e_waiting_io := []\<rparr>) s"
  note U = update_waiting_logs [OF inv, of k dst "[]"]
  show ?thesis
  proof (cases "rc = 0")
    case True
    then obtain w where w: "run_waiting (e_waiting_io d) ?s1 = Some w" and f: "bnd w (delete_delayed k src) = Inr s'"
      using r d by (cases "run_waiting (e_waiting_io d) ?s1") (simp_all add: end_cow_scc_def Let_def)
    then obtain s4 where s4: "w = Inr s4" "delete_delayed k src s4 = Inr s'" by (cases w) auto
    have "store_inv s4" using run_waiting_keeps [OF w] U(2) s4(1) by simp
    then have "logs s4 s4 s' s'" using delete_delayed_logs s4(2) by blast
    moreover have "logs ?s1 ?s1 s4 s4" using run_waiting_logs [OF w] U(2) s4(1) by blast
    ultimately show ?thesis using U(1) logs_trans by metis
  next
    case False
    then have "s' = fold (\<lambda>t s'. act (Complete t MSG_STATUS_REOPEN) s') (e_waiting_io d) ?s1"
      using r d by (simp add: end_cow_scc_def Let_def)
    then show ?thesis using logs_trans [OF U(1) fold_complete_logs [OF U(2)]] by simp
  qed
qed

section \<open>Deleting a snapshot\<close>

lemma renumber_target_logs:
  assumes inv: "store_inv s" and c: "lmt_find k s = Some (pre @ t # post)"
    and r: "renumber_target k t n s = Inr (rc, s')" and desc: "desc_chain (pre @ t\<lparr>e_snap_seq := n\<rparr> # post)"
  shows "logs s s s' s'"
proof -
  note F = store_inv_chain [OF inv c]
  let ?g = "\<lambda>e. e\<lparr>e_snap_seq := n\<rparr>" and ?it = "SNAP_SEQ_CHANGE k (t\<lparr>e_snap_seq := n\<rparr>) (e_snap_seq t)"
  let ?s1 = "update_entry k (e_addr t) ?g s"
  have u: "?s1 = set_chain k (pre @ ?g t # post) s" by (rule update_entry_split [OF c F(4)])
  obtain rc1 where w: "write_entry ?it ?s1 = Inr (rc1, s')"
    using r unfolding renumber_target_def log_defs by (auto simp: bnd_ignore_rc)
  have i: "store_inv s'" using renumber_target_ok [OF inv c r desc] by blast
  have "rstep s ?it s'"
    using F(3) by (intro rstep_seq [OF c desc]) (simp_all add: tblD [OF write_entry_tbl [OF w]] u img_lmt_update i)
  from logs_write [OF w this] show ?thesis by (rule logs_trans [rotated], intro logs_silent) simp_all
qed

lemma delete_obj_snapshot_logs:
  fixes v lba
  defines "k \<equiv> \<lparr>vol_id = v, slba = lba\<rparr>"
  assumes inv: "store_inv s" and lt: "Lts < Lns" and r: "delete_obj_snapshot v lba Lts Lps Lns s = Inr (rc, s')"
  shows "logs s s s' s'"
proof (cases "lmt_find k s")
  case None
  then show ?thesis using r logs_refl by (simp add: delete_obj_snapshot_def k_def)
next
  case (Some c)
  obtain n t p where loc: "locate_target Lts None c = Inr (n, t, p)"
    using r Some by (cases "locate_target Lts None c") (auto simp: delete_obj_snapshot_def k_def)
  show ?thesis
  proof (cases "not_normal p \<or> not_normal (Some t) \<or> not_normal n")
    case True
    then have "s' = s" using r Some loc by (simp add: delete_obj_snapshot_def k_def)
    then show ?thesis using logs_refl by simp
  next
    case False
    obtain pre post where sp: "c = pre @ t # post" "list_all (\<lambda>x. Lts < e_snap_seq x) pre"
      "e_snap_seq t \<le> Lts" "n = (if pre = [] then None else Some (last pre))"
      using locate_target_split [OF loc] by blast
    have c': "lmt_find k s = Some (pre @ t # post)" using Some sp(1) by simp
    have desc: "desc_chain (pre @ t # post)" using store_inv_chain(2) [OF inv Some] sp(1) by simp
    have lt_next: "Lts < next_seq n"
      using sp(2,4) lt max_word_bound [of Lns] by (auto simp: next_seq_def list_all_iff)
    have "delete_target k Lts Lps Lns n t p s = Inr (rc, s')"
      using r Some loc False by (simp add: delete_obj_snapshot_def k_def)
    note dt = this [unfolded delete_target_eq [OF sp(3) lt_next]]
    show ?thesis
    proof (cases "next_seq n \<le> Lns")
      case True
      then obtain x where "n = Some x" "e_status x = NORMAL"
        using dt False by (cases n) (auto simp: drop_target_def not_normal_def)
      then obtain rc1 where "delete_where k (\<lambda>e. e_addr e = e_addr t) s = Inr (rc1, s')"
        using dt True by (auto simp: drop_target_def delete_obj_def bnd_ignore_rc)
      then show ?thesis by (rule delete_where_logs [OF inv])
    next
      case False
      then have above: "list_all (\<lambda>x. Lns < e_snap_seq x) pre" using all_above_next [OF desc sp(4), of Lns] by simp
      have "desc_chain (pre @ t\<lparr>e_snap_seq := Lns\<rparr> # post)"
        using desc_chain_replace [OF desc above] sp(3) lt by simp
      then show ?thesis using renumber_target_logs [OF inv c'] dt False by simp
    qed
  qed
qed

lemma delete_snapshot_objs_logs:
  "delete_snapshot_objs v lbas Lts Lps Lns s = Inr s' \<Longrightarrow> store_inv s \<Longrightarrow> Lts < Lns \<Longrightarrow> logs s s s' s'"
proof (induction lbas arbitrary: s)
  case Nil
  then show ?case using logs_refl by simp
next
  case (Cons lba lbas)
  then obtain rc s1 where d: "delete_obj_snapshot v lba Lts Lps Lns s = Inr (rc, s1)"
    and n: "delete_snapshot_objs v lbas Lts Lps Lns s1 = Inr s'"
    by (cases "delete_obj_snapshot v lba Lts Lps Lns s") auto
  have "logs s1 s1 s' s'"
    by (rule Cons.IH [OF n delete_obj_snapshot_inv [OF Cons.prems(2,3) d] Cons.prems(3)])
  then show ?case using logs_trans delete_obj_snapshot_logs [OF Cons.prems(2,3) d] by blast
qed

section \<open>Events\<close>

lemma triggered_durable:
  assumes d: "durable_at v s t" and idle: "to_run_compact s = COMPACT_IDLE"
  shows "durable_at v (triggered s) t"
proof -
  have so: "sound s" using d by (simp add: durable_at_def)
  obtain base mid its1 its2 where
    D: "md_saved (d_meta (dev s)) (current_metadata (head s)) base" "store_inv base"
      "fixed_head (head base) = fixed_head (head s)" "rsteps base its1 mid" "rsteps mid its2 v"
    and lo: "log_ok s its1 its2" and tl: "tool_ok base s t"
    using d by (auto simp: durable_at_def)
  have n: "its2 = []" using lo idle by (auto simp: log_ok_def Let_def)
  have "log_ok (triggered s) its1 []"
    using lo n so by (intro triggered_log_ok) (simp_all add: log_ok_def sound_def)
  moreover have "sound (triggered s)" using so by (simp add: sound_def no_err_def)
  moreover have "tool_ok base (triggered s) t" using tl by (cases t) (simp_all add: tool_ok_def)
  ultimately show ?thesis unfolding durable_at_def
    by (intro conjI exI [of _ base] exI [of _ mid] exI [of _ its1] exI [of _ "[]"]) (use D n in simp_all)
qed

lemma triggered_tbl: "tbl (triggered s) = tbl s"
  by (simp add: triggered_def)

lemma durable_mode: "durable_at v s t \<Longrightarrow> to_run_compact s \<in> {COMPACT_IDLE, COMPACT_TODO}"
  by (auto simp: durable_at_def log_ok_def Let_def split: if_splits)

lemma trigger_logs:
  assumes inv: "store_inv s" and r: "meta_data_compaction_trigger COMPACT_TODO f s = Inr (rc, s')"
  shows "logs s s s' s'"
  unfolding logs_def
proof (intro conjI allI impI)
  show "calm s' s" using trigger_signals [OF r] by simp
  fix t
  assume d: "durable s t" and c: "calm s s'"
  have s': "s' = triggered s" using trigger_eq [OF durable_mode [OF d]] r by simp
  have "to_run_compact s \<noteq> COMPACT_TODO" using c s' by (auto simp: calm_def) (simp add: pending_def)
  then have "durable_at s s' t" using triggered_durable [OF d] durable_mode [OF d] s' by simp
  moreover have "rsteps s [] s'"
    using s' inv store_inv_tbl [OF triggered_tbl] pview_tbl [OF triggered_tbl] by (intro rsteps_silent) simp_all
  ultimately show "durable s' t" by (rule durable_post)
qed

lemma do_read_logs: "store_inv s \<Longrightarrow> logs s s (snd (do_read io s)) (snd (do_read io s))"
  by (simp add: do_read_def Let_def logs_act split: option.split)

lemma process_event_logs:
  assumes inv: "store_inv s" and r: "process_event ev s = Inr (rc, s')"
  shows "logs s s s' s'"
proof (cases ev)
  case (EVT_IO_REQ io)
  let ?op = "m_opcode (io_cmd io)"
  show ?thesis
  proof (cases "?op = S5_OP_READ \<or> ?op = S5_OP_RECOVERY_READ")
    case True
    then have "s' = snd (do_read io s)" using r EVT_IO_REQ by (simp add: process_event_def Let_def)
    then show ?thesis using do_read_logs [OF inv] by simp
  next
    case False
    then obtain rc1 where "do_write io s = Inr (rc1, s')"
      using r EVT_IO_REQ
      by (cases "do_write io s") (auto simp: process_event_def Let_def split: if_splits)
    then show ?thesis by (rule do_write_logs [OF inv])
  qed
next
  case EVT_SAVEMD
  show ?thesis
  proof (cases "log_current s = log_start s")
    case True
    then show ?thesis using r EVT_SAVEMD logs_refl by (simp add: process_event_def)
  next
    case False
    then obtain rc1 where "meta_data_compaction_trigger COMPACT_TODO False s = Inr (rc1, s')"
      using r EVT_SAVEMD
      by (cases "meta_data_compaction_trigger COMPACT_TODO False s") (auto simp: process_event_def)
    then show ?thesis by (rule trigger_logs [OF inv])
  qed
next
  case (EVT_COW_READ c)
  then have "s' = act (Submit_cow_io S5_OP_COW_READ (cow_src_offset c) (cow_size c)) s"
    using r by (simp add: process_event_def)
  then show ?thesis using logs_act [OF inv] by simp
next
  case (EVT_COW_WRITE c)
  then have "s' = act (Submit_cow_io S5_OP_COW_WRITE (cow_dst_offset c) (cow_size c)) s"
    using r by (simp add: process_event_def)
  then show ?thesis using logs_act [OF inv] by simp
next
  case (EVT_OTHER n)
  then show ?thesis using r by (simp add: process_event_def)
qed

section \<open>Replay\<close>

lemma sim_tbl:
  assumes "tbl r' = tbl r"
  shows "sim v r' = sim v r"
  using pview_tbl [OF assms] store_inv_tbl [OF assms] tblD(5) [OF assms] by (simp add: sim_def)

lemma ticked_tbl: "ticked s s' \<Longrightarrow> tbl s' = tbl s"
  using ticked_dev [of s s'] by auto

lemma replay_loop_ok:
  assumes "sim v r" and "rsteps v its v'" and "no_err r"
    and "\<And>i. i < length its \<Longrightarrow> lpage (dev r) (b + i) = \<lparr>lp_phase = ph, lp_item = Some (its ! i)\<rparr>"
    and "lp_phase (lpage (dev r) (b + length its)) \<noteq> ph"
  shows "\<exists>r' n. replay_loop ph (log_addr b) r = Some (Inr (0, r')) \<and> sim v' r' \<and> head r' = head r \<and>
    acts r' = acts r \<and> dev r' = (dev r)\<lparr>d_cnt := n\<rparr> \<and> log_size r' = log_size r"
  using assms
proof (induction its arbitrary: v r b)
  case Nil
  obtain r1 where e: "ext_call r = (0, r1)" "ticked r r1" using ext_call_ok [OF Nil(3)] .
  obtain n where n: "r1 = r\<lparr>dev := (dev r)\<lparr>d_cnt := n\<rparr>\<rparr>" using ticked_dev [OF e(2)] by blast
  have "replay_loop ph (log_addr b) r = Some (Inr (0, r1))"
    using e(1) Nil(5) n by (subst replay_loop.simps) (simp add: lpage_def)
  moreover have "sim v' r1" using Nil(1,2) sim_tbl [OF ticked_tbl [OF e(2)]] by simp
  ultimately show ?case using n by (intro exI [of _ r1] exI [of _ n]) simp
next
  case (Cons it its)
  obtain u where u: "rstep v it u" "rsteps u its v'" using Cons.prems(2) by auto
  obtain r1 where e: "ext_call r = (0, r1)" "ticked r r1" using ext_call_ok [OF Cons.prems(3)] .
  obtain n where n: "r1 = r\<lparr>dev := (dev r)\<lparr>d_cnt := n\<rparr>\<rparr>" using ticked_dev [OF e(2)] by blast
  have "sim v r1" using Cons.prems(1) sim_tbl [OF ticked_tbl [OF e(2)]] by simp
  then obtain r2 where r2: "redo_one (Some it) r1 = Inr (0, r2)" "sim u r2" using u(1) by (auto simp: rstep_def)
  have fr: "head r2 = head r1" "acts r2 = acts r1" "dev r2 = dev r1" "log_size r2 = log_size r1" using redo_one_frame [OF r2(1)] by simp_all
  have pg: "d_log (dev r1) (log_addr b) = \<lparr>lp_phase = ph, lp_item = Some it\<rparr>"
    using Cons.prems(4) [of 0] n by (simp add: lpage_def)
  have ok2: "no_err r2" using Cons.prems(3) fr(3) n by (simp add: no_err_def)
  have l2: "lpage (dev r2) = lpage (dev r)" using fr(3) n by (simp add: lpage_def fun_eq_iff)
  have "\<exists>r' m. replay_loop ph (log_addr (Suc b)) r2 = Some (Inr (0, r')) \<and> sim v' r' \<and> head r' = head r2 \<and>
      acts r' = acts r2 \<and> dev r' = (dev r2)\<lparr>d_cnt := m\<rparr> \<and> log_size r' = log_size r2"
  proof (rule Cons.IH [OF r2(2) u(2) ok2])
    fix i
    assume "i < length its"
    then show "lpage (dev r2) (Suc b + i) = \<lparr>lp_phase = ph, lp_item = Some (its ! i)\<rparr>"
      using Cons.prems(4) [of "Suc i"] l2 by simp
  qed (use Cons.prems(5) l2 in simp)
  then obtain r' m where r': "replay_loop ph (log_addr (Suc b)) r2 = Some (Inr (0, r'))" "sim v' r'" "head r' = head r2"
      "acts r' = acts r2" "dev r' = (dev r2)\<lparr>d_cnt := m\<rparr>" "log_size r' = log_size r2"
    by blast
  have "replay_loop ph (log_addr b) r = Some (Inr (0, r'))"
    using e(1) pg r2(1) r'(1) log_addr_next by (subst replay_loop.simps) simp
  moreover have "head r' = head r" "acts r' = acts r" "dev r' = (dev r)\<lparr>d_cnt := m\<rparr>" "log_size r' = log_size r" using r'(3-6) fr n by simp_all
  ultimately show ?case using r'(2) by blast
qed

end
