(* ===== verification/Restart.thy ===== *)
theory Restart
  imports Durability Store_Layout
begin

text \<open>
  Compaction and restart. The compaction thread moves the items of the current log zone
  into the other metadata zone while the store keeps logging; a store that is started on
  the disk of a running one loads the zone that the head page names and replays both log
  zones. Both find the tables that the running store has in memory.
\<close>

section \<open>Replaying a zone\<close>

lemma zone_phases:
  assumes "zone_holds d b p its q" and "i < zone_pages"
  shows "lp_phase (lpage d (b + i)) = p \<or> lp_phase (lpage d (b + i)) < q"
  using assms by (cases "i < length its") (simp_all add: zone_holds_def)

text \<open>A replay of phase \<open>p\<close> from page \<open>b\<close> on reads the items \<open>its\<close>.\<close>

definition log_reads :: "device \<Rightarrow> nat \<Rightarrow> int \<Rightarrow> redo_item list \<Rightarrow> bool" where
  "log_reads d b p its \<longleftrightarrow>
     (\<forall>i < length its. lpage d (b + i) = \<lparr>lp_phase = p, lp_item = Some (its ! i)\<rparr>) \<and>
     lp_phase (lpage d (b + length its)) \<noteq> p"

lemma log_reads_cong: "d_log d' = d_log d \<Longrightarrow> log_reads d' b p its = log_reads d b p its"
  by (simp add: log_reads_def lpage_def)

text \<open>The replay ends at the end of the items, also when they fill the zone.\<close>

lemma zones_read_current:
  assumes z: "zones_ok s its1 its2"
  shows "log_reads (dev s) (cur_page (head s)) (redolog_phase (head s)) its1"
proof -
  let ?c = "cur_page (head s)" and ?p = "redolog_phase (head s)"
  note Z = zones_okD [OF z]
  have n: "length its1 \<le> zone_pages" using Z(3) by (simp add: zone_holds_def)
  have "lp_phase (lpage (dev s) (?c + length its1)) \<noteq> ?p"
  proof (cases "length its1 < zone_pages")
    case True
    then show ?thesis using Z(3) by (auto simp: zone_holds_def)
  next
    case False
    then have n: "length its1 = zone_pages" using n by simp
    show ?thesis
    proof (cases "current_redolog (head s) = FIRST_REDOLOG_ZONE")
      case True
      have "lp_phase (lpage (dev s) (zone_pages + 0)) = ?p + 1 \<or> lp_phase (lpage (dev s) (zone_pages + 0)) < ?p"
        using zone_phases [OF Z(4), of 0] True by (simp add: opp_page_def)
      then show ?thesis using True n by (auto simp: cur_page_def)
    next
      case False
      then show ?thesis using Z(5) n by (simp add: cur_page_def)
    qed
  qed
  then show ?thesis using Z(3) by (simp add: log_reads_def zone_holds_def)
qed

lemma zones_read_opposite:
  assumes z: "zones_ok s its1 its2" and n: "length its2 < zone_pages"
  shows "log_reads (dev s) (opp_page (head s)) (redolog_phase (head s) + 1) its2"
proof -
  note Z = zones_okD(4) [OF z]
  have "lp_phase (lpage (dev s) (opp_page (head s) + length its2)) < redolog_phase (head s)"
    using Z n by (simp add: zone_holds_def)
  then show ?thesis using Z by (simp add: log_reads_def zone_holds_def)
qed

lemma replay_ok:
  assumes lr: "log_reads (dev r) b p its" and r: "sim v r" "rsteps v its v'" "no_err r"
    and b: "redolog_position (head r) which = log_addr b"
  obtains r' n where "replay p which r = Some (Inr (0, r'))" and "sim v' r'" and "head r' = head r"
    and "acts r' = acts r" and "dev r' = (dev r)\<lparr>d_cnt := n\<rparr>" and "log_size r' = log_size r"
proof -
  have "\<And>i. i < length its \<Longrightarrow> lpage (dev r) (b + i) = \<lparr>lp_phase = p, lp_item = Some (its ! i)\<rparr>"
    and "lp_phase (lpage (dev r) (b + length its)) \<noteq> p"
    using lr by (simp_all add: log_reads_def)
  from replay_loop_ok [OF r this] show ?thesis using that b unfolding replay_def by auto
qed

section \<open>Compaction\<close>

lemma fixed_head_ids:
  assumes "fixed_head h' = fixed_head h"
  shows "magic h' = magic h" "version h' = version h"
  using assms by (cases h; cases h'; simp add: fixed_head_def)+

lemma sound_fixed:
  assumes "sound s" and "no_err s'" and "fixed_head (head s') = fixed_head (head s)" and "d_head (dev s') = Some (head s')"
    and "current_metadata (head s') \<in> {0, 1}"
  shows "sound s'"
  using assms std_head_fixed [OF assms(3)] fixed_head_geometry(3) [OF assms(3)] fixed_head_ids [OF assms(3)]
  by (simp add: sound_def)

text \<open>After a switch of the zones the items of the opposite zone are those of the current one.\<close>

lemma zones_switch:
  assumes z: "zones_ok s its1 its2" and "d_log (dev s') = d_log (dev s)" and "log_size s' = log_size s"
    and h: "redolog_phase (head s') = redolog_phase (head s) + 1" "current_redolog (head s') = oppsite_redolog_zone (head s)"
  shows "zones_ok s' its2 []" "cur_page (head s') = opp_page (head s)"
proof -
  let ?p = "redolog_phase (head s)"
  note Z = zones_okD [OF z]
  show c: "cur_page (head s') = opp_page (head s)"
    using h(2) by (simp add: cur_page_def opp_page_def oppsite_redolog_zone_def)
  have o: "opp_page (head s') = cur_page (head s)"
    using h(2) by (simp add: cur_page_def opp_page_def oppsite_redolog_zone_def)
  have zh: "zone_holds (dev s') = zone_holds (dev s)" using zone_holds_cong [OF assms(2)] by (simp add: fun_eq_iff)
  have l: "lpage (dev s') = lpage (dev s)" using assms(2) by (simp add: lpage_def fun_eq_iff)
  have 1: "zone_holds (dev s) (opp_page (head s)) (?p + 1) its2 (?p + 1)"
    using Z(4) unfolding zone_holds_def by force
  have "lp_phase (lpage (dev s) (cur_page (head s) + i)) < ?p + 1" if "i < zone_pages" for i
    using zone_phases [OF Z(3) that] by auto
  then have 2: "zone_holds (dev s) (cur_page (head s)) (?p + 1 + 1) [] (?p + 1)" by (simp add: zone_holds_def)
  show "zones_ok s' its2 []" using 1 2 Z(1,2,5) assms(3) h(1) c o zh l by (simp add: zones_ok_def Let_def)
qed

lemma compact_meta_data_ok:
  assumes d: "durable_at v s (Some t)" and todo: "to_run_compact s = COMPACT_TODO"
  obtains s1 t1 where "compaction_work s t = Some (Inr (True, s1, t1))" and "durable_at v s1 (Some t1)" and "tbl s1 = tbl s"
    and "acts s1 = acts s" and "to_run_compact s1 = COMPACT_IDLE"
proof -
  have so: "sound s" using d by (simp add: durable_at_def)
  then have ok: "no_err s" and std: "std_head (head s)" and cnt: "obj_count (head s) \<le> 2 ^ 24" by (simp_all add: sound_def)
  obtain base mid its1 its2 where
    D: "md_saved (d_meta (dev s)) (current_metadata (head s)) base" "store_inv base"
      "fixed_head (head base) = fixed_head (head s)" "rsteps base its1 mid" "rsteps mid its2 v"
    and lo: "log_ok s its1 its2" and tl: "tool_ok base s (Some t)"
    using d by (auto simp: durable_at_def)
  have z: "zones_ok s its1 its2" using lo by (simp add: log_ok_def)
  let ?s = "s\<lparr>to_run_compact := COMPACT_RUNNING\<rparr>" and ?t = "t\<lparr>head := head s, dev := dev s\<rparr>"
  have ok0: "no_err ?t" using ok by (simp add: no_err_def)
  obtain t1 n1 where 1: "(if compact_lmt_exist s then Inr (0, ?t) else load_meta_data (current_metadata (head s)) True ?t) = Inr (0, t1)"
    "sim base t1" "head t1 = head s" "dev t1 = (dev s)\<lparr>d_cnt := n1\<rparr>"
  proof (cases "compact_lmt_exist s")
    case True
    then have st: "sim base t" using tl by (simp add: tool_ok_def)
    then have "tbl ?t = tbl t" using D(3) by (simp add: sim_def tbl_def)
    then have "sim base ?t" using st sim_tbl by blast
    then show ?thesis using that [of ?t "d_cnt (dev s)"] True by simp
  next
    case False
    then have u: "obj_lmt t = []" "pool_fresh (lmt_entry_pool t)" "nat (obj_count (head s)) < p_slots (lmt_entry_pool t)"
      using tl by (simp_all add: tool_ok_def)
    obtain r n where "load_meta_data (current_metadata (head s)) True ?t = Inr (0, r)" "sim base r" "head r = head ?t"
      "dev r = (dev ?t)\<lparr>d_cnt := n\<rparr>"
    proof (rule load_meta_data_ok [OF ok0, where z = "current_metadata (head s)" and v = base and cmp = True])
      show "pool_fresh (lmt_entry_pool ?t) \<and> nat (obj_count (head base)) < p_slots (lmt_entry_pool ?t)"
        using u fixed_head_geometry(3) [OF D(3)] by simp
    qed (use std u D in simp_all)
    then show ?thesis using that False by simp
  qed
  have ok1: "no_err t1" using 1(4) ok by (simp add: no_err_def)
  obtain t2 n2 where 2: "replay (redolog_phase (head s)) CURRENT t1 = Some (Inr (0, t2))" "sim mid t2" "head t2 = head t1"
      "dev t2 = (dev t1)\<lparr>d_cnt := n2\<rparr>"
  proof (rule replay_ok [OF _ 1(2) D(4) ok1])
    show "log_reads (dev t1) (cur_page (head s)) (redolog_phase (head s)) its1"
      using zones_read_current [OF z] log_reads_cong [of "dev t1" "dev s"] 1(4) by simp
    show "redolog_position (head t1) CURRENT = log_addr (cur_page (head s))" using redolog_positions(1) [OF std] 1(3) by simp
  qed
  have ok2: "no_err t2" using 2(4) ok1 by (simp add: no_err_def)
  have std2: "std_head (head t2)" and cnt2: "obj_count (head t2) \<le> 2 ^ 24" and h2: "head t2 = head s"
    using 1(3) 2(3) std cnt by simp_all
  have inv2: "store_inv t2" using 2(2) by (simp add: sim_def)
  let ?z = "oppsite_md_zone (head s)"
  obtain t3 where 3: "save_meta_data ?z t2 = (0, t3)" "saved_to ?z t2 t3"
    using save_meta_data_ok [OF ok2 std2 store_inv_fits [OF inv2 cnt2]] .
  note S = saved_toD [OF 3(2)]
  let ?s1 = "s\<lparr>to_run_compact := COMPACT_IDLE, head := head t3, compact_lmt_exist := True, dev := dev t3\<rparr>"
  have "compact_meta_data ?s t = Some (Inr (0, ?s\<lparr>head := head t3, compact_lmt_exist := True, dev := dev t3\<rparr>, t3))"
    using 1(1) 2(1) 3(1) by (cases "compact_lmt_exist s") (simp_all add: compact_meta_data_def Let_def)
  then have w: "compaction_work s t = Some (Inr (True, ?s1, t3))"
    using todo by (simp add: compaction_work_def)
  have fh: "fixed_head (head t3) = fixed_head (head s)" using S(5) h2 by simp
  have so1: "sound ?s1"
  proof (rule sound_fixed [OF so])
    show "no_err ?s1" using S(2) ok2 by (simp add: no_err_def)
    show "fixed_head (head ?s1) = fixed_head (head s)" using fh by simp
    show "d_head (dev ?s1) = Some (head ?s1)" using S(4) by simp
    show "current_metadata (head ?s1) \<in> {0, 1}" using S(6) by (simp add: oppsite_md_zone_def)
  qed
  have dl: "d_log (dev ?s1) = d_log (dev s)" using S(9) 1(4) 2(4) by simp
  have hp: "redolog_phase (head ?s1) = redolog_phase (head s) + 1" "current_redolog (head ?s1) = oppsite_redolog_zone (head s)"
    using S(7,8) h2 by simp_all
  have "log_size ?s1 = log_size s" by simp
  note zs = zones_switch [OF z dl this hp]
  from lo todo have lt: "log_phase s = redolog_phase (head s) + 1" "log_start s = log_addr (opp_page (head s))"
    "log_current s = log_addr (opp_page (head s) + length its2)" "length its2 < zone_pages"
    by (simp_all add: log_ok_def Let_def)
  have lo1: "log_ok ?s1 its2 []" unfolding log_ok_def Let_def using zs lt hp by simp
  have tool1: "tool_ok t2 ?s1 (Some t3)"
    using sim_tbl [OF S(1), of t2] inv2 by (simp add: tool_ok_def) (simp add: sim_def)
  have "rsteps t2 [] mid" using 2(2) by (simp add: sim_def)
  then have rs: "rsteps t2 its2 v" by (rule rsteps_pre [OF D(5)])
  have "durable_at v ?s1 (Some t3)" unfolding durable_at_def
    by (intro conjI exI [of _ t2] exI [of _ v] exI [of _ its2] exI [of _ "[]"])
      (use so1 S(3,6) inv2 fh h2 rs lo1 tool1 in simp_all)
  then show ?thesis using that [OF w] fh by (simp add: tbl_def)
qed

section \<open>Steps\<close>

lemma logs_durable: "logs s s s' s' \<Longrightarrow> durable s t \<Longrightarrow> calm s s' \<Longrightarrow> durable s' t"
  unfolding logs_def by blast

lemma compaction_work_durable:
  assumes d: "durable s (Some t)" and inv: "store_inv s" and w: "compaction_work s t = Some (Inr (b, s', t'))"
  shows "durable s' (Some t')"
proof (cases "to_run_compact s = COMPACT_TODO")
  case True
  obtain s1 t1 where c: "compaction_work s t = Some (Inr (True, s1, t1))" "durable_at s s1 (Some t1)" "tbl s1 = tbl s"
    using compact_meta_data_ok [OF d True] .
  have e: "s1 = s'" "t1 = t'" using c(1) w by simp_all
  have "rsteps s [] s1"
    by (rule rsteps_silent [OF pview_tbl [OF c(3)] tblD(5) [OF c(3)]]) (use store_inv_tbl [OF c(3)] inv in simp)
  from durable_post [OF c(2) this] show ?thesis using e by simp
next
  case False
  then show ?thesis using d w by (simp add: compaction_work_def)
qed

lemma woken_logs: "store_inv s \<Longrightarrow> logs s s (snd (compaction_woken rc s)) (snd (compaction_woken rc s))"
  by (simp add: compaction_woken_def logs_refl logs_act)

lemma store_step_durable:
  assumes st: "store_step (s, t) (s', t')" and inv: "store_inv s" and d: "durable s t" and c: "calm s s'"
  shows "durable s' t'"
  using st
proof (cases rule: store_step.cases)
  case (event ev rc)
  then show ?thesis using logs_durable [OF process_event_logs [OF inv event(2)] d c] by simp
next
  case (trim rc)
  then show ?thesis using logs_durable [OF trim_one_logs [OF inv trim(2)] d c] by simp
next
  case (del_replica rep rc)
  then show ?thesis using logs_durable [OF delete_replica_logs [OF inv del_replica(2)] d c] by simp
next
  case (del_snapshot prev snap nxt shard)
  have "logs s s s' s'"
    using delete_snapshot_objs_logs [OF _ inv del_snapshot(3)] del_snapshot(4) by (simp add: delete_snapshot_def Let_def)
  then show ?thesis using logs_durable [OF _ d c] del_snapshot(1) by simp
next
  case (cow k src dst)
  then show ?thesis using logs_durable [OF do_cow_entry_logs [OF inv cow(2)] d c] by simp
next
  case (cow_scc rc k src dst)
  then show ?thesis using logs_durable [OF end_cow_scc_logs [OF inv cow_scc(2)] d c] by simp
next
  case (compact t1 b t1')
  then show ?thesis using compaction_work_durable [OF _ inv compact(3)] d by simp
next
  case (woken rc)
  then show ?thesis using logs_durable [OF woken_logs [OF inv, of rc] d] c by simp
qed

section \<open>The checks after loading\<close>

lemma free_entries_ok:
  assumes "q_inv (p_free p)" and "q_cap (p_free p) = p_slots p" and "length es + length (q_list (p_free p)) \<le> p_slots p"
  shows "\<exists>p'. free_entries es p = Inr p' \<and> q_inv (p_free p') \<and> q_cap (p_free p') = p_slots p' \<and>
    p_slots p' = p_slots p \<and> q_list (p_free p') = q_list (p_free p) @ map e_addr es"
  using assms
proof (induction es arbitrary: p)
  case (Cons e es)
  obtain q' where q: "enqueue (p_free p) (e_addr e) = (0, q')" "q_inv q'" "q_list q' = q_list (p_free p) @ [e_addr e]"
      "q_depth q' = q_depth (p_free p)"
    using enqueue_ok [OF Cons.prems(1), of "e_addr e"] Cons.prems(2,3) by auto
  have "pool_free p (e_addr e) = Inr (p\<lparr>p_free := q'\<rparr>)"
    using q(1) by (simp add: pool_free_def enqueue_eq_nolock [symmetric])
  moreover have "\<exists>p'. free_entries es (p\<lparr>p_free := q'\<rparr>) = Inr p' \<and> q_inv (p_free p') \<and> q_cap (p_free p') = p_slots p' \<and>
      p_slots p' = p_slots (p\<lparr>p_free := q'\<rparr>) \<and> q_list (p_free p') = q_list (p_free (p\<lparr>p_free := q'\<rparr>)) @ map e_addr es"
    by (rule Cons.IH) (use Cons.prems q in \<open>simp_all add: q_cap_def\<close>)
  ultimately show ?case using q(3) by simp
qed simp

text \<open>The table without the unfinished entries.\<close>

definition finished :: "lmt_table \<Rightarrow> lmt_table" where
  "finished m = filter (\<lambda>(k, c). c \<noteq> []) (map (\<lambda>(k, c). (k, filter (\<lambda>e. \<not> unfinished e) c)) m)"

lemma finished_simps [simp]:
  "finished [] = []"
  "finished ((k, c) # m) = (let c' = filter (\<lambda>e. \<not> unfinished e) c in if c' = [] then finished m else (k, c') # finished m)"
  by (simp_all add: finished_def Let_def)

lemma fix_lmt_ok:
  assumes "q_inv (p_free p)" and "q_cap (p_free p) = p_slots p"
    and "size (table_entries m) + length (q_list (p_free p)) \<le> p_slots p"
  shows "\<exists>p'. fix_lmt m p = Inr (finished m, p') \<and> q_inv (p_free p') \<and> q_cap (p_free p') = p_slots p' \<and>
    p_slots p' = p_slots p \<and>
    mset (q_list (p_free p')) + image_mset e_addr (table_entries (finished m)) =
      mset (q_list (p_free p)) + image_mset e_addr (table_entries m)"
  using assms
proof (induction m p rule: fix_lmt.induct)
  case (1 p)
  then show ?case by simp
next
  case (2 k c m p)
  let ?u = "filter unfinished c" and ?c = "filter (\<lambda>e. \<not> unfinished e) c"
  have len: "length ?u \<le> length c" by (rule length_filter_le)
  have sz: "length c + size (table_entries m) + length (q_list (p_free p)) \<le> p_slots p" using 2(4) by simp
  have "length ?u + length (q_list (p_free p)) \<le> p_slots p" using len sz by linarith
  then obtain p1 where p1: "free_entries ?u p = Inr p1" "q_inv (p_free p1)" "q_cap (p_free p1) = p_slots p1"
      "p_slots p1 = p_slots p" "q_list (p_free p1) = q_list (p_free p) @ map e_addr ?u"
    using free_entries_ok [OF 2(2,3)] by blast
  have "length (q_list (p_free p1)) = length (q_list (p_free p)) + length ?u" using p1(5) by simp
  then have "size (table_entries m) + length (q_list (p_free p1)) \<le> p_slots p1" using sz len p1(4) by linarith
  then obtain p2 where p2: "fix_lmt m p1 = Inr (finished m, p2)" "q_inv (p_free p2)" "q_cap (p_free p2) = p_slots p2"
      "p_slots p2 = p_slots p1" "mset (q_list (p_free p2)) + image_mset e_addr (table_entries (finished m)) =
      mset (q_list (p_free p1)) + image_mset e_addr (table_entries m)"
    using 2(1) [OF p1(2,3)] by blast
  have "mset c = mset ?u + mset ?c" by simp
  then have "image_mset e_addr (mset c) = image_mset e_addr (mset ?u) + image_mset e_addr (mset ?c)"
    by (simp only: image_mset_union)
  then have "mset (q_list (p_free p2)) + image_mset e_addr (table_entries (finished ((k, c) # m))) =
      mset (q_list (p_free p)) + image_mset e_addr (table_entries ((k, c) # m))"
    using p2(5) p1(5) by (cases "?c = []") (simp_all add: Let_def ac_simps del: mset_filter)
  then show ?case using p1 p2 by (intro exI [of _ p2]) (simp add: Let_def)
qed

lemma img_finished:
  "img_lmt (finished m) =
     filter (\<lambda>(k, c). c \<noteq> []) (map (\<lambda>(k, c). (k, filter (\<lambda>(_, _, st). st \<noteq> COPYING \<and> st \<noteq> RECOVERYING) c)) (img_lmt m))"
proof (induction m)
  case (Cons kc m)
  obtain k c where kc: "kc = (k, c)" by (rule prod.exhaust)
  have "filter (\<lambda>(_, _, st). st \<noteq> COPYING \<and> st \<noteq> RECOVERYING) (map img c) = map img (filter (\<lambda>e. \<not> unfinished e) c)"
    by (induction c) (simp_all add: img_def unfinished_def)
  then show ?case using Cons kc by (simp add: img_lmt_def Let_def)
qed (simp add: img_lmt_def)

lemma chain_errors_none:
  "distinct (map e_snap_seq c) \<Longrightarrow> distinct (map e_offset c) \<Longrightarrow> chain_errors c = 0"
  by (induction c rule: chain_errors.induct) auto

lemma finished_chain:
  assumes "(k, c) \<in> set (finished m)"
  shows "c \<noteq> [] \<and> (\<exists>c0. (k, c0) \<in> set m \<and> c = filter (\<lambda>e. \<not> unfinished e) c0)"
  using assms by (auto simp: finished_def)

lemma distinct_concat_part: "distinct (map f (concat xss)) \<Longrightarrow> xs \<in> set xss \<Longrightarrow> distinct (map f xs)"
  by (induction xss) auto

lemma post_load_check_ok:
  assumes inv: "store_inv s" and m: "obj_lmt s' = finished (obj_lmt s)"
  shows "post_load_check s' = Inr ()"
proof -
  have ch: "chains_ok (obj_lmt s)" using inv by (simp add: store_inv_def store_inv0_def tables_inv0_def)
  have "chain_errors c = 0 \<and> c \<noteq> []" if kc: "(k, c) \<in> set (finished (obj_lmt s))" for k c
  proof -
    obtain c0 where c0: "(k, c0) \<in> set (obj_lmt s)" "c = filter (\<lambda>e. \<not> unfinished e) c0" "c \<noteq> []"
      using finished_chain [OF kc] by blast
    have "c0 \<in> snd ` set (obj_lmt s)" using image_eqI [OF _ c0(1), of c0 snd] by simp
    then have in_c: "c0 \<in> set (map snd (obj_lmt s))" by simp
    have "desc_chain c0" using ch in_c unfolding chains_ok_def list_all_iff by blast
    then have d1: "distinct (map e_snap_seq c0)" by (rule desc_chain_distinct)
    have "distinct (map (\<lambda>e. offset_to_obj_id (head s) (e_offset e)) c0)"
      using distinct_concat_part [OF _ in_c] table_ids(1) [OF inv] by (simp add: table_list_def)
    then have "distinct (map (offset_to_obj_id (head s)) (map e_offset c0))" by (simp add: comp_def)
    then have d2: "distinct (map e_offset c0)" by (simp only: distinct_map)
    show ?thesis using chain_errors_none d1 d2 c0(2,3) by (simp add: distinct_map_filter)
  qed
  then have "\<forall>x \<in> set (finished (obj_lmt s)). chain_errors (snd x) = 0 \<and> snd x \<noteq> []" by auto
  then show ?thesis unfolding post_load_check_def m
    by (simp add: list_ex_iff case_prod_beta sum_list_eq_0_iff)
qed

lemma size_finished: "size (table_entries (finished m)) \<le> size (table_entries m)"
proof (induction m)
  case (Cons kc m)
  obtain k c where kc: "kc = (k, c)" by (rule prod.exhaust)
  have "length (filter (\<lambda>e. \<not> unfinished e) c) \<le> length c" by (rule length_filter_le)
  then show ?case using Cons kc by (auto simp: Let_def simp del: length_filter_le mset_filter)
qed simp

lemma finished_fits:
  assumes inv: "store_inv s" and small: "obj_count (head s) \<le> 2 ^ 24"
    and s': "obj_lmt s' = finished (obj_lmt s)" "free_obj_queue s' = free_obj_queue s" "trim_obj_queue s' = trim_obj_queue s"
  shows "fits_zone s'"
proof -
  have t: "tables_inv0 (head s) (obj_lmt s) (free_obj_queue s) (trim_obj_queue s) (lmt_entry_pool s)"
    using inv by (simp add: store_inv_def store_inv0_def)
  have "no_empty_chain (finished (obj_lmt s))" by (auto simp: no_empty_chain_def finished_def list_all_iff)
  then have "cbytes (table_cells (finished (obj_lmt s))) \<le> 80 * size (table_entries (finished (obj_lmt s)))"
    by (rule cbytes_table)
  moreover have "size (table_entries (finished (obj_lmt s))) \<le> 2 ^ 24"
    using tables_sizes(1) [OF t] small size_finished [of "obj_lmt s"] by simp
  ultimately show ?thesis using store_inv_fits [OF inv small] s' by (simp add: fits_zone_def)
qed

lemma post_load_fix_ok:
  assumes inv: "store_inv s"
  obtains p where "post_load_fix s = Inr (s\<lparr>obj_lmt := finished (obj_lmt s), lmt_entry_pool := p\<rparr>)"
    and "finished (obj_lmt s) = obj_lmt s \<longrightarrow> store_inv (s\<lparr>obj_lmt := finished (obj_lmt s), lmt_entry_pool := p\<rparr>)"
proof -
  let ?p = "lmt_entry_pool s"
  have t: "tables_inv0 (head s) (obj_lmt s) (free_obj_queue s) (trim_obj_queue s) ?p"
    using inv by (simp add: store_inv_def store_inv0_def)
  have q: "q_inv (p_free ?p)" "q_cap (p_free ?p) = p_slots ?p" using t by (simp_all add: tables_defs)
  have "size (table_entries (obj_lmt s)) + length (q_list (p_free ?p)) \<le> p_slots ?p"
    using tables_sizes(2) [OF t] by simp
  then obtain p where p: "fix_lmt (obj_lmt s) ?p = Inr (finished (obj_lmt s), p)" "q_inv (p_free p)"
      "q_cap (p_free p) = p_slots p" "p_slots p = p_slots ?p"
      "mset (q_list (p_free p)) + image_mset e_addr (table_entries (finished (obj_lmt s))) =
        mset (q_list (p_free ?p)) + image_mset e_addr (table_entries (obj_lmt s))"
    using fix_lmt_ok [OF q] by blast
  let ?s = "s\<lparr>obj_lmt := finished (obj_lmt s), lmt_entry_pool := p\<rparr>"
  have "store_inv ?s" if f: "finished (obj_lmt s) = obj_lmt s"
  proof -
    have "mset (q_list (p_free p)) = mset (q_list (p_free ?p))" using p(5) f by simp
    then have "tables_inv0 (head s) (obj_lmt s) (free_obj_queue s) (trim_obj_queue s) p"
      using t p(2-4) by (simp add: tables_defs)
    then show ?thesis using inv f by (simp add: store_inv_def store_inv0_def)
  qed
  then show ?thesis using that [of p] p(1) by (simp add: post_load_fix_def)
qed

section \<open>The end of a start\<close>

lemma pool_init_fresh:
  assumes "0 \<le> c"
  obtains p' where "pool_init 0 True True c p = (0, p')" and "pool_fresh p'" and "p_slots p' = nat c"
proof -
  obtain rc p' where p': "pool_init 0 True True c p = (rc, p')" by (rule prod.exhaust)
  have i: "rc = 0" "pool_inv p'" "pool_avail p' = {..<nat c}" "p_slots p' = nat c"
    using pool_init_success [OF assms p'] by simp_all
  have "mset (q_list (p_free p')) = mset [0..<nat c]"
    using i(2,3) by (intro set_eq_iff_mset_eq_distinct [THEN iffD1])
      (simp_all add: pool_inv_def pool_avail_def atLeast0LessThan)
  then show ?thesis using that [of p'] p' i by (simp add: pool_fresh_def pool_inv_def)
qed

lemma compact_tool_init_ok:
  assumes ok: "no_err s" and n: "0 \<le> q_depth (free_obj_queue s)"
  shows "\<exists>t n. compact_tool_init mem s = (0, Some t, s\<lparr>dev := (dev s)\<lparr>d_cnt := n\<rparr>\<rparr>) \<and> obj_lmt t = [] \<and>
    pool_fresh (lmt_entry_pool t) \<and> p_slots (lmt_entry_pool t) = nat (q_depth (free_obj_queue s) * 2)"
proof -
  obtain p where p: "pool_init 0 True True (q_depth (free_obj_queue s) * 2) (lmt_entry_pool mem) = (0, p)" "pool_fresh p"
      "p_slots p = nat (q_depth (free_obj_queue s) * 2)"
    using pool_init_fresh [of "q_depth (free_obj_queue s) * 2" "lmt_entry_pool mem"] n by auto
  have "compact_tool_init mem s =
      (0, Some (mem\<lparr>obj_lmt := [], dev := (dev s)\<lparr>d_cnt := d_cnt (dev s) + 4\<rparr>, log_size := redolog_size (head mem),
         lmt_entry_pool := p, head := head s, use_scc := use_scc s\<rparr>), s\<lparr>dev := (dev s)\<lparr>d_cnt := d_cnt (dev s) + 4\<rparr>\<rparr>)"
    using ok p(1) by (simp add: compact_tool_init_def redolog_init_def ext_call_def no_err_def Let_def)
  then show ?thesis using p(2,3) by auto
qed

text \<open>The store at the end of \<open>init\<close>, when the metadata service works on \<open>s\<close>.\<close>

definition started :: "nat \<Rightarrow> flash_store \<Rightarrow> flash_store" where
  "started n s =
     (act Start_trim_thread ((act Start_compaction_thread (s\<lparr>dev := (dev s)\<lparr>d_cnt := n\<rparr>\<rparr>))\<lparr>in_obj_offset_mask := objsize (head s) - 1\<rparr>))
       \<lparr>to_run_compact := COMPACT_IDLE, compact_lmt_exist := False\<rparr>"

lemma started_fields [simp]:
  "head (started n s) = head s" "obj_lmt (started n s) = obj_lmt s" "free_obj_queue (started n s) = free_obj_queue s"
  "trim_obj_queue (started n s) = trim_obj_queue s" "lmt_entry_pool (started n s) = lmt_entry_pool s"
  "dev (started n s) = (dev s)\<lparr>d_cnt := n\<rparr>" "log_size (started n s) = log_size s" "log_phase (started n s) = log_phase s"
  "log_start (started n s) = log_start s" "log_current (started n s) = log_current s"
  "to_run_compact (started n s) = COMPACT_IDLE" "\<not> compact_lmt_exist (started n s)"
  by (simp_all add: started_def)

lemma store_init_tail:
  assumes ok0: "no_err s0" and h: "read_store_head (snd (ext_call s0)) = (rc, s1)" "rc = 0 \<or> rc = - EUCLEAN"
    and m: "(if rc \<noteq> 0 then Some (Inr (init_new_disk cf s1)) else load_disk s1) = Some (Inr (0, s7))"
    and ok: "no_err s7" and thr: "Start_trim_thread \<notin> set (acts s7)" and n: "0 \<le> q_depth (free_obj_queue s7)"
  shows "\<exists>t n. store_init cf mem s0 = Some (Inr (0, Some t, started n s7)) \<and> obj_lmt t = [] \<and>
    pool_fresh (lmt_entry_pool t) \<and> p_slots (lmt_entry_pool t) = nat (q_depth (free_obj_queue s7) * 2)"
proof -
  obtain t n where t: "compact_tool_init mem s7 = (0, Some t, s7\<lparr>dev := (dev s7)\<lparr>d_cnt := n\<rparr>\<rparr>)" "obj_lmt t = []"
      "pool_fresh (lmt_entry_pool t)" "p_slots (lmt_entry_pool t) = nat (q_depth (free_obj_queue s7) * 2)"
    using compact_tool_init_ok [OF ok n] by blast
  let ?x = "act Start_compaction_thread (s7\<lparr>dev := (dev s7)\<lparr>d_cnt := n\<rparr>\<rparr>)"
  have "start_metadata_service cf mem (rc \<noteq> 0) s1 = Some (Inr (0, Some t, ?x))"
    using m t(1) by (simp add: start_metadata_service_def)
  then have "store_init cf mem s0 = Some (Inr (0, Some t, started n s7))"
    using ok0 h thr by (auto simp: store_init_def case_prod_beta start_trimming_def started_def)
  then show ?thesis using t(2-4) by blast
qed

text \<open>
  A store is durable when it has just saved its tables and set the log to the current
  zone. No page of the log may be from the future.
\<close>

definition old_pages :: "int \<Rightarrow> device \<Rightarrow> bool" where
  "old_pages p d \<longleftrightarrow> (\<forall>i \<le> 2 * zone_pages. lp_phase (lpage d i) \<le> p)"

lemma old_pages_zones:
  assumes "old_pages p (dev s)" and "0 \<le> p" and "redolog_phase (head s) = p + 1" and "log_size s = REDO_LOG_SIZE"
  shows "zones_ok s [] []"
proof -
  have "lp_phase (lpage (dev s) i) < p + 1" if "i \<le> 2 * zone_pages" for i
  proof -
    have "lp_phase (lpage (dev s) i) \<le> p" using assms(1) that unfolding old_pages_def by blast
    then show ?thesis by simp
  qed
  moreover have "b + i \<le> 2 * zone_pages" if "b \<le> zone_pages" "i < zone_pages" for b i using that by simp
  ultimately show ?thesis using assms(2-4) page_bounds [of "head s"]
    by (simp add: zones_ok_def zone_holds_def Let_def)
qed

lemma start_durable:
  assumes inv: "store_inv s6" and sv: "saved_to z s6 s7" "z \<in> {0, 1}"
    and so: "no_err s6" "std_head (head s6)" "magic (head s6) = 0x3553424e" "version (head s6) = 0x00030000"
      "obj_count (head s6) \<le> 2 ^ 24"
    and lg: "old_pages (redolog_phase (head s6)) (dev s6)" "0 \<le> redolog_phase (head s6)" "log_size s6 = REDO_LOG_SIZE"
    and tool: "obj_lmt t = []" "pool_fresh (lmt_entry_pool t)" "nat (obj_count (head s6)) < p_slots (lmt_entry_pool t)"
  shows "durable (started n (set_log_phase (redolog_phase (head s7)) (redolog_position (head s7) CURRENT) s7)) (Some t)"
    (is "durable ?s _")
proof -
  note S = saved_toD [OF sv(1)]
  have hd: "head ?s = head s7" by (simp add: set_log_phase_def)
  have fh: "fixed_head (head ?s) = fixed_head (head s6)" using hd S(5) by simp
  have mv: "magic (head ?s) = 0x3553424e" "version (head ?s) = 0x00030000"
    using fixed_head_ids [OF fh] so(3,4) by simp_all
  have std: "std_head (head ?s)" using std_head_fixed [OF fh] so(2) by simp
  have cnt: "obj_count (head ?s) = obj_count (head s6)" using fixed_head_geometry(3) [OF fh] .
  have so': "sound ?s"
    using S(2,4,6) so(1,5) mv std cnt hd sv(2) by (simp add: sound_def) (simp add: no_err_def set_log_phase_def)
  have dl: "d_log (dev ?s) = d_log (dev s6)" using S(9) by (simp add: set_log_phase_def)
  have "old_pages (redolog_phase (head s6)) (dev ?s)" using lg(1) dl by (simp add: old_pages_def lpage_def)
  then have z: "zones_ok ?s [] []"
    using old_pages_zones lg(2,3) S(7,15) by (simp add: set_log_phase_def)
  have lo: "log_ok ?s [] []"
    using z redolog_positions(1) [OF std] hd unfolding log_ok_def Let_def by (simp add: set_log_phase_def)
  have tb: "tbl (s7\<lparr>in_obj_offset_mask := in_obj_offset_mask ?s\<rparr>) = tbl ?s" by (simp add: tbl_def set_log_phase_def started_def)
  have "store_inv s7" using store_inv_tbl [OF S(1)] inv by simp
  then have "store_inv (s7\<lparr>in_obj_offset_mask := in_obj_offset_mask ?s\<rparr>)" by (simp add: store_inv_def store_inv0_def)
  then have inv': "store_inv ?s" using store_inv_tbl [OF tb] by simp
  have "pview ?s = pview s6" using pview_tbl [OF S(1)] by (simp add: pview_def set_log_phase_def)
  then have rs: "rsteps s6 [] ?s" using fh inv' by (intro rsteps_silent) simp_all
  have md: "md_saved (d_meta (dev ?s)) (current_metadata (head ?s)) s6" using S(3,6) by (simp add: set_log_phase_def)
  have to: "tool_ok s6 ?s (Some t)" using tool cnt by (simp add: tool_ok_def)
  show ?thesis unfolding durable_at_def
    by (intro conjI exI [of _ s6] exI [of _ ?s] exI [of _ "[]"]) (use so' md inv fh rs lo to in simp_all)
qed

section \<open>Loading the disk\<close>

text \<open>
  What a crash can leave of the disk of the store \<open>s\<close>, between two steps or while the
  compaction thread writes: the blocks of the metadata zone that is not in use may hold
  anything.
\<close>

definition crash_image :: "flash_store \<Rightarrow> device \<Rightarrow> bool" where
  "crash_image s d \<longleftrightarrow> d_head d = d_head (dev s) \<and> d_log d = d_log (dev s) \<and> d_err d = d_err (dev s) \<and>
     (\<forall>x. x \<notin> zone_blocks (oppsite_md_zone (head s)) \<longrightarrow> d_meta d x = d_meta (dev s) x)"

lemma zones_apart:
  assumes "x \<in> zone_blocks (current_metadata h)" and "current_metadata h \<in> {0, 1}"
  shows "x \<notin> zone_blocks (oppsite_md_zone h)"
  using assms by (auto simp: zone_blocks_def zone_base_def oppsite_md_zone_def)

definition settled :: "lmt_table \<Rightarrow> bool" where
  "settled m \<longleftrightarrow> list_all (\<lambda>(k, c). list_all (\<lambda>e. \<not> unfinished e) c) m"

lemma finished_settled: "settled m \<Longrightarrow> no_empty_chain m \<Longrightarrow> finished m = m"
proof (induction m)
  case (Cons kc m)
  obtain k c where kc: "kc = (k, c)" by (rule prod.exhaust)
  then show ?case using Cons
    by (simp add: settled_def no_empty_chain_def Let_def list.pred_set filter_True)
qed simp

lemma settled_img:
  "settled m = list_all (\<lambda>(k, c). list_all (\<lambda>(_, _, st). st \<noteq> COPYING \<and> st \<noteq> RECOVERYING) c) (img_lmt m)"
  by (simp add: settled_def img_lmt_def list.pred_map comp_def case_prod_beta)
    (simp add: img_def unfinished_def case_prod_unfold)

lemma zones_old_pages:
  assumes "zones_ok s its1 its2"
  shows "old_pages (redolog_phase (head s) + 1) (dev s)"
  unfolding old_pages_def
proof (intro allI impI)
  let ?p = "redolog_phase (head s)"
  note Z = zones_okD [OF assms]
  fix i
  assume i: "i \<le> 2 * zone_pages"
  consider "i = 2 * zone_pages" | j where "j < zone_pages" "i = cur_page (head s) + j" | j where "j < zone_pages" "i = opp_page (head s) + j"
  proof (cases "i < zone_pages")
    case True
    then show ?thesis using that(2,3) [of i] by (cases "current_redolog (head s) = FIRST_REDOLOG_ZONE") (simp_all add: cur_page_def opp_page_def)
  next
    case False
    then have "i = 2 * zone_pages \<or> i - zone_pages < zone_pages \<and> i = zone_pages + (i - zone_pages)" using i by auto
    then show ?thesis using that(1) that(2,3) [of "i - zone_pages"]
      by (cases "current_redolog (head s) = FIRST_REDOLOG_ZONE") (auto simp: cur_page_def opp_page_def)
  qed
  then show "lp_phase (lpage (dev s) i) \<le> ?p + 1"
  proof cases
    case 1
    then show ?thesis using Z(5) by simp
  next
    case (2 j)
    then show ?thesis using zone_phases [OF Z(3), of j] by auto
  next
    case (3 j)
    then show ?thesis using zone_phases [OF Z(4), of j] by auto
  qed
qed

text \<open>What a start on the disk of \<open>s\<close> finds: the metadata and the log give the tables of \<open>v\<close>.\<close>

definition restartable :: "flash_store \<Rightarrow> flash_store \<Rightarrow> bool" where
  "restartable v s \<longleftrightarrow>
     sound s \<and>
     (\<exists>base mid its1 its2.
        md_saved (d_meta (dev s)) (current_metadata (head s)) base \<and> store_inv base \<and>
        fixed_head (head base) = fixed_head (head s) \<and> rsteps base its1 mid \<and> rsteps mid its2 v \<and>
        log_reads (dev s) (cur_page (head s)) (redolog_phase (head s)) its1 \<and>
        log_reads (dev s) (opp_page (head s)) (redolog_phase (head s) + 1) its2)"

lemma durable_restartable:
  assumes "durable_at v s t"
  shows "restartable v s" "0 < redolog_phase (head s)" "old_pages (redolog_phase (head s) + 1) (dev s)"
proof -
  obtain base mid its1 its2 where
    D: "md_saved (d_meta (dev s)) (current_metadata (head s)) base" "store_inv base"
      "fixed_head (head base) = fixed_head (head s)" "rsteps base its1 mid" "rsteps mid its2 v"
    and lo: "log_ok s its1 its2"
    using assms by (auto simp: durable_at_def)
  have z: "zones_ok s its1 its2" and n2: "length its2 < zone_pages"
    using lo by (auto simp: log_ok_def Let_def split: if_splits)
  show "restartable v s" unfolding restartable_def
    by (intro conjI exI [of _ base] exI [of _ mid] exI [of _ its1] exI [of _ its2])
      (use assms D zones_read_current [OF z] zones_read_opposite [OF z n2] in \<open>simp_all add: durable_at_def\<close>)
  show "0 < redolog_phase (head s)" "old_pages (redolog_phase (head s) + 1) (dev s)"
    using zones_okD(1) [OF z] zones_old_pages [OF z] by simp_all
qed

text \<open>\<open>s6\<close> is the store that is saved at the end of loading.\<close>

lemma load_disk_ok:
  assumes d: "restartable v s" and im: "crash_image s (dev s1)" and h: "head s1 = head s" and e: "obj_lmt s1 = []"
  obtains s6 s7 where
    "load_disk s1 = Some (Inr (0, set_log_phase (redolog_phase (head s7)) (redolog_position (head s7) CURRENT) s7))"
    and "saved_to (oppsite_md_zone (head s)) s6 s7" and "no_err s6" and "acts s6 = acts s1"
    and "fixed_head (head s6) = fixed_head (head s)"
    and "img_lmt (obj_lmt s6) = img_lmt (finished (obj_lmt v))" and "free_obj_queue s6 = free_obj_queue v"
    and "trim_obj_queue s6 = trim_obj_queue v" and "settled (obj_lmt v) \<Longrightarrow> store_inv s6"
    and "redolog_phase (head s6) = redolog_phase (head s) + 1" and "d_log (dev s6) = d_log (dev s)" and "log_size s6 = REDO_LOG_SIZE"
proof -
  have so: "sound s" using d by (simp add: restartable_def)
  then have ok: "no_err s" and std: "std_head (head s)" and cnt: "obj_count (head s) \<le> 2 ^ 24"
    and cz: "current_metadata (head s) \<in> {0, 1}" by (simp_all add: sound_def)
  obtain base mid its1 its2 where
    D: "md_saved (d_meta (dev s)) (current_metadata (head s)) base" "store_inv base"
      "fixed_head (head base) = fixed_head (head s)" "rsteps base its1 mid" "rsteps mid its2 v"
      "log_reads (dev s) (cur_page (head s)) (redolog_phase (head s)) its1"
      "log_reads (dev s) (opp_page (head s)) (redolog_phase (head s) + 1) its2"
    using d by (auto simp: restartable_def)
  let ?p = "redolog_phase (head s)"
  have ok1: "no_err s1" and l1: "d_log (dev s1) = d_log (dev s)" using im ok by (simp_all add: crash_image_def no_err_def)
  have "obj_count (head base) \<le> 2 ^ 24" using fixed_head_geometry(3) [OF D(3)] cnt by simp
  then have fb: "fits_zone base" by (rule store_inv_fits [OF D(2)])
  have "d_meta (dev s1) x = d_meta (dev s) x" if "x \<in> zone_blocks (current_metadata (head s))" for x
    using zones_apart [OF that cz] im by (simp add: crash_image_def)
  then have md: "md_saved (d_meta (dev s1)) (current_metadata (head s)) base" by (rule md_saved_frame [OF D(1) fb])
  have std1: "std_head (head s1)" and fh1: "fixed_head (head s1) = fixed_head (head base)" using h std D(3) by simp_all
  obtain r1 c1 where 1: "load_meta_data (current_metadata (head s)) False s1 = Inr (0, r1)" "sim base r1" "head r1 = head s1"
      "acts r1 = acts s1" "dev r1 = (dev s1)\<lparr>d_cnt := c1\<rparr>"
    by (rule load_meta_data_ok [OF ok1 std1 e md D(2) fh1, where cmp = False]) simp
  let ?r2 = "r1\<lparr>log_size := REDO_LOG_SIZE, dev := (dev r1)\<lparr>d_cnt := d_cnt (dev r1) + 1\<rparr>\<rparr>"
  have 2: "redolog_init r1 = (0, ?r2)"
    using ok1 1(3,5) std1 by (simp add: redolog_init_def ext_call_def no_err_def std_head_def)
  have "tbl ?r2 = tbl r1" by (simp add: tbl_def)
  then have s2: "sim base ?r2" using sim_tbl 1(2) by blast
  have ok2: "no_err ?r2" and h2: "head ?r2 = head s" and l2: "d_log (dev ?r2) = d_log (dev s)"
    using ok1 1(3,5) h l1 by (simp_all add: no_err_def)
  obtain r3 c3 where 3: "replay ?p CURRENT ?r2 = Some (Inr (0, r3))" "sim mid r3" "head r3 = head ?r2"
      "acts r3 = acts ?r2" "dev r3 = (dev ?r2)\<lparr>d_cnt := c3\<rparr>" "log_size r3 = log_size ?r2"
    by (rule replay_ok [OF _ s2 D(4) ok2, where b = "cur_page (head s)" and p = ?p and which = CURRENT])
      (use D(6) log_reads_cong [OF l2] redolog_positions(1) [OF std] h2 in simp_all)
  let ?h4 = "(head r3)\<lparr>redolog_phase := redolog_phase (head r3) + 1\<rparr>"
  let ?r4 = "r3\<lparr>head := ?h4\<rparr>"
  have h3: "head r3 = head s" using 3(3) h2 by simp
  have fh4: "fixed_head ?h4 = fixed_head (head s)" using h3 by (simp add: fixed_head_def)
  have "tbl ?r4 = tbl r3" using h3 by (simp add: tbl_def fixed_head_def)
  then have s4: "sim mid ?r4" using sim_tbl 3(2) by blast
  have ok4: "no_err ?r4" using ok2 3(5) by (simp add: no_err_def)
  have std4: "std_head (head ?r4)" using std_head_fixed [OF fh4] std by simp
  have c4: "current_redolog (head ?r4) = current_redolog (head s)" and l4: "d_log (dev ?r4) = d_log (dev s)"
    using h3 3(5) l2 by simp_all
  obtain r5 c5 where 5: "replay (?p + 1) OPPOSITE ?r4 = Some (Inr (0, r5))" "sim v r5" "head r5 = head ?r4"
      "acts r5 = acts ?r4" "dev r5 = (dev ?r4)\<lparr>d_cnt := c5\<rparr>" "log_size r5 = log_size ?r4"
    by (rule replay_ok [OF _ s4 D(5) ok4, where b = "opp_page (head s)" and p = "?p + 1" and which = OPPOSITE])
      (use D(7) log_reads_cong [OF l4] redolog_positions(2) [OF std4] c4 in \<open>simp_all add: opp_page_def\<close>)
  have inv5: "store_inv r5" using 5(2) by (simp add: sim_def)
  obtain p where 6: "post_load_fix r5 = Inr (r5\<lparr>obj_lmt := finished (obj_lmt r5), lmt_entry_pool := p\<rparr>)"
      "finished (obj_lmt r5) = obj_lmt r5 \<longrightarrow> store_inv (r5\<lparr>obj_lmt := finished (obj_lmt r5), lmt_entry_pool := p\<rparr>)"
    using post_load_fix_ok [OF inv5] .
  let ?s6 = "r5\<lparr>obj_lmt := finished (obj_lmt r5), lmt_entry_pool := p\<rparr>"
  have ck: "post_load_check ?s6 = Inr ()" by (rule post_load_check_ok [OF inv5]) simp
  have h6: "head ?s6 = ?h4" using 5(3) by simp
  have fh6: "fixed_head (head ?s6) = fixed_head (head s)" using h6 fh4 by simp
  have ok6: "no_err ?s6" using 5(5) ok4 by (simp add: no_err_def)
  have std6: "std_head (head ?s6)" using std_head_fixed [OF fh6] std by simp
  have "obj_count (head r5) \<le> 2 ^ 24" using fixed_head_geometry(3) [OF fh6] cnt by simp
  then have fits6: "fits_zone ?s6" by (rule finished_fits [OF inv5]) simp_all
  have oz: "oppsite_md_zone (head ?s6) = oppsite_md_zone (head s)" using h6 h3 by (simp add: oppsite_md_zone_def)
  obtain s7 where 7: "save_meta_data (oppsite_md_zone (head s)) ?s6 = (0, s7)" "saved_to (oppsite_md_zone (head s)) ?s6 s7"
    using save_meta_data_ok [OF ok6 std6 fits6] .
  have ph: "redolog_phase (head ?r4) = ?p + 1" "redolog_phase (head ?r2) = ?p" using h3 h2 by simp_all
  have L: "load_disk s1 = Some (Inr (0, set_log_phase (redolog_phase (head s7)) (redolog_position (head s7) CURRENT) s7))"
    unfolding load_disk_def Let_def h 1(1) obnd_simps prod.case 2 ph(2) 3(1) ph(1) 5(1) 6(1) ck oz 7(1) by simp
  have "img_lmt (obj_lmt r5) = img_lmt (obj_lmt v)" using simD(1) [OF 5(2)] .
  then have im6: "img_lmt (obj_lmt ?s6) = img_lmt (finished (obj_lmt v))" and st: "settled (obj_lmt r5) = settled (obj_lmt v)"
    by (simp_all add: img_finished settled_img)
  have iv: "store_inv ?s6" if "settled (obj_lmt v)"
    using 6(2) finished_settled [of "obj_lmt r5"] that st inv5 by (simp add: store_inv_def)
  have ac: "acts ?s6 = acts s1" using 5(4) 3(4) 1(4) by simp
  have q6: "free_obj_queue ?s6 = free_obj_queue v" "trim_obj_queue ?s6 = trim_obj_queue v"
    using simD(2,3) [OF 5(2)] by simp_all
  have p6: "redolog_phase (head ?s6) = ?p + 1" using h6 h3 by simp
  have l6: "d_log (dev ?s6) = d_log (dev s)" using 5(5) l4 by simp
  have ls: "log_size ?s6 = REDO_LOG_SIZE" using 5(6) 3(6) by simp
  show ?thesis using that [OF L 7(2) ok6 ac fh6 im6 q6 iv p6 l6 ls] by simp
qed

section \<open>A new disk\<close>

text \<open>
  The metadata area is overwritten with the content of one buffer, so no page of an
  earlier log survives.
\<close>

lemma clean_chunks_log:
  assumes "no_err s"
    and "(\<exists>i \<in> set is. of_nat i * clean_buf_len \<le> x \<and> x - of_nat i * clean_buf_len < clean_buf_len) \<or>
      (\<exists>y. d_log (dev s) x = rb_log b y)"
  shows "\<exists>y. d_log (dev (snd (clean_chunks b is s))) x = rb_log b y"
  using assms
proof (induction "is" arbitrary: s)
  case (Cons i "is")
  let ?off = "of_nat i * clean_buf_len :: u64"
  let ?s = "(snd (ext_call s))\<lparr>dev := overwrite b ?off (dev (snd (ext_call s)))\<rparr>"
  have eq: "snd (clean_chunks b (i # is) s) = snd (clean_chunks b is ?s)"
    using Cons.prems(1) by (simp add: case_prod_beta)
  have l: "d_log (dev ?s) x = (if ?off \<le> x \<and> x - ?off < clean_buf_len then rb_log b (x - ?off) else d_log (dev s) x)"
    by (simp add: overwrite_def ext_call_def)
  have "no_err ?s" using Cons.prems(1) by (simp add: no_err_def overwrite_def ext_call_def)
  moreover have "(\<exists>i \<in> set is. of_nat i * clean_buf_len \<le> x \<and> x - of_nat i * clean_buf_len < clean_buf_len) \<or>
      (\<exists>y. d_log (dev ?s) x = rb_log b y)"
    unfolding l using Cons.prems(2) by auto
  ultimately show ?case unfolding eq by (rule Cons.IH)
qed simp

lemma chunk_of:
  fixes x :: u64
  assumes "unat x < n * 2 ^ 20"
  shows "\<exists>i \<in> set [0..<n]. of_nat i * clean_buf_len \<le> x \<and> x - of_nat i * clean_buf_len < clean_buf_len"
proof
  let ?i = "unat x div 2 ^ 20"
  have len: "unat clean_buf_len = 2 ^ 20" by (simp add: clean_buf_len_def)
  have "?i * 2 ^ 20 \<le> unat x" by simp
  moreover have "unat x < 2 ^ 64" using unsigned_less [of x] by simp
  ultimately have "?i * 2 ^ 20 < 2 ^ 64" by linarith
  then have u: "unat (of_nat ?i * clean_buf_len :: u64) = ?i * 2 ^ 20"
    by (simp add: clean_buf_len_def unat_word_ariths unat_of_nat)
  have le: "of_nat ?i * clean_buf_len \<le> x" using u by (simp add: word_le_nat_alt)
  have "unat (x - of_nat ?i * clean_buf_len) = unat x - ?i * 2 ^ 20" using unat_sub [OF le] u by simp
  also have "\<dots> = unat x mod 2 ^ 20" by (simp add: minus_div_mult_eq_mod)
  finally have "x - of_nat ?i * clean_buf_len < clean_buf_len" using len by (simp add: word_less_nat_alt)
  with le show "of_nat ?i * clean_buf_len \<le> x \<and> x - of_nat ?i * clean_buf_len < clean_buf_len" by simp
  show "?i \<in> set [0..<n]" using assms by (simp add: less_mult_imp_div_less)
qed

lemma clean_meta_area_pages:
  assumes ok: "no_err s" and sz: "MIN_META_RESERVE_SIZE \<le> sz" and b: "\<And>y. lp_phase (rb_log b y) \<le> 0"
  shows "old_pages 0 (dev (snd (clean_meta_area b sz s)))"
  unfolding old_pages_def
proof (intro allI impI)
  fix i
  assume i: "i \<le> 2 * zone_pages"
  let ?n = "(unat sz + unat clean_buf_len - 1) div unat clean_buf_len"
  have len: "unat clean_buf_len = 2 ^ 20" by (simp add: clean_buf_len_def)
  have "10 * 2 ^ 30 \<le> unat sz" using sz by (simp add: word_le_nat_alt MIN_META_RESERVE_SIZE_def)
  then have "10 * 2 ^ 10 \<le> ?n" unfolding len by (simp add: less_eq_div_iff_mult_less_eq)
  moreover have "unat (log_addr i) = 6 * 2 ^ 30 + 4096 * i" using i by (intro unat_log_addr) simp
  ultimately have "unat (log_addr i) < ?n * 2 ^ 20" using i by simp
  then have "\<exists>i' \<in> set [0..<?n]. of_nat i' * clean_buf_len \<le> log_addr i \<and> log_addr i - of_nat i' * clean_buf_len < clean_buf_len"
    by (rule chunk_of)
  then have "\<exists>y. d_log (dev (snd (clean_chunks b [0..<?n] (snd (ext_call s))))) (log_addr i) = rb_log b y"
    using ok by (intro clean_chunks_log disjI1) simp_all
  moreover have "snd (clean_meta_area b sz s) = snd (clean_chunks b [0..<?n] (snd (ext_call s)))"
    using ok by (simp add: clean_meta_area_def case_prod_beta)
  ultimately show "lp_phase (lpage (dev (snd (clean_meta_area b sz s))) i) \<le> 0"
    using b unfolding lpage_def by auto
qed

lemma store_inv_depth:
  assumes "store_inv s"
  shows "q_depth (free_obj_queue s) = obj_count (head s) + 1" "0 \<le> obj_count (head s)"
proof -
  have "q_inv (free_obj_queue s)" "q_cap (free_obj_queue s) = nat (obj_count (head s))" "0 \<le> obj_count (head s)"
    using assms by (simp_all add: store_inv_def store_inv0_def tables_defs geom_ok_def)
  then show "q_depth (free_obj_queue s) = obj_count (head s) + 1" "0 \<le> obj_count (head s)" using depth_of_cap by simp_all
qed

lemma initialize_store_head_ok:
  assumes "no_err s"
  shows "std_head (head (snd (initialize_store_head u c n s)))"
    "magic (head (snd (initialize_store_head u c n s))) = 0x3553424e"
    "version (head (snd (initialize_store_head u c n s))) = 0x00030000"
    "redolog_phase (head (snd (initialize_store_head u c n s))) = 0"
    "current_metadata (head (snd (initialize_store_head u c n s))) = 0"
    "d_log (dev (snd (initialize_store_head u c n s))) = d_log (dev s)"
  using assms
  by (simp_all add: initialize_store_head_def Let_def case_prod_beta sync_write_head_def ext_call_def no_err_def std_head_def)

lemma new_obj_queues_log: "d_log (dev (snd (new_obj_queues s))) = d_log (dev s)"
  by (simp add: new_obj_queues_def Let_def case_prod_beta ext_call_def)

lemma init_entry_pool_log: "d_log (dev (snd (init_entry_pool s))) = d_log (dev s)"
  by (simp add: init_entry_pool_def case_prod_beta ext_call_def)

text \<open>
  A disk that can be brought into service: its calls succeed, it holds no store, the
  metadata area has at least the size that the daemon demands, at most \<open>2 ^ 24\<close> objects
  follow, and the cleaning buffer does not look like a page of a log.
\<close>

definition fresh_disk :: "disk_conf \<Rightarrow> flash_store \<Rightarrow> bool" where
  "fresh_disk cf s \<longleftrightarrow>
     no_err s \<and> d_head (dev s) = None \<and> obj_lmt s = [] \<and> Start_trim_thread \<notin> set (acts s) \<and>
     MIN_META_RESERVE_SIZE \<le> dc_meta_size cf \<and> dc_meta_size cf \<le> d_cap (dev s) \<and>
     d_cap (dev s) - dc_meta_size cf \<le> 2 ^ 50 \<and> (\<forall>y. lp_phase (rb_log (dc_buf cf) y) \<le> 0)"

lemma fresh_disk_fits: "fresh_disk cf s \<Longrightarrow> disk_fits cf s"
  by (simp add: fresh_disk_def disk_fits_def word_le_nat_alt word_less_nat_alt)

lemma init_new_disk_ok:
  assumes ok: "no_err s" and new: "d_head (dev s) = None" and empty: "obj_lmt s = []" and fits: "disk_fits cf s"
    and small: "d_cap (dev s) - dc_meta_size cf \<le> 2 ^ 50" and sz: "MIN_META_RESERVE_SIZE \<le> dc_meta_size cf"
    and buf: "\<forall>y. lp_phase (rb_log (dc_buf cf) y) \<le> 0"
  obtains s5 s6 where
    "init_new_disk cf s = (0, set_log_phase (redolog_phase (head s6)) (redolog_position (head s6) CURRENT) s6)"
    and "saved_to 0 s5 s6" and "store_inv s5" and "no_err s5" and "std_head (head s5)" and "acts s5 = acts s"
    and "magic (head s5) = 0x3553424e" and "version (head s5) = 0x00030000" and "obj_count (head s5) \<le> 2 ^ 24"
    and "old_pages 0 (dev s5)" and "redolog_phase (head s5) = 0" and "log_size s5 = REDO_LOG_SIZE" and "obj_lmt s5 = []"
    and "q_list (trim_obj_queue s5) = []"
proof -
  let ?a = "snd (is_disk_clean s)"
  have a: "fst (is_disk_clean s)" "no_err ?a" "acts ?a = acts s"
    using ok new by (simp_all add: is_disk_clean_def case_prod_beta)
  let ?b = "clean_meta_area (dc_buf cf) (dc_meta_size cf) ?a"
  have b: "fst ?b = 0" "no_err (snd ?b)" "acts (snd ?b) = acts s"
    using a no_err_clean_chunks [of "snd (ext_call ?a)"] by (simp_all add: clean_meta_area_def case_prod_beta)
  have op: "old_pages 0 (dev (snd ?b))" by (rule clean_meta_area_pages [OF a(2) sz]) (use buf in simp)
  let ?c = "initialize_store_head (dc_uuid cf) (dc_time cf) (dc_meta_size cf) (snd ?b)"
  have c: "fst ?c = 0" "no_err (snd ?c)" "acts (snd ?c) = acts s"
    using no_err_initialize_store_head [OF b(2), of "dc_uuid cf" "dc_time cf" "dc_meta_size cf"] b by simp_all
  note H = initialize_store_head_ok [OF b(2), of "dc_uuid cf" "dc_time cf" "dc_meta_size cf"]
  let ?d = "new_obj_queues (snd ?c)"
  have d: "fst ?d = 0" "no_err (snd ?d)" "acts (snd ?d) = acts s" using no_err_new_obj_queues [OF c(2)] c by simp_all
  let ?e = "init_entry_pool (snd ?d)"
  have e: "fst ?e = 0" "no_err (snd ?e)" "acts (snd ?e) = acts s" using no_err_init_entry_pool [OF d(2)] d by simp_all
  let ?f = "redolog_init (snd ?e)"
  have hd0: "head (snd ?d) = head (snd ?c)" by (simp add: new_obj_queues_def Let_def case_prod_beta)
  then have hd1: "head (snd ?e) = head (snd ?c)" by simp
  have f: "fst ?f = 0" "no_err (snd ?f)" "acts (snd ?f) = acts s" "head (snd ?f) = head (snd ?c)"
      "log_size (snd ?f) = REDO_LOG_SIZE" "d_log (dev (snd ?f)) = d_log (dev (snd ?e))"
    using e hd1 H(1) by (simp_all add: redolog_init_def case_prod_beta no_err_def ext_call_def std_head_def)
  let ?s5 = "snd ?f"
  let ?g = "save_meta_data 0 ?s5"
  have i: "init_new_disk cf s = (0, set_log_phase (redolog_phase (head (snd ?g))) (redolog_position (head (snd ?g)) CURRENT) (snd ?g))"
    using a(1) b(1) c(1) d(1) e(1) f(1,4) H(5) by (simp add: init_new_disk_def case_prod_beta)
  note N = init_new_disk_inv [OF i fits empty]
  have t: "tbl (set_log_phase (redolog_phase (head (snd ?g))) (redolog_position (head (snd ?g)) CURRENT) (snd ?g)) = tbl ?s5"
    using tbl_save_meta_data [of 0 ?s5] by (simp add: set_log_phase_def)
  have inv: "store_inv ?s5" using store_inv_tbl [OF t] N by simp
  have "uint (d_cap (dev s) - dc_meta_size cf) \<le> uint (2 ^ 50 :: u64)" using small unfolding word_le_def .
  then have "uint (d_cap (dev s) - dc_meta_size cf) div 2 ^ 26 \<le> 2 ^ 50 div 2 ^ 26" by (intro zdiv_mono1) simp_all
  then have cnt: "obj_count (head ?s5) \<le> 2 ^ 24"
    using N fixed_head_geometry(3) [OF tblD(5) [OF t]] by simp
  have std: "std_head (head ?s5)" using f(4) H(1) by simp
  obtain s6 where 6: "save_meta_data 0 ?s5 = (0, s6)" "saved_to 0 ?s5 s6"
    using save_meta_data_ok [OF f(2) std store_inv_fits [OF inv cnt]] .
  have "d_log (dev ?s5) = d_log (dev (snd ?b))"
    using f(6) init_entry_pool_log new_obj_queues_log H(6) by simp
  then have op5: "old_pages 0 (dev ?s5)" using op by (simp add: old_pages_def lpage_def)
  have em: "obj_lmt ?s5 = []" using N tblD(1) [OF t] by simp
  have "0 \<le> obj_count (head (snd ?c))" using store_inv_depth(2) [OF inv] f(4) by simp
  moreover have "?d = (0, snd ?d)" using d(1) by (simp add: prod_eq_iff)
  ultimately have "q_list (trim_obj_queue (snd ?d)) = []" using new_obj_queues_ok by blast
  then have tq: "q_list (trim_obj_queue ?s5) = []"
    by (simp add: redolog_init_def init_entry_pool_def case_prod_beta ext_call_def)
  have "snd ?g = s6" using 6(1) by simp
  from that [OF i [unfolded this] 6(2) inv f(2) std f(3) _ _ cnt op5 _ f(5) em tq] f(4) H show ?thesis by simp
qed

section \<open>Starting and restarting\<close>

lemma started_inv:
  assumes "store_inv s"
  shows "store_inv (started n s)"
  using assms by (simp add: store_inv_def store_inv0_def)

lemma new_disk_durable:
  assumes f: "fresh_disk cf s0"
  shows "\<exists>t s. store_init cf mem s0 = Some (Inr (0, Some t, s)) \<and> durable s (Some t) \<and> store_inv s \<and>
    to_run_compact s = COMPACT_IDLE \<and> log_current s = log_start s \<and> obj_lmt s = [] \<and> q_list (trim_obj_queue s) = []"
proof -
  have ok: "no_err s0" and new: "d_head (dev s0) = None" and thr: "Start_trim_thread \<notin> set (acts s0)"
    using f by (simp_all add: fresh_disk_def)
  let ?h = "read_store_head (snd (ext_call s0))"
  let ?s1 = "snd ?h"
  have h: "?h = (- EUCLEAN, ?s1)" using ok new
    by (simp add: prod_eq_iff) (simp add: read_store_head_def case_prod_beta)
  have 1: "no_err ?s1" "d_head (dev ?s1) = None" "acts ?s1 = acts s0" "obj_lmt ?s1 = []" "d_cap (dev ?s1) = d_cap (dev s0)"
    using ok new f by (simp_all add: read_store_head_def case_prod_beta no_err_def ext_call_def fresh_disk_def)
  have fits: "disk_fits cf ?s1" using fresh_disk_fits [OF f] 1(5) by (simp add: disk_fits_def)
  obtain s5 s6 where
    I: "init_new_disk cf ?s1 = (0, set_log_phase (redolog_phase (head s6)) (redolog_position (head s6) CURRENT) s6)"
      "saved_to 0 s5 s6" "store_inv s5" "no_err s5" "std_head (head s5)" "acts s5 = acts ?s1"
      "magic (head s5) = 0x3553424e" "version (head s5) = 0x00030000" "obj_count (head s5) \<le> 2 ^ 24"
      "old_pages 0 (dev s5)" "redolog_phase (head s5) = 0" "log_size s5 = REDO_LOG_SIZE" "obj_lmt s5 = []"
      "q_list (trim_obj_queue s5) = []"
    by (rule init_new_disk_ok [OF 1(1,2,4) fits]) (use f 1(5) in \<open>simp_all add: fresh_disk_def\<close>)
  let ?s7 = "set_log_phase (redolog_phase (head s6)) (redolog_position (head s6) CURRENT) s6"
  note S = saved_toD [OF I(2)] and D = store_inv_depth [OF I(3)]
  have t7: "tbl ?s7 = tbl s5" using S(1) by (simp add: set_log_phase_def)
  have ok7: "no_err ?s7" using S(2) I(4) by (simp add: set_log_phase_def no_err_def)
  have th7: "Start_trim_thread \<notin> set (acts ?s7)" using S(10) I(6) 1(3) thr by (simp add: set_log_phase_def)
  have q7: "0 \<le> q_depth (free_obj_queue ?s7)" using tblD(2) [OF t7] D by simp
  have m: "(if - EUCLEAN \<noteq> 0 then Some (Inr (init_new_disk cf ?s1)) else load_disk ?s1) = Some (Inr (0, ?s7))"
    using I(1) by simp
  obtain t n where t: "store_init cf mem s0 = Some (Inr (0, Some t, started n ?s7))" "obj_lmt t = []"
      "pool_fresh (lmt_entry_pool t)" "p_slots (lmt_entry_pool t) = nat (q_depth (free_obj_queue ?s7) * 2)"
    using store_init_tail [OF ok h disjI2 [OF refl] m ok7 th7 q7] by blast
  have "nat (obj_count (head s5)) < p_slots (lmt_entry_pool t)" using t(4) tblD(2) [OF t7] D by simp
  then have "durable (started n ?s7) (Some t)"
    by (intro start_durable [OF I(3,2) _ I(4,5,7,8,9)]) (use I t in simp_all)
  moreover have "store_inv (started n ?s7)" using store_inv_tbl [OF t7] I(3) started_inv by simp
  moreover have "obj_lmt (started n ?s7) = []" "q_list (trim_obj_queue (started n ?s7)) = []"
      "to_run_compact (started n ?s7) = COMPACT_IDLE" "log_current (started n ?s7) = log_start (started n ?s7)"
    using tblD(1,3) [OF t7] I(13,14) by (simp_all add: set_log_phase_def)
  ultimately show ?thesis using t(1) by blast
qed

lemma restart_ok:
  assumes d: "restartable v s" and im: "crash_image s (dev s0)" and e: "obj_lmt s0 = []"
    and thr: "Start_trim_thread \<notin> set (acts s0)" and inv: "store_inv v" "fixed_head (head v) = fixed_head (head s)"
  shows "\<exists>t' s'. store_init cf mem s0 = Some (Inr (0, Some t', s')) \<and>
    img_lmt (obj_lmt s') = img_lmt (finished (obj_lmt v)) \<and> free_obj_queue s' = free_obj_queue v \<and>
    trim_obj_queue s' = trim_obj_queue v \<and> fixed_head (head s') = fixed_head (head s) \<and>
    (settled (obj_lmt v) \<and> 0 < redolog_phase (head s) \<and> old_pages (redolog_phase (head s) + 1) (dev s) \<longrightarrow>
       durable s' (Some t') \<and> store_inv s')"
proof -
  have so: "sound s" using d by (simp add: restartable_def)
  have ok: "no_err s0" and dh: "d_head (dev s0) = Some (head s)" using so im by (simp_all add: sound_def crash_image_def no_err_def)
  let ?h = "read_store_head (snd (ext_call s0))"
  let ?s1 = "snd ?h"
  have h: "?h = (0, ?s1)" "head ?s1 = head s" "acts ?s1 = acts s0" "obj_lmt ?s1 = []" "crash_image s (dev ?s1)"
    using ok dh so e im by (simp_all add: read_store_head_def case_prod_beta ext_call_def no_err_def sound_def crash_image_def)
  obtain s6 s7' where
    L: "load_disk ?s1 = Some (Inr (0, set_log_phase (redolog_phase (head s7')) (redolog_position (head s7') CURRENT) s7'))"
      "saved_to (oppsite_md_zone (head s)) s6 s7'" "no_err s6" "acts s6 = acts ?s1" "fixed_head (head s6) = fixed_head (head s)"
      "img_lmt (obj_lmt s6) = img_lmt (finished (obj_lmt v))" "free_obj_queue s6 = free_obj_queue v"
      "trim_obj_queue s6 = trim_obj_queue v"
    and iv: "settled (obj_lmt v) \<longrightarrow> store_inv s6"
    and P: "redolog_phase (head s6) = redolog_phase (head s) + 1" "d_log (dev s6) = d_log (dev s)" "log_size s6 = REDO_LOG_SIZE"
    by (rule load_disk_ok [OF d h(5,2,4)]) blast
  let ?s7 = "set_log_phase (redolog_phase (head s7')) (redolog_position (head s7') CURRENT) s7'"
  note S = saved_toD [OF L(2)] and D = store_inv_depth [OF inv(1)]
  have t7: "tbl ?s7 = tbl s6" using S(1) by (simp add: set_log_phase_def)
  have ok7: "no_err ?s7" using S(2) L(3) by (simp add: set_log_phase_def no_err_def)
  have th7: "Start_trim_thread \<notin> set (acts ?s7)" using S(10) L(4) h(3) thr by (simp add: set_log_phase_def)
  have dep: "q_depth (free_obj_queue ?s7) = obj_count (head v) + 1" using tblD(2) [OF t7] L(7) D by simp
  then have q7: "0 \<le> q_depth (free_obj_queue ?s7)" using D(2) by simp
  have m: "(if 0 \<noteq> (0::int) then Some (Inr (init_new_disk cf ?s1)) else load_disk ?s1) = Some (Inr (0, ?s7))" using L(1) by simp
  obtain t' n where t: "store_init cf mem s0 = Some (Inr (0, Some t', started n ?s7))" "obj_lmt t' = []"
      "pool_fresh (lmt_entry_pool t')" "p_slots (lmt_entry_pool t') = nat (q_depth (free_obj_queue ?s7) * 2)"
    using store_init_tail [OF ok h(1) disjI1 [OF refl] m ok7 th7 q7] by blast
  have fh: "fixed_head (head s6) = fixed_head (head v)" using L(5) inv(2) by simp
  have p6: "nat (obj_count (head s6)) < p_slots (lmt_entry_pool t')" using t(4) dep fixed_head_geometry(3) [OF fh] D(2) by simp
  have "durable (started n ?s7) (Some t') \<and> store_inv (started n ?s7)"
    if st: "settled (obj_lmt v)" and p: "0 < redolog_phase (head s)" and o: "old_pages (redolog_phase (head s) + 1) (dev s)"
  proof
    have o6: "old_pages (redolog_phase (head s6)) (dev s6)" using o P(1,2) by (simp add: old_pages_def lpage_def)
    have i6: "store_inv s6" using iv st by simp
    show "store_inv (started n ?s7)" using store_inv_tbl [OF t7] i6 started_inv by simp
    show "durable (started n ?s7) (Some t')"
      by (rule start_durable [OF i6 L(2) _ L(3) _ _ _ _ o6 _ P(3) t(2,3) p6])
        (use so p P(1) std_head_fixed [OF L(5)] fixed_head_ids [OF L(5)] fixed_head_geometry(3) [OF L(5)] in
          \<open>simp_all add: sound_def oppsite_md_zone_def\<close>)
  qed
  then show ?thesis using t(1) L(5-8) tblD(1,2,3,5) [OF t7] by (intro exI [of _ t'] exI [of _ "started n ?s7"]) simp
qed

section \<open>Runs with crashes\<close>

text \<open>
  A run starts on a new disk. Its steps are those of the store and of the compaction
  thread; no step asks for a compaction while one is pending. At any time the process may
  end, also in the middle of a compaction, and a new one may start on what is left of the
  disk; a run goes on after this when no copy was under way.
\<close>

inductive store_run :: "disk_conf \<Rightarrow> flash_store \<Rightarrow> flash_store \<Rightarrow> machine \<Rightarrow> bool" for cf mem s0 where
  run_start: "store_init cf mem s0 = Some (Inr (0, t, s)) \<Longrightarrow> store_run cf mem s0 (s, t)"
| run_step: "store_run cf mem s0 (s, t) \<Longrightarrow> store_step (s, t) (s', t') \<Longrightarrow> calm s s' \<Longrightarrow> store_run cf mem s0 (s', t')"
| run_compact: "store_run cf mem s0 (s, Some t) \<Longrightarrow> compaction_work s t = Some (Inr (b, s', t')) \<Longrightarrow>
    store_run cf mem s0 (s', Some t')"
| run_restart: "store_run cf mem s0 (s, t) \<Longrightarrow> settled (obj_lmt s) \<Longrightarrow> crash_image s (dev s1) \<Longrightarrow> obj_lmt s1 = [] \<Longrightarrow>
    Start_trim_thread \<notin> set (acts s1) \<Longrightarrow> store_init cf1 mem1 s1 = Some (Inr (0, t', s')) \<Longrightarrow>
    store_run cf mem s0 (s', t')"

lemma store_run_durable:
  assumes "store_run cf mem s0 m" and f: "fresh_disk cf s0"
  shows "durable (fst m) (snd m) \<and> store_inv (fst m)"
  using assms(1)
proof (induction rule: store_run.induct)
  case (run_start t s)
  then show ?case using new_disk_durable [OF f, of mem] by auto
next
  case (run_step s t s' t')
  then show ?case using store_step_durable [OF run_step(2)] store_step_inv [OF run_step(2)] by simp
next
  case (run_compact s t b s' t')
  then show ?case using compaction_work_durable [OF _ _ run_compact(2)] compaction_work_inv [OF run_compact(2)] by simp
next
  case (run_restart s t s1 cf1 mem1 t' s')
  have d: "durable s t" "store_inv s" using run_restart.IH by simp_all
  show ?case
    using restart_ok [OF durable_restartable(1) [OF d(1)] run_restart(3-5) d(2) refl, of cf1 mem1]
      durable_restartable(2,3) [OF d(1)] run_restart(2,6) by auto
qed

section \<open>Properties\<close>

text \<open>
  (C1) Crash recovery. From a new disk, after any run of requests, trimming, copies on write,
  deletions, compactions and earlier restarts in which no compaction is asked for while
  one is pending, the process may end, also while the compaction thread writes the
  metadata zone that is not in use. A new start on that disk succeeds and has in memory
  exactly the table of the ended process, with the same keys, objects, snapshot numbers
  and statuses in the same order, but without the entries whose copy on write had not
  finished; and both object queues slot by slot.
\<close>

theorem restart_recovers:
  assumes "fresh_disk cf s0" and "store_run cf mem s0 (s, t)"
    and "crash_image s (dev s1)" and "obj_lmt s1 = []" and "Start_trim_thread \<notin> set (acts s1)"
  shows "\<exists>t' s'. store_init cf1 mem1 s1 = Some (Inr (0, t', s')) \<and>
    img_lmt (obj_lmt s') = img_lmt (finished (obj_lmt s)) \<and>
    free_obj_queue s' = free_obj_queue s \<and> trim_obj_queue s' = trim_obj_queue s"
proof -
  have d: "durable s t" "store_inv s" using store_run_durable [OF assms(2,1)] by simp_all
  show ?thesis using restart_ok [OF durable_restartable(1) [OF d(1)] assms(3-5) d(2) refl, of cf1 mem1] by blast
qed

text \<open>A run with one write, and a crash after it.\<close>

lemma blank_fresh: "fresh_disk sample_conf blank_store"
  using blank_store_ok
  by (simp add: fresh_disk_def sample_conf_def zero_buffer_def zero_log_page_def MIN_META_RESERVE_SIZE_def)
    (simp add: blank_store_def sample_device_def sample_store_def)

lemma crash_image_refl: "crash_image s (dev s)"
  by (simp add: crash_image_def)

lemma write_entry_idle_calm:
  assumes ok: "no_err s" and idle: "to_run_compact s = COMPACT_IDLE" and w: "write_entry it s = Inr (rc, s')"
  shows "calm s s' \<and> rc = 0 \<and> tbl s' = tbl s \<and>
    (log_current s + LBA_LENGTH < log_start s + log_size s \<longrightarrow> to_run_compact s' = COMPACT_IDLE)"
proof -
  have t: "meta_data_compaction_trigger COMPACT_TODO True (logged it s) = Inr (0, triggered (logged it s))"
    using idle by (intro trigger_eq) simp
  have "signals (logged it s) = signals s" "pending s = 0" using idle by (simp_all add: signals_def pending_def)
  moreover have "tbl (logged it s) = tbl s" by (simp add: logged_def put_log_page_def ext_call_def)
  ultimately show ?thesis using w idle unfolding write_entry_logged [OF ok] t
    by (auto simp: calm_def triggered_tbl split: if_splits)
qed

lemma first_write_calm:
  assumes inv: "store_inv s" and empty: "obj_lmt s = []" and idle: "to_run_compact s = COMPACT_IDLE"
    and ok: "no_err s" and room: "\<not> q_is_empty (free_obj_queue s)"
  shows "\<exists>rc s' e. process_event (EVT_IO_REQ sample_write) s = Inr (rc, s') \<and> calm s s' \<and>
    obj_lmt s' = [(io_key s sample_write, [e])] \<and> e_status e = NORMAL \<and> e_snap_seq e = 1 \<and>
    fixed_head (head s') = fixed_head (head s) \<and> trim_obj_queue s' = trim_obj_queue s \<and>
    (log_current s + LBA_LENGTH < log_start s + log_size s \<longrightarrow> to_run_compact s' = COMPACT_IDLE)"
proof -
  let ?io = "sample_write\<lparr>io_opcode := m_opcode (io_cmd sample_write)\<rparr>" and ?k = "io_key s sample_write"
  obtain e s1 where e: "new_entry (m_snap_seq (io_cmd sample_write)) NORMAL s = Inr (e, s1)"
    using new_entryE [OF _ room, of "m_snap_seq (io_cmd sample_write)" NORMAL ?k] inv by (metis store_inv_def)
  let ?s2 = "set_chain ?k [e] s1"
  obtain fq p where s1: "s1 = s\<lparr>free_obj_queue := fq, lmt_entry_pool := p\<rparr>" and es: "e_status e = NORMAL" "e_snap_seq e = m_snap_seq (io_cmd sample_write)"
    using new_entry_cases [OF e] by metis
  have 2: "no_err ?s2" "to_run_compact ?s2 = COMPACT_IDLE" "signals ?s2 = signals s" "pending ?s2 = pending s"
    "obj_lmt ?s2 = [(?k, [e])]" "head ?s2 = head s" "trim_obj_queue ?s2 = trim_obj_queue s"
    "log_current ?s2 = log_current s" "log_start ?s2 = log_start s" "log_size ?s2 = log_size s"
    using ok idle empty s1 by (simp_all add: no_err_def signals_def pending_def)
  let ?w = "write_entry (ALLOCATE_OBJ ?k e (q_head (free_obj_queue ?s2))) ?s2"
  obtain rc s3 where w: "?w = Inr (rc, s3)" using write_entry_idle [of ?s2] 2(2) by (cases ?w) auto
  have C: "calm ?s2 s3" "rc = 0" "tbl s3 = tbl ?s2"
    "log_current ?s2 + LBA_LENGTH < log_start ?s2 + log_size ?s2 \<longrightarrow> to_run_compact s3 = COMPACT_IDLE"
    using write_entry_idle_calm [OF 2(1,2) w] by blast+
  have "?k = io_key s ?io" by (simp add: io_key_def)
  then obtain a where a: "do_write sample_write s = Inr (0, act a s3)" "a \<noteq> Signal_compaction"
    using empty room e w C(2) by (auto simp: do_write_def Let_def write_new_def log_defs)
  have p: "process_event (EVT_IO_REQ sample_write) s = Inr (0, act a s3)"
  proof -
    have "m_opcode (io_cmd sample_write) = S5_OP_WRITE" by (simp add: sample_write_def)
    moreover have "S5_OP_WRITE \<noteq> S5_OP_READ" "S5_OP_WRITE \<noteq> S5_OP_RECOVERY_READ" by code_simp+
    ultimately show ?thesis using a(1) by (simp add: process_event_def Let_def)
  qed
  have "calm s (act a s3)" using C(1) 2(3,4) a(2) by (simp add: calm_def) (simp add: signals_def pending_def)
  moreover have "obj_lmt (act a s3) = [(?k, [e])]" "fixed_head (head (act a s3)) = fixed_head (head s)"
      "trim_obj_queue (act a s3) = trim_obj_queue s" using tblD [OF C(3)] 2(5-7) by simp_all
  moreover have "e_snap_seq e = 1" using es(2) by (simp add: sample_write_def)
  ultimately show ?thesis using p es(1) C(4) 2(8-10) by (intro exI [of _ 0] exI [of _ "act a s3"] exI [of _ e]) simp
qed

text \<open>The sample disk after its start and one write.\<close>

lemma sample_run:
  obtains s t e where "store_run sample_conf blank_store blank_store (s, t)" and "store_inv s"
    and "obj_lmt s = [(io_key s sample_write, [e])]" and "e_status e = NORMAL" and "e_snap_seq e = 1"
    and "to_run_compact s = COMPACT_IDLE" and "no_err s" and "length (q_list (free_obj_queue s)) = 3"
    and "objsize_order (head s) = DEFAULT_OBJ_SIZE_ORDER" and "objsize (head s) = DEFAULT_OBJ_SIZE"
proof -
  obtain t s where i: "store_init sample_conf blank_store blank_store = Some (Inr (0, t, s))"
    and s: "durable s t" "store_inv s" "obj_lmt s = []" "q_list (trim_obj_queue s) = []" "to_run_compact s = COMPACT_IDLE"
      "log_current s = log_start s"
    using new_disk_durable [OF blank_fresh] by blast
  have cnt: "obj_count (head s) = 4"
    using store_init_new_disk [OF i blank_store_ok(1-3)]
    by (simp add: blank_store_def sample_conf_def sample_device_def)
  have sizes: "size (table_entries (obj_lmt x)) + length (q_list (free_obj_queue x)) + length (q_list (trim_obj_queue x)) = nat (obj_count (head x))"
    if "store_inv x" for x
    using that tables_sizes(1) [of "head x" "obj_lmt x" "free_obj_queue x" "trim_obj_queue x" "lmt_entry_pool x"]
    by (simp add: store_inv_def store_inv0_def)
  have "length (q_list (free_obj_queue s)) = 4" using sizes [OF s(2)] s(3,4) cnt by simp
  then have "\<not> q_is_empty (free_obj_queue s)"
    using s(2) q_is_empty_iff [of "free_obj_queue s"] by (auto simp: store_inv_def store_inv0_def tables_defs)
  moreover have ok: "no_err s" using s(1) by (simp add: durable_at_def sound_def)
  ultimately obtain rc s2 e where w: "process_event (EVT_IO_REQ sample_write) s = Inr (rc, s2)" "calm s s2"
      "obj_lmt s2 = [(io_key s sample_write, [e])]" "e_status e = NORMAL" "e_snap_seq e = 1"
      "fixed_head (head s2) = fixed_head (head s)" "trim_obj_queue s2 = trim_obj_queue s"
      "log_current s + LBA_LENGTH < log_start s + log_size s \<longrightarrow> to_run_compact s2 = COMPACT_IDLE"
    using first_write_calm [OF s(2,3,5)] by blast
  have r: "store_run sample_conf blank_store blank_store (s2, t)"
    by (rule run_step [OF run_start [OF i] event [OF w(1)] w(2)])
  have d2: "durable s2 t" "store_inv s2" using store_run_durable [OF r blank_fresh] by simp_all
  obtain its1 where l: "zones_ok s its1 []" "log_start s = log_addr (cur_page (head s))"
    using s(1,5) by (auto simp: durable_at_def log_ok_def Let_def)
  have "\<not> log_start s + log_size s \<le> log_current s + LBA_LENGTH"
    using zone_full [of "cur_page (head s)" 1] page_bounds(1) [of "head s"] log_addr_next l(2) zones_okD(2) [OF l(1)] s(6) by simp
  then have id: "to_run_compact s2 = COMPACT_IDLE" using w(8) by (simp add: not_le)
  have k: "io_key s sample_write = io_key s2 sample_write" using fixed_head_fields(1) [OF w(6)] by (simp add: io_key_def)
  have "length (q_list (free_obj_queue s2)) = 3"
    using sizes [OF d2(2)] w(3,7) s(4) cnt fixed_head_geometry(3) [OF w(6)] by simp
  moreover have "no_err s2" using d2(1) by (simp add: durable_at_def sound_def)
  moreover have "objsize_order (head s2) = DEFAULT_OBJ_SIZE_ORDER" "objsize (head s2) = DEFAULT_OBJ_SIZE"
    using store_init_new_disk [OF i blank_store_ok(1-3)] fixed_head_fields [OF w(6)] by simp_all
  ultimately show ?thesis using that [OF r d2(2)] w(3-5) k id by simp
qed

theorem restart_recovers_witness:
  "\<exists>s t s' t'. store_run sample_conf blank_store blank_store (s, t) \<and> obj_lmt s \<noteq> [] \<and>
     store_init sample_conf blank_store (blank_store\<lparr>dev := dev s\<rparr>) = Some (Inr (0, t', s')) \<and>
     img_lmt (obj_lmt s') = img_lmt (finished (obj_lmt s))"
proof -
  obtain s t e where r: "store_run sample_conf blank_store blank_store (s, t)" and l: "obj_lmt s = [(io_key s sample_write, [e])]"
    using sample_run .
  let ?s1 = "blank_store\<lparr>dev := dev s\<rparr>"
  have c: "crash_image s (dev ?s1)" using crash_image_refl by simp
  have e: "obj_lmt ?s1 = []" "Start_trim_thread \<notin> set (acts ?s1)" using blank_store_ok(3,5) by simp_all
  have "obj_lmt s \<noteq> []" using l by simp
  then show ?thesis using r restart_recovers [OF blank_fresh r c e, of sample_conf blank_store] by blast
qed

section \<open>Records that a restart does not find\<close>

text \<open>The state after a failed compaction, when the next trigger saves the metadata itself.\<close>

definition compaction_failed :: "flash_store \<Rightarrow> bool" where
  "compaction_failed s \<longleftrightarrow> sound s \<and> store_inv s \<and> to_run_compact s = COMPACT_ERROR \<and>
     0 \<le> redolog_phase (head s) \<and> log_phase s = redolog_phase (head s) + 1 \<and> log_size s = REDO_LOG_SIZE \<and>
     old_pages (log_phase s) (dev s)"

lemma sync_save_ok:
  assumes c: "compaction_failed s"
  obtains s0 s2 where "s0 = s\<lparr>to_run_compact := COMPACT_TODO, head := (head s)\<lparr>redolog_phase := log_phase s\<rparr>\<rparr>"
    and "saved_to (oppsite_md_zone (head s)) s0 s2"
    and "meta_data_compaction_trigger COMPACT_TODO f s =
      Inr (0, (set_log_phase (redolog_phase (head s2)) (redolog_position (head s2) OPPOSITE) s2)\<lparr>to_run_compact := COMPACT_IDLE\<rparr>)"
proof -
  let ?s0 = "s\<lparr>to_run_compact := COMPACT_TODO, head := (head s)\<lparr>redolog_phase := log_phase s\<rparr>\<rparr>"
  have so: "no_err s" "std_head (head s)" "obj_count (head s) \<le> 2 ^ 24" and inv: "store_inv s" and e: "to_run_compact s = COMPACT_ERROR"
    using c by (simp_all add: compaction_failed_def sound_def)
  have fh: "fixed_head (head ?s0) = fixed_head (head s)" by (simp add: fixed_head_def)
  have "tbl ?s0 = tbl s" using fh by (simp add: tbl_def)
  then have "store_inv ?s0" using store_inv_tbl [of ?s0 s] inv by simp
  then have fits: "fits_zone ?s0" using store_inv_fits so(3) fixed_head_geometry(3) [OF fh] by simp
  have ok0: "no_err ?s0" and std0: "std_head (head ?s0)" using so std_head_fixed [OF fh] by (simp_all add: no_err_def)
  obtain s2 where s2: "save_meta_data (oppsite_md_zone (head s)) ?s0 = (0, s2)" "saved_to (oppsite_md_zone (head s)) ?s0 s2"
    using save_meta_data_ok [OF ok0 std0 fits] .
  have "meta_data_compaction_trigger COMPACT_TODO f s =
      Inr (0, (set_log_phase (redolog_phase (head s2)) (redolog_position (head s2) OPPOSITE) s2)\<lparr>to_run_compact := COMPACT_IDLE\<rparr>)"
    using e s2(1) by (simp add: meta_data_compaction_trigger_def Let_def)
  then show ?thesis using that s2(2) by blast
qed

lemma sync_save_restartable:
  assumes c: "compaction_failed s" and t: "meta_data_compaction_trigger COMPACT_TODO f s = Inr (rc, s1)"
    and w: "write_entry it s1 = Inr (rc1, s2)"
  shows "rc = 0 \<and> rc1 = 0 \<and> restartable s s2 \<and> fixed_head (head s2) = fixed_head (head s)"
proof -
  have so: "sound s" and inv: "store_inv s" and ph: "log_phase s = redolog_phase (head s) + 1" "log_size s = REDO_LOG_SIZE"
      "old_pages (log_phase s) (dev s)"
    using c unfolding compaction_failed_def by blast+
  obtain s0 s2' where s0: "s0 = s\<lparr>to_run_compact := COMPACT_TODO, head := (head s)\<lparr>redolog_phase := log_phase s\<rparr>\<rparr>"
    and sv: "saved_to (oppsite_md_zone (head s)) s0 s2'"
    and tr: "meta_data_compaction_trigger COMPACT_TODO f s =
      Inr (0, (set_log_phase (redolog_phase (head s2')) (redolog_position (head s2') OPPOSITE) s2')\<lparr>to_run_compact := COMPACT_IDLE\<rparr>)"
    using sync_save_ok [OF c] .
  note S = saved_toD [OF sv]
  let ?p = "redolog_phase (head s2')"
  have fh0: "fixed_head (head s0) = fixed_head (head s)" using s0 by (simp add: fixed_head_def)
  have fh: "fixed_head (head s2') = fixed_head (head s)" using S(5) fh0 by simp
  have std: "std_head (head s2')" using std_head_fixed [OF fh] so by (simp add: sound_def)
  let ?o = "opp_page (head s2')"
  have s1: "s1 = (set_log_phase ?p (log_addr ?o) s2')\<lparr>to_run_compact := COMPACT_IDLE\<rparr>" and rc: "rc = 0"
    using tr t redolog_positions(2) [OF std] by simp_all
  have p: "?p = log_phase s + 1" using S(7) s0 by simp
  have ok1: "no_err s1" using S(2) s0 s1 so by (simp add: no_err_def sound_def set_log_phase_def)
  have "\<not> log_start s1 + log_size s1 \<le> log_current s1 + LBA_LENGTH"
    using zone_full [of ?o 1] page_bounds(2) [of "head s2'"] log_addr_next [of ?o] s1 S(15) s0 ph(2) by (simp add: set_log_phase_def)
  then have s2: "s2 = logged it s1" and rc1: "rc1 = 0" using w unfolding write_entry_logged [OF ok1] by simp_all
  have hd: "head s2 = head s2'" using s1 s2 by (simp add: set_log_phase_def)
  have so2: "sound s2"
  proof (rule sound_fixed [OF so])
    show "no_err s2" using ok1 s2 by (simp add: no_err_def)
    show "fixed_head (head s2) = fixed_head (head s)" using hd fh by simp
    show "d_head (dev s2) = Some (head s2)" using S(4) s1 s2 hd by (simp add: set_log_phase_def)
    show "current_metadata (head s2) \<in> {0, 1}" using S(6) hd by (simp add: oppsite_md_zone_def)
  qed
  have dl: "d_log (dev s2) = (d_log (dev s))(log_addr ?o := \<lparr>lp_phase = ?p, lp_item = Some it\<rparr>)"
    using s1 s2 S(9) s0 by (simp add: set_log_phase_def)
  have pg: "lp_phase (lpage (dev s2) i) < ?p" if "i \<le> 2 * zone_pages" "i \<noteq> ?o" for i
  proof -
    have "log_addr i \<noteq> log_addr ?o" using that page_bounds(2) [of "head s2'"] log_addr_inj [of i ?o] by simp
    moreover have "lp_phase (lpage (dev s) i) \<le> log_phase s" using ph(3) that(1) unfolding old_pages_def by blast
    ultimately show ?thesis using dl p by (simp add: lpage_def)
  qed
  have "cur_page (head s2) \<noteq> ?o" "cur_page (head s2) \<le> 2 * zone_pages" using hd by (simp_all add: cur_page_def opp_page_def)
  then have r1: "log_reads (dev s2) (cur_page (head s2)) (redolog_phase (head s2)) []"
    using pg [of "cur_page (head s2)"] hd by (simp add: log_reads_def)
  have r2: "log_reads (dev s2) (opp_page (head s2)) (redolog_phase (head s2) + 1) []"
    using dl hd by (simp add: log_reads_def lpage_def)
  have tb: "tbl s0 = tbl s" using fh0 s0 by (simp add: tbl_def)
  have inv0: "store_inv s0" using store_inv_tbl [OF tb] inv by simp
  have rs: "rsteps s0 [] s" using pview_tbl [OF tb] fh0 inv by (intro rsteps_silent) simp_all
  have md: "md_saved (d_meta (dev s2)) (current_metadata (head s2)) s0" using S(3,6) hd s1 s2 by (simp add: set_log_phase_def)
  have "restartable s s2" unfolding restartable_def
    by (intro conjI exI [of _ s0] exI [of _ s] exI [of _ "[]"]) (use so2 md inv0 fh fh0 hd rs r1 r2 in simp_all)
  then show ?thesis using rc rc1 hd fh by simp
qed

text \<open>
  (C12) After a failed compaction the next trigger saves the metadata synchronously and sets
  the log to the opposite zone, but with the phase of the current one. A record that is
  then logged successfully is not found by a restart: the store comes up with the tables
  from before the record.
\<close>

theorem sync_save_record_lost:
  assumes "compaction_failed s" and "meta_data_compaction_trigger COMPACT_TODO f s = Inr (rc, s1)"
    and "write_entry it s1 = Inr (rc1, s2)"
    and "dev s3 = dev s2" and "obj_lmt s3 = []" and "Start_trim_thread \<notin> set (acts s3)"
  shows "rc = 0 \<and> rc1 = 0 \<and>
    (\<exists>t' s'. store_init cf mem s3 = Some (Inr (0, t', s')) \<and> img_lmt (obj_lmt s') = img_lmt (finished (obj_lmt s)) \<and>
      free_obj_queue s' = free_obj_queue s \<and> trim_obj_queue s' = trim_obj_queue s)"
proof -
  have r: "rc = 0" "rc1 = 0" "restartable s s2" "fixed_head (head s2) = fixed_head (head s)"
    using sync_save_restartable [OF assms(1-3)] by simp_all
  have im: "crash_image s2 (dev s3)" using crash_image_refl assms(4) by simp
  have inv: "store_inv s" using assms(1) by (simp add: compaction_failed_def)
  show ?thesis using r(1,2) restart_ok [OF r(3) im assms(5,6) inv r(4) [symmetric], of cf mem] by blast
qed

lemma sample_failed: "compaction_failed ((sample_store NORMAL)\<lparr>log_phase := 2, to_run_compact := COMPACT_ERROR\<rparr>)"
proof -
  let ?s = "(sample_store NORMAL)\<lparr>log_phase := 2, to_run_compact := COMPACT_ERROR\<rparr>"
  have "tbl ?s = tbl (sample_store NORMAL)" by simp
  moreover have "store_inv (sample_store NORMAL)" by (rule sample_store_inv) simp
  ultimately have "store_inv ?s" using store_inv_tbl by blast
  moreover have "sound ?s"
    using sample_std [of NORMAL] by (simp add: sound_def no_err_def) (simp add: sample_defs)
  moreover have "old_pages 2 (dev ?s)" by (simp add: old_pages_def lpage_def sample_defs zero_log_page_def)
  ultimately show ?thesis by (simp add: compaction_failed_def) (simp add: sample_defs REDO_LOG_SIZE_def)
qed

theorem sync_save_record_lost_witness:
  "\<exists>s1 s2 t' s'. meta_data_compaction_trigger COMPACT_TODO True
       ((sample_store NORMAL)\<lparr>log_phase := 2, to_run_compact := COMPACT_ERROR\<rparr>) = Inr (0, s1) \<and>
     write_entry (FREE_OBJ 1 1 0) s1 = Inr (0, s2) \<and>
     store_init sample_conf blank_store (blank_store\<lparr>dev := dev s2\<rparr>) = Some (Inr (0, t', s')) \<and>
     free_obj_queue s' = free_obj_queue (sample_store NORMAL)"
proof -
  let ?s = "(sample_store NORMAL)\<lparr>log_phase := 2, to_run_compact := COMPACT_ERROR\<rparr>"
  obtain s1 where t: "meta_data_compaction_trigger COMPACT_TODO True ?s = Inr (0, s1)" "to_run_compact s1 = COMPACT_IDLE"
  proof (rule sync_save_ok [OF sample_failed, of True])
    fix s0 s2
    assume "meta_data_compaction_trigger COMPACT_TODO True ?s =
      Inr (0, (set_log_phase (redolog_phase (head s2)) (redolog_position (head s2) OPPOSITE) s2)\<lparr>to_run_compact := COMPACT_IDLE\<rparr>)"
    from that [OF this] show thesis by simp
  qed
  obtain rc s2 where w: "write_entry (FREE_OBJ 1 1 0) s1 = Inr (rc, s2)"
    using write_entry_idle [of s1 "FREE_OBJ 1 1 0"] t(2) by (cases "write_entry (FREE_OBJ 1 1 0) s1") auto
  have e: "dev (blank_store\<lparr>dev := dev s2\<rparr>) = dev s2" "obj_lmt (blank_store\<lparr>dev := dev s2\<rparr>) = []"
      "Start_trim_thread \<notin> set (acts (blank_store\<lparr>dev := dev s2\<rparr>))"
    using blank_store_ok(3,5) by simp_all
  from sync_save_record_lost [OF sample_failed t(1) w e, of sample_conf blank_store] show ?thesis using t(1) w by auto
qed

text \<open>A log that has just been set to the start of the zone that is not in use.\<close>

definition just_triggered :: "flash_store \<Rightarrow> bool" where
  "just_triggered s \<longleftrightarrow> no_err s \<and> std_head (head s) \<and> to_run_compact s = COMPACT_TODO \<and> log_size s = REDO_LOG_SIZE \<and>
     log_phase s = redolog_phase (head s) + 1 \<and>
     log_start s = log_addr (opp_page (head s)) \<and> log_current s = log_addr (opp_page (head s))"

lemma durable_just_triggered:
  assumes d: "durable s t" and "to_run_compact s = COMPACT_TODO" and "log_current s = log_start s"
  shows "just_triggered s"
proof -
  obtain its1 its2 where "log_ok s its1 its2" using d by (auto simp: durable_at_def)
  then have "log_start s = log_addr (opp_page (head s))" "log_phase s = redolog_phase (head s) + 1" "log_size s = REDO_LOG_SIZE"
    using assms(2) by (auto simp: log_ok_def zones_ok_def Let_def)
  then show ?thesis using assms by (simp add: just_triggered_def durable_at_def sound_def)
qed

lemma just_triggered_write:
  assumes "just_triggered s"
  shows "write_entry it s = Inr (0, logged it s)"
proof -
  have "\<not> log_start s + log_size s \<le> log_current s + LBA_LENGTH"
    using assms zone_full [of "opp_page (head s)" 1] page_bounds(2) [of "head s"] log_addr_next by (simp add: just_triggered_def)
  then show ?thesis using write_entry_logged [of s] assms by (simp add: just_triggered_def)
qed

lemma just_triggered_tables:
  "just_triggered (s\<lparr>obj_lmt := m\<rparr>) = just_triggered s" "just_triggered (s\<lparr>free_obj_queue := fq\<rparr>) = just_triggered s"
  "just_triggered (s\<lparr>trim_obj_queue := fq\<rparr>) = just_triggered s" "just_triggered (s\<lparr>lmt_entry_pool := p\<rparr>) = just_triggered s"
  by (simp_all add: just_triggered_def no_err_def)

text \<open>The trim record does not depend on what was taken from the free queue before.\<close>

definition free_item :: "flash_store \<Rightarrow> redo_item" where
  "free_item s = (let (id, tq) = projr (dequeue (trim_obj_queue s))
     in FREE_OBJ id (q_head tq) ((q_tail (free_obj_queue s) + 1) mod q_depth (free_obj_queue s)))"

lemma trim_just_triggered:
  assumes inv: "store_inv s" and j: "just_triggered s" and n: "q_list (trim_obj_queue s) \<noteq> []"
  obtains fq tq where "trim_one s = Inr (0, logged (free_item s) (s\<lparr>trim_obj_queue := tq, free_obj_queue := fq\<rparr>))"
proof -
  have t: "tables_inv0 (head s) (obj_lmt s) (free_obj_queue s) (trim_obj_queue s) (lmt_entry_pool s)"
    using inv by (simp add: store_inv_def store_inv0_def)
  then have qi: "q_inv (trim_obj_queue s)" by (simp add: tables_defs)
  then have ne: "\<not> q_is_empty (trim_obj_queue s)" using n q_is_empty_iff by blast
  obtain i xs where "q_list (trim_obj_queue s) = i # xs" using n by (meson neq_Nil_conv)
  then obtain tq where dq: "dequeue (trim_obj_queue s) = Inr (i, tq)" using dequeue_ok [OF qi] by metis
  let ?fq = "snd (enqueue (free_obj_queue s) i)"
  have "fst (enqueue (free_obj_queue s) i) = 0" using tables_free [OF t dq surjective_pairing] by simp
  then have "q_tail ?fq = (q_tail (free_obj_queue s) + 1) mod q_depth (free_obj_queue s)"
    by (simp add: enqueue_def split: if_splits)
  then have "trim_one s = write_entry (free_item s) (s\<lparr>trim_obj_queue := tq, free_obj_queue := ?fq\<rparr>)"
    using ne dq by (simp add: trim_one_def log_defs free_item_def)
  then show ?thesis using that just_triggered_write j just_triggered_tables by metis
qed

lemma write_just_triggered:
  assumes inv: "store_inv s" and j: "just_triggered s" and room: "q_list (free_obj_queue s) \<noteq> []"
    and absent: "lmt_find (io_key s io) s = None" and w: "m_opcode (io_cmd io) = S5_OP_WRITE"
  obtains e fq p r a where "process_event (EVT_IO_REQ io) s = Inr (0, act a (logged r (set_chain (io_key s io) [e]
      (s\<lparr>free_obj_queue := fq, lmt_entry_pool := p\<rparr>))))"
    and "q_tail fq = q_tail (free_obj_queue s)" and "q_depth fq = q_depth (free_obj_queue s)"
    and "io_request a = [(io\<lparr>io_opcode := S5_OP_WRITE\<rparr>, media_offset s io e, m_length (io_cmd io))]"
proof -
  let ?io = "io\<lparr>io_opcode := m_opcode (io_cmd io)\<rparr>" and ?k = "io_key s io"
  have "q_inv (free_obj_queue s)" using inv by (simp add: store_inv_def store_inv0_def tables_defs)
  then have ne: "\<not> q_is_empty (free_obj_queue s)" using room q_is_empty_iff by blast
  obtain e s1 where e: "new_entry (m_snap_seq (io_cmd io)) NORMAL s = Inr (e, s1)"
    using new_entryE [OF _ ne, of "m_snap_seq (io_cmd io)" NORMAL ?k] inv by (metis store_inv_def)
  obtain i fq p where s1: "s1 = s\<lparr>free_obj_queue := fq, lmt_entry_pool := p\<rparr>" and d: "dequeue (free_obj_queue s) = Inr (i, fq)"
    using new_entry_cases [OF e] by metis
  have q: "q_tail fq = q_tail (free_obj_queue s)" "q_depth fq = q_depth (free_obj_queue s)"
    using d by (auto simp: dequeue_def dequeue_nolock_def split: if_splits)
  let ?s2 = "set_chain ?k [e] s1" and ?r = "ALLOCATE_OBJ ?k e (q_head fq)"
  have k: "io_key s ?io = ?k" by (simp add: io_key_def)
  have "write_entry ?r ?s2 = Inr (0, logged ?r ?s2)"
    using j s1 by (intro just_triggered_write) (simp add: just_triggered_tables)
  then have d: "do_write io s = Inr (0, act (Submit_io ?io (media_offset (logged ?r ?s2) ?io e) (m_length (io_cmd io))) (logged ?r ?s2))"
    using absent ne e k s1 by (simp add: do_write_def Let_def write_new_def log_defs)
  have m: "media_offset (logged ?r ?s2) ?io e = media_offset s io e"
    using s1 by (simp add: media_offset_def logged_def put_log_page_def ext_call_def)
  have "S5_OP_WRITE \<noteq> S5_OP_READ" "S5_OP_WRITE \<noteq> S5_OP_RECOVERY_READ" by code_simp+
  then have "process_event (EVT_IO_REQ io) s = do_write io s"
    using w d by (simp add: process_event_def Let_def)
  then show ?thesis using q d m s1 w by (intro that [where e = e and fq = fq and p = p and r = ?r
        and a = "Submit_io (io\<lparr>io_opcode := S5_OP_WRITE\<rparr>) (media_offset s io e) (m_length (io_cmd io))"]) simp_all
qed

text \<open>The keys of the table after a restart.\<close>

lemma restart_keys:
  assumes "img_lmt m' = img_lmt (finished m)" and "map_of m k = None"
  shows "map_of m' k = None"
proof -
  have keys: "fst ` set (img_lmt x) = fst ` set x" for x by (force simp: img_lmt_def)
  have "fst ` set (finished m) \<subseteq> fst ` set m" by (induction m) (force simp: Let_def split: if_splits)+
  then show ?thesis using assms keys [of m'] keys [of "finished m"] by (auto simp: map_of_eq_None_iff)
qed

text \<open>
  (C13) A trigger while a compaction is pending loses a write. The compaction has been asked
  for and has not started; a first write to a block is logged in the zone that is not
  in use and sent to the engine. The event of the timer then sets the log back to the start
  of this zone although the record there is in no metadata yet, and the record of the next
  trim overwrites it. A restart on this disk succeeds with the tables from before
  the write: the block is not in the table any more, its data is gone.
\<close>

theorem second_trigger_loses_write:
  assumes "fresh_disk cf s0" and "store_run cf mem s0 (s, t)"
    and "to_run_compact s = COMPACT_TODO" and "log_current s = log_start s"
    and absent: "map_of (obj_lmt s) (io_key s io) = None" and op: "m_opcode (io_cmd io) = S5_OP_WRITE"
    and room: "q_list (free_obj_queue s) \<noteq> []" and trim: "q_list (trim_obj_queue s) \<noteq> []"
  shows "\<exists>e s1 s2 s3. process_event (EVT_IO_REQ io) s = Inr (0, s1) \<and>
      io_requests s1 = io_requests s @ [(io\<lparr>io_opcode := S5_OP_WRITE\<rparr>, media_offset s io e, m_length (io_cmd io))] \<and>
      process_event EVT_SAVEMD s1 = Inr (0, s2) \<and> trim_one s2 = Inr (0, s3) \<and>
      map_of (obj_lmt s3) (io_key s io) = Some [e] \<and>
      (\<forall>cf1 mem1 s4. dev s4 = dev s3 \<and> obj_lmt s4 = [] \<and> Start_trim_thread \<notin> set (acts s4) \<longrightarrow>
        (\<exists>t' s'. store_init cf1 mem1 s4 = Some (Inr (0, t', s')) \<and>
          img_lmt (obj_lmt s') = img_lmt (finished (obj_lmt s)) \<and> map_of (obj_lmt s') (io_key s io) = None))"
proof -
  have d: "durable s t" and inv: "store_inv s" using store_run_durable [OF assms(2,1)] by simp_all
  have j: "just_triggered s" by (rule durable_just_triggered [OF d assms(3,4)])
  obtain e fq p r a where w: "process_event (EVT_IO_REQ io) s = Inr (0, act a (logged r (set_chain (io_key s io) [e]
      (s\<lparr>free_obj_queue := fq, lmt_entry_pool := p\<rparr>))))" (is "_ = Inr (0, act a ?s1)")
    and q: "q_tail fq = q_tail (free_obj_queue s)" "q_depth fq = q_depth (free_obj_queue s)"
    and a: "io_request a = [(io\<lparr>io_opcode := S5_OP_WRITE\<rparr>, media_offset s io e, m_length (io_cmd io))]"
    using write_just_triggered [OF inv j room absent op] .
  let ?s2 = "triggered (act a ?s1)"
  have inv1: "store_inv (act a ?s1)" using process_event_keeps [OF inv, of "EVT_IO_REQ io"] w by simp
  have lc: "log_current (act a ?s1) \<noteq> log_start (act a ?s1)"
    using j log_addr_next [of "opp_page (head s)"] log_addr_inj [of "Suc (opp_page (head s))" "opp_page (head s)"] page_bounds(2) [of "head s"]
    by (simp add: just_triggered_def)
  have sv: "process_event EVT_SAVEMD (act a ?s1) = Inr (0, ?s2)"
    using lc j trigger_eq [of "act a ?s1" False] by (simp add: process_event_def just_triggered_def)
  have j2: "just_triggered ?s2"
    using j redolog_positions(2) [of "head s"] by (simp add: just_triggered_def triggered_def set_log_phase_def no_err_def)
  have inv2: "store_inv ?s2" using process_event_keeps [OF inv1, of EVT_SAVEMD] sv by simp
  have t2: "trim_obj_queue ?s2 = trim_obj_queue s" "free_obj_queue ?s2 = fq" "obj_lmt ?s2 = AList.update (io_key s io) [e] (obj_lmt s)"
    using tblD(1-3) [OF triggered_tbl [of "act a ?s1"]] by (simp_all add: logged_def put_log_page_def ext_call_def)
  then have it: "free_item ?s2 = free_item s" using q by (simp add: free_item_def)
  obtain fq3 tq3 where t3: "trim_one ?s2 = Inr (0, logged (free_item s) (?s2\<lparr>trim_obj_queue := tq3, free_obj_queue := fq3\<rparr>))"
      (is "_ = Inr (0, ?s3)")
    using trim_just_triggered [OF inv2 j2] trim t2(1) it by metis
  obtain fqv tqv where tv: "trim_one s = Inr (0, logged (free_item s) (s\<lparr>trim_obj_queue := tqv, free_obj_queue := fqv\<rparr>))"
      (is "_ = Inr (0, ?v)")
    using trim_just_triggered [OF inv j trim] .
  have "calm s ?v" by (simp add: calm_def signals_def pending_def)
  then have dv: "durable ?v t" using store_step_durable [OF store_step.trim [OF tv] inv d] by simp
  have iv: "store_inv ?v" using trim_one_keeps [OF inv] tv by simp
  have im: "crash_image ?v (dev ?s3)"
    using j j2 by (simp add: crash_image_def just_triggered_def)
  have lv: "obj_lmt ?v = obj_lmt s" by (simp add: logged_def put_log_page_def ext_call_def)
  have "\<exists>t' s'. store_init cf1 mem1 s4 = Some (Inr (0, t', s')) \<and> img_lmt (obj_lmt s') = img_lmt (finished (obj_lmt s)) \<and>
      map_of (obj_lmt s') (io_key s io) = None"
    if "dev s4 = dev ?s3" "obj_lmt s4 = []" "Start_trim_thread \<notin> set (acts s4)" for cf1 mem1 s4
    using restart_ok [OF durable_restartable(1) [OF dv] _ that(2,3) iv refl, of cf1 mem1] im that(1) lv restart_keys [OF _ absent]
    by metis
  moreover have "map_of (obj_lmt ?s3) (io_key s io) = Some [e]"
    using t2(3) by (simp add: logged_def put_log_page_def ext_call_def update_conv')
  moreover have "io_requests (act a ?s1) = io_requests s @ io_request a" by (simp add: io_requests_def)
  ultimately show ?thesis using w sv t3 a
    by (intro exI [of _ e] exI [of _ "act a ?s1"] exI [of _ ?s2] exI [of _ ?s3]) simp
qed

text \<open>
  Such a state: on the sample disk, after a write to the first block and the deletion of
  its replica, the timer asks for a compaction.
\<close>

lemma delete_entry_absent: "obj_lmt s = [] \<Longrightarrow> delete_replica_objs r is s = Inr s"
  by (induction "is") (simp_all add: delete_replica_obj_def Let_def)

lemma delete_only_entry:
  assumes inv: "store_inv s" and l: "obj_lmt s = [(k, [e])]" and ok: "no_err s" and idle: "to_run_compact s = COMPACT_IDLE"
  obtains s' where "delete_obj k (e_addr e) s = Inr (0, s')" and "obj_lmt s' = []" and "calm s s'"
    and "free_obj_queue s' = free_obj_queue s" and "fixed_head (head s') = fixed_head (head s)"
    and "to_run_compact s' = COMPACT_TODO \<and> log_current s' = log_start s' \<or>
      to_run_compact s' = COMPACT_IDLE \<and> log_current s' = log_current s + LBA_LENGTH \<and> log_start s' = log_start s"
proof -
  let ?s1 = "set_chain k [] s"
  let ?s2 = "?s1\<lparr>trim_obj_queue := snd (enqueue (trim_obj_queue ?s1) (offset_to_obj_id (head ?s1) (e_offset e)))\<rparr>"
  let ?w = "log_trim k e (q_tail (trim_obj_queue ?s2)) ?s2"
  obtain rc s3 where w: "?w = Inr (rc, s3)" using write_entry_idle [of ?s2] idle by (cases ?w) (auto simp: log_defs)
  have ok2: "no_err ?s2" and idle2: "to_run_compact ?s2 = COMPACT_IDLE" using ok idle by (simp_all add: no_err_def)
  note C = write_entry_idle_calm [OF ok2 idle2 w [unfolded log_defs]]
  have t: "trim_entries k [e] s = bnd (pool_free (lmt_entry_pool s3) (e_addr e)) (\<lambda>p. Inr (s3\<lparr>lmt_entry_pool := p\<rparr>))"
    using l w by (simp add: Let_def)
  have "keeps (delete_obj k (e_addr e) s)" unfolding delete_obj_def by (rule delete_where_keeps [OF inv])
  then obtain p where p: "pool_free (lmt_entry_pool s3) (e_addr e) = Inr p"
    using l t by (cases "pool_free (lmt_entry_pool s3) (e_addr e)")
      (auto simp: delete_obj_def delete_where_def pool_free_def split: if_splits prod.splits)
  let ?s' = "s3\<lparr>lmt_entry_pool := p, obj_lmt := []\<rparr>"
  have l3: "obj_lmt s3 = [(k, [])]" using tblD(1) [of s3 ?s2] C l by simp
  have "delete_obj k (e_addr e) s = Inr (0, ?s')"
    using l t p l3 by (simp add: delete_obj_def delete_where_def)
  moreover have "calm s ?s'" using C by (simp add: calm_def) (simp add: signals_def pending_def)
  moreover have "to_run_compact s3 = COMPACT_TODO \<and> log_current s3 = log_start s3 \<or>
      to_run_compact s3 = COMPACT_IDLE \<and> log_current s3 = log_current s + LBA_LENGTH \<and> log_start s3 = log_start s"
  proof (cases "log_start ?s2 + log_size ?s2 \<le> log_current ?s2 + LBA_LENGTH")
    case True
    let ?l = "logged (TRIM_OBJ k e (q_tail (trim_obj_queue ?s2))) ?s2"
    have "s3 = triggered ?l"
      using w trigger_eq [of ?l True] idle unfolding log_defs write_entry_logged [OF ok2] if_P [OF True] by simp
    then show ?thesis by (simp add: triggered_def set_log_phase_def)
  next
    case False
    have "s3 = logged (TRIM_OBJ k e (q_tail (trim_obj_queue ?s2))) ?s2"
      using w unfolding log_defs write_entry_logged [OF ok2] if_not_P [OF False] by simp
    then show ?thesis using idle by simp
  qed
  moreover have "free_obj_queue s3 = free_obj_queue s" "fixed_head (head s3) = fixed_head (head s)"
    using tblD(2,5) [of s3 ?s2] C by simp_all
  ultimately show ?thesis using that [of ?s'] by simp
qed

lemma sample_triggered:
  obtains s t where "store_run sample_conf blank_store blank_store (s, t)" and "obj_lmt s = []"
    and "to_run_compact s = COMPACT_TODO" and "log_current s = log_start s"
    and "q_list (free_obj_queue s) \<noteq> []" and "q_list (trim_obj_queue s) \<noteq> []"
proof -
  obtain s t e where r: "store_run sample_conf blank_store blank_store (s, t)" and inv: "store_inv s"
    and l: "obj_lmt s = [(io_key s sample_write, [e])]" and e: "e_status e = NORMAL" "e_snap_seq e = 1"
    and idle: "to_run_compact s = COMPACT_IDLE" and ok: "no_err s" and free: "length (q_list (free_obj_queue s)) = 3"
    and o: "objsize_order (head s) = DEFAULT_OBJ_SIZE_ORDER" "objsize (head s) = DEFAULT_OBJ_SIZE"
    using sample_run .
  let ?k = "io_key s sample_write"
  obtain s1 where s1: "delete_obj ?k (e_addr e) s = Inr (0, s1)" "obj_lmt s1 = []" "calm s s1"
      "free_obj_queue s1 = free_obj_queue s" "fixed_head (head s1) = fixed_head (head s)"
    and c1: "to_run_compact s1 = COMPACT_TODO \<and> log_current s1 = log_start s1 \<or>
      to_run_compact s1 = COMPACT_IDLE \<and> log_current s1 = log_current s + LBA_LENGTH \<and> log_start s1 = log_start s"
    using delete_only_entry [OF inv l ok idle] .
  have d: "durable s t" using store_run_durable [OF r blank_fresh] by simp
  have k0: "\<lparr>vol_id = VOLUME_ID 0x1000000, slba = vol_offset_to_block_slba
      (push_bit SHARD_SIZE_ORDER (SHARD_INDEX 0x1000000) + objsize (head s) * of_nat 0) (objsize_order (head s))\<rparr> = ?k"
    using o by (simp add: io_key_def sample_write_def) code_simp
  have "unat (SHARD_SIZE div DEFAULT_OBJ_SIZE) = 1024" by code_simp
  then have "0 < unat (SHARD_SIZE div objsize (head s))" unfolding o(2) by simp
  from upt_conv_Cons [OF this] obtain js where "[0..<unat (SHARD_SIZE div objsize (head s))] = 0 # js" by blast
  then have dr: "delete_replica 0x1000000 s = Inr (0, s1)"
    using s1(1,2) l e k0 delete_entry_absent [OF s1(2)]
    by (simp add: delete_replica_def delete_replica_obj_def Let_def)
  have r1: "store_run sample_conf blank_store blank_store (s1, t)"
    by (rule run_step [OF r store_step.del_replica [OF dr] s1(3)])
  have inv1: "store_inv s1" using store_run_durable [OF r1 blank_fresh] by simp
  have f1: "q_list (free_obj_queue s1) \<noteq> []" using free s1(4) by auto
  have sizes: "size (table_entries (obj_lmt x)) + length (q_list (free_obj_queue x)) + length (q_list (trim_obj_queue x)) = nat (obj_count (head x))"
    if "store_inv x" for x
    using that tables_sizes(1) [of "head x" "obj_lmt x" "free_obj_queue x" "trim_obj_queue x" "lmt_entry_pool x"]
    by (simp add: store_inv_def store_inv0_def)
  have tr1: "q_list (trim_obj_queue s1) \<noteq> []"
    using sizes [OF inv] sizes [OF inv1] l s1(2,4) fixed_head_geometry(3) [OF s1(5)] by auto
  show ?thesis
  proof (cases "to_run_compact s1 = COMPACT_TODO")
    case True
    then show ?thesis using that [OF r1 s1(2)] c1 f1 tr1 by auto
  next
    case False
    then have i1: "to_run_compact s1 = COMPACT_IDLE" "log_current s1 = log_current s + LBA_LENGTH" "log_start s1 = log_start s"
      using c1 by auto
    obtain n where its: "log_start s = log_addr (cur_page (head s))" "log_current s = log_addr (cur_page (head s) + n)" "n < zone_pages"
      using d idle by (auto simp: durable_at_def log_ok_def Let_def)
    have lc: "log_current s1 \<noteq> log_start s1"
      using i1(2,3) its log_addr_next log_addr_inj [of "Suc (cur_page (head s) + n)" "cur_page (head s)"] page_bounds(1) [of "head s"] by simp
    have p: "process_event EVT_SAVEMD s1 = Inr (0, triggered s1)"
      using lc i1(1) trigger_eq [of s1 False] by (simp add: process_event_def)
    have "calm s1 (triggered s1)" using i1(1) by (simp add: calm_def pending_def)
    then have r2: "store_run sample_conf blank_store blank_store (triggered s1, t)"
      by (rule run_step [OF r1 store_step.event [OF p]])
    have "log_current (triggered s1) = log_start (triggered s1)" by (simp add: triggered_def set_log_phase_def)
    then show ?thesis using that [OF r2] s1(2) f1 tr1 tblD(1-3) [OF triggered_tbl [of s1]] by simp
  qed
qed

theorem second_trigger_loses_write_witness:
  "\<exists>s t s1 s2 s3 t' s'. store_run sample_conf blank_store blank_store (s, t) \<and>
     process_event (EVT_IO_REQ sample_write) s = Inr (0, s1) \<and> process_event EVT_SAVEMD s1 = Inr (0, s2) \<and>
     trim_one s2 = Inr (0, s3) \<and> map_of (obj_lmt s3) (io_key s sample_write) \<noteq> None \<and>
     store_init sample_conf blank_store (blank_store\<lparr>dev := dev s3\<rparr>) = Some (Inr (0, t', s')) \<and>
     map_of (obj_lmt s') (io_key s sample_write) = None"
proof -
  obtain s t where s: "store_run sample_conf blank_store blank_store (s, t)" "obj_lmt s = []"
      "to_run_compact s = COMPACT_TODO" "log_current s = log_start s"
      "q_list (free_obj_queue s) \<noteq> []" "q_list (trim_obj_queue s) \<noteq> []"
    using sample_triggered .
  have n: "map_of (obj_lmt s) (io_key s sample_write) = None" using s(2) by simp
  have op: "m_opcode (io_cmd sample_write) = S5_OP_WRITE" by (simp add: sample_write_def)
  obtain e s1 s2 s3 where 1: "process_event (EVT_IO_REQ sample_write) s = Inr (0, s1)" "process_event EVT_SAVEMD s1 = Inr (0, s2)"
      "trim_one s2 = Inr (0, s3)" "map_of (obj_lmt s3) (io_key s sample_write) = Some [e]"
    and 2: "\<forall>cf1 mem1 s4. dev s4 = dev s3 \<and> obj_lmt s4 = [] \<and> Start_trim_thread \<notin> set (acts s4) \<longrightarrow>
        (\<exists>t' s'. store_init cf1 mem1 s4 = Some (Inr (0, t', s')) \<and>
          img_lmt (obj_lmt s') = img_lmt (finished (obj_lmt s)) \<and> map_of (obj_lmt s') (io_key s sample_write) = None)"
    using second_trigger_loses_write [OF blank_fresh s(1,3,4) n op s(5,6)] by (elim exE conjE)
  obtain t' s' where "store_init sample_conf blank_store (blank_store\<lparr>dev := dev s3\<rparr>) = Some (Inr (0, t', s'))"
      "map_of (obj_lmt s') (io_key s sample_write) = None"
    using 2 [rule_format, of "blank_store\<lparr>dev := dev s3\<rparr>" sample_conf blank_store] blank_store_ok(3,5) by auto
  then show ?thesis using s(1) 1 by blast
qed

section \<open>Objects that a restart loses\<close>

lemma finished_entries:
  assumes "e \<in># table_entries (finished m)"
  shows "e \<in># table_entries m \<and> \<not> unfinished e"
  using assms by (induction m) (auto simp: Let_def split: if_splits)

lemma img_entries:
  assumes "img_lmt m' = img_lmt m" and "e' \<in># table_entries m'"
  shows "\<exists>e. e \<in># table_entries m \<and> img e = img e'"
proof -
  have eq: "image_mset img (table_entries x) = mset (concat (map snd (img_lmt x)))" for x
    by (induction x) (simp_all add: img_lmt_def case_prod_beta table_entries_def)
  have "img e' \<in># image_mset img (table_entries m')" using assms(2) by simp
  then have "img e' \<in># image_mset img (table_entries m)" unfolding eq assms(1) .
  then show ?thesis by auto
qed

text \<open>
  (C14) An object whose copy on write had not finished when the process ended. The start
  removes its entry from the table but does not return the object: it is in no entry and
  in neither queue, and can never be used again.
\<close>

theorem restart_leaks_object:
  assumes "fresh_disk cf s0" and "store_run cf mem s0 (s, t)" and e: "e \<in> set (table_list s)" "e_status e = COPYING"
    and "crash_image s (dev s1)" and "obj_lmt s1 = []" and "Start_trim_thread \<notin> set (acts s1)"
  shows "\<exists>t' s'. store_init cf1 mem1 s1 = Some (Inr (0, t', s')) \<and>
    offset_to_obj_id (head s) (e_offset e) \<in> {0..<obj_count (head s')} \<and>
    offset_to_obj_id (head s) (e_offset e) \<notin> set_mset (used_ids (head s') (obj_lmt s')) \<union>
      set (q_list (free_obj_queue s')) \<union> set (q_list (trim_obj_queue s'))"
proof -
  let ?id = "\<lambda>e. offset_to_obj_id (head s) (e_offset e)"
  have d: "durable s t" "store_inv s" using store_run_durable [OF assms(2,1)] by simp_all
  obtain t' s' where r: "store_init cf1 mem1 s1 = Some (Inr (0, Some t', s'))"
      "img_lmt (obj_lmt s') = img_lmt (finished (obj_lmt s))" "free_obj_queue s' = free_obj_queue s"
      "trim_obj_queue s' = trim_obj_queue s" "fixed_head (head s') = fixed_head (head s)"
    using restart_ok [OF durable_restartable(1) [OF d(1)] assms(5-7) d(2) refl, of cf1 mem1] by blast
  note G = fixed_head_geometry [OF r(5)] and I = table_ids [OF d(2)]
  have cons: "used_ids (head s) (obj_lmt s) + mset (q_list (free_obj_queue s)) + mset (q_list (trim_obj_queue s)) =
      mset (map int [0..<nat (obj_count (head s))])"
    using d(2) by (simp add: store_inv_def store_inv0_def tables_inv0_def objects_conserved_def all_ids_def)
  have "?id e \<in># used_ids (head s) (obj_lmt s)"
    using e(1) table_list_mset [of s] by (auto simp: used_ids_def simp flip: set_mset_mset)
  then have "count (used_ids (head s) (obj_lmt s)) (?id e) \<ge> 1" by (simp only: count_greater_eq_one_iff)
  moreover have "distinct (map int [0..<nat (obj_count (head s))])" by (simp add: distinct_map)
  then have "count (mset (map int [0..<nat (obj_count (head s))])) (?id e) \<le> 1"
    unfolding distinct_count_atmost_1 by simp
  ultimately have "count (mset (q_list (free_obj_queue s))) (?id e) = 0" "count (mset (q_list (trim_obj_queue s))) (?id e) = 0"
    unfolding cons [symmetric] count_union by linarith+
  then have q: "?id e \<notin> set (q_list (free_obj_queue s))" "?id e \<notin> set (q_list (trim_obj_queue s))"
    by (simp_all add: count_eq_zero_iff)
  have "?id e \<notin># used_ids (head s') (obj_lmt s')"
  proof
    assume "?id e \<in># used_ids (head s') (obj_lmt s')"
    then obtain e1 where e1: "e1 \<in># table_entries (obj_lmt s')" "?id e1 = ?id e" using G(2) by (auto simp: used_ids_def)
    obtain e2 where e2: "e2 \<in># table_entries (finished (obj_lmt s))" "img e2 = img e1" using img_entries [OF r(2) e1(1)] by blast
    have e3: "e2 \<in># table_entries (obj_lmt s)" "\<not> unfinished e2" using finished_entries [OF e2(1)] by simp_all
    have "e2 \<in> set (table_list s)" using e3(1) table_list_mset [of s] by (metis set_mset_mset)
    moreover have "?id e2 = ?id e" using e1(2) img_eqD [OF e2(2)] by simp
    ultimately have "e2 = e" using I(1) e(1) unfolding distinct_map inj_on_def by blast
    then show False using e3(2) e(2) by (simp add: unfinished_def)
  qed
  then show ?thesis using r(1,3,4) q I(2) [OF e(1)] G(3) by (intro exI [of _ "Some t'"] exI [of _ s']) simp
qed

text \<open>The sample disk after a write of a newer snapshot, before its copy is done.\<close>

definition newer_write :: io_sub_task where
  "newer_write = sample_write\<lparr>io_cmd := (io_cmd sample_write)\<lparr>m_snap_seq := 2\<rparr>\<rparr>"

lemma newer_write_calm:
  assumes inv: "store_inv s" and m: "obj_lmt s = [(io_key s sample_write, [e])]" "e_status e = NORMAL" "e_snap_seq e = 1"
    and idle: "to_run_compact s = COMPACT_IDLE" and ok: "no_err s" and room: "\<not> q_is_empty (free_obj_queue s)"
  shows "\<exists>rc s' e'. process_event (EVT_IO_REQ newer_write) s = Inr (rc, s') \<and> calm s s' \<and>
    e' \<in> set (table_list s') \<and> e_status e' = COPYING"
proof -
  let ?io = "newer_write\<lparr>io_opcode := m_opcode (io_cmd newer_write)\<rparr>" and ?k = "io_key s sample_write"
  have seq: "m_snap_seq (io_cmd ?io) = 2" by (simp add: newer_write_def)
  obtain c s1 where n: "new_entry 2 COPYING s = Inr (c, s1)"
    using new_entryE [OF _ room, of 2 COPYING ?k] inv by (metis store_inv_def)
  let ?s2 = "set_chain ?k [c, e] s1"
  obtain fq p where s1: "s1 = s\<lparr>free_obj_queue := fq, lmt_entry_pool := p\<rparr>" and cs: "e_status c = COPYING"
    using new_entry_cases [OF n] by metis
  have 2: "no_err ?s2" "to_run_compact ?s2 = COMPACT_IDLE" "signals ?s2 = signals s" "pending ?s2 = pending s"
    "obj_lmt ?s2 = [(?k, [c, e])]"
    using ok idle m s1 by (simp_all add: no_err_def signals_def pending_def)
  let ?w = "write_entry (ALLOCATE_OBJ ?k c (q_head (free_obj_queue ?s2))) ?s2"
  obtain rc s3 where w: "?w = Inr (rc, s3)" using write_entry_idle [of ?s2] 2(2) by (cases ?w) auto
  have C: "calm ?s2 s3" "rc = 0" "tbl s3 = tbl ?s2" using write_entry_idle_calm [OF 2(1,2) w] by blast+
  let ?c' = "c\<lparr>e_waiting_io := [?io]\<rparr>"
  let ?s4 = "set_chain ?k [?c', e] s3"
  let ?a = "if use_scc ?s4 then Begin_cow_scc ?k (e_addr e) (e_addr c) else Begin_cow ?k (e_addr e) (e_addr c)"
  have k: "io_key s ?io = ?k" by (simp add: io_key_def newer_write_def)
  have f: "lmt_find ?k s = Some [e]" using m(1) by simp
  have lt: "\<not> (2::u32) < 1" "(2::u32) \<noteq> 1" by simp_all
  have wc: "write_cow ?io ?k e [] s = Inr (0, act ?a ?s4)"
    using room n w C(2) seq by (simp add: write_cow_def Let_def log_defs)
  have sq: "m_snap_seq (io_cmd newer_write) = 2" by (simp add: newer_write_def)
  have "do_write newer_write s = Inr (0, act ?a ?s4)"
    unfolding do_write_def Let_def k f option.case list.case wc sq m(2,3) using lt by simp
  moreover have "m_opcode (io_cmd newer_write) = S5_OP_WRITE" by (simp add: newer_write_def sample_write_def)
  moreover have "S5_OP_WRITE \<noteq> S5_OP_READ" "S5_OP_WRITE \<noteq> S5_OP_RECOVERY_READ" by code_simp+
  ultimately have p: "process_event (EVT_IO_REQ newer_write) s = Inr (0, act ?a ?s4)"
    by (simp add: process_event_def Let_def)
  have "signals (act ?a ?s4) = signals s3" "pending (act ?a ?s4) = pending s3" by (simp_all add: signals_def pending_def)
  then have "calm s (act ?a ?s4)" using C(1) 2(3,4) by (simp add: calm_def)
  moreover have "obj_lmt (act ?a ?s4) = [(?k, [?c', e])]" using tblD(1) [OF C(3)] 2(5) by simp
  then have "?c' \<in> set (table_list (act ?a ?s4))" by (simp add: table_list_def)
  ultimately show ?thesis using p cs by (intro exI [of _ 0] exI [of _ "act ?a ?s4"] exI [of _ ?c']) simp
qed

theorem restart_leaks_object_witness:
  "\<exists>s t e t' s'. store_run sample_conf blank_store blank_store (s, t) \<and> e \<in> set (table_list s) \<and> e_status e = COPYING \<and>
     store_init sample_conf blank_store (blank_store\<lparr>dev := dev s\<rparr>) = Some (Inr (0, t', s')) \<and>
     offset_to_obj_id (head s) (e_offset e) \<in> {0..<obj_count (head s')} \<and>
     offset_to_obj_id (head s) (e_offset e) \<notin> set_mset (used_ids (head s') (obj_lmt s')) \<union>
       set (q_list (free_obj_queue s')) \<union> set (q_list (trim_obj_queue s'))"
proof -
  obtain s t e where r: "store_run sample_conf blank_store blank_store (s, t)" and inv: "store_inv s"
    and m: "obj_lmt s = [(io_key s sample_write, [e])]" "e_status e = NORMAL" "e_snap_seq e = 1"
    and i: "to_run_compact s = COMPACT_IDLE" and ok: "no_err s" and l: "length (q_list (free_obj_queue s)) = 3"
    using sample_run .
  have "\<not> q_is_empty (free_obj_queue s)"
    using inv l q_is_empty_iff [of "free_obj_queue s"] by (auto simp: store_inv_def store_inv0_def tables_defs)
  then obtain rc s2 e2 where w: "process_event (EVT_IO_REQ newer_write) s = Inr (rc, s2)" "calm s s2"
      "e2 \<in> set (table_list s2)" "e_status e2 = COPYING"
    using newer_write_calm [OF inv m i ok] by blast
  have r2: "store_run sample_conf blank_store blank_store (s2, t)" by (rule run_step [OF r event [OF w(1)] w(2)])
  let ?s1 = "blank_store\<lparr>dev := dev s2\<rparr>"
  have c: "crash_image s2 (dev ?s1)" using crash_image_refl by simp
  have e: "obj_lmt ?s1 = []" "Start_trim_thread \<notin> set (acts ?s1)" using blank_store_ok(3,5) by simp_all
  show ?thesis using r2 w(3,4) restart_leaks_object [OF blank_fresh r2 w(3,4) c e, of sample_conf blank_store] by blast
qed

end
