(* ===== verification/Connection.thy ===== *)
theory Connection
  imports Pf_Prelude
begin

text \<open>
  Connections as their users see them: the reference counts, closing and the count of
  requests in flight of \<open>PfConnection\<close> (\<open>common/include/pf_connection.h\<close>, \<open>pf_connection.cpp\<close>), and
  the pool of connections by address of \<open>common/src/pf_connection_pool.cpp\<close>. The record
  \<open>conn_state\<close> is extended by the state of each user; \<open>on_close\<close> is the handler that the user
  registered. A connection is a number. The outcome of \<open>connect_to_server\<close> comes from outside.
\<close>

record pf_conn =
  rc_ok :: bool
  rc_io_depth :: int
  rc_inflying :: int
  rc_heartbeat :: int
  rc_unclean :: bool
  rc_ref :: int

datatype conn_action = Conn_closed nat | Conn_released nat

record conn_state =
  cs_conn :: "nat \<Rightarrow> pf_conn"
  cs_io_depth :: int
  cs_ip_map :: "(string \<times> nat) list"
  cs_net :: "nat \<Rightarrow> nat option"
  cs_net_cnt :: nat
  cs_log :: "conn_action list"

abbreviation upd_conn :: "nat \<Rightarrow> (pf_conn \<Rightarrow> pf_conn) \<Rightarrow> 's conn_state_scheme \<Rightarrow> 's conn_state_scheme" where
  "upd_conn c f s \<equiv> s\<lparr>cs_conn := (cs_conn s)(c := f (cs_conn s c))\<rparr>"

definition get_throttle :: "nat \<Rightarrow> 's conn_state_scheme \<Rightarrow> bool \<times> 's conn_state_scheme" where
  "get_throttle c s =
     (let current_cnt = rc_inflying (cs_conn s c)
      in if current_cnt < rc_io_depth (cs_conn s c)
         then (True, upd_conn c (\<lambda>x. x\<lparr>rc_inflying := current_cnt + 1\<rparr>) s)
         else (False, s))"

definition put_throttle :: "nat \<Rightarrow> 's conn_state_scheme \<Rightarrow> 's conn_state_scheme" where
  "put_throttle c s = upd_conn c (\<lambda>x. x\<lparr>rc_inflying := rc_inflying x - 1\<rparr>) s"

definition conn_add_ref :: "nat \<Rightarrow> 's conn_state_scheme \<Rightarrow> 's conn_state_scheme" where
  "conn_add_ref c s = upd_conn c (\<lambda>x. x\<lparr>rc_ref := rc_ref x + 1\<rparr>) s"

definition conn_close :: "(nat \<Rightarrow> 's conn_state_scheme \<Rightarrow> 's conn_state_scheme) \<Rightarrow> nat \<Rightarrow> 's conn_state_scheme \<Rightarrow> 's conn_state_scheme" where
  "conn_close on_close c s =
     (if \<not> rc_ok (cs_conn s c) then s
      else on_close c ((upd_conn c (\<lambda>x. x\<lparr>rc_ok := False\<rparr>) s)\<lparr>cs_log := cs_log s @ [Conn_closed c]\<rparr>))"

definition pf_conn_dec_ref :: "(nat \<Rightarrow> 's conn_state_scheme \<Rightarrow> 's conn_state_scheme) \<Rightarrow> nat \<Rightarrow> 's conn_state_scheme \<Rightarrow> 's conn_state_scheme" where
  "pf_conn_dec_ref on_close c s =
     (let s1 = upd_conn c (\<lambda>x. x\<lparr>rc_ref := rc_ref x - 1\<rparr>) s
      in if rc_ref (cs_conn s1 c) = 0
         then (\<lambda>x. x\<lparr>cs_log := cs_log x @ [Conn_released c]\<rparr>) (if rc_ok (cs_conn s1 c) then conn_close on_close c s1 else s1)
         else s1)"

text \<open>\<open>connect_to_server\<close> and what the pool does with a new connection; an exception is caught.\<close>

definition pool_connect :: "string \<Rightarrow> 's conn_state_scheme \<Rightarrow> nat option \<times> 's conn_state_scheme" where
  "pool_connect ip s =
     (case cs_net s (cs_net_cnt s) of
        None \<Rightarrow> (None, s\<lparr>cs_net_cnt := cs_net_cnt s + 1\<rparr>)
      | Some c \<Rightarrow> (Some c, upd_conn c (\<lambda>k. k\<lparr>rc_io_depth := cs_io_depth s\<rparr>)
          (conn_add_ref c (s\<lparr>cs_net_cnt := cs_net_cnt s + 1, cs_ip_map := AList.update ip c (cs_ip_map s)\<rparr>))))"

definition pool_get_conn ::
  "(nat \<Rightarrow> 's conn_state_scheme \<Rightarrow> 's conn_state_scheme) \<Rightarrow> string \<Rightarrow> 's conn_state_scheme \<Rightarrow> nat option \<times> 's conn_state_scheme" where
  "pool_get_conn on_close ip s =
     (case map_of (cs_ip_map s) ip of
        None \<Rightarrow> pool_connect ip s
      | Some c \<Rightarrow>
          if rc_ok (cs_conn s c) then (Some c, s)
          else pool_connect ip (pf_conn_dec_ref on_close c (s\<lparr>cs_ip_map := AList.delete ip (cs_ip_map s)\<rparr>)))"

definition close_all :: "(nat \<Rightarrow> 's conn_state_scheme \<Rightarrow> 's conn_state_scheme) \<Rightarrow> 's conn_state_scheme \<Rightarrow> 's conn_state_scheme" where
  "close_all on_close s =
     (fold (\<lambda>(ip, c) x. pf_conn_dec_ref on_close c (conn_close on_close c x)) (cs_ip_map s) s)\<lparr>cs_ip_map := []\<rparr>"

section \<open>What the pool leaves alone\<close>

text \<open>
  Every observation of the state that the fields of the pool and the registered handler do
  not change is not changed by the operations of the pool.
\<close>

locale conn_user =
  fixes same :: "'s conn_state_scheme \<Rightarrow> 's conn_state_scheme \<Rightarrow> bool"
    and on_close :: "nat \<Rightarrow> 's conn_state_scheme \<Rightarrow> 's conn_state_scheme"
  assumes same_refl: "same s s" and same_trans: "same s t \<Longrightarrow> same t u \<Longrightarrow> same s u"
    and same_conn: "same s (s\<lparr>cs_conn := k\<rparr>)" and same_ip: "same s (s\<lparr>cs_ip_map := m\<rparr>)"
    and same_cnt: "same s (s\<lparr>cs_net_cnt := n\<rparr>)" and same_log: "same s (s\<lparr>cs_log := l\<rparr>)"
    and same_on_close: "same s (on_close c s)"
begin

lemma same_throttle: "same s (snd (get_throttle c s))" "same s (put_throttle c s)" "same s (conn_add_ref c s)"
  by (simp_all add: get_throttle_def put_throttle_def conn_add_ref_def Let_def same_refl same_conn)

lemma same_close: "same s (conn_close on_close c s)"
proof -
  let ?s1 = "upd_conn c (\<lambda>x. x\<lparr>rc_ok := False\<rparr>) s"
  have "same s (on_close c (?s1\<lparr>cs_log := cs_log s @ [Conn_closed c]\<rparr>))"
    by (rule same_trans [OF same_trans [OF same_conn same_log] same_on_close])
  then show ?thesis by (simp add: conn_close_def same_refl)
qed

lemma same_dec_ref: "same s (pf_conn_dec_ref on_close c s)"
proof -
  let ?s1 = "upd_conn c (\<lambda>x. x\<lparr>rc_ref := rc_ref x - 1\<rparr>) s"
  have 1: "same s ?s1" by (rule same_conn)
  have "same s (if rc_ok (cs_conn ?s1 c) then conn_close on_close c ?s1 else ?s1)" using 1 same_trans [OF 1 same_close] by simp
  from same_trans [OF this same_log] show ?thesis using 1 unfolding pf_conn_dec_ref_def Let_def by simp
qed

lemma same_connect: "same s (snd (pool_connect ip s))"
proof (cases "cs_net s (cs_net_cnt s)")
  case None
  then show ?thesis using same_cnt by (simp add: pool_connect_def)
next
  case (Some c)
  have "same s (upd_conn c (\<lambda>k. k\<lparr>rc_io_depth := cs_io_depth s\<rparr>)
      (conn_add_ref c (s\<lparr>cs_net_cnt := cs_net_cnt s + 1, cs_ip_map := AList.update ip c (cs_ip_map s)\<rparr>)))"
    by (rule same_trans [OF same_trans [OF same_trans [OF same_cnt same_ip] same_throttle(3)] same_conn])
  then show ?thesis using Some by (simp add: pool_connect_def)
qed

lemma same_get_conn: "same s (snd (pool_get_conn on_close ip s))"
proof -
  have "same s (snd (pool_connect ip (pf_conn_dec_ref on_close c (s\<lparr>cs_ip_map := m\<rparr>))))" for c m
    by (rule same_trans [OF same_trans [OF same_ip same_dec_ref] same_connect])
  then show ?thesis using same_connect by (simp add: pool_get_conn_def same_refl split: option.split)
qed

end

end
