(* ===== verification/Replicator.thy ===== *)
theory Replicator
  imports Connection Mem_Pool Message "HOL-Library.Multiset"
begin

text \<open>
  \<open>PfReplicator\<close> of \<open>pfs/src/pf_replicator.cpp\<close>: the thread that forwards writes of a
  primary to the other stores and reads objects for recovery, on top of the connection pool
  (\<open>Connection\<close>) and with the buffer pool of \<open>common/include/pf_buffer.h\<close>.
  Requests in flight are slots of the pool of \<open>PfClientIocb\<close>; sub tasks, connections and
  reply buffers are numbers. The outcomes of sending, receiving and connecting come from
  outside. The theory shows that no sub task is lost or completed twice, and how the
  count of requests in flight on a connection drifts.
\<close>

section \<open>State\<close>

record rep_task =
  rt_opcode :: u8
  rt_store_id :: u64
  rt_cmd :: PfMessageHead
  rt_data_buf :: u64
  rt_volume_id :: u64
  rt_offset :: u64
  rt_length :: u64
  rt_snap_seq :: u32
  rt_meta_ver :: u16

record rep_iocb =
  ri_cmd :: PfMessageHead
  ri_task :: "nat option"
  ri_data :: "nat option"
  ri_reply :: "nat option"
  ri_conn :: "nat option"

record peer_addr =
  pa_conn :: "nat option"
  pa_curr :: nat
  pa_ips :: "string list"

datatype rep_event =
    Rep_io_req nat
  | Rep_io_complete nat
  | Rep_recovery_read nat
  | Rep_conn_closed nat
  | Rep_other int

text \<open>What the replicator asks of others: events for itself, a delayed event, completions.\<close>

datatype rep_action =
    Rep_post rep_event
  | Rep_delay nat
  | Rep_error nat u16
  | Rep_complete nat u16
  | Rep_complete_meta_ver nat u16 u16
  | Rep_send nat nat
  | Rep_send_data nat nat
  | Rep_recv_data nat nat

text \<open>
  \<open>rp_ext\<close> are the outcomes of \<open>post_recv\<close> and \<open>post_send\<close>, \<open>rp_full\<close> those of
  \<open>post_event\<close>, each in the order of the calls.
  \<open>rp_reply\<close> is the content of the reply buffers.
\<close>

record replicator = conn_state +
  rp_iocb :: "nat \<Rightarrow> rep_iocb"
  rp_pool :: mem_pool
  rp_cmd_pool :: "nat fixed_queue"
  rp_reply_pool :: "nat fixed_queue"
  rp_reply :: "nat \<Rightarrow> PfMessageReply"
  rp_task :: "nat \<Rightarrow> rep_task"
  rp_peers :: "(u64 \<times> peer_addr) list"
  rp_ext :: "nat \<Rightarrow> int"
  rp_cnt :: nat
  rp_full :: "nat \<Rightarrow> int"
  rp_full_cnt :: nat
  rp_acts :: "rep_action list"

abbreviation ract :: "rep_action \<Rightarrow> replicator \<Rightarrow> replicator" where
  "ract a r \<equiv> r\<lparr>rp_acts := rp_acts r @ [a]\<rparr>"

abbreviation upd_slot :: "nat \<Rightarrow> (rep_iocb \<Rightarrow> rep_iocb) \<Rightarrow> replicator \<Rightarrow> replicator" where
  "upd_slot i f r \<equiv> r\<lparr>rp_iocb := (rp_iocb r)(i := f (rp_iocb r i))\<rparr>"

definition rep_call :: "replicator \<Rightarrow> int \<times> replicator" where
  "rep_call r = (rp_ext r (rp_cnt r), r\<lparr>rp_cnt := rp_cnt r + 1\<rparr>)"

text \<open>An event that does not fit into the queue is dropped; only the handler of the network looks at the result.\<close>

definition rep_post :: "rep_event \<Rightarrow> replicator \<Rightarrow> int \<times> replicator" where
  "rep_post ev r =
     (let rc = rp_full r (rp_full_cnt r);
          r1 = r\<lparr>rp_full_cnt := rp_full_cnt r + 1\<rparr>
      in (rc, if rc = 0 then ract (Rep_post ev) r1 else r1))"

section \<open>Buffers and peers\<close>

text \<open>
  \<open>BufferPool\<close>. Taking from an empty pool throws an exception, so the tests for NULL
  that follow it never succeed.
\<close>

definition bd_alloc :: "replicator \<Rightarrow> fault + nat \<times> replicator" where
  "bd_alloc r = bnd (dequeue (rp_reply_pool r)) (\<lambda>(b, q). Inr (b, r\<lparr>rp_reply_pool := q\<rparr>))"

definition bd_free :: "nat \<Rightarrow> replicator \<Rightarrow> replicator" where
  "bd_free b r = r\<lparr>rp_reply_pool := snd (enqueue (rp_reply_pool r) b)\<rparr>"

text \<open>The replicator keeps a connection alive while it resends its requests.\<close>

definition replicator_on_conn_close :: "nat \<Rightarrow> replicator \<Rightarrow> replicator" where
  "replicator_on_conn_close c r =
     (if rc_unclean (cs_conn r c) then snd (rep_post (Rep_conn_closed c) (conn_add_ref c r)) else r)"

definition add_peer :: "u64 \<Rightarrow> string \<Rightarrow> string \<Rightarrow> replicator \<Rightarrow> replicator" where
  "add_peer store_id ip1 ip2 r =
     r\<lparr>rp_peers := AList.update store_id \<lparr>pa_conn = None, pa_curr = 0, pa_ips = [ip1, ip2]\<rparr> (rp_peers r)\<rparr>"

text \<open>The loop over the addresses of a peer; \<open>n\<close> rounds are left.\<close>

primrec try_ips :: "nat \<Rightarrow> u64 \<Rightarrow> peer_addr \<Rightarrow> replicator \<Rightarrow> nat option \<times> replicator" where
  "try_ips 0 store_id a r = (None, r\<lparr>rp_peers := AList.update store_id a (rp_peers r)\<rparr>)"
| "try_ips (Suc n) store_id a r =
     (let ip = pa_ips a ! pa_curr a;
          next = (\<lambda>x. x\<lparr>pa_curr := (pa_curr x + 1) mod length (pa_ips x)\<rparr>)
      in if ip \<noteq> []
         then (case pool_get_conn replicator_on_conn_close ip r of (c, r1) \<Rightarrow>
                 if c \<noteq> None
                 then (c, r1\<lparr>rp_peers := AList.update store_id (a\<lparr>pa_conn := c\<rparr>) (rp_peers r1)\<rparr>)
                 else try_ips n store_id (next (a\<lparr>pa_conn := None\<rparr>)) r1)
         else try_ips n store_id (next a) r)"

definition rep_get_conn :: "u64 \<Rightarrow> replicator \<Rightarrow> nat option \<times> replicator" where
  "rep_get_conn store_id r =
     (case map_of (rp_peers r) store_id of
        None \<Rightarrow> (None, r)
      | Some a \<Rightarrow>
          if (case pa_conn a of None \<Rightarrow> False | Some c \<Rightarrow> rc_ok (cs_conn r c)) then (pa_conn a, r)
          else try_ips (length (pa_ips a)) store_id a r)"

section \<open>Requests\<close>

text \<open>Giving a slot back after a failure, or when its request is done.\<close>

definition slot_free :: "nat \<Rightarrow> replicator \<Rightarrow> fault + replicator" where
  "slot_free i r =
     bnd (pool_free (rp_pool r) i) (\<lambda>p. Inr ((upd_slot i (\<lambda>x. x\<lparr>ri_conn := None\<rparr>) r)\<lparr>rp_pool := p\<rparr>))"

text \<open>
  The end of \<open>begin_replicate_io\<close> and \<open>begin_recovery_read_io\<close>: \<open>failed\<close> is what happens
  to the sub task when a call fails.
\<close>

definition send_slot :: "(replicator \<Rightarrow> replicator) \<Rightarrow> nat \<Rightarrow> nat \<Rightarrow> replicator \<Rightarrow> fault + int \<times> replicator" where
  "send_slot failed c i r =
     bnd (bd_alloc r) (\<lambda>(b, r1).
       case rep_call r1 of (rc, r2) \<Rightarrow>
         if rc \<noteq> 0 then bnd (slot_free i (bd_free b (failed r2))) (\<lambda>x. Inr (- EAGAIN, x))
         else case rep_call (upd_slot i (\<lambda>x. x\<lparr>ri_reply := Some b\<rparr>) r2) of (rc2, r3) \<Rightarrow>
           if rc2 \<noteq> 0 then bnd (slot_free i (failed r3)) (\<lambda>x. Inr (- EAGAIN, x))
           else Inr (rc2, ract (Rep_send c i) r3))"

text \<open>A request over the throttle is handed to the delay thread; the event for it is always accepted there.\<close>

definition begin_replicate_io :: "nat \<Rightarrow> replicator \<Rightarrow> fault + int \<times> replicator" where
  "begin_replicate_io t r =
     (case rep_get_conn (rt_store_id (rp_task r t)) r of
        (None, r1) \<Rightarrow> Inr (uint MSG_STATUS_CONN_LOST, ract (Rep_error t MSG_STATUS_CONN_LOST) r1)
      | (Some c, r1) \<Rightarrow>
          (case get_throttle c r1 of (ok, r2) \<Rightarrow>
             if \<not> ok then Inr (- EAGAIN, ract (Rep_delay t) r2)
             else case pool_alloc (rp_pool r2) of
                 (None, _) \<Rightarrow> Inr (- EAGAIN, ract (Rep_delay t) r2)
               | (Some i, p) \<Rightarrow>
                   let task = rp_task r2 t;
                       cmd = (rt_cmd task)\<lparr>m_command_id := m_command_id (ri_cmd (rp_iocb r2 i))\<rparr>
                   in if m_opcode cmd \<noteq> S5_OP_WRITE then Inl Assert_failed
                      else if rt_opcode task \<noteq> S5_OP_WRITE \<and> rt_opcode task \<noteq> S5_OP_REPLICATE_WRITE
                      then Inl Assert_failed
                      else send_slot (\<lambda>x. snd (rep_post (Rep_io_req t) x)) c i
                        (upd_slot i (\<lambda>x. x\<lparr>ri_cmd := cmd\<lparr>m_opcode := S5_OP_REPLICATE_WRITE, m_buf_addr := rt_data_buf task\<rparr>,
                              ri_task := Some t, ri_data := Some t, ri_conn := Some c\<rparr>)
                           (r2\<lparr>rp_pool := p,
                              rp_task := (rp_task r2)(t := task\<lparr>rt_opcode := S5_OP_REPLICATE_WRITE\<rparr>)\<rparr>))))"

definition begin_recovery_read_io :: "nat \<Rightarrow> replicator \<Rightarrow> fault + int \<times> replicator" where
  "begin_recovery_read_io t r =
     (case pool_alloc (rp_pool r) of
        (None, _) \<Rightarrow> Inr (- EAGAIN, ract (Rep_complete t MSG_STATUS_NO_RESOURCE) r)
      | (Some i, p) \<Rightarrow>
          let task = rp_task r t;
              r1 = upd_slot i (\<lambda>x. x\<lparr>ri_task := Some t, ri_data := Some t,
                     ri_cmd := (ri_cmd x)\<lparr>m_opcode := rt_opcode task, m_buf_addr := rt_data_buf task,
                       m_vol_id := rt_volume_id task, m_rkey := 0, m_offset := rt_offset task,
                       m_length := ucast (rt_length task), m_snap_seq := rt_snap_seq task,
                       m_meta_ver := rt_meta_ver task\<rparr>\<rparr>) (r\<lparr>rp_pool := p\<rparr>)
          in case rep_get_conn (rt_store_id task) r1 of
               (None, r2) \<Rightarrow>
                 bnd (pool_free (rp_pool r2) i) (\<lambda>p2.
                   Inr (- EINVAL, (ract (Rep_complete t MSG_STATUS_CONN_LOST) r2)\<lparr>rp_pool := p2\<rparr>))
             | (Some c, r2) \<Rightarrow>
                 send_slot (ract (Rep_complete t MSG_STATUS_NO_RESOURCE)) c i
                   (upd_slot i (\<lambda>x. x\<lparr>ri_conn := Some c\<rparr>) r2))"

definition process_io_complete :: "nat \<Rightarrow> replicator \<Rightarrow> fault + int \<times> replicator" where
  "process_io_complete i r =
     (let io = rp_iocb r i
      in case ri_reply io of
           None \<Rightarrow> Inl Null_deref
         | Some b \<Rightarrow>
             bnd (if m_opcode (ri_cmd io) = S5_OP_HEARTBEAT
                  then (case ri_conn io of
                          None \<Rightarrow> Inl Null_deref
                        | Some c \<Rightarrow> Inr (upd_conn c (\<lambda>x. x\<lparr>rc_heartbeat := rc_heartbeat x - 1\<rparr>) r))
                  else (case ri_task io of
                          None \<Rightarrow> Inl Null_deref
                        | Some t \<Rightarrow> Inr (ract (Rep_complete_meta_ver t (r_status (rp_reply r b)) (r_meta_ver (rp_reply r b))) r)))
               (\<lambda>r1. bnd (slot_free i (upd_slot i (\<lambda>x. x\<lparr>ri_reply := None, ri_data := None\<rparr>) (bd_free b r1)))
                  (\<lambda>r2. Inr (0, r2))))"

text \<open>One slot of the loop over all requests when a connection was closed.\<close>

definition resend_slot :: "nat \<Rightarrow> nat \<Rightarrow> replicator \<Rightarrow> fault + replicator" where
  "resend_slot c i r =
     (let io = rp_iocb r i; op = m_opcode (ri_cmd io);
          drop = (\<lambda>x. slot_free i (upd_slot i (\<lambda>k. k\<lparr>ri_reply := None, ri_data := None\<rparr>) x))
      in if ri_conn io \<noteq> Some c then Inr r
         else if op = S5_OP_REPLICATE_WRITE \<or> op = S5_OP_RECOVERY_READ
         then (case ri_task io of
                 None \<Rightarrow> Inl Null_deref
               | Some t \<Rightarrow> bnd (drop r) (\<lambda>r1.
                   Inr (snd (rep_post (if op = S5_OP_REPLICATE_WRITE then Rep_io_req t else Rep_recovery_read t) r1))))
         else if op = S5_OP_HEARTBEAT then drop r
         else Inl Fatal_exit)"

primrec resend_slots :: "nat \<Rightarrow> nat list \<Rightarrow> replicator \<Rightarrow> fault + replicator" where
  "resend_slots c [] r = Inr r"
| "resend_slots c (i # is) r = bnd (resend_slot c i r) (resend_slots c is)"

definition handle_conn_close :: "nat \<Rightarrow> replicator \<Rightarrow> fault + int \<times> replicator" where
  "handle_conn_close c r =
     (if \<not> rc_unclean (cs_conn r c) then Inl Assert_failed
      else bnd (resend_slots c [0..<nat (p_count (rp_pool r))] r) (\<lambda>r1. Inr (0, pf_conn_dec_ref replicator_on_conn_close c r1)))"

definition rep_process_event :: "rep_event \<Rightarrow> replicator \<Rightarrow> fault + int \<times> replicator" where
  "rep_process_event ev r =
     (case ev of
        Rep_io_req t \<Rightarrow> begin_replicate_io t r
      | Rep_io_complete i \<Rightarrow> process_io_complete i r
      | Rep_recovery_read t \<Rightarrow> begin_recovery_read_io t r
      | Rep_conn_closed c \<Rightarrow> handle_conn_close c r
      | Rep_other n \<Rightarrow> Inl Fatal_exit)"

text \<open>
  The thread for delayed requests: it waits when the time is over already, by the time
  that has passed since, and does not wait otherwise.
\<close>

definition delay_usleep :: "int \<Rightarrow> int \<Rightarrow> int" where
  "delay_usleep now deadline = (let delta = now - deadline in if delta > 0 then delta else 0)"

definition delay_event :: "nat \<Rightarrow> replicator \<Rightarrow> replicator" where
  "delay_event t r = snd (rep_post (Rep_io_req t) r)"

section \<open>The network\<close>

text \<open>
  A completed buffer: the head of the request in a slot, a reply buffer, or the data of
  the request in a slot. The source tells them apart by their length.
\<close>

datatype rep_bd = Bd_head nat | Bd_reply nat | Bd_data nat

definition pick_iocb :: "nat \<Rightarrow> replicator \<Rightarrow> fault + nat" where
  "pick_iocb cid r = (if cid < p_slots (rp_pool r) then Inr cid else Inl Out_of_bounds)"

definition replicator_on_tcp_network_done :: "nat \<Rightarrow> rep_bd \<Rightarrow> int \<Rightarrow> replicator \<Rightarrow> fault + int \<times> replicator" where
  "replicator_on_tcp_network_done c bd complete_status r =
     (if complete_status = 0
      then (case bd of
              Bd_head i \<Rightarrow>
                if IS_WRITE_OP (m_opcode (ri_cmd (rp_iocb r i)))
                then (case ri_task (rp_iocb r i) of
                        None \<Rightarrow> Inl Null_deref
                      | Some t \<Rightarrow> Inr (1, ract (Rep_send_data c t) (conn_add_ref c r)))
                else Inr (0, r)
            | Bd_reply b \<Rightarrow>
                bnd (pick_iocb (unat (r_command_id (rp_reply r b))) r) (\<lambda>i.
                  let r1 = upd_slot i (\<lambda>x. x\<lparr>ri_reply := Some b\<rparr>) r
                  in if IS_READ_OP (m_opcode (ri_cmd (rp_iocb r1 i)))
                     then Inr (1, ract (Rep_recv_data c i) (conn_add_ref c r1))
                     else Inr (rep_post (Rep_io_complete i) (put_throttle c r1)))
            | Bd_data i \<Rightarrow>
                if IS_READ_OP (m_opcode (ri_cmd (rp_iocb r i)))
                then Inr (rep_post (Rep_io_complete i) (put_throttle c r))
                else Inr (0, r))
      else if complete_status = 5
      then (let r1 = upd_conn c (\<lambda>x. x\<lparr>rc_unclean := True\<rparr>) r
            in Inr (0, case bd of Bd_reply b \<Rightarrow> bd_free b r1 | _ \<Rightarrow> r1))
      else Inl Fatal_exit)"

definition replicator_on_rdma_network_done :: "nat \<Rightarrow> rep_bd \<Rightarrow> int \<Rightarrow> replicator \<Rightarrow> fault + int \<times> replicator" where
  "replicator_on_rdma_network_done c bd complete_status r =
     (if complete_status = 0
      then (case bd of
              Bd_reply b \<Rightarrow>
                bnd (pick_iocb (unat (r_command_id (rp_reply r b))) r) (\<lambda>i.
                  Inr (rep_post (Rep_io_complete i) (put_throttle c r)))
            | _ \<Rightarrow> Inr (0, r))
      else if complete_status = 5
      then (let r1 = upd_conn c (\<lambda>x. x\<lparr>rc_unclean := True\<rparr>) r
            in case bd of
                 Bd_reply b \<Rightarrow> Inr (0, put_throttle c (bd_free b r1))
               | Bd_head i \<Rightarrow> Inr (0, r1)
               | Bd_data i \<Rightarrow> Inl Fatal_exit)
      else Inl Fatal_exit)"

section \<open>Start\<close>

text \<open>\<open>BufferPool::init\<close>: a queue of \<open>n\<close> buffers; it throws when memory is missing.\<close>

definition buffer_pool_init :: "int \<Rightarrow> nat fixed_queue \<Rightarrow> replicator \<Rightarrow> fault + nat fixed_queue \<times> replicator" where
  "buffer_pool_init n q0 r =
     (case rep_call r of (nomem, r1) \<Rightarrow>
        case q_init (nomem = 0) 0 n q0 of (rc, q) \<Rightarrow>
          if rc \<noteq> 0 then Inl Runtime_error
          else case rep_call r1 of (nomem2, r2) \<Rightarrow>
            if nomem2 \<noteq> 0 then Inl Runtime_error
            else case rep_call r2 of (nomem3, r3) \<Rightarrow>
              if nomem3 \<noteq> 0 then Inl Runtime_error
              else Inr (enq_all enqueue [0..<nat n] q, r3))"

text \<open>
  The loop that gives every request its command buffer and its command id. The content of
  the command buffer is the field \<open>ri_cmd\<close> of the slot.
\<close>

primrec init_slots :: "nat list \<Rightarrow> replicator \<Rightarrow> fault + replicator" where
  "init_slots [] r = Inr r"
| "init_slots (n # ns) r =
     (case pool_alloc (rp_pool r) of
        (None, _) \<Rightarrow> Inl Null_deref
      | (Some i, p) \<Rightarrow>
          bnd (dequeue (rp_cmd_pool r)) (\<lambda>(cb, cq).
          bnd (bd_alloc (upd_slot i (\<lambda>x. x\<lparr>ri_cmd := (ri_cmd x)\<lparr>m_command_id := of_nat n\<rparr>, ri_data := None, ri_reply := None\<rparr>)
                 (r\<lparr>rp_pool := p, rp_cmd_pool := cq\<rparr>))) (\<lambda>(b, r1).
            let r2 = bd_free b r1
            in bnd (pool_free (rp_pool r2) i) (\<lambda>p2. init_slots ns (r2\<lparr>rp_pool := p2\<rparr>)))))"

definition rep_iocb_depth :: int where "rep_iocb_depth = 8192"

text \<open>\<open>PfReplicator::init\<close> from the buffer pools on; the poller and the connection pool hold no state of the model.\<close>

definition rep_init :: "replicator \<Rightarrow> fault + int \<times> replicator" where
  "rep_init r =
     bnd (buffer_pool_init rep_iocb_depth (rp_cmd_pool r) r) (\<lambda>(cq, r0).
     bnd (buffer_pool_init rep_iocb_depth (rp_reply_pool r0) (r0\<lparr>rp_cmd_pool := cq\<rparr>)) (\<lambda>(rq, r1).
       case rep_call (r1\<lparr>rp_reply_pool := rq\<rparr>) of (spin_rc, r2) \<Rightarrow> case rep_call r2 of (nomem, r3) \<Rightarrow> case rep_call r3 of (nomem2, r4) \<Rightarrow>
         case pool_init spin_rc (nomem = 0) (nomem2 = 0) rep_iocb_depth (rp_pool r4) of (rc, p) \<Rightarrow>
           if rc \<noteq> 0 then Inr (rc, r4\<lparr>rp_pool := p\<rparr>)
           else bnd (init_slots [0..<nat rep_iocb_depth] (r4\<lparr>rp_pool := p\<rparr>)) (\<lambda>r5. Inr (0, r5))))"

section \<open>Where the sub tasks are\<close>

definition used_slots :: "replicator \<Rightarrow> nat set" where
  "used_slots r = {i. i < p_slots (rp_pool r) \<and> ri_conn (rp_iocb r i) \<noteq> None}"

definition inflight :: "replicator \<Rightarrow> nat multiset" where
  "inflight r = image_mset (\<lambda>i. the (ri_task (rp_iocb r i))) (mset_set (used_slots r))"

fun event_tasks :: "rep_event \<Rightarrow> nat multiset" where
  "event_tasks (Rep_io_req t) = {#t#}"
| "event_tasks (Rep_recovery_read t) = {#t#}"
| "event_tasks _ = {#}"

fun act_tasks :: "rep_action \<Rightarrow> nat multiset" where
  "act_tasks (Rep_post ev) = event_tasks ev"
| "act_tasks (Rep_delay t) = {#t#}"
| "act_tasks (Rep_error t _) = {#t#}"
| "act_tasks (Rep_complete t _) = {#t#}"
| "act_tasks (Rep_complete_meta_ver t _ _) = {#t#}"
| "act_tasks _ = {#}"

text \<open>Sub tasks in flight, put back into a queue, and completed.\<close>

definition ledger :: "replicator \<Rightarrow> nat multiset" where
  "ledger r = inflight r + sum_list (map act_tasks (rp_acts r))"

definition rep_inv :: "replicator \<Rightarrow> bool" where
  "rep_inv r \<longleftrightarrow>
     pool_inv (rp_pool r) \<and> p_count (rp_pool r) = int (p_slots (rp_pool r)) \<and>
     pool_avail (rp_pool r) = {..<p_slots (rp_pool r)} - used_slots r \<and>
     (\<forall>i \<in> used_slots r. ri_task (rp_iocb r i) \<noteq> None \<and>
        m_opcode (ri_cmd (rp_iocb r i)) \<in> {S5_OP_REPLICATE_WRITE, S5_OP_RECOVERY_READ})"

lemma finite_used [simp]: "finite (used_slots r)"
  by (simp add: used_slots_def)

text \<open>Operations that touch neither slots nor sub tasks.\<close>

definition quiet :: "replicator \<Rightarrow> replicator \<Rightarrow> bool" where
  "quiet r r' \<longleftrightarrow> rp_iocb r' = rp_iocb r \<and> rp_pool r' = rp_pool r \<and> rp_task r' = rp_task r \<and>
     sum_list (map act_tasks (rp_acts r')) = sum_list (map act_tasks (rp_acts r)) \<and> rp_full r' = rp_full r"

lemma quiet_refl [simp]: "quiet r r"
  by (simp add: quiet_def)

lemma quiet_trans: "quiet r1 r2 \<Longrightarrow> quiet r2 r3 \<Longrightarrow> quiet r1 r3"
  by (simp add: quiet_def)

lemma quiet_same:
  assumes "quiet r r'"
  shows "rep_inv r' = rep_inv r" "ledger r' = ledger r" "used_slots r' = used_slots r" "rp_pool r' = rp_pool r"
    "rp_iocb r' = rp_iocb r" "rp_task r' = rp_task r" "rp_full r' = rp_full r"
  using assms by (simp_all add: quiet_def rep_inv_def ledger_def inflight_def used_slots_def)

interpretation repconn: conn_user quiet replicator_on_conn_close
  by unfold_locales
    (simp_all add: quiet_def replicator_on_conn_close_def conn_add_ref_def rep_post_def Let_def)

lemma quiet_try_ips: "quiet r (snd (try_ips n k a r))"
proof (induction n arbitrary: a r)
  case 0
  then show ?case by (simp add: quiet_def)
next
  case (Suc n)
  let ?g = "pool_get_conn replicator_on_conn_close (pa_ips a ! pa_curr a) r"
  have g: "quiet r (snd ?g)" by (rule repconn.same_get_conn)
  then have g': "quiet r ((snd ?g)\<lparr>rp_peers := p\<rparr>)" for p by (simp add: quiet_def)
  show ?case using Suc g' quiet_trans [OF g Suc] by (simp add: Let_def case_prod_beta)
qed

lemma quiet_get_conn: "quiet r (snd (rep_get_conn k r))"
  using quiet_try_ips by (simp add: rep_get_conn_def split: option.split)

lemma quiet_bd: "bd_alloc r = Inr (b, r') \<Longrightarrow> quiet r r'" "quiet r (bd_free b r)" "quiet r (snd (rep_call r))"
  by (auto simp: bd_alloc_def bd_free_def rep_call_def quiet_def)

section \<open>Taking and giving back a slot\<close>

lemma free_slot:
  assumes inv: "rep_inv r" and al: "pool_alloc (rp_pool r) = (Some i, p)"
  shows "i < p_slots (rp_pool r)" "i \<notin> used_slots r" "pool_inv p" "p_slots p = p_slots (rp_pool r)" "p_count p = p_count (rp_pool r)"
    "pool_avail p = {..<p_slots (rp_pool r)} - insert i (used_slots r)"
proof -
  have P: "i \<in> pool_avail (rp_pool r)" "pool_inv p" "pool_avail p = pool_avail (rp_pool r) - {i}" "p_slots p = p_slots (rp_pool r)"
    using omp.alloc_some [OF _ al] inv by (simp_all add: rep_inv_def)
  then show "i < p_slots (rp_pool r)" "i \<notin> used_slots r" "pool_inv p" "p_slots p = p_slots (rp_pool r)"
    "pool_avail p = {..<p_slots (rp_pool r)} - insert i (used_slots r)"
    using inv by (auto simp: rep_inv_def)
  show "p_count p = p_count (rp_pool r)" using al by (auto simp: pool_alloc_def split: if_splits sum.splits)
qed

lemma take_slot:
  assumes inv: "rep_inv r" and al: "pool_alloc (rp_pool r) = (Some i, p)"
    and r': "rp_pool r' = p" "rp_iocb r' = (rp_iocb r)(i := x)" "rp_acts r' = rp_acts r"
    and x: "ri_conn x = Some c" "ri_task x = Some t" "m_opcode (ri_cmd x) \<in> {S5_OP_REPLICATE_WRITE, S5_OP_RECOVERY_READ}"
  shows "rep_inv r' \<and> ledger r' = add_mset t (ledger r) \<and> i \<in> used_slots r'"
proof -
  note F = free_slot [OF inv al]
  have u: "used_slots r' = insert i (used_slots r)" using F(1,4) r' x(1) by (auto simp: used_slots_def)
  have "inflight r' = add_mset t (image_mset (\<lambda>j. the (ri_task (rp_iocb r' j))) (mset_set (used_slots r)))"
    using F(2) r'(2) x(2) by (simp add: inflight_def u)
  also have "image_mset (\<lambda>j. the (ri_task (rp_iocb r' j))) (mset_set (used_slots r)) = inflight r"
    unfolding inflight_def using F(2) r'(2) by (intro image_mset_cong) auto
  finally have l: "ledger r' = add_mset t (ledger r)" using r'(3) by (simp add: ledger_def)
  have "rep_inv r'" using inv F r' x u unfolding rep_inv_def by auto
  then show ?thesis using l u by simp
qed

lemma give_slot:
  assumes inv: "rep_inv r" and i: "i \<in> used_slots r" and t: "ri_task (rp_iocb r i) = Some t"
  obtains r' where "slot_free i r = Inr r'" and "rep_inv r'" and "ledger r = add_mset t (ledger r')"
    and "rp_full r' = rp_full r" and "p_slots (rp_pool r') = p_slots (rp_pool r)"
proof -
  have pi: "pool_inv (rp_pool r)" "i \<notin> pool_avail (rp_pool r)" "i < p_slots (rp_pool r)"
    using inv i by (auto simp: rep_inv_def used_slots_def)
  obtain p where p: "pool_free (rp_pool r) i = Inr p" "pool_inv p" "pool_avail p = insert i (pool_avail (rp_pool r))"
      "p_slots p = p_slots (rp_pool r)"
    using omp.release_ok [OF pi] by (cases "pool_free (rp_pool r) i") simp_all
  have pc: "p_count p = p_count (rp_pool r)" using p(1) by (auto simp: pool_free_def split: prod.splits if_splits)
  let ?r = "(upd_slot i (\<lambda>x. x\<lparr>ri_conn := None\<rparr>) r)\<lparr>rp_pool := p\<rparr>"
  have u: "used_slots ?r = used_slots r - {i}" using p(4) by (auto simp: used_slots_def)
  have "inflight r = add_mset t (image_mset (\<lambda>j. the (ri_task (rp_iocb r j))) (mset_set (used_slots r - {i})))"
    using i t by (simp add: inflight_def mset_set.remove)
  also have "image_mset (\<lambda>j. the (ri_task (rp_iocb r j))) (mset_set (used_slots r - {i})) = inflight ?r"
    unfolding inflight_def u by (intro image_mset_cong) auto
  finally have l: "ledger r = add_mset t (ledger ?r)" by (simp add: ledger_def)
  have "rep_inv ?r" using inv p pc u i unfolding rep_inv_def by (auto simp: used_slots_def)
  then show ?thesis using that [of ?r] p(1,4) l u by (simp add: slot_free_def)
qed

text \<open>Changes of a slot that leave its connection, its sub task and its operation alone.\<close>

lemma touch_slot:
  assumes "\<And>x. ri_conn (f x) = ri_conn x" and "\<And>x. ri_task (f x) = ri_task x" and "\<And>x. ri_cmd (f x) = ri_cmd x"
  shows "rep_inv (upd_slot i f r) = rep_inv r" "ledger (upd_slot i f r) = ledger r"
    "used_slots (upd_slot i f r) = used_slots r" "ri_task (rp_iocb (upd_slot i f r) j) = ri_task (rp_iocb r j)"
proof -
  show u: "used_slots (upd_slot i f r) = used_slots r" using assms(1) by (auto simp: used_slots_def)
  show "ri_task (rp_iocb (upd_slot i f r) j) = ri_task (rp_iocb r j)" using assms(2) by simp
  have "(\<lambda>j. the (ri_task (rp_iocb (upd_slot i f r) j))) = (\<lambda>j. the (ri_task (rp_iocb r j)))" using assms(2) by (simp add: fun_eq_iff)
  then have "inflight (upd_slot i f r) = inflight r" unfolding inflight_def u by simp
  then show "ledger (upd_slot i f r) = ledger r" by (simp add: ledger_def)
  have c: "ri_cmd (rp_iocb (upd_slot i f r) j) = ri_cmd (rp_iocb r j)" "ri_task (rp_iocb (upd_slot i f r) j) = ri_task (rp_iocb r j)" for j
    using assms(2,3) by simp_all
  have "rp_pool (upd_slot i f r) = rp_pool r" by simp
  then show "rep_inv (upd_slot i f r) = rep_inv r" unfolding rep_inv_def u c by (simp only:)
qed

lemma ledger_act: "ledger (ract a r) = act_tasks a + ledger r"
  by (simp add: ledger_def inflight_def used_slots_def)

lemma rep_inv_act: "rep_inv (ract a r) = rep_inv r"
  by (simp add: rep_inv_def used_slots_def)

lemma one_act:
  assumes "rp_iocb r' = rp_iocb r" and "rp_pool r' = rp_pool r" and "rp_acts r' = rp_acts r @ [a]"
  shows "rep_inv r' = rep_inv r" "ledger r' = act_tasks a + ledger r" "used_slots r' = used_slots r"
  using assms by (simp_all add: rep_inv_def used_slots_def ledger_def inflight_def)

lemma post_ok:
  assumes "rp_full r = (\<lambda>_. 0)"
  shows "rep_inv (snd (rep_post ev r)) = rep_inv r" "ledger (snd (rep_post ev r)) = event_tasks ev + ledger r"
    "rp_full (snd (rep_post ev r)) = (\<lambda>_. 0)" "used_slots (snd (rep_post ev r)) = used_slots r"
    "rp_iocb (snd (rep_post ev r)) = rp_iocb r" "fst (rep_post ev r) = 0" "rp_pool (snd (rep_post ev r)) = rp_pool r"
    "cs_conn (snd (rep_post ev r)) = cs_conn r"
  using assms by (simp_all add: rep_post_def Let_def rep_inv_def ledger_def inflight_def used_slots_def)

text \<open>
  What is promised about an event: it ends with an exception of an empty reply pool, or
  keeps the invariant and adds the given sub tasks to the ledger.
\<close>

definition keeps_tasks :: "nat multiset \<Rightarrow> replicator \<Rightarrow> fault + int \<times> replicator \<Rightarrow> bool" where
  "keeps_tasks m r res \<longleftrightarrow>
     (case res of Inl f \<Rightarrow> f = Logic_error | Inr (rc, r') \<Rightarrow> rep_inv r' \<and> ledger r' = m + ledger r)"

lemma send_slot_tasks:
  assumes inv: "rep_inv r" and i: "i \<in> used_slots r" and t: "ri_task (rp_iocb r i) = Some t" and full: "rp_full r = (\<lambda>_. 0)"
    and failed: "\<And>x. rp_full x = (\<lambda>_. 0) \<Longrightarrow>
      rep_inv (failed x) = rep_inv x \<and> ledger (failed x) = add_mset t (ledger x) \<and> used_slots (failed x) = used_slots x \<and>
      rp_iocb (failed x) = rp_iocb x"
  shows "keeps_tasks {#} r (send_slot failed c i r)"
proof (cases "bd_alloc r")
  case (Inl f)
  then show ?thesis by (auto simp: keeps_tasks_def send_slot_def bd_alloc_def dequeue_def dequeue_nolock_def bnd_eq_Inl split: if_splits)
next
  case (Inr br)
  obtain b r1 where br: "br = (b, r1)" by (rule prod.exhaust)
  let ?r2 = "snd (rep_call r1)"
  have q2: "quiet r ?r2" using quiet_trans [OF quiet_bd(1) quiet_bd(3)] Inr br by blast
  note Q2 = quiet_same [OF q2]
  let ?r3 = "upd_slot i (\<lambda>x. x\<lparr>ri_reply := Some b\<rparr>) ?r2"
  let ?r4 = "snd (rep_call ?r3)"
  have q4: "quiet ?r3 ?r4" by (rule quiet_bd(3))
  note Q4 = quiet_same [OF q4]
  have T: "rep_inv ?r3 = rep_inv r" "ledger ?r3 = ledger r" "used_slots ?r3 = used_slots r"
      "ri_task (rp_iocb ?r3 i) = Some t" "rp_full ?r3 = (\<lambda>_. 0)"
    using touch_slot [where f = "\<lambda>x. x\<lparr>ri_reply := Some b\<rparr>" and i = i and r = ?r2] Q2 t full inv by simp_all
  have give: "\<exists>x. slot_free i y = Inr x \<and> rep_inv x \<and> ledger x = ledger r"
    if y: "rep_inv y" "ledger y = add_mset t (ledger r)" "used_slots y = used_slots r" "ri_task (rp_iocb y i) = Some t" for y
    using give_slot [OF y(1) _ y(4)] i y(2,3) by (metis add_mset_add_mset_same_iff)
  show ?thesis
  proof (cases "fst (rep_call r1) = 0")
    case False
    let ?y = "bd_free b (failed ?r2)"
    have F: "rep_inv (failed ?r2)" "ledger (failed ?r2) = add_mset t (ledger r)" "used_slots (failed ?r2) = used_slots r"
        "rp_iocb (failed ?r2) = rp_iocb r"
      using failed [of ?r2] Q2 full inv by simp_all
    note Y = quiet_same [OF quiet_bd(2) [where r = "failed ?r2" and b = b]]
    obtain x where "slot_free i ?y = Inr x" "rep_inv x" "ledger x = ledger r" using give [of ?y] Y F t by auto
    then show ?thesis using Inr br False by (simp add: keeps_tasks_def send_slot_def case_prod_beta)
  next
    case True
    show ?thesis
    proof (cases "fst (rep_call ?r3) = 0")
      case False
      have F: "rep_inv (failed ?r4)" "ledger (failed ?r4) = add_mset t (ledger r)" "used_slots (failed ?r4) = used_slots r"
          "ri_task (rp_iocb (failed ?r4) i) = Some t"
        using failed [of ?r4] Q4 T inv by simp_all
      obtain x where "slot_free i (failed ?r4) = Inr x" "rep_inv x" "ledger x = ledger r" using give [OF F] by auto
      then show ?thesis using Inr br True False by (simp add: keeps_tasks_def send_slot_def case_prod_beta)
    next
      case ok: True
      have "rep_inv (ract (Rep_send c i) ?r4)" "ledger (ract (Rep_send c i) ?r4) = ledger r"
        using Q4 T inv by (simp_all add: rep_inv_act ledger_act)
      then show ?thesis using Inr br True ok by (simp add: keeps_tasks_def send_slot_def case_prod_beta)
    qed
  qed
qed

section \<open>Events\<close>

lemma keeps_tasks_act:
  assumes "quiet r r'" and "rep_inv r" and "act_tasks a = m"
  shows "keeps_tasks m r (Inr (rc, ract a r'))"
  using assms quiet_same(1,2) [OF assms(1)] by (simp add: keeps_tasks_def rep_inv_act ledger_act)

lemma keeps_tasks_shift: "keeps_tasks {#} r' res \<Longrightarrow> ledger r' = m + ledger r \<Longrightarrow> keeps_tasks m r res"
  by (auto simp: keeps_tasks_def split: sum.splits)

lemma begin_replicate_io_tasks:
  assumes inv: "rep_inv r" and full: "rp_full r = (\<lambda>_. 0)"
    and op: "m_opcode (rt_cmd (rp_task r t)) = S5_OP_WRITE" "rt_opcode (rp_task r t) \<in> {S5_OP_WRITE, S5_OP_REPLICATE_WRITE}"
  shows "keeps_tasks {#t#} r (begin_replicate_io t r)"
proof -
  obtain k r1 where g: "rep_get_conn (rt_store_id (rp_task r t)) r = (k, r1)" by (rule prod.exhaust)
  have q1: "quiet r r1" using quiet_get_conn [of r "rt_store_id (rp_task r t)"] g by simp
  show ?thesis
  proof (cases k)
    case None
    then show ?thesis using g keeps_tasks_act [OF q1 inv] by (simp add: begin_replicate_io_def)
  next
    case (Some c)
    obtain ok r2 where th: "get_throttle c r1 = (ok, r2)" by (rule prod.exhaust)
    have q2: "quiet r r2" using quiet_trans [OF q1 repconn.same_throttle(1), of c] th by simp
    note Q = quiet_same [OF q2]
    obtain o1 p where al: "pool_alloc (rp_pool r2) = (o1, p)" by (rule prod.exhaust)
    show ?thesis
    proof (cases "\<not> ok \<or> o1 = None")
      case True
      then show ?thesis using g Some th al keeps_tasks_act [OF q2 inv]
        by (cases ok) (simp_all add: begin_replicate_io_def)
    next
      case False
      then obtain i where i: "o1 = Some i" by auto
      let ?task = "rp_task r2 t"
      let ?cmd = "(rt_cmd ?task)\<lparr>m_command_id := m_command_id (ri_cmd (rp_iocb r2 i))\<rparr>"
      let ?f = "\<lambda>x. x\<lparr>ri_cmd := ?cmd\<lparr>m_opcode := S5_OP_REPLICATE_WRITE, m_buf_addr := rt_data_buf ?task\<rparr>,
                  ri_task := Some t, ri_data := Some t, ri_conn := Some c\<rparr>"
      let ?r3 = "upd_slot i ?f (r2\<lparr>rp_pool := p, rp_task := (rp_task r2)(t := ?task\<lparr>rt_opcode := S5_OP_REPLICATE_WRITE\<rparr>)\<rparr>)"
      have T: "rep_inv ?r3 \<and> ledger ?r3 = add_mset t (ledger r2) \<and> i \<in> used_slots ?r3"
        by (rule take_slot [where i = i and p = p and x = "?f (rp_iocb r2 i)"]) (use inv Q al i in simp_all)
      have "keeps_tasks {#} ?r3 (send_slot (\<lambda>x. snd (rep_post (Rep_io_req t) x)) c i ?r3)"
        by (rule send_slot_tasks) (use T Q full post_ok in simp_all)
      then have k: "keeps_tasks {#t#} r (send_slot (\<lambda>x. snd (rep_post (Rep_io_req t) x)) c i ?r3)"
        by (rule keeps_tasks_shift) (use T Q in simp)
      have "begin_replicate_io t r = send_slot (\<lambda>x. snd (rep_post (Rep_io_req t) x)) c i ?r3"
        using g Some th al False i op Q(6) by (auto simp: begin_replicate_io_def Let_def)
      then show ?thesis using k by simp
    qed
  qed
qed

lemma begin_recovery_read_io_tasks:
  assumes inv: "rep_inv r" and full: "rp_full r = (\<lambda>_. 0)" and op: "rt_opcode (rp_task r t) = S5_OP_RECOVERY_READ"
  shows "keeps_tasks {#t#} r (begin_recovery_read_io t r)"
proof -
  obtain o1 p where al: "pool_alloc (rp_pool r) = (o1, p)" by (rule prod.exhaust)
  show ?thesis
  proof (cases o1)
    case None
    then show ?thesis using al keeps_tasks_act [OF quiet_refl inv] by (simp add: begin_recovery_read_io_def)
  next
    case (Some i)
    let ?task = "rp_task r t"
    let ?f = "\<lambda>x. x\<lparr>ri_task := Some t, ri_data := Some t,
                     ri_cmd := (ri_cmd x)\<lparr>m_opcode := rt_opcode ?task, m_buf_addr := rt_data_buf ?task,
                       m_vol_id := rt_volume_id ?task, m_rkey := 0, m_offset := rt_offset ?task,
                       m_length := ucast (rt_length ?task), m_snap_seq := rt_snap_seq ?task,
                       m_meta_ver := rt_meta_ver ?task\<rparr>\<rparr>"
    let ?r1 = "upd_slot i ?f (r\<lparr>rp_pool := p\<rparr>)"
    obtain k r2 where g: "rep_get_conn (rt_store_id ?task) ?r1 = (k, r2)" by (rule prod.exhaust)
    have q2: "quiet ?r1 r2" using quiet_get_conn [of ?r1 "rt_store_id ?task"] g by simp
    note Q = quiet_same [OF q2] and F = free_slot [OF inv al [unfolded Some]]
    show ?thesis
    proof (cases k)
      case None
      have pr: "rp_pool r2 = p" using Q(4) by simp
      have na: "i \<notin> pool_avail p" "i < p_slots p" using F(1,4,6) by simp_all
      obtain p2 where p2: "pool_free p i = Inr p2" "pool_inv p2" "pool_avail p2 = insert i (pool_avail p)" "p_slots p2 = p_slots p"
        using omp.release_ok [OF F(3) na] by (cases "pool_free p i") simp_all
      have pc: "p_count p2 = p_count p" using p2(1) by (auto simp: pool_free_def split: prod.splits if_splits)
      let ?r3 = "(ract (Rep_complete t MSG_STATUS_CONN_LOST) r2)\<lparr>rp_pool := p2\<rparr>"
      have ib: "rp_iocb ?r3 = (rp_iocb r)(i := ?f (rp_iocb r i))" using Q(5) by simp
      have u: "used_slots ?r3 = used_slots r" using ib p2(4) F(4) by (auto simp: used_slots_def)
      have "inflight ?r3 = inflight r" unfolding inflight_def u ib using F(2) by (intro image_mset_cong) auto
      moreover have "sum_list (map act_tasks (rp_acts r2)) = sum_list (map act_tasks (rp_acts r))" using q2 by (simp add: quiet_def)
      ultimately have l: "ledger ?r3 = {#t#} + ledger r" by (simp add: ledger_def)
      have "pool_avail p2 = {..<p_slots (rp_pool r)} - used_slots r" using p2(3) F(1,2,6) by auto
      then have "rep_inv ?r3" using inv p2 pc F(2,4,5) unfolding rep_inv_def u ib by auto
      then show ?thesis using al Some g None pr p2(1) l by (simp add: begin_recovery_read_io_def Let_def keeps_tasks_def)
    next
      case (Some c)
      let ?r3 = "upd_slot i (\<lambda>x. x\<lparr>ri_conn := Some c\<rparr>) r2"
      let ?ri = "r\<lparr>rp_pool := p, rp_iocb := (rp_iocb r)(i := (?f (rp_iocb r i))\<lparr>ri_conn := Some c\<rparr>)\<rparr>"
      have T: "rep_inv ?ri \<and> ledger ?ri = add_mset t (ledger r) \<and> i \<in> used_slots ?ri"
        by (rule take_slot [OF inv al [unfolded \<open>o1 = Some i\<close>], where x = "(?f (rp_iocb r i))\<lparr>ri_conn := Some c\<rparr>"])
          (use op in simp_all)
      have "quiet ?ri ?r3" using q2 by (simp add: quiet_def fun_eq_iff)
      note Q3 = quiet_same [OF this]
      have "keeps_tasks {#} ?r3 (send_slot (ract (Rep_complete t MSG_STATUS_NO_RESOURCE)) c i ?r3)"
        by (rule send_slot_tasks) (use T Q Q3 full in \<open>simp_all add: rep_inv_act ledger_act used_slots_def\<close>)
      then have k: "keeps_tasks {#t#} r (send_slot (ract (Rep_complete t MSG_STATUS_NO_RESOURCE)) c i ?r3)"
        by (rule keeps_tasks_shift) (use T Q3 in simp)
      then show ?thesis using al \<open>o1 = Some i\<close> g Some by (simp add: begin_recovery_read_io_def Let_def)
    qed
  qed
qed

lemma used_task:
  assumes "rep_inv r" and "i \<in> used_slots r"
  obtains t where "ri_task (rp_iocb r i) = Some t" and "m_opcode (ri_cmd (rp_iocb r i)) \<in> {S5_OP_REPLICATE_WRITE, S5_OP_RECOVERY_READ}"
  using assms by (auto simp: rep_inv_def)

lemma process_io_complete_tasks:
  assumes inv: "rep_inv r" and i: "i \<in> used_slots r" "ri_reply (rp_iocb r i) \<noteq> None"
  shows "keeps_tasks {#} r (process_io_complete i r)"
proof -
  obtain t where t: "ri_task (rp_iocb r i) = Some t" "m_opcode (ri_cmd (rp_iocb r i)) \<in> {S5_OP_REPLICATE_WRITE, S5_OP_RECOVERY_READ}"
    using used_task [OF inv i(1)] .
  obtain b where b: "ri_reply (rp_iocb r i) = Some b" using i(2) by blast
  have op: "m_opcode (ri_cmd (rp_iocb r i)) \<noteq> S5_OP_HEARTBEAT" using t(2) by (auto simp: op_code_values)
  define a where "a = Rep_complete_meta_ver t (r_status (rp_reply r b)) (r_meta_ver (rp_reply r b))"
  define f :: "rep_iocb \<Rightarrow> rep_iocb" where "f x = x\<lparr>ri_reply := None, ri_data := None\<rparr>" for x
  define r1 where "r1 = upd_slot i f r"
  define r2 where "r2 = upd_slot i f (bd_free b (ract a r))"
  have f: "ri_conn (f x) = ri_conn x" "ri_task (f x) = ri_task x" "ri_cmd (f x) = ri_cmd x" for x
    by (simp_all add: f_def)
  note T1 = touch_slot [where f = f and i = i and r = r, OF f, folded r1_def]
  have same: "rp_iocb r2 = rp_iocb r1" "rp_pool r2 = rp_pool r1" "rp_acts r2 = rp_acts r1 @ [a]"
    unfolding r1_def r2_def bd_free_def by simp_all
  note O = one_act [OF same]
  have l: "act_tasks a = {#t#}" by (simp add: a_def)
  have T: "rep_inv r2" "ledger r2 = add_mset t (ledger r)" "i \<in> used_slots r2" "ri_task (rp_iocb r2 i) = Some t"
    using O T1 inv i(1) t(1) l same(1) by simp_all
  obtain r3 where r3: "slot_free i r2 = Inr r3" "rep_inv r3" "ledger r2 = add_mset t (ledger r3)"
      "rp_full r3 = rp_full r2" "p_slots (rp_pool r3) = p_slots (rp_pool r2)"
    using give_slot [OF T(1,3,4)] .
  have "process_io_complete i r = bnd (slot_free i r2) (\<lambda>r2. Inr (0, r2))"
    unfolding process_io_complete_def r2_def f_def a_def using b op t(1) by simp
  then show ?thesis using r3 T(2) by (simp add: keeps_tasks_def)
qed

lemma resend_slot_tasks:
  assumes inv: "rep_inv r" and full: "rp_full r = (\<lambda>_. 0)" and i: "i < p_slots (rp_pool r)"
  obtains r' where "resend_slot c i r = Inr r'" and "rep_inv r'" and "ledger r' = ledger r" and "rp_full r' = (\<lambda>_. 0)"
    and "p_slots (rp_pool r') = p_slots (rp_pool r)"
proof (cases "ri_conn (rp_iocb r i) = Some c")
  case False
  then show ?thesis using that [of r] inv full by (simp add: resend_slot_def Let_def)
next
  case True
  then have u: "i \<in> used_slots r" using i by (simp add: used_slots_def)
  obtain t where t: "ri_task (rp_iocb r i) = Some t" "m_opcode (ri_cmd (rp_iocb r i)) \<in> {S5_OP_REPLICATE_WRITE, S5_OP_RECOVERY_READ}"
    using used_task [OF inv u] .
  let ?f = "\<lambda>x. x\<lparr>ri_reply := None, ri_data := None\<rparr>"
  let ?r1 = "upd_slot i ?f r"
  have T: "rep_inv ?r1" "ledger ?r1 = ledger r" "i \<in> used_slots ?r1" "ri_task (rp_iocb ?r1 i) = Some t"
    using touch_slot [where f = ?f and i = i and r = r] inv t(1) u by simp_all
  obtain r2 where r2: "slot_free i ?r1 = Inr r2" "rep_inv r2" "ledger ?r1 = add_mset t (ledger r2)" "rp_full r2 = rp_full ?r1"
      "p_slots (rp_pool r2) = p_slots (rp_pool ?r1)"
    using give_slot [OF T(1,3,4)] .
  let ?ev = "if m_opcode (ri_cmd (rp_iocb r i)) = S5_OP_REPLICATE_WRITE then Rep_io_req t else Rep_recovery_read t"
  have ev: "event_tasks ?ev = {#t#}" by simp
  have f2: "rp_full r2 = (\<lambda>_. 0)" using r2(4) full by simp
  note P = post_ok [OF f2, of ?ev]
  have "resend_slot c i r = Inr (snd (rep_post ?ev r2))"
    using True t r2(1) by (auto simp: resend_slot_def Let_def)
  then show ?thesis using that [of "snd (rep_post ?ev r2)"] P(1-3,7) r2 T(2) unfolding ev by simp
qed

lemma resend_slots_tasks:
  assumes "rep_inv r" and "rp_full r = (\<lambda>_. 0)" and "set is \<subseteq> {..<p_slots (rp_pool r)}"
  shows "\<exists>r'. resend_slots c is r = Inr r' \<and> rep_inv r' \<and> ledger r' = ledger r"
  using assms
proof (induction "is" arbitrary: r)
  case (Cons i "is")
  have i: "i < p_slots (rp_pool r)" using Cons.prems(3) by simp
  obtain r1 where r1: "resend_slot c i r = Inr r1" "rep_inv r1" "ledger r1 = ledger r" "rp_full r1 = (\<lambda>_. 0)"
      "p_slots (rp_pool r1) = p_slots (rp_pool r)"
    using resend_slot_tasks [OF Cons.prems(1,2) i] by blast
  then show ?case using Cons.IH [OF r1(2,4)] Cons.prems(3) by simp
qed simp

lemma handle_conn_close_tasks:
  assumes inv: "rep_inv r" and full: "rp_full r = (\<lambda>_. 0)" and c: "rc_unclean (cs_conn r c)"
  shows "keeps_tasks {#} r (handle_conn_close c r)"
proof -
  have "set [0..<nat (p_count (rp_pool r))] \<subseteq> {..<p_slots (rp_pool r)}" using inv by (auto simp: rep_inv_def)
  then obtain r1 where r1: "resend_slots c [0..<nat (p_count (rp_pool r))] r = Inr r1" "rep_inv r1" "ledger r1 = ledger r"
    using resend_slots_tasks [OF inv full] by blast
  then show ?thesis using c quiet_same(1,2) [OF repconn.same_dec_ref [of r1 c]] by (simp add: handle_conn_close_def keeps_tasks_def)
qed

text \<open>What the source relies on when an event arrives.\<close>

fun event_ok :: "rep_event \<Rightarrow> replicator \<Rightarrow> bool" where
  "event_ok (Rep_io_req t) r = (m_opcode (rt_cmd (rp_task r t)) = S5_OP_WRITE \<and>
     rt_opcode (rp_task r t) \<in> {S5_OP_WRITE, S5_OP_REPLICATE_WRITE})"
| "event_ok (Rep_recovery_read t) r = (rt_opcode (rp_task r t) = S5_OP_RECOVERY_READ)"
| "event_ok (Rep_io_complete i) r = (i \<in> used_slots r \<and> ri_reply (rp_iocb r i) \<noteq> None)"
| "event_ok (Rep_conn_closed c) r = rc_unclean (cs_conn r c)"
| "event_ok (Rep_other n) r = False"

section \<open>Properties\<close>

text \<open>
  (C18) No sub task is lost or completed twice by the replicator. Whatever the network does,
  every event of its thread keeps the books: a sub task that comes in is afterwards in
  flight in exactly one slot, back in a queue, or completed, and all others stay where
  they are; a reply moves its sub task from its slot to the completed ones; a closed
  connection moves exactly its sub tasks back into the queue. The event queue must have
  room. The only way to fail is the exception of an empty pool of reply buffers.
\<close>

theorem replicator_keeps_tasks:
  assumes "rep_inv r" and "rp_full r = (\<lambda>_. 0)" and "event_ok ev r"
  shows "case rep_process_event ev r of
      Inl f \<Rightarrow> f = Logic_error
    | Inr (rc, r') \<Rightarrow> rep_inv r' \<and> ledger r' = event_tasks ev + ledger r"
proof -
  have "keeps_tasks (event_tasks ev) r (rep_process_event ev r)"
  proof (cases ev)
    case (Rep_io_req t)
    then show ?thesis using begin_replicate_io_tasks [OF assms(1,2)] assms(3) by (simp add: rep_process_event_def)
  next
    case (Rep_io_complete i)
    then show ?thesis using process_io_complete_tasks [OF assms(1)] assms(3) by (simp add: rep_process_event_def)
  next
    case (Rep_recovery_read t)
    then show ?thesis using begin_recovery_read_io_tasks [OF assms(1,2)] assms(3) by (simp add: rep_process_event_def)
  next
    case (Rep_conn_closed c)
    then show ?thesis using handle_conn_close_tasks [OF assms(1,2)] assms(3) by (simp add: rep_process_event_def)
  next
    case (Rep_other n)
    then show ?thesis using assms(3) by simp
  qed
  then show ?thesis by (simp add: keeps_tasks_def)
qed

text \<open>A replicator with four slots, one peer and one open connection.\<close>

definition sample_rep_head :: PfMessageHead where
  "sample_rep_head = \<lparr>m_opcode = S5_OP_WRITE, m_command_id = 7, m_snap_seq = 1, m_vol_id = 0x1000000, m_buf_addr = 0,
     m_rkey = 0, m_meta_ver = 1, m_offset = 4096, m_length = 4096, m_command_seq = 0\<rparr>"

definition sample_rep_task :: "u8 \<Rightarrow> rep_task" where
  "sample_rep_task op = \<lparr>rt_opcode = op, rt_store_id = 2, rt_cmd = sample_rep_head, rt_data_buf = 64, rt_volume_id = 0x1000000,
     rt_offset = 0, rt_length = 4096, rt_snap_seq = 1, rt_meta_ver = 1\<rparr>"

definition sample_replicator :: replicator where
  "sample_replicator = \<lparr>
     cs_conn = (\<lambda>_. \<lparr>rc_ok = True, rc_io_depth = 1, rc_inflying = 0, rc_heartbeat = 0, rc_unclean = False, rc_ref = 1\<rparr>),
     cs_io_depth = 1, cs_ip_map = [(''ip1'', 0)], cs_net = (\<lambda>_. None), cs_net_cnt = 0, cs_log = [],
     rp_iocb = (\<lambda>i. \<lparr>ri_cmd = sample_rep_head\<lparr>m_command_id := of_nat i\<rparr>, ri_task = None, ri_data = None, ri_reply = None, ri_conn = None\<rparr>),
     rp_pool = \<lparr>p_free = \<lparr>q_tail = 4, q_head = 0, q_depth = 5, q_data = [0, 1, 2, 3, 0]\<rparr>, p_slots = 4, p_count = 4\<rparr>,
     rp_cmd_pool = \<lparr>q_tail = 0, q_head = 0, q_depth = 5, q_data = [0, 1, 2, 3, 0]\<rparr>,
     rp_reply_pool = \<lparr>q_tail = 4, q_head = 0, q_depth = 5, q_data = [0, 1, 2, 3, 0]\<rparr>,
     rp_reply = (\<lambda>_. \<lparr>r_status = 0, r_meta_ver = 1, r_command_id = 0, r_command_seq = 0\<rparr>),
     rp_task = (\<lambda>t. sample_rep_task (if t < 100 then S5_OP_WRITE else S5_OP_RECOVERY_READ)),
     rp_peers = [(2, \<lparr>pa_conn = Some 0, pa_curr = 0, pa_ips = [''ip1'', []]\<rparr>)],
     rp_ext = (\<lambda>_. 0), rp_cnt = 0, rp_full = (\<lambda>_. 0), rp_full_cnt = 0, rp_acts = []\<rparr>"

lemma sample_replicator_ok: "rep_inv sample_replicator" "rp_full sample_replicator = (\<lambda>_. 0)"
proof -
  have "used_slots sample_replicator = {}" by (simp add: used_slots_def sample_replicator_def)
  moreover have "q_list (p_free (rp_pool sample_replicator)) = [0, 1, 2, 3]" by (simp add: sample_replicator_def) code_simp
  moreover have "{..<4::nat} = {0, 1, 2, 3}" by auto
  ultimately show "rep_inv sample_replicator"
    by (simp add: rep_inv_def pool_inv_def pool_avail_def) (simp add: sample_replicator_def q_inv_def q_cap_def)
  show "rp_full sample_replicator = (\<lambda>_. 0)" by (simp add: sample_replicator_def)
qed

theorem replicator_keeps_tasks_witness:
  "\<exists>rc r'. rep_process_event (Rep_io_req 9) sample_replicator = Inr (rc, r') \<and> ledger r' = {#9#}"
proof -
  have ok: "event_ok (Rep_io_req 9) sample_replicator" by (simp add: sample_replicator_def sample_rep_head_def sample_rep_task_def)
  have l: "ledger sample_replicator = {#}" by (simp add: ledger_def inflight_def used_slots_def sample_replicator_def)
  have n: "\<not> isl (rep_process_event (Rep_io_req 9) sample_replicator)" by code_simp
  show ?thesis using replicator_keeps_tasks [OF sample_replicator_ok ok] n l
    by (cases "rep_process_event (Rep_io_req 9) sample_replicator") auto
qed

section \<open>The count of requests in flight\<close>

text \<open>The requests that really are in flight on a connection.\<close>

definition conn_slots :: "nat \<Rightarrow> replicator \<Rightarrow> nat set" where
  "conn_slots c r = {i. i < p_slots (rp_pool r) \<and> ri_conn (rp_iocb r i) = Some c}"

lemma slot_free_back:
  assumes "slot_free i r = Inr r'"
  shows "cs_conn r' = cs_conn r" "p_slots (rp_pool r') = p_slots (rp_pool r)" "ri_conn (rp_iocb r' i) = None"
    "j \<noteq> i \<Longrightarrow> rp_iocb r' j = rp_iocb r j"
proof -
  obtain p where p: "pool_free (rp_pool r) i = Inr p" "r' = (upd_slot i (\<lambda>x. x\<lparr>ri_conn := None\<rparr>) r)\<lparr>rp_pool := p\<rparr>"
    using assms unfolding slot_free_def by (elim bnd_InrE) simp
  have "p_slots p = p_slots (rp_pool r)" using p(1) by (auto simp: pool_free_def split: prod.splits if_splits)
  then show "cs_conn r' = cs_conn r" "p_slots (rp_pool r') = p_slots (rp_pool r)" "ri_conn (rp_iocb r' i) = None"
    "j \<noteq> i \<Longrightarrow> rp_iocb r' j = rp_iocb r j" by (simp_all add: p(2))
qed

lemma send_slot_back:
  assumes s: "send_slot failed c i r = Inr (rc, r')" and rc: "rc \<noteq> 0"
    and failed: "\<And>x. cs_conn (failed x) = cs_conn x \<and> rp_iocb (failed x) = rp_iocb x \<and> rp_pool (failed x) = rp_pool x"
  shows "cs_conn r' = cs_conn r \<and> p_slots (rp_pool r') = p_slots (rp_pool r) \<and>
    ri_conn (rp_iocb r' i) = None \<and> (\<forall>j. j \<noteq> i \<longrightarrow> rp_iocb r' j = rp_iocb r j)"
proof -
  obtain b q where al: "bd_alloc r = Inr (b, r\<lparr>rp_reply_pool := q\<rparr>)"
    using s unfolding send_slot_def bd_alloc_def by (elim bnd_InrE) auto
  define r2 where "r2 = snd (rep_call (r\<lparr>rp_reply_pool := q\<rparr>))"
  define r3 where "r3 = snd (rep_call (upd_slot i (\<lambda>x. x\<lparr>ri_reply := Some b\<rparr>) r2))"
  have "slot_free i (bd_free b (failed r2)) = Inr r' \<or> slot_free i (failed r3) = Inr r'"
    using s rc al unfolding send_slot_def r2_def r3_def
    by (elim bnd_InrE) (simp add: case_prod_beta split: if_splits, (elim bnd_InrE, simp)+)
  moreover have "cs_conn (bd_free b (failed r2)) = cs_conn r" "rp_pool (bd_free b (failed r2)) = rp_pool r"
      "rp_iocb (bd_free b (failed r2)) = rp_iocb r" "cs_conn (failed r3) = cs_conn r" "rp_pool (failed r3) = rp_pool r"
      "j \<noteq> i \<Longrightarrow> rp_iocb (failed r3) j = rp_iocb r j" for j
    using failed by (simp_all add: r2_def r3_def rep_call_def bd_free_def)
  ultimately show ?thesis using slot_free_back [of i "bd_free b (failed r2)" r'] slot_free_back [of i "failed r3" r'] by auto
qed

text \<open>
  (C27) A request that the replicator puts back keeps its place in the count of its connection.
  Whatever the reason (no free slot, the receive or the send could not be posted), when
  \<open>begin_replicate_io\<close> has counted the request on its connection and puts it back, the
  count is one higher than before, while the requests in flight on the connection are the
  same as before. If this fills the count, the same request is refused from then on, also
  when nothing is in flight.
\<close>

theorem replicate_retry_leaks_throttle:
  assumes "rep_inv r" and "map_of (rp_peers r) (rt_store_id (rp_task r t)) = Some a"
    and "pa_conn a = Some c" and "rc_ok (cs_conn r c)" and "rc_inflying (cs_conn r c) < rc_io_depth (cs_conn r c)"
    and "begin_replicate_io t r = Inr (rc, r')" and "rc \<noteq> 0"
  shows "rc_inflying (cs_conn r' c) = rc_inflying (cs_conn r c) + 1 \<and> conn_slots c r' = conn_slots c r \<and>
    (rc_inflying (cs_conn r c) + 1 = rc_io_depth (cs_conn r c) \<longrightarrow> fst (get_throttle c r') = False)"
proof -
  let ?r2 = "upd_conn c (\<lambda>x. x\<lparr>rc_inflying := rc_inflying x + 1\<rparr>) r"
  have g: "rep_get_conn (rt_store_id (rp_task r t)) r = (Some c, r)" "get_throttle c r = (True, ?r2)"
    using assms by (simp_all add: rep_get_conn_def get_throttle_def Let_def)
  obtain o1 p where al: "pool_alloc (rp_pool r) = (o1, p)" by (rule prod.exhaust)
  have "cs_conn r' = cs_conn ?r2 \<and> conn_slots c r' = conn_slots c r"
  proof (cases o1)
    case None
    then show ?thesis using assms(6) g al by (auto simp: begin_replicate_io_def conn_slots_def)
  next
    case (Some i)
    note F = free_slot [OF assms(1) al [unfolded Some]]
    let ?task = "rp_task r t"
    let ?cmd = "(rt_cmd ?task)\<lparr>m_command_id := m_command_id (ri_cmd (rp_iocb r i))\<rparr>"
    let ?f = "\<lambda>x. x\<lparr>ri_cmd := ?cmd\<lparr>m_opcode := S5_OP_REPLICATE_WRITE, m_buf_addr := rt_data_buf ?task\<rparr>,
                ri_task := Some t, ri_data := Some t, ri_conn := Some c\<rparr>"
    let ?r3 = "upd_slot i ?f (?r2\<lparr>rp_pool := p, rp_task := (rp_task r)(t := ?task\<lparr>rt_opcode := S5_OP_REPLICATE_WRITE\<rparr>)\<rparr>)"
    have s: "send_slot (\<lambda>x. snd (rep_post (Rep_io_req t) x)) c i ?r3 = Inr (rc, r')"
      using assms(6) g al Some by (simp add: begin_replicate_io_def Let_def split: if_splits)
    have f: "cs_conn (snd (rep_post ev y)) = cs_conn y \<and> rp_iocb (snd (rep_post ev y)) = rp_iocb y \<and> rp_pool (snd (rep_post ev y)) = rp_pool y" for ev y
      by (simp add: rep_post_def Let_def)
    note S = send_slot_back [OF s assms(7) f]
    have "ri_conn (rp_iocb r i) = None" using F(1,2) by (simp add: used_slots_def)
    then have "ri_conn (rp_iocb r' j) = Some c \<longleftrightarrow> ri_conn (rp_iocb r j) = Some c" for j
      using S by (cases "j = i") simp_all
    then show ?thesis using S F(4) by (simp add: conn_slots_def)
  qed
  then show ?thesis by (simp add: get_throttle_def Let_def)
qed

theorem replicate_retry_leaks_throttle_witness:
  "let r = sample_replicator\<lparr>rp_ext := (\<lambda>_. - 1)\<rparr>
   in case begin_replicate_io 9 r of Inl f \<Rightarrow> False | Inr (rc, r') \<Rightarrow> conn_slots 0 r' = {} \<and> fst (get_throttle 0 r') = False"
proof -
  let ?r = "sample_replicator\<lparr>rp_ext := (\<lambda>_. - 1)\<rparr>"
  have inv: "rep_inv ?r" using sample_replicator_ok(1) by (simp add: rep_inv_def used_slots_def)
  have a: "map_of (rp_peers ?r) (rt_store_id (rp_task ?r 9)) = Some \<lparr>pa_conn = Some 0, pa_curr = 0, pa_ips = [''ip1'', []]\<rparr>"
      "rc_ok (cs_conn ?r 0)" "rc_inflying (cs_conn ?r 0) < rc_io_depth (cs_conn ?r 0)" "rc_inflying (cs_conn ?r 0) + 1 = rc_io_depth (cs_conn ?r 0)"
      "conn_slots 0 ?r = {}"
    by (simp_all add: sample_replicator_def sample_rep_task_def conn_slots_def)
  have n: "case begin_replicate_io 9 ?r of Inl f \<Rightarrow> False | Inr (rc, r') \<Rightarrow> rc \<noteq> 0" by code_simp
  then obtain rc r' where b: "begin_replicate_io 9 ?r = Inr (rc, r')" "rc \<noteq> 0" by (auto split: sum.splits)
  show ?thesis using replicate_retry_leaks_throttle [OF inv a(1) _ a(2,3) b] b a(4,5) by simp
qed

end
