(* ===== verification/Aof.thy ===== *)
theory Aof
  imports Pf_Prelude
begin

text \<open>
  \<open>PfAof\<close> of \<open>common/src/pf_aof.cpp\<close>: a file that can only grow, kept in a volume. The first
  4096 bytes of the volume are the head with the length; the bytes of the file follow.
  New bytes are collected in a buffer and written when it is full or on \<open>sync\<close>. The theory
  shows that appending and reading act on the sequence of bytes, and what is found after
  the process ended.

  Memory and the data of the volume are functions from addresses to bytes. Sizes and offsets
  are natural numbers; a volume is far below \<open>2 ^ 63\<close> bytes. A submitted transfer is done at
  once: transfers in flight at the same time have disjoint targets.
\<close>

section \<open>State\<close>

record PfAofHead =
  h_magic :: u32
  h_version :: u32
  h_length :: u64
  h_modify_time :: u64
  h_access_time :: u64
  h_create_time :: u64

definition AOF_MAGIC :: u32 where "AOF_MAGIC = 0x466F4150"
definition AOF_VER :: u32 where "AOF_VER = 0x00010000"
definition PF_MAX_IO_SIZE :: nat where "PF_MAX_IO_SIZE = 131072"

text \<open>
  \<open>a_vol_head\<close> and \<open>a_data\<close> are the volume: its first page and the bytes from 4096 on.
  \<open>a_ext\<close> gives for each submitted transfer the result of \<open>pf_io_submit\<close> and the status with
  which the transfer ends. \<open>a_throttle\<close> is the semaphore \<open>io_throttle\<close>; \<open>a_heap\<close> is what
  newly allocated memory contains.
\<close>

record aof =
  a_vol_head :: PfAofHead
  a_data :: "nat \<Rightarrow> u8"
  a_head :: PfAofHead
  append_buf :: "nat \<Rightarrow> u8"
  append_tail :: nat
  file_len :: nat
  append_buf_size :: nat
  a_throttle :: nat
  a_heap :: "nat \<Rightarrow> u8"
  a_ext :: "nat \<Rightarrow> int \<times> int"
  a_cnt :: nat

section \<open>Memory\<close>

definition memcpy :: "(nat \<Rightarrow> 'b) \<Rightarrow> nat \<Rightarrow> (nat \<Rightarrow> 'b) \<Rightarrow> nat \<Rightarrow> nat \<Rightarrow> (nat \<Rightarrow> 'b)" where
  "memcpy dst d src s n = (\<lambda>i. if d \<le> i \<and> i < d + n then src (s + (i - d)) else dst i)"

definition memset :: "(nat \<Rightarrow> 'b) \<Rightarrow> nat \<Rightarrow> 'b \<Rightarrow> nat \<Rightarrow> (nat \<Rightarrow> 'b)" where
  "memset dst d x n = (\<lambda>i. if d \<le> i \<and> i < d + n then x else dst i)"

definition UP_ALIGN_4K :: "nat \<Rightarrow> nat" where "UP_ALIGN_4K x = (x + 4095) div 4096 * 4096"
definition DOWN_ALIGN_4K :: "nat \<Rightarrow> nat" where "DOWN_ALIGN_4K x = x div 4096 * 4096"

text \<open>The end of the segment that contains \<open>x\<close>: \<open>(x + seg_size) & seg_align_mask\<close>.\<close>

definition next_seg_end :: "nat \<Rightarrow> nat" where
  "next_seg_end x = (x + PF_MAX_IO_SIZE) div PF_MAX_IO_SIZE * PF_MAX_IO_SIZE"

section \<open>Transfers\<close>

text \<open>The status of a transfer arrives in \<open>io_cbk\<close>, which keeps it only when there is an error already.\<close>

definition io_cbk :: "int \<Rightarrow> int \<Rightarrow> int" where
  "io_cbk complete_status rc = (if rc \<noteq> 0 then complete_status else rc)"

definition throttle_wait :: "aof \<Rightarrow> aof option" where
  "throttle_wait a = (if a_throttle a = 0 then None else Some (a\<lparr>a_throttle := a_throttle a - 1\<rparr>))"

text \<open>
  Submitting a transfer: the result, the field \<open>rc\<close> of the waiter afterwards, and the
  state. A transfer that ends with an error moves no bytes.
\<close>

definition submit :: "(aof \<Rightarrow> aof) \<Rightarrow> int \<Rightarrow> aof \<Rightarrow> int \<times> int \<times> aof" where
  "submit transfer w a =
     (case a_ext a (a_cnt a) of (rc, status) \<Rightarrow>
        let a1 = a\<lparr>a_cnt := a_cnt a + 1\<rparr>
        in if rc \<noteq> 0 then (rc, w, a1)
           else (0, io_cbk status w,
             (\<lambda>x. x\<lparr>a_throttle := a_throttle x + 1\<rparr>) (if status = 0 then transfer a1 else a1)))"

definition submit_write :: "(nat \<Rightarrow> u8) \<Rightarrow> nat \<Rightarrow> nat \<Rightarrow> nat \<Rightarrow> int \<Rightarrow> aof \<Rightarrow> int \<times> int \<times> aof" where
  "submit_write src s n addr = submit (\<lambda>x. x\<lparr>a_data := memcpy (a_data x) addr src s n\<rparr>)"

definition submit_write_head :: "int \<Rightarrow> aof \<Rightarrow> int \<times> int \<times> aof" where
  "submit_write_head = submit (\<lambda>x. x\<lparr>a_vol_head := a_head x\<rparr>)"

definition submit_read :: "(nat \<Rightarrow> u8) \<Rightarrow> nat \<Rightarrow> nat \<Rightarrow> nat \<Rightarrow> int \<Rightarrow> aof \<Rightarrow> int \<times> int \<times> (nat \<Rightarrow> u8) \<times> aof" where
  "submit_read dst d n addr w a =
     (case submit id w a of (rc, w', a') \<Rightarrow>
        (rc, w', if a_ext a (a_cnt a) = (0, 0) then memcpy dst d (a_data a) addr n else dst, a'))"

section \<open>Writing\<close>

text \<open>The loop of \<open>sync\<close> over the segments of the volume.\<close>

partial_function (option) sync_loop :: "nat \<Rightarrow> nat \<Rightarrow> nat \<Rightarrow> int \<Rightarrow> aof \<Rightarrow> (fault + int \<times> aof) option" where
  "sync_loop cur_file_tail cur_vol_tail buf_off w a =
     (if cur_file_tail < file_len a
      then let io_size = min (next_seg_end cur_vol_tail - 4096) (file_len a) - cur_file_tail;
               aligned_io_size = (if io_size mod 4096 \<noteq> 0 then UP_ALIGN_4K io_size else io_size);
               pad = aligned_io_size - io_size
           in if pad \<noteq> 0 \<and> append_buf_size a < append_tail a + pad then Some (Inl Out_of_bounds)
              else (case throttle_wait (a\<lparr>append_buf := memset (append_buf a) (append_tail a) 0 pad\<rparr>) of
                      None \<Rightarrow> None
                    | Some a1 \<Rightarrow>
                        if w \<noteq> 0 then Some (Inl Fatal_exit)
                        else (case submit_write (append_buf a1) buf_off aligned_io_size cur_vol_tail w a1 of (rc, w', a2) \<Rightarrow>
                                if rc \<noteq> 0 then Some (Inl Fatal_exit)
                                else sync_loop (cur_file_tail + io_size) (cur_vol_tail + io_size) (buf_off + io_size) w' a2))
      else Some (Inr (w, a)))"

text \<open>
  \<open>sync\<close>. The result of submitting the head is not tested: when it fails no callback comes
  and the call waits forever.
\<close>

definition aof_sync :: "aof \<Rightarrow> (fault + aof) option" where
  "aof_sync a =
     obnd (sync_loop (file_len a - append_tail a) (file_len a - append_tail a + 4096) 0 0 a) (\<lambda>(w, a1).
       if w \<noteq> 0 then Some (Inl Fatal_exit)
       else case throttle_wait a1 of
           None \<Rightarrow> None
         | Some a2 \<Rightarrow>
             (case submit_write_head w (a2\<lparr>a_head := (a_head a2)\<lparr>h_length := of_nat (file_len a2)\<rparr>\<rparr>) of (rc, w', a3) \<Rightarrow>
                if rc \<noteq> 0 then None
                else if w' \<noteq> 0 then Some (Inl Fatal_exit)
                else let tail = append_tail a3
                     in Some (Inr (a3\<lparr>
                          append_buf := (if tail mod 4096 \<noteq> 0 \<and> tail > 4096
                            then memcpy (append_buf a3) 0 (append_buf a3) (DOWN_ALIGN_4K tail) (tail mod 4096) else append_buf a3),
                          append_tail := tail mod 4096\<rparr>))))"

partial_function (option) append_loop :: "(nat \<Rightarrow> u8) \<Rightarrow> nat \<Rightarrow> nat \<Rightarrow> aof \<Rightarrow> (fault + aof) option" where
  "append_loop buf buf_idx remain a =
     (if 0 < remain
      then let seg_size = min remain (append_buf_size a - append_tail a);
               a1 = a\<lparr>append_buf := memcpy (append_buf a) (append_tail a) buf buf_idx seg_size,
                      append_tail := append_tail a + seg_size, file_len := file_len a + seg_size\<rparr>
           in (case (if append_tail a1 = append_buf_size a1 then aof_sync a1 else Some (Inr a1)) of
                 None \<Rightarrow> None
               | Some (Inl f) \<Rightarrow> Some (Inl f)
               | Some (Inr a2) \<Rightarrow> append_loop buf (buf_idx + seg_size) (remain - seg_size) a2)
      else Some (Inr a))"

definition aof_append :: "(nat \<Rightarrow> u8) \<Rightarrow> nat \<Rightarrow> aof \<Rightarrow> (fault + nat \<times> aof) option" where
  "aof_append buf len a = obnd (append_loop buf 0 len a) (\<lambda>a1. Some (Inr (len, a1)))"

section \<open>Reading\<close>

text \<open>
  The loop of \<open>read\<close> over the aligned part. The result is the return code 0 or an error,
  the field \<open>rc\<close> of the waiter, the buffer of the caller and the state.
\<close>

partial_function (option) read_loop ::
  "nat \<Rightarrow> nat \<Rightarrow> nat \<Rightarrow> (nat \<Rightarrow> u8) \<Rightarrow> int \<Rightarrow> aof \<Rightarrow> (fault + int \<times> int \<times> (nat \<Rightarrow> u8) \<times> aof) option" where
  "read_loop aligned_off aligned_end buf_off buf w a =
     (if aligned_off < aligned_end
      then let aligned_io_size = min aligned_end (next_seg_end aligned_off) - aligned_off
           in (case throttle_wait a of
                 None \<Rightarrow> None
               | Some a1 \<Rightarrow>
                   if w \<noteq> 0 then Some (Inr (- EIO, w, buf, a1))
                   else (case submit_read buf buf_off aligned_io_size aligned_off w a1 of (rc, w', buf', a2) \<Rightarrow>
                           if rc \<noteq> 0 then Some (Inr (- EIO, w', buf', a2))
                           else read_loop (aligned_off + aligned_io_size) aligned_end (buf_off + aligned_io_size) buf' w' a2))
      else Some (Inr (0, w, buf, a)))"

text \<open>Reading one page of an unaligned end into the buffer \<open>read_buf\<close> at \<open>d\<close>.\<close>

definition read_page :: "nat \<Rightarrow> nat \<Rightarrow> (nat \<Rightarrow> u8) \<Rightarrow> int \<Rightarrow> aof \<Rightarrow> (fault + int \<times> int \<times> (nat \<Rightarrow> u8) \<times> aof) option" where
  "read_page d addr read_buf w a =
     (case throttle_wait a of
        None \<Rightarrow> None
      | Some a1 \<Rightarrow> Some (Inr (submit_read read_buf d 4096 addr w a1)))"

text \<open>\<open>read\<close> from where the part in the append buffer has been copied.\<close>

definition read_volume :: "(nat \<Rightarrow> u8) \<Rightarrow> nat \<Rightarrow> nat \<Rightarrow> nat \<Rightarrow> nat \<Rightarrow> aof \<Rightarrow> (fault + int \<times> (nat \<Rightarrow> u8) \<times> aof) option" where
  "read_volume buf len offset vol_off vol_end a =
     (let copy_head = (vol_off mod 4096 \<noteq> 0);
          copy_tail = (vol_end mod 4096 \<noteq> 0 \<and> (DOWN_ALIGN_4K vol_end \<noteq> DOWN_ALIGN_4K vol_off \<or> vol_off mod 4096 = 0))
      in obnd (if copy_head then read_page 0 (DOWN_ALIGN_4K vol_off) (a_heap a) 0 a else Some (Inr (0, 0, a_heap a, a)))
           (\<lambda>(rc1, w1, rb1, a1).
         if rc1 \<noteq> 0 then Some (Inr (- EIO, buf, a1))
         else obnd (if copy_tail then read_page 4096 (DOWN_ALIGN_4K vol_end) rb1 w1 a1 else Some (Inr (0, w1, rb1, a1)))
           (\<lambda>(rc2, w2, rb2, a2).
         if rc2 \<noteq> 0 then Some (Inr (- EIO, buf, a2))
         else obnd (read_loop (DOWN_ALIGN_4K vol_off + (if copy_head then 4096 else 0))
                (UP_ALIGN_4K vol_end - (if copy_tail then 4096 else 0))
                (if copy_head then 4096 - offset mod 4096 else 0) buf w2 a2)
           (\<lambda>(rc3, w3, buf3, a3).
         if rc3 \<noteq> 0 then Some (Inr (rc3, buf3, a3))
         else if w3 \<noteq> 0 then Some (Inr (- EIO, buf3, a3))
         else let buf4 = (if copy_head
                    then memcpy buf3 0 rb2 (vol_off mod 4096) (min (4096 - vol_off mod 4096) len) else buf3);
                  buf5 = (if copy_tail
                    then memcpy buf4 (len - vol_end mod 4096) rb2 4096 (vol_end mod 4096) else buf4)
              in Some (Inr (int len, buf5, a3))))))"

definition aof_read :: "(nat \<Rightarrow> u8) \<Rightarrow> nat \<Rightarrow> nat \<Rightarrow> aof \<Rightarrow> (fault + int \<times> (nat \<Rightarrow> u8) \<times> aof) option" where
  "aof_read buf len0 offset a =
     (if offset \<ge> file_len a then Some (Inr (0, buf, a))
      else let len = (if offset + len0 > file_len a then file_len a - offset else len0);
               vol_off = offset + 4096;
               in_volume = file_len a - append_tail a
           in if offset + len > in_volume
              then let in_buf_len = min len (offset + len - in_volume);
                       in_buf_off = (if len = in_buf_len then offset + len - in_volume - in_buf_len else 0);
                       buf1 = memcpy buf (len - in_buf_len) (append_buf a) in_buf_off in_buf_len
                   in if len = in_buf_len then Some (Inr (int len, buf1, a))
                      else if (vol_off + (len - in_buf_len)) mod 4096 \<noteq> 0 then Some (Inl Assert_failed)
                      else read_volume buf1 len offset vol_off (vol_off + (len - in_buf_len)) a
              else read_volume buf len offset vol_off (vol_off + len) a)"

section \<open>Creating and opening\<close>

definition sync_io :: "(aof \<Rightarrow> aof) \<Rightarrow> nat \<Rightarrow> aof \<Rightarrow> (fault + int \<times> aof) option" where
  "sync_io transfer n a =
     (case throttle_wait a of
        None \<Rightarrow> None
      | Some a1 \<Rightarrow>
          (case submit transfer 0 a1 of (rc, w, a2) \<Rightarrow>
             Some (Inr (if rc \<noteq> 0 then rc else if w \<noteq> 0 then w else int n, a2))))"

definition empty_head :: PfAofHead where
  "empty_head = \<lparr>h_magic = 0, h_version = 0, h_length = 0, h_modify_time = 0, h_access_time = 0, h_create_time = 0\<rparr>"

text \<open>The constructor, on a volume that is there already.\<close>

definition aof_new :: "nat \<Rightarrow> aof \<Rightarrow> aof" where
  "aof_new buf_size v = v\<lparr>a_head := empty_head, append_buf := a_heap v, append_tail := 0, file_len := 0, append_buf_size := buf_size\<rparr>"

text \<open>The part of \<open>pf_create_aof\<close> that writes the head of a new volume.\<close>

definition aof_create :: "aof \<Rightarrow> (fault + int \<times> aof) option" where
  "aof_create v =
     obnd (sync_io (\<lambda>x. x\<lparr>a_vol_head := empty_head\<lparr>h_magic := AOF_MAGIC, h_version := AOF_VER\<rparr>\<rparr>) 4096 v) (\<lambda>(rc, v1).
       Some (Inr (if rc \<le> 0 then rc else 0, v1)))"

definition aof_open :: "aof \<Rightarrow> (fault + int \<times> aof) option" where
  "aof_open a =
     obnd (sync_io (\<lambda>x. x\<lparr>a_head := a_vol_head x\<rparr>) 4096 a) (\<lambda>(rc, a1).
       if rc \<le> 0 \<or> h_magic (a_head a1) \<noteq> AOF_MAGIC then Some (Inr (- EINVAL, a1))
       else if h_version (a_head a1) \<noteq> AOF_VER then Some (Inr (- EINVAL, a1))
       else let n = unat (h_length (a_head a1)); a2 = a1\<lparr>file_len := n\<rparr>
            in if n mod 4096 \<noteq> 0
               then obnd (sync_io (\<lambda>x. x\<lparr>append_buf := memcpy (append_buf x) 0 (a_data x) (DOWN_ALIGN_4K n + 4096) 4096\<rparr>) 4096 a2)
                 (\<lambda>(rc2, a3). Some (Inr (if rc2 < 0 then (- EIO, a3) else (0, a3\<lparr>append_tail := n mod 4096\<rparr>))))
               else Some (Inr (0, a2)))"

text \<open>What the destructor does to the file: it syncs. The lock and the release of memory and volume after it are left out.\<close>

definition aof_destroy :: "aof \<Rightarrow> (fault + aof) option" where
  "aof_destroy a = aof_sync a"

section \<open>The file as a sequence of bytes\<close>

definition aof_byte :: "aof \<Rightarrow> nat \<Rightarrow> u8" where
  "aof_byte a i = (let n = file_len a - append_tail a in if i < n then a_data a (4096 + i) else append_buf a (i - n))"

definition aof_file :: "aof \<Rightarrow> u8 list" where
  "aof_file a = map (aof_byte a) [0..<file_len a]"

definition aof_inv :: "aof \<Rightarrow> bool" where
  "aof_inv a \<longleftrightarrow> append_tail a \<le> file_len a \<and> append_tail a < append_buf_size a \<and>
     4096 dvd append_buf_size a \<and> 4096 dvd file_len a - append_tail a"

text \<open>All transfers succeed and the throttle is not used up.\<close>

definition aof_calm :: "aof \<Rightarrow> bool" where
  "aof_calm a \<longleftrightarrow> a_ext a = (\<lambda>_. (0, 0)) \<and> 0 < a_throttle a"

lemma length_aof_file [simp]: "length (aof_file a) = file_len a"
  by (simp add: aof_file_def)

lemma nth_aof_file [simp]: "i < file_len a \<Longrightarrow> aof_file a ! i = aof_byte a i"
  by (simp add: aof_file_def)

lemma memcpy_apply: "memcpy dst d src s n i = (if d \<le> i \<and> i < d + n then src (s + (i - d)) else dst i)"
  by (simp add: memcpy_def)

lemma memcpy_cong:
  assumes "\<And>i. i < n \<Longrightarrow> src (s + i) = src' (s' + i)"
  shows "memcpy dst d src s n = memcpy dst d src' s' n"
proof
  fix x
  have "x - d < n" if "d \<le> x \<and> x < d + n" using that by linarith
  then show "memcpy dst d src s n x = memcpy dst d src' s' n x"
    unfolding memcpy_apply using assms [of "x - d"] by (auto simp del: Nat.add_diff_assoc)
qed

lemma memset_0 [simp]: "memset b d x 0 = b"
  by (auto simp: memset_def fun_eq_iff)

lemma div_up_bounds: "x < (x + n) div n * n \<and> (x + n) div n * n \<le> x + n" if "0 < n" for x n :: nat
proof -
  have "(x + n) div n * n = x div n * n + n" using that by (simp add: div_add_self2)
  moreover have "x div n * n + x mod n = x" "x mod n < n" using that by simp_all
  ultimately show ?thesis by linarith
qed

lemma seg_end: "x < next_seg_end x" "next_seg_end x \<le> x + PF_MAX_IO_SIZE" "4096 dvd next_seg_end x"
proof -
  show "x < next_seg_end x" "next_seg_end x \<le> x + PF_MAX_IO_SIZE"
    unfolding next_seg_end_def using div_up_bounds [of PF_MAX_IO_SIZE x] by (simp_all add: PF_MAX_IO_SIZE_def)
  show "4096 dvd next_seg_end x" unfolding next_seg_end_def PF_MAX_IO_SIZE_def by (rule dvd_mult) simp
qed

lemma UP_ALIGN_props: "x \<le> UP_ALIGN_4K x" "UP_ALIGN_4K x < x + 4096" "4096 dvd UP_ALIGN_4K x"
  "4096 dvd y \<Longrightarrow> x \<le> y \<Longrightarrow> UP_ALIGN_4K x \<le> y" "4096 dvd x \<Longrightarrow> UP_ALIGN_4K x = x"
proof -
  have e: "UP_ALIGN_4K x + (x + 4095) mod 4096 = x + 4095" "(x + 4095) mod 4096 < 4096"
    by (simp_all add: UP_ALIGN_4K_def)
  then show b: "x \<le> UP_ALIGN_4K x" "UP_ALIGN_4K x < x + 4096" by linarith+
  show d: "4096 dvd UP_ALIGN_4K x" by (simp add: UP_ALIGN_4K_def)
  show le: "UP_ALIGN_4K x \<le> y" if y: "4096 dvd y" "x \<le> y" for y
  proof -
    obtain k where k: "y = 4096 * k" using y(1) by (rule dvdE)
    have "x + 4095 < Suc k * 4096" using k y(2) by simp
    then have "(x + 4095) div 4096 < Suc k" by (rule less_mult_imp_div_less)
    then show ?thesis by (simp add: UP_ALIGN_4K_def k)
  qed
  show "UP_ALIGN_4K x = x" if "4096 dvd x" using le [OF that] b(1) by simp
qed

lemma calm_submit:
  assumes "aof_calm a"
  shows "throttle_wait a = Some (a\<lparr>a_throttle := a_throttle a - 1\<rparr>)" "a_ext a i = (0, 0)"
  using assms by (simp_all add: aof_calm_def throttle_wait_def)

text \<open>One round of the loop of \<open>sync\<close> writes whole pages of the buffer and stays inside it.\<close>

lemma sync_segment:
  assumes t: "append_tail a \<le> file_len a" "append_tail a \<le> append_buf_size a" and d: "4096 dvd append_buf_size a"
      "4096 dvd file_len a - append_tail a"
    and cur: "cur = file_len a - append_tail a + boff" "boff \<le> append_tail a" "4096 dvd boff \<or> boff = append_tail a" "cur < file_len a"
    and sz_def: "sz = min (next_seg_end (cur + 4096) - 4096) (file_len a) - cur"
    and al_def: "al = (if sz mod 4096 \<noteq> 0 then UP_ALIGN_4K sz else sz)"
  shows "0 < sz" "cur + sz \<le> file_len a" "4096 dvd boff + sz \<or> boff + sz = append_tail a" "sz \<le> al"
    "append_tail a + (al - sz) \<le> append_buf_size a" "boff + sz \<le> append_tail a"
proof -
  have b4: "4096 dvd boff" using cur by auto
  then have c4: "4096 dvd cur" unfolding cur(1) using d(2) by (rule dvd_add [rotated])
  show sz: "0 < sz" "cur + sz \<le> file_len a"
    using seg_end [of "cur + 4096"] cur(4) unfolding sz_def by (auto simp: min_def)
  have sz4: "4096 dvd sz \<or> cur + sz = file_len a"
    using seg_end [of "cur + 4096"] cur(4) c4 unfolding sz_def by (auto simp: min_def intro: dvd_diff_nat)
  show e: "boff + sz \<le> append_tail a" using sz(2) cur(1) t by linarith
  show "4096 dvd boff + sz \<or> boff + sz = append_tail a" using sz4 b4 cur(1) t(1) by (auto intro: dvd_add)
  show "sz \<le> al" using UP_ALIGN_props(1) [of sz] by (simp add: al_def)
  have "4096 dvd append_buf_size a - boff" using d(1) b4 by (rule dvd_diff_nat)
  then have "UP_ALIGN_4K sz \<le> append_buf_size a - boff" using e t(2) by (intro UP_ALIGN_props(4)) linarith+
  moreover have "sz mod 4096 \<noteq> 0 \<Longrightarrow> boff + sz = append_tail a" using sz4 cur(1) t(1) by auto
  ultimately show "append_tail a + (al - sz) \<le> append_buf_size a" using e t(2) unfolding al_def by (auto split: if_split)
qed

lemma sync_loop_ok:
  assumes "aof_calm a" and "append_tail a \<le> file_len a" and "append_tail a \<le> append_buf_size a" and "4096 dvd append_buf_size a"
    and "4096 dvd file_len a - append_tail a" and "cur = file_len a - append_tail a + boff" and "boff \<le> append_tail a"
    and "4096 dvd boff \<or> boff = append_tail a"
  shows "\<exists>b d c. sync_loop cur (cur + 4096) boff 0 a = Some (Inr (0, a\<lparr>append_buf := b, a_data := d, a_cnt := c\<rparr>)) \<and>
    (\<forall>i < append_tail a. b i = append_buf a i) \<and>
    (\<forall>j < file_len a. d (4096 + j) = (if cur \<le> j then append_buf a (boff + (j - cur)) else a_data a (4096 + j)))"
  using assms
proof (induction "append_tail a - boff" arbitrary: a boff cur rule: less_induct)
  case less
  show ?case
  proof (cases "cur < file_len a")
    case False
    then have "sync_loop cur (cur + 4096) boff 0 a = Some (Inr (0, a\<lparr>append_buf := append_buf a, a_data := a_data a, a_cnt := a_cnt a\<rparr>))"
      by (subst sync_loop.simps) simp
    then show ?thesis using False by fastforce
  next
    case True
    define sz where "sz = min (next_seg_end (cur + 4096) - 4096) (file_len a) - cur"
    define al where "al = (if sz mod 4096 \<noteq> 0 then UP_ALIGN_4K sz else sz)"
    note G = sync_segment [OF less.prems(2-8) True sz_def al_def]
    define b1 where "b1 = memset (append_buf a) (append_tail a) 0 (al - sz)"
    define d1 where "d1 = memcpy (a_data a) (cur + 4096) b1 boff al"
    define a2 where "a2 = a\<lparr>append_buf := b1, a_cnt := a_cnt a + 1, a_data := d1\<rparr>"
    have thr: "0 < a_throttle a" "a_ext a (a_cnt a) = (0, 0)" using less.prems(1) by (simp_all add: aof_calm_def)
    have step: "sync_loop cur (cur + 4096) boff 0 a = sync_loop (cur + sz) (cur + sz + 4096) (boff + sz) 0 a2"
      using True G(5) thr
      unfolding sync_loop.simps [of cur] Let_def sz_def [symmetric] al_def [symmetric]
      by (simp add: throttle_wait_def submit_write_def submit_def io_cbk_def a2_def d1_def b1_def add.assoc add.commute [of sz])
    have b1: "b1 i = append_buf a i" if "i < append_tail a" for i using that by (simp add: b1_def memset_def)
    have "\<exists>b d c. sync_loop (cur + sz) (cur + sz + 4096) (boff + sz) 0 a2 = Some (Inr (0, a2\<lparr>append_buf := b, a_data := d, a_cnt := c\<rparr>)) \<and>
      (\<forall>i < append_tail a2. b i = append_buf a2 i) \<and>
      (\<forall>j < file_len a2. d (4096 + j) = (if cur + sz \<le> j then append_buf a2 (boff + sz + (j - (cur + sz))) else a_data a2 (4096 + j)))"
      by (rule less.hyps) (use less.prems G in \<open>auto simp: a2_def aof_calm_def\<close>)
    then obtain b d c where R: "sync_loop (cur + sz) (cur + sz + 4096) (boff + sz) 0 a2 = Some (Inr (0, a2\<lparr>append_buf := b, a_data := d, a_cnt := c\<rparr>))"
      "\<forall>i < append_tail a2. b i = append_buf a2 i"
      "\<forall>j < file_len a2. d (4096 + j) = (if cur + sz \<le> j then append_buf a2 (boff + sz + (j - (cur + sz))) else a_data a2 (4096 + j))"
      by blast
    have i: "\<forall>i < append_tail a. b i = append_buf a i" using R(2) b1 by (simp add: a2_def)
    have D: "d (4096 + j) = (if cur \<le> j then append_buf a (boff + (j - cur)) else a_data a (4096 + j))" if j: "j < file_len a" for j
    proof -
      consider "cur + sz \<le> j" | "cur \<le> j" "j < cur + sz" | "j < cur" by linarith
      then show ?thesis
      proof cases
        case 1
        then have "boff + sz + (j - (cur + sz)) < append_tail a" "boff + sz + (j - (cur + sz)) = boff + (j - cur)"
          using j less.prems(2,6) by linarith+
        then show ?thesis using R(3) j 1 b1 by (simp add: a2_def)
      next
        case 2
        then have "boff + (j - cur) < append_tail a" using j less.prems(2,6) by linarith
        then show ?thesis using R(3) j 2 b1 G(4) by (simp add: a2_def d1_def memcpy_def)
      next
        case 3
        then show ?thesis using R(3) j by (simp add: a2_def d1_def memcpy_def)
      qed
    qed
    have e: "a2\<lparr>append_buf := b, a_data := d, a_cnt := c\<rparr> = a\<lparr>append_buf := b, a_data := d, a_cnt := c\<rparr>"
      by (simp add: a2_def)
    have r: "sync_loop cur (cur + 4096) boff 0 a = Some (Inr (0, a\<lparr>append_buf := b, a_data := d, a_cnt := c\<rparr>))"
      unfolding step R(1) e ..
    have D': "\<forall>j < file_len a. d (4096 + j) = (if cur \<le> j then append_buf a (boff + (j - cur)) else a_data a (4096 + j))"
      using D by blast
    show ?thesis by (rule exI [of _ b], rule exI [of _ d], rule exI [of _ c]) (rule conjI [OF r conjI [OF i D']])
  qed
qed

text \<open>What is found in the volume after the process ended.\<close>

definition stored_len :: "aof \<Rightarrow> nat" where
  "stored_len a = unat (h_length (a_vol_head a))"

definition aof_stored :: "aof \<Rightarrow> u8 list" where
  "aof_stored a = map (\<lambda>i. a_data a (4096 + i)) [0..<stored_len a]"

definition good_head :: "PfAofHead \<Rightarrow> bool" where
  "good_head h \<longleftrightarrow> h_magic h = AOF_MAGIC \<and> h_version h = AOF_VER"

definition aof_durable :: "aof \<Rightarrow> bool" where
  "aof_durable a \<longleftrightarrow> good_head (a_vol_head a) \<and> good_head (a_head a) \<and> stored_len a \<le> file_len a \<and>
     (\<forall>i < stored_len a. a_data a (4096 + i) = aof_byte a i)"

lemma aof_stored_prefix: "aof_durable a \<Longrightarrow> aof_stored a = take (stored_len a) (aof_file a)"
  by (rule nth_equalityI) (auto simp: aof_durable_def aof_stored_def aof_file_def)

lemma aof_file_cong: "file_len a' = file_len a \<Longrightarrow> (\<And>i. i < file_len a \<Longrightarrow> aof_byte a' i = aof_byte a i) \<Longrightarrow> aof_file a' = aof_file a"
  by (simp add: aof_file_def)

lemma tail_bytes:
  assumes "append_tail a \<le> file_len a" and "append_tail a \<le> n" and "4096 dvd n" and "0 < n"
  shows "append_tail a mod 4096 < n" "append_tail a mod 4096 \<le> file_len a"
    "file_len a - append_tail a mod 4096 = file_len a - append_tail a + DOWN_ALIGN_4K (append_tail a)"
    "4096 dvd DOWN_ALIGN_4K (append_tail a)"
proof -
  have e: "DOWN_ALIGN_4K (append_tail a) + append_tail a mod 4096 = append_tail a" by (simp add: DOWN_ALIGN_4K_def)
  have "4096 \<le> n" using assms(3,4) by (rule dvd_imp_le)
  moreover have "append_tail a mod 4096 < 4096" by simp
  ultimately show "append_tail a mod 4096 < n" by linarith
  show "append_tail a mod 4096 \<le> file_len a" using e assms(1) by linarith
  show "file_len a - append_tail a mod 4096 = file_len a - append_tail a + DOWN_ALIGN_4K (append_tail a)" using e assms(1) by linarith
  show "4096 dvd DOWN_ALIGN_4K (append_tail a)" by (simp add: DOWN_ALIGN_4K_def)
qed

lemma aof_sync_ok:
  assumes calm: "aof_calm a" and t: "append_tail a \<le> file_len a" "append_tail a \<le> append_buf_size a"
    and d: "4096 dvd append_buf_size a" "0 < append_buf_size a" "4096 dvd file_len a - append_tail a"
  obtains a' where "aof_sync a = Some (Inr a')" and "aof_calm a'" and "aof_inv a'" and "file_len a' = file_len a"
    and "aof_file a' = aof_file a" and "append_buf_size a' = append_buf_size a"
    and "a_vol_head a' = (a_head a)\<lparr>h_length := of_nat (file_len a)\<rparr>" and "a_head a' = a_vol_head a'"
    and "\<forall>i < file_len a. a_data a' (4096 + i) = aof_byte a i"
proof -
  let ?base = "file_len a - append_tail a" and ?t = "append_tail a"
  obtain b e c where L: "sync_loop ?base (?base + 4096) 0 0 a = Some (Inr (0, a\<lparr>append_buf := b, a_data := e, a_cnt := c\<rparr>))"
    "\<forall>i < ?t. b i = append_buf a i"
    "\<forall>j < file_len a. e (4096 + j) = (if ?base \<le> j then append_buf a (0 + (j - ?base)) else a_data a (4096 + j))"
    using sync_loop_ok [OF calm t d(1,3), of ?base 0] by auto
  define b' where "b' = (if ?t mod 4096 \<noteq> 0 \<and> ?t > 4096 then memcpy b 0 b (DOWN_ALIGN_4K ?t) (?t mod 4096) else b)"
  define h where "h = (a_head a)\<lparr>h_length := of_nat (file_len a)\<rparr>"
  define a' where "a' = a\<lparr>append_buf := b', append_tail := ?t mod 4096, a_data := e, a_cnt := Suc c, a_head := h, a_vol_head := h\<rparr>"
  have S: "aof_sync a = Some (Inr a')"
    using L(1) calm unfolding aof_sync_def aof_calm_def
    by (simp add: throttle_wait_def submit_write_head_def submit_def io_cbk_def a'_def b'_def h_def Let_def)
  have D: "\<forall>i < file_len a. a_data a' (4096 + i) = aof_byte a i"
    using L(3) by (simp add: a'_def aof_byte_def Let_def)
  note T = tail_bytes [OF t d(1,2)]
  have bb: "b' i = append_buf a (DOWN_ALIGN_4K ?t + i)" if i: "i < ?t mod 4096" for i
  proof -
    have e: "DOWN_ALIGN_4K ?t + ?t mod 4096 = ?t" by (simp add: DOWN_ALIGN_4K_def)
    show ?thesis
    proof (cases "?t > 4096")
      case True
      then show ?thesis using i e L(2) by (simp add: b'_def memcpy_def)
    next
      case False
      then have "?t < 4096" using i by (cases "?t = 4096") simp_all
      then show ?thesis using i L(2) by (simp add: b'_def DOWN_ALIGN_4K_def)
    qed
  qed
  have "aof_byte a' i = aof_byte a i" if i: "i < file_len a" for i
  proof (cases "i < file_len a - ?t mod 4096")
    case True
    then have "aof_byte a' i = a_data a' (4096 + i)" by (simp add: aof_byte_def a'_def)
    then show ?thesis using D i by simp
  next
    case False
    then have "i - (file_len a - ?t mod 4096) < ?t mod 4096" "\<not> i < ?base"
        "DOWN_ALIGN_4K ?t + (i - (file_len a - ?t mod 4096)) = i - ?base"
      using i T(2,3) by linarith+
    then show ?thesis using False bb by (simp add: aof_byte_def a'_def Let_def)
  qed
  then have F: "aof_file a' = aof_file a" by (intro aof_file_cong) (simp_all add: a'_def)
  have "aof_inv a'" using T d(1,3) by (simp add: aof_inv_def a'_def)
  then show ?thesis using that [OF S] calm F D by (simp add: a'_def aof_calm_def h_def)
qed

text \<open>Bytes put into the buffer.\<close>

lemma buffer_bytes:
  assumes inv: "aof_inv a" and n: "n \<le> append_buf_size a - append_tail a"
    and a1_def: "a1 = a\<lparr>append_buf := memcpy (append_buf a) (append_tail a) buf idx n, append_tail := append_tail a + n, file_len := file_len a + n\<rparr>"
  shows "aof_file a1 = aof_file a @ map (\<lambda>i. buf (idx + i)) [0..<n]" "append_tail a1 \<le> file_len a1" "append_tail a1 \<le> append_buf_size a1"
    "file_len a1 - append_tail a1 = file_len a - append_tail a" "aof_durable a \<Longrightarrow> aof_durable a1"
proof -
  have t: "append_tail a \<le> file_len a" "append_tail a < append_buf_size a" using inv by (simp_all add: aof_inv_def)
  show "append_tail a1 \<le> file_len a1" "append_tail a1 \<le> append_buf_size a1" using t n by (simp_all add: a1_def)
  show base: "file_len a1 - append_tail a1 = file_len a - append_tail a" by (simp add: a1_def)
  have old: "aof_byte a1 i = aof_byte a i" if "i < file_len a" for i
    using that t by (auto simp: aof_byte_def a1_def memcpy_def Let_def)
  have new: "aof_byte a1 (file_len a + k) = buf (idx + k)" if "k < n" for k
  proof -
    have "file_len a + k - (file_len a - append_tail a) = append_tail a + k" "\<not> file_len a + k < file_len a - append_tail a"
      using t by linarith+
    then show ?thesis using that t by (simp add: aof_byte_def a1_def memcpy_def Let_def)
  qed
  have [simp]: "file_len a1 = file_len a + n" by (simp add: a1_def)
  show "aof_file a1 = aof_file a @ map (\<lambda>i. buf (idx + i)) [0..<n]"
  proof (rule nth_equalityI)
    fix i assume i: "i < length (aof_file a1)"
    show "aof_file a1 ! i = (aof_file a @ map (\<lambda>i. buf (idx + i)) [0..<n]) ! i"
    proof (cases "i < file_len a")
      case True
      then show ?thesis using old by (simp add: nth_append)
    next
      case False
      then obtain k where "i = file_len a + k" by (metis le_Suc_ex not_less)
      then show ?thesis using i new by (simp add: nth_append)
    qed
  qed simp
  show "aof_durable a \<Longrightarrow> aof_durable a1"
    using old by (auto simp: aof_durable_def a1_def stored_len_def)
qed

lemma durable_sync:
  assumes "aof_durable a" and "file_len a < 2 ^ 64" and "a_vol_head a' = (a_head a)\<lparr>h_length := of_nat (file_len a)\<rparr>"
    and "a_head a' = a_vol_head a'" and "file_len a' = file_len a" and "aof_file a' = aof_file a"
    and "\<forall>i < file_len a. a_data a' (4096 + i) = aof_byte a i"
  shows "aof_durable a'" "aof_stored a' = aof_file a" "stored_len a' = file_len a"
proof -
  show l: "stored_len a' = file_len a" using assms(2,3) by (simp add: stored_len_def unsigned_of_nat take_bit_nat_eq_self)
  have b: "aof_byte a' i = aof_byte a i" if "i < file_len a" for i
    using nth_aof_file [of i a'] nth_aof_file [of i a] assms(5,6) that by simp
  show "aof_durable a'" using assms l b by (auto simp: aof_durable_def good_head_def)
  show "aof_stored a' = aof_file a" using assms(7) l by (simp add: aof_stored_def aof_file_def)
qed

lemma append_loop_ok:
  assumes "aof_inv a" and "aof_calm a" and "aof_durable a" and "file_len a + remain < 2 ^ 64"
  shows "\<exists>a'. append_loop buf idx remain a = Some (Inr a') \<and> aof_inv a' \<and> aof_calm a' \<and> aof_durable a' \<and>
    append_buf_size a' = append_buf_size a \<and> stored_len a \<le> stored_len a' \<and>
    aof_file a' = aof_file a @ map (\<lambda>i. buf (idx + i)) [0..<remain]"
  using assms
proof (induction remain arbitrary: idx a rule: less_induct)
  case (less remain)
  show ?case
  proof (cases "remain = 0")
    case True
    then have "append_loop buf idx remain a = Some (Inr a)" by (subst append_loop.simps) simp
    then show ?thesis using less.prems True by simp
  next
    case False
    define n where "n = min remain (append_buf_size a - append_tail a)"
    define a1 where "a1 = a\<lparr>append_buf := memcpy (append_buf a) (append_tail a) buf idx n,
      append_tail := append_tail a + n, file_len := file_len a + n\<rparr>"
    have n: "0 < n" "n \<le> remain" "n \<le> append_buf_size a - append_tail a" using False less.prems(1) by (simp_all add: n_def aof_inv_def)
    note B = buffer_bytes [OF less.prems(1) n(3) a1_def]
    have c1: "aof_calm a1" "append_buf_size a1 = append_buf_size a" "stored_len a1 = stored_len a" "file_len a1 = file_len a + n"
      using less.prems(2) by (simp_all add: a1_def aof_calm_def stored_len_def)
    have d1: "4096 dvd append_buf_size a1" "0 < append_buf_size a1" "4096 dvd file_len a1 - append_tail a1"
      using less.prems(1) c1(2) B(4) by (auto simp: aof_inv_def)
    obtain a2 where a2: "(if append_tail a1 = append_buf_size a1 then aof_sync a1 else Some (Inr a1)) = Some (Inr a2)"
      "aof_inv a2" "aof_calm a2" "aof_durable a2" "append_buf_size a2 = append_buf_size a" "stored_len a \<le> stored_len a2"
      "aof_file a2 = aof_file a1" "file_len a2 = file_len a + n"
    proof (cases "append_tail a1 = append_buf_size a1")
      case True
      obtain a' where S: "aof_sync a1 = Some (Inr a')" "aof_calm a'" "aof_inv a'" "file_len a' = file_len a1"
        "aof_file a' = aof_file a1" "append_buf_size a' = append_buf_size a1"
        "a_vol_head a' = (a_head a1)\<lparr>h_length := of_nat (file_len a1)\<rparr>" "a_head a' = a_vol_head a'"
        "\<forall>i < file_len a1. a_data a' (4096 + i) = aof_byte a1 i"
        using aof_sync_ok [OF c1(1) B(2,3) d1] .
      have l: "file_len a1 < 2 ^ 64" using less.prems(4) n(2) c1(4) by linarith
      note D = durable_sync [OF B(5) [OF less.prems(3)] l S(7,8,4,5,9)]
      have "stored_len a \<le> file_len a1" using less.prems(3) c1(4) by (simp add: aof_durable_def)
      then show ?thesis using that [of a'] S D(1,3) True c1 by simp
    next
      case False
      then have "aof_inv a1" using d1 B(2,3) by (simp add: aof_inv_def)
      then show ?thesis using that [of a1] False c1 B(5) less.prems(3) by simp
    qed
    have step: "append_loop buf idx remain a = append_loop buf (idx + n) (remain - n) a2"
      using False a2(1) unfolding append_loop.simps [of buf idx] Let_def n_def [symmetric] a1_def [symmetric] by simp
    have "\<exists>a'. append_loop buf (idx + n) (remain - n) a2 = Some (Inr a') \<and> aof_inv a' \<and> aof_calm a' \<and> aof_durable a' \<and>
      append_buf_size a' = append_buf_size a2 \<and> stored_len a2 \<le> stored_len a' \<and>
      aof_file a' = aof_file a2 @ map (\<lambda>i. buf (idx + n + i)) [0..<remain - n]"
      by (rule less.IH) (use n a2 less.prems(4) in simp_all)
    then obtain a' where R: "append_loop buf (idx + n) (remain - n) a2 = Some (Inr a')" "aof_inv a'" "aof_calm a'" "aof_durable a'"
      "append_buf_size a' = append_buf_size a2" "stored_len a2 \<le> stored_len a'"
      "aof_file a' = aof_file a2 @ map (\<lambda>i. buf (idx + n + i)) [0..<remain - n]" by blast
    have "map (\<lambda>i. buf (idx + i)) [0..<n] @ map (\<lambda>i. buf (idx + n + i)) [0..<remain - n] = map (\<lambda>i. buf (idx + i)) [0..<remain]"
      using n(2) by (intro nth_equalityI) (auto simp: nth_append)
    then have "aof_file a' = aof_file a @ map (\<lambda>i. buf (idx + i)) [0..<remain]" using R(7) a2(7) B(1) by simp
    then show ?thesis using step R a2(5,6) by (intro exI [of _ a']) simp
  qed
qed

lemma calm_sync_io:
  assumes "aof_calm a" and "\<And>x. a_throttle (tr x) = a_throttle x"
  shows "sync_io tr n a = Some (Inr (int n, (\<lambda>x. x\<lparr>a_throttle := a_throttle a\<rparr>) (tr (a\<lparr>a_throttle := a_throttle a - 1, a_cnt := a_cnt a + 1\<rparr>))))"
  using assms by (simp add: sync_io_def calm_submit submit_def io_cbk_def Let_def) (simp add: aof_calm_def)

lemma aof_open_ok:
  assumes calm: "aof_calm v" and head: "good_head (a_vol_head v)" and n: "4096 dvd n" "0 < n"
  obtains a where "aof_open (aof_new n v) = Some (Inr (0, a))" and "aof_inv a" and "aof_calm a" and "aof_durable a"
    and "aof_file a = aof_stored v" and "aof_stored a = aof_stored v" and "append_buf_size a = n"
proof -
  define L where "L = stored_len v"
  define a where "a = v\<lparr>a_head := a_vol_head v, append_buf := (if L mod 4096 = 0 then a_heap v else memcpy (a_heap v) 0 (a_data v) (DOWN_ALIGN_4K L + 4096) 4096),
     append_tail := L mod 4096, file_len := L, append_buf_size := n, a_cnt := (if L mod 4096 = 0 then Suc (a_cnt v) else Suc (Suc (a_cnt v)))\<rparr>"
  have c0: "aof_calm (aof_new n v)" using calm by (simp add: aof_calm_def aof_new_def)
  have "aof_open (aof_new n v) = Some (Inr (0, a))"
  proof -
    let ?a1 = "(aof_new n v)\<lparr>a_cnt := Suc (a_cnt v), a_head := a_vol_head v\<rparr>"
    have 1: "sync_io (\<lambda>x. x\<lparr>a_head := a_vol_head x\<rparr>) 4096 (aof_new n v) = Some (Inr (4096, ?a1))"
      using calm_sync_io [OF c0, of "\<lambda>x. x\<lparr>a_head := a_vol_head x\<rparr>" 4096] by (simp add: aof_new_def)
    have c2: "aof_calm (?a1\<lparr>file_len := L\<rparr>)" using c0 by (simp add: aof_calm_def)
    let ?tr = "\<lambda>x. x\<lparr>append_buf := memcpy (append_buf x) 0 (a_data x) (DOWN_ALIGN_4K L + 4096) 4096\<rparr>"
    have 2: "sync_io ?tr 4096 (?a1\<lparr>file_len := L\<rparr>) = Some (Inr (4096, ?a1\<lparr>file_len := L, a_cnt := Suc (Suc (a_cnt v)),
        append_buf := memcpy (a_heap v) 0 (a_data v) (DOWN_ALIGN_4K L + 4096) 4096\<rparr>))"
      using calm_sync_io [OF c2, of ?tr 4096] by (simp add: aof_new_def)
    have l: "unat (h_length (a_vol_head v)) = L" by (simp add: L_def stored_len_def)
    show ?thesis using head 1 2 l unfolding aof_open_def good_head_def
      by (cases "L mod 4096 = 0") (simp_all add: a_def aof_new_def Let_def)
  qed
  moreover have m: "L mod 4096 < 4096" "DOWN_ALIGN_4K L + L mod 4096 = L" by (simp_all add: DOWN_ALIGN_4K_def)
  have "4096 \<le> n" using n by (rule dvd_imp_le)
  moreover have base: "L - L mod 4096 = DOWN_ALIGN_4K L" using m(2) by linarith
  ultimately have "aof_inv a" using n(1) m by (simp add: aof_inv_def a_def DOWN_ALIGN_4K_def)
  have byte: "aof_byte a i = a_data v (4096 + i)" if "i < L" for i
    using that m base by (auto simp: aof_byte_def a_def memcpy_def Let_def)
  have sl: "stored_len a = L" by (simp add: a_def stored_len_def L_def)
  have "aof_file a = aof_stored v" using byte by (simp add: aof_file_def aof_stored_def L_def [symmetric]) (simp add: a_def)
  moreover have "aof_durable a" using byte sl head by (simp add: aof_durable_def) (simp add: a_def)
  moreover have "aof_stored a = aof_stored v" using sl by (simp add: aof_stored_def L_def [symmetric]) (simp add: a_def)
  moreover have "aof_calm a" using calm by (simp add: aof_calm_def a_def)
  ultimately show ?thesis using that [of a] \<open>aof_open (aof_new n v) = Some (Inr (0, a))\<close> \<open>aof_inv a\<close> by (simp add: a_def)
qed

lemma calm_submit_read:
  assumes "aof_calm a"
  shows "submit_read dst d n addr 0 (a\<lparr>a_throttle := a_throttle a - Suc 0\<rparr>) = (0, 0, memcpy dst d (a_data a) addr n, a\<lparr>a_cnt := Suc (a_cnt a)\<rparr>)"
  using assms by (simp add: submit_read_def submit_def aof_calm_def io_cbk_def Let_def)

lemma calm_read_page:
  "aof_calm a \<Longrightarrow> read_page d addr rb 0 a = Some (Inr (0, 0, memcpy rb d (a_data a) addr 4096, a\<lparr>a_cnt := Suc (a_cnt a)\<rparr>))"
  by (simp add: read_page_def calm_submit calm_submit_read)

lemma calm_cnt [simp]: "aof_calm (a\<lparr>a_cnt := c\<rparr>) = aof_calm a"
  by (simp add: aof_calm_def)

lemma read_loop_ok:
  assumes "aof_calm a"
  shows "\<exists>c. read_loop ao ae bo buf 0 a = Some (Inr (0, 0, memcpy buf bo (a_data a) ao (ae - ao), a\<lparr>a_cnt := c\<rparr>))"
  using assms
proof (induction "ae - ao" arbitrary: ao bo buf a rule: less_induct)
  case less
  show ?case
  proof (cases "ao < ae")
    case False
    then have "read_loop ao ae bo buf 0 a = Some (Inr (0, 0, buf, a\<lparr>a_cnt := a_cnt a\<rparr>))" by (subst read_loop.simps) simp
    moreover have "memcpy buf bo (a_data a) ao (ae - ao) = buf" using False by (auto simp: memcpy_def fun_eq_iff)
    ultimately show ?thesis by (intro exI [of _ "a_cnt a"]) simp
  next
    case True
    define n where "n = min ae (next_seg_end ao) - ao"
    have n: "0 < n" "ao + n \<le> ae" using True seg_end(1) [of ao] by (simp_all add: n_def)
    let ?b = "memcpy buf bo (a_data a) ao n"
    have step: "read_loop ao ae bo buf 0 a = read_loop (ao + n) ae (bo + n) ?b 0 (a\<lparr>a_cnt := Suc (a_cnt a)\<rparr>)"
      using True less.prems unfolding read_loop.simps [of ao] Let_def n_def [symmetric]
      by (simp add: calm_submit calm_submit_read)
    have d: "ae - (ao + n) < ae - ao" using n True by linarith
    have "\<exists>c. read_loop (ao + n) ae (bo + n) ?b 0 (a\<lparr>a_cnt := Suc (a_cnt a)\<rparr>) =
      Some (Inr (0, 0, memcpy ?b (bo + n) (a_data (a\<lparr>a_cnt := Suc (a_cnt a)\<rparr>)) (ao + n) (ae - (ao + n)), a\<lparr>a_cnt := Suc (a_cnt a)\<rparr>\<lparr>a_cnt := c\<rparr>))"
      by (rule less.hyps [OF d]) (use less.prems in simp)
    then obtain c where "read_loop (ao + n) ae (bo + n) ?b 0 (a\<lparr>a_cnt := Suc (a_cnt a)\<rparr>) =
      Some (Inr (0, 0, memcpy ?b (bo + n) (a_data a) (ao + n) (ae - (ao + n)), a\<lparr>a_cnt := c\<rparr>))" by auto
    moreover have "memcpy ?b (bo + n) (a_data a) (ao + n) (ae - (ao + n)) = memcpy buf bo (a_data a) ao (ae - ao)"
      using n by (auto simp: memcpy_def fun_eq_iff)
    ultimately show ?thesis unfolding step by auto
  qed
qed

lemma page_parts:
  fixes x y :: nat
  shows "DOWN_ALIGN_4K x + x mod 4096 = x" "x mod 4096 < 4096" "UP_ALIGN_4K x = DOWN_ALIGN_4K x + (if x mod 4096 = 0 then 0 else 4096)"
    "x \<le> y \<Longrightarrow> DOWN_ALIGN_4K x = DOWN_ALIGN_4K y \<or> DOWN_ALIGN_4K x + 4096 \<le> DOWN_ALIGN_4K y"
proof -
  show 1: "DOWN_ALIGN_4K x + x mod 4096 = x" "x mod 4096 < 4096" by (simp_all add: DOWN_ALIGN_4K_def)
  show "UP_ALIGN_4K x = DOWN_ALIGN_4K x + (if x mod 4096 = 0 then 0 else 4096)"
  proof (cases "x mod 4096 = 0")
    case True
    then show ?thesis using UP_ALIGN_props(5) [of x] 1(1) by (simp add: mod_eq_0_iff_dvd)
  next
    case False
    have "x + 4095 = DOWN_ALIGN_4K x + 4096 + (x mod 4096 - 1)" using 1 False by linarith
    also have "\<dots> div 4096 = x div 4096 + 1" using 1(2) by (simp add: DOWN_ALIGN_4K_def)
    finally show ?thesis using False by (simp add: UP_ALIGN_4K_def DOWN_ALIGN_4K_def)
  qed
  assume "x \<le> y"
  then have "x div 4096 \<le> y div 4096" by (rule div_le_mono)
  then consider "x div 4096 = y div 4096" | "x div 4096 + 1 \<le> y div 4096" by linarith
  then show "DOWN_ALIGN_4K x = DOWN_ALIGN_4K y \<or> DOWN_ALIGN_4K x + 4096 \<le> DOWN_ALIGN_4K y"
    by cases (auto simp: DOWN_ALIGN_4K_def)
qed

lemma read_volume_ok:
  assumes calm: "aof_calm a" and le: "vol_off \<le> vol_end" "vol_end - vol_off \<le> len"
    and tail: "vol_end mod 4096 \<noteq> 0 \<Longrightarrow> vol_end = vol_off + len" and off: "offset mod 4096 = vol_off mod 4096"
  shows "\<exists>c. read_volume buf len offset vol_off vol_end a =
    Some (Inr (int len, memcpy buf 0 (a_data a) vol_off (vol_end - vol_off), a\<lparr>a_cnt := c\<rparr>))"
proof -
  define ch where "ch = (vol_off mod 4096 \<noteq> 0)"
  define ct where "ct = (vol_end mod 4096 \<noteq> 0 \<and> (DOWN_ALIGN_4K vol_end \<noteq> DOWN_ALIGN_4K vol_off \<or> vol_off mod 4096 = 0))"
  define D E x y where "D = DOWN_ALIGN_4K vol_off" and "E = DOWN_ALIGN_4K vol_end" and "x = vol_off mod 4096" and "y = vol_end mod 4096"
  define rb1 where "rb1 = (if ch then memcpy (a_heap a) 0 (a_data a) D 4096 else a_heap a)"
  define rb2 where "rb2 = (if ct then memcpy rb1 4096 (a_data a) E 4096 else rb1)"
  define a2 where "a2 = a\<lparr>a_cnt := a_cnt a + of_bool ch + of_bool ct\<rparr>"
  define ao ae where "ao = D + (if ch then 4096 else 0)" and "ae = UP_ALIGN_4K vol_end - (if ct then 4096 else 0)"
  obtain c where c: "read_loop ao ae (if ch then 4096 - x else 0) buf 0 a2 =
      Some (Inr (0, 0, memcpy buf (if ch then 4096 - x else 0) (a_data a) ao (ae - ao), a\<lparr>a_cnt := c\<rparr>))"
    using read_loop_ok [of a2 ao ae "if ch then 4096 - x else 0" buf] calm by (auto simp: a2_def)
  define b3 where "b3 = memcpy buf (if ch then 4096 - x else 0) (a_data a) ao (ae - ao)"
  define b4 where "b4 = (if ch then memcpy b3 0 rb2 x (min (4096 - x) len) else b3)"
  define b5 where "b5 = (if ct then memcpy b4 (len - y) rb2 4096 y else b4)"
  have 1: "(if ch then read_page 0 D (a_heap a) 0 a else Some (Inr (0, 0, a_heap a, a))) =
      Some (Inr (0, 0, rb1, a\<lparr>a_cnt := a_cnt a + of_bool ch\<rparr>))"
    using calm by (simp add: calm_read_page rb1_def)
  have 2: "(if ct then read_page 4096 E rb1 0 (a\<lparr>a_cnt := a_cnt a + of_bool ch\<rparr>) else Some (Inr (0, 0, rb1, a\<lparr>a_cnt := a_cnt a + of_bool ch\<rparr>))) =
      Some (Inr (0, 0, rb2, a2))"
    using calm by (simp add: calm_read_page rb2_def a2_def)
  have R: "read_volume buf len offset vol_off vol_end a = Some (Inr (int len, b5, a\<lparr>a_cnt := c\<rparr>))"
    unfolding read_volume_def Let_def ch_def [symmetric] ct_def [symmetric]
    unfolding D_def [symmetric] E_def [symmetric] off x_def [symmetric] y_def [symmetric] ao_def [symmetric] ae_def [symmetric]
    by (simp only: 1 2 c obnd_simps prod.case simp_thms if_False b5_def b4_def b3_def)
  note P = page_parts(1,2) [of vol_off, folded D_def x_def] page_parts(1,2) [of vol_end, folded E_def y_def]
  have U: "UP_ALIGN_4K vol_end = E + (if y = 0 then 0 else 4096)" using page_parts(3) [of vol_end] by (simp add: E_def y_def)
  have DE: "D = E \<or> D + 4096 \<le> E" using page_parts(4) [OF le(1)] by (simp add: D_def E_def)
  have ch: "ch \<longleftrightarrow> x \<noteq> 0" by (simp add: ch_def x_def)
  have ct: "ct \<longleftrightarrow> y \<noteq> 0 \<and> (E \<noteq> D \<or> x = 0)" by (simp add: ct_def x_def y_def D_def E_def)
  have T: "y \<noteq> 0 \<Longrightarrow> vol_end = vol_off + len" using tail by (simp add: y_def)
  have vo: "vol_off = D + x" "vol_end = E + y" "x < 4096" "y < 4096" using P by simp_all
  have "b5 i = memcpy buf 0 (a_data a) vol_off (vol_end - vol_off) i" for i
  proof (cases "x = 0")
    case True
    then have [simp]: "ch = False" "ct = (y \<noteq> 0)" "ao = D" "ae = E" using ch ct U by (simp_all add: ao_def ae_def)
    have DE: "D \<le> E" using DE by linarith
    show ?thesis
    proof (cases "y = 0")
      case y: True
      then show ?thesis using True vo DE by (auto simp: b5_def b4_def b3_def rb2_def memcpy_apply)
    next
      case False
      then have "len = E + y - D" using T vo True by linarith
      then show ?thesis using False True vo DE by (auto simp: b5_def b4_def b3_def rb2_def memcpy_apply add.commute [of i])
    qed
  next
    case x: False
    show ?thesis
    proof (cases "D = E")
      case True
      then have y: "y \<noteq> 0" using le(1) vo x by linarith
      then have [simp]: "ch" "\<not> ct" "ae - ao = 0" using ch ct U x True by (simp_all add: ao_def ae_def)
      have "len \<le> 4096 - x" "vol_end - vol_off = len" using T [OF y] vo True by linarith+
      then show ?thesis using x vo by (auto simp: b5_def b4_def b3_def rb2_def rb1_def memcpy_apply ac_simps)
    next
      case False
      then have [simp]: "ch" "ct = (y \<noteq> 0)" "ao = D + 4096" "ae = E" using ch ct U x by (auto simp: ao_def ae_def)
      have DE: "D + 4096 \<le> E" using DE False by simp
      then have m: "min (4096 - x) len = 4096 - x" using le(2) vo by linarith
      show ?thesis
      proof (cases "y = 0")
        case True
        then show ?thesis using x vo DE m by (auto simp: b5_def b4_def b3_def rb2_def rb1_def memcpy_apply ac_simps)
      next
        case False
        then have "len = E + y - (D + x)" using T vo by linarith
        then show ?thesis using False x vo DE m by (auto simp: b5_def b4_def b3_def rb2_def rb1_def memcpy_apply ac_simps)
      qed
    qed
  qed
  then have "b5 = memcpy buf 0 (a_data a) vol_off (vol_end - vol_off)" by blast
  then show ?thesis using R by blast
qed

lemma aof_read_ok:
  assumes inv: "aof_inv a" and calm: "aof_calm a"
  shows "\<exists>c. aof_read buf len off a =
    Some (Inr (int (min len (file_len a - off)), memcpy buf 0 (aof_byte a) off (min len (file_len a - off)), a\<lparr>a_cnt := c\<rparr>))"
proof (cases "off < file_len a")
  case False
  then have "aof_read buf len off a = Some (Inr (0, buf, a\<lparr>a_cnt := a_cnt a\<rparr>))" by (simp add: aof_read_def)
  moreover have "memcpy buf 0 (aof_byte a) off 0 = buf" by (simp add: memcpy_def fun_eq_iff)
  ultimately show ?thesis using False by (intro exI [of _ "a_cnt a"]) simp
next
  case off: True
  define n where "n = min len (file_len a - off)"
  define base where "base = file_len a - append_tail a"
  have n: "(if off + len > file_len a then file_len a - off else len) = n" "off + n \<le> file_len a" using off by (auto simp: n_def)
  have base4: "4096 dvd base" "base \<le> file_len a" using inv by (simp_all add: aof_inv_def base_def)
  have R: "aof_read buf len off a =
     (if off + n > base
      then let l = min n (off + n - base); b1 = memcpy buf (n - l) (append_buf a) (if n = l then off + n - base - l else 0) l
           in if n = l then Some (Inr (int n, b1, a))
              else if (off + 4096 + (n - l)) mod 4096 \<noteq> 0 then Some (Inl Assert_failed)
              else read_volume b1 n off (off + 4096) (off + 4096 + (n - l)) a
      else read_volume buf n off (off + 4096) (off + 4096 + n) a)"
    using off unfolding aof_read_def Let_def n(1) base_def [symmetric] by simp
  have byte: "aof_byte a i = (if i < base then a_data a (4096 + i) else append_buf a (i - base))" for i
    by (simp add: aof_byte_def base_def Let_def)
  show ?thesis unfolding n_def [symmetric]
  proof (cases "off + n > base")
    case False
    have "\<exists>c. read_volume buf n off (off + 4096) (off + 4096 + n) a =
      Some (Inr (int n, memcpy buf 0 (a_data a) (off + 4096) (off + 4096 + n - (off + 4096)), a\<lparr>a_cnt := c\<rparr>))"
      by (rule read_volume_ok) (use calm in simp_all)
    moreover have "memcpy buf 0 (a_data a) (off + 4096) n = memcpy buf 0 (aof_byte a) off n"
      using False by (auto simp: memcpy_def byte fun_eq_iff ac_simps)
    ultimately show "\<exists>c. aof_read buf len off a = Some (Inr (int n, memcpy buf 0 (aof_byte a) off n, a\<lparr>a_cnt := c\<rparr>))"
      using False R by simp
  next
    case True
    show "\<exists>c. aof_read buf len off a = Some (Inr (int n, memcpy buf 0 (aof_byte a) off n, a\<lparr>a_cnt := c\<rparr>))"
    proof (cases "base \<le> off")
      case b: True
      then have "aof_read buf len off a = Some (Inr (int n, memcpy buf 0 (append_buf a) (off - base) n, a\<lparr>a_cnt := a_cnt a\<rparr>))"
        using True R by (simp add: Let_def)
      moreover have "memcpy buf 0 (append_buf a) (off - base) n = memcpy buf 0 (aof_byte a) off n"
        using b by (auto simp: memcpy_def byte fun_eq_iff)
      ultimately show ?thesis by (intro exI [of _ "a_cnt a"]) simp
    next
      case b: False
      define l where "l = off + n - base"
      have l: "min n (off + n - base) = l" "l < n" "off + 4096 + (n - l) = 4096 + base" "n - l = base - off" using b True by (auto simp: l_def)
      define b1 where "b1 = memcpy buf (n - l) (append_buf a) 0 l"
      have "\<exists>c. read_volume b1 n off (off + 4096) (4096 + base) a =
        Some (Inr (int n, memcpy b1 0 (a_data a) (off + 4096) (4096 + base - (off + 4096)), a\<lparr>a_cnt := c\<rparr>))"
        by (rule read_volume_ok) (use calm b l base4 in \<open>auto simp: mod_add_right_eq [symmetric]\<close>)
      moreover have "memcpy b1 0 (a_data a) (off + 4096) (4096 + base - (off + 4096)) = memcpy buf 0 (aof_byte a) off n"
        using b l True by (auto simp: memcpy_def b1_def byte fun_eq_iff ac_simps)
      moreover have "(4096 + base) mod 4096 = 0" using base4(1) by (simp add: mod_add_right_eq [symmetric])
      ultimately show ?thesis using True R l by (simp add: Let_def b1_def)
    qed
  qed
qed

section \<open>The file as a specification\<close>

text \<open>
  The abstract file is a pair of byte sequences: what a reader of the open file sees, and
  what is found after the process ended without closing the file.
\<close>

datatype aof_op = Do_append "u8 list" | Do_sync | Do_reopen

fun file_spec :: "aof_op \<Rightarrow> u8 list \<times> u8 list \<Rightarrow> u8 list \<times> u8 list \<Rightarrow> bool" where
  "file_spec (Do_append zs) (xs, ys) (xs', ys') = (xs' = xs @ zs \<and> (\<exists>n. length ys \<le> n \<and> ys' = take n xs'))"
| "file_spec Do_sync (xs, ys) (xs', ys') = (xs' = xs \<and> ys' = xs)"
| "file_spec Do_reopen (xs, ys) (xs', ys') = (xs' = ys \<and> ys' = ys)"

fun file_run :: "aof_op list \<Rightarrow> u8 list \<times> u8 list \<Rightarrow> u8 list \<times> u8 list \<Rightarrow> bool" where
  "file_run [] s s' = (s' = s)"
| "file_run (op # ops) s s' = (\<exists>s1. file_spec op s s1 \<and> file_run ops s1 s')"

text \<open>The operations of the code; \<open>Do_reopen\<close> is a new process that opens the volume.\<close>

fun aof_do :: "aof_op \<Rightarrow> aof \<Rightarrow> (fault + aof) option" where
  "aof_do (Do_append xs) a = obnd (aof_append (\<lambda>i. xs ! i) (length xs) a) (\<lambda>(n, a'). Some (Inr a'))"
| "aof_do Do_sync a = aof_sync a"
| "aof_do Do_reopen a = obnd (aof_open (aof_new (append_buf_size a) a)) (\<lambda>(rc, a'). if rc = 0 then Some (Inr a') else Some (Inl Runtime_error))"

fun aof_run :: "aof_op list \<Rightarrow> aof \<Rightarrow> (fault + aof) option" where
  "aof_run [] a = Some (Inr a)"
| "aof_run (op # ops) a = obnd (aof_do op a) (aof_run ops)"

fun op_len :: "aof_op \<Rightarrow> nat" where
  "op_len (Do_append xs) = length xs"
| "op_len _ = 0"

definition aof_good :: "aof \<Rightarrow> bool" where
  "aof_good a \<longleftrightarrow> aof_inv a \<and> aof_calm a \<and> aof_durable a"

lemma stored_le: "aof_durable a \<Longrightarrow> length (aof_stored a) \<le> file_len a"
  by (simp add: aof_durable_def aof_stored_def)

lemma aof_do_refines:
  assumes good: "aof_good a" and len: "file_len a + op_len op < 2 ^ 64"
  shows "\<exists>a'. aof_do op a = Some (Inr a') \<and> aof_good a' \<and> file_len a' \<le> file_len a + op_len op \<and>
    file_spec op (aof_file a, aof_stored a) (aof_file a', aof_stored a')"
proof -
  note g = good [unfolded aof_good_def]
  have b: "append_tail a \<le> file_len a" "append_tail a \<le> append_buf_size a" "4096 dvd append_buf_size a" "0 < append_buf_size a"
      "4096 dvd file_len a - append_tail a" using g by (auto simp: aof_inv_def)
  show ?thesis
  proof (cases op)
    case (Do_append xs)
    have l: "file_len a + length xs < 2 ^ 64" using len Do_append by simp
    have "\<exists>a'. append_loop (\<lambda>i. xs ! i) 0 (length xs) a = Some (Inr a') \<and> aof_inv a' \<and> aof_calm a' \<and> aof_durable a' \<and>
      append_buf_size a' = append_buf_size a \<and> stored_len a \<le> stored_len a' \<and>
      aof_file a' = aof_file a @ map (\<lambda>i. xs ! (0 + i)) [0..<length xs]"
      by (rule append_loop_ok) (use g l in simp_all)
    then obtain a' where R: "append_loop (\<lambda>i. xs ! i) 0 (length xs) a = Some (Inr a')" "aof_inv a'" "aof_calm a'" "aof_durable a'"
      "stored_len a \<le> stored_len a'" "aof_file a' = aof_file a @ xs" by (auto simp: map_nth)
    have "file_len a' = file_len a + length xs" using R(6) length_aof_file [of a'] by (metis length_append length_aof_file)
    moreover have "length (aof_stored a) \<le> stored_len a'" using R(5) by (simp add: aof_stored_def)
    ultimately show ?thesis using R aof_stored_prefix [OF R(4)] Do_append
      by (intro exI [of _ a']) (auto simp: aof_append_def aof_good_def)
  next
    case Do_sync
    obtain a' where S: "aof_sync a = Some (Inr a')" "aof_calm a'" "aof_inv a'" "file_len a' = file_len a"
      "aof_file a' = aof_file a" "append_buf_size a' = append_buf_size a"
      "a_vol_head a' = (a_head a)\<lparr>h_length := of_nat (file_len a)\<rparr>" "a_head a' = a_vol_head a'"
      "\<forall>i < file_len a. a_data a' (4096 + i) = aof_byte a i"
      using aof_sync_ok [OF _ b] g by blast
    have l: "file_len a < 2 ^ 64" using len Do_sync by simp
    note D = durable_sync [OF _ l S(7,8,4,5,9)]
    show ?thesis using S D g Do_sync by (intro exI [of _ a']) (simp add: aof_good_def)
  next
    case Do_reopen
    obtain a' where R: "aof_open (aof_new (append_buf_size a) a) = Some (Inr (0, a'))" "aof_inv a'" "aof_calm a'" "aof_durable a'"
      "aof_file a' = aof_stored a" "aof_stored a' = aof_stored a" "append_buf_size a' = append_buf_size a"
      using aof_open_ok [OF _ _ b(3,4), of a] g by (auto simp: aof_durable_def)
    have "file_len a' = length (aof_stored a)" using R(5) by (metis length_aof_file)
    then show ?thesis using R g stored_le [of a] Do_reopen by (intro exI [of _ a']) (simp add: aof_good_def)
  qed
qed

text \<open>
  (C23) The append-only file refines the abstract file. For every sequence of appends, syncs and
  ends of the process, when the transfers succeed, every operation returns, a reader sees
  exactly the bytes appended, in order; after a sync all of them survive the end of the
  process, and without one a new process finds a prefix that is never shorter than what
  an earlier sync wrote. The file must stay below \<open>2 ^ 64\<close> bytes, the range of the length field.
\<close>

theorem aof_refines_file:
  assumes "aof_good a" and "file_len a + sum_list (map op_len ops) < 2 ^ 64"
  shows "\<exists>a'. aof_run ops a = Some (Inr a') \<and> aof_good a' \<and>
    file_run ops (aof_file a, aof_stored a) (aof_file a', aof_stored a')"
  using assms
proof (induction ops arbitrary: a)
  case (Cons op ops)
  have l: "file_len a + op_len op < 2 ^ 64" using Cons.prems(2) by simp
  obtain a1 where a1: "aof_do op a = Some (Inr a1)" "aof_good a1" "file_len a1 \<le> file_len a + op_len op"
    "file_spec op (aof_file a, aof_stored a) (aof_file a1, aof_stored a1)"
    using aof_do_refines [OF Cons.prems(1) l] by blast
  have "file_len a1 + sum_list (map op_len ops) < 2 ^ 64" using a1(3) Cons.prems(2) by simp
  then obtain a' where "aof_run ops a1 = Some (Inr a')" "aof_good a'"
    "file_run ops (aof_file a1, aof_stored a1) (aof_file a', aof_stored a')"
    using Cons.IH [OF a1(2)] by blast
  then show ?case using a1 by (intro exI [of _ a']) auto
qed simp

text \<open>A volume on which an empty file was created and opened.\<close>

definition sample_aof :: aof where
  "sample_aof = \<lparr>a_vol_head = empty_head\<lparr>h_magic := AOF_MAGIC, h_version := AOF_VER\<rparr>, a_data = (\<lambda>_. 0),
     a_head = empty_head\<lparr>h_magic := AOF_MAGIC, h_version := AOF_VER\<rparr>, append_buf = (\<lambda>_. 0), append_tail = 0, file_len = 0,
     append_buf_size = 2097152, a_throttle = 100, a_heap = (\<lambda>_. 0), a_ext = (\<lambda>_. (0, 0)), a_cnt = 0\<rparr>"

lemma sample_aof_good: "aof_good sample_aof"
  by (simp add: aof_good_def aof_inv_def aof_calm_def aof_durable_def sample_aof_def good_head_def stored_len_def empty_head_def)

theorem aof_refines_file_witness:
  "\<exists>a'. aof_run [Do_append [1, 2], Do_sync, Do_append [3], Do_reopen] sample_aof = Some (Inr a') \<and> take 2 (aof_file a') = [1, 2]"
proof -
  have f: "file_len sample_aof = 0" "aof_file sample_aof = []" "aof_stored sample_aof = []"
    by (simp_all add: sample_aof_def aof_file_def aof_stored_def stored_len_def empty_head_def)
  obtain a' where a': "aof_run [Do_append [1, 2], Do_sync, Do_append [3], Do_reopen] sample_aof = Some (Inr a')"
    "file_run [Do_append [1, 2], Do_sync, Do_append [3], Do_reopen] (aof_file sample_aof, aof_stored sample_aof) (aof_file a', aof_stored a')"
    using aof_refines_file [OF sample_aof_good, of "[Do_append [1, 2], Do_sync, Do_append [3], Do_reopen]"] f(1) by (auto simp del: aof_run.simps file_run.simps)
  have "take 2 (aof_file a') = [1, 2]" using a'(2) unfolding f(2,3) by (auto simp: split_paired_Ex)
  then show ?thesis using a'(1) by blast
qed

text \<open>
  (C24) Reading returns the bytes of the file. For every offset and length, when the
  transfers succeed, \<open>read\<close> returns the number of bytes from the offset to the end, at most
  the length asked for; these bytes of the file, whether they are still in the buffer or
  already in the volume, are in the caller's memory, and no byte behind them is touched.
\<close>

theorem aof_read_correct:
  assumes "aof_inv a" and "aof_calm a"
  shows "\<exists>buf' a'. aof_read buf len off a = Some (Inr (int (min len (file_len a - off)), buf', a')) \<and>
    aof_file a' = aof_file a \<and>
    (\<forall>i. buf' i = (if i < min len (file_len a - off) then aof_file a ! (off + i) else buf i))"
proof -
  let ?n = "min len (file_len a - off)"
  obtain c where c: "aof_read buf len off a = Some (Inr (int ?n, memcpy buf 0 (aof_byte a) off ?n, a\<lparr>a_cnt := c\<rparr>))"
    using aof_read_ok [OF assms] by blast
  have "aof_file (a\<lparr>a_cnt := c\<rparr>) = aof_file a" by (rule aof_file_cong) (simp_all add: aof_byte_def Let_def)
  then show ?thesis using c by (intro exI [of _ "memcpy buf 0 (aof_byte a) off ?n"] exI [of _ "a\<lparr>a_cnt := c\<rparr>"]) (auto simp: memcpy_def)
qed

theorem aof_read_correct_witness:
  "\<exists>buf' a'. aof_read (\<lambda>_. 7) 4 0 sample_aof = Some (Inr (0, buf', a')) \<and> buf' 0 = 7"
  using aof_read_correct [of sample_aof "\<lambda>_. 7" 4 0] sample_aof_good by (force simp: aof_good_def sample_aof_def)

section \<open>Errors\<close>

lemma sync_loop_failing:
  assumes "a_ext a = (\<lambda>_. (0, st))" and "st \<noteq> 0" and "0 < a_throttle a" and "append_tail a \<le> file_len a"
    and "append_tail a \<le> append_buf_size a" and "4096 dvd append_buf_size a"
    and "4096 dvd file_len a - append_tail a" and "cur = file_len a - append_tail a + boff" and "boff \<le> append_tail a"
    and "4096 dvd boff \<or> boff = append_tail a"
  shows "\<exists>b c. sync_loop cur (cur + 4096) boff 0 a = Some (Inr (0, a\<lparr>append_buf := b, a_cnt := c\<rparr>))"
  using assms
proof (induction "append_tail a - boff" arbitrary: a boff cur rule: less_induct)
  case less
  show ?case
  proof (cases "cur < file_len a")
    case False
    then have "sync_loop cur (cur + 4096) boff 0 a = Some (Inr (0, a\<lparr>append_buf := append_buf a, a_cnt := a_cnt a\<rparr>))"
      by (subst sync_loop.simps) simp
    then show ?thesis by blast
  next
    case True
    define sz where "sz = min (next_seg_end (cur + 4096) - 4096) (file_len a) - cur"
    define al where "al = (if sz mod 4096 \<noteq> 0 then UP_ALIGN_4K sz else sz)"
    note G = sync_segment [OF less.prems(4-10) True sz_def al_def]
    define a2 where "a2 = a\<lparr>append_buf := memset (append_buf a) (append_tail a) 0 (al - sz), a_cnt := a_cnt a + 1\<rparr>"
    have step: "sync_loop cur (cur + 4096) boff 0 a = sync_loop (cur + sz) (cur + sz + 4096) (boff + sz) 0 a2"
      using True G(5) less.prems(1-3)
      unfolding sync_loop.simps [of cur] Let_def sz_def [symmetric] al_def [symmetric]
      by (simp add: throttle_wait_def submit_write_def submit_def io_cbk_def a2_def add.assoc add.commute [of sz])
    have "\<exists>b c. sync_loop (cur + sz) (cur + sz + 4096) (boff + sz) 0 a2 = Some (Inr (0, a2\<lparr>append_buf := b, a_cnt := c\<rparr>))"
      by (rule less.hyps) (use less.prems G in \<open>auto simp: a2_def\<close>)
    then show ?thesis unfolding step by (auto simp: a2_def)
  qed
qed

text \<open>
  (C37) A failed transfer goes unnoticed. The callback stores the status of a transfer only when
  an error is stored already, so none ever is. When every transfer of a \<open>sync\<close> ends with an
  error, \<open>sync\<close> returns normally, nothing in the volume has changed, and all full pages
  have been dropped from the buffer.
\<close>

theorem sync_error_unnoticed:
  assumes "aof_inv a" and "a_ext a = (\<lambda>_. (0, st))" and "st \<noteq> 0" and "0 < a_throttle a"
  shows "\<exists>a'. aof_sync a = Some (Inr a') \<and> a_data a' = a_data a \<and> a_vol_head a' = a_vol_head a \<and>
    append_tail a' = append_tail a mod 4096"
proof -
  have inv: "append_tail a \<le> file_len a" "append_tail a \<le> append_buf_size a" "4096 dvd append_buf_size a" "4096 dvd file_len a - append_tail a"
    using assms(1) by (simp_all add: aof_inv_def)
  obtain b c where "sync_loop (file_len a - append_tail a) (file_len a - append_tail a + 4096) 0 0 a = Some (Inr (0, a\<lparr>append_buf := b, a_cnt := c\<rparr>))"
    using sync_loop_failing [OF assms(2-4) inv, of _ 0] by auto
  then show ?thesis using assms(2-4)
    by (simp add: aof_sync_def throttle_wait_def submit_write_head_def submit_def io_cbk_def Let_def)
qed

theorem sync_error_unnoticed_witness:
  "\<exists>a'. aof_sync (sample_aof\<lparr>a_ext := (\<lambda>_. (0, 5)), append_tail := 8192, file_len := 8192\<rparr>) = Some (Inr a') \<and> append_tail a' = 0"
  using sync_error_unnoticed [of "sample_aof\<lparr>a_ext := (\<lambda>_. (0, 5)), append_tail := 8192, file_len := 8192\<rparr>" 5]
  by (force simp: aof_inv_def sample_aof_def)

text \<open>
  (C38) Opening a file of another version empties it. \<open>PfAof::open\<close> refuses a file whose
  version it does not support, before it has read the length. The object is then destroyed,
  and the destructor calls \<open>sync\<close>, which writes the head back with length 0.
\<close>

theorem open_other_version_truncates:
  assumes "aof_calm v" and "h_magic (a_vol_head v) = AOF_MAGIC" and "h_version (a_vol_head v) \<noteq> AOF_VER"
  shows "\<exists>a a'. aof_open (aof_new n v) = Some (Inr (- EINVAL, a)) \<and> aof_destroy a = Some (Inr a') \<and>
    a_vol_head a' = (a_vol_head v)\<lparr>h_length := 0\<rparr>"
proof -
  let ?a = "(aof_new n v)\<lparr>a_cnt := Suc (a_cnt v), a_head := a_vol_head v\<rparr>"
  have c: "aof_calm (aof_new n v)" using assms(1) by (simp add: aof_calm_def aof_new_def)
  have "sync_io (\<lambda>x. x\<lparr>a_head := a_vol_head x\<rparr>) 4096 (aof_new n v) = Some (Inr (4096, ?a))"
    using calm_sync_io [OF c, of "\<lambda>x. x\<lparr>a_head := a_vol_head x\<rparr>" 4096] by (simp add: aof_new_def)
  then have "aof_open (aof_new n v) = Some (Inr (- EINVAL, ?a))" using assms(2,3) by (simp add: aof_open_def aof_new_def)
  moreover have "sync_loop 0 4096 0 0 ?a = Some (Inr (0, ?a))" by (subst sync_loop.simps) (simp add: aof_new_def)
  then have "\<exists>a'. aof_destroy ?a = Some (Inr a') \<and> a_vol_head a' = (a_vol_head v)\<lparr>h_length := 0\<rparr>"
    using assms(1) by (simp add: aof_destroy_def aof_sync_def aof_new_def throttle_wait_def submit_write_head_def submit_def
        io_cbk_def aof_calm_def Let_def)
  ultimately show ?thesis by blast
qed

theorem open_other_version_truncates_witness:
  "\<exists>a a'. aof_open (aof_new 4096 (sample_aof\<lparr>a_vol_head := empty_head\<lparr>h_magic := AOF_MAGIC, h_version := 2, h_length := 9000\<rparr>\<rparr>)) = Some (Inr (- EINVAL, a)) \<and>
     aof_destroy a = Some (Inr a') \<and> h_length (a_vol_head a') = 0"
  using open_other_version_truncates [of "sample_aof\<lparr>a_vol_head := empty_head\<lparr>h_magic := AOF_MAGIC, h_version := 2, h_length := 9000\<rparr>\<rparr>" 4096]
  by (force simp: aof_calm_def sample_aof_def AOF_VER_def empty_head_def)

end
