(* ===== verification/Aof_Cache.thy ===== *)
theory Aof_Cache
  imports Aof
begin

text \<open>
  \<open>AofWindowCache\<close> and \<open>CacheLine\<close> of \<open>common/src/pf_aof_cache.cpp\<close>: a read cache of eight
  slots in front of an append-only file. The theory shows that reads through the cache
  return the bytes of the file while the file does not change, that appended bytes are
  not seen, and that the prefetch, modelled with its two threads and the lock of the slot,
  deadlocks.
\<close>

section \<open>The cache\<close>

definition SLOT_CNT :: nat where "SLOT_CNT = 8"
definition SLOT_SIZE :: nat where "SLOT_SIZE = 65536"

text \<open>\<open>off_in_file\<close> is \<open>None\<close> for -1, an empty slot.\<close>

record cache_line =
  off_in_file :: "nat option"
  cl_buf :: "nat \<Rightarrow> u8"
  hit_cnt :: nat

record window_cache =
  slots :: "cache_line list"
  wc_aof :: aof
  prefetch :: bool

definition OFF2SLOT :: "nat \<Rightarrow> nat" where "OFF2SLOT x = x div SLOT_SIZE mod SLOT_CNT"
definition ALIGN_ON_SLOT :: "nat \<Rightarrow> nat" where "ALIGN_ON_SLOT x = x div SLOT_SIZE * SLOT_SIZE"

definition line_init :: "(nat \<Rightarrow> u8) \<Rightarrow> cache_line" where
  "line_init mem = \<lparr>off_in_file = None, cl_buf = mem, hit_cnt = 0\<rparr>"

text \<open>\<open>init\<close>; a slot without memory ends the process.\<close>

definition cache_init :: "bool list \<Rightarrow> aof \<Rightarrow> bool \<Rightarrow> fault + window_cache" where
  "cache_init mem a pf =
     (if list_all id (take SLOT_CNT mem)
      then Inr \<lparr>slots = replicate SLOT_CNT (line_init (a_heap a)), wc_aof = a, prefetch = pf\<rparr>
      else Inl Fatal_exit)"

definition fetch_data :: "nat \<Rightarrow> cache_line \<Rightarrow> aof \<Rightarrow> (fault + int \<times> cache_line \<times> aof) option" where
  "fetch_data offset l a =
     (if off_in_file l = Some offset then Some (Inr (0, l, a))
      else obnd (aof_read (cl_buf l) SLOT_SIZE offset a) (\<lambda>(rc, buf, a1).
        if rc \<ge> 0 then Some (Inr (0, l\<lparr>off_in_file := Some offset, cl_buf := buf, hit_cnt := 0\<rparr>, a1))
        else Some (Inr (rc, l\<lparr>off_in_file := None, cl_buf := buf\<rparr>, a1))))"

text \<open>
  \<open>CacheLine::pread\<close> into the memory \<open>dst\<close> at \<open>d\<close>. After a successful fetch the slot is
  the right one, so the jump back is taken at most once. On failure the negative code is
  returned as if it were a length.
\<close>

definition line_pread :: "(nat \<Rightarrow> u8) \<Rightarrow> nat \<Rightarrow> nat \<Rightarrow> nat \<Rightarrow> cache_line \<Rightarrow> aof \<Rightarrow> (fault + int \<times> (nat \<Rightarrow> u8) \<times> cache_line \<times> aof) option" where
  "line_pread dst d len offset l a =
     obnd (if off_in_file l \<noteq> Some (ALIGN_ON_SLOT offset) then fetch_data (ALIGN_ON_SLOT offset) l a else Some (Inr (0, l, a)))
       (\<lambda>(rc, l1, a1).
          if rc \<noteq> 0 then Some (Inr (rc, dst, l1, a1))
          else let skip = offset - ALIGN_ON_SLOT offset; n = min len (SLOT_SIZE - skip)
               in Some (Inr (int n, memcpy dst d (cl_buf l1) skip n, l1\<lparr>hit_cnt := hit_cnt l1 + 1\<rparr>, a1)))"

text \<open>
  \<open>bg_fetch_data\<close> and the thread it starts share the lock of the slot, a \<open>std::shared_mutex\<close>.
  \<open>sl_readers\<close> counts the shared holders and \<open>sl_writer\<close> is the exclusive one. The future
  that \<open>std::async\<close> returns is a temporary, so its destructor waits at the end of the
  statement until the thread has ended. Both threads take one step at a time, and a step
  that has to wait leaves the state as it is. In \<open>pread\<close> and in a direct call of
  \<open>fetch_data\<close> the lock is free, since only the reading thread and the prefetch use the cache.
\<close>

datatype caller_pc = C_lock_shared | C_test | C_wait | C_unlock_shared | C_returned

datatype fetcher_pc = F_none | F_lock | F_fetch | F_unlock | F_ended

record prefetch_state =
  sl_readers :: nat
  sl_writer :: bool
  sl_line :: cache_line
  sl_aof :: aof
  sl_caller :: caller_pc
  sl_fetcher :: fetcher_pc

definition prefetch_start :: "cache_line \<Rightarrow> aof \<Rightarrow> prefetch_state" where
  "prefetch_start l a = \<lparr>sl_readers = 0, sl_writer = False, sl_line = l, sl_aof = a, sl_caller = C_lock_shared, sl_fetcher = F_none\<rparr>"

definition caller_step :: "nat \<Rightarrow> prefetch_state \<Rightarrow> prefetch_state" where
  "caller_step offset p =
     (case sl_caller p of
        C_lock_shared \<Rightarrow> if sl_writer p then p else p\<lparr>sl_readers := sl_readers p + 1, sl_caller := C_test\<rparr>
      | C_test \<Rightarrow> if off_in_file (sl_line p) \<noteq> Some (ALIGN_ON_SLOT offset)
                  then p\<lparr>sl_fetcher := F_lock, sl_caller := C_wait\<rparr> else p\<lparr>sl_caller := C_unlock_shared\<rparr>
      | C_wait \<Rightarrow> if sl_fetcher p = F_ended then p\<lparr>sl_caller := C_unlock_shared\<rparr> else p
      | C_unlock_shared \<Rightarrow> p\<lparr>sl_readers := sl_readers p - 1, sl_caller := C_returned\<rparr>
      | C_returned \<Rightarrow> p)"

definition fetcher_step :: "nat \<Rightarrow> prefetch_state \<Rightarrow> (fault + prefetch_state) option" where
  "fetcher_step offset p =
     (case sl_fetcher p of
        F_lock \<Rightarrow> Some (Inr (if sl_writer p \<or> sl_readers p \<noteq> 0 then p else p\<lparr>sl_writer := True, sl_fetcher := F_fetch\<rparr>))
      | F_fetch \<Rightarrow> obnd (fetch_data (ALIGN_ON_SLOT offset) (sl_line p) (sl_aof p)) (\<lambda>(rc, l, a).
                     Some (Inr (p\<lparr>sl_line := l, sl_aof := a, sl_fetcher := F_unlock\<rparr>)))
      | F_unlock \<Rightarrow> Some (Inr (p\<lparr>sl_writer := False, sl_fetcher := F_ended\<rparr>))
      | _ \<Rightarrow> Some (Inr p))"

text \<open>The two threads in turn, until the caller returns.\<close>

partial_function (option) prefetch_run :: "nat \<Rightarrow> prefetch_state \<Rightarrow> (fault + prefetch_state) option" where
  "prefetch_run offset p =
     (if sl_caller p = C_returned then Some (Inr p)
      else case fetcher_step offset (caller_step offset p) of
             None \<Rightarrow> None
           | Some (Inl f) \<Rightarrow> Some (Inl f)
           | Some (Inr p1) \<Rightarrow> prefetch_run offset p1)"

definition bg_fetch_data :: "nat \<Rightarrow> cache_line \<Rightarrow> aof \<Rightarrow> (fault + int \<times> cache_line \<times> aof) option" where
  "bg_fetch_data offset l a =
     obnd (prefetch_run offset (prefetch_start l a)) (\<lambda>p. Some (Inr (0, sl_line p, sl_aof p)))"

text \<open>The same with the steps of the two threads in any order.\<close>

inductive prefetch_step :: "nat \<Rightarrow> prefetch_state \<Rightarrow> prefetch_state \<Rightarrow> bool" for offset where
  caller: "prefetch_step offset p (caller_step offset p)"
| fetcher: "fetcher_step offset p = Some (Inr p') \<Longrightarrow> prefetch_step offset p p'"

text \<open>The loop of \<open>AofWindowCache::pread\<close>; a position before the start of the buffer is a wrong address.\<close>

partial_function (option) window_loop ::
  "(nat \<Rightarrow> u8) \<Rightarrow> int \<Rightarrow> int \<Rightarrow> int \<Rightarrow> window_cache \<Rightarrow> (fault + int \<times> (nat \<Rightarrow> u8) \<times> window_cache) option" where
  "window_loop dst readed remain offset c =
     (if remain > 0
      then if readed < 0 \<or> offset < 0 then Some (Inl Out_of_bounds)
           else let s = OFF2SLOT (nat offset)
                in (case line_pread dst (nat readed) (nat remain) (nat offset) (slots c ! s) (wc_aof c) of
                      None \<Rightarrow> None
                    | Some (Inl f) \<Rightarrow> Some (Inl f)
                    | Some (Inr (sz, dst', l', a')) \<Rightarrow>
                        window_loop dst' (readed + sz) (remain - sz) (offset + sz) (c\<lparr>slots := (slots c)[s := l'], wc_aof := a'\<rparr>))
      else Some (Inr (offset, dst, c)))"

definition window_pread :: "(nat \<Rightarrow> u8) \<Rightarrow> nat \<Rightarrow> nat \<Rightarrow> window_cache \<Rightarrow> (fault + nat \<times> (nat \<Rightarrow> u8) \<times> window_cache) option" where
  "window_pread dst len0 offset c =
     (if offset \<ge> file_len (wc_aof c) then Some (Inr (0, dst, c))
      else let len = (if offset + len0 > file_len (wc_aof c) then file_len (wc_aof c) - offset else len0)
           in obnd (window_loop dst 0 (int len) (int offset) c) (\<lambda>(off, dst', c').
                if prefetch c' \<and> nat off + SLOT_SIZE div 2 \<ge> ALIGN_ON_SLOT (nat off + SLOT_SIZE)
                then let j = OFF2SLOT (nat off + SLOT_SIZE)
                     in obnd (bg_fetch_data (ALIGN_ON_SLOT (nat off + SLOT_SIZE)) (slots c' ! j) (wc_aof c')) (\<lambda>(rc, l, a).
                          Some (Inr (len, dst', c'\<lparr>slots := (slots c')[j := l], wc_aof := a\<rparr>)))
                else Some (Inr (len, dst', c'))))"

section \<open>What the cache needs of a file\<close>

text \<open>
  The interface of a readable file: \<open>bytes\<close> is its content, and \<open>rd\<close> copies what it has of
  the range asked for and nothing else.
\<close>

locale byte_file =
  fixes bytes :: "'f \<Rightarrow> u8 list" and ok :: "'f \<Rightarrow> bool"
    and rd :: "(nat \<Rightarrow> u8) \<Rightarrow> nat \<Rightarrow> nat \<Rightarrow> 'f \<Rightarrow> (fault + int \<times> (nat \<Rightarrow> u8) \<times> 'f) option"
  assumes rd_ok: "ok f \<Longrightarrow> \<exists>buf' f'. rd buf n off f = Some (Inr (int (min n (length (bytes f) - off)), buf', f')) \<and>
    ok f' \<and> bytes f' = bytes f \<and>
    (\<forall>i. buf' i = (if i < min n (length (bytes f) - off) then bytes f ! (off + i) else buf i))"
begin

text \<open>A buffer holds the part of the file that starts at \<open>off\<close>.\<close>

definition holds :: "nat \<Rightarrow> nat \<Rightarrow> (nat \<Rightarrow> u8) \<Rightarrow> 'f \<Rightarrow> bool" where
  "holds off n buf f \<longleftrightarrow> (\<forall>i < n. off + i < length (bytes f) \<longrightarrow> buf i = bytes f ! (off + i))"

lemma rd_holds:
  assumes "ok f"
  obtains r buf' f' where "rd buf n off f = Some (Inr (r, buf', f'))" and "0 \<le> r" and "holds off n buf' f'" and "ok f'" and "bytes f' = bytes f"
proof -
  obtain buf' f' where R: "rd buf n off f = Some (Inr (int (min n (length (bytes f) - off)), buf', f'))" "ok f'" "bytes f' = bytes f"
    "\<forall>i. buf' i = (if i < min n (length (bytes f) - off) then bytes f ! (off + i) else buf i)"
    using rd_ok [OF assms] by blast
  have "holds off n buf' f'" using R(3,4) by (auto simp: holds_def)
  then show ?thesis using that [OF R(1) _ _ R(2,3)] by simp
qed

lemma copy_held:
  assumes "holds off n buf f" and "skip + m \<le> n" and "off + skip + m \<le> length (bytes f)"
  shows "i < m \<Longrightarrow> buf (skip + i) = bytes f ! (off + skip + i)"
  using assms by (simp add: holds_def add.assoc)

end

definition aof_ready :: "aof \<Rightarrow> bool" where
  "aof_ready a \<longleftrightarrow> aof_inv a \<and> aof_calm a"

interpretation aofile: byte_file aof_file aof_ready aof_read
proof
  fix a :: aof and buf n off
  assume a: "aof_ready a"
  obtain c where c: "aof_read buf n off a =
      Some (Inr (int (min n (file_len a - off)), memcpy buf 0 (aof_byte a) off (min n (file_len a - off)), a\<lparr>a_cnt := c\<rparr>))"
    using aof_read_ok a unfolding aof_ready_def by blast
  have "aof_file (a\<lparr>a_cnt := c\<rparr>) = aof_file a" by (rule aof_file_cong) (simp_all add: aof_byte_def Let_def)
  moreover have "aof_ready (a\<lparr>a_cnt := c\<rparr>)" using a by (simp add: aof_ready_def aof_inv_def)
  ultimately show "\<exists>buf' f'. aof_read buf n off a = Some (Inr (int (min n (length (aof_file a) - off)), buf', f')) \<and>
      aof_ready f' \<and> aof_file f' = aof_file a \<and>
      (\<forall>i. buf' i = (if i < min n (length (aof_file a) - off) then aof_file a ! (off + i) else buf i))"
    using c by (intro exI [of _ "memcpy buf 0 (aof_byte a) off (min n (file_len a - off))"] exI [of _ "a\<lparr>a_cnt := c\<rparr>"]) (auto simp: memcpy_def)
qed

section \<open>Reading through the cache\<close>

definition line_ok :: "cache_line \<Rightarrow> aof \<Rightarrow> bool" where
  "line_ok l a \<longleftrightarrow> (\<forall>o1. off_in_file l = Some o1 \<longrightarrow> aofile.holds o1 SLOT_SIZE (cl_buf l) a)"

definition cache_ok :: "window_cache \<Rightarrow> bool" where
  "cache_ok c \<longleftrightarrow> length (slots c) = SLOT_CNT \<and> aof_ready (wc_aof c) \<and> (\<forall>l \<in> set (slots c). line_ok l (wc_aof c))"

lemma line_ok_cong: "aof_file a' = aof_file a \<Longrightarrow> line_ok l a' = line_ok l a"
  by (simp add: line_ok_def aofile.holds_def)

lemma slot_parts: "ALIGN_ON_SLOT x \<le> x" "x - ALIGN_ON_SLOT x < SLOT_SIZE" "OFF2SLOT x < SLOT_CNT"
proof -
  have "ALIGN_ON_SLOT x + x mod SLOT_SIZE = x" by (simp add: ALIGN_ON_SLOT_def)
  moreover have "x mod SLOT_SIZE < SLOT_SIZE" by (simp add: SLOT_SIZE_def)
  ultimately show "ALIGN_ON_SLOT x \<le> x" "x - ALIGN_ON_SLOT x < SLOT_SIZE" by linarith+
  show "OFF2SLOT x < SLOT_CNT" by (simp add: OFF2SLOT_def SLOT_CNT_def)
qed

lemma line_pread_ok:
  assumes l: "line_ok l a" and a: "aof_ready a" and len: "0 < len" "off + len \<le> file_len a"
  shows "\<exists>n l' a'. line_pread dst d len off l a = Some (Inr (int n, memcpy dst d (\<lambda>i. aof_file a ! i) off n, l', a')) \<and>
    0 < n \<and> n \<le> len \<and> aof_ready a' \<and> aof_file a' = aof_file a \<and> line_ok l' a'"
proof -
  let ?o = "ALIGN_ON_SLOT off"
  obtain l1 a1 where F: "(if off_in_file l \<noteq> Some ?o then fetch_data ?o l a else Some (Inr (0, l, a))) = Some (Inr (0, l1, a1))"
    "aof_ready a1" "aof_file a1 = aof_file a" "off_in_file l1 = Some ?o" "aofile.holds ?o SLOT_SIZE (cl_buf l1) a1"
  proof (cases "off_in_file l = Some ?o")
    case True
    then show ?thesis using that [of l a] l a by (simp add: line_ok_def)
  next
    case False
    obtain r b a' where R: "aof_read (cl_buf l) SLOT_SIZE ?o a = Some (Inr (r, b, a'))" "0 \<le> r" "aofile.holds ?o SLOT_SIZE b a'" "aof_ready a'" "aof_file a' = aof_file a"
      using aofile.rd_holds [OF a] .
    then show ?thesis using that [of "l\<lparr>off_in_file := Some ?o, cl_buf := b, hit_cnt := 0\<rparr>" a'] False by (simp add: fetch_data_def)
  qed
  define skip n where "skip = off - ?o" and "n = min len (SLOT_SIZE - skip)"
  have s: "skip + n \<le> SLOT_SIZE" "0 < n" "n \<le> len" "?o + skip = off" using slot_parts [of off] len(1) by (auto simp: skip_def n_def)
  have "cl_buf l1 (skip + i) = aof_file a ! (off + i)" if "i < n" for i
    using aofile.copy_held [OF F(5) s(1) _ that] s len(2) length_aof_file [of a1] F(3) by simp
  then have m: "memcpy dst d (cl_buf l1) skip n = memcpy dst d (\<lambda>i. aof_file a ! i) off n" by (rule memcpy_cong)
  have "line_pread dst d len off l a = Some (Inr (int n, memcpy dst d (cl_buf l1) skip n, l1\<lparr>hit_cnt := hit_cnt l1 + 1\<rparr>, a1))"
    unfolding line_pread_def F(1) by (simp add: Let_def skip_def n_def)
  moreover have "line_ok (l1\<lparr>hit_cnt := hit_cnt l1 + 1\<rparr>) a1" using F(4,5) by (simp add: line_ok_def)
  ultimately show ?thesis using m s F(2,3) by fastforce
qed

lemma window_loop_ok:
  assumes "cache_ok c" and "off + m \<le> file_len (wc_aof c)"
  shows "\<exists>c'. window_loop dst (int r) (int m) (int off) c = Some (Inr (int (off + m), memcpy dst r (\<lambda>i. aof_file (wc_aof c) ! i) off m, c')) \<and>
    cache_ok c' \<and> aof_file (wc_aof c') = aof_file (wc_aof c) \<and> prefetch c' = prefetch c"
  using assms
proof (induction m arbitrary: dst r off c rule: less_induct)
  case (less m)
  show ?case
  proof (cases "m = 0")
    case True
    then have "window_loop dst (int r) (int m) (int off) c = Some (Inr (int off, dst, c))" by (subst window_loop.simps) simp
    moreover have "memcpy dst r (\<lambda>i. aof_file (wc_aof c) ! i) off 0 = dst" by (auto simp: memcpy_def fun_eq_iff)
    ultimately show ?thesis using True less.prems by simp
  next
    case False
    define s where "s = OFF2SLOT off"
    define f where "f = (\<lambda>i. aof_file (wc_aof c) ! i)"
    have "slots c ! s \<in> set (slots c)" using less.prems(1) slot_parts(3) [of off] by (simp add: cache_ok_def s_def)
    then have L: "line_ok (slots c ! s) (wc_aof c)" "aof_ready (wc_aof c)" using less.prems(1) by (auto simp: cache_ok_def)
    obtain n l' a' where R: "line_pread dst r m off (slots c ! s) (wc_aof c) = Some (Inr (int n, memcpy dst r f off n, l', a'))"
      "0 < n" "n \<le> m" "aof_ready a'" "aof_file a' = aof_file (wc_aof c)" "line_ok l' a'"
      using line_pread_ok [OF L, of m off dst r] False less.prems(2) unfolding f_def by blast
    define c1 where "c1 = c\<lparr>slots := (slots c)[s := l'], wc_aof := a'\<rparr>"
    have step: "window_loop dst (int r) (int m) (int off) c = window_loop (memcpy dst r f off n) (int (r + n)) (int (m - n)) (int (off + n)) c1"
      using False R(1,3) by (subst window_loop.simps) (simp add: Let_def c1_def flip: s_def)
    have fl: "file_len a' = file_len (wc_aof c)" using R(5) by (metis length_aof_file)
    have "\<forall>l \<in> set ((slots c)[s := l']). line_ok l a'"
      using less.prems(1) R(6) line_ok_cong [OF R(5)] set_update_subset_insert [of "slots c" s l'] by (auto simp: cache_ok_def)
    then have c1: "cache_ok c1" "off + n + (m - n) \<le> file_len (wc_aof c1)"
      using less.prems R(3,4) fl by (simp_all add: cache_ok_def c1_def)
    have "\<exists>c'. window_loop (memcpy dst r f off n) (int (r + n)) (int (m - n)) (int (off + n)) c1 =
        Some (Inr (int (off + n + (m - n)), memcpy (memcpy dst r f off n) (r + n) (\<lambda>i. aof_file (wc_aof c1) ! i) (off + n) (m - n), c')) \<and>
      cache_ok c' \<and> aof_file (wc_aof c') = aof_file (wc_aof c1) \<and> prefetch c' = prefetch c1"
      by (rule less.IH) (use R(2,3) False c1 in simp_all)
    moreover have "memcpy (memcpy dst r f off n) (r + n) f (off + n) (m - n) = memcpy dst r f off m"
      using R(3) by (auto simp: memcpy_def fun_eq_iff)
    ultimately show ?thesis unfolding step using R(3,5) by (auto simp: c1_def f_def)
  qed
qed

text \<open>
  (C25) Reads through the cache return the bytes of the file. While the file is not appended to
  and the transfers succeed, \<open>pread\<close> without prefetch returns for every range exactly the
  bytes of the file that it covers, from cached and from newly read slots, touches nothing
  behind them, and leaves the cache in a state where the same holds again.
\<close>

theorem cache_pread_correct:
  assumes "cache_ok c" and "\<not> prefetch c"
  shows "\<exists>dst' c'. window_pread dst len off c = Some (Inr (min len (file_len (wc_aof c) - off), dst', c')) \<and>
    cache_ok c' \<and> aof_file (wc_aof c') = aof_file (wc_aof c) \<and>
    (\<forall>i. dst' i = (if i < min len (file_len (wc_aof c) - off) then aof_file (wc_aof c) ! (off + i) else dst i))"
proof (cases "off < file_len (wc_aof c)")
  case False
  then show ?thesis using assms by (simp add: window_pread_def)
next
  case True
  define n where "n = min len (file_len (wc_aof c) - off)"
  have n: "(if off + len > file_len (wc_aof c) then file_len (wc_aof c) - off else len) = n" "off + n \<le> file_len (wc_aof c)"
    using True by (auto simp: n_def)
  obtain c' where c': "window_loop dst 0 (int n) (int off) c = Some (Inr (int (off + n), memcpy dst 0 (\<lambda>i. aof_file (wc_aof c) ! i) off n, c'))"
    "cache_ok c'" "aof_file (wc_aof c') = aof_file (wc_aof c)" "prefetch c' = prefetch c"
    using window_loop_ok [OF assms(1) n(2), of dst 0] by auto
  have "window_pread dst len off c = Some (Inr (n, memcpy dst 0 (\<lambda>i. aof_file (wc_aof c) ! i) off n, c'))"
    using True c' assms(2) unfolding window_pread_def Let_def n(1) by simp
  then show ?thesis using c' unfolding n_def [symmetric]
    by (intro exI [of _ "memcpy dst 0 (\<lambda>i. aof_file (wc_aof c) ! i) off n"] exI [of _ c']) (auto simp: memcpy_def)
qed

definition sample_cache :: "aof \<Rightarrow> window_cache" where
  "sample_cache a = \<lparr>slots = replicate SLOT_CNT (line_init (a_heap a)), wc_aof = a, prefetch = False\<rparr>"

lemma sample_cache_ok: "aof_ready a \<Longrightarrow> cache_ok (sample_cache a)"
  by (simp add: cache_ok_def sample_cache_def line_ok_def line_init_def SLOT_CNT_def)

theorem cache_pread_correct_witness:
  "\<exists>dst' c'. window_pread (\<lambda>_. 7) 4 0 (sample_cache (sample_aof\<lparr>file_len := 2, append_tail := 2, append_buf := (\<lambda>_. 9)\<rparr>)) = Some (Inr (2, dst', c')) \<and>
     dst' 0 = 9 \<and> dst' 2 = 7"
proof -
  let ?a = "sample_aof\<lparr>file_len := 2, append_tail := 2, append_buf := (\<lambda>_. 9)\<rparr>"
  have a: "aof_ready ?a" by (simp add: aof_ready_def aof_inv_def aof_calm_def sample_aof_def)
  have f: "aof_file ?a = [9, 9]" by (simp add: aof_file_def aof_byte_def sample_aof_def upt_rec)
  have "\<not> prefetch (sample_cache ?a)" by (simp add: sample_cache_def)
  from cache_pread_correct [OF sample_cache_ok [OF a] this, of "\<lambda>_. 7" 4 0]
  show ?thesis by (auto simp: sample_cache_def f)
qed

section \<open>Errors\<close>

text \<open>A read inside one cached slot.\<close>

lemma window_loop_hit:
  assumes "off_in_file (slots c ! OFF2SLOT off) = Some (ALIGN_ON_SLOT off)" and "0 < n" and "off + n \<le> ALIGN_ON_SLOT off + SLOT_SIZE"
  shows "\<exists>c'. window_loop dst 0 (int n) (int off) c =
    Some (Inr (int (off + n), memcpy dst 0 (cl_buf (slots c ! OFF2SLOT off)) (off - ALIGN_ON_SLOT off) n, c')) \<and>
    prefetch c' = prefetch c \<and> (\<forall>i. off_in_file (slots c' ! i) = off_in_file (slots c ! i))"
proof -
  let ?l = "slots c ! OFF2SLOT off"
  let ?c' = "c\<lparr>slots := (slots c)[OFF2SLOT off := ?l\<lparr>hit_cnt := hit_cnt ?l + 1\<rparr>], wc_aof := wc_aof c\<rparr>"
  have n: "min n (SLOT_SIZE - (off - ALIGN_ON_SLOT off)) = n" using assms(3) slot_parts(1) [of off] by linarith
  have "line_pread dst 0 n off ?l (wc_aof c) =
    Some (Inr (int n, memcpy dst 0 (cl_buf ?l) (off - ALIGN_ON_SLOT off) n, ?l\<lparr>hit_cnt := hit_cnt ?l + 1\<rparr>, wc_aof c))"
    using assms(1) n by (simp add: line_pread_def Let_def)
  then have "window_loop dst 0 (int n) (int off) c = window_loop (memcpy dst 0 (cl_buf ?l) (off - ALIGN_ON_SLOT off) n) (int n) 0 (int off + int n) ?c'"
    using assms(2) by (subst window_loop.simps) (simp add: Let_def)
  moreover have "off_in_file (slots ?c' ! i) = off_in_file (slots c ! i)" for i
    by (cases "i = OFF2SLOT off"; cases "OFF2SLOT off < length (slots c)") (simp_all add: list_update_beyond)
  ultimately show ?thesis by (subst (asm) (2) window_loop.simps) (auto simp del: fun_upd_apply)
qed

text \<open>
  (C39) Appended bytes are not seen through the cache. Once a slot is cached, a read inside it
  returns what its buffer holds, whatever the file contains by now: bytes appended behind
  the former end of the file are read as the bytes that were in the buffer before.
\<close>

theorem cache_misses_append:
  assumes "off_in_file (slots c ! OFF2SLOT off) = Some (ALIGN_ON_SLOT off)" and "\<not> prefetch c"
    and "0 < n" and "off + n \<le> ALIGN_ON_SLOT off + SLOT_SIZE" and "off + n \<le> file_len a"
  shows "\<exists>c'. window_pread dst n off (c\<lparr>wc_aof := a\<rparr>) =
    Some (Inr (n, memcpy dst 0 (cl_buf (slots c ! OFF2SLOT off)) (off - ALIGN_ON_SLOT off) n, c'))"
  using window_loop_hit [of "c\<lparr>wc_aof := a\<rparr>" off n dst] assms by (auto simp: window_pread_def)

theorem cache_misses_append_witness:
  "\<exists>c'. window_pread (\<lambda>_. 7) 1 1 ((sample_cache sample_aof)
      \<lparr>slots := replicate SLOT_CNT \<lparr>off_in_file = Some 0, cl_buf = (\<lambda>_. 0), hit_cnt = 1\<rparr>,
       wc_aof := sample_aof\<lparr>file_len := 2, append_tail := 2, append_buf := (\<lambda>_. 9)\<rparr>\<rparr>) =
    Some (Inr (1, memcpy (\<lambda>_. 7) 0 (\<lambda>_. 0) 1 1, c'))"
  using cache_misses_append [of "(sample_cache sample_aof)\<lparr>slots := replicate SLOT_CNT \<lparr>off_in_file = Some 0, cl_buf = (\<lambda>_. 0), hit_cnt = 1\<rparr>\<rparr>" 1 1
      "sample_aof\<lparr>file_len := 2, append_tail := 2, append_buf := (\<lambda>_. 9)\<rparr>" "\<lambda>_. 7"]
  by (simp add: sample_cache_def OFF2SLOT_def ALIGN_ON_SLOT_def SLOT_SIZE_def SLOT_CNT_def)

text \<open>The prefetch of a slot that is not cached stops with the caller waiting for the thread it started.\<close>

definition prefetch_inv :: "nat \<Rightarrow> prefetch_state \<Rightarrow> bool" where
  "prefetch_inv offset p \<longleftrightarrow> off_in_file (sl_line p) \<noteq> Some (ALIGN_ON_SLOT offset) \<and> \<not> sl_writer p \<and>
     (sl_caller p = C_lock_shared \<and> sl_readers p = 0 \<and> sl_fetcher p = F_none \<or>
      sl_caller p = C_test \<and> sl_readers p = 1 \<and> sl_fetcher p = F_none \<or>
      sl_caller p = C_wait \<and> sl_readers p = 1 \<and> sl_fetcher p = F_lock)"

lemma prefetch_inv_caller: "prefetch_inv offset p \<Longrightarrow> prefetch_inv offset (caller_step offset p)"
  by (auto simp: prefetch_inv_def caller_step_def)

lemma prefetch_inv_fetcher: "prefetch_inv offset p \<Longrightarrow> fetcher_step offset p = Some (Inr p)"
  by (auto simp: prefetch_inv_def fetcher_step_def)

lemma prefetch_inv_start: "off_in_file l \<noteq> Some (ALIGN_ON_SLOT offset) \<Longrightarrow> prefetch_inv offset (prefetch_start l a)"
  by (simp add: prefetch_inv_def prefetch_start_def)

lemma prefetch_step_inv: "prefetch_step offset p p' \<Longrightarrow> prefetch_inv offset p \<Longrightarrow> prefetch_inv offset p'"
  by (induction rule: prefetch_step.induct) (auto simp: prefetch_inv_caller prefetch_inv_fetcher)

lemma prefetch_run_blocked: "prefetch_run offset p = Some r \<Longrightarrow> \<not> prefetch_inv offset p"
proof (erule prefetch_run.raw_induct [rotated], goal_cases)
  case (1 run offset p r)
  show ?case
  proof
    assume inv: "prefetch_inv offset p"
    then have "sl_caller p \<noteq> C_returned" by (auto simp: prefetch_inv_def)
    then have "run offset (caller_step offset p) = Some r"
      using 1(2) prefetch_inv_fetcher [OF prefetch_inv_caller [OF inv]] by simp
    from 1(1) [OF this] show False using prefetch_inv_caller [OF inv] by simp
  qed
qed

lemma bg_fetch_data_blocked: "off_in_file l \<noteq> Some (ALIGN_ON_SLOT offset) \<Longrightarrow> bg_fetch_data offset l a = None"
  using prefetch_run_blocked [of offset "prefetch_start l a"] prefetch_inv_start [of l offset a]
  by (cases "prefetch_run offset (prefetch_start l a)") (auto simp: bg_fetch_data_def)

lemma align_align: "ALIGN_ON_SLOT (ALIGN_ON_SLOT x) = ALIGN_ON_SLOT x"
  by (simp add: ALIGN_ON_SLOT_def SLOT_SIZE_def)

text \<open>
  (C40) The prefetch blocks. With the prefetch on, a read that ends in the second half of a
  slot while the following slot is not cached never returns. In whatever order the
  reading thread and the thread of the prefetch run, the reading thread never gets past
  \<open>bg_fetch_data\<close>: as soon as it waits, it holds the lock shared, the other thread
  waits for the lock exclusively, and no step of either changes anything any more.
\<close>

theorem cache_prefetch_blocks:
  assumes "prefetch c" and "off_in_file (slots c ! OFF2SLOT off) = Some (ALIGN_ON_SLOT off)"
    and "0 < n" and "off + n \<le> ALIGN_ON_SLOT off + SLOT_SIZE" and "off + n \<le> file_len (wc_aof c)"
    and "ALIGN_ON_SLOT (off + n + SLOT_SIZE) \<le> off + n + SLOT_SIZE div 2"
    and next_slot: "off_in_file (slots c ! OFF2SLOT (off + n + SLOT_SIZE)) \<noteq> Some (ALIGN_ON_SLOT (off + n + SLOT_SIZE))"
  shows "window_pread dst n off c = None \<and>
    (\<forall>p. (prefetch_step (off + n + SLOT_SIZE))\<^sup>*\<^sup>* (prefetch_start (slots c ! OFF2SLOT (off + n + SLOT_SIZE)) (wc_aof c)) p \<longrightarrow>
       sl_caller p \<noteq> C_returned \<and>
       (sl_caller p = C_wait \<longrightarrow> (\<forall>p'. prefetch_step (off + n + SLOT_SIZE) p p' \<longrightarrow> p' = p)))"
proof
  have e: "nat (int off + int n) = off + n" by simp
  show "window_pread dst n off c = None" using window_loop_hit [OF assms(2,3,4), of dst] assms
    by (auto simp: window_pread_def e Let_def align_align bg_fetch_data_blocked)
  let ?o = "off + n + SLOT_SIZE"
  show "\<forall>p. (prefetch_step ?o)\<^sup>*\<^sup>* (prefetch_start (slots c ! OFF2SLOT ?o) (wc_aof c)) p \<longrightarrow>
       sl_caller p \<noteq> C_returned \<and> (sl_caller p = C_wait \<longrightarrow> (\<forall>p'. prefetch_step ?o p p' \<longrightarrow> p' = p))"
  proof (intro allI impI)
    fix p
    assume "(prefetch_step ?o)\<^sup>*\<^sup>* (prefetch_start (slots c ! OFF2SLOT ?o) (wc_aof c)) p"
    then have inv: "prefetch_inv ?o p"
      by (induction rule: rtranclp_induct) (use prefetch_inv_start [OF next_slot] prefetch_step_inv in blast)+
    then show "sl_caller p \<noteq> C_returned \<and> (sl_caller p = C_wait \<longrightarrow> (\<forall>p'. prefetch_step ?o p p' \<longrightarrow> p' = p))"
      using prefetch_inv_fetcher [OF inv] by (auto simp: prefetch_inv_def caller_step_def elim: prefetch_step.cases)
  qed
qed

theorem cache_prefetch_blocks_witness:
  "window_pread (\<lambda>_. 7) 40000 0 ((sample_cache sample_aof)
      \<lparr>slots := \<lparr>off_in_file = Some 0, cl_buf = (\<lambda>_. 0), hit_cnt = 1\<rparr> # replicate 7 (line_init (\<lambda>_. 0)), prefetch := True,
       wc_aof := sample_aof\<lparr>file_len := 40960\<rparr>\<rparr>) = None"
  by (rule conjunct1, rule cache_prefetch_blocks)
    (simp_all add: sample_cache_def OFF2SLOT_def ALIGN_ON_SLOT_def SLOT_SIZE_def SLOT_CNT_def line_init_def sample_aof_def)

text \<open>A slot that is cached already is not fetched, and the call returns.\<close>

lemma bg_fetch_data_cached:
  assumes "off_in_file l = Some (ALIGN_ON_SLOT offset)"
  shows "bg_fetch_data offset l a = Some (Inr (0, l, a))"
  using assms by (simp add: bg_fetch_data_def prefetch_start_def prefetch_run.simps caller_step_def fetcher_step_def)

end
