(* ===== verification/Client.thy ===== *)
theory Client
  imports Connection Mem_Pool Message Volume_Type "HOL-Library.Multiset"
begin

text \<open>
  The I/O path of the client library, \<open>common/src/pf_client_api.cpp\<close>: requests of a user are
  submitted into slots (\<open>PfClientIocb\<close>), sent to a store by the thread of the volume, and
  completed by the reply of the store; requests that time out are sent again, and requests
  without a connection wait until the volume is opened again. The record \<open>client\<close> is one
  \<open>PfClientAppCtx\<close> with its one volume. A user's request is identified by its \<open>ulp_arg\<close>.
  The outcomes of posting buffers to a connection, of posting events, and of the conductor's
  answer when the volume is opened come from outside.
\<close>

section \<open>State\<close>

record client_shard =
  sh_ips :: "string list"
  sh_current :: nat
  sh_local :: bool

datatype vol_state = VOLUME_CLOSED | VOLUME_OPENED | VOLUME_WAIT_REOPEN | VOLUME_REOPEN_FAIL | VOLUME_DISCONNECTED

text \<open>Buffers: the command and the data buffer of a slot, and the reply buffers.\<close>

datatype client_bd = Cb_cmd nat | Cb_data nat | Cb_reply nat

datatype client_event =
    Cl_io_req nat
  | Cl_io_complete int client_bd
  | Cl_io_timeout nat
  | Cl_reopen_volume nat
  | Cl_volume_reconnect
  | Cl_send_heartbeat
  | Cl_other int

text \<open>
  \<open>ci_iov\<close> are the lengths of the user's buffers, empty for a plain buffer; \<open>ci_data\<close> is
  the content of the data buffer of the slot.
\<close>

record client_iocb =
  ci_cmd :: PfMessageHead
  ci_arg :: nat
  ci_iov :: "nat list"
  ci_data :: "u8 list"
  ci_sent_time :: nat
  ci_submit_time :: nat
  ci_is_timeout :: bool
  ci_conn :: "nat option"
  ci_reply :: "client_bd option"

datatype client_action =
    Cl_callback nat int
  | Cl_user_data nat "u8 list list"
  | Cl_send nat nat
  | Cl_send_data nat nat
  | Cl_recv_data nat nat
  | Cl_reopen_timer int

record client = conn_state +
  k_iocb :: "nat \<Rightarrow> client_iocb"
  k_pool :: mem_pool
  k_cmd_pool :: "client_bd fixed_queue"
  k_data_pool :: "client_bd fixed_queue"
  k_reply_pool :: "client_bd fixed_queue"
  k_reply :: "client_bd \<Rightarrow> PfMessageReply"
  k_bd_iocb :: "client_bd \<Rightarrow> nat option"
  k_state :: vol_state
  k_meta_ver :: int
  k_volume_id :: u64
  k_snap_seq :: u32
  k_shards :: "client_shard list"
  k_open_time :: nat
  k_waiting :: "nat list"
  k_io_timeout :: nat
  k_queue :: "client_event list"
  k_ext :: "nat \<Rightarrow> int"
  k_cnt :: nat
  k_full :: "nat \<Rightarrow> int"
  k_full_cnt :: nat
  k_query :: "nat \<Rightarrow> int \<times> int \<times> client_shard list"
  k_query_cnt :: nat
  k_next_hb :: nat
  k_acts :: "client_action list"

abbreviation kact :: "client_action \<Rightarrow> client \<Rightarrow> client" where
  "kact x k \<equiv> k\<lparr>k_acts := k_acts k @ [x]\<rparr>"

abbreviation upd_iocb :: "nat \<Rightarrow> (client_iocb \<Rightarrow> client_iocb) \<Rightarrow> client \<Rightarrow> client" where
  "upd_iocb i f k \<equiv> k\<lparr>k_iocb := (k_iocb k)(i := f (k_iocb k i))\<rparr>"

definition client_call :: "client \<Rightarrow> int \<times> client" where
  "client_call k = (k_ext k (k_cnt k), k\<lparr>k_cnt := k_cnt k + 1\<rparr>)"

definition client_post :: "client_event \<Rightarrow> client \<Rightarrow> int \<times> client" where
  "client_post ev k =
     (let rc = k_full k (k_full_cnt k); k1 = k\<lparr>k_full_cnt := k_full_cnt k + 1\<rparr>
      in (rc, if rc = 0 then k1\<lparr>k_queue := k_queue k1 @ [ev]\<rparr> else k1))"

text \<open>\<open>client_on_tcp_close\<close> and \<open>client_on_rdma_close\<close> do nothing.\<close>

definition client_on_close :: "nat \<Rightarrow> client \<Rightarrow> client" where
  "client_on_close c k = k"

definition reply_free :: "client_bd \<Rightarrow> client \<Rightarrow> client" where
  "reply_free bd k = k\<lparr>k_bd_iocb := (k_bd_iocb k)(bd := None), k_reply_pool := snd (enqueue (k_reply_pool k) bd)\<rparr>"

definition free_iocb :: "nat \<Rightarrow> client \<Rightarrow> fault + client" where
  "free_iocb i k = bnd (pool_free (k_pool k) i) (\<lambda>p. Inr (k\<lparr>k_pool := p\<rparr>))"

section \<open>User buffers\<close>

text \<open>
  \<open>iov_to_buf\<close> and \<open>iov_from_buf\<close>: the loop over the user's buffers. The variable \<open>offset\<close> of
  the source is 0 throughout. \<open>done\<close> bytes have been copied; a buffer is the list of its bytes.
\<close>

fun iov_to_buf_loop :: "u8 list list \<Rightarrow> u8 list \<Rightarrow> nat \<Rightarrow> nat \<Rightarrow> u8 list \<times> nat" where
  "iov_to_buf_loop [] buf copied n = (buf, copied)"
| "iov_to_buf_loop (v # vs) buf copied n =
     (if copied < n
      then if 0 < length v
           then let len = min (length v) (n - copied)
                in iov_to_buf_loop vs (take copied buf @ take len v @ drop (copied + len) buf) (copied + len) n
           else iov_to_buf_loop vs buf copied n
      else (buf, copied))"

definition iov_to_buf :: "u8 list list \<Rightarrow> u8 list \<Rightarrow> nat \<Rightarrow> u8 list \<times> nat" where
  "iov_to_buf iov buf n = iov_to_buf_loop iov buf 0 n"

text \<open>The new contents of the user's buffers, given by their old contents.\<close>

fun iov_from_buf_loop :: "u8 list list \<Rightarrow> u8 list \<Rightarrow> nat \<Rightarrow> nat \<Rightarrow> u8 list list \<times> nat" where
  "iov_from_buf_loop [] buf copied n = ([], copied)"
| "iov_from_buf_loop (v # vs) buf copied n =
     (if copied < n
      then if 0 < length v
           then let len = min (length v) (n - copied)
                in case iov_from_buf_loop vs buf (copied + len) n of
                     (ws, c) \<Rightarrow> ((take len (drop copied buf) @ drop len v) # ws, c)
           else case iov_from_buf_loop vs buf copied n of (ws, c) \<Rightarrow> (v # ws, c)
      else (v # vs, copied))"

definition iov_from_buf :: "u8 list list \<Rightarrow> u8 list \<Rightarrow> nat \<Rightarrow> u8 list list \<times> nat" where
  "iov_from_buf iov buf n = iov_from_buf_loop iov buf 0 n"

section \<open>Submitting\<close>

definition CLIENT_MAX_IO_SIZE :: nat where "CLIENT_MAX_IO_SIZE = 131072"

text \<open>
  What \<open>pf_io_submit\<close> and \<open>pf_iov_submit\<close> do once they have a slot: \<open>iov\<close> are the lengths of
  the buffers and \<open>bytes\<close> the content of the data buffer, whose address is the number of the slot.
\<close>

definition fill_slot :: "nat \<Rightarrow> nat list \<Rightarrow> u8 list \<Rightarrow> nat \<Rightarrow> u64 \<Rightarrow> nat \<Rightarrow> bool \<Rightarrow> nat \<Rightarrow> client \<Rightarrow> client" where
  "fill_slot i iov bytes n offset arg is_write now k =
     upd_iocb i (\<lambda>x. x\<lparr>ci_arg := arg, ci_submit_time := now, ci_iov := iov, ci_data := bytes,
       ci_cmd := (ci_cmd x)\<lparr>m_opcode := (if is_write then S5_OP_WRITE else S5_OP_READ), m_vol_id := k_volume_id k,
         m_buf_addr := of_nat i, m_rkey := 0, m_offset := offset, m_length := of_nat n, m_snap_seq := k_snap_seq k\<rparr>\<rparr>) k"

definition pf_io_submit :: "u8 list \<Rightarrow> nat \<Rightarrow> u64 \<Rightarrow> nat \<Rightarrow> bool \<Rightarrow> nat \<Rightarrow> client \<Rightarrow> fault + int \<times> client" where
  "pf_io_submit buf n offset arg is_write now k =
     (if offset AND 511 \<noteq> 0 \<or> n mod 512 \<noteq> 0 then Inr (- EINVAL, k)
      else case pool_alloc (k_pool k) of
          (None, p) \<Rightarrow> Inr (- EAGAIN, k)
        | (Some i, p) \<Rightarrow>
            if CLIENT_MAX_IO_SIZE < n \<or> length buf < n then Inl Out_of_bounds
            else Inr (client_post (Cl_io_req i) (fill_slot i [] (take n buf) n offset arg is_write now (k\<lparr>k_pool := p\<rparr>))))"

definition pf_iov_submit :: "u8 list list \<Rightarrow> nat \<Rightarrow> u64 \<Rightarrow> nat \<Rightarrow> bool \<Rightarrow> nat \<Rightarrow> client \<Rightarrow> fault + int \<times> client" where
  "pf_iov_submit iov n offset arg is_write now k =
     (if offset AND 511 \<noteq> 0 \<or> n mod 512 \<noteq> 0 then Inr (- EINVAL, k)
      else if CLIENT_MAX_IO_SIZE < n then Inr (- EINVAL, k)
      else case pool_alloc (k_pool k) of
          (None, p) \<Rightarrow> Inr (- EAGAIN, k)
        | (Some i, p) \<Rightarrow>
            let old = ci_data (k_iocb k i);
                bytes = (if is_write then take n (fst (iov_to_buf iov old n)) else old)
            in Inr (client_post (Cl_io_req i) (fill_slot i (map length iov) bytes n offset arg is_write now (k\<lparr>k_pool := p\<rparr>))))"

section \<open>Connections of a shard\<close>

primrec try_stores :: "nat \<Rightarrow> nat \<Rightarrow> client \<Rightarrow> nat option \<times> client" where
  "try_stores 0 idx k = (None, k)"
| "try_stores (Suc n) idx k =
     (let sh = k_shards k ! idx
      in case pool_get_conn client_on_close (sh_ips sh ! sh_current sh) k of
           (Some c, k1) \<Rightarrow> (Some c, k1)
         | (None, k1) \<Rightarrow>
             try_stores n idx (k1\<lparr>k_shards := (k_shards k1)[idx := sh\<lparr>sh_current := (sh_current sh + 1) mod length (sh_ips sh)\<rparr>]\<rparr>))"

definition get_shard_conn :: "nat \<Rightarrow> client \<Rightarrow> nat option \<times> client" where
  "get_shard_conn idx k =
     (if k_state k \<noteq> VOLUME_OPENED then (None, k)
      else try_stores (length (sh_ips (k_shards k ! idx))) idx k)"

section \<open>The thread of the volume\<close>

text \<open>
  \<open>EVT_IO_REQ\<close>. For a shard on this host the source initialises a store through a pointer
  that is still NULL. When no connection is found the volume is opened again later; the
  list of waiting requests grows and is taken at its front.
\<close>

definition client_io_req :: "nat \<Rightarrow> nat \<Rightarrow> client \<Rightarrow> fault + client" where
  "client_io_req i now k =
     (let io = k_iocb k i; idx = unat (drop_bit SHARD_SIZE_ORDER (m_offset (ci_cmd io)))
      in if idx \<ge> length (k_shards k) then Inl Out_of_bounds
         else if sh_local (k_shards k ! idx) then Inl Null_deref
         else case get_shard_conn idx k of
             (None, k1) \<Rightarrow>
               bnd (if now > ci_submit_time io + k_io_timeout k1 * 1000000
                    then free_iocb i (kact (Cl_callback (ci_arg io) (- EIO)) k1)
                    else Inr (k1\<lparr>k_waiting := i # k_waiting k1\<rparr>))
                 (\<lambda>k2. Inr (if k_state k2 = VOLUME_OPENED
                    then kact (Cl_reopen_timer (k_meta_ver k2)) (k2\<lparr>k_state := VOLUME_WAIT_REOPEN\<rparr>) else k2))
           | (Some c, k1) \<Rightarrow>
               let k2 = upd_iocb i (\<lambda>x. x\<lparr>ci_cmd := (ci_cmd x)\<lparr>m_meta_ver := of_int (k_meta_ver k1)\<rparr>\<rparr>) k1
               in bnd (dequeue (k_reply_pool k2)) (\<lambda>(bd, q).
                    let k3 = conn_add_ref c (upd_iocb i (\<lambda>x. x\<lparr>ci_is_timeout := False, ci_conn := Some c, ci_sent_time := now\<rparr>)
                               (k2\<lparr>k_reply_pool := q\<rparr>))
                    in case client_call k3 of (rc, k4) \<Rightarrow>
                      if rc \<noteq> 0 then free_iocb i (kact (Cl_callback (ci_arg io) (- EAGAIN)) (reply_free bd k4))
                      else case client_call k4 of (rc2, k5) \<Rightarrow>
                        if rc2 \<noteq> 0 then free_iocb i (kact (Cl_callback (ci_arg io) (- EAGAIN)) k5)
                        else Inr (kact (Cl_send c i) k5)))"

text \<open>The end of a request in \<open>client_do_complete\<close>: the connection and the slot are given back.\<close>

definition release_conn :: "nat \<Rightarrow> client \<Rightarrow> fault + client" where
  "release_conn i k =
     (case ci_conn (k_iocb k i) of
        None \<Rightarrow> Inl Null_deref
      | Some c \<Rightarrow> Inr (upd_iocb i (\<lambda>x. x\<lparr>ci_conn := None\<rparr>) (pf_conn_dec_ref client_on_close c k)))"

definition split_bytes :: "nat list \<Rightarrow> u8 list \<Rightarrow> u8 list list" where
  "split_bytes lens bytes = fst (iov_from_buf (map (\<lambda>n. replicate n 0) lens) bytes (length bytes))"

definition client_do_complete :: "int \<Rightarrow> client_bd \<Rightarrow> nat \<Rightarrow> client \<Rightarrow> fault + client" where
  "client_do_complete wc_status bd now k =
     (if wc_status \<noteq> 0 then Inr k
      else case k_bd_iocb k bd of
          None \<Rightarrow> Inl Null_deref
        | Some i \<Rightarrow>
            let io = k_iocb k i
            in case ci_reply io of
                 None \<Rightarrow> Inl Null_deref
               | Some rb \<Rightarrow>
                   let reply = k_reply k rb; s = r_status reply
                   in if s AND MSG_STATUS_REOPEN \<noteq> 0
                      then let k1 = (if k_meta_ver k < int (unat (r_meta_ver reply)) then snd (client_post (Cl_reopen_volume now) k) else k)
                           in bnd (release_conn i k1) (\<lambda>k2. Inr (reply_free bd (snd (client_post (Cl_io_req i) k2))))
                      else if m_opcode (ci_cmd io) = S5_OP_HEARTBEAT
                      then bnd (release_conn i (upd_iocb i (\<lambda>x. x\<lparr>ci_sent_time := 0\<rparr>)
                             (case ci_conn io of None \<Rightarrow> k | Some c \<Rightarrow> upd_conn c (\<lambda>x. x\<lparr>rc_heartbeat := rc_heartbeat x - 1\<rparr>) k))) (\<lambda>k1.
                             bnd (free_iocb i k1) (\<lambda>k2. Inr (reply_free bd k2)))
                      else bnd (release_conn i (upd_iocb i (\<lambda>x. x\<lparr>ci_reply := None, ci_sent_time := 0\<rparr>) (reply_free rb k))) (\<lambda>k1.
                             let k2 = (if m_opcode (ci_cmd io) = S5_OP_READ
                                   then kact (Cl_user_data (ci_arg io)
                                     (if ci_iov io = [] then [ci_data io] else split_bytes (ci_iov io) (ci_data io))) k1
                                   else k1)
                             in bnd (free_iocb i k2) (\<lambda>k3. Inr (kact (Cl_callback (ci_arg io) (int (unat s))) k3))))"

definition resend_io :: "nat \<Rightarrow> client \<Rightarrow> int \<times> client" where
  "resend_io i k =
     client_post (Cl_io_req i) (upd_iocb i (\<lambda>x. x\<lparr>ci_cmd := (ci_cmd x)\<lparr>m_command_seq := m_command_seq (ci_cmd x) + 1\<rparr>\<rparr>) k)"

definition client_io_timeout :: "nat \<Rightarrow> nat \<Rightarrow> client \<Rightarrow> fault + client" where
  "client_io_timeout i now k =
     (let io = k_iocb k i
      in if k_state k \<noteq> VOLUME_OPENED then Inr k
         else if ci_sent_time io \<noteq> 0 \<and> now > ci_sent_time io + k_io_timeout k * 1000000
         then if m_opcode (ci_cmd io) = S5_OP_HEARTBEAT then free_iocb i k
              else case ci_conn io of
                  None \<Rightarrow> Inl Null_deref
                | Some c \<Rightarrow>
                    let k1 = upd_iocb i (\<lambda>x. x\<lparr>ci_sent_time := 0, ci_conn := None\<rparr>)
                               (pf_conn_dec_ref client_on_close c (conn_close client_on_close c k))
                    in case resend_io i k1 of (rc, k2) \<Rightarrow> if rc \<noteq> 0 then free_iocb i k2 else Inr k2
         else Inr k)"

text \<open>\<open>do_open\<close> of an opened volume: the conductor's answer replaces the version and the shards.\<close>

definition do_reopen :: "nat \<Rightarrow> client \<Rightarrow> int \<times> client" where
  "do_reopen now k =
     (case k_query k (k_query_cnt k) of (rc, ver, shs) \<Rightarrow>
        let k1 = k\<lparr>k_query_cnt := k_query_cnt k + 1\<rparr>
        in if rc \<noteq> 0 then (rc, k1)
           else (0, k1\<lparr>k_meta_ver := ver, k_shards := shs, k_state := VOLUME_OPENED, k_open_time := now\<rparr>))"

definition reopen_volume :: "nat \<Rightarrow> client \<Rightarrow> client" where
  "reopen_volume now k =
     (case do_reopen now k of (rc, k1) \<Rightarrow>
        if rc \<noteq> 0 then k1\<lparr>k_state := VOLUME_REOPEN_FAIL\<rparr>
        else fold (\<lambda>i x. snd (resend_io i x)) (k_waiting k1) (k1\<lparr>k_state := VOLUME_OPENED, k_waiting := []\<rparr>))"

text \<open>
  Closing broken connections and sending heartbeats to the others, from \<open>next_heartbeat_idx\<close>
  on. Sending a heartbeat is not implemented: it ends the process.
\<close>

fun heartbeats :: "(string \<times> nat) list \<Rightarrow> nat \<Rightarrow> client \<Rightarrow> fault + client" where
  "heartbeats [] ht_idx k = Inr k"
| "heartbeats ((ip, c) # rest) ht_idx k =
     (if \<not> rc_ok (cs_conn k c) \<or> rc_heartbeat (cs_conn k c) > 2
      then heartbeats rest (ht_idx + 1) (conn_close client_on_close c (k\<lparr>cs_ip_map := AList.delete ip (cs_ip_map k)\<rparr>))
      else if k_next_hb k \<le> ht_idx then Inl Fatal_exit
      else heartbeats rest (ht_idx + 1) k)"

definition heartbeat_once :: "client \<Rightarrow> fault + client" where
  "heartbeat_once k =
     (if cs_ip_map k = [] then Inr k
      else heartbeats (cs_ip_map k) 0 (k\<lparr>k_next_hb := k_next_hb k mod length (cs_ip_map k)\<rparr>))"

definition client_process_event :: "client_event \<Rightarrow> nat \<Rightarrow> client \<Rightarrow> fault + client" where
  "client_process_event ev now k =
     (case ev of
        Cl_io_req i \<Rightarrow> client_io_req i now k
      | Cl_io_complete st bd \<Rightarrow> client_do_complete st bd now k
      | Cl_io_timeout i \<Rightarrow> client_io_timeout i now k
      | Cl_reopen_volume t \<Rightarrow> Inr (if t > k_open_time k then reopen_volume now k else k)
      | Cl_volume_reconnect \<Rightarrow>
          Inr (if pool_remain (k_pool k) = p_count (k_pool k) \<and> k_state k \<in> {VOLUME_OPENED, VOLUME_REOPEN_FAIL, VOLUME_DISCONNECTED}
               then snd (client_post (Cl_reopen_volume now) k) else k)
      | Cl_send_heartbeat \<Rightarrow> heartbeat_once k
      | Cl_other n \<Rightarrow> Inr k)"

section \<open>Network and timer\<close>

definition client_pick_iocb :: "nat \<Rightarrow> u32 \<Rightarrow> client \<Rightarrow> fault + nat option" where
  "client_pick_iocb cid seq k =
     (if cid \<ge> p_slots (k_pool k) then Inl Out_of_bounds
      else Inr (if m_command_seq (ci_cmd (k_iocb k cid)) \<noteq> seq then None else Some cid))"

text \<open>A completed buffer of a TCP connection; \<open>recv\<close> tells received from sent buffers.\<close>

definition client_on_tcp_network_done :: "nat \<Rightarrow> client_bd \<Rightarrow> bool \<Rightarrow> int \<Rightarrow> client \<Rightarrow> fault + int \<times> client" where
  "client_on_tcp_network_done c bd recv complete_status k =
     (if complete_status \<noteq> 0 then Inr (0, if recv then reply_free bd k else k)
      else case bd of
          Cb_cmd i \<Rightarrow>
            Inr (1, if m_opcode (ci_cmd (k_iocb k i)) = S5_OP_WRITE then kact (Cl_send_data c i) (conn_add_ref c k) else k)
        | Cb_reply b \<Rightarrow>
            bnd (client_pick_iocb (unat (r_command_id (k_reply k bd))) (r_command_seq (k_reply k bd)) k) (\<lambda>oi.
              case oi of
                None \<Rightarrow> Inl Fatal_exit
              | Some i \<Rightarrow>
                  let k1 = (upd_iocb i (\<lambda>x. x\<lparr>ci_reply := Some bd\<rparr>) k)\<lparr>k_bd_iocb := (k_bd_iocb k)(bd := Some i)\<rparr>
                  in if m_opcode (ci_cmd (k_iocb k i)) = S5_OP_READ
                     then Inr (1, kact (Cl_recv_data c i) (conn_add_ref c k1))
                     else Inr (client_post (Cl_io_complete 0 bd) k1))
        | Cb_data i \<Rightarrow>
            if m_opcode (ci_cmd (k_iocb k i)) = S5_OP_READ then Inr (client_post (Cl_io_complete 0 bd) k) else Inr (0, k))"

definition client_on_rdma_network_done :: "nat \<Rightarrow> client_bd \<Rightarrow> bool \<Rightarrow> int \<Rightarrow> client \<Rightarrow> fault + int \<times> client" where
  "client_on_rdma_network_done c bd recv complete_status k =
     (if complete_status = 5 then Inr (0, if recv then reply_free bd k else k)
      else if recv
      then bnd (client_pick_iocb (unat (r_command_id (k_reply k bd))) (r_command_seq (k_reply k bd)) k) (\<lambda>oi.
             case oi of
               None \<Rightarrow> Inl Null_deref
             | Some i \<Rightarrow> Inr (0, snd (client_post (Cl_io_complete complete_status bd)
                 ((upd_iocb i (\<lambda>x. x\<lparr>ci_reply := Some bd\<rparr>) k)\<lparr>k_bd_iocb := (k_bd_iocb k)(bd := Some i)\<rparr>))))
      else Inr (0, k))"

text \<open>One round of \<open>timeout_check_proc\<close>.\<close>

definition timeout_one :: "nat \<Rightarrow> nat \<Rightarrow> client \<Rightarrow> client" where
  "timeout_one now i k =
     (let io = k_iocb k i
      in if ci_sent_time io \<noteq> 0 \<and> now > ci_sent_time io + k_io_timeout k * 1000000 \<and> \<not> ci_is_timeout io
         then upd_iocb i (\<lambda>x. x\<lparr>ci_is_timeout := True\<rparr>) (snd (client_post (Cl_io_timeout i) k))
         else k)"

definition timeout_check :: "nat \<Rightarrow> client \<Rightarrow> client" where
  "timeout_check now k = fold (timeout_one now) [0..<nat (p_count (k_pool k))] k"

section \<open>Start of the library\<close>

text \<open>\<open>BufferPool::init\<close> of one of the three pools with its \<open>n\<close> buffers; it throws when memory is missing.\<close>

definition client_buffers_init :: "int \<Rightarrow> (nat \<Rightarrow> client_bd) \<Rightarrow> client_bd fixed_queue \<Rightarrow> client \<Rightarrow> fault + client_bd fixed_queue \<times> client" where
  "client_buffers_init n bd q0 k =
     (case client_call k of (nomem, k1) \<Rightarrow>
        case q_init (nomem = 0) (bd 0) n q0 of (rc, q) \<Rightarrow>
          if rc \<noteq> 0 then Inl Runtime_error
          else case client_call k1 of (nomem2, k2) \<Rightarrow>
            if nomem2 \<noteq> 0 then Inl Runtime_error
            else case client_call k2 of (nomem3, k3) \<Rightarrow>
              if nomem3 \<noteq> 0 then Inl Runtime_error
              else Inr (enq_all enqueue (map bd [0..<nat n]) q, k3))"

text \<open>The loop of \<open>PfClientAppCtx::init\<close> that gives every slot its command id and its buffers.\<close>

primrec client_init_slots :: "nat list \<Rightarrow> client \<Rightarrow> fault + client" where
  "client_init_slots [] k = Inr k"
| "client_init_slots (n # ns) k =
     (case pool_alloc (k_pool k) of
        (None, _) \<Rightarrow> Inl Null_deref
      | (Some i, p) \<Rightarrow>
          bnd (dequeue (k_cmd_pool k)) (\<lambda>(cb, cq).
          bnd (dequeue (k_data_pool k)) (\<lambda>(db, dq).
          bnd (dequeue (k_reply_pool k)) (\<lambda>(rb, rq).
            let k1 = (upd_iocb i (\<lambda>x. x\<lparr>ci_cmd := (ci_cmd x)\<lparr>m_command_id := of_nat n\<rparr>, ci_reply := None\<rparr>)
                       (k\<lparr>k_pool := p, k_cmd_pool := cq, k_data_pool := dq, k_reply_pool := rq\<rparr>))
                         \<lparr>k_bd_iocb := (k_bd_iocb k)(cb := Some i, db := Some i, rb := None)\<rparr>
            in bnd (free_iocb i (reply_free rb k1)) (client_init_slots ns)))))"

text \<open>The part of \<open>PfClientAppCtx::init\<close> from the pools on; \<open>vol_proc->start\<close> has an outcome from outside.\<close>

definition client_init :: "int \<Rightarrow> client \<Rightarrow> fault + int \<times> client" where
  "client_init io_depth k =
     (let n = io_depth * 2
      in bnd (client_buffers_init n Cb_data (k_data_pool k) k) (\<lambda>(dq, k1).
         bnd (client_buffers_init n Cb_cmd (k_cmd_pool k) (k1\<lparr>k_data_pool := dq\<rparr>)) (\<lambda>(cq, k2).
         bnd (client_buffers_init n Cb_reply (k_reply_pool k) (k2\<lparr>k_cmd_pool := cq\<rparr>)) (\<lambda>(rq, k3).
           case client_call (k3\<lparr>k_reply_pool := rq\<rparr>) of (spin_rc, k4) \<Rightarrow> case client_call k4 of (nomem, k5) \<Rightarrow> case client_call k5 of (nomem2, k6) \<Rightarrow>
             case pool_init spin_rc (nomem = 0) (nomem2 = 0) n (k_pool k6) of (rc, p) \<Rightarrow>
               if rc \<noteq> 0 then Inr (rc, k6\<lparr>k_pool := p\<rparr>)
               else case client_call (k6\<lparr>k_pool := p\<rparr>) of (rc2, k7) \<Rightarrow>
                 if rc2 \<noteq> 0 then Inr (rc2, k7)
                 else bnd (client_init_slots [0..<nat n] k7) (\<lambda>k8. Inr (0, k8))))))"

section \<open>Where the requests are\<close>

fun ev_req :: "client_event \<Rightarrow> nat list" where
  "ev_req (Cl_io_req i) = [i]"
| "ev_req _ = []"

definition reqs :: "client_event list \<Rightarrow> nat list" where
  "reqs q = concat (map ev_req q)"

fun ev_comp :: "(client_bd \<Rightarrow> nat option) \<Rightarrow> client_event \<Rightarrow> nat list" where
  "ev_comp f (Cl_io_complete st bd) = (case f bd of None \<Rightarrow> [] | Some i \<Rightarrow> [i])"
| "ev_comp f _ = []"

definition comps :: "(client_bd \<Rightarrow> nat option) \<Rightarrow> client_event list \<Rightarrow> nat list" where
  "comps f q = concat (map (ev_comp f) q)"

text \<open>Slots whose request has been sent, and slots that belong to a request.\<close>

definition flying :: "client \<Rightarrow> nat set" where
  "flying k = {i. i < p_slots (k_pool k) \<and> ci_conn (k_iocb k i) \<noteq> None}"

definition busy :: "client \<Rightarrow> nat set" where
  "busy k = {..<p_slots (k_pool k)} - pool_avail (k_pool k)"

definition pending :: "client \<Rightarrow> nat multiset" where
  "pending k = image_mset (\<lambda>i. ci_arg (k_iocb k i)) (mset_set (busy k))"

fun act_call :: "client_action \<Rightarrow> nat multiset" where
  "act_call (Cl_callback a s) = {#a#}"
| "act_call _ = {#}"

definition callbacks :: "client \<Rightarrow> nat multiset" where
  "callbacks k = sum_list (map act_call (k_acts k))"

text \<open>
  A slot is free, waits in the event queue, waits for the volume to be opened, or is in
  flight. A slot with a time of sending has a request of the user.
\<close>

definition places_inv :: "client \<Rightarrow> bool" where
  "places_inv k \<longleftrightarrow> pool_inv (k_pool k) \<and> p_count (k_pool k) = int (p_slots (k_pool k)) \<and>
     distinct (reqs (k_queue k) @ k_waiting k) \<and> set (reqs (k_queue k) @ k_waiting k) \<inter> flying k = {} \<and>
     busy k = set (reqs (k_queue k) @ k_waiting k) \<union> flying k \<and>
     (\<forall>i < p_slots (k_pool k). ci_sent_time (k_iocb k i) \<noteq> 0 \<longrightarrow> m_opcode (ci_cmd (k_iocb k i)) \<in> {S5_OP_READ, S5_OP_WRITE}) \<and>
     (\<forall>i \<in> busy k. m_opcode (ci_cmd (k_iocb k i)) \<in> {S5_OP_READ, S5_OP_WRITE})"

text \<open>
  A completion in the queue belongs to a request in flight that has its reply, each to
  another one, and none is behind a timeout of the same request. One that asks to open
  the volume again carries the reply itself.
\<close>

fun comp_ok :: "client \<Rightarrow> client_event \<Rightarrow> bool" where
  "comp_ok k (Cl_io_complete st bd) = (st = 0 \<and> (\<exists>i b. k_bd_iocb k bd = Some i \<and> i \<in> flying k \<and>
     ci_reply (k_iocb k i) = Some (Cb_reply b) \<and> k_bd_iocb k (Cb_reply b) = Some i \<and>
     (r_status (k_reply k (Cb_reply b)) AND MSG_STATUS_REOPEN = 0 \<or> bd = Cb_reply b)))"
| "comp_ok k _ = True"

fun no_late :: "(client_bd \<Rightarrow> nat option) \<Rightarrow> client_event list \<Rightarrow> bool" where
  "no_late f [] = True"
| "no_late f (ev # q) = ((case ev of Cl_io_timeout i \<Rightarrow> i \<notin> set (comps f q) | _ \<Rightarrow> True) \<and> no_late f q)"

definition comps_inv :: "client \<Rightarrow> bool" where
  "comps_inv k \<longleftrightarrow> distinct (comps (k_bd_iocb k) (k_queue k)) \<and> (\<forall>ev \<in> set (k_queue k). comp_ok k ev) \<and>
     no_late (k_bd_iocb k) (k_queue k) \<and>
     (\<forall>i. Cl_io_timeout i \<in> set (k_queue k) \<longrightarrow> i < p_slots (k_pool k)) \<and>
     (\<forall>i < p_slots (k_pool k). k_bd_iocb k (Cb_data i) = Some i)"

definition client_inv :: "client \<Rightarrow> bool" where
  "client_inv k \<longleftrightarrow> places_inv k \<and> comps_inv k"

text \<open>Posting buffers and events succeeds.\<close>

definition client_calm :: "client \<Rightarrow> bool" where
  "client_calm k \<longleftrightarrow> k_ext k = (\<lambda>_. 0) \<and> k_full k = (\<lambda>_. 0)"

lemma reqs_simps [simp]:
  "reqs [] = []" "reqs (ev # q) = ev_req ev @ reqs q" "reqs (q1 @ q2) = reqs q1 @ reqs q2"
  by (simp_all add: reqs_def)

lemma comps_simps [simp]:
  "comps f [] = []" "comps f (ev # q) = ev_comp f ev @ comps f q" "comps f (q1 @ q2) = comps f q1 @ comps f q2"
  by (simp_all add: comps_def)

lemma no_late_append: "no_late f (q1 @ q2) \<longleftrightarrow> no_late f q1 \<and> no_late f q2 \<and>
    (\<forall>i. Cl_io_timeout i \<in> set q1 \<longrightarrow> i \<notin> set (comps f q2))"
  by (induction q1) (auto split: client_event.split)

section \<open>What connections leave alone\<close>

definition ksame :: "client \<Rightarrow> client \<Rightarrow> bool" where
  "ksame k k' \<longleftrightarrow> k_iocb k' = k_iocb k \<and> k_pool k' = k_pool k \<and> k_queue k' = k_queue k \<and> k_waiting k' = k_waiting k \<and>
     k_bd_iocb k' = k_bd_iocb k \<and> k_reply k' = k_reply k \<and> k_acts k' = k_acts k \<and> k_ext k' = k_ext k \<and> k_full k' = k_full k"

interpretation clconn: conn_user ksame client_on_close
  by unfold_locales (simp_all add: ksame_def client_on_close_def)

lemma ksame_shards: "ksame k (k\<lparr>k_shards := x\<rparr>)"
  by (simp add: ksame_def)

lemma ksame_try_stores: "ksame k (snd (try_stores n idx k))"
proof (induction n arbitrary: k)
  case 0
  then show ?case by (simp add: clconn.same_refl)
next
  case (Suc n)
  let ?sh = "k_shards k ! idx"
  obtain oc k1 where g: "pool_get_conn client_on_close (sh_ips ?sh ! sh_current ?sh) k = (oc, k1)" by (rule prod.exhaust)
  have 1: "ksame k k1" using clconn.same_get_conn [of k "sh_ips ?sh ! sh_current ?sh"] g by simp
  show ?case
  proof (cases oc)
    case None
    have "ksame k (snd (try_stores n idx (k1\<lparr>k_shards := y\<rparr>)))" for y
      by (rule clconn.same_trans [OF clconn.same_trans [OF 1 ksame_shards] Suc])
    then show ?thesis using g None by (simp add: Let_def)
  next
    case (Some c)
    then show ?thesis using g 1 by (simp add: Let_def)
  qed
qed

lemma ksame_get_shard_conn: "ksame k (snd (get_shard_conn idx k))"
  using ksame_try_stores by (simp add: get_shard_conn_def clconn.same_refl)

lemma ksame_inv:
  assumes "ksame k k'"
  shows "places_inv k' = places_inv k" "comps_inv k' = comps_inv k" "client_calm k' = client_calm k" "pending k' = pending k"
    "callbacks k' = callbacks k" "flying k' = flying k" "busy k' = busy k"
proof -
  note e = assms [unfolded ksame_def]
  show f: "flying k' = flying k" and b: "busy k' = busy k" using e by (simp_all add: flying_def busy_def)
  have c: "comp_ok k' ev = comp_ok k ev" for ev using e f by (cases ev) simp_all
  show "places_inv k' = places_inv k" "comps_inv k' = comps_inv k" using e f b c by (simp_all add: places_inv_def comps_inv_def)
  show "client_calm k' = client_calm k" "pending k' = pending k" "callbacks k' = callbacks k"
    using e b by (simp_all add: client_calm_def pending_def callbacks_def)
qed

section \<open>Moving a slot\<close>

text \<open>The slot \<open>i\<close> belongs to a request that is at no place for the moment.\<close>

definition loose :: "nat \<Rightarrow> client \<Rightarrow> bool" where
  "loose i k \<longleftrightarrow> pool_inv (k_pool k) \<and> p_count (k_pool k) = int (p_slots (k_pool k)) \<and>
     distinct (reqs (k_queue k) @ k_waiting k) \<and> set (reqs (k_queue k) @ k_waiting k) \<inter> flying k = {} \<and>
     i \<notin> set (reqs (k_queue k) @ k_waiting k) \<union> flying k \<and>
     busy k = insert i (set (reqs (k_queue k) @ k_waiting k) \<union> flying k) \<and>
     (\<forall>j < p_slots (k_pool k). ci_sent_time (k_iocb k j) \<noteq> 0 \<longrightarrow> m_opcode (ci_cmd (k_iocb k j)) \<in> {S5_OP_READ, S5_OP_WRITE}) \<and>
     (\<forall>j \<in> busy k. m_opcode (ci_cmd (k_iocb k j)) \<in> {S5_OP_READ, S5_OP_WRITE})"

lemma finite_busy [simp]: "finite (busy k)"
  by (simp add: busy_def)

lemma looseD: "loose i k \<Longrightarrow> i < p_slots (k_pool k) \<and> i \<notin> pool_avail (k_pool k) \<and> pool_inv (k_pool k)"
  by (auto simp: loose_def busy_def)

text \<open>Changes that no place depends on.\<close>

lemma places_cong:
  assumes "k_pool k' = k_pool k" and "reqs (k_queue k') @ k_waiting k' = reqs (k_queue k) @ k_waiting k"
    and "\<And>j. ci_conn (k_iocb k' j) = ci_conn (k_iocb k j)" and "\<And>j. ci_sent_time (k_iocb k' j) = ci_sent_time (k_iocb k j)"
    and "\<And>j. m_opcode (ci_cmd (k_iocb k' j)) = m_opcode (ci_cmd (k_iocb k j))"
  shows "places_inv k' = places_inv k" "loose i k' = loose i k" "flying k' = flying k" "busy k' = busy k"
proof -
  show f: "flying k' = flying k" "busy k' = busy k" using assms(1,3) by (simp_all add: flying_def busy_def)
  show "places_inv k' = places_inv k" "loose i k' = loose i k"
    unfolding places_inv_def loose_def f using assms by simp_all
qed

lemma loose_req:
  assumes "places_inv k" and "k_queue k = Cl_io_req i # q"
  shows "loose i (k\<lparr>k_queue := q\<rparr>)"
proof -
  have "flying (k\<lparr>k_queue := q\<rparr>) = flying k" "busy (k\<lparr>k_queue := q\<rparr>) = busy k" by (simp_all add: flying_def busy_def)
  then show ?thesis using assms unfolding places_inv_def loose_def by auto
qed

lemma loose_wait: "loose i k \<Longrightarrow> places_inv (k\<lparr>k_waiting := i # k_waiting k\<rparr>)"
proof -
  assume "loose i k"
  moreover have "flying (k\<lparr>k_waiting := i # k_waiting k\<rparr>) = flying k" "busy (k\<lparr>k_waiting := i # k_waiting k\<rparr>) = busy k"
    by (simp_all add: flying_def busy_def)
  ultimately show ?thesis unfolding places_inv_def loose_def by auto
qed

lemma loose_post: "loose i k \<Longrightarrow> places_inv (k\<lparr>k_queue := k_queue k @ [Cl_io_req i]\<rparr>)"
proof -
  assume "loose i k"
  moreover have "flying (k\<lparr>k_queue := k_queue k @ [Cl_io_req i]\<rparr>) = flying k" "busy (k\<lparr>k_queue := k_queue k @ [Cl_io_req i]\<rparr>) = busy k"
    by (simp_all add: flying_def busy_def)
  ultimately show ?thesis unfolding places_inv_def loose_def by auto
qed

lemma loose_fly:
  assumes l: "loose i k" and f: "ci_conn (f (k_iocb k i)) = Some c" "m_opcode (ci_cmd (f (k_iocb k i))) = m_opcode (ci_cmd (k_iocb k i))"
  shows "places_inv (upd_iocb i f k)" "flying (upd_iocb i f k) = insert i (flying k)"
proof -
  have i: "i < p_slots (k_pool k)" using looseD [OF l] by simp
  show fl: "flying (upd_iocb i f k) = insert i (flying k)" using i f(1) by (auto simp: flying_def)
  have "busy (upd_iocb i f k) = busy k" by (simp add: busy_def)
  then show "places_inv (upd_iocb i f k)" using l f unfolding places_inv_def loose_def fl by auto
qed

lemma land:
  assumes p: "places_inv k" and i: "i \<in> flying k"
    and f: "ci_conn (f (k_iocb k i)) = None" "m_opcode (ci_cmd (f (k_iocb k i))) = m_opcode (ci_cmd (k_iocb k i))"
  shows "loose i (upd_iocb i f k)" "flying (upd_iocb i f k) = flying k - {i}"
proof -
  show fl: "flying (upd_iocb i f k) = flying k - {i}" using i f(1) by (auto simp: flying_def)
  have "busy (upd_iocb i f k) = busy k" by (simp add: busy_def)
  then show "loose i (upd_iocb i f k)" using p i f unfolding places_inv_def loose_def fl by auto
qed

lemma loose_free:
  assumes l: "loose i k"
  obtains k' where "free_iocb i k = Inr k'" and "places_inv k'" and "pending k = add_mset (ci_arg (k_iocb k i)) (pending k')"
    and "k' = k\<lparr>k_pool := k_pool k'\<rparr>" and "flying k' = flying k" and "p_slots (k_pool k') = p_slots (k_pool k)"
proof -
  have i: "i < p_slots (k_pool k)" "i \<notin> pool_avail (k_pool k)" "pool_inv (k_pool k)" using looseD [OF l] by simp_all
  obtain p where p: "pool_free (k_pool k) i = Inr p" "pool_inv p" "pool_avail p = insert i (pool_avail (k_pool k))" "p_slots p = p_slots (k_pool k)"
    using omp.release_ok [OF i(3,2,1)] by (cases "pool_free (k_pool k) i") simp_all
  have pc: "p_count p = p_count (k_pool k)" using p(1) by (auto simp: pool_free_def split: prod.splits if_splits)
  define k' where "k' = k\<lparr>k_pool := p\<rparr>"
  have b: "busy k' = busy k - {i}" using p(3,4) by (auto simp: busy_def k'_def)
  have f: "flying k' = flying k" using p(4) by (simp add: flying_def k'_def)
  have ib: "i \<in> busy k" using i by (simp add: busy_def)
  have "pending k = add_mset (ci_arg (k_iocb k i)) (image_mset (\<lambda>j. ci_arg (k_iocb k j)) (mset_set (busy k - {i})))"
    using ib by (simp add: pending_def mset_set.remove)
  then have pe: "pending k = add_mset (ci_arg (k_iocb k i)) (pending k')" using b by (simp add: pending_def k'_def)
  have "places_inv k'" using l p(2,4) pc i(1) unfolding places_inv_def loose_def b f by (auto simp: k'_def)
  then show ?thesis using that [of k'] p(1,4) pe f by (simp add: free_iocb_def k'_def)
qed

lemma loose_alloc:
  assumes p: "places_inv k" and al: "pool_alloc (k_pool k) = (Some i, p)"
    and f: "ci_conn (f (k_iocb k i)) = ci_conn (k_iocb k i)"
      "m_opcode (ci_cmd (f (k_iocb k i))) \<in> {S5_OP_READ, S5_OP_WRITE}"
  shows "loose i (upd_iocb i f (k\<lparr>k_pool := p\<rparr>))" "pending (upd_iocb i f (k\<lparr>k_pool := p\<rparr>)) = add_mset (ci_arg (f (k_iocb k i))) (pending k)"
    "flying (upd_iocb i f (k\<lparr>k_pool := p\<rparr>)) = flying k" "i \<notin> flying k" "p_slots p = p_slots (k_pool k)"
proof -
  let ?k = "upd_iocb i f (k\<lparr>k_pool := p\<rparr>)"
  have P: "i \<in> pool_avail (k_pool k)" "i < p_slots (k_pool k)" "pool_inv p" "pool_avail p = pool_avail (k_pool k) - {i}" "p_slots p = p_slots (k_pool k)"
    using omp.alloc_fresh [OF _ al] p by (simp_all add: places_inv_def)
  have pc: "p_count p = p_count (k_pool k)" using al by (auto simp: pool_alloc_def split: if_splits sum.splits)
  have nb: "i \<notin> busy k" using P(1) by (simp add: busy_def)
  then show nf: "i \<notin> flying k" using p by (auto simp: places_inv_def)
  then have cn: "ci_conn (k_iocb k i) = None" using P(2) by (simp add: flying_def)
  have b: "busy ?k = insert i (busy k)" using P by (auto simp: busy_def)
  show fl: "flying ?k = flying k" using P(5) f(1) by (auto simp: flying_def)
  show "p_slots p = p_slots (k_pool k)" by (rule P(5))
  have "pending ?k = add_mset (ci_arg (f (k_iocb k i))) (image_mset (\<lambda>j. ci_arg (k_iocb ?k j)) (mset_set (busy k)))"
    unfolding pending_def b using nb by simp
  also have "image_mset (\<lambda>j. ci_arg (k_iocb ?k j)) (mset_set (busy k)) = pending k"
    unfolding pending_def using nb by (intro image_mset_cong) auto
  finally show "pending ?k = add_mset (ci_arg (f (k_iocb k i))) (pending k)" .
  show "loose i ?k" using p P pc f cn nb nf unfolding places_inv_def loose_def b fl by auto
qed

section \<open>Completions in the queue\<close>

lemma comp_slot: "j \<in> set (comps f q) \<longleftrightarrow> (\<exists>st bd. Cl_io_complete st bd \<in> set q \<and> f bd = Some j)"
proof (induction q)
  case (Cons ev q)
  show ?case
  proof (cases ev)
    case (Cl_io_complete st b)
    then show ?thesis using Cons by (cases "f b") auto
  qed (use Cons in auto)
qed simp

lemma queue_cong:
  "(\<And>st b. Cl_io_complete st b \<in> set q \<Longrightarrow> f b = g b) \<Longrightarrow> comps f q = comps g q \<and> no_late f q = no_late g q"
proof (induction q)
  case (Cons ev q)
  have "comps f q = comps g q \<and> no_late f q = no_late g q" by (rule Cons.IH) (use Cons.prems in auto)
  moreover have "f b = g b" if "ev = Cl_io_complete st b" for st b using Cons.prems [of st b] that by simp
  ultimately show ?case by (cases ev) simp_all
qed simp

lemma comps_tl: "comps_inv k \<Longrightarrow> k_queue k = ev # q \<Longrightarrow> comps_inv (k\<lparr>k_queue := q\<rparr>)"
proof -
  assume a: "comps_inv k" "k_queue k = ev # q"
  have "comp_ok (k\<lparr>k_queue := q\<rparr>) e = comp_ok k e" for e by (cases e) (simp_all add: flying_def)
  then show ?thesis using a by (simp add: comps_inv_def)
qed

lemma comps_flying: "comps_inv k \<Longrightarrow> j \<in> set (comps (k_bd_iocb k) (k_queue k)) \<Longrightarrow> j \<in> flying k"
  unfolding comp_slot comps_inv_def by force

text \<open>
  Changes of a slot without a completion in the queue, and of a buffer that belongs to this
  slot or to none, keep the completions in order; so do events behind the queue that are no completions.
\<close>

lemma comps_keep:
  assumes inv: "comps_inv k" and q: "k_queue k' = k_queue k @ ext"
      "\<forall>ev \<in> set ext. case ev of Cl_io_complete _ _ \<Rightarrow> False | Cl_io_timeout i \<Rightarrow> i < p_slots (k_pool k) | _ \<Rightarrow> True"
    and i: "i \<notin> set (comps (k_bd_iocb k) (k_queue k))"
    and same: "\<And>b. k_bd_iocb k' b \<noteq> k_bd_iocb k b \<Longrightarrow> (\<forall>l. b \<noteq> Cb_data l) \<and> (\<forall>l. k_bd_iocb k b = Some l \<longrightarrow> l = i)"
      "\<And>b. k_reply k' b \<noteq> k_reply k b \<Longrightarrow> \<forall>l. k_bd_iocb k b = Some l \<longrightarrow> l = i" "p_slots (k_pool k') = p_slots (k_pool k)"
    and j: "\<And>j. j \<noteq> i \<Longrightarrow> ci_reply (k_iocb k' j) = ci_reply (k_iocb k j)" "\<And>j. j \<noteq> i \<Longrightarrow> j \<in> flying k \<Longrightarrow> j \<in> flying k'"
  shows "comps_inv k'"
proof -
  have nb: "k_bd_iocb k' b = k_bd_iocb k b" if e: "Cl_io_complete st b \<in> set (k_queue k)" for st b
  proof (rule ccontr)
    assume "k_bd_iocb k' b \<noteq> k_bd_iocb k b"
    moreover obtain l where "k_bd_iocb k b = Some l" using inv e by (force simp: comps_inv_def)
    ultimately have "k_bd_iocb k b = Some i" using same(1) by blast
    then show False using e i by (auto simp: comp_slot)
  qed
  have "comps (k_bd_iocb k') (k_queue k) = comps (k_bd_iocb k) (k_queue k) \<and> no_late (k_bd_iocb k') (k_queue k) = no_late (k_bd_iocb k) (k_queue k)"
    by (rule queue_cong) (use nb in blast)
  then have c: "comps (k_bd_iocb k') (k_queue k) = comps (k_bd_iocb k) (k_queue k)" and nl: "no_late (k_bd_iocb k') (k_queue k)"
    using inv by (simp_all add: comps_inv_def)
  have "comps f ext = [] \<and> no_late f ext" for f using q(2)
  proof (induction ext)
    case (Cons ev ext)
    then show ?case by (cases ev) simp_all
  qed simp
  moreover have "l < p_slots (k_pool k)" if "Cl_io_timeout l \<in> set ext" for l using q(2) that by force
  moreover have "comp_ok k' ev" if ev: "ev \<in> set (k_queue k')" for ev
  proof (cases ev)
    case (Cl_io_complete st b)
    then have e: "Cl_io_complete st b \<in> set (k_queue k)" using ev q by auto
    then have "comp_ok k (Cl_io_complete st b)" using inv by (auto simp: comps_inv_def)
    then obtain l c where l: "st = 0" "k_bd_iocb k b = Some l" "l \<in> flying k" "ci_reply (k_iocb k l) = Some (Cb_reply c)"
        "k_bd_iocb k (Cb_reply c) = Some l" "r_status (k_reply k (Cb_reply c)) AND MSG_STATUS_REOPEN = 0 \<or> b = Cb_reply c" by auto
    have li: "l \<noteq> i" using e l(2) i by (auto simp: comp_slot)
    then have "k_bd_iocb k' (Cb_reply c) = Some l" using same(1) [of "Cb_reply c"] l(5) by (cases "k_bd_iocb k' (Cb_reply c) = k_bd_iocb k (Cb_reply c)") auto
    moreover have "k_reply k' (Cb_reply c) = k_reply k (Cb_reply c)" using same(2) [of "Cb_reply c"] l(5) li by blast
    ultimately show ?thesis using l li nb [OF e] j unfolding Cl_io_complete by simp
  qed simp_all
  moreover have "k_bd_iocb k' (Cb_data l) = Some l" if "l < p_slots (k_pool k)" for l
    using inv same(1) [of "Cb_data l"] that by (force simp: comps_inv_def)
  ultimately show ?thesis using inv c nl same(3) q(1) by (auto simp: comps_inv_def no_late_append)
qed

text \<open>A new completion of a request in flight.\<close>

lemma comps_new:
  assumes inv: "comps_inv k"
    and i: "k_bd_iocb k bd = Some i" "i \<in> flying k" "ci_reply (k_iocb k i) = Some (Cb_reply b)" "k_bd_iocb k (Cb_reply b) = Some i"
      "r_status (k_reply k (Cb_reply b)) AND MSG_STATUS_REOPEN = 0 \<or> bd = Cb_reply b"
    and new: "i \<notin> set (comps (k_bd_iocb k) (k_queue k))" "Cl_io_timeout i \<notin> set (k_queue k)"
  shows "comps_inv (k\<lparr>k_queue := k_queue k @ [Cl_io_complete 0 bd]\<rparr>)"
proof -
  have "comp_ok (k\<lparr>k_queue := q\<rparr>) e = comp_ok k e" for e q by (cases e) (simp_all add: flying_def)
  then show ?thesis using inv i new unfolding comps_inv_def by (auto simp: no_late_append)
qed

section \<open>Steps\<close>

text \<open>The requests that came in: those called back and those that belong to a slot.\<close>

definition tally :: "client \<Rightarrow> nat multiset" where
  "tally k = callbacks k + pending k"

definition good_step :: "fault set \<Rightarrow> nat multiset \<Rightarrow> fault + client \<Rightarrow> bool" where
  "good_step faults m res \<longleftrightarrow> (case res of Inl f \<Rightarrow> f \<in> faults | Inr k' \<Rightarrow> client_inv k' \<and> client_calm k' \<and> tally k' = m)"

lemma callbacks_act [simp]: "callbacks (kact a k) = act_call a + callbacks k"
  by (simp add: callbacks_def)

lemma calm_post: "client_calm k \<Longrightarrow> client_post ev k = (0, k\<lparr>k_full_cnt := k_full_cnt k + 1, k_queue := k_queue k @ [ev]\<rparr>)"
  by (simp add: client_calm_def client_post_def Let_def)

lemma calm_call: "client_calm k \<Longrightarrow> client_call k = (0, k\<lparr>k_cnt := k_cnt k + 1\<rparr>)"
  by (simp add: client_calm_def client_call_def)

text \<open>A request leaves the queue without a place and is called back: the slot is free again.\<close>

lemma call_and_free:
  assumes l: "loose i k" and c: "comps_inv k" "client_calm k" and ni: "i \<notin> set (comps (k_bd_iocb k) (k_queue k))"
    and a: "a = ci_arg (k_iocb k i)"
  obtains k' where "free_iocb i (kact (Cl_callback a st) k) = Inr k'" and "client_inv k'" and "client_calm k'" and "tally k' = tally k"
    and "k_state k' = k_state k" and "k_meta_ver k' = k_meta_ver k"
proof -
  let ?k1 = "kact (Cl_callback a st) k"
  have l1: "loose i ?k1" using l places_cong(2) [of ?k1 k i] by simp
  obtain k' where k': "free_iocb i ?k1 = Inr k'" "places_inv k'" "pending ?k1 = add_mset (ci_arg (k_iocb ?k1 i)) (pending k')"
    "k' = ?k1\<lparr>k_pool := k_pool k'\<rparr>" "flying k' = flying ?k1" "p_slots (k_pool k') = p_slots (k_pool ?k1)"
    using loose_free [OF l1] .
  have f: "k_queue k' = k_queue k" "k_bd_iocb k' = k_bd_iocb k" "k_reply k' = k_reply k" "k_iocb k' = k_iocb k" "k_acts k' = k_acts ?k1"
      "k_ext k' = k_ext k" "k_full k' = k_full k" "k_state k' = k_state k" "k_meta_ver k' = k_meta_ver k"
    by (subst k'(4); simp)+
  have fl: "flying k' = flying k" using k'(5) by (simp add: flying_def)
  have "comps_inv k'" by (rule comps_keep [OF c(1), where ext = "[]" and i = i]) (use f fl ni k'(6) in simp_all)
  moreover have "pending ?k1 = pending k" by (simp add: pending_def busy_def)
  then have "tally k' = tally k" using k'(3) f a by (simp add: tally_def callbacks_def)
  moreover have "client_calm k'" using c(2) f by (simp add: client_calm_def)
  ultimately show ?thesis using that [OF k'(1)] k'(2) f by (simp add: client_inv_def)
qed

text \<open>Changes that concern no request.\<close>

lemma client_inv_cong:
  assumes "client_inv k" and "client_calm k" and "ksame k k'"
  shows "client_inv k'" "client_calm k'" "tally k' = tally k"
  using assms ksame_inv [OF assms(3)] by (simp_all add: client_inv_def tally_def)

lemma tally_cong:
  assumes "k_pool k' = k_pool k" and "callbacks k' = callbacks k" and "\<And>j. ci_arg (k_iocb k' j) = ci_arg (k_iocb k j)"
  shows "tally k' = tally k"
  using assms by (simp add: tally_def pending_def busy_def)

lemma client_calm_cong: "client_calm k \<Longrightarrow> k_ext k' = k_ext k \<Longrightarrow> k_full k' = k_full k \<Longrightarrow> client_calm k'"
  by (simp add: client_calm_def)

text \<open>A request without a place is sent.\<close>

lemma send_ok:
  assumes l: "loose i k" and c: "comps_inv k" "client_calm k" and ni: "i \<notin> set (comps (k_bd_iocb k) (k_queue k))"
    and s: "k_pool k' = k_pool k" "k_queue k' = k_queue k" "k_waiting k' = k_waiting k" "k_bd_iocb k' = k_bd_iocb k" "k_reply k' = k_reply k"
      "k_ext k' = k_ext k" "k_full k' = k_full k" "callbacks k' = callbacks k" "k_iocb k' = (k_iocb k)(i := f (k_iocb k i))"
    and f: "ci_conn (f (k_iocb k i)) = Some c0" "m_opcode (ci_cmd (f (k_iocb k i))) = m_opcode (ci_cmd (k_iocb k i))"
      "ci_arg (f (k_iocb k i)) = ci_arg (k_iocb k i)"
  shows "client_inv k'" "client_calm k'" "tally k' = tally k"
proof -
  note fly = loose_fly [where f = f, OF l f(1,2)]
  note cong = places_cong [of k' "upd_iocb i f k"]
  have "places_inv k'" and fl: "flying k' = insert i (flying k)" using cong(1,3) fly s by simp_all
  moreover have "comps_inv k'" by (rule comps_keep [OF c(1), where ext = "[]" and i = i]) (use s fl ni in simp_all)
  ultimately show "client_inv k'" by (simp add: client_inv_def)
  show "client_calm k'" by (rule client_calm_cong [OF c(2) s(6,7)])
  show "tally k' = tally k" by (rule tally_cong) (use s f in simp_all)
qed

lemma no_conn_ok:
  assumes l: "loose i k" and c: "comps_inv k" "client_calm k" and ni: "i \<notin> set (comps (k_bd_iocb k) (k_queue k))"
    and a: "a = ci_arg (k_iocb k i)"
  shows "good_step {} (tally k)
     (bnd (if late then free_iocb i (kact (Cl_callback a st) k) else Inr (k\<lparr>k_waiting := i # k_waiting k\<rparr>))
        (\<lambda>k2. Inr (if k_state k2 = VOLUME_OPENED
                    then kact (Cl_reopen_timer (k_meta_ver k2)) (k2\<lparr>k_state := VOLUME_WAIT_REOPEN\<rparr>) else k2)))"
proof -
  have timer: "client_inv (kact (Cl_reopen_timer v) (x\<lparr>k_state := y\<rparr>)) \<and> client_calm (kact (Cl_reopen_timer v) (x\<lparr>k_state := y\<rparr>)) \<and>
      tally (kact (Cl_reopen_timer v) (x\<lparr>k_state := y\<rparr>)) = m" if x: "client_inv x" "client_calm x" "tally x = m" for x v y m
  proof -
    let ?x = "kact (Cl_reopen_timer v) (x\<lparr>k_state := y\<rparr>)"
    have "comps_inv ?x" by (rule comps_keep [of x, where ext = "[]" and i = "p_slots (k_pool x)"])
        (use x comps_flying [of x] in \<open>auto simp: client_inv_def flying_def\<close>)
    moreover have "places_inv ?x" using places_cong(1) [of ?x x] x by (simp add: client_inv_def)
    moreover have "tally ?x = tally x" by (rule tally_cong) (simp_all add: callbacks_def)
    ultimately show ?thesis using x by (simp add: client_inv_def client_calm_def)
  qed
  show ?thesis
  proof (cases late)
    case True
    obtain k' where k': "free_iocb i (kact (Cl_callback a st) k) = Inr k'" "client_inv k'" "client_calm k'" "tally k' = tally k"
        "k_state k' = k_state k" "k_meta_ver k' = k_meta_ver k"
      using call_and_free [OF l c ni a] .
    then show ?thesis using True timer [OF k'(2,3,4)] by (simp add: good_step_def)
  next
    case False
    let ?k = "k\<lparr>k_waiting := i # k_waiting k\<rparr>"
    have "comps_inv ?k" by (rule comps_keep [OF c(1), where ext = "[]" and i = i]) (use ni in \<open>simp_all add: flying_def\<close>)
    then have k: "client_inv ?k" "client_calm ?k" using loose_wait [OF l] client_calm_cong [OF c(2)] by (simp_all add: client_inv_def)
    have t: "tally ?k = tally k" by (rule tally_cong) (simp_all add: callbacks_def)
    show ?thesis using False k t timer [OF k t] by (simp add: good_step_def)
  qed
qed

lemma good_step_mono: "good_step F m r \<Longrightarrow> F \<subseteq> G \<Longrightarrow> good_step G m r"
  by (auto simp: good_step_def split: sum.splits)

lemma client_io_req_ok:
  assumes inv: "client_inv k" and calm: "client_calm k" and q: "k_queue k = Cl_io_req i # q"
  shows "good_step {Logic_error, Out_of_bounds, Null_deref} (tally k) (client_io_req i now (k\<lparr>k_queue := q\<rparr>))"
proof -
  define k0 where "k0 = k\<lparr>k_queue := q\<rparr>"
  have l0: "loose i k0" and c0: "comps_inv k0" "client_calm k0"
    using inv calm q loose_req [of k i q] comps_tl [of k] by (auto simp: client_inv_def k0_def client_calm_def)
  have t0: "tally k0 = tally k" by (simp add: k0_def tally_def callbacks_def pending_def busy_def)
  define idx where "idx = unat (drop_bit SHARD_SIZE_ORDER (m_offset (ci_cmd (k_iocb k0 i))))"
  obtain oc k1 where g: "get_shard_conn idx k0 = (oc, k1)" by (rule prod.exhaust)
  have s1: "ksame k0 k1" using ksame_get_shard_conn [of k0 idx] g by simp
  note S = ksame_inv [OF s1] and e = s1 [unfolded ksame_def]
  have l1: "loose i k1" using l0 places_cong(2) [of k1 k0 i] e by simp
  have c1: "comps_inv k1" "client_calm k1" using c0 S by simp_all
  have ni: "i \<notin> set (comps (k_bd_iocb k1) (k_queue k1))" using comps_flying [OF c1(1)] l1 by (auto simp: loose_def)
  have t1: "tally k1 = tally k" using t0 S by (simp add: tally_def)
  show ?thesis unfolding k0_def [symmetric]
  proof (cases "idx \<ge> length (k_shards k0) \<or> sh_local (k_shards k0 ! idx)")
    case True
    then show "good_step {Logic_error, Out_of_bounds, Null_deref} (tally k) (client_io_req i now k0)"
      by (auto simp: good_step_def client_io_req_def Let_def idx_def)
  next
    case False
    show "good_step {Logic_error, Out_of_bounds, Null_deref} (tally k) (client_io_req i now k0)"
    proof (cases oc)
      case None
      have "good_step {} (tally k) (client_io_req i now k0)"
        unfolding client_io_req_def Let_def idx_def [symmetric] g None t1 [symmetric]
        using False no_conn_ok [OF l1 c1 ni] e by simp
      then show ?thesis by (rule good_step_mono) simp
    next
      case (Some c)
      show ?thesis
      proof (cases "dequeue (k_reply_pool k1)")
        case (Inl f)
        then have "f = Logic_error" by (auto simp: dequeue_def dequeue_nolock_def split: if_splits)
        then show ?thesis unfolding client_io_req_def Let_def idx_def [symmetric] g Some good_step_def using False Inl by simp
      next
        case (Inr r)
        obtain bd q' where r: "r = (bd, q')" by (cases r)
        define f where "f = (\<lambda>x::client_iocb. x\<lparr>ci_cmd := (ci_cmd x)\<lparr>m_meta_ver := of_int (k_meta_ver k1)\<rparr>,
          ci_is_timeout := False, ci_conn := Some c, ci_sent_time := now\<rparr>)"
        define k' where "k' = kact (Cl_send c i) (k1\<lparr>k_reply_pool := q', k_iocb := (k_iocb k1)(i := f (k_iocb k1 i)),
          cs_conn := (cs_conn k1)(c := (cs_conn k1 c)\<lparr>rc_ref := rc_ref (cs_conn k1 c) + 1\<rparr>), k_cnt := k_cnt k1 + 2\<rparr>)"
        have "client_io_req i now k0 = Inr k'"
          unfolding client_io_req_def Let_def idx_def [symmetric] g Some
          using False Inr r c1(2) by (simp add: client_call_def client_calm_def conn_add_ref_def f_def k'_def)
        moreover have "client_inv k'" "client_calm k'" "tally k' = tally k1"
          by (rule send_ok [OF l1 c1 ni, of k' f c]; simp add: k'_def f_def callbacks_def)+
        ultimately show ?thesis using t1 by (simp add: good_step_def)
      qed
    qed
  qed
qed

lemma free_act: "free_iocb i (kact a k) = bnd (free_iocb i k) (\<lambda>k'. Inr (kact a k'))"
  by (cases "pool_free (k_pool k) i") (simp_all add: free_iocb_def)

text \<open>A request in flight loses its connection.\<close>

lemma land_ok:
  assumes inv: "client_inv k" and calm: "client_calm k" and i: "i \<in> flying k" "i \<notin> set (comps (k_bd_iocb k) (k_queue k))"
    and s: "k_pool k' = k_pool k" "k_queue k' = k_queue k" "k_waiting k' = k_waiting k" "k_reply k' = k_reply k"
      "k_ext k' = k_ext k" "k_full k' = k_full k" "callbacks k' = callbacks k" "k_iocb k' = (k_iocb k)(i := f (k_iocb k i))"
    and bd: "\<And>b. k_bd_iocb k' b \<noteq> k_bd_iocb k b \<Longrightarrow> (\<forall>l. b \<noteq> Cb_data l) \<and> (\<forall>l. k_bd_iocb k b = Some l \<longrightarrow> l = i)"
    and f: "ci_conn (f (k_iocb k i)) = None" "m_opcode (ci_cmd (f (k_iocb k i))) = m_opcode (ci_cmd (k_iocb k i))"
      "ci_arg (f (k_iocb k i)) = ci_arg (k_iocb k i)"
  shows "loose i k'" "comps_inv k'" "client_calm k'" "tally k' = tally k" "i \<notin> set (comps (k_bd_iocb k') (k_queue k'))"
proof -
  have p: "places_inv k" "comps_inv k" using inv by (simp_all add: client_inv_def)
  note L = land [where f = f, OF p(1) i(1) f(1,2)] and cong = places_cong [of k' "upd_iocb i f k"]
  have fl: "flying k' = flying k - {i}" using cong(3) L(2) s by simp
  show "loose i k'" using cong(2) L(1) s by simp
  show c: "comps_inv k'" by (rule comps_keep [OF p(2), where ext = "[]" and i = i]) (use s fl i in \<open>auto dest: bd\<close>)
  show "client_calm k'" by (rule client_calm_cong [OF calm s(5,6)])
  show "tally k' = tally k" by (rule tally_cong) (use s f in simp_all)
  show "i \<notin> set (comps (k_bd_iocb k') (k_queue k'))" using comps_flying [OF c] fl by blast
qed

lemma READ_WRITE_not_HEARTBEAT: "x \<in> {S5_OP_READ, S5_OP_WRITE} \<Longrightarrow> x \<noteq> S5_OP_HEARTBEAT"
  by (auto simp: op_code_values)

lemma pop_ok:
  assumes "client_inv k" and "client_calm k" and "k_queue k = ev # q" and "ev_req ev = []"
  shows "client_inv (k\<lparr>k_queue := q\<rparr>)" "client_calm (k\<lparr>k_queue := q\<rparr>)" "tally (k\<lparr>k_queue := q\<rparr>) = tally k"
    "flying (k\<lparr>k_queue := q\<rparr>) = flying k"
proof -
  show "client_inv (k\<lparr>k_queue := q\<rparr>)" using assms places_cong(1) [of "k\<lparr>k_queue := q\<rparr>" k] comps_tl [of k ev q] by (simp add: client_inv_def)
  show "client_calm (k\<lparr>k_queue := q\<rparr>)" by (rule client_calm_cong [OF assms(2)]) simp_all
  show "tally (k\<lparr>k_queue := q\<rparr>) = tally k" by (rule tally_cong) (simp_all add: callbacks_def)
  show "flying (k\<lparr>k_queue := q\<rparr>) = flying k" by (simp add: flying_def)
qed

text \<open>Changes of fields that neither places nor completions depend on, and new events that are no completions.\<close>

definition isame :: "client \<Rightarrow> client \<Rightarrow> bool" where
  "isame k k' \<longleftrightarrow> k_pool k' = k_pool k \<and> k_bd_iocb k' = k_bd_iocb k \<and> k_reply k' = k_reply k \<and> callbacks k' = callbacks k \<and>
     k_ext k' = k_ext k \<and> k_full k' = k_full k \<and> (\<forall>j. ci_conn (k_iocb k' j) = ci_conn (k_iocb k j) \<and>
     ci_sent_time (k_iocb k' j) = ci_sent_time (k_iocb k j) \<and> ci_reply (k_iocb k' j) = ci_reply (k_iocb k j) \<and>
     ci_arg (k_iocb k' j) = ci_arg (k_iocb k j) \<and> m_opcode (ci_cmd (k_iocb k' j)) = m_opcode (ci_cmd (k_iocb k j)))"

lemma isame_trans: "isame a b \<Longrightarrow> isame b c \<Longrightarrow> isame a c"
  unfolding isame_def by simp

lemma isame_ok:
  assumes inv: "client_inv k" and calm: "client_calm k" and s: "isame k k'" and q: "k_queue k' = k_queue k @ ext"
      "\<forall>ev \<in> set ext. case ev of Cl_io_complete _ _ \<Rightarrow> False | Cl_io_timeout i \<Rightarrow> i < p_slots (k_pool k) | _ \<Rightarrow> True"
    and r: "reqs (k_queue k') @ k_waiting k' = reqs (k_queue k) @ k_waiting k"
  shows "client_inv k'" "client_calm k'" "tally k' = tally k"
proof -
  have p: "places_inv k" "comps_inv k" using inv by (simp_all add: client_inv_def)
  have fl: "flying k' = flying k" and "places_inv k'" using p places_cong(1,3) [of k' k] s r by (simp_all add: isame_def)
  moreover have "p_slots (k_pool k) \<notin> set (comps (k_bd_iocb k) (k_queue k))" using comps_flying [OF p(2)] by (auto simp: flying_def)
  then have "comps_inv k'" by (rule comps_keep [OF p(2) q]) (use s fl in \<open>simp_all add: isame_def\<close>)
  ultimately show "client_inv k'" by (simp add: client_inv_def)
  show "client_calm k'" by (rule client_calm_cong [OF calm]) (use s in \<open>simp_all add: isame_def\<close>)
  show "tally k' = tally k" by (rule tally_cong) (use s in \<open>simp_all add: isame_def\<close>)
qed

text \<open>A request without a place is put into the queue.\<close>

lemma requeue_ok:
  assumes l: "loose i k" and c: "comps_inv k" "client_calm k" and ni: "i \<notin> set (comps (k_bd_iocb k) (k_queue k))"
    and s: "isame k k'" "k_queue k' = k_queue k @ [Cl_io_req i]" "k_waiting k' = k_waiting k"
  shows "client_inv k'" "client_calm k'" "tally k' = tally k"
proof -
  let ?k = "k\<lparr>k_queue := k_queue k @ [Cl_io_req i]\<rparr>"
  have fl: "flying k' = flying k" using s(1) by (simp add: flying_def isame_def)
  have "places_inv k'" using loose_post [OF l] places_cong(1) [of k' ?k] s by (simp add: isame_def)
  moreover have "comps_inv k'" by (rule comps_keep [OF c(1) s(2) _ ni]) (use s(1) fl in \<open>simp_all add: isame_def\<close>)
  ultimately show "client_inv k'" by (simp add: client_inv_def)
  show "client_calm k'" by (rule client_calm_cong [OF c(2)]) (use s in \<open>simp_all add: isame_def\<close>)
  show "tally k' = tally k" by (rule tally_cong) (use s in \<open>simp_all add: isame_def\<close>)
qed

lemma client_do_complete_end:
  assumes inv: "client_inv k" and calm: "client_calm k" and q: "k_queue k = Cl_io_complete st bd # q"
    and st: "st = 0" "k_bd_iocb k bd = Some i" "i \<in> flying k" "ci_reply (k_iocb k i) = Some (Cb_reply b)" "k_bd_iocb k (Cb_reply b) = Some i"
    and no: "r_status (k_reply k (Cb_reply b)) AND MSG_STATUS_REOPEN = 0"
  shows "good_step {} (tally k) (client_do_complete st bd now (k\<lparr>k_queue := q\<rparr>))"
proof -
  define k0 where "k0 = k\<lparr>k_queue := q\<rparr>"
  note o = st no
  have P: "client_inv k0" "client_calm k0" "tally k0 = tally k" "flying k0 = flying k"
    unfolding k0_def by (rule pop_ok [OF inv calm q]; simp)+
  have i: "i \<in> flying k0" "i \<notin> set (comps (k_bd_iocb k0) (k_queue k0))"
    using inv o q P(4) by (simp_all add: client_inv_def comps_inv_def k0_def)
  obtain c where c: "ci_conn (k_iocb k i) = Some c" using o(3) by (auto simp: flying_def)
  have "i \<in> busy k" using inv o(3) by (simp add: client_inv_def places_inv_def)
  then have nh: "m_opcode (ci_cmd (k_iocb k i)) \<noteq> S5_OP_HEARTBEAT"
    using inv by (intro READ_WRITE_not_HEARTBEAT) (simp add: client_inv_def places_inv_def)
  define f where "f = (\<lambda>x::client_iocb. x\<lparr>ci_reply := None, ci_sent_time := 0, ci_conn := None\<rparr>)"
  define k1 where "k1 = upd_iocb i (\<lambda>x. x\<lparr>ci_reply := None, ci_sent_time := 0\<rparr>) (reply_free (Cb_reply b) k0)"
  define k2 where "k2 = upd_iocb i (\<lambda>x. x\<lparr>ci_conn := None\<rparr>) (pf_conn_dec_ref client_on_close c k1)"
  define k3 where "k3 = (if m_opcode (ci_cmd (k_iocb k i)) = S5_OP_READ
     then kact (Cl_user_data (ci_arg (k_iocb k i)) (if ci_iov (k_iocb k i) = [] then [ci_data (k_iocb k i)]
       else split_bytes (ci_iov (k_iocb k i)) (ci_data (k_iocb k i)))) k2 else k2)"
  have r: "release_conn i k1 = Inr k2" using c by (simp add: release_conn_def k2_def k1_def k0_def reply_free_def)
  have D: "client_do_complete st bd now k0 =
      free_iocb i (kact (Cl_callback (ci_arg (k_iocb k i)) (int (unat (r_status (k_reply k (Cb_reply b)))))) k3)"
    unfolding client_do_complete_def Let_def free_act using o nh r by (simp add: k0_def k1_def k3_def)
  have e: "ksame k1 (pf_conn_dec_ref client_on_close c k1)" by (rule clconn.same_dec_ref)
  note e = e [unfolded ksame_def]
  have k3: "k_pool k3 = k_pool k0" "k_queue k3 = k_queue k0" "k_waiting k3 = k_waiting k0" "k_reply k3 = k_reply k0"
      "k_ext k3 = k_ext k0" "k_full k3 = k_full k0" "callbacks k3 = callbacks k0" "k_iocb k3 = (k_iocb k0)(i := f (k_iocb k0 i))"
      "k_bd_iocb k3 = (k_bd_iocb k0)(Cb_reply b := None)"
    using e by (auto simp: k3_def k2_def k1_def reply_free_def f_def callbacks_def fun_upd_def)
  have L: "loose i k3" "comps_inv k3" "client_calm k3" "tally k3 = tally k0" "i \<notin> set (comps (k_bd_iocb k3) (k_queue k3))"
    by (rule land_ok [where f = f, OF P(1,2) i k3(1-8)]; use o k3(9) in \<open>simp add: f_def k0_def split: if_splits\<close>)+
  have a: "ci_arg (k_iocb k i) = ci_arg (k_iocb k3 i)" using k3(8) by (simp add: f_def k0_def)
  obtain k' where "free_iocb i (kact (Cl_callback (ci_arg (k_iocb k i)) (int (unat (r_status (k_reply k (Cb_reply b)))))) k3) = Inr k'"
      "client_inv k'" "client_calm k'" "tally k' = tally k3" "k_state k' = k_state k3" "k_meta_ver k' = k_meta_ver k3"
    using call_and_free [OF L(1,2,3,5) a] .
  then show ?thesis using D L(4) P(3) unfolding k0_def [symmetric] by (simp add: good_step_def)
qed

lemma post_reopen:
  assumes inv: "client_inv k" and calm: "client_calm k"
    and k': "k' = (if b then snd (client_post (Cl_reopen_volume t) k) else k)"
  shows "client_inv k'" "client_calm k'" "tally k' = tally k" "ksame (k\<lparr>k_queue := k_queue k'\<rparr>) k'"
    "flying k' = flying k" "comps (k_bd_iocb k') (k_queue k') = comps (k_bd_iocb k) (k_queue k)"
proof -
  let ?ext = "if b then [Cl_reopen_volume t] else []"
  have s: "isame k k'" "k_queue k' = k_queue k @ ?ext" "k_waiting k' = k_waiting k"
    by (simp_all add: k' calm_post [OF calm] isame_def callbacks_def)
  show "client_inv k'" "client_calm k'" "tally k' = tally k" by (rule isame_ok [OF inv calm s(1,2)]; use s in simp)+
  show "ksame (k\<lparr>k_queue := k_queue k'\<rparr>) k'" by (simp add: k' calm_post [OF calm] ksame_def)
  show "flying k' = flying k" by (simp add: k' calm_post [OF calm] flying_def)
  show "comps (k_bd_iocb k') (k_queue k') = comps (k_bd_iocb k) (k_queue k)" by (simp add: k' calm_post [OF calm])
qed

text \<open>A reply that asks to open the volume again: the request goes back to the queue.\<close>

lemma client_do_complete_again:
  assumes inv: "client_inv k" and calm: "client_calm k" and q: "k_queue k = Cl_io_complete st (Cb_reply b) # q"
    and o: "st = 0" "k_bd_iocb k (Cb_reply b) = Some i" "i \<in> flying k" "ci_reply (k_iocb k i) = Some (Cb_reply b)"
      "r_status (k_reply k (Cb_reply b)) AND MSG_STATUS_REOPEN \<noteq> 0"
  shows "good_step {} (tally k) (client_do_complete st (Cb_reply b) now (k\<lparr>k_queue := q\<rparr>))"
proof -
  define k0 where "k0 = k\<lparr>k_queue := q\<rparr>"
  have P: "client_inv k0" "client_calm k0" "tally k0 = tally k" "flying k0 = flying k"
    unfolding k0_def by (rule pop_ok [OF inv calm q]; simp)+
  have i0: "i \<notin> set (comps (k_bd_iocb k0) (k_queue k0))" using inv o q by (simp add: client_inv_def comps_inv_def k0_def)
  define k1 where "k1 = (if k_meta_ver k0 < int (unat (r_meta_ver (k_reply k0 (Cb_reply b)))) then snd (client_post (Cl_reopen_volume now) k0) else k0)"
  note R = post_reopen [OF P(1,2) k1_def]
  have i: "i \<in> flying k1" "i \<notin> set (comps (k_bd_iocb k1) (k_queue k1))" using R(5,6) P(4) o(3) i0 by simp_all
  note e1 = R(4) [unfolded ksame_def]
  have io: "k_iocb k1 = k_iocb k" "k_bd_iocb k1 = k_bd_iocb k" using e1 by (simp_all add: k0_def)
  obtain c where c: "ci_conn (k_iocb k i) = Some c" using o(3) by (auto simp: flying_def)
  define f where "f = (\<lambda>x::client_iocb. x\<lparr>ci_conn := None\<rparr>)"
  define kd where "kd = pf_conn_dec_ref client_on_close c k1"
  define k2 where "k2 = upd_iocb i f kd"
  have r: "release_conn i k1 = Inr k2" using c io by (simp add: release_conn_def k2_def kd_def f_def)
  define k3 where "k3 = k2\<lparr>k_bd_iocb := (k_bd_iocb k2)(Cb_reply b := None)\<rparr>"
  have "ksame k1 kd" unfolding kd_def by (rule clconn.same_dec_ref)
  note e = this [unfolded ksame_def]
  have k3: "k_pool k3 = k_pool k1" "k_queue k3 = k_queue k1" "k_waiting k3 = k_waiting k1" "k_reply k3 = k_reply k1"
      "k_ext k3 = k_ext k1" "k_full k3 = k_full k1" "callbacks k3 = callbacks k1" "k_iocb k3 = (k_iocb k1)(i := f (k_iocb k1 i))"
      "k_bd_iocb k3 = (k_bd_iocb k1)(Cb_reply b := None)"
    using e by (simp_all add: k3_def k2_def callbacks_def)
  have L: "loose i k3" "comps_inv k3" "client_calm k3" "tally k3 = tally k1" "i \<notin> set (comps (k_bd_iocb k3) (k_queue k3))"
    by (rule land_ok [where f = f, OF R(1,2) i k3(1-8)]; use o io k3(9) in \<open>simp add: f_def split: if_splits\<close>)+
  define k' where "k' = reply_free (Cb_reply b) (snd (client_post (Cl_io_req i) k2))"
  have c2: "client_calm k2" using L(3) by (simp add: client_calm_def k3_def)
  have s: "isame k3 k'" "k_queue k' = k_queue k3 @ [Cl_io_req i]" "k_waiting k' = k_waiting k3"
    by (simp_all add: k'_def k3_def calm_post [OF c2] reply_free_def isame_def callbacks_def)
  have "client_do_complete st (Cb_reply b) now k0 = bnd (release_conn i k1) (\<lambda>k2. Inr (reply_free (Cb_reply b) (snd (client_post (Cl_io_req i) k2))))"
    using o by (simp add: client_do_complete_def Let_def k1_def k0_def)
  then have "client_do_complete st (Cb_reply b) now k0 = Inr k'" using r by (simp add: k'_def)
  moreover have "client_inv k'" "client_calm k'" "tally k' = tally k3" by (rule requeue_ok [OF L(1,2,3,5) s])+
  ultimately show ?thesis using L(4) R(3) P(3) unfolding k0_def [symmetric] by (simp add: good_step_def)
qed

lemma client_do_complete_ok:
  assumes inv: "client_inv k" and calm: "client_calm k" and q: "k_queue k = Cl_io_complete st bd # q"
  shows "good_step {} (tally k) (client_do_complete st bd now (k\<lparr>k_queue := q\<rparr>))"
proof -
  have "comp_ok k (Cl_io_complete st bd)" using inv q by (simp add: client_inv_def comps_inv_def)
  then obtain i b where o: "st = 0" "k_bd_iocb k bd = Some i" "i \<in> flying k" "ci_reply (k_iocb k i) = Some (Cb_reply b)"
      "k_bd_iocb k (Cb_reply b) = Some i" and r: "r_status (k_reply k (Cb_reply b)) AND MSG_STATUS_REOPEN = 0 \<or> bd = Cb_reply b" by auto
  show ?thesis
  proof (cases "r_status (k_reply k (Cb_reply b)) AND MSG_STATUS_REOPEN = 0")
    case True
    then show ?thesis by (rule client_do_complete_end [OF inv calm q o])
  next
    case False
    then have bd: "bd = Cb_reply b" using r by blast
    show ?thesis unfolding bd by (rule client_do_complete_again [OF inv calm q [unfolded bd] o(1,5,3,4) False])
  qed
qed

lemma resend_io_eq:
  assumes "client_calm k"
  obtains k' where "resend_io i k = (0, k')" and "isame k k'" and "k_queue k' = k_queue k @ [Cl_io_req i]" and "k_waiting k' = k_waiting k"
  using assms that by (simp add: resend_io_def calm_post [unfolded client_calm_def] client_calm_def isame_def callbacks_def client_post_def Let_def)

lemma client_io_timeout_ok:
  assumes inv: "client_inv k" and calm: "client_calm k" and q: "k_queue k = Cl_io_timeout i # q"
  shows "good_step {Null_deref} (tally k) (client_io_timeout i now (k\<lparr>k_queue := q\<rparr>))"
proof -
  define k0 where "k0 = k\<lparr>k_queue := q\<rparr>"
  have P: "client_inv k0" "client_calm k0" "tally k0 = tally k" "flying k0 = flying k"
    unfolding k0_def by (rule pop_ok [OF inv calm q]; simp)+
  have ip: "i < p_slots (k_pool k0)" and ni: "i \<notin> set (comps (k_bd_iocb k0) (k_queue k0))"
    using inv q by (simp_all add: client_inv_def comps_inv_def k0_def)
  have pl: "places_inv k0" using P(1) by (simp add: client_inv_def)
  show ?thesis unfolding k0_def [symmetric]
  proof (cases "k_state k0 = VOLUME_OPENED \<and> ci_sent_time (k_iocb k0 i) \<noteq> 0 \<and> now > ci_sent_time (k_iocb k0 i) + k_io_timeout k0 * 1000000")
    case False
    then have "client_io_timeout i now k0 = Inr k0" by (auto simp: client_io_timeout_def Let_def)
    then show "good_step {Null_deref} (tally k) (client_io_timeout i now k0)" using P by (simp add: good_step_def)
  next
    case sent: True
    have nh: "m_opcode (ci_cmd (k_iocb k0 i)) \<noteq> S5_OP_HEARTBEAT" using pl ip sent by (intro READ_WRITE_not_HEARTBEAT) (simp add: places_inv_def)
    show "good_step {Null_deref} (tally k) (client_io_timeout i now k0)"
    proof (cases "ci_conn (k_iocb k0 i)")
      case None
      then have "client_io_timeout i now k0 = Inl Null_deref" using sent nh by (simp add: client_io_timeout_def Let_def)
      then show ?thesis by (simp add: good_step_def)
    next
      case c: (Some c)
      then have fl: "i \<in> flying k0" using ip by (simp add: flying_def)
      define f where "f = (\<lambda>x::client_iocb. x\<lparr>ci_sent_time := 0, ci_conn := None\<rparr>)"
      define k1 where "k1 = pf_conn_dec_ref client_on_close c (conn_close client_on_close c k0)"
      define k2 where "k2 = upd_iocb i f k1"
      have "ksame k0 k1" unfolding k1_def by (rule clconn.same_trans [OF clconn.same_close clconn.same_dec_ref])
      note e = this [unfolded ksame_def]
      have L: "loose i k2" "comps_inv k2" "client_calm k2" "tally k2 = tally k0" "i \<notin> set (comps (k_bd_iocb k2) (k_queue k2))"
        by (rule land_ok [where f = f, OF P(1,2) fl ni]; use e in \<open>simp add: k2_def f_def callbacks_def\<close>)+
      obtain k' where r: "resend_io i k2 = (0, k')" "isame k2 k'" "k_queue k' = k_queue k2 @ [Cl_io_req i]" "k_waiting k' = k_waiting k2"
        using resend_io_eq [OF L(3)] .
      have "client_io_timeout i now k0 = Inr k'" using sent c nh r(1) unfolding client_io_timeout_def Let_def
        by (simp add: k2_def k1_def f_def)
      moreover have "client_inv k'" "client_calm k'" "tally k' = tally k2" by (rule requeue_ok [OF L(1,2,3,5) r(2,3,4)])+
      ultimately show ?thesis using L(4) P(3) by (simp add: good_step_def)
    qed
  qed
qed

lemma resend_all:
  "client_calm k \<Longrightarrow> isame k (fold (\<lambda>i x. snd (resend_io i x)) ws k) \<and>
     k_queue (fold (\<lambda>i x. snd (resend_io i x)) ws k) = k_queue k @ map Cl_io_req ws \<and>
     k_waiting (fold (\<lambda>i x. snd (resend_io i x)) ws k) = k_waiting k"
proof (induction ws arbitrary: k)
  case Nil
  then show ?case by (simp add: isame_def)
next
  case (Cons i ws)
  obtain k' where k': "resend_io i k = (0, k')" "isame k k'" "k_queue k' = k_queue k @ [Cl_io_req i]" "k_waiting k' = k_waiting k"
    using resend_io_eq [OF Cons.prems] .
  have "client_calm k'" using Cons.prems k'(2) by (simp add: client_calm_def isame_def)
  note IH = Cons.IH [OF this]
  show ?case using k' IH isame_trans [OF k'(2), of "fold (\<lambda>i x. snd (resend_io i x)) ws k'"] by simp
qed

lemma reqs_map: "reqs (map Cl_io_req ws) = ws"
  by (induction ws) simp_all

lemma reopen_volume_ok:
  assumes inv: "client_inv k" and calm: "client_calm k"
  shows "good_step {} (tally k) (Inr (reopen_volume now k))"
proof -
  obtain rc k1 where d: "do_reopen now k = (rc, k1)" by (rule prod.exhaust)
  have s: "isame k k1" "k_queue k1 = k_queue k" "k_waiting k1 = k_waiting k"
    using d by (auto simp: do_reopen_def Let_def isame_def callbacks_def split: prod.splits if_splits)
  define k' where "k' = reopen_volume now k"
  have "\<exists>ext. isame k k' \<and> k_queue k' = k_queue k @ ext \<and> (\<forall>ev \<in> set ext. \<exists>i. ev = Cl_io_req i) \<and> reqs (k_queue k') @ k_waiting k' = reqs (k_queue k) @ k_waiting k"
  proof (cases "rc = 0")
    case False
    have "isame k k' \<and> k_queue k' = k_queue k @ [] \<and> k_waiting k' = k_waiting k"
      using False s d by (simp add: k'_def reopen_volume_def isame_def callbacks_def)
    then show ?thesis by (intro exI [of _ "[]"]) simp
  next
    case True
    define k2 where "k2 = k1\<lparr>k_state := VOLUME_OPENED, k_waiting := []\<rparr>"
    have s2: "isame k k2" using s(1) by (simp add: k2_def isame_def callbacks_def)
    have "client_calm k2" using calm s2 by (simp add: client_calm_def isame_def)
    note R = resend_all [OF this, of "k_waiting k1"]
    have "k' = fold (\<lambda>i x. snd (resend_io i x)) (k_waiting k1) k2" using True d by (simp add: k'_def reopen_volume_def k2_def)
    then have "isame k k' \<and> k_queue k' = k_queue k @ map Cl_io_req (k_waiting k) \<and> k_waiting k' = []"
      using R isame_trans [OF s2, of k'] s by (simp add: k2_def)
    then show ?thesis by (intro exI [of _ "map Cl_io_req (k_waiting k)"]) (auto simp: reqs_map)
  qed
  then obtain ext where X: "isame k k'" "k_queue k' = k_queue k @ ext" "\<forall>ev \<in> set ext. \<exists>i. ev = Cl_io_req i"
      "reqs (k_queue k') @ k_waiting k' = reqs (k_queue k) @ k_waiting k" by (elim exE conjE)
  have "\<forall>ev \<in> set ext. case ev of Cl_io_complete _ _ \<Rightarrow> False | Cl_io_timeout i \<Rightarrow> i < p_slots (k_pool k) | _ \<Rightarrow> True" using X(3) by auto
  note ok = isame_ok [OF inv calm X(1,2) this X(4)]
  show ?thesis unfolding k'_def [symmetric] using ok by (simp add: good_step_def)
qed

lemma heartbeats_ok: "heartbeats cs n k = Inr k' \<Longrightarrow> ksame k k'"
proof (induction cs n k rule: heartbeats.induct)
  case (2 ip c rest n k)
  define k1 where "k1 = k\<lparr>cs_ip_map := AList.delete ip (cs_ip_map k)\<rparr>"
  have 1: "ksame k (conn_close client_on_close c k1)" by (rule clconn.same_trans [OF _ clconn.same_close]) (simp add: ksame_def k1_def)
  show ?case
  proof (cases "\<not> rc_ok (cs_conn k c) \<or> rc_heartbeat (cs_conn k c) > 2")
    case True
    then have "ksame (conn_close client_on_close c k1) k'" using 2 by (simp add: k1_def)
    then show ?thesis by (rule clconn.same_trans [OF 1])
  next
    case False
    then show ?thesis using 2 by (simp split: if_splits)
  qed
qed (simp add: clconn.same_refl)

lemma heartbeat_once_ok: "heartbeat_once k = Inr k' \<Longrightarrow> ksame k k'"
  using heartbeats_ok [of "cs_ip_map k" 0 "k\<lparr>k_next_hb := k_next_hb k mod length (cs_ip_map k)\<rparr>" k']
  by (auto simp: heartbeat_once_def ksame_def split: if_splits)

lemma good_stepI: "client_inv k' \<Longrightarrow> client_calm k' \<Longrightarrow> tally k' = m \<Longrightarrow> good_step F m (Inr k')"
  by (simp add: good_step_def)

text \<open>The events that concern no single request.\<close>

fun volume_event :: "client_event \<Rightarrow> bool" where
  "volume_event (Cl_reopen_volume t) = True"
| "volume_event Cl_volume_reconnect = True"
| "volume_event Cl_send_heartbeat = True"
| "volume_event (Cl_other n) = True"
| "volume_event _ = False"

lemma post_other:
  assumes "client_inv k" and "client_calm k" and "volume_event ev"
  shows "good_step F (tally k) (Inr (snd (client_post ev k)))"
  using isame_ok [of k "snd (client_post ev k)" "[ev]"] assms
  by (intro good_stepI) (cases ev; simp add: calm_post isame_def callbacks_def)+

lemma client_process_event_ok:
  assumes inv: "client_inv k" and calm: "client_calm k" and q: "k_queue k = ev # q"
  shows "good_step {Logic_error, Out_of_bounds, Null_deref, Fatal_exit} (tally k) (client_process_event ev now (k\<lparr>k_queue := q\<rparr>))"
proof (cases ev)
  case (Cl_io_req i)
  then show ?thesis using good_step_mono [OF client_io_req_ok [OF inv calm, of i q now]] q by (simp add: client_process_event_def)
next
  case (Cl_io_complete st bd)
  then show ?thesis using good_step_mono [OF client_do_complete_ok [OF inv calm, of st bd q now]] q by (simp add: client_process_event_def)
next
  case (Cl_io_timeout i)
  then show ?thesis using good_step_mono [OF client_io_timeout_ok [OF inv calm, of i q now]] q by (simp add: client_process_event_def)
next
  case (Cl_reopen_volume t)
  note P = pop_ok [OF inv calm q, unfolded Cl_reopen_volume]
  show ?thesis using P reopen_volume_ok [of "k\<lparr>k_queue := q\<rparr>" now] Cl_reopen_volume
    by (auto simp: client_process_event_def intro: good_step_mono good_stepI)
next
  case Cl_volume_reconnect
  note P = pop_ok [OF inv calm q, unfolded Cl_volume_reconnect]
  show ?thesis using P post_other [of "k\<lparr>k_queue := q\<rparr>"] Cl_volume_reconnect by (simp add: client_process_event_def good_stepI)
next
  case Cl_send_heartbeat
  note P = pop_ok [OF inv calm q, unfolded Cl_send_heartbeat]
  let ?k = "k\<lparr>k_queue := q\<rparr>"
  show ?thesis
  proof (cases "heartbeat_once ?k")
    case (Inl f)
    have "heartbeats cs n x = Inl f \<Longrightarrow> f = Fatal_exit" for cs n x
      by (induction cs n x rule: heartbeats.induct) (auto split: if_splits)
    then show ?thesis using Inl Cl_send_heartbeat by (auto simp: client_process_event_def heartbeat_once_def good_step_def split: if_splits)
  next
    case (Inr k')
    then have "ksame ?k k'" by (rule heartbeat_once_ok)
    note C = client_inv_cong [OF P(1,2) this]
    show ?thesis using C P(3) Inr Cl_send_heartbeat by (simp add: client_process_event_def good_stepI)
  qed
next
  case (Cl_other n)
  then show ?thesis using pop_ok [OF inv calm q] by (simp add: client_process_event_def good_stepI)
qed

section \<open>Submissions, timer and network\<close>

lemma submit_slot:
  assumes inv: "client_inv k" and calm: "client_calm k" and al: "pool_alloc (k_pool k) = (Some i, p)"
    and k1: "k1 = fill_slot i iov bytes n offset arg is_write now (k\<lparr>k_pool := p\<rparr>)"
  shows "fst (client_post (Cl_io_req i) k1) = 0"
    "good_step {} (add_mset arg (tally k)) (Inr (snd (client_post (Cl_io_req i) k1)))"
proof -
  define f where "f = (\<lambda>x::client_iocb. x\<lparr>ci_arg := arg, ci_submit_time := now, ci_iov := iov, ci_data := bytes,
       ci_cmd := (ci_cmd x)\<lparr>m_opcode := (if is_write then S5_OP_WRITE else S5_OP_READ), m_vol_id := k_volume_id k,
         m_buf_addr := of_nat i, m_rkey := 0, m_offset := offset, m_length := of_nat n, m_snap_seq := k_snap_seq k\<rparr>\<rparr>)"
  have k1: "k1 = upd_iocb i f (k\<lparr>k_pool := p\<rparr>)" by (simp add: k1 fill_slot_def f_def)
  have pc: "places_inv k" "comps_inv k" using inv by (simp_all add: client_inv_def)
  have A: "loose i k1" "pending k1 = add_mset (ci_arg (f (k_iocb k i))) (pending k)" "flying k1 = flying k" "i \<notin> flying k" "p_slots p = p_slots (k_pool k)"
    unfolding k1 by (rule loose_alloc [where f = f, OF pc(1) al]; simp add: f_def)+
  have ni: "i \<notin> set (comps (k_bd_iocb k) (k_queue k))" using comps_flying [OF pc(2)] A(4) by blast
  have c1: "comps_inv k1" by (rule comps_keep [OF pc(2) _ _ ni, where ext = "[]"]) (use A(3,5) in \<open>simp_all add: k1 f_def\<close>)
  have calm1: "client_calm k1" by (rule client_calm_cong [OF calm]) (simp_all add: k1)
  have t: "tally k1 = add_mset arg (tally k)" using A(2) by (simp add: tally_def callbacks_def k1 f_def)
  let ?k = "snd (client_post (Cl_io_req i) k1)"
  show "fst (client_post (Cl_io_req i) k1) = 0" by (simp add: calm_post [OF calm1])
  have "i \<notin> set (comps (k_bd_iocb k1) (k_queue k1))" using ni by (simp add: k1)
  then have "client_inv ?k" "client_calm ?k" "tally ?k = tally k1"
    by (rule requeue_ok [OF A(1) c1 calm1]; simp add: calm_post [OF calm1] isame_def callbacks_def)+
  then show "good_step {} (add_mset arg (tally k)) (Inr ?k)" using t by (intro good_stepI) simp_all
qed

lemma pf_io_submit_ok:
  assumes inv: "client_inv k" and calm: "client_calm k" and s: "pf_io_submit buf n offset arg is_write now k = Inr (rc, k')"
  shows "good_step {} (if rc = 0 then add_mset arg (tally k) else tally k) (Inr k')"
proof (cases "pool_alloc (k_pool k)")
  case (Pair oi p)
  show ?thesis
  proof (cases "k' = k \<and> rc \<noteq> 0")
    case False
    obtain i where i: "oi = Some i" using s Pair False by (cases oi) (auto simp: pf_io_submit_def split: if_splits)
    let ?k1 = "fill_slot i [] (take n buf) n offset arg is_write now (k\<lparr>k_pool := p\<rparr>)"
    have "client_post (Cl_io_req i) ?k1 = (rc, k')"
      using s Pair False i by (auto simp: pf_io_submit_def split: if_splits)
    then show ?thesis using submit_slot [OF inv calm Pair [unfolded i] refl, where iov = "[]" and bytes = "take n buf" and n = n and offset = offset and arg = arg and is_write = is_write and now = now] by simp
  qed (use inv calm in \<open>auto intro: good_stepI\<close>)
qed

lemma pf_iov_submit_ok:
  assumes inv: "client_inv k" and calm: "client_calm k" and s: "pf_iov_submit iov n offset arg is_write now k = Inr (rc, k')"
  shows "good_step {} (if rc = 0 then add_mset arg (tally k) else tally k) (Inr k')"
proof (cases "pool_alloc (k_pool k)")
  case (Pair oi p)
  show ?thesis
  proof (cases "k' = k \<and> rc \<noteq> 0")
    case False
    obtain i where i: "oi = Some i" using s Pair False by (cases oi) (auto simp: pf_iov_submit_def split: if_splits)
    obtain bytes where "client_post (Cl_io_req i) (fill_slot i (map length iov) bytes n offset arg is_write now (k\<lparr>k_pool := p\<rparr>)) = (rc, k')"
      using s Pair False i by (auto simp: pf_iov_submit_def Let_def split: if_splits)
    then show ?thesis using submit_slot [OF inv calm Pair [unfolded i] refl, where iov = "map length iov" and bytes = bytes and n = n and offset = offset and arg = arg and is_write = is_write and now = now] by simp
  qed (use inv calm in \<open>auto intro: good_stepI\<close>)
qed

lemma timeout_fold:
  assumes "client_calm k" and "\<forall>i \<in> set is. i < p_slots (k_pool k)"
  shows "\<exists>ext. isame k (fold (timeout_one now) is k) \<and> k_queue (fold (timeout_one now) is k) = k_queue k @ ext \<and>
    (\<forall>ev \<in> set ext. \<exists>i. ev = Cl_io_timeout i \<and> i < p_slots (k_pool k)) \<and> k_waiting (fold (timeout_one now) is k) = k_waiting k"
  using assms
proof (induction "is" arbitrary: k)
  case Nil
  then show ?case by (intro exI [of _ "[]"]) (simp add: isame_def)
next
  case (Cons i js)
  define k1 where "k1 = timeout_one now i k"
  have s: "isame k k1" "k_waiting k1 = k_waiting k" using Cons.prems(1) by (simp_all add: k1_def timeout_one_def Let_def calm_post isame_def callbacks_def)
  have "k_queue k1 = k_queue k @ (if k_queue k1 = k_queue k then [] else [Cl_io_timeout i])"
    using Cons.prems(1) by (simp add: k1_def timeout_one_def Let_def calm_post)
  then obtain e where e: "k_queue k1 = k_queue k @ e" "set e \<subseteq> {Cl_io_timeout i}" by (cases "k_queue k1 = k_queue k") auto
  have "client_calm k1" "\<forall>i \<in> set js. i < p_slots (k_pool k1)" using Cons.prems s(1) by (simp_all add: client_calm_def isame_def)
  from Cons.IH [OF this] obtain ext where x: "isame k1 (fold (timeout_one now) js k1)" "k_queue (fold (timeout_one now) js k1) = k_queue k1 @ ext"
      "\<forall>ev \<in> set ext. \<exists>i. ev = Cl_io_timeout i \<and> i < p_slots (k_pool k1)" "k_waiting (fold (timeout_one now) js k1) = k_waiting k1"
    by (elim exE conjE)
  have "p_slots (k_pool k1) = p_slots (k_pool k)" using s(1) by (simp add: isame_def)
  then have "\<forall>ev \<in> set (e @ ext). \<exists>i. ev = Cl_io_timeout i \<and> i < p_slots (k_pool k)" using x(3) e(2) Cons.prems(2) by auto
  then show ?case using x e s isame_trans [OF s(1) x(1)] by (intro exI [of _ "e @ ext"]) (simp add: k1_def)
qed

lemma timeout_check_ok:
  assumes inv: "client_inv k" and calm: "client_calm k"
  shows "good_step {} (tally k) (Inr (timeout_check now k))"
proof -
  have "\<forall>i \<in> set [0..<nat (p_count (k_pool k))]. i < p_slots (k_pool k)" using inv by (simp add: client_inv_def places_inv_def)
  from timeout_fold [OF calm this, of now] obtain ext where x: "isame k (timeout_check now k)" "k_queue (timeout_check now k) = k_queue k @ ext"
      "\<forall>ev \<in> set ext. \<exists>i. ev = Cl_io_timeout i \<and> i < p_slots (k_pool k)" "k_waiting (timeout_check now k) = k_waiting k"
    unfolding timeout_check_def [symmetric] by (elim exE conjE)
  have c: "\<forall>ev \<in> set ext. case ev of Cl_io_complete _ _ \<Rightarrow> False | Cl_io_timeout i \<Rightarrow> i < p_slots (k_pool k) | _ \<Rightarrow> True" using x(3) by auto
  have "reqs ext = []" using x(3) by (auto simp: reqs_def)
  then show ?thesis using isame_ok [OF inv calm x(1,2) c] x(2,4) by (intro good_stepI) simp_all
qed

text \<open>A reply for the slot \<open>i\<close> can be taken: its request is in flight, has no completion yet, and no timeout of it is queued.\<close>

definition awaits :: "nat \<Rightarrow> client \<Rightarrow> bool" where
  "awaits i k \<longleftrightarrow> i \<in> flying k \<and> i \<notin> set (comps (k_bd_iocb k) (k_queue k)) \<and> Cl_io_timeout i \<notin> set (k_queue k)"

lemma take_reply:
  assumes inv: "client_inv k" and calm: "client_calm k" and i: "awaits i k" and b: "k_bd_iocb k (Cb_reply b) = None"
    and s: "k_pool k' = k_pool k" "k_queue k' = k_queue k" "k_waiting k' = k_waiting k" "k_reply k' = (k_reply k)(Cb_reply b := r)"
      "k_ext k' = k_ext k" "k_full k' = k_full k" "callbacks k' = callbacks k"
      "k_iocb k' = (k_iocb k)(i := (k_iocb k i)\<lparr>ci_reply := Some (Cb_reply b)\<rparr>)" "k_bd_iocb k' = (k_bd_iocb k)(Cb_reply b := Some i)"
  shows "client_inv k'" "client_calm k'" "tally k' = tally k" "awaits i k'"
proof -
  have p: "places_inv k" "comps_inv k" using inv by (simp_all add: client_inv_def)
  have ni: "i \<notin> set (comps (k_bd_iocb k) (k_queue k))" using i by (simp add: awaits_def)
  have fl: "flying k' = flying k" and "places_inv k'" using p(1) places_cong(1,3) [of k' k] s by simp_all
  moreover have "comps_inv k'" by (rule comps_keep [OF p(2) _ _ ni, where ext = "[]"]) (use s b fl in \<open>auto split: if_splits\<close>)
  ultimately show "client_inv k'" by (simp add: client_inv_def)
  have nb: "b' \<noteq> Cb_reply b" if "Cl_io_complete st b' \<in> set (k_queue k)" for st b'
    using p(2) b that by (force simp: comps_inv_def)
  have "comps (k_bd_iocb k') (k_queue k) = comps (k_bd_iocb k) (k_queue k)"
    by (rule conjunct1 [OF queue_cong]) (use nb s(9) in auto)
  then show "awaits i k'" using i s(2) fl by (simp add: awaits_def)
  show "client_calm k'" by (rule client_calm_cong [OF calm s(5,6)])
  show "tally k' = tally k" by (rule tally_cong) (use s in simp_all)
qed

lemma post_complete:
  assumes inv: "client_inv k" and calm: "client_calm k" and i: "awaits i k" "k_bd_iocb k bd = Some i" "ci_reply (k_iocb k i) = Some (Cb_reply b)"
      "k_bd_iocb k (Cb_reply b) = Some i" "r_status (k_reply k (Cb_reply b)) AND MSG_STATUS_REOPEN = 0 \<or> bd = Cb_reply b"
  shows "good_step {} (tally k) (Inr (snd (client_post (Cl_io_complete 0 bd) k)))"
proof -
  let ?k1 = "k\<lparr>k_queue := k_queue k @ [Cl_io_complete 0 bd]\<rparr>" and ?k2 = "snd (client_post (Cl_io_complete 0 bd) k)"
  have k2: "?k2 = ?k1\<lparr>k_full_cnt := k_full_cnt k + 1\<rparr>" by (simp add: calm_post [OF calm])
  have "comps_inv ?k1" by (rule comps_new [of k bd i b]) (use inv i in \<open>simp_all add: client_inv_def awaits_def\<close>)
  moreover have "places_inv ?k1" using inv places_cong(1) [of ?k1 k] by (simp add: client_inv_def)
  ultimately have 1: "client_inv ?k1" by (simp add: client_inv_def)
  have s: "ksame ?k1 ?k2" unfolding k2 by (simp add: ksame_def)
  have t: "tally ?k1 = tally k" by (rule tally_cong) (simp_all add: callbacks_def)
  have "client_calm ?k1" by (rule client_calm_cong [OF calm]) simp_all
  from client_inv_cong [OF 1 this s] show ?thesis by (intro good_stepI) (simp_all add: t)
qed

lemma pick_ok: "i \<in> flying k \<Longrightarrow> client_pick_iocb i seq k = Inr oi \<Longrightarrow> oi = None \<or> oi = Some i"
  by (simp add: client_pick_iocb_def split: if_splits)

lemma tcp_reply_ok:
  assumes inv: "client_inv k" and calm: "client_calm k" and i: "awaits (unat (r_command_id r)) k" and b: "k_bd_iocb k (Cb_reply b) = None"
    and d: "client_on_tcp_network_done c (Cb_reply b) True 0 (k\<lparr>k_reply := (k_reply k)(Cb_reply b := r)\<rparr>) = Inr (rc, k')"
  shows "good_step {} (tally k) (Inr k')"
proof -
  let ?i = "unat (r_command_id r)" and ?k0 = "k\<lparr>k_reply := (k_reply k)(Cb_reply b := r)\<rparr>"
  define k1 where "k1 = (upd_iocb ?i (\<lambda>x. x\<lparr>ci_reply := Some (Cb_reply b)\<rparr>) ?k0)\<lparr>k_bd_iocb := (k_bd_iocb ?k0)(Cb_reply b := Some ?i)\<rparr>"
  have R: "client_inv k1" "client_calm k1" "tally k1 = tally k" "awaits ?i k1"
    by (rule take_reply [OF inv calm i b, of _ r]; simp add: k1_def callbacks_def)+
  obtain oi where oi: "client_pick_iocb ?i (r_command_seq r) ?k0 = Inr oi"
    using d by (cases "client_pick_iocb ?i (r_command_seq r) ?k0") (simp_all add: client_on_tcp_network_done_def)
  moreover have "oi \<noteq> None" using d oi by (cases oi) (simp_all add: client_on_tcp_network_done_def)
  ultimately have "oi = Some ?i" using pick_ok [of ?i ?k0] i by (auto simp: awaits_def flying_def)
  then have "(rc, k') = (if m_opcode (ci_cmd (k_iocb k ?i)) = S5_OP_READ then (1, kact (Cl_recv_data c ?i) (conn_add_ref c k1))
       else client_post (Cl_io_complete 0 (Cb_reply b)) k1)"
    using d oi by (auto simp: client_on_tcp_network_done_def Let_def k1_def split: if_splits)
  then consider "k' = kact (Cl_recv_data c ?i) (conn_add_ref c k1)" | "k' = snd (client_post (Cl_io_complete 0 (Cb_reply b)) k1)"
    by (metis snd_conv)
  then show ?thesis
  proof cases
    case 1
    then show ?thesis using isame_ok [OF R(1,2), of k' "[]"] R(3) by (intro good_stepI) (simp_all add: isame_def conn_add_ref_def callbacks_def)
  next
    case 2
    then show ?thesis using post_complete [OF R(1,2,4), of "Cb_reply b" b] R(3) by (simp add: k1_def)
  qed
qed

lemma rdma_reply_ok:
  assumes inv: "client_inv k" and calm: "client_calm k" and i: "awaits (unat (r_command_id r)) k" and b: "k_bd_iocb k (Cb_reply b) = None"
    and d: "client_on_rdma_network_done c (Cb_reply b) True 0 (k\<lparr>k_reply := (k_reply k)(Cb_reply b := r)\<rparr>) = Inr (rc, k')"
  shows "good_step {} (tally k) (Inr k')"
proof -
  let ?i = "unat (r_command_id r)" and ?k0 = "k\<lparr>k_reply := (k_reply k)(Cb_reply b := r)\<rparr>"
  define k1 where "k1 = (upd_iocb ?i (\<lambda>x. x\<lparr>ci_reply := Some (Cb_reply b)\<rparr>) ?k0)\<lparr>k_bd_iocb := (k_bd_iocb ?k0)(Cb_reply b := Some ?i)\<rparr>"
  have R: "client_inv k1" "client_calm k1" "tally k1 = tally k" "awaits ?i k1"
    by (rule take_reply [OF inv calm i b, of _ r]; simp add: k1_def callbacks_def)+
  obtain oi where oi: "client_pick_iocb ?i (r_command_seq r) ?k0 = Inr oi"
    using d by (cases "client_pick_iocb ?i (r_command_seq r) ?k0") (simp_all add: client_on_rdma_network_done_def)
  moreover have "oi \<noteq> None" using d oi by (cases oi) (simp_all add: client_on_rdma_network_done_def)
  ultimately have "oi = Some ?i" using pick_ok [of ?i ?k0] i by (auto simp: awaits_def flying_def)
  then have "k' = snd (client_post (Cl_io_complete 0 (Cb_reply b)) k1)"
    using d oi by (simp add: client_on_rdma_network_done_def k1_def)
  then show ?thesis using post_complete [OF R(1,2,4), of "Cb_reply b" b] R(3) by (simp add: k1_def)
qed

lemma tcp_data_ok:
  assumes inv: "client_inv k" and calm: "client_calm k" and i: "awaits i k" "ci_reply (k_iocb k i) = Some (Cb_reply b)"
      "k_bd_iocb k (Cb_reply b) = Some i" "r_status (k_reply k (Cb_reply b)) AND MSG_STATUS_REOPEN = 0"
    and d: "client_on_tcp_network_done c (Cb_data i) True 0 (upd_iocb i (\<lambda>x. x\<lparr>ci_data := bytes\<rparr>) k) = Inr (rc, k')"
  shows "good_step {} (tally k) (Inr k')"
proof -
  define k0 where "k0 = upd_iocb i (\<lambda>x. x\<lparr>ci_data := bytes\<rparr>) k"
  have s: "isame k k0" by (simp add: isame_def k0_def callbacks_def)
  have 0: "client_inv k0" "client_calm k0" "tally k0 = tally k"
    by (rule isame_ok [OF inv calm s, where ext = "[]"]; simp add: k0_def)+
  have a: "awaits i k0" using i(1) by (simp add: awaits_def k0_def flying_def)
  have "k_bd_iocb k (Cb_data i) = Some i" using inv i(1) by (simp add: client_inv_def comps_inv_def awaits_def flying_def)
  then have "good_step {} (tally k0) (Inr (snd (client_post (Cl_io_complete 0 (Cb_data i)) k0)))"
    by (intro post_complete [OF 0(1,2) a]) (use i in \<open>simp_all add: k0_def\<close>)
  moreover have "k' = snd (client_post (Cl_io_complete 0 (Cb_data i)) k0) \<or> k' = k0"
    using d unfolding k0_def [symmetric] by (auto simp: client_on_tcp_network_done_def split: if_splits dest: arg_cong [where f = snd])
  ultimately show ?thesis using 0 by (auto intro: good_stepI)
qed

lemma tcp_sent_ok:
  assumes inv: "client_inv k" and calm: "client_calm k"
    and bd: "case bd of Cb_cmd i \<Rightarrow> True | Cb_data i \<Rightarrow> m_opcode (ci_cmd (k_iocb k i)) \<noteq> S5_OP_READ | Cb_reply _ \<Rightarrow> False"
    and d: "client_on_tcp_network_done c bd False 0 k = Inr (rc, k')"
  shows "good_step {} (tally k) (Inr k')"
proof -
  have "isame k k' \<and> k_queue k' = k_queue k \<and> k_waiting k' = k_waiting k"
    using bd d by (auto simp: client_on_tcp_network_done_def isame_def conn_add_ref_def callbacks_def split: client_bd.splits if_splits)
  then show ?thesis using isame_ok [OF inv calm, of k' "[]"] by (intro good_stepI) simp_all
qed

lemma net_failed_ok:
  assumes inv: "client_inv k" and calm: "client_calm k" and b: "k_bd_iocb k (Cb_reply b) = None" and st: "st \<noteq> 0"
    and d: "client_on_tcp_network_done c (Cb_reply b) True st k = Inr (rc, k')"
  shows "good_step {} (tally k) (Inr k')"
proof -
  have "k' = reply_free (Cb_reply b) k" using d st by (simp add: client_on_tcp_network_done_def)
  moreover have "(k_bd_iocb k)(Cb_reply b := None) = k_bd_iocb k" using b by auto
  ultimately have "isame k k' \<and> k_queue k' = k_queue k \<and> k_waiting k' = k_waiting k" by (simp add: reply_free_def isame_def callbacks_def)
  then show ?thesis using isame_ok [OF inv calm, of k' "[]"] by (intro good_stepI) simp_all
qed

section \<open>Runs\<close>

text \<open>
  The threads of the library interleave: the user submits, the thread of the volume takes the
  next event, the timer looks for requests that are too old, and the network completes
  buffers. Any thread may ask at any time to open the volume again, as the one that
  \<open>EVT_IO_REQ\<close> starts does after five seconds, to check the connections or to send
  heartbeats. The multiset holds the requests whose submission returned 0. A reply carries a
  request in flight, comes once, and comes before the timer has queued a timeout for it. It
  may have any status, also one that asks to open the volume again. The data of a read over
  TCP comes behind its reply, and only here the reply must not ask for this: then the
  library returns the data buffer to the pool of reply buffers, and a later request receives
  its reply into it. For the same reason the receive of a reply may fail and that of data not.
\<close>

inductive client_run :: "client \<Rightarrow> nat multiset \<Rightarrow> client \<Rightarrow> bool" for k where
  start: "client_run k {#} k"
| submit: "client_run k m k1 \<Longrightarrow> pf_io_submit buf n offset arg is_write now k1 = Inr (rc, k2)
    \<Longrightarrow> client_run k (if rc = 0 then add_mset arg m else m) k2"
| submitv: "client_run k m k1 \<Longrightarrow> pf_iov_submit iov n offset arg is_write now k1 = Inr (rc, k2)
    \<Longrightarrow> client_run k (if rc = 0 then add_mset arg m else m) k2"
| event: "client_run k m k1 \<Longrightarrow> k_queue k1 = ev # q \<Longrightarrow> client_process_event ev now (k1\<lparr>k_queue := q\<rparr>) = Inr k2
    \<Longrightarrow> client_run k m k2"
| timer: "client_run k m k1 \<Longrightarrow> client_run k m (timeout_check now k1)"
| posted: "client_run k m k1 \<Longrightarrow> volume_event ev \<Longrightarrow> client_run k m (snd (client_post ev k1))"
| sent: "client_run k m k1 \<Longrightarrow> case bd of Cb_cmd i \<Rightarrow> True | Cb_data i \<Rightarrow> m_opcode (ci_cmd (k_iocb k1 i)) \<noteq> S5_OP_READ | Cb_reply _ \<Rightarrow> False
    \<Longrightarrow> client_on_tcp_network_done c bd False 0 k1 = Inr (rc, k2) \<Longrightarrow> client_run k m k2"
| failed: "client_run k m k1 \<Longrightarrow> k_bd_iocb k1 (Cb_reply b) = None \<Longrightarrow> st \<noteq> 0
    \<Longrightarrow> client_on_tcp_network_done c (Cb_reply b) True st k1 = Inr (rc, k2) \<Longrightarrow> client_run k m k2"
| reply: "client_run k m k1 \<Longrightarrow> awaits (unat (r_command_id r)) k1 \<Longrightarrow> k_bd_iocb k1 (Cb_reply b) = None
    \<Longrightarrow> client_on_tcp_network_done c (Cb_reply b) True 0 (k1\<lparr>k_reply := (k_reply k1)(Cb_reply b := r)\<rparr>) = Inr (rc, k2)
    \<Longrightarrow> client_run k m k2"
| rdma_reply: "client_run k m k1 \<Longrightarrow> awaits (unat (r_command_id r)) k1 \<Longrightarrow> k_bd_iocb k1 (Cb_reply b) = None
    \<Longrightarrow> client_on_rdma_network_done c (Cb_reply b) True 0 (k1\<lparr>k_reply := (k_reply k1)(Cb_reply b := r)\<rparr>) = Inr (rc, k2)
    \<Longrightarrow> client_run k m k2"
| data: "client_run k m k1 \<Longrightarrow> awaits i k1 \<Longrightarrow> ci_reply (k_iocb k1 i) = Some (Cb_reply b) \<Longrightarrow> k_bd_iocb k1 (Cb_reply b) = Some i
    \<Longrightarrow> r_status (k_reply k1 (Cb_reply b)) AND MSG_STATUS_REOPEN = 0
    \<Longrightarrow> client_on_tcp_network_done c (Cb_data i) True 0 (upd_iocb i (\<lambda>x. x\<lparr>ci_data := bytes\<rparr>) k1) = Inr (rc, k2)
    \<Longrightarrow> client_run k m k2"

lemma good_stepD: "good_step F m (Inr k') \<Longrightarrow> client_inv k' \<and> client_calm k' \<and> tally k' = m"
  by (simp add: good_step_def)

lemma client_run_ok:
  assumes run: "client_run k m k'" and inv: "client_inv k" and calm: "client_calm k"
  shows "client_inv k' \<and> client_calm k' \<and> tally k' = m + tally k"
  using run
proof induction
  case start
  then show ?case using inv calm by simp
next
  case (submit m k1 buf n offset arg is_write now rc k2)
  then show ?case using good_stepD [OF pf_io_submit_ok, of k1 buf n offset arg is_write now rc k2] by simp
next
  case (submitv m k1 iov n offset arg is_write now rc k2)
  then show ?case using good_stepD [OF pf_iov_submit_ok, of k1 iov n offset arg is_write now rc k2] by simp
next
  case (event m k1 ev q now k2)
  then show ?case using client_process_event_ok [of k1 ev q now] by (simp add: good_step_def)
next
  case (timer m k1 now)
  then show ?case using good_stepD [OF timeout_check_ok, of k1 now] by simp
next
  case (posted m k1 ev)
  then show ?case using good_stepD [OF post_other, of k1 ev] by simp
next
  case (sent m k1 bd c rc k2)
  then show ?case using good_stepD [OF tcp_sent_ok, of k1 bd c rc k2] by simp
next
  case (failed m k1 b st c rc k2)
  then show ?case using good_stepD [OF net_failed_ok, of k1 b st c rc k2] by simp
next
  case (reply m k1 r b c rc k2)
  then show ?case using good_stepD [OF tcp_reply_ok, of k1 r b c rc k2] by simp
next
  case (rdma_reply m k1 r b c rc k2)
  then show ?case using good_stepD [OF rdma_reply_ok, of k1 r b c rc k2] by simp
next
  case (data m k1 i b c bytes rc k2)
  then show ?case using good_stepD [OF tcp_data_ok, of k1 i b c bytes rc k2] by simp
qed

section \<open>The state after the start\<close>

text \<open>The state of the loop of \<open>init\<close> before its turn \<open>j\<close> of \<open>n\<close>.\<close>

definition turn :: "nat \<Rightarrow> nat \<Rightarrow> client \<Rightarrow> bool" where
  "turn n j k \<longleftrightarrow> p_slots (k_pool k) = n \<and> p_count (k_pool k) = int n \<and> q_inv (p_free (k_pool k)) \<and> q_cap (p_free (k_pool k)) = n \<and>
     q_list (p_free (k_pool k)) = [j..<n] @ [0..<j] \<and>
     q_inv (k_cmd_pool k) \<and> q_list (k_cmd_pool k) = map Cb_cmd [j..<n] \<and> q_inv (k_data_pool k) \<and> q_list (k_data_pool k) = map Cb_data [j..<n] \<and>
     q_inv (k_reply_pool k) \<and> q_cap (k_reply_pool k) = n \<and> q_list (k_reply_pool k) = map Cb_reply ([j..<n] @ [0..<j]) \<and>
     (\<forall>i<j. m_command_id (ci_cmd (k_iocb k i)) = of_nat i \<and> k_bd_iocb k (Cb_data i) = Some i) \<and>
     (\<forall>i. ci_conn (k_iocb k i) = None \<and> ci_sent_time (k_iocb k i) = 0) \<and> k_queue k = [] \<and> k_waiting k = [] \<and> k_acts k = [] \<and> client_calm k"

lemma deq_head:
  "q_inv q \<Longrightarrow> q_list q = x # xs \<Longrightarrow> \<exists>q'. dequeue q = Inr (x, q') \<and> q_inv q' \<and> q_list q' = xs \<and> q_depth q' = q_depth q"
  by (rule dequeue_ok) blast+

lemma enq_tail:
  "q_inv q \<Longrightarrow> length (q_list q) < q_cap q \<Longrightarrow> \<exists>q'. enqueue q x = (0, q') \<and> q_inv q' \<and> q_list q' = q_list q @ [x] \<and> q_depth q' = q_depth q"
  by (rule enqueue_ok [where x = x]) blast+

lemma turn_step:
  assumes t: "turn n j k" and j: "j < n"
  obtains k' where "client_init_slots (j # js) k = client_init_slots js k'" and "turn n (Suc j) k'"
proof -
  note T = t [unfolded turn_def]
  have u: "[j..<n] = j # [Suc j..<n]" using j by (rule upt_conv_Cons)
  obtain pq where pq: "dequeue (p_free (k_pool k)) = Inr (j, pq)" "q_inv pq" "q_list pq = [Suc j..<n] @ [0..<j]" "q_depth pq = q_depth (p_free (k_pool k))"
    using deq_head [of "p_free (k_pool k)" j "[Suc j..<n] @ [0..<j]"] T u by auto
  obtain cq where cq: "dequeue (k_cmd_pool k) = Inr (Cb_cmd j, cq)" "q_inv cq" "q_list cq = map Cb_cmd [Suc j..<n]"
    using deq_head [of "k_cmd_pool k" "Cb_cmd j" "map Cb_cmd [Suc j..<n]"] T u by auto
  obtain dq where dq: "dequeue (k_data_pool k) = Inr (Cb_data j, dq)" "q_inv dq" "q_list dq = map Cb_data [Suc j..<n]"
    using deq_head [of "k_data_pool k" "Cb_data j" "map Cb_data [Suc j..<n]"] T u by auto
  obtain rq where rq: "dequeue (k_reply_pool k) = Inr (Cb_reply j, rq)" "q_inv rq" "q_list rq = map Cb_reply ([Suc j..<n] @ [0..<j])"
      "q_depth rq = q_depth (k_reply_pool k)"
    using deq_head [of "k_reply_pool k" "Cb_reply j" "map Cb_reply ([Suc j..<n] @ [0..<j])"] T u by auto
  have cap: "q_cap pq = n" "q_cap rq = n" using T pq(4) rq(4) by (simp_all add: q_cap_def)
  obtain pq' where pq': "enqueue pq j = (0, pq')" "q_inv pq'" "q_list pq' = q_list pq @ [j]" "q_depth pq' = q_depth pq"
    using enq_tail [of pq j] pq(2,3) cap j by auto
  obtain rq' where rq': "enqueue rq (Cb_reply j) = (0, rq')" "q_inv rq'" "q_list rq' = q_list rq @ [Cb_reply j]" "q_depth rq' = q_depth rq"
    using enq_tail [of rq "Cb_reply j"] rq(2,3) cap j by auto
  let ?p = "k_pool k"
  have ne: "\<not> q_is_empty (p_free ?p)" using T u by (simp add: q_is_empty_iff)
  have al: "pool_alloc ?p = (Some j, ?p\<lparr>p_free := pq\<rparr>)" using pq(1) ne by (simp add: pool_alloc_def dequeue_def)
  have fr: "pool_free (?p\<lparr>p_free := pq\<rparr>) j = Inr (?p\<lparr>p_free := pq'\<rparr>)" using pq'(1) by (simp add: pool_free_def enqueue_eq_nolock)
  define k' where "k' = projr (client_init_slots [j] k)"
  have k': "client_init_slots (j # js) k = client_init_slots js k'" "k_pool k' = ?p\<lparr>p_free := pq'\<rparr>" "k_cmd_pool k' = cq" "k_data_pool k' = dq"
    "k_reply_pool k' = rq'" "k_iocb k' = (k_iocb k)(j := (k_iocb k j)\<lparr>ci_cmd := (ci_cmd (k_iocb k j))\<lparr>m_command_id := of_nat j\<rparr>, ci_reply := None\<rparr>)"
    "k_bd_iocb k' = (k_bd_iocb k)(Cb_cmd j := Some j, Cb_data j := Some j, Cb_reply j := None)" "k_queue k' = k_queue k" "k_waiting k' = k_waiting k"
    "k_acts k' = k_acts k" "k_ext k' = k_ext k" "k_full k' = k_full k"
    unfolding k'_def using al fr cq(1) dq(1) rq(1) rq'(1) by (simp_all add: Let_def free_iocb_def reply_free_def)
  have "turn n (Suc j) k'" unfolding turn_def
    using T k'(2-) pq'(2-) rq'(2-) pq(3,4) rq(3,4) cq(2,3) dq(2,3)
    by (auto simp: q_cap_def less_Suc_eq client_calm_def)
  then show ?thesis by (rule that [OF k'(1)])
qed

lemma turns: "turn n j k \<Longrightarrow> j \<le> n \<Longrightarrow> \<exists>k'. client_init_slots [j..<n] k = Inr k' \<and> turn n n k'"
proof (induction "n - j" arbitrary: j k)
  case 0
  then show ?case by (intro exI [of _ k]) simp
next
  case (Suc d)
  then have j: "j < n" by simp
  obtain k1 where k1: "client_init_slots (j # [Suc j..<n]) k = client_init_slots [Suc j..<n] k1" "turn n (Suc j) k1"
    by (rule turn_step [OF Suc.prems(1) j])
  have "\<exists>k'. client_init_slots [Suc j..<n] k1 = Inr k' \<and> turn n n k'" by (rule Suc.hyps(1)) (use Suc.hyps(2) j k1(2) in simp_all)
  then show ?case using k1(1) upt_conv_Cons [OF j] by simp
qed

lemma turn_inv:
  assumes "turn n n k"
  shows "client_inv k" "client_calm k" "callbacks k = {#}" "busy k = {}"
proof -
  note T = assms [unfolded turn_def]
  have f: "flying k = {}" using T by (simp add: flying_def)
  show b: "busy k = {}" using T by (auto simp: busy_def pool_avail_def)
  have "pool_inv (k_pool k)" using T by (auto simp: pool_inv_def)
  then show "client_inv k" using T f b by (simp add: client_inv_def places_inv_def comps_inv_def)
  show "client_calm k" "callbacks k = {#}" using T by (simp_all add: callbacks_def)
qed

text \<open>A client before its start: zeroed slots, nothing queued, no one called back.\<close>

definition fresh_client :: "client \<Rightarrow> bool" where
  "fresh_client k \<longleftrightarrow> k_queue k = [] \<and> k_waiting k = [] \<and> k_acts k = [] \<and> (\<forall>i. ci_conn (k_iocb k i) = None \<and> ci_sent_time (k_iocb k i) = 0)"

lemma buffers_init_calm:
  assumes "client_calm k" and "0 \<le> n"
  obtains q where "client_buffers_init n bd q0 k = Inr (q, k\<lparr>k_cnt := k_cnt k + 3\<rparr>)" and "q_inv q" and "q_cap q = nat n" and "q_list q = map bd [0..<nat n]"
proof -
  obtain rc q where q: "q_init True (bd 0) n q0 = (rc, q)" by (rule prod.exhaust)
  note Q = q_init_ok [OF assms(2) q]
  have E: "q_inv (enq_all enqueue (map bd [0..<nat n]) q) \<and> q_list (enq_all enqueue (map bd [0..<nat n]) q) = map bd [0..<nat n] \<and>
      q_cap (enq_all enqueue (map bd [0..<nat n]) q) = nat n" using fsq.enq_all_room [of q "map bd [0..<nat n]"] Q by simp
  have "client_buffers_init n bd q0 k = Inr (enq_all enqueue (map bd [0..<nat n]) q, k\<lparr>k_cnt := k_cnt k + 3\<rparr>)"
    using assms(1) q Q by (simp add: client_buffers_init_def client_call_def client_calm_def)
  then show ?thesis using that E by blast
qed

lemma client_init_ok:
  assumes calm: "client_calm k" and fresh: "fresh_client k" and d: "0 \<le> io_depth"
  shows "\<exists>k'. client_init io_depth k = Inr (0, k') \<and> turn (nat (io_depth * 2)) (nat (io_depth * 2)) k'"
proof -
  let ?n = "io_depth * 2"
  have n: "0 \<le> ?n" using d by simp
  obtain dq where dq: "client_buffers_init ?n Cb_data (k_data_pool k) k = Inr (dq, k\<lparr>k_cnt := k_cnt k + 3\<rparr>)" "q_inv dq" "q_cap dq = nat ?n" "q_list dq = map Cb_data [0..<nat ?n]"
    by (rule buffers_init_calm [OF calm n])
  define k1 where "k1 = k\<lparr>k_cnt := k_cnt k + 3, k_data_pool := dq\<rparr>"
  have c1: "client_calm k1" by (rule client_calm_cong [OF calm]) (simp_all add: k1_def)
  obtain cq where cq: "client_buffers_init ?n Cb_cmd (k_cmd_pool k) k1 = Inr (cq, k1\<lparr>k_cnt := k_cnt k1 + 3\<rparr>)" "q_inv cq" "q_cap cq = nat ?n" "q_list cq = map Cb_cmd [0..<nat ?n]"
    by (rule buffers_init_calm [OF c1 n])
  define k2 where "k2 = k1\<lparr>k_cnt := k_cnt k1 + 3, k_cmd_pool := cq\<rparr>"
  have c2: "client_calm k2" by (rule client_calm_cong [OF c1]) (simp_all add: k2_def)
  obtain rq where rq: "client_buffers_init ?n Cb_reply (k_reply_pool k) k2 = Inr (rq, k2\<lparr>k_cnt := k_cnt k2 + 3\<rparr>)" "q_inv rq" "q_cap rq = nat ?n" "q_list rq = map Cb_reply [0..<nat ?n]"
    by (rule buffers_init_calm [OF c2 n])
  obtain rc p where p: "pool_init 0 True True ?n (k_pool k) = (rc, p)" by (rule prod.exhaust)
  note P = pool_init_success [OF n p]
  define k3 where "k3 = k2\<lparr>k_reply_pool := rq, k_pool := p, k_cnt := k_cnt k2 + 7\<rparr>"
  have "turn (nat ?n) 0 k3" using P n dq cq rq fresh calm
    by (simp add: turn_def k3_def k2_def k1_def fresh_client_def client_calm_def pool_inv_def)
  then obtain k' where k': "client_init_slots [0..<nat ?n] k3 = Inr k'" "turn (nat ?n) (nat ?n) k'" using turns by blast
  have "client_init io_depth k = Inr (0, k')"
    using dq(1) cq(1) rq(1) p P k'(1) calm unfolding client_init_def Let_def k3_def k2_def k1_def
    by (simp add: client_call_def client_calm_def)
  then show ?thesis using k'(2) by blast
qed

section \<open>Properties\<close>

text \<open>
  (C19) Every request that the client library accepts is called back exactly once or is still
  under way. From \<open>init\<close> on, after any interleaving of submissions, events, timer rounds,
  openings of the volume and network completions, the accepted requests are those called
  back together with those that hold a slot; and each slot that is held is at exactly one
  place: in the event queue, in the list of requests that wait for the volume, or in flight
  on a connection. Requests that time out and those whose reply asks to open the volume
  again are sent again, and requests without a connection wait for the next opening or fail
  with \<open>-EIO\<close>, in all cases without being lost or called back twice. This is up to an event
  that ends the process. Memory, posting events and posting buffers do not fail, a reply
  comes before its timeout is queued, and over TCP the data of a read arrives after a reply
  that does not ask to open the volume again.
\<close>

theorem client_completes_once:
  assumes "client_calm k0" and "fresh_client k0" and "0 \<le> io_depth" and "client_init io_depth k0 = Inr (rc, k)" and "client_run k m k'"
  shows "rc = 0 \<and> m = callbacks k' + pending k' \<and> distinct (reqs (k_queue k') @ k_waiting k') \<and>
    set (reqs (k_queue k') @ k_waiting k') \<inter> flying k' = {} \<and> busy k' = set (reqs (k_queue k') @ k_waiting k') \<union> flying k'"
proof -
  have k: "rc = 0" "turn (nat (io_depth * 2)) (nat (io_depth * 2)) k" using client_init_ok [OF assms(1,2,3)] assms(4) by auto
  note I = turn_inv [OF k(2)]
  have "tally k = {#}" using I(3,4) by (simp add: tally_def pending_def)
  then show ?thesis using client_run_ok [OF assms(5) I(1,2)] k(1) by (simp add: tally_def client_inv_def places_inv_def)
qed

text \<open>A client with two slots, one shard and one open connection; a write of one block.\<close>

definition sample_client :: client where
  "sample_client = \<lparr>
     cs_conn = (\<lambda>_. \<lparr>rc_ok = True, rc_io_depth = 2, rc_inflying = 0, rc_heartbeat = 0, rc_unclean = False, rc_ref = 1\<rparr>),
     cs_io_depth = 2, cs_ip_map = [(''ip1'', 0)], cs_net = (\<lambda>_. None), cs_net_cnt = 0, cs_log = [],
     k_iocb = (\<lambda>i. \<lparr>ci_cmd = \<lparr>m_opcode = 0, m_command_id = of_nat i, m_snap_seq = 0, m_vol_id = 0, m_buf_addr = 0, m_rkey = 0,
        m_meta_ver = 0, m_offset = 0, m_length = 0, m_command_seq = 0\<rparr>, ci_arg = 0, ci_iov = [], ci_data = [], ci_sent_time = 0,
        ci_submit_time = 0, ci_is_timeout = False, ci_conn = None, ci_reply = None\<rparr>),
     k_pool = \<lparr>p_free = \<lparr>q_tail = 2, q_head = 0, q_depth = 3, q_data = [0, 1, 0]\<rparr>, p_slots = 2, p_count = 2\<rparr>,
     k_cmd_pool = \<lparr>q_tail = 2, q_head = 2, q_depth = 3, q_data = [Cb_cmd 0, Cb_cmd 1, Cb_cmd 0]\<rparr>,
     k_data_pool = \<lparr>q_tail = 2, q_head = 2, q_depth = 3, q_data = [Cb_data 0, Cb_data 1, Cb_data 0]\<rparr>,
     k_reply_pool = \<lparr>q_tail = 2, q_head = 0, q_depth = 3, q_data = [Cb_reply 0, Cb_reply 1, Cb_reply 0]\<rparr>,
     k_reply = (\<lambda>_. \<lparr>r_status = 0, r_meta_ver = 1, r_command_id = 0, r_command_seq = 0\<rparr>),
     k_bd_iocb = (\<lambda>bd. case bd of Cb_cmd i \<Rightarrow> Some i | Cb_data i \<Rightarrow> Some i | Cb_reply _ \<Rightarrow> None),
     k_state = VOLUME_OPENED, k_meta_ver = 1, k_volume_id = 0x1000000, k_snap_seq = 1,
     k_shards = [\<lparr>sh_ips = [''ip1''], sh_current = 0, sh_local = False\<rparr>], k_open_time = 0, k_waiting = [], k_io_timeout = 30,
     k_queue = [], k_ext = (\<lambda>_. 0), k_cnt = 0, k_full = (\<lambda>_. 0), k_full_cnt = 0,
     k_query = (\<lambda>_. (0, 2, [\<lparr>sh_ips = [''ip1''], sh_current = 0, sh_local = False\<rparr>])), k_query_cnt = 0, k_next_hb = 0, k_acts = []\<rparr>"

lemma sample_client_ok: "client_calm sample_client" "fresh_client sample_client"
  by (simp_all add: sample_client_def client_calm_def fresh_client_def)

definition sample_start :: "fault + int \<times> client" where
  "sample_start = client_init 1 sample_client"

definition sample_submit :: "fault + int \<times> client" where
  "sample_submit = pf_io_submit (replicate 512 0) 512 0 5 True 1 (snd (projr sample_start))"

definition sample_sent :: "fault + client" where
  "sample_sent = client_process_event (Cl_io_req 0) 1 ((snd (projr sample_submit))\<lparr>k_queue := []\<rparr>)"

text \<open>The first reply asks to open the volume again with a newer version, the second one is final.\<close>

definition sample_reopen_reply :: PfMessageReply where
  "sample_reopen_reply = \<lparr>r_status = MSG_STATUS_REOPEN, r_meta_ver = 2, r_command_id = 0, r_command_seq = 0\<rparr>"

definition sample_final_reply :: PfMessageReply where
  "sample_final_reply = \<lparr>r_status = 0, r_meta_ver = 2, r_command_id = 0, r_command_seq = 0\<rparr>"

definition sample_refused :: "fault + int \<times> client" where
  "sample_refused = client_on_tcp_network_done 0 (Cb_reply 0) True 0
     ((projr sample_sent)\<lparr>k_reply := (k_reply (projr sample_sent))(Cb_reply 0 := sample_reopen_reply)\<rparr>)"

definition sample_requeued :: "fault + client" where
  "sample_requeued = client_process_event (Cl_io_complete 0 (Cb_reply 0)) 2 ((snd (projr sample_refused))\<lparr>k_queue := []\<rparr>)"

definition sample_reopened :: "fault + client" where
  "sample_reopened = client_process_event (Cl_reopen_volume 2) 3 ((projr sample_requeued)\<lparr>k_queue := [Cl_io_req 0]\<rparr>)"

definition sample_resent :: "fault + client" where
  "sample_resent = client_process_event (Cl_io_req 0) 3 ((projr sample_reopened)\<lparr>k_queue := []\<rparr>)"

definition sample_replied :: "fault + int \<times> client" where
  "sample_replied = client_on_tcp_network_done 0 (Cb_reply 1) True 0
     ((projr sample_resent)\<lparr>k_reply := (k_reply (projr sample_resent))(Cb_reply 1 := sample_final_reply)\<rparr>)"

definition sample_done :: "fault + client" where
  "sample_done = client_process_event (Cl_io_complete 0 (Cb_reply 1)) 4 ((snd (projr sample_replied))\<lparr>k_queue := []\<rparr>)"

lemmas sample_defs = sample_client_def CLIENT_MAX_IO_SIZE_def pool_alloc_def dequeue_nolock_def dequeue_def
  q_is_empty_def client_post_def fill_slot_def client_process_event_def client_io_req_def get_shard_conn_def pool_get_conn_def conn_add_ref_def
  client_call_def Let_def pf_io_submit_def sample_submit_def sample_start_def client_init_def client_buffers_init_def q_init_def pool_init_def upt_rec
  enqueue_def q_is_full_def QUEUE_SPACE_def free_iocb_def pool_free_def enqueue_nolock_def reply_free_def sample_reopen_reply_def sample_final_reply_def
  client_on_tcp_network_done_def client_pick_iocb_def client_do_complete_def release_conn_def pf_conn_dec_ref_def
  reopen_volume_def do_reopen_def

lemma sample_submit_ok: "\<exists>k1. sample_submit = Inr (0, k1) \<and> k_queue k1 = [Cl_io_req 0]"
  by (simp add: sample_defs)

lemma sample_sent_ok: "\<exists>k2. sample_sent = Inr k2 \<and> k_queue k2 = [] \<and> ci_conn (k_iocb k2 0) = Some 0 \<and> k_bd_iocb k2 (Cb_reply 0) = None \<and> p_slots (k_pool k2) = 2"
  by (simp add: sample_sent_def sample_defs)

lemma sample_refused_ok:
  "\<exists>rc k3. sample_refused = Inr (rc, k3) \<and> k_queue k3 = [Cl_io_complete 0 (Cb_reply 0)]"
  by (simp add: sample_refused_def sample_sent_def sample_defs op_code_values)

lemma sample_requeued_ok:
  "\<exists>k4. sample_requeued = Inr k4 \<and> k_queue k4 = [Cl_reopen_volume 2, Cl_io_req 0]"
  by (simp add: sample_requeued_def sample_refused_def sample_sent_def sample_defs op_code_values)

lemma sample_reopened_ok:
  "\<exists>k5. sample_reopened = Inr k5 \<and> k_queue k5 = [Cl_io_req 0] \<and> k_meta_ver k5 = 2"
  by (simp add: sample_reopened_def sample_requeued_def sample_refused_def sample_sent_def sample_defs op_code_values)

lemma sample_resent_ok:
  "\<exists>k6. sample_resent = Inr k6 \<and> k_queue k6 = [] \<and> ci_conn (k_iocb k6 0) = Some 0 \<and> k_bd_iocb k6 (Cb_reply 1) = None \<and> p_slots (k_pool k6) = 2"
  by (simp add: sample_resent_def sample_reopened_def sample_requeued_def sample_refused_def sample_sent_def sample_defs op_code_values)

lemma sample_replied_ok:
  "\<exists>rc k7. sample_replied = Inr (rc, k7) \<and> k_queue k7 = [Cl_io_complete 0 (Cb_reply 1)]"
  by (simp add: sample_replied_def sample_resent_def sample_reopened_def sample_requeued_def sample_refused_def sample_sent_def
      sample_defs op_code_values)

lemma sample_done_ok: "\<exists>k8. sample_done = Inr k8 \<and> k_acts k8 = [Cl_send 0 0, Cl_send 0 0, Cl_callback 5 0]"
  by (simp add: sample_done_def sample_replied_def sample_resent_def sample_reopened_def sample_requeued_def sample_refused_def
      sample_sent_def sample_defs op_code_values)

lemma sample_start_ok:
  obtains k where "client_init 1 sample_client = Inr (0, k)" and "client_inv k" and "client_calm k" and "snd (projr sample_start) = k"
proof -
  obtain k where k: "client_init 1 sample_client = Inr (0, k)" "turn (nat (1 * 2)) (nat (1 * 2)) k"
    using client_init_ok [OF sample_client_ok, of 1] by auto
  show ?thesis using that [OF k(1) turn_inv(1,2) [OF k(2)]] k(1) by (simp add: sample_start_def)
qed

theorem client_completes_once_witness:
  "\<exists>k k'. client_init 1 sample_client = Inr (0, k) \<and> client_run k {#5#} k' \<and> callbacks k' = {#5#} \<and> pending k' = {#}"
proof -
  obtain k where k: "client_init 1 sample_client = Inr (0, k)" "client_inv k" "client_calm k" "snd (projr sample_start) = k" by (rule sample_start_ok)
  obtain k1 where k1: "sample_submit = Inr (0, k1)" "k_queue k1 = [Cl_io_req 0]" using sample_submit_ok by blast
  obtain k2 where k2: "sample_sent = Inr k2" "k_queue k2 = []" "ci_conn (k_iocb k2 0) = Some 0" "k_bd_iocb k2 (Cb_reply 0) = None" "p_slots (k_pool k2) = 2"
    using sample_sent_ok by blast
  obtain rc k3 where k3: "sample_refused = Inr (rc, k3)" "k_queue k3 = [Cl_io_complete 0 (Cb_reply 0)]" using sample_refused_ok by blast
  obtain k4 where k4: "sample_requeued = Inr k4" "k_queue k4 = [Cl_reopen_volume 2, Cl_io_req 0]" using sample_requeued_ok by blast
  obtain k5 where k5: "sample_reopened = Inr k5" "k_queue k5 = [Cl_io_req 0]" using sample_reopened_ok by blast
  obtain k6 where k6: "sample_resent = Inr k6" "k_queue k6 = []" "ci_conn (k_iocb k6 0) = Some 0" "k_bd_iocb k6 (Cb_reply 1) = None" "p_slots (k_pool k6) = 2"
    using sample_resent_ok by blast
  obtain rc7 k7 where k7: "sample_replied = Inr (rc7, k7)" "k_queue k7 = [Cl_io_complete 0 (Cb_reply 1)]" using sample_replied_ok by blast
  obtain k8 where k8: "sample_done = Inr k8" "k_acts k8 = [Cl_send 0 0, Cl_send 0 0, Cl_callback 5 0]" using sample_done_ok by blast
  have 1: "client_run k {#5#} k1"
    using client_run.submit [OF client_run.start k1(1) [unfolded sample_submit_def k(4)]] by simp
  have 2: "client_run k {#5#} k2"
    by (rule client_run.event [OF 1 k1(2), where now = 1]) (use k2(1) [unfolded sample_sent_def k1(1)] in simp)
  have "awaits 0 k2" using k2 by (simp add: awaits_def flying_def)
  then have 3: "client_run k {#5#} k3"
    by (intro client_run.reply [OF 2 _ k2(4), of sample_reopen_reply])
      (use k3(1) [unfolded sample_refused_def k2(1)] in \<open>simp_all add: sample_reopen_reply_def\<close>)
  have 4: "client_run k {#5#} k4"
    by (rule client_run.event [OF 3 k3(2), where now = 2]) (use k4(1) [unfolded sample_requeued_def k3(1)] in simp)
  have 5: "client_run k {#5#} k5"
    by (rule client_run.event [OF 4 k4(2), where now = 3]) (use k5(1) [unfolded sample_reopened_def k4(1)] in simp)
  have 6: "client_run k {#5#} k6"
    by (rule client_run.event [OF 5 k5(2), where now = 3]) (use k6(1) [unfolded sample_resent_def k5(1)] in simp)
  have "awaits 0 k6" using k6 by (simp add: awaits_def flying_def)
  then have 7: "client_run k {#5#} k7"
    by (intro client_run.reply [OF 6 _ k6(4), of sample_final_reply])
      (use k7(1) [unfolded sample_replied_def k6(1)] in \<open>simp_all add: sample_final_reply_def\<close>)
  have 8: "client_run k {#5#} k8"
    by (rule client_run.event [OF 7 k7(2), where now = 4]) (use k8(1) [unfolded sample_done_def k7(1)] in simp)
  have c: "callbacks k8 = {#5#}" using k8(2) by (simp add: callbacks_def)
  then have "pending k8 = {#}" using client_completes_once [OF sample_client_ok _ k(1) 8] by simp
  then show ?thesis using k(1) 8 c by (intro exI [of _ k] exI [of _ k8]) simp
qed

lemma iov_to_buf_loop_eq:
  assumes "copied \<le> n" and "copied \<le> length buf"
  shows "iov_to_buf_loop iov buf copied n =
    (take copied buf @ take (n - copied) (concat iov) @ drop (copied + min (n - copied) (length (concat iov))) buf,
     copied + min (n - copied) (length (concat iov)))"
  using assms
proof (induction iov arbitrary: buf copied)
  case (Cons v iov)
  show ?case
  proof (cases "copied < n \<and> 0 < length v")
    case True
    let ?l = "min (length v) (n - copied)"
    let ?b = "take copied buf @ take ?l v @ drop (copied + ?l) buf"
    have "copied + ?l \<le> n" "copied + ?l \<le> length ?b" using Cons.prems True by (auto simp: min_def)
    note IH = Cons.IH [OF this]
    have t: "take (copied + ?l) ?b = take copied buf @ take ?l v" using Cons.prems by (simp add: min_def)
    have d: "drop (copied + ?l + m) ?b = drop (copied + ?l + m) buf" for m using Cons.prems by (simp add: min_def ac_simps)
    have "iov_to_buf_loop (v # iov) buf copied n = iov_to_buf_loop iov ?b (copied + ?l) n" using True by (simp add: Let_def)
    also have "\<dots> = (take copied buf @ take ?l v @ take (n - (copied + ?l)) (concat iov) @ drop (copied + ?l + min (n - (copied + ?l)) (length (concat iov))) buf,
        copied + ?l + min (n - (copied + ?l)) (length (concat iov)))"
      unfolding IH t d by simp
    also have "copied + ?l + min (n - (copied + ?l)) (length (concat iov)) = copied + min (n - copied) (length (concat (v # iov)))" by (auto simp: min_def)
    also have "take copied buf @ take ?l v @ take (n - (copied + ?l)) (concat iov) @ ys = take copied buf @ take (n - copied) (concat (v # iov)) @ ys" for ys
      by (cases "length v \<le> n - copied") (simp_all add: min_def diff_diff_left)
    finally show ?thesis .
  next
    case False
    then show ?thesis using Cons by auto
  qed
qed simp

lemma iov_from_buf_loop_eq:
  assumes "copied \<le> n" and "n \<le> length buf" and "iov_from_buf_loop iov buf copied n = (ws, c)"
  shows "map length ws = map length iov \<and> c = copied + min (n - copied) (length (concat iov)) \<and>
    concat ws = take (c - copied) (drop copied buf) @ drop (c - copied) (concat iov)"
  using assms
proof (induction iov arbitrary: copied ws)
  case (Cons v iov)
  show ?case
  proof (cases "copied < n \<and> 0 < length v")
    case True
    let ?l = "min (length v) (n - copied)"
    obtain ws' where w: "iov_from_buf_loop iov buf (copied + ?l) n = (ws', c)" "ws = (take ?l (drop copied buf) @ drop ?l v) # ws'"
      using Cons.prems(3) True by (auto simp: Let_def split: prod.splits)
    have l: "copied + ?l \<le> n" using True by auto
    note IH = Cons.IH [OF l Cons.prems(2) w(1)]
    have len: "length (take ?l (drop copied buf)) = ?l" using Cons.prems l by simp
    have c: "c = copied + ?l + min (n - (copied + ?l)) (length (concat iov))" using IH by blast
    then have "c = copied + min (n - copied) (length (concat (v # iov)))" by (auto simp: min_def)
    moreover have "map length ws = map length (v # iov)" using IH w(2) len by (simp add: min_def)
    moreover have "concat ws = take (c - copied) (drop copied buf) @ drop (c - copied) (concat (v # iov))"
    proof (cases "length v \<le> n - copied")
      case v: True
      have "c - copied = length v + (c - (copied + length v))" using c v by (simp add: min_def)
      then show ?thesis using IH w(2) v by (simp add: take_add add.commute)
    next
      case False
      then have "c = n" using c l by simp
      then show ?thesis using IH w(2) False True by simp
    qed
    ultimately show ?thesis by blast
  next
    case False
    show ?thesis
    proof (cases "copied < n")
      case True
      then obtain ws' where w: "iov_from_buf_loop iov buf copied n = (ws', c)" "ws = v # ws'" "v = []"
        using False Cons.prems(3) by (auto split: prod.splits)
      show ?thesis using Cons.IH [OF Cons.prems(1,2) w(1)] w(2,3) by simp
    next
      case False
      then show ?thesis using Cons.prems by simp
    qed
  qed
qed simp

text \<open>
  (C26) Copying between the user's buffers and the data buffer of a slot. \<open>iov_to_buf\<close> computes
  what copying the first \<open>n\<close> bytes of the concatenated user buffers computes, and returns how
  many bytes there were; \<open>iov_from_buf\<close> keeps the size of every user buffer and overwrites the
  first \<open>n\<close> bytes of their concatenation with those of the data buffer.
\<close>

theorem iov_copies_concat:
  assumes "n \<le> length buf"
  shows "iov_to_buf iov buf n = (take n (concat iov) @ drop (min n (length (concat iov))) buf, min n (length (concat iov))) \<and>
    map length (fst (iov_from_buf iov buf n)) = map length iov \<and>
    concat (fst (iov_from_buf iov buf n)) = take (min n (length (concat iov))) buf @ drop n (concat iov) \<and>
    snd (iov_from_buf iov buf n) = min n (length (concat iov))"
proof -
  obtain ws c where w: "iov_from_buf_loop iov buf 0 n = (ws, c)" by (rule prod.exhaust)
  have "map length ws = map length iov \<and> c = min n (length (concat iov)) \<and> concat ws = take c buf @ drop c (concat iov)"
    using iov_from_buf_loop_eq [OF _ assms w] by simp
  then show ?thesis using w iov_to_buf_loop_eq [of 0 n buf iov] by (simp add: iov_to_buf_def iov_from_buf_def min_def)
qed

theorem iov_copies_concat_witness:
  "iov_to_buf [[1, 2], [], [3, 4]] [9, 9, 9, 9, 9] 3 = ([1, 2, 3, 9, 9], 3) \<and>
   concat (fst (iov_from_buf [[1, 2], [], [3, 4]] [7, 8, 9, 9, 9] 3)) = [7, 8, 9, 4]"
  using iov_copies_concat [of 3 "[9, 9, 9, 9, 9]" "[[1, 2], [], [3, 4]]"] iov_copies_concat [of 3 "[7, 8, 9, 9, 9]" "[[1, 2], [], [3, 4]]"]
  by (simp add: eval_nat_numeral)

text \<open>
  A plain submission is not checked against the size of the data buffer. With an aligned
  offset and an aligned length above 128 KB and a free slot, \<open>pf_io_submit\<close> copies beyond the
  end of the data buffer of the slot, where \<open>pf_iov_submit\<close> returns \<open>-EINVAL\<close> for every such
  request and leaves the state as it is.
\<close>

theorem io_submit_overruns_buffer:
  assumes "offset AND 511 = 0" and "n mod 512 = 0" and "CLIENT_MAX_IO_SIZE < n" and "pool_alloc (k_pool k) = (Some i, p)"
  shows "pf_io_submit buf n offset arg is_write now k = Inl Out_of_bounds \<and> pf_iov_submit iov n offset arg is_write now k = Inr (- EINVAL, k)"
  using assms by (simp add: pf_io_submit_def pf_iov_submit_def)

theorem io_submit_overruns_buffer_witness:
  "pf_io_submit [] 131584 4096 5 False 1 sample_client = Inl Out_of_bounds"
proof -
  have "\<exists>p. pool_alloc (k_pool sample_client) = (Some 0, p)" by (simp add: sample_defs)
  then obtain p where p: "pool_alloc (k_pool sample_client) = (Some 0, p)" ..
  show ?thesis using io_submit_overruns_buffer [OF _ _ _ p, of 4096 131584 "[]" 5 False 1 "[]"] by (simp add: CLIENT_MAX_IO_SIZE_def)
qed

text \<open>
  (C36) A request whose send fails is called back and is nevertheless sent again. When the
  receive of the reply cannot be posted, the request is called back with \<open>-EAGAIN\<close> and its
  slot becomes free, but the slot keeps its time of sending and its connection, with the
  reference on it. A timeout of the slot, later than the time limit, puts the free slot back
  into the event queue.
\<close>

theorem failed_receive_sends_again:
  assumes inv: "client_inv k" and q: "k_queue k = Cl_io_req i # q" and k0: "k0 = k\<lparr>k_queue := q\<rparr>"
    and idx: "idx = unat (drop_bit SHARD_SIZE_ORDER (m_offset (ci_cmd (k_iocb k i))))" "idx < length (k_shards k)" "\<not> sh_local (k_shards k ! idx)"
    and g: "get_shard_conn idx k0 = (Some c, k1)" and d: "dequeue (k_reply_pool k1) = Inr (bd, q')"
    and f: "k_ext k1 (k_cnt k1) \<noteq> 0" "k_full k1 = (\<lambda>_. 0)" and now: "0 < now" "now + k_io_timeout k1 * 1000000 < now'"
    and st: "k_state k1 = VOLUME_OPENED"
  shows "\<exists>k2 k3. client_io_req i now k0 = Inr k2 \<and> i \<in> pool_avail (k_pool k2) \<and> callbacks k2 = add_mset (ci_arg (k_iocb k i)) (callbacks k) \<and>
    client_io_timeout i now' k2 = Inr k3 \<and> Cl_io_req i \<in> set (k_queue k3) \<and> i \<in> pool_avail (k_pool k3)"
proof -
  have l0: "loose i k0" using loose_req [OF _ q] inv by (simp add: client_inv_def k0)
  have "ksame k0 k1" using ksame_get_shard_conn [of k0 idx] g by simp
  note e = this [unfolded ksame_def]
  have l1: "loose i k1" using l0 places_cong(2) [of k1 k0 i] e by simp
  then have "i \<in> busy k1" by (simp add: loose_def)
  then have nh: "m_opcode (ci_cmd (k_iocb k1 i)) \<noteq> S5_OP_HEARTBEAT" using l1 by (intro READ_WRITE_not_HEARTBEAT) (simp add: loose_def)
  obtain p where p: "pool_free (k_pool k1) i = Inr p" "pool_avail p = insert i (pool_avail (k_pool k1))"
    using looseD [OF l1] omp.release_ok [of "k_pool k1" i] by (cases "pool_free (k_pool k1) i") auto
  define k2 where "k2 = projr (client_io_req i now k0)"
  have k2: "client_io_req i now k0 = Inr k2" "k_pool k2 = p" "k_acts k2 = k_acts k @ [Cl_callback (ci_arg (k_iocb k i)) (- EAGAIN)]"
    "k_iocb k2 i = (k_iocb k1 i)\<lparr>ci_cmd := (ci_cmd (k_iocb k1 i))\<lparr>m_meta_ver := of_int (k_meta_ver k1)\<rparr>, ci_is_timeout := False, ci_conn := Some c, ci_sent_time := now\<rparr>"
    "k_state k2 = VOLUME_OPENED" "k_io_timeout k2 = k_io_timeout k1" "k_full k2 = (\<lambda>_. 0)"
    using idx g d f p e st unfolding k2_def client_io_req_def Let_def
    by (simp_all add: client_call_def conn_add_ref_def reply_free_def free_iocb_def k0)
  define k2a where "k2a = pf_conn_dec_ref client_on_close c (conn_close client_on_close c k2)"
  have "ksame k2 k2a" unfolding k2a_def by (rule clconn.same_trans [OF clconn.same_close clconn.same_dec_ref])
  note e2 = this [unfolded ksame_def]
  obtain k3 where "client_io_timeout i now' k2 = Inr k3" "k_pool k3 = p" "k_queue k3 = k_queue k2 @ [Cl_io_req i]"
    using k2 e2 nh now unfolding client_io_timeout_def Let_def
    by (simp add: k2a_def [symmetric] resend_io_def client_post_def Let_def)
  moreover have "callbacks k2 = add_mset (ci_arg (k_iocb k i)) (callbacks k)" by (simp add: callbacks_def k2(3))
  ultimately show ?thesis using k2(1,2) p(2) by (intro exI [of _ k2] exI [of _ k3]) simp
qed

theorem failed_receive_sends_again_witness:
  "\<exists>k k2 k3. client_io_req 0 1 k = Inr k2 \<and> 0 \<in> pool_avail (k_pool k2) \<and> callbacks k2 = {#5#} \<and>
     client_io_timeout 0 30000002 k2 = Inr k3 \<and> Cl_io_req 0 \<in> set (k_queue k3) \<and> 0 \<in> pool_avail (k_pool k3)"
proof -
  obtain k where k: "client_init 1 sample_client = Inr (0, k)" "client_inv k" "client_calm k" "snd (projr sample_start) = k" by (rule sample_start_ok)
  obtain k1 where k1: "sample_submit = Inr (0, k1)" "k_queue k1 = [Cl_io_req 0]" using sample_submit_ok by blast
  have r: "client_run k {#5#} k1" using client_run.submit [OF client_run.start k1(1) [unfolded sample_submit_def k(4)]] by simp
  have i1: "client_inv k1" using client_run_ok [OF r k(2,3)] by blast
  let ?k = "k1\<lparr>k_ext := \<lambda>_. - 1\<rparr>"
  have f: "ci_arg (k_iocb ?k 0) = 5" "callbacks ?k = {#}" "m_offset (ci_cmd (k_iocb ?k 0)) = 0" "k_shards ?k \<noteq> []"
      "\<not> sh_local (k_shards ?k ! 0)" "get_shard_conn 0 (?k\<lparr>k_queue := []\<rparr>) = (Some 0, ?k\<lparr>k_queue := []\<rparr>)"
      "\<exists>bd q. dequeue (k_reply_pool ?k) = Inr (bd, q)" "k_full ?k = (\<lambda>_. 0)" "k_io_timeout ?k = 30" "k_state ?k = VOLUME_OPENED"
    using k1(1) by (auto simp: sample_defs callbacks_def)
  then obtain bd q where d: "dequeue (k_reply_pool (?k\<lparr>k_queue := []\<rparr>)) = Inr (bd, q)" by auto
  have "places_inv ?k = places_inv k1" by (rule places_cong) simp_all
  moreover have "comp_ok ?k ev = comp_ok k1 ev" for ev by (cases ev) (simp_all add: flying_def)
  ultimately have "client_inv ?k" using i1 by (simp add: client_inv_def comps_inv_def)
  from failed_receive_sends_again [OF this _ refl _ _ _ _ d, of 0 "[]" 0 0 1 30000002]
  have "\<exists>k2 k3. client_io_req 0 1 (?k\<lparr>k_queue := []\<rparr>) = Inr k2 \<and> 0 \<in> pool_avail (k_pool k2) \<and> callbacks k2 = {#5#} \<and>
     client_io_timeout 0 30000002 k2 = Inr k3 \<and> Cl_io_req 0 \<in> set (k_queue k3) \<and> 0 \<in> pool_avail (k_pool k3)" using f k1(2) by simp
  then show ?thesis by (rule exI)
qed

end
