(* ===== verification/Tcp_Connection.thy ===== *)
theory Tcp_Connection
  imports Event_Queue Message "HOL-Library.Multiset"
begin

text \<open>
  \<open>PfTcpConnection\<close> of \<open>common/src/pf_tcp_connection.cpp\<close>: a connection that sends and
  receives buffers over a socket without blocking. Buffers wait in two event queues in
  semaphore mode; the buffer in work is sent or filled piece by piece as the socket allows.
  When a buffer is done the handler \<open>on_work_complete\<close> may at once start another one, as the
  data behind a message head; this calls \<open>do_send\<close> or \<open>do_receive\<close> from within itself.

  The kernel's side of the socket is a sequence of bytes in each direction, \<open>t_in\<close> and
  \<open>t_out\<close>, and the result that each \<open>send\<close> and \<open>recv\<close> allows: a positive number of bytes, 0,
  or a negative error number.
\<close>

section \<open>Event queues in semaphore mode\<close>

definition eq_is_empty :: "'e event_queue \<Rightarrow> bool" where
  "eq_is_empty q = q_is_empty (eq_current q)"

definition sem_inv :: "'e event_queue \<Rightarrow> bool" where
  "sem_inv q \<longleftrightarrow> q_inv (eq_current q) \<and> q_inv (eq_other q) \<and> q_list (eq_other q) = [] \<and>
     length (q_list (eq_current q)) \<le> eq_fd_count q \<and> eq_semaphore q"

abbreviation eq_list :: "'e event_queue \<Rightarrow> 'e list" where
  "eq_list q \<equiv> q_list (eq_current q)"

lemma eq_is_empty_iff: "sem_inv q \<Longrightarrow> eq_is_empty q \<longleftrightarrow> eq_list q = []"
  by (simp add: sem_inv_def eq_is_empty_def q_is_empty_iff)

lemma sem_post:
  assumes "sem_inv q" and "post_event e q = (rc, q')"
  shows "if rc = 0 then sem_inv q' \<and> eq_list q' = eq_list q @ [e] else q' = q"
proof -
  have c: "q_inv (eq_current q)" using assms(1) by (simp add: sem_inv_def)
  obtain r c' where e: "enqueue (eq_current q) e = (r, c')" by (rule prod.exhaust)
  show ?thesis
  proof (cases "r = 0")
    case True
    then have q': "rc = 0" "q' = (set_current c' q)\<lparr>eq_fd_count := eq_fd_count q + 1\<rparr>"
      using assms(2) e by (auto simp: post_event_def enqueue_nolock_eq)
    have "length (eq_list q) < q_cap (eq_current q)"
      using fsq.enq_full [OF c] fsq.within_cap [OF c] e True by (cases "length (eq_list q) = q_cap (eq_current q)") auto
    from fsq.enq_room [OF c this e] show ?thesis using q' assms(1) by (simp add: sem_inv_def)
  next
    case False
    then show ?thesis using assms(2) e by (auto simp: post_event_def enqueue_nolock_eq)
  qed
qed

lemma sem_get:
  assumes "sem_inv q" and "eq_list q = x # xs"
  obtains q' where "get_event q = Some (0, Some x, q')" and "sem_inv q'" and "eq_list q' = xs"
proof -
  let ?c = "eq_current q"
  have c: "q_inv ?c" using assms(1) by (simp add: sem_inv_def)
  have ne: "\<not> q_is_empty ?c" using assms(2) c by (simp add: q_is_empty_iff)
  let ?d = "?c\<lparr>q_head := (q_head ?c + 1) mod q_depth ?c\<rparr>"
  have "dequeue ?c = Inr (q_data ?c ! nat (q_head ?c), ?d)" using ne by (simp add: dequeue_def dequeue_nolock_def)
  then have d: "eq_list q = (q_data ?c ! nat (q_head ?c)) # q_list ?d" "q_inv ?d" using fsq.deq_some [OF c] by blast+
  let ?q = "set_current ?d (q\<lparr>eq_fd_count := eq_fd_count q - 1\<rparr>)"
  have "eq_fd_count q \<noteq> 0" "eq_semaphore q" using assms by (auto simp: sem_inv_def)
  then have "get_event q = Some (0, Some x, ?q)" using ne d(1) assms(2) by (simp add: get_event_def fd_read_def Let_def)
  moreover have "sem_inv ?q" "eq_list ?q = xs" using assms d by (auto simp: sem_inv_def)
  ultimately show ?thesis using that by blast
qed

lemma sem_round:
  assumes "sem_inv q" and "eq_list q \<noteq> []"
  obtains q' where "thread_round q = Some (eq_list q, q')" and "sem_inv q'" and "eq_list q' = []"
proof -
  have c: "q_inv (eq_current q)" using assms(1) by (simp add: sem_inv_def)
  obtain c' where d: "drain [] (eq_current q) = Some (eq_list q, c')" "q_inv c'" "q_list c' = []"
    using drain_all [OF c, of "[]"] by auto
  let ?q = "q\<lparr>eq_fd_count := eq_fd_count q - 1, eq_current_first := \<not> eq_current_first q\<rparr>"
  have "eq_fd_count q \<noteq> 0" using assms by (cases "eq_list q") (auto simp: sem_inv_def)
  then have "get_events q = Some ?q" using assms(1) by (simp add: get_events_def fd_read_def sem_inv_def)
  moreover have "eq_other ?q = eq_current q" "eq_current ?q = eq_other q" by (simp_all add: eq_current_def eq_other_def)
  ultimately have "thread_round q = Some (eq_list q, set_other c' ?q)" "sem_inv (set_other c' ?q)" "eq_list (set_other c' ?q) = []"
    using assms(1) d by (simp_all add: thread_round_def sem_inv_def)
  then show ?thesis by (rule that)
qed

section \<open>State\<close>

abbreviation (input) EINTR :: int where "EINTR \<equiv> 4"
abbreviation (input) EBADF :: int where "EBADF \<equiv> 9"
abbreviation (input) EFAULT :: int where "EFAULT \<equiv> 14"
abbreviation (input) ECONNABORTED :: int where "ECONNABORTED \<equiv> 103"

datatype tcp_state = CONN_INIT | CONN_OK | CONN_CLOSED | CONN_CLOSING

text \<open>The calls of \<open>on_work_complete\<close>: sent, received with the content, or given up.\<close>

datatype tcp_done = Sent nat "u8 list" | Received nat "u8 list" | Flushed nat

text \<open>
  A buffer is a number; \<open>t_buf\<close> is its memory and \<open>t_data_len\<close> its field \<open>data_len\<close>.
  \<open>t_sock\<close> gives the result of each \<open>send\<close> and \<open>recv\<close>. \<open>t_taken\<close> is auxiliary: the buffers that
  were handed to the connection; so is \<open>t_arrived\<close>, the bytes that came in so far.
\<close>

record tcp_conn =
  t_state :: tcp_state
  t_ref :: int
  t_send_q :: "nat event_queue"
  t_recv_q :: "nat event_queue"
  t_send_bd :: "nat option"
  t_sent_len :: nat
  t_wanted_send_len :: nat
  t_recv_bd :: "nat option"
  t_recved_len :: nat
  t_wanted_recv_len :: nat
  t_readable :: bool
  t_writeable :: bool
  t_need_reconnect :: bool
  t_buf :: "nat \<Rightarrow> u8 list"
  t_data_len :: "nat \<Rightarrow> nat"
  t_in :: "u8 list"
  t_arrived :: "u8 list"
  t_out :: "u8 list"
  t_sock :: "nat \<Rightarrow> int"
  t_cnt :: nat
  t_done :: "tcp_done list"
  t_taken :: "nat list"

text \<open>
  What a handler does with the connection: nothing, take a reference and start the next
  buffer in the same direction, where \<open>data_len\<close> may be set first, post a buffer, or only set
  a \<open>data_len\<close>. The handlers of the client, the replicator and the server do one of these.
\<close>

datatype reaction = Rx_none | Rx_start nat "nat option" | Rx_post_send nat | Rx_post_recv nat | Rx_set_len nat nat

record tcp_handler =
  on_sent :: "tcp_conn \<Rightarrow> nat \<Rightarrow> u8 list \<Rightarrow> int \<times> reaction"
  on_recved :: "tcp_conn \<Rightarrow> nat \<Rightarrow> u8 list \<Rightarrow> int \<times> reaction"

text \<open>
  The constructor and \<open>init\<close>, with the outcomes of \<open>eventfd\<close> and the allocations for each
  queue and of the three calls of \<open>add_fd\<close>. The options of the socket are not modelled.
\<close>

definition tcp_new :: "nat event_queue \<Rightarrow> nat event_queue \<Rightarrow> (nat \<Rightarrow> u8 list) \<Rightarrow> (nat \<Rightarrow> nat) \<Rightarrow> (nat \<Rightarrow> int) \<Rightarrow> tcp_conn" where
  "tcp_new sq rq buf len sock = \<lparr>t_state = CONN_INIT, t_ref = 0, t_send_q = sq, t_recv_q = rq, t_send_bd = None, t_sent_len = 0,
     t_wanted_send_len = 0, t_recv_bd = None, t_recved_len = 0, t_wanted_recv_len = 0, t_readable = False, t_writeable = False,
     t_need_reconnect = False, t_buf = buf, t_data_len = len, t_in = [], t_arrived = [], t_out = [], t_sock = sock, t_cnt = 0, t_done = [], t_taken = []\<rparr>"

definition tcp_init :: "int \<times> bool \<times> bool \<Rightarrow> int \<times> bool \<times> bool \<Rightarrow> int \<times> int \<times> int \<Rightarrow> int \<Rightarrow> int \<Rightarrow> tcp_conn \<Rightarrow> int \<times> tcp_conn" where
  "tcp_init = (\<lambda>(e1, a1, b1) (e2, a2, b2) (r1, r2, r3) send_q_depth recv_q_depth t.
     (case eq_init e1 a1 b1 0 send_q_depth True (t_send_q t) of (rc, sq) \<Rightarrow>
        if rc \<noteq> 0 then (rc, t\<lparr>t_send_q := sq\<rparr>)
        else (case eq_init e2 a2 b2 0 recv_q_depth True (t_recv_q t) of (rc, rq) \<Rightarrow>
          if rc \<noteq> 0 then (rc, t\<lparr>t_send_q := eq_destroy sq, t_recv_q := rq\<rparr>)
          else if r1 \<noteq> 0 then (r1, t\<lparr>t_send_q := eq_destroy sq, t_recv_q := eq_destroy rq\<rparr>)
          else if r2 \<noteq> 0 then (r2, t\<lparr>t_send_q := eq_destroy sq, t_recv_q := eq_destroy rq\<rparr>)
          else if r3 \<noteq> 0 then (r3, t\<lparr>t_send_q := eq_destroy sq, t_recv_q := eq_destroy rq\<rparr>)
          else (0, t\<lparr>t_send_q := sq, t_recv_q := rq\<rparr>))))"

definition tcp_add_ref :: "tcp_conn \<Rightarrow> tcp_conn" where
  "tcp_add_ref t = t\<lparr>t_ref := t_ref t + 1\<rparr>"

text \<open>
  The object is deleted when the count reaches 0; the users of a connection hold a
  reference of their own, and \<open>tcp_inv\<close> below shows that buffers do not use it up.
\<close>

definition tcp_dec_ref :: "tcp_conn \<Rightarrow> tcp_conn" where
  "tcp_dec_ref t = t\<lparr>t_ref := t_ref t - 1\<rparr>"

text \<open>A buffer is handed over, with a reference.\<close>

definition take_bd :: "nat \<Rightarrow> tcp_conn \<Rightarrow> tcp_conn" where
  "take_bd bd t = (tcp_add_ref t)\<lparr>t_taken := t_taken t @ [bd]\<rparr>"

definition tcp_post_send :: "nat \<Rightarrow> tcp_conn \<Rightarrow> int \<times> tcp_conn" where
  "tcp_post_send bd t =
     (case post_event bd (t_send_q t) of (rc, q) \<Rightarrow>
        if rc \<noteq> 0 then (rc, tcp_dec_ref ((tcp_add_ref t)\<lparr>t_send_q := q\<rparr>))
        else (0, (take_bd bd t)\<lparr>t_send_q := q\<rparr>))"

definition tcp_post_recv :: "nat \<Rightarrow> tcp_conn \<Rightarrow> int \<times> tcp_conn" where
  "tcp_post_recv bd t =
     (case post_event bd (t_recv_q t) of (rc, q) \<Rightarrow>
        if rc \<noteq> 0 then (rc, tcp_dec_ref ((tcp_add_ref t)\<lparr>t_recv_q := q\<rparr>))
        else (0, (take_bd bd t)\<lparr>t_recv_q := q\<rparr>))"

section \<open>Closing\<close>

text \<open>\<open>flush_wr\<close>: every buffer is given up. The handlers only release their request then.\<close>

definition flush_one :: "nat \<Rightarrow> tcp_conn \<Rightarrow> tcp_conn" where
  "flush_one bd t = tcp_dec_ref (t\<lparr>t_done := t_done t @ [Flushed bd]\<rparr>)"

definition flush_recv_q :: "tcp_conn \<Rightarrow> tcp_conn option" where
  "flush_recv_q t =
     (if eq_is_empty (t_recv_q t) then Some t
      else map_option (\<lambda>(bds, q). fold flush_one bds (t\<lparr>t_recv_q := q\<rparr>)) (thread_round (t_recv_q t)))"

definition flush_send_q :: "tcp_conn \<Rightarrow> tcp_conn option" where
  "flush_send_q t =
     (if eq_is_empty (t_send_q t) then Some t
      else map_option (\<lambda>(bds, q). fold flush_one bds (t\<lparr>t_send_q := q\<rparr>)) (thread_round (t_send_q t)))"

definition flush_wr :: "tcp_conn \<Rightarrow> tcp_conn option" where
  "flush_wr t =
     (let t1 = (case t_recv_bd t of None \<Rightarrow> t | Some bd \<Rightarrow> (flush_one bd t)\<lparr>t_recv_bd := None\<rparr>);
          t2 = (case t_send_bd t1 of None \<Rightarrow> t1 | Some bd \<Rightarrow> (flush_one bd t1)\<lparr>t_send_bd := None\<rparr>)
      in Option.bind (flush_recv_q t2) flush_send_q)"

text \<open>
  \<open>PfConnection::close\<close> with \<open>do_close\<close>. The handler \<open>on_close\<close> of the owner, which may give
  the owner's own reference back, is not part of the connection.
\<close>

definition tcp_close :: "tcp_conn \<Rightarrow> tcp_conn option" where
  "tcp_close t = (if t_state t \<noteq> CONN_OK then Some t else flush_wr (t\<lparr>t_state := CONN_CLOSED\<rparr>))"

section \<open>Sending\<close>

definition begin_send :: "nat \<Rightarrow> tcp_conn \<Rightarrow> tcp_conn" where
  "begin_send bd t = t\<lparr>t_send_bd := Some bd, t_wanted_send_len := t_data_len t bd, t_sent_len := 0\<rparr>"

text \<open>The result of the next call on the socket, which fails once the socket is closed.\<close>

definition sock_call :: "tcp_conn \<Rightarrow> int \<times> tcp_conn" where
  "sock_call t = (if t_state t = CONN_CLOSED then - EBADF else t_sock t (t_cnt t), t\<lparr>t_cnt := t_cnt t + 1\<rparr>)"

definition send_with_error_handle :: "nat \<Rightarrow> tcp_conn \<Rightarrow> fault + int \<times> tcp_conn" where
  "send_with_error_handle bd t =
     (if t_sent_len t < t_wanted_send_len t
      then if length (t_buf t bd) < t_wanted_send_len t then Inl Out_of_bounds
           else case sock_call t of (r, t1) \<Rightarrow>
             if 0 < r
             then let n = min (nat r) (t_wanted_send_len t - t_sent_len t)
                  in Inr (0, t1\<lparr>t_sent_len := t_sent_len t + n, t_out := t_out t @ take n (drop (t_sent_len t) (t_buf t bd))\<rparr>)
             else if r = 0 then Inr (- ECONNABORTED, t1)
             else if r = - EAGAIN then Inr (- EAGAIN, t1\<lparr>t_writeable := False\<rparr>)
             else if r = - EINTR then Inr (- EINTR, t1)
             else if r = - EFAULT then Inl Fatal_exit
             else Inr (r, t1\<lparr>t_writeable := False, t_need_reconnect := True\<rparr>)
      else Inr (0, t))"

lemma obnd_mono [partial_function_mono]:
  assumes "mono_option B" and "\<And>y. mono_option (\<lambda>f. C y f)"
  shows "mono_option (\<lambda>f. obnd (B f) (\<lambda>y. C y f))"
proof -
  have "obnd m f = Option.bind m (\<lambda>s. case s of Inl e \<Rightarrow> Some (Inl e) | Inr x \<Rightarrow> f x)" for m :: "(fault + 'c) option" and f :: "'c \<Rightarrow> (fault + 'd) option"
    by (cases m) (auto simp: obnd_def split: sum.split)
  moreover have "mono_option (\<lambda>f. case s of Inl e \<Rightarrow> Some (Inl e) | Inr x \<Rightarrow> C x f)" for s
    using assms(2) by (cases s) (simp_all add: monotone_on_def option.leq_refl)
  ultimately show ?thesis using assms(1) by (simp add: bind_mono)
qed

definition set_len :: "nat \<Rightarrow> nat option \<Rightarrow> tcp_conn \<Rightarrow> tcp_conn" where
  "set_len bd n t = (case n of None \<Rightarrow> t | Some k \<Rightarrow> t\<lparr>t_data_len := (t_data_len t)(bd := k)\<rparr>)"

text \<open>What a handler does other than to start a buffer.\<close>

fun react_post :: "reaction \<Rightarrow> tcp_conn \<Rightarrow> tcp_conn" where
  "react_post (Rx_post_send bd) t = snd (tcp_post_send bd t)"
| "react_post (Rx_post_recv bd) t = snd (tcp_post_recv bd t)"
| "react_post (Rx_set_len bd n) t = set_len bd (Some n) t"
| "react_post _ t = t"

text \<open>
  \<open>do_send\<close>; \<open>start_send\<close> is \<open>begin_send\<close> followed by \<open>do_send\<close>. A buffer is taken from the
  queue only when there is one, so that reading the queue does not fail.
\<close>

partial_function (option) do_send :: "tcp_handler \<Rightarrow> tcp_conn \<Rightarrow> (fault + int \<times> tcp_conn) option" where
  "do_send h t =
     (case t_send_bd t of
        None \<Rightarrow>
          if eq_is_empty (t_send_q t) then Some (Inr (0, t))
          else (case get_event (t_send_q t) of
              None \<Rightarrow> None
            | Some (e, ev, q) \<Rightarrow>
                (case ev of
                   None \<Rightarrow> Some (Inl Null_deref)
                 | Some bd \<Rightarrow>
                     obnd (do_send h (begin_send bd (t\<lparr>t_send_q := q\<rparr>))) (\<lambda>(rc, t1).
                       if rc \<noteq> 0 then Some (Inr (rc, t1))
                       else if t_writeable t1 then do_send h t1 else Some (Inr (0, t1)))))
      | Some bd \<Rightarrow>
          (case send_with_error_handle bd t of
             Inl f \<Rightarrow> Some (Inl f)
           | Inr (rc, t1) \<Rightarrow>
               if rc \<noteq> 0 \<and> rc \<noteq> - EAGAIN then map_option (\<lambda>t2. Inr (- ECONNABORTED, t2)) (tcp_close t1)
               else if t_wanted_send_len t1 = t_sent_len t1
               then let c = take (t_wanted_send_len t1) (t_buf t1 bd);
                        t2 = t1\<lparr>t_send_bd := None, t_done := t_done t1 @ [Sent bd c]\<rparr>;
                        (rc2, re) = on_sent h t2 bd c
                    in obnd (case re of
                               Rx_start bd2 n \<Rightarrow> obnd (do_send h (begin_send bd2 (set_len bd2 n (take_bd bd2 t2)))) (\<lambda>(rc3, t3). Some (Inr t3))
                             | _ \<Rightarrow> Some (Inr (react_post re t2)))
                         (\<lambda>t3. let t4 = tcp_dec_ref t3
                               in if rc2 < 0 then map_option (\<lambda>t5. Inr (rc2, t5)) (tcp_close t4)
                                  else if t_writeable t4 then do_send h t4 else Some (Inr (0, t4)))
               else if t_writeable t1 then do_send h t1 else Some (Inr (0, t1))))"

definition on_send_q_event :: "tcp_handler \<Rightarrow> tcp_conn \<Rightarrow> (fault + tcp_conn) option" where
  "on_send_q_event h t =
     (if t_send_bd t \<noteq> None \<or> eq_is_empty (t_send_q t) then Some (Inr t)
      else case get_event (t_send_q t) of
          None \<Rightarrow> None
        | Some (e, ev, q) \<Rightarrow>
            (case ev of
               None \<Rightarrow> Some (Inr (t\<lparr>t_send_q := q\<rparr>))
             | Some bd \<Rightarrow> obnd (do_send h (begin_send bd (t\<lparr>t_send_q := q\<rparr>))) (\<lambda>(rc, t1). Some (Inr t1))))"

section \<open>Receiving\<close>

definition begin_recv :: "nat \<Rightarrow> tcp_conn \<Rightarrow> tcp_conn" where
  "begin_recv bd t = t\<lparr>t_recv_bd := Some bd, t_wanted_recv_len := t_data_len t bd, t_recved_len := 0\<rparr>"

text \<open>
  The loop of \<open>rcv_with_error_handle\<close>; the parameter counts the bytes that are still wanted.
  A call that would return bytes when none have arrived fails with \<open>EAGAIN\<close>.
\<close>

function rcv_with_error_handle :: "nat \<Rightarrow> tcp_conn \<Rightarrow> fault + int \<times> tcp_conn" where
  "rcv_with_error_handle bd t =
     (if t_recved_len t < t_wanted_recv_len t
      then if length (t_buf t bd) < t_wanted_recv_len t then Inl Out_of_bounds
           else case sock_call t of (r0, t1) \<Rightarrow>
             let r = (if 0 < r0 \<and> t_in t = [] then - EAGAIN else r0)
             in if 0 < r
                then let n = min (min (nat r) (t_wanted_recv_len t - t_recved_len t)) (length (t_in t)); b = t_buf t bd
                     in rcv_with_error_handle bd (t1\<lparr>t_recved_len := t_recved_len t + n, t_in := drop n (t_in t),
                          t_buf := (t_buf t)(bd := take (t_recved_len t) b @ take n (t_in t) @ drop (t_recved_len t + n) b)\<rparr>)
                else if r = 0 then Inr (- ECONNABORTED, t1)
                else if r = - EAGAIN then Inr (- EAGAIN, t1\<lparr>t_readable := False\<rparr>)
                else if r = - EINTR then Inr (- EINTR, t1)
                else if r = - EFAULT then Inl Fatal_exit
                else Inr (r, t1\<lparr>t_readable := False, t_need_reconnect := True\<rparr>)
      else Inr (0, t))"
  by pat_completeness auto
termination
  by (relation "measure (\<lambda>(bd, t). t_wanted_recv_len t - t_recved_len t)") (auto simp: sock_call_def min_def intro!: diff_less_mono2 split: if_splits)

declare rcv_with_error_handle.simps [simp del]

partial_function (option) do_receive :: "tcp_handler \<Rightarrow> tcp_conn \<Rightarrow> (fault + int \<times> tcp_conn) option" where
  "do_receive h t =
     (case t_recv_bd t of
        None \<Rightarrow>
          if eq_is_empty (t_recv_q t) then Some (Inr (0, t))
          else (case get_event (t_recv_q t) of
              None \<Rightarrow> None
            | Some (e, ev, q) \<Rightarrow>
                (case ev of
                   None \<Rightarrow> Some (Inl Null_deref)
                 | Some bd \<Rightarrow>
                     let t1 = begin_recv bd (t\<lparr>t_recv_q := q\<rparr>)
                     in if t_readable t1 then do_receive h t1 else Some (Inr (0, t1))))
      | Some bd \<Rightarrow>
          (case rcv_with_error_handle bd t of
             Inl f \<Rightarrow> Some (Inl f)
           | Inr (rc, t1) \<Rightarrow>
               if rc \<noteq> 0 \<and> rc \<noteq> - EAGAIN then map_option (\<lambda>t2. Inr (- ECONNABORTED, t2)) (tcp_close t1)
               else if t_wanted_recv_len t1 = t_recved_len t1
               then let c = take (t_wanted_recv_len t1) (t_buf t1 bd);
                        t2 = t1\<lparr>t_recv_bd := None, t_done := t_done t1 @ [Received bd c]\<rparr>;
                        (rc2, re) = on_recved h t2 bd c
                    in obnd (case re of
                               Rx_start bd2 n \<Rightarrow> obnd (do_receive h (begin_recv bd2 (set_len bd2 n (take_bd bd2 t2)))) (\<lambda>(rc3, t3). Some (Inr t3))
                             | _ \<Rightarrow> Some (Inr (react_post re t2)))
                         (\<lambda>t3. let t4 = tcp_dec_ref t3
                               in if rc2 = - ECONNABORTED then map_option (\<lambda>t5. Inr (- ECONNABORTED, t5)) (tcp_close t4)
                                  else if t_readable t4 then do_receive h t4 else Some (Inr (0, t4)))
               else if t_readable t1 then do_receive h t1 else Some (Inr (0, t1))))"

definition on_recv_q_event :: "tcp_handler \<Rightarrow> tcp_conn \<Rightarrow> (fault + tcp_conn) option" where
  "on_recv_q_event h t =
     (if t_recv_bd t \<noteq> None \<or> eq_is_empty (t_recv_q t) then Some (Inr t)
      else case get_event (t_recv_q t) of
          None \<Rightarrow> None
        | Some (e, ev, q) \<Rightarrow>
            (case ev of
               None \<Rightarrow> Some (Inr (t\<lparr>t_recv_q := q\<rparr>))
             | Some bd \<Rightarrow> obnd (do_receive h (begin_recv bd (t\<lparr>t_recv_q := q\<rparr>))) (\<lambda>(rc, t1). Some (Inr t1))))"

text \<open>An event of the socket: an error or the end of the connection, bytes to read, room to write.\<close>

definition on_socket_event :: "tcp_handler \<Rightarrow> bool \<Rightarrow> bool \<Rightarrow> bool \<Rightarrow> tcp_conn \<Rightarrow> (fault + tcp_conn) option" where
  "on_socket_event h failed in_event out_event t =
     (if failed then map_option Inr (tcp_close t)
      else let t1 = t\<lparr>t_readable := (in_event \<or> t_readable t), t_writeable := (out_event \<or> t_writeable t)\<rparr>
           in obnd (if t_readable t1 then obnd (do_receive h t1) (\<lambda>(rc, t2). Some (Inr t2)) else Some (Inr t1))
                (\<lambda>t2. if t_writeable t2 then obnd (do_send h t2) (\<lambda>(rc, t3). Some (Inr t3)) else Some (Inr t2)))"

section \<open>Buffers and references\<close>

fun done_bd :: "tcp_done \<Rightarrow> nat" where
  "done_bd (Sent bd c) = bd"
| "done_bd (Received bd c) = bd"
| "done_bd (Flushed bd) = bd"

definition one_bd :: "nat option \<Rightarrow> nat multiset" where
  "one_bd x = (case x of None \<Rightarrow> {#} | Some bd \<Rightarrow> {#bd#})"

definition outs :: "tcp_conn \<Rightarrow> nat multiset" where
  "outs t = one_bd (t_send_bd t) + one_bd (t_recv_bd t) + mset (eq_list (t_send_q t)) + mset (eq_list (t_recv_q t))"

text \<open>
  Every buffer handed over is done or in the connection, once; the references are those of
  \<open>k\<close> owners and one for each buffer in the connection.
\<close>

definition tcp_inv :: "int \<Rightarrow> tcp_conn \<Rightarrow> bool" where
  "tcp_inv k t \<longleftrightarrow> sem_inv (t_send_q t) \<and> sem_inv (t_recv_q t) \<and>
     mset (t_taken t) = mset (map done_bd (t_done t)) + outs t \<and> t_ref t = k + int (size (outs t))"

lemma one_bd_simps [simp]: "one_bd None = {#}" "one_bd (Some bd) = {#bd#}"
  by (simp_all add: one_bd_def)

lemma tcp_inv_post_send: "tcp_inv k t \<Longrightarrow> tcp_inv k (snd (tcp_post_send bd t))"
proof -
  assume i: "tcp_inv k t"
  obtain rc q where p: "post_event bd (t_send_q t) = (rc, q)" by (rule prod.exhaust)
  show ?thesis using i sem_post [OF _ p] p
    by (auto simp: tcp_inv_def tcp_post_send_def take_bd_def tcp_add_ref_def tcp_dec_ref_def outs_def split: if_splits)
qed

lemma tcp_inv_post_recv: "tcp_inv k t \<Longrightarrow> tcp_inv k (snd (tcp_post_recv bd t))"
proof -
  assume i: "tcp_inv k t"
  obtain rc q where p: "post_event bd (t_recv_q t) = (rc, q)" by (rule prod.exhaust)
  show ?thesis using i sem_post [OF _ p] p
    by (auto simp: tcp_inv_def tcp_post_recv_def take_bd_def tcp_add_ref_def tcp_dec_ref_def outs_def split: if_splits)
qed

lemma tcp_inv_react: "tcp_inv k t \<Longrightarrow> tcp_inv k (react_post re t)"
  by (cases re) (simp_all add: tcp_inv_post_send tcp_inv_post_recv, simp add: tcp_inv_def outs_def set_len_def)

text \<open>What flushing changes.\<close>

definition flushes :: "nat list \<Rightarrow> tcp_conn \<Rightarrow> tcp_conn" where
  "flushes bds t = t\<lparr>t_done := t_done t @ map Flushed bds, t_ref := t_ref t - int (length bds)\<rparr>"

lemma fold_flush_one: "fold flush_one bds t = flushes bds t"
  by (induction bds arbitrary: t) (simp_all add: flushes_def flush_one_def tcp_dec_ref_def)

lemma flushes_Nil: "flushes [] t = t"
  by (simp add: flushes_def)

lemma flush_recv_q_eq:
  assumes "sem_inv (t_recv_q t)"
  obtains q where "flush_recv_q t = Some (flushes (eq_list (t_recv_q t)) (t\<lparr>t_recv_q := q\<rparr>))" and "sem_inv q" and "eq_list q = []"
proof (cases "eq_list (t_recv_q t) = []")
  case True
  then show ?thesis using that [of "t_recv_q t"] assms by (simp add: flush_recv_q_def eq_is_empty_iff flushes_def)
next
  case False
  obtain q where "thread_round (t_recv_q t) = Some (eq_list (t_recv_q t), q)" "sem_inv q" "eq_list q = []"
    using sem_round [OF assms False] .
  then show ?thesis using that [of q] assms False by (simp add: flush_recv_q_def eq_is_empty_iff fold_flush_one)
qed

lemma flush_send_q_eq:
  assumes "sem_inv (t_send_q t)"
  obtains q where "flush_send_q t = Some (flushes (eq_list (t_send_q t)) (t\<lparr>t_send_q := q\<rparr>))" and "sem_inv q" and "eq_list q = []"
proof (cases "eq_list (t_send_q t) = []")
  case True
  then show ?thesis using that [of "t_send_q t"] assms by (simp add: flush_send_q_def eq_is_empty_iff flushes_def)
next
  case False
  obtain q where "thread_round (t_send_q t) = Some (eq_list (t_send_q t), q)" "sem_inv q" "eq_list q = []"
    using sem_round [OF assms False] .
  then show ?thesis using that [of q] assms False by (simp add: flush_send_q_def eq_is_empty_iff fold_flush_one)
qed

lemma tcp_close_eq:
  assumes "sem_inv (t_send_q t)" and "sem_inv (t_recv_q t)" and "t_state t = CONN_OK"
  obtains bds sq rq where "tcp_close t = Some (t\<lparr>t_state := CONN_CLOSED, t_send_bd := None, t_recv_bd := None, t_send_q := sq, t_recv_q := rq,
      t_done := t_done t @ map Flushed bds, t_ref := t_ref t - int (length bds)\<rparr>)"
    and "mset bds = outs t" and "sem_inv sq" and "sem_inv rq" and "eq_list sq = []" and "eq_list rq = []"
proof -
  let ?l = "\<lambda>x. case x of None \<Rightarrow> [] | Some bd \<Rightarrow> [bd]"
  define t1 where "t1 = flushes (?l (t_recv_bd t) @ ?l (t_send_bd t)) (t\<lparr>t_state := CONN_CLOSED, t_recv_bd := None, t_send_bd := None\<rparr>)"
  have q1: "t_recv_q t1 = t_recv_q t" "t_send_q t1 = t_send_q t" by (simp_all add: t1_def flushes_def)
  obtain rq where rq: "flush_recv_q t1 = Some (flushes (eq_list (t_recv_q t)) (t1\<lparr>t_recv_q := rq\<rparr>))" "sem_inv rq" "eq_list rq = []"
    using flush_recv_q_eq [of t1] assms(2) q1 by metis
  define t2 where "t2 = flushes (eq_list (t_recv_q t)) (t1\<lparr>t_recv_q := rq\<rparr>)"
  have "t_send_q t2 = t_send_q t" using q1 by (simp add: t2_def flushes_def)
  then obtain sq where sq: "flush_send_q t2 = Some (flushes (eq_list (t_send_q t)) (t2\<lparr>t_send_q := sq\<rparr>))" "sem_inv sq" "eq_list sq = []"
    using flush_send_q_eq [of t2] assms(1) by metis
  let ?bds = "?l (t_recv_bd t) @ ?l (t_send_bd t) @ eq_list (t_recv_q t) @ eq_list (t_send_q t)"
  let ?a = "\<lambda>x. case t_recv_bd x of None \<Rightarrow> x | Some bd \<Rightarrow> (flush_one bd x)\<lparr>t_recv_bd := None\<rparr>"
  let ?b = "\<lambda>x. case t_send_bd x of None \<Rightarrow> x | Some bd \<Rightarrow> (flush_one bd x)\<lparr>t_send_bd := None\<rparr>"
  have "?b (?a (t\<lparr>t_state := CONN_CLOSED\<rparr>)) = t1"
    by (cases t; cases "t_recv_bd t"; cases "t_send_bd t") (simp_all add: t1_def flush_one_def tcp_dec_ref_def flushes_def)
  then have "flush_wr (t\<lparr>t_state := CONN_CLOSED\<rparr>) = Option.bind (flush_recv_q t1) flush_send_q"
    unfolding flush_wr_def Let_def by (simp only:)
  then have "tcp_close t = Some (flushes (eq_list (t_send_q t)) (t2\<lparr>t_send_q := sq\<rparr>))" using assms(3) rq(1) sq(1) by (simp add: tcp_close_def t2_def)
  moreover have "flushes (eq_list (t_send_q t)) (t2\<lparr>t_send_q := sq\<rparr>) = t\<lparr>t_state := CONN_CLOSED, t_send_bd := None, t_recv_bd := None, t_send_q := sq, t_recv_q := rq,
      t_done := t_done t @ map Flushed ?bds, t_ref := t_ref t - int (length ?bds)\<rparr>"
    by (simp add: t2_def t1_def flushes_def)
  moreover have "mset ?bds = outs t" by (cases "t_recv_bd t"; cases "t_send_bd t") (simp_all add: outs_def)
  ultimately show ?thesis using that [OF _ _ sq(2) rq(2) sq(3) rq(3), of ?bds] by simp
qed

lemma tcp_inv_close:
  assumes "tcp_inv k t"
  obtains t' where "tcp_close t = Some t'" and "tcp_inv k t'" and "t_state t = CONN_OK \<Longrightarrow> outs t' = {#}"
proof (cases "t_state t = CONN_OK")
  case True
  have s: "sem_inv (t_send_q t)" "sem_inv (t_recv_q t)" using assms by (simp_all add: tcp_inv_def)
  obtain bds sq rq where c: "tcp_close t = Some (t\<lparr>t_state := CONN_CLOSED, t_send_bd := None, t_recv_bd := None, t_send_q := sq, t_recv_q := rq,
      t_done := t_done t @ map Flushed bds, t_ref := t_ref t - int (length bds)\<rparr>)"
    "mset bds = outs t" "sem_inv sq" "sem_inv rq" "eq_list sq = []" "eq_list rq = []"
    using tcp_close_eq [OF s True] .
  have "map done_bd (map Flushed bds) = bds" by (induction bds) simp_all
  moreover have "length bds = size (outs t)" using c(2) by (metis size_mset)
  ultimately show ?thesis using that [OF c(1)] assms c(2-) by (simp add: tcp_inv_def outs_def)
next
  case False
  then show ?thesis using that [of t] assms by (simp add: tcp_close_def)
qed

lemma tcp_inv_closeD:
  assumes "tcp_inv k t" and "tcp_close t = Some t'"
  shows "tcp_inv k t'"
proof -
  obtain t1 where "tcp_close t = Some t1" "tcp_inv k t1" by (rule tcp_inv_close [OF assms(1)])
  then show ?thesis using assms(2) by simp
qed

lemma tcp_inv_cong:
  assumes "t_send_q t' = t_send_q t" "t_recv_q t' = t_recv_q t" "t_send_bd t' = t_send_bd t" "t_recv_bd t' = t_recv_bd t"
    "t_taken t' = t_taken t" "t_done t' = t_done t" "t_ref t' = t_ref t"
  shows "tcp_inv k t' = tcp_inv k t"
  using assms by (simp add: tcp_inv_def outs_def)

lemma tcp_inv_pop_send:
  assumes "tcp_inv k t" and "t_send_bd t = None" and "eq_list (t_send_q t) = bd # eq_list q" and "sem_inv q"
  shows "tcp_inv k (begin_send bd (t\<lparr>t_send_q := q\<rparr>))"
  using assms by (simp add: tcp_inv_def outs_def begin_send_def)

lemma tcp_inv_pop_recv:
  assumes "tcp_inv k t" and "t_recv_bd t = None" and "eq_list (t_recv_q t) = bd # eq_list q" and "sem_inv q"
  shows "tcp_inv k (begin_recv bd (t\<lparr>t_recv_q := q\<rparr>))"
  using assms by (simp add: tcp_inv_def outs_def begin_recv_def)

lemma tcp_inv_sent:
  assumes "tcp_inv k t" and "t_send_bd t = Some bd"
  shows "tcp_inv (k + 1) (t\<lparr>t_send_bd := None, t_done := t_done t @ [Sent bd c]\<rparr>)"
  using assms by (simp add: tcp_inv_def outs_def)

lemma tcp_inv_recved:
  assumes "tcp_inv k t" and "t_recv_bd t = Some bd"
  shows "tcp_inv (k + 1) (t\<lparr>t_recv_bd := None, t_done := t_done t @ [Received bd c]\<rparr>)"
  using assms by (simp add: tcp_inv_def outs_def)

lemma tcp_inv_start_send:
  "tcp_inv k t \<Longrightarrow> t_send_bd t = None \<Longrightarrow> tcp_inv k (begin_send bd (set_len bd n (take_bd bd t)))"
  by (cases n) (simp_all add: tcp_inv_def outs_def begin_send_def set_len_def take_bd_def tcp_add_ref_def)

lemma tcp_inv_start_recv:
  "tcp_inv k t \<Longrightarrow> t_recv_bd t = None \<Longrightarrow> tcp_inv k (begin_recv bd (set_len bd n (take_bd bd t)))"
  by (cases n) (simp_all add: tcp_inv_def outs_def begin_recv_def set_len_def take_bd_def tcp_add_ref_def)

lemma tcp_inv_dec: "tcp_inv (k + 1) t \<Longrightarrow> tcp_inv k (tcp_dec_ref t)"
  by (simp add: tcp_inv_def outs_def tcp_dec_ref_def)

text \<open>The fields that a step on the socket leaves alone.\<close>

definition io_frame :: "tcp_conn \<Rightarrow> tcp_conn \<Rightarrow> bool" where
  "io_frame t t' \<longleftrightarrow> t_send_q t' = t_send_q t \<and> t_recv_q t' = t_recv_q t \<and> t_send_bd t' = t_send_bd t \<and> t_recv_bd t' = t_recv_bd t \<and>
     t_taken t' = t_taken t \<and> t_done t' = t_done t \<and> t_ref t' = t_ref t \<and> t_state t' = t_state t \<and> t_data_len t' = t_data_len t \<and> t_sock t' = t_sock t"

lemma io_frame_inv: "io_frame t t' \<Longrightarrow> tcp_inv k t' = tcp_inv k t"
  by (rule tcp_inv_cong) (simp_all add: io_frame_def)

lemma send_step_frame:
  assumes "send_with_error_handle bd t = Inr (rc, t1)"
  shows "io_frame t t1" "t_buf t1 = t_buf t" "t_in t1 = t_in t" "t_readable t1 = t_readable t" "t_recved_len t1 = t_recved_len t"
    "t_wanted_recv_len t1 = t_wanted_recv_len t" "t_wanted_send_len t1 = t_wanted_send_len t"
  using assms by (simp_all add: send_with_error_handle_def sock_call_def Let_def io_frame_def split: if_splits) (auto simp: io_frame_def)

text \<open>The rounds of the receive loop: \<open>n\<close> bytes are taken from the socket, until the buffer is full or a call fails.\<close>

definition rcv_step :: "nat \<Rightarrow> nat \<Rightarrow> tcp_conn \<Rightarrow> tcp_conn" where
  "rcv_step bd n t = t\<lparr>t_cnt := t_cnt t + 1, t_recved_len := t_recved_len t + n, t_in := drop n (t_in t),
     t_buf := (t_buf t)(bd := take (t_recved_len t) (t_buf t bd) @ take n (t_in t) @ drop (t_recved_len t + n) (t_buf t bd))\<rparr>"

lemma rcv_unfold:
  assumes "sock_call t = (r0, t\<lparr>t_cnt := t_cnt t + 1\<rparr>)" and "t_recved_len t < t_wanted_recv_len t" and "r = (if 0 < r0 \<and> t_in t = [] then - EAGAIN else r0)"
  shows "rcv_with_error_handle bd t =
    (if length (t_buf t bd) < t_wanted_recv_len t then Inl Out_of_bounds
     else if 0 < r then rcv_with_error_handle bd (rcv_step bd (min (min (nat r) (t_wanted_recv_len t - t_recved_len t)) (length (t_in t))) t)
     else if r = 0 then Inr (- ECONNABORTED, t\<lparr>t_cnt := t_cnt t + 1\<rparr>)
     else if r = - EAGAIN then Inr (- EAGAIN, t\<lparr>t_cnt := t_cnt t + 1, t_readable := False\<rparr>)
     else if r = - EINTR then Inr (- EINTR, t\<lparr>t_cnt := t_cnt t + 1\<rparr>)
     else if r = - EFAULT then Inl Fatal_exit
     else Inr (r, t\<lparr>t_cnt := t_cnt t + 1, t_readable := False, t_need_reconnect := True\<rparr>))"
  by (subst rcv_with_error_handle.simps) (simp only: assms(1,2) prod.case Let_def assms(3) [symmetric] if_True rcv_step_def)

lemma rcv_stopped:
  assumes "rcv_with_error_handle bd t = Inr (rc, t1)" and "sock_call t = (r0, t\<lparr>t_cnt := t_cnt t + 1\<rparr>)" and "t_recved_len t < t_wanted_recv_len t"
    and "r = (if 0 < r0 \<and> t_in t = [] then - EAGAIN else r0)" and "\<not> 0 < r"
  shows "\<exists>a b. rc \<noteq> 0 \<and> (rc = - EAGAIN \<longrightarrow> \<not> a) \<and> t1 = t\<lparr>t_cnt := t_cnt t + 1, t_readable := a, t_need_reconnect := b\<rparr>"
proof -
  note u = assms(1) [unfolded rcv_unfold [OF assms(2,3,4)]]
  have nb: "\<not> length (t_buf t bd) < t_wanted_recv_len t"
  proof
    assume "length (t_buf t bd) < t_wanted_recv_len t"
    then show False using u by simp
  qed
  show ?thesis
  proof (cases "r = 0 \<or> r = - EINTR")
    case True
    then have "t1 = t\<lparr>t_cnt := t_cnt t + 1\<rparr>" "rc \<noteq> 0 \<and> rc \<noteq> - EAGAIN" using u nb assms(5) by (elim disjE; simp; fail)+
    then show ?thesis by (intro exI [of _ "t_readable t"] exI [of _ "t_need_reconnect t"]) simp
  next
    case False
    show ?thesis
    proof (cases "r = - EAGAIN")
      case True
      then have "t1 = t\<lparr>t_cnt := t_cnt t + 1, t_readable := False\<rparr>" "rc \<noteq> 0" using u nb assms(5) by simp_all
      then show ?thesis by (intro exI [of _ False] exI [of _ "t_need_reconnect t"]) simp
    next
      case f: False
      have "r \<noteq> - EFAULT" using u nb assms(5) by (intro notI) simp
      then have "t1 = t\<lparr>t_cnt := t_cnt t + 1, t_readable := False, t_need_reconnect := True\<rparr>" "rc \<noteq> 0" using u nb assms(5) False f by simp_all
      then show ?thesis by (intro exI [of _ False] exI [of _ True]) simp
    qed
  qed
qed

lemma rcv_induct [consumes 1, case_names full stop more]:
  assumes "rcv_with_error_handle bd t = Inr (rc, t1)"
    and full: "\<And>t. \<not> t_recved_len t < t_wanted_recv_len t \<Longrightarrow> P t 0 t"
    and stop: "\<And>t rc a b. t_recved_len t < t_wanted_recv_len t \<Longrightarrow> rc \<noteq> 0 \<Longrightarrow> rc = - EAGAIN \<longrightarrow> \<not> a \<Longrightarrow>
      P t rc (t\<lparr>t_cnt := t_cnt t + 1, t_readable := a, t_need_reconnect := b\<rparr>)"
    and more: "\<And>t n rc t1. t_recved_len t < t_wanted_recv_len t \<Longrightarrow> t_wanted_recv_len t \<le> length (t_buf t bd) \<Longrightarrow> t_state t \<noteq> CONN_CLOSED \<Longrightarrow>
      0 < n \<Longrightarrow> n \<le> t_wanted_recv_len t - t_recved_len t \<Longrightarrow> n \<le> length (t_in t) \<Longrightarrow> P (rcv_step bd n t) rc t1 \<Longrightarrow> P t rc t1"
  shows "P t rc t1"
  using assms(1)
proof (induction "t_wanted_recv_len t - t_recved_len t" arbitrary: t rule: less_induct)
  case less
  show ?case
  proof (cases "t_recved_len t < t_wanted_recv_len t")
    case False
    then have "rc = 0 \<and> t1 = t" using less.prems by (subst (asm) rcv_with_error_handle.simps) simp
    then show ?thesis using full [OF False] by simp
  next
    case l: True
    obtain r0 where s: "sock_call t = (r0, t\<lparr>t_cnt := t_cnt t + 1\<rparr>)" by (simp add: sock_call_def)
    define r where "r = (if 0 < r0 \<and> t_in t = [] then - EAGAIN else r0)"
    define n where "n = min (min (nat r) (t_wanted_recv_len t - t_recved_len t)) (length (t_in t))"
    show ?thesis
    proof (cases "0 < r")
      case True
      have in_: "t_in t \<noteq> []" using True by (auto simp: r_def split: if_splits)
      have u: "t_wanted_recv_len t \<le> length (t_buf t bd)" "rcv_with_error_handle bd (rcv_step bd n t) = Inr (rc, t1)"
        using less.prems True unfolding rcv_unfold [OF s l r_def] n_def [symmetric] by (simp_all split: if_splits)
      have o: "t_state t \<noteq> CONN_CLOSED" using s True by (auto simp: sock_call_def r_def split: if_splits)
      have n: "0 < n" "n \<le> t_wanted_recv_len t - t_recved_len t" "n \<le> length (t_in t)" using True l in_ by (simp_all add: n_def)
      have "P (rcv_step bd n t) rc t1" by (rule less.hyps) (use u n l in \<open>simp_all add: rcv_step_def\<close>)
      then show ?thesis by (rule more [OF l u(1) o n])
    next
      case False
      obtain a b where ab: "rc \<noteq> 0" "rc = - EAGAIN \<longrightarrow> \<not> a" "t1 = t\<lparr>t_cnt := t_cnt t + 1, t_readable := a, t_need_reconnect := b\<rparr>"
        using rcv_stopped [OF less.prems s l r_def False] by (elim exE conjE)
      show ?thesis unfolding ab(3) by (rule stop [OF l ab(1,2)])
    qed
  qed
qed

lemma rcv_step_frame:
  "rcv_with_error_handle bd t = Inr (rc, t1) \<Longrightarrow> io_frame t t1 \<and> t_out t1 = t_out t \<and> t_writeable t1 = t_writeable t \<and> t_sent_len t1 = t_sent_len t \<and>
     t_wanted_send_len t1 = t_wanted_send_len t \<and> t_wanted_recv_len t1 = t_wanted_recv_len t \<and> (\<forall>b. b \<noteq> bd \<longrightarrow> t_buf t1 b = t_buf t b)"
  by (induction rule: rcv_induct) (simp_all add: io_frame_def rcv_step_def)

text \<open>What happens when a buffer is done, in both directions: the reaction of the handler and the rest of the loop.\<close>

abbreviation finish ::
  "(tcp_conn \<Rightarrow> (fault + int \<times> tcp_conn) option) \<Rightarrow> (nat \<Rightarrow> nat option \<Rightarrow> tcp_conn) \<Rightarrow> (tcp_conn \<Rightarrow> bool) \<Rightarrow> bool \<Rightarrow> int \<Rightarrow> reaction \<Rightarrow> tcp_conn \<Rightarrow>
     (fault + int \<times> tcp_conn) option" where
  "finish f start again stop v re t2 \<equiv>
     obnd (case re of
             Rx_start bd2 n \<Rightarrow> obnd (f (start bd2 n)) (\<lambda>(rc3, t3). Some (Inr t3))
           | _ \<Rightarrow> Some (Inr (react_post re t2)))
       (\<lambda>t3. if stop then map_option (\<lambda>t5. Inr (v, t5)) (tcp_close (tcp_dec_ref t3))
             else if again (tcp_dec_ref t3) then f (tcp_dec_ref t3) else Some (Inr (0, tcp_dec_ref t3)))"

text \<open>
  A property of connections that every elementary step keeps is kept by the loops and by
  every event. The first argument counts the references of the owners, with the one of a
  buffer whose handler is running. \<open>ok\<close> says which buffers the users of the connection
  may post for sending or receiving, or write to and give a length.
\<close>

datatype use = Use_send | Use_recv | Use_fill nat

definition arrive :: "u8 list \<Rightarrow> tcp_conn \<Rightarrow> tcp_conn" where
  "arrive bs t = t\<lparr>t_in := t_in t @ bs, t_arrived := t_arrived t @ bs\<rparr>"

definition fill :: "nat \<Rightarrow> u8 list \<Rightarrow> nat \<Rightarrow> tcp_conn \<Rightarrow> tcp_conn" where
  "fill bd bs n t = t\<lparr>t_buf := (t_buf t)(bd := bs), t_data_len := (t_data_len t)(bd := n)\<rparr>"

inductive tcp_run :: "(use \<Rightarrow> nat \<Rightarrow> tcp_conn \<Rightarrow> bool) \<Rightarrow> tcp_handler \<Rightarrow> tcp_conn \<Rightarrow> tcp_conn \<Rightarrow> bool" for ok h t where
  run_start: "tcp_run ok h t t"
| run_post_send: "tcp_run ok h t t1 \<Longrightarrow> ok Use_send bd t1 \<Longrightarrow> tcp_run ok h t (snd (tcp_post_send bd t1))"
| run_post_recv: "tcp_run ok h t t1 \<Longrightarrow> ok Use_recv bd t1 \<Longrightarrow> tcp_run ok h t (snd (tcp_post_recv bd t1))"
| run_fill: "tcp_run ok h t t1 \<Longrightarrow> ok (Use_fill n) bd t1 \<Longrightarrow> tcp_run ok h t (fill bd bs n t1)"
| run_arrive: "tcp_run ok h t t1 \<Longrightarrow> tcp_run ok h t (arrive bs t1)"
| run_send_q: "tcp_run ok h t t1 \<Longrightarrow> on_send_q_event h t1 = Some (Inr t2) \<Longrightarrow> tcp_run ok h t t2"
| run_recv_q: "tcp_run ok h t t1 \<Longrightarrow> on_recv_q_event h t1 = Some (Inr t2) \<Longrightarrow> tcp_run ok h t t2"
| run_socket: "tcp_run ok h t t1 \<Longrightarrow> on_socket_event h e i out t1 = Some (Inr t2) \<Longrightarrow> tcp_run ok h t t2"
| run_close: "tcp_run ok h t t1 \<Longrightarrow> tcp_close t1 = Some t2 \<Longrightarrow> tcp_run ok h t t2"

locale conn_keeps =
  fixes J :: "int \<Rightarrow> tcp_conn \<Rightarrow> bool" and ok :: "use \<Rightarrow> nat \<Rightarrow> tcp_conn \<Rightarrow> bool" and h :: tcp_handler
  assumes inv: "J k t \<Longrightarrow> tcp_inv k t"
    and close: "J k t \<Longrightarrow> tcp_close t = Some t' \<Longrightarrow> J k t'"
    and pop_send: "J k t \<Longrightarrow> t_send_bd t = None \<Longrightarrow> eq_list (t_send_q t) = bd # eq_list q \<Longrightarrow> sem_inv q \<Longrightarrow> J k (begin_send bd (t\<lparr>t_send_q := q\<rparr>))"
    and pop_recv: "J k t \<Longrightarrow> t_recv_bd t = None \<Longrightarrow> eq_list (t_recv_q t) = bd # eq_list q \<Longrightarrow> sem_inv q \<Longrightarrow> J k (begin_recv bd (t\<lparr>t_recv_q := q\<rparr>))"
    and send_io: "J k t \<Longrightarrow> t_send_bd t = Some bd \<Longrightarrow> send_with_error_handle bd t = Inr (rc, t1) \<Longrightarrow> J k t1"
    and recv_io: "J k t \<Longrightarrow> t_recv_bd t = Some bd \<Longrightarrow> rcv_with_error_handle bd t = Inr (rc, t1) \<Longrightarrow> J k t1"
    and sent: "J k t \<Longrightarrow> t_send_bd t = Some bd \<Longrightarrow> t_wanted_send_len t = t_sent_len t \<Longrightarrow>
      t2 = t\<lparr>t_send_bd := None, t_done := t_done t @ [Sent bd (take (t_wanted_send_len t) (t_buf t bd))]\<rparr> \<Longrightarrow>
      on_sent h t2 bd (take (t_wanted_send_len t) (t_buf t bd)) = (rc, re) \<Longrightarrow>
      (case re of Rx_start bd2 n \<Rightarrow> J (k + 1) (begin_send bd2 (set_len bd2 n (take_bd bd2 t2))) | _ \<Rightarrow> J (k + 1) (react_post re t2))"
    and received: "J k t \<Longrightarrow> t_recv_bd t = Some bd \<Longrightarrow> t_wanted_recv_len t = t_recved_len t \<Longrightarrow>
      t2 = t\<lparr>t_recv_bd := None, t_done := t_done t @ [Received bd (take (t_wanted_recv_len t) (t_buf t bd))]\<rparr> \<Longrightarrow>
      on_recved h t2 bd (take (t_wanted_recv_len t) (t_buf t bd)) = (rc, re) \<Longrightarrow>
      (case re of Rx_start bd2 n \<Rightarrow> J (k + 1) (begin_recv bd2 (set_len bd2 n (take_bd bd2 t2))) | _ \<Rightarrow> J (k + 1) (react_post re t2))"
    and dec: "J (k + 1) t \<Longrightarrow> J k (tcp_dec_ref t)"
    and flags: "J k t \<Longrightarrow> J k (t\<lparr>t_readable := a, t_writeable := b\<rparr>)"
    and arrives: "J k t \<Longrightarrow> J k (arrive bs t)"
    and fills: "J k t \<Longrightarrow> ok (Use_fill n) bd t \<Longrightarrow> J k (fill bd bs n t)"
    and posts_send: "J k t \<Longrightarrow> ok Use_send bd t \<Longrightarrow> J k (snd (tcp_post_send bd t))"
    and posts_recv: "J k t \<Longrightarrow> ok Use_recv bd t \<Longrightarrow> J k (snd (tcp_post_recv bd t))"
begin

lemma finish_keeps:
  assumes IH: "\<And>k t rc t'. f t = Some (Inr (rc, t')) \<Longrightarrow> J k t \<Longrightarrow> J k t'"
    and re: "case re of Rx_start bd2 n \<Rightarrow> J (k + 1) (start bd2 n) | _ \<Rightarrow> J (k + 1) (react_post re t2)"
    and b: "finish f start again stop v re t2 = Some (Inr (rc, t'))"
  shows "J k t'"
proof -
  obtain t3 where 3: "(case re of Rx_start bd2 n \<Rightarrow> obnd (f (start bd2 n)) (\<lambda>(rc3, t3). Some (Inr t3)) | _ \<Rightarrow> Some (Inr (react_post re t2))) = Some (Inr t3)"
      "tcp_close (tcp_dec_ref t3) = Some t' \<or> f (tcp_dec_ref t3) = Some (Inr (rc, t')) \<or> t' = tcp_dec_ref t3"
    using b by (auto simp: obnd_def split: if_splits option.splits sum.splits)
  have "J (k + 1) t3"
  proof (cases "\<exists>bd2 n. re = Rx_start bd2 n")
    case True
    then obtain bd2 n where r: "re = Rx_start bd2 n" by blast
    obtain rc3 where "f (start bd2 n) = Some (Inr (rc3, t3))" using 3(1) r by (auto simp: obnd_def split: option.splits sum.splits)
    then show ?thesis by (rule IH) (use re r in simp)
  next
    case False
    then show ?thesis using 3(1) re by (cases re) auto
  qed
  then have i: "J k (tcp_dec_ref t3)" by (rule dec)
  from 3(2) show ?thesis
  proof (elim disjE)
    assume "tcp_close (tcp_dec_ref t3) = Some t'"
    then show ?thesis by (rule close [OF i])
  next
    assume "f (tcp_dec_ref t3) = Some (Inr (rc, t'))"
    then show ?thesis by (rule IH [OF _ i])
  next
    assume "t' = tcp_dec_ref t3"
    then show ?thesis using i by simp
  qed
qed

lemma do_send_keeps:
  "do_send h' t = Some y \<Longrightarrow> h' = h \<longrightarrow> (\<forall>k rc t'. y = Inr (rc, t') \<longrightarrow> J k t \<longrightarrow> J k t')"
proof (erule do_send.raw_induct [rotated], goal_cases)
  case (1 f h' t y)
  have IH: "f h t = Some (Inr (rc, t')) \<Longrightarrow> J k t \<Longrightarrow> J k t'" for k t rc t' using 1(1) by blast
  show ?case
  proof (intro allI impI)
    fix k rc t' assume h': "h' = h" and y: "y = Inr (rc, t')" and J: "J k t"
    note body = 1(2) [unfolded h']
    show "J k t'"
    proof (cases "t_send_bd t")
      case None
      have s: "sem_inv (t_send_q t)" using inv [OF J] by (simp add: tcp_inv_def)
      show ?thesis
      proof (cases "eq_list (t_send_q t)")
        case Nil
        then show ?thesis using body None y J s by (simp add: eq_is_empty_iff)
      next
        case (Cons bd xs)
        obtain q where q: "get_event (t_send_q t) = Some (0, Some bd, q)" "sem_inv q" "eq_list q = xs" using sem_get [OF s Cons] .
        let ?t1 = "begin_send bd (t\<lparr>t_send_q := q\<rparr>)"
        have i1: "J k ?t1" by (rule pop_send [OF J None]) (use q Cons in simp_all)
        have b: "obnd (f h ?t1) (\<lambda>(rc, t1). if rc \<noteq> 0 then Some (Inr (rc, t1))
                       else if t_writeable t1 then f h t1 else Some (Inr (0, t1))) = Some (Inr (rc, t'))"
          using body y None q Cons eq_is_empty_iff [OF s] by simp
        then obtain rc1 t1 where f1: "f h ?t1 = Some (Inr (rc1, t1))" by (auto simp: obnd_def split: option.splits sum.splits)
        have "f h t1 = Some (Inr (rc, t')) \<or> t' = t1" using b f1 by (auto split: if_splits)
        then show ?thesis using IH [OF f1 i1] IH [of t1] by blast
      qed
    next
      case (Some bd)
      obtain r1 t1 where s: "send_with_error_handle bd t = Inr (r1, t1)"
      proof (cases "send_with_error_handle bd t")
        case (Inl e)
        then show ?thesis using body by (simp only: y Some option.case sum.case) simp
      next
        case (Inr p)
        then show ?thesis using that by (cases p) simp
      qed
      have i1: "J k t1" using send_io [OF J Some s] .
      have bd1: "t_send_bd t1 = Some bd" using send_step_frame(1) [OF s] Some by (simp add: io_frame_def)
      define c where "c = take (t_wanted_send_len t1) (t_buf t1 bd)"
      define t2 where "t2 = t1\<lparr>t_send_bd := None, t_done := t_done t1 @ [Sent bd c]\<rparr>"
      obtain rc2 re where h: "on_sent h t2 bd c = (rc2, re)" by (rule prod.exhaust)
      have "tcp_close t1 = Some t' \<or> f h t1 = Some (Inr (rc, t')) \<or> t' = t1 \<or> t_wanted_send_len t1 = t_sent_len t1 \<and>
         finish (f h) (\<lambda>bd2 n. begin_send bd2 (set_len bd2 n (take_bd bd2 t2))) t_writeable (rc2 < 0) rc2 re t2 = Some (Inr (rc, t'))"
        using body by (simp only: y Some s option.case sum.case prod.case Let_def c_def [symmetric] h t2_def [symmetric]) (simp split: if_splits, blast?)
      moreover have "J k t'" if "t_wanted_send_len t1 = t_sent_len t1"
        "finish (f h) (\<lambda>bd2 n. begin_send bd2 (set_len bd2 n (take_bd bd2 t2))) t_writeable (rc2 < 0) rc2 re t2 = Some (Inr (rc, t'))"
        by (rule finish_keeps [OF _ sent [OF i1 bd1 that(1) t2_def [unfolded c_def] h [unfolded c_def]] that(2)], erule IH)
      ultimately show ?thesis using close [OF i1] IH [OF _ i1] i1 by blast
    qed
  qed
qed

lemma do_receive_keeps:
  "do_receive h' t = Some y \<Longrightarrow> h' = h \<longrightarrow> (\<forall>k rc t'. y = Inr (rc, t') \<longrightarrow> J k t \<longrightarrow> J k t')"
proof (erule do_receive.raw_induct [rotated], goal_cases)
  case (1 f h' t y)
  have IH: "f h t = Some (Inr (rc, t')) \<Longrightarrow> J k t \<Longrightarrow> J k t'" for k t rc t' using 1(1) by blast
  show ?case
  proof (intro allI impI)
    fix k rc t' assume h': "h' = h" and y: "y = Inr (rc, t')" and J: "J k t"
    note body = 1(2) [unfolded h']
    show "J k t'"
    proof (cases "t_recv_bd t")
      case None
      have s: "sem_inv (t_recv_q t)" using inv [OF J] by (simp add: tcp_inv_def)
      show ?thesis
      proof (cases "eq_list (t_recv_q t)")
        case Nil
        then show ?thesis using body None y J s by (simp add: eq_is_empty_iff)
      next
        case (Cons bd xs)
        obtain q where q: "get_event (t_recv_q t) = Some (0, Some bd, q)" "sem_inv q" "eq_list q = xs" using sem_get [OF s Cons] .
        let ?t1 = "begin_recv bd (t\<lparr>t_recv_q := q\<rparr>)"
        have i1: "J k ?t1" by (rule pop_recv [OF J None]) (use q Cons in simp_all)
        have "(if t_readable ?t1 then f h ?t1 else Some (Inr (0, ?t1))) = Some (Inr (rc, t'))"
          using body y None q Cons eq_is_empty_iff [OF s] by (simp add: Let_def)
        then show ?thesis using IH [OF _ i1] i1 by (auto split: if_splits)
      qed
    next
      case (Some bd)
      obtain r1 t1 where s: "rcv_with_error_handle bd t = Inr (r1, t1)"
      proof (cases "rcv_with_error_handle bd t")
        case (Inl e)
        then show ?thesis using body by (simp only: y Some option.case sum.case) simp
      next
        case (Inr p)
        then show ?thesis using that by (cases p) simp
      qed
      have i1: "J k t1" using recv_io [OF J Some s] .
      have bd1: "t_recv_bd t1 = Some bd" using rcv_step_frame [OF s] Some by (simp add: io_frame_def)
      define c where "c = take (t_wanted_recv_len t1) (t_buf t1 bd)"
      define t2 where "t2 = t1\<lparr>t_recv_bd := None, t_done := t_done t1 @ [Received bd c]\<rparr>"
      obtain rc2 re where h: "on_recved h t2 bd c = (rc2, re)" by (rule prod.exhaust)
      have "tcp_close t1 = Some t' \<or> f h t1 = Some (Inr (rc, t')) \<or> t' = t1 \<or> t_wanted_recv_len t1 = t_recved_len t1 \<and>
         finish (f h) (\<lambda>bd2 n. begin_recv bd2 (set_len bd2 n (take_bd bd2 t2))) t_readable (rc2 = - ECONNABORTED) (- ECONNABORTED) re t2 = Some (Inr (rc, t'))"
        using body by (simp only: y Some s option.case sum.case prod.case Let_def c_def [symmetric] h t2_def [symmetric]) (simp split: if_splits, blast?)
      moreover have "J k t'" if "t_wanted_recv_len t1 = t_recved_len t1"
        "finish (f h) (\<lambda>bd2 n. begin_recv bd2 (set_len bd2 n (take_bd bd2 t2))) t_readable (rc2 = - ECONNABORTED) (- ECONNABORTED) re t2 = Some (Inr (rc, t'))"
        by (rule finish_keeps [OF _ received [OF i1 bd1 that(1) t2_def [unfolded c_def] h [unfolded c_def]] that(2)], erule IH)
      ultimately show ?thesis using close [OF i1] IH [OF _ i1] i1 by blast
    qed
  qed
qed

lemma on_send_q_event_keeps:
  assumes "on_send_q_event h t = Some (Inr t')" and J: "J k t"
  shows "J k t'"
proof (cases "t_send_bd t = None \<and> eq_list (t_send_q t) \<noteq> []")
  case True
  have s: "sem_inv (t_send_q t)" using inv [OF J] by (simp add: tcp_inv_def)
  obtain bd xs where c: "eq_list (t_send_q t) = bd # xs" using True by (cases "eq_list (t_send_q t)") auto
  obtain q where q: "get_event (t_send_q t) = Some (0, Some bd, q)" "sem_inv q" "eq_list q = xs" using sem_get [OF s c] .
  have "obnd (do_send h (begin_send bd (t\<lparr>t_send_q := q\<rparr>))) (\<lambda>(rc, t1). Some (Inr t1)) = Some (Inr t')"
    using assms(1) True q c s by (simp add: on_send_q_event_def eq_is_empty_iff)
  then obtain rc where "do_send h (begin_send bd (t\<lparr>t_send_q := q\<rparr>)) = Some (Inr (rc, t'))"
    by (auto simp: obnd_def split: option.splits sum.splits)
  moreover have "J k (begin_send bd (t\<lparr>t_send_q := q\<rparr>))" by (rule pop_send [OF J]) (use True c q in simp_all)
  ultimately show ?thesis using do_send_keeps by blast
next
  case False
  then have "t_send_bd t \<noteq> None \<or> eq_is_empty (t_send_q t)" using inv [OF J] by (auto simp: tcp_inv_def eq_is_empty_iff)
  then show ?thesis using assms by (simp add: on_send_q_event_def)
qed

lemma on_recv_q_event_keeps:
  assumes "on_recv_q_event h t = Some (Inr t')" and J: "J k t"
  shows "J k t'"
proof (cases "t_recv_bd t = None \<and> eq_list (t_recv_q t) \<noteq> []")
  case True
  have s: "sem_inv (t_recv_q t)" using inv [OF J] by (simp add: tcp_inv_def)
  obtain bd xs where c: "eq_list (t_recv_q t) = bd # xs" using True by (cases "eq_list (t_recv_q t)") auto
  obtain q where q: "get_event (t_recv_q t) = Some (0, Some bd, q)" "sem_inv q" "eq_list q = xs" using sem_get [OF s c] .
  have "obnd (do_receive h (begin_recv bd (t\<lparr>t_recv_q := q\<rparr>))) (\<lambda>(rc, t1). Some (Inr t1)) = Some (Inr t')"
    using assms(1) True q c s by (simp add: on_recv_q_event_def eq_is_empty_iff)
  then obtain rc where "do_receive h (begin_recv bd (t\<lparr>t_recv_q := q\<rparr>)) = Some (Inr (rc, t'))"
    by (auto simp: obnd_def split: option.splits sum.splits)
  moreover have "J k (begin_recv bd (t\<lparr>t_recv_q := q\<rparr>))" by (rule pop_recv [OF J]) (use True c q in simp_all)
  ultimately show ?thesis using do_receive_keeps by blast
next
  case False
  then have "t_recv_bd t \<noteq> None \<or> eq_is_empty (t_recv_q t)" using inv [OF J] by (auto simp: tcp_inv_def eq_is_empty_iff)
  then show ?thesis using assms by (simp add: on_recv_q_event_def)
qed

lemma on_socket_event_keeps:
  assumes "on_socket_event h failed i out t = Some (Inr t')" and J: "J k t"
  shows "J k t'"
proof (cases failed)
  case True
  then show ?thesis using assms close by (auto simp: on_socket_event_def)
next
  case False
  define t1 where "t1 = t\<lparr>t_readable := (i \<or> t_readable t), t_writeable := (out \<or> t_writeable t)\<rparr>"
  have J1: "J k t1" unfolding t1_def by (rule flags [OF J])
  have b: "obnd (if t_readable t1 then obnd (do_receive h t1) (\<lambda>(rc, t2). Some (Inr t2)) else Some (Inr t1))
      (\<lambda>t2. if t_writeable t2 then obnd (do_send h t2) (\<lambda>(rc, t3). Some (Inr t3)) else Some (Inr t2)) = Some (Inr t')"
    using assms(1) False by (simp only: on_socket_event_def if_False Let_def t1_def)
  then obtain t2 where t2: "(if t_readable t1 then obnd (do_receive h t1) (\<lambda>(rc, t2). Some (Inr t2)) else Some (Inr t1)) = Some (Inr t2)"
      "(if t_writeable t2 then obnd (do_send h t2) (\<lambda>(rc, t3). Some (Inr t3)) else Some (Inr t2)) = Some (Inr t')"
    by (cases "if t_readable t1 then obnd (do_receive h t1) (\<lambda>(rc, t2). Some (Inr t2)) else Some (Inr t1)") (auto simp: obnd_def split: sum.splits)
  have "t2 = t1 \<or> (\<exists>rc. do_receive h t1 = Some (Inr (rc, t2)))"
    using t2(1) by (auto simp: obnd_def split: if_splits option.splits sum.splits)
  then have J2: "J k t2" using J1 do_receive_keeps [of h t1] by blast
  have "t' = t2 \<or> (\<exists>rc. do_send h t2 = Some (Inr (rc, t')))"
    using t2(2) by (auto simp: obnd_def split: if_splits option.splits sum.splits)
  then show ?thesis using J2 do_send_keeps [of h t2] by blast
qed

lemma run_keeps: "tcp_run ok h t t' \<Longrightarrow> J k t \<Longrightarrow> J k t'"
proof (induction rule: tcp_run.induct)
  case (run_post_send t1 bd)
  then show ?case by (simp add: posts_send)
next
  case (run_post_recv t1 bd)
  then show ?case by (simp add: posts_recv)
next
  case (run_fill t1 bd bs n)
  then show ?case by (simp add: fills)
next
  case (run_arrive t1 bs)
  then show ?case by (simp add: arrives)
next
  case (run_send_q t1 t2)
  show ?case by (rule on_send_q_event_keeps [OF run_send_q.hyps(2) run_send_q.IH [OF run_send_q.prems]])
next
  case (run_recv_q t1 t2)
  show ?case by (rule on_recv_q_event_keeps [OF run_recv_q.hyps(2) run_recv_q.IH [OF run_recv_q.prems]])
next
  case (run_socket t1 e i out t2)
  show ?case by (rule on_socket_event_keeps [OF run_socket.hyps(2) run_socket.IH [OF run_socket.prems]])
next
  case (run_close t1 t2)
  show ?case by (rule close [OF run_close.IH [OF run_close.prems] run_close.hyps(2)])
qed

end

lemma tcp_inv_reacts_send:
  "tcp_inv k t \<Longrightarrow> t_send_bd t = None \<Longrightarrow>
     (case re of Rx_start bd2 n \<Rightarrow> tcp_inv k (begin_send bd2 (set_len bd2 n (take_bd bd2 t))) | _ \<Rightarrow> tcp_inv k (react_post re t))"
  using tcp_inv_react [of k t re] by (cases re) (simp_all add: tcp_inv_start_send)

lemma tcp_inv_reacts_recv:
  "tcp_inv k t \<Longrightarrow> t_recv_bd t = None \<Longrightarrow>
     (case re of Rx_start bd2 n \<Rightarrow> tcp_inv k (begin_recv bd2 (set_len bd2 n (take_bd bd2 t))) | _ \<Rightarrow> tcp_inv k (react_post re t))"
  using tcp_inv_react [of k t re] by (cases re) (simp_all add: tcp_inv_start_recv)

interpretation bk: conn_keeps tcp_inv ok h for ok h
proof (unfold_locales, goal_cases)
  case (7 k t bd t2 rc re)
  then show ?case using tcp_inv_reacts_send [of "k + 1" t2 re] tcp_inv_sent by simp
next
  case (8 k t bd t2 rc re)
  then show ?case using tcp_inv_reacts_recv [of "k + 1" t2 re] tcp_inv_recved by simp
next
  case (5 k t bd rc t1)
  then show ?case using io_frame_inv send_step_frame(1) by blast
next
  case (6 k t bd rc t1)
  then show ?case using io_frame_inv rcv_step_frame by blast
qed (simp_all add: tcp_inv_closeD tcp_inv_pop_send tcp_inv_pop_recv tcp_inv_dec tcp_inv_post_send tcp_inv_post_recv,
    simp_all add: tcp_inv_def outs_def arrive_def fill_def)

section \<open>Every buffer once\<close>

lemma eq_init_sem:
  assumes "eq_init e a b z sz True q = (0, q')" and "0 \<le> sz"
  shows "sem_inv q' \<and> eq_list q' = []"
proof -
  obtain r1 q1 where 1: "q_init a z sz (eq_queue1 q) = (r1, q1)" by (rule prod.exhaust)
  obtain r2 q2 where 2: "q_init b z sz (eq_queue2 q) = (r2, q2)" by (rule prod.exhaust)
  have e: "e = 0" "r1 = 0" "r2 = 0" "q' = q\<lparr>eq_fd_count := 0, eq_semaphore := True, eq_queue1 := q1, eq_queue2 := q2, eq_current_first := True\<rparr>"
    using assms(1) 1 2 by (auto simp: eq_init_def Let_def split: if_splits)
  have "a" "b" using 1 2 e by (auto simp: q_init_def Let_def split: if_splits)
  then have "q_inv q1 \<and> q_list q1 = []" "q_inv q2 \<and> q_list q2 = []" using q_init_ok [OF assms(2), of z "eq_queue1 q" r1 q1] q_init_ok [OF assms(2), of z "eq_queue2 q" r2 q2] 1 2 by simp_all
  then show ?thesis using e by (simp add: sem_inv_def eq_current_def eq_other_def)
qed

lemma tcp_init_inv:
  assumes "tcp_init o1 o2 o3 sd rd (tcp_new sq rq buf len sock) = (0, t)" and "0 \<le> sd" and "0 \<le> rd"
  shows "\<exists>sq' rq'. t = tcp_new sq' rq' buf len sock \<and> sem_inv sq' \<and> sem_inv rq' \<and> eq_list sq' = [] \<and> eq_list rq' = []"
proof -
  obtain e1 a1 b1 e2 a2 b2 r1 r2 r3 where o: "o1 = (e1, a1, b1)" "o2 = (e2, a2, b2)" "o3 = (r1, r2, r3)" by (metis prod.exhaust)
  obtain c1 q1 where 1: "eq_init e1 a1 b1 0 sd True sq = (c1, q1)" by (rule prod.exhaust)
  obtain c2 q2 where 2: "eq_init e2 a2 b2 0 rd True rq = (c2, q2)" by (rule prod.exhaust)
  have "c1 = 0" "c2 = 0" "t = tcp_new q1 q2 buf len sock"
    using assms(1) 1 2 unfolding o tcp_init_def by (auto simp: tcp_new_def split: if_splits)
  then show ?thesis using eq_init_sem [of e1 a1 b1 0 sd sq q1] eq_init_sem [of e2 a2 b2 0 rd rq q2] 1 2 assms(2,3) by blast
qed

lemma tcp_new_inv:
  "sem_inv sq \<Longrightarrow> sem_inv rq \<Longrightarrow> eq_list sq = [] \<Longrightarrow> eq_list rq = [] \<Longrightarrow> tcp_inv k ((tcp_new sq rq buf len sock)\<lparr>t_state := st, t_ref := k\<rparr>)"
  by (simp add: tcp_inv_def tcp_new_def outs_def)

text \<open>
  (C20) A connection completes every buffer once. After any sequence of posts, arrivals of bytes,
  events and closes, whatever the handlers do and the socket returns, the buffers handed to the
  connection are those completed, once for each time they were handed over, and those still in
  it; the reference count is the \<open>k\<close> references of the owners plus one for each buffer still in
  it, so that the object is not deleted under one. Closing an open connection returns, completes
  every buffer and leaves the owners' references.
\<close>

theorem tcp_buffers_once:
  assumes "tcp_init o1 o2 o3 sd rd (tcp_new sq rq buf len sock) = (0, t)" and "0 \<le> sd" and "0 \<le> rd"
    and "tcp_run ok h (t\<lparr>t_state := st, t_ref := k\<rparr>) t'"
  shows "mset (t_taken t') = mset (map done_bd (t_done t')) + outs t' \<and> t_ref t' = k + int (size (outs t')) \<and>
    (t_state t' = CONN_OK \<longrightarrow> (\<exists>t''. tcp_close t' = Some t'' \<and> t_state t'' = CONN_CLOSED \<and> t_taken t'' = t_taken t' \<and>
       mset (t_taken t'') = mset (map done_bd (t_done t'')) \<and> t_ref t'' = k))"
proof -
  obtain sq' rq' where "t = tcp_new sq' rq' buf len sock" "sem_inv sq'" "sem_inv rq'" "eq_list sq' = []" "eq_list rq' = []"
    using tcp_init_inv [OF assms(1-3)] by blast
  then have i: "tcp_inv k t'" using bk.run_keeps [OF assms(4)] tcp_new_inv by blast
  have "\<exists>t''. tcp_close t' = Some t'' \<and> t_state t'' = CONN_CLOSED \<and> t_taken t'' = t_taken t' \<and> mset (t_taken t'') = mset (map done_bd (t_done t'')) \<and> t_ref t'' = k"
    if s: "t_state t' = CONN_OK"
  proof -
    have "sem_inv (t_send_q t')" "sem_inv (t_recv_q t')" using i by (simp_all add: tcp_inv_def)
    then obtain bds a b where c: "tcp_close t' = Some (t'\<lparr>t_state := CONN_CLOSED, t_send_bd := None, t_recv_bd := None, t_send_q := a, t_recv_q := b,
        t_done := t_done t' @ map Flushed bds, t_ref := t_ref t' - int (length bds)\<rparr>)" by (rule tcp_close_eq [OF _ _ s])
    obtain t'' where "tcp_close t' = Some t''" "tcp_inv k t''" "outs t'' = {#}" using tcp_inv_close [OF i] s by blast
    with c show ?thesis by (auto simp: tcp_inv_def multiset.map_comp)
  qed
  then show ?thesis using i by (simp add: tcp_inv_def)
qed

section \<open>The bytes on the socket\<close>

fun sent_item :: "tcp_done \<Rightarrow> u8 list list" where
  "sent_item (Sent bd c) = [c]"
| "sent_item _ = []"

fun received_item :: "tcp_done \<Rightarrow> u8 list list" where
  "received_item (Received bd c) = [c]"
| "received_item _ = []"

text \<open>The contents of the buffers that were sent and of those that were filled, in order.\<close>

definition sent_of :: "tcp_conn \<Rightarrow> u8 list list" where
  "sent_of t = concat (map sent_item (t_done t))"

definition received_of :: "tcp_conn \<Rightarrow> u8 list list" where
  "received_of t = concat (map received_item (t_done t))"

text \<open>The part of the buffer in work that is through.\<close>

definition out_part :: "tcp_conn \<Rightarrow> u8 list" where
  "out_part t = (case t_send_bd t of None \<Rightarrow> [] | Some bd \<Rightarrow> take (t_sent_len t) (t_buf t bd))"

definition in_part :: "tcp_conn \<Rightarrow> u8 list" where
  "in_part t = (case t_recv_bd t of None \<Rightarrow> [] | Some bd \<Rightarrow> take (t_recved_len t) (t_buf t bd))"

text \<open>
  The buffers belong to requests; \<open>own\<close> gives the request of a buffer. At most one buffer of
  a request is in the connection.
\<close>

definition uniq :: "(nat \<Rightarrow> nat) \<Rightarrow> tcp_conn \<Rightarrow> bool" where
  "uniq own t \<longleftrightarrow> (\<forall>i. count (image_mset own (outs t)) i \<le> 1)"

definition idle :: "(nat \<Rightarrow> nat) \<Rightarrow> nat \<Rightarrow> tcp_conn \<Rightarrow> bool" where
  "idle own bd t \<longleftrightarrow> own bd \<notin># image_mset own (outs t)"

definition send_ok :: "tcp_conn \<Rightarrow> bool" where
  "send_ok t \<longleftrightarrow> (t_send_bd t \<noteq> None \<longrightarrow> t_sent_len t \<le> t_wanted_send_len t) \<and> (if t_state t = CONN_CLOSED then (t_send_bd t \<noteq> None \<longrightarrow> t_sent_len t = 0) \<and> (\<exists>p. t_out t = concat (sent_of t) @ p)
     else t_out t = concat (sent_of t) @ out_part t)"

definition recv_ok :: "tcp_conn \<Rightarrow> bool" where
  "recv_ok t \<longleftrightarrow> (if t_state t = CONN_CLOSED
     then (t_recv_bd t \<noteq> None \<longrightarrow> t_recved_len t = 0) \<and> (\<exists>p. t_arrived t = concat (received_of t) @ p @ t_in t)
     else t_arrived t = concat (received_of t) @ in_part t @ t_in t)"

definition stream_inv :: "(nat \<Rightarrow> nat) \<Rightarrow> int \<Rightarrow> tcp_conn \<Rightarrow> bool" where
  "stream_inv own k t \<longleftrightarrow> tcp_inv k t \<and> uniq own t \<and> send_ok t \<and> recv_ok t"

lemma send_ok_cong:
  assumes "t_state t' = t_state t" "t_send_bd t' = t_send_bd t" "t_sent_len t' = t_sent_len t" "t_wanted_send_len t' = t_wanted_send_len t" "sent_of t' = sent_of t" "t_out t' = t_out t"
    "\<And>b. t_send_bd t = Some b \<Longrightarrow> t_buf t' b = t_buf t b"
  shows "send_ok t' = send_ok t"
  using assms by (auto simp: send_ok_def out_part_def split: option.split)

lemma recv_ok_cong:
  assumes "t_state t' = t_state t" "t_recv_bd t' = t_recv_bd t" "t_recved_len t' = t_recved_len t" "received_of t' = received_of t"
    "t_arrived t' = t_arrived t" "t_in t' = t_in t" "\<And>b. t_recv_bd t = Some b \<Longrightarrow> t_buf t' b = t_buf t b"
  shows "recv_ok t' = recv_ok t"
  using assms by (auto simp: recv_ok_def in_part_def split: option.split)

lemma uniq_other: "uniq own t \<Longrightarrow> t_send_bd t = Some a \<Longrightarrow> t_recv_bd t = Some b \<Longrightarrow> a \<noteq> b"
proof
  assume u: "uniq own t" and t: "t_send_bd t = Some a" "t_recv_bd t = Some b" "a = b"
  have "count (image_mset own (outs t)) (own a) \<le> 1" using u by (simp add: uniq_def)
  then show False using t by (simp add: outs_def)
qed

lemma idle_count: "idle own b t \<longleftrightarrow> count (image_mset own (outs t)) (own b) = 0"
  by (simp only: idle_def not_in_iff)

lemma uniq_add: "uniq own t \<Longrightarrow> idle own b t \<Longrightarrow> outs t' = add_mset b (outs t) \<Longrightarrow> uniq own t'"
  unfolding uniq_def idle_count by (auto simp only: image_mset_add_mset count_add_mset split: if_splits)

lemma uniq_done:
  assumes "uniq own t" and "outs t = add_mset bd (outs t')"
  shows "uniq own t' \<and> (own b = own bd \<longrightarrow> idle own b t')"
proof -
  have u: "(if own bd = i then Suc (count (image_mset own (outs t')) i) else count (image_mset own (outs t')) i) \<le> 1" for i
    using assms unfolding uniq_def by (simp only: image_mset_add_mset count_add_mset)
  have "Suc (count (image_mset own (outs t')) (own bd)) \<le> 1" using u [of "own bd"] by (simp only: refl if_True)
  then have "count (image_mset own (outs t')) (own bd) = 0" by linarith
  moreover have "count (image_mset own (outs t')) i \<le> 1" for i using u [of i] by (rule order_trans [rotated]) auto
  ultimately show ?thesis unfolding uniq_def idle_count by metis
qed

lemma uniq_same: "outs t' = outs t \<Longrightarrow> uniq own t' = uniq own t"
  by (simp add: uniq_def)

lemma of_done: "sent_of (t\<lparr>t_done := xs\<rparr>) = concat (map sent_item xs)" "received_of (t\<lparr>t_done := xs\<rparr>) = concat (map received_item xs)"
  by (simp_all add: sent_of_def received_of_def)

lemma flushed_items: "concat (map (sent_item \<circ> Flushed) xs) = []" "concat (map (received_item \<circ> Flushed) xs) = []"
  by (induction xs) simp_all

lemma stream_close:
  assumes "stream_inv own k t" and "tcp_close t = Some t'"
  shows "stream_inv own k t'"
proof (cases "t_state t = CONN_OK")
  case True
  have i: "tcp_inv k t" "send_ok t" "recv_ok t" using assms(1) by (simp_all add: stream_inv_def)
  have "sem_inv (t_send_q t)" "sem_inv (t_recv_q t)" using i(1) by (simp_all add: tcp_inv_def)
  then obtain bds a b where c: "tcp_close t = Some (t\<lparr>t_state := CONN_CLOSED, t_send_bd := None, t_recv_bd := None, t_send_q := a, t_recv_q := b,
      t_done := t_done t @ map Flushed bds, t_ref := t_ref t - int (length bds)\<rparr>)" "eq_list a = []" "eq_list b = []" by (rule tcp_close_eq [OF _ _ True])
  have t': "t' = t\<lparr>t_state := CONN_CLOSED, t_send_bd := None, t_recv_bd := None, t_send_q := a, t_recv_q := b,
      t_done := t_done t @ map Flushed bds, t_ref := t_ref t - int (length bds)\<rparr>" using c(1) assms(2) by simp
  have "sent_of t' = sent_of t" "received_of t' = received_of t" by (simp_all add: t' sent_of_def received_of_def flushed_items)
  moreover have "outs t' = {#}" by (simp add: t' outs_def c)
  ultimately show ?thesis using i True tcp_inv_closeD [OF i(1) assms(2)]
    by (auto simp: stream_inv_def uniq_def send_ok_def recv_ok_def t' in_part_def out_part_def)
next
  case False
  then show ?thesis using assms by (simp add: tcp_close_def)
qed

lemma send_stream:
  assumes "send_with_error_handle bd t = Inr (rc, t1)" and "t_send_bd t = Some bd" and "send_ok t"
  shows "send_ok t1"
proof -
  have f: "io_frame t t1" "t_buf t1 = t_buf t" using send_step_frame [OF assms(1)] by simp_all
  have s: "sent_of t1 = sent_of t" using f(1) by (simp add: io_frame_def sent_of_def)
  show ?thesis
  proof (cases "t_state t = CONN_CLOSED")
    case True
    then have "t_sent_len t1 = t_sent_len t \<and> t_out t1 = t_out t"
      using assms(1) by (auto simp: send_with_error_handle_def sock_call_def split: if_splits)
    then show ?thesis using f s assms(3) send_step_frame(7) [OF assms(1)] by (simp add: send_ok_def True io_frame_def)
  next
    case False
    have "t_out t1 = t_out t \<and> t_sent_len t1 = t_sent_len t \<or>
        (\<exists>n. t_sent_len t1 = t_sent_len t + n \<and> t_sent_len t + n \<le> t_wanted_send_len t \<and> t_out t1 = t_out t @ take n (drop (t_sent_len t) (t_buf t bd)))"
      using assms(1) by (auto simp: send_with_error_handle_def sock_call_def Let_def split: if_splits)
    then show ?thesis using f s assms(2,3) False send_step_frame(7) [OF assms(1)] by (auto simp: send_ok_def io_frame_def out_part_def take_add)
  qed
qed

lemma rcv_stream:
  "rcv_with_error_handle bd t = Inr (rc, t1) \<Longrightarrow> t_recv_bd t = Some bd \<longrightarrow> recv_ok t \<longrightarrow> recv_ok t1"
proof (induction rule: rcv_induct)
  case (stop t rc a b)
  have "recv_ok (t\<lparr>t_cnt := t_cnt t + 1, t_readable := a, t_need_reconnect := b\<rparr>) = recv_ok t" by (rule recv_ok_cong) (simp_all add: received_of_def)
  then show ?case by simp
next
  case (more t n rc t1)
  have "in_part (rcv_step bd n t) = in_part t @ take n (t_in t)" if "t_recv_bd t = Some bd" using more(1-6) that by (simp add: in_part_def rcv_step_def)
  then have "recv_ok (rcv_step bd n t)" if "t_recv_bd t = Some bd" "recv_ok t"
    using that more(3) by (simp add: recv_ok_def received_of_def) (simp add: rcv_step_def)
  then show ?case using more(7) by (simp add: rcv_step_def)
qed simp

lemma stream_send_io:
  assumes "stream_inv own k t" and "t_send_bd t = Some bd" and "send_with_error_handle bd t = Inr (rc, t1)"
  shows "stream_inv own k t1"
proof -
  note f = send_step_frame [OF assms(3)]
  have "t_arrived t1 = t_arrived t" using assms(3) by (auto simp: send_with_error_handle_def sock_call_def Let_def split: if_splits)
  then have "recv_ok t1 = recv_ok t" using f by (intro recv_ok_cong) (simp_all add: io_frame_def received_of_def)
  moreover have "outs t1 = outs t" using f(1) by (simp add: io_frame_def outs_def)
  ultimately show ?thesis using assms(1) send_stream [OF assms(3,2)] io_frame_inv [OF f(1)] by (simp add: stream_inv_def uniq_def)
qed

lemma stream_recv_io:
  assumes "stream_inv own k t" and "t_recv_bd t = Some bd" and "rcv_with_error_handle bd t = Inr (rc, t1)"
  shows "stream_inv own k t1"
proof -
  note f = rcv_step_frame [OF assms(3)]
  have "t_send_bd t \<noteq> Some bd" using uniq_other assms by (auto simp: stream_inv_def)
  then have "send_ok t1 = send_ok t" using f by (intro send_ok_cong) (auto simp: io_frame_def sent_of_def)
  moreover have "outs t1 = outs t" using f by (simp add: io_frame_def outs_def)
  ultimately show ?thesis using assms(1) rcv_stream [OF assms(3)] assms(2) io_frame_inv [of t t1 k] f by (simp add: stream_inv_def uniq_def)
qed

text \<open>The buffer that a handler starts or posts.\<close>

fun re_bd :: "reaction \<Rightarrow> nat option" where
  "re_bd (Rx_start bd n) = Some bd"
| "re_bd (Rx_post_send bd) = Some bd"
| "re_bd (Rx_post_recv bd) = Some bd"
| "re_bd _ = None"

lemma stream_post_send:
  assumes "stream_inv own k t" and "idle own bd t"
  shows "stream_inv own k (snd (tcp_post_send bd t))"
proof -
  obtain rc q where p: "post_event bd (t_send_q t) = (rc, q)" by (rule prod.exhaust)
  have q: "if rc = 0 then sem_inv q \<and> eq_list q = eq_list (t_send_q t) @ [bd] else q = t_send_q t"
    using sem_post [OF _ p] assms(1) by (simp add: stream_inv_def tcp_inv_def)
  let ?t = "snd (tcp_post_send bd t)"
  have "send_ok ?t = send_ok t" "recv_ok ?t = recv_ok t"
    by (rule send_ok_cong recv_ok_cong; simp add: tcp_post_send_def p take_bd_def tcp_add_ref_def tcp_dec_ref_def sent_of_def received_of_def)+
  moreover have "uniq own ?t"
  proof (cases "rc = 0")
    case True
    have "outs ?t = add_mset bd (outs t)" using q True by (simp add: tcp_post_send_def p outs_def take_bd_def tcp_add_ref_def)
    then show ?thesis using assms uniq_add [of own t bd ?t] by (simp add: stream_inv_def)
  next
    case False
    have "outs ?t = outs t" using q False by (simp add: tcp_post_send_def p outs_def tcp_add_ref_def tcp_dec_ref_def)
    then show ?thesis using assms by (simp add: stream_inv_def uniq_def)
  qed
  ultimately show ?thesis using assms tcp_inv_post_send by (simp add: stream_inv_def)
qed

lemma stream_post_recv:
  assumes "stream_inv own k t" and "idle own bd t"
  shows "stream_inv own k (snd (tcp_post_recv bd t))"
proof -
  obtain rc q where p: "post_event bd (t_recv_q t) = (rc, q)" by (rule prod.exhaust)
  have q: "if rc = 0 then sem_inv q \<and> eq_list q = eq_list (t_recv_q t) @ [bd] else q = t_recv_q t"
    using sem_post [OF _ p] assms(1) by (simp add: stream_inv_def tcp_inv_def)
  let ?t = "snd (tcp_post_recv bd t)"
  have "send_ok ?t = send_ok t" "recv_ok ?t = recv_ok t"
    by (rule send_ok_cong recv_ok_cong; simp add: tcp_post_recv_def p take_bd_def tcp_add_ref_def tcp_dec_ref_def sent_of_def received_of_def)+
  moreover have "uniq own ?t"
  proof (cases "rc = 0")
    case True
    have "outs ?t = add_mset bd (outs t)" using q True by (simp add: tcp_post_recv_def p outs_def take_bd_def tcp_add_ref_def)
    then show ?thesis using assms uniq_add [of own t bd ?t] by (simp add: stream_inv_def)
  next
    case False
    have "outs ?t = outs t" using q False by (simp add: tcp_post_recv_def p outs_def tcp_add_ref_def tcp_dec_ref_def)
    then show ?thesis using assms by (simp add: stream_inv_def uniq_def)
  qed
  ultimately show ?thesis using assms tcp_inv_post_recv by (simp add: stream_inv_def)
qed

lemma stream_react:
  assumes "stream_inv own k t" and "\<And>b. re_bd re = Some b \<Longrightarrow> idle own b t"
  shows "stream_inv own k (react_post re t)"
proof (cases re)
  case (Rx_set_len bd n)
  have "send_ok (set_len bd (Some n) t) = send_ok t" "recv_ok (set_len bd (Some n) t) = recv_ok t"
    by (rule send_ok_cong recv_ok_cong; simp add: set_len_def sent_of_def received_of_def)+
  moreover have "outs (set_len bd (Some n) t) = outs t" by (simp add: outs_def set_len_def)
  ultimately show ?thesis using assms(1) tcp_inv_react [of k t re] Rx_set_len by (simp add: stream_inv_def uniq_def)
qed (use assms in \<open>simp_all add: stream_post_send stream_post_recv\<close>)

lemma stream_pop_send:
  assumes "stream_inv own k t" and "t_send_bd t = None" and "eq_list (t_send_q t) = bd # eq_list q" and "sem_inv q"
  shows "stream_inv own k (begin_send bd (t\<lparr>t_send_q := q\<rparr>))"
proof -
  let ?t = "begin_send bd (t\<lparr>t_send_q := q\<rparr>)"
  have "recv_ok ?t = recv_ok t" by (rule recv_ok_cong) (simp_all add: begin_send_def received_of_def)
  moreover have "send_ok ?t = send_ok t" using assms(2) by (simp add: send_ok_def begin_send_def out_part_def sent_of_def)
  moreover have "outs ?t = outs t" using assms(2,3) by (simp add: outs_def begin_send_def)
  ultimately show ?thesis using assms tcp_inv_pop_send by (simp add: stream_inv_def uniq_def)
qed

lemma stream_pop_recv:
  assumes "stream_inv own k t" and "t_recv_bd t = None" and "eq_list (t_recv_q t) = bd # eq_list q" and "sem_inv q"
  shows "stream_inv own k (begin_recv bd (t\<lparr>t_recv_q := q\<rparr>))"
proof -
  let ?t = "begin_recv bd (t\<lparr>t_recv_q := q\<rparr>)"
  have "send_ok ?t = send_ok t" by (rule send_ok_cong) (simp_all add: begin_recv_def sent_of_def)
  moreover have "recv_ok ?t = recv_ok t" using assms(2) by (simp add: recv_ok_def begin_recv_def in_part_def received_of_def)
  moreover have "outs ?t = outs t" using assms(2,3) by (simp add: outs_def begin_recv_def)
  ultimately show ?thesis using assms tcp_inv_pop_recv by (simp add: stream_inv_def uniq_def)
qed

lemma stream_sent:
  assumes "stream_inv own k t" and "t_send_bd t = Some bd" and "t_wanted_send_len t = t_sent_len t"
  shows "stream_inv own (k + 1) (t\<lparr>t_send_bd := None, t_done := t_done t @ [Sent bd (take (t_wanted_send_len t) (t_buf t bd))]\<rparr>)"
    (is "stream_inv own _ ?t")
proof -
  have "recv_ok ?t = recv_ok t" by (rule recv_ok_cong) (simp_all add: received_of_def)
  moreover have "send_ok t \<Longrightarrow> send_ok ?t" using assms(2,3) by (auto simp: send_ok_def sent_of_def out_part_def)
  moreover have "uniq own t \<Longrightarrow> uniq own ?t" using uniq_done [of own t bd ?t] assms(2) by (simp add: outs_def)
  ultimately show ?thesis using assms tcp_inv_sent by (simp add: stream_inv_def)
qed

lemma stream_received:
  assumes "stream_inv own k t" and "t_recv_bd t = Some bd" and "t_wanted_recv_len t = t_recved_len t"
  shows "stream_inv own (k + 1) (t\<lparr>t_recv_bd := None, t_done := t_done t @ [Received bd (take (t_wanted_recv_len t) (t_buf t bd))]\<rparr>)"
    (is "stream_inv own _ ?t")
proof -
  have "send_ok ?t = send_ok t" by (rule send_ok_cong) (simp_all add: sent_of_def)
  moreover have "recv_ok t \<Longrightarrow> recv_ok ?t" using assms(2,3) by (auto simp: recv_ok_def received_of_def in_part_def)
  moreover have "uniq own t \<Longrightarrow> uniq own ?t" using uniq_done [of own t bd ?t] assms(2) by (simp add: outs_def)
  ultimately show ?thesis using assms tcp_inv_recved by (simp add: stream_inv_def)
qed

lemma stream_start_send:
  assumes "stream_inv own k t" and "t_send_bd t = None" and "idle own bd t"
  shows "stream_inv own k (begin_send bd (set_len bd n (take_bd bd t)))" (is "stream_inv own _ ?t")
proof -
  note d = begin_send_def set_len_def take_bd_def tcp_add_ref_def
  have "recv_ok ?t = recv_ok t" by (rule recv_ok_cong) (simp_all add: d received_of_def split: option.split)
  moreover have "send_ok t \<Longrightarrow> send_ok ?t" using assms(2) by (auto simp: d send_ok_def sent_of_def out_part_def split: option.split)
  moreover have "outs ?t = add_mset bd (outs t)" using assms(2) by (simp add: d outs_def split: option.split)
  ultimately show ?thesis using assms tcp_inv_start_send uniq_add [of own t bd ?t] by (simp add: stream_inv_def)
qed

lemma stream_start_recv:
  assumes "stream_inv own k t" and "t_recv_bd t = None" and "idle own bd t"
  shows "stream_inv own k (begin_recv bd (set_len bd n (take_bd bd t)))" (is "stream_inv own _ ?t")
proof -
  note d = begin_recv_def set_len_def take_bd_def tcp_add_ref_def
  have "send_ok ?t = send_ok t" by (rule send_ok_cong) (simp_all add: d sent_of_def split: option.split)
  moreover have "recv_ok t \<Longrightarrow> recv_ok ?t" using assms(2) by (auto simp: d recv_ok_def received_of_def in_part_def split: option.split)
  moreover have "outs ?t = add_mset bd (outs t)" using assms(2) by (simp add: d outs_def split: option.split)
  ultimately show ?thesis using assms tcp_inv_start_recv uniq_add [of own t bd ?t] by (simp add: stream_inv_def)
qed

lemma stream_other:
  assumes "tcp_inv k' t'" and "stream_inv own k t" and "outs t' = outs t" and "send_ok t' = send_ok t" and "recv_ok t' = recv_ok t"
  shows "stream_inv own k' t'"
  using assms by (simp add: stream_inv_def uniq_def)

lemma stream_tcp_inv: "stream_inv own k t \<Longrightarrow> tcp_inv k t"
  by (simp add: stream_inv_def)

lemma stream_dec: "stream_inv own (k + 1) t \<Longrightarrow> stream_inv own k (tcp_dec_ref t)"
proof (rule stream_other [of k _ own "k + 1" t])
  show "send_ok (tcp_dec_ref t) = send_ok t" by (rule send_ok_cong) (simp_all add: tcp_dec_ref_def sent_of_def)
  show "recv_ok (tcp_dec_ref t) = recv_ok t" by (rule recv_ok_cong) (simp_all add: tcp_dec_ref_def received_of_def)
qed (simp_all add: stream_tcp_inv tcp_inv_dec, simp add: outs_def tcp_dec_ref_def)

lemma stream_flags: "stream_inv own k t \<Longrightarrow> stream_inv own k (t\<lparr>t_readable := a, t_writeable := b\<rparr>)"
proof (rule stream_other [of k _ own k t])
  show "send_ok (t\<lparr>t_readable := a, t_writeable := b\<rparr>) = send_ok t" by (rule send_ok_cong) (simp_all add: sent_of_def)
  show "recv_ok (t\<lparr>t_readable := a, t_writeable := b\<rparr>) = recv_ok t" by (rule recv_ok_cong) (simp_all add: received_of_def)
qed (simp_all add: stream_tcp_inv bk.flags, simp add: outs_def)

lemma stream_arrive: "stream_inv own k t \<Longrightarrow> stream_inv own k (arrive bs t)"
proof -
  assume s: "stream_inv own k t"
  have "send_ok (arrive bs t) = send_ok t" by (rule send_ok_cong) (simp_all add: arrive_def sent_of_def)
  moreover have "in_part (arrive bs t) = in_part t" by (simp add: in_part_def arrive_def split: option.split)
  then have "recv_ok t \<Longrightarrow> recv_ok (arrive bs t)" by (auto simp: recv_ok_def arrive_def received_of_def)
  moreover have "outs (arrive bs t) = outs t" by (simp add: outs_def arrive_def)
  ultimately show ?thesis using s bk.arrives by (simp add: stream_inv_def uniq_def)
qed

lemma stream_fill: "stream_inv own k t \<Longrightarrow> idle own bd t \<Longrightarrow> stream_inv own k (fill bd bs n t)"
proof (rule stream_other [of k _ own k t])
  assume "idle own bd t"
  then have o: "t_send_bd t \<noteq> Some bd" "t_recv_bd t \<noteq> Some bd" by (auto simp: idle_def outs_def)
  show "send_ok (fill bd bs n t) = send_ok t" by (rule send_ok_cong) (use o in \<open>auto simp: fill_def sent_of_def\<close>)
  show "recv_ok (fill bd bs n t) = recv_ok t" by (rule recv_ok_cong) (use o in \<open>auto simp: fill_def received_of_def\<close>)
qed (simp_all add: bk.fills stream_inv_def outs_def fill_def tcp_inv_def)

text \<open>
  A handler that starts and posts only buffers of the request whose buffer is done keeps the
  order of the bytes.
\<close>

locale request_handler =
  fixes own :: "nat \<Rightarrow> nat" and h :: tcp_handler
  assumes own_sent: "re_bd (snd (on_sent h t bd c)) = Some b \<Longrightarrow> own b = own bd"
    and own_recved: "re_bd (snd (on_recved h t bd c)) = Some b \<Longrightarrow> own b = own bd"

sublocale request_handler \<subseteq> st: conn_keeps "stream_inv own" "\<lambda>a. idle own" h
proof (unfold_locales, goal_cases)
  case (7 k t bd t2 rc re)
  have o: "outs t = add_mset bd (outs t2)" using 7(2,4) by (simp add: outs_def)
  have s: "stream_inv own (k + 1) t2" using 7 stream_sent by simp
  have f: "idle own b t2" if "re_bd re = Some b" for b
    using own_sent [of t2 bd "take (t_wanted_send_len t) (t_buf t bd)" b] 7(1,5) that uniq_done [OF _ o, of own b] by (simp add: stream_inv_def)
  have n: "t_send_bd t2 = None" using 7(4) by simp
  have r: "stream_inv own (k + 1) (react_post re t2)" by (rule stream_react [OF s f])
  show ?case using r stream_start_send [OF s n] f by (cases re) (simp_all del: re_bd.simps react_post.simps, simp)
next
  case (8 k t bd t2 rc re)
  have o: "outs t = add_mset bd (outs t2)" using 8(2,4) by (simp add: outs_def)
  have s: "stream_inv own (k + 1) t2" using 8 stream_received by simp
  have f: "idle own b t2" if "re_bd re = Some b" for b
    using own_recved [of t2 bd "take (t_wanted_recv_len t) (t_buf t bd)" b] 8(1,5) that uniq_done [OF _ o, of own b] by (simp add: stream_inv_def)
  have n: "t_recv_bd t2 = None" using 8(4) by simp
  have r: "stream_inv own (k + 1) (react_post re t2)" by (rule stream_react [OF s f])
  show ?case using r stream_start_recv [OF s n] f by (cases re) (simp_all del: re_bd.simps react_post.simps, simp)
qed (fact stream_close stream_pop_send stream_pop_recv stream_send_io stream_recv_io stream_dec stream_flags stream_arrive stream_fill
    stream_post_send stream_post_recv stream_tcp_inv)+

context request_handler
begin

lemma stream_keeps: "conn_keeps (stream_inv own) (\<lambda>a. idle own) h"
  by (rule st.conn_keeps_axioms)

end

lemma tcp_new_stream:
  assumes "sem_inv sq" "sem_inv rq" "eq_list sq = []" "eq_list rq = []"
  shows "stream_inv own k ((tcp_new sq rq buf len sock)\<lparr>t_state := st, t_ref := k\<rparr>)"
proof -
  have "outs ((tcp_new sq rq buf len sock)\<lparr>t_state := st, t_ref := k\<rparr>) = {#}" using assms by (simp add: outs_def tcp_new_def)
  then show ?thesis using tcp_new_inv [OF assms]
    by (auto simp: stream_inv_def uniq_def send_ok_def recv_ok_def out_part_def in_part_def sent_of_def received_of_def tcp_new_def)
qed

text \<open>
  The connection keeps the order of the bytes. Let handlers start and post only buffers of
  the request whose buffer is done, and users touch only buffers of requests that are not in
  the connection. After any sequence of posts, arrivals, events and closes, in whatever pieces
  the socket takes and returns bytes, the contents of the buffers that were sent, in the order
  of their completion, are what went out first, and the contents of the buffers that were
  filled are what came in first. While the connection is open nothing else went out but the part of the
  buffer in work, and nothing else was taken from the socket.
\<close>

theorem tcp_stream_order:
  assumes "tcp_init o1 o2 o3 sd rd (tcp_new sq rq buf len sock) = (0, t)" and "0 \<le> sd" and "0 \<le> rd"
    and h: "request_handler own h" and "tcp_run (\<lambda>a. idle own) h (t\<lparr>t_state := st, t_ref := k\<rparr>) t'"
  shows "(\<exists>p q. t_out t' = concat (sent_of t') @ p \<and> t_arrived t' = concat (received_of t') @ q @ t_in t') \<and>
    (t_state t' \<noteq> CONN_CLOSED \<longrightarrow> t_out t' = concat (sent_of t') @ out_part t' \<and> t_arrived t' = concat (received_of t') @ in_part t' @ t_in t')"
proof -
  obtain sq' rq' where "t = tcp_new sq' rq' buf len sock" "sem_inv sq'" "sem_inv rq'" "eq_list sq' = []" "eq_list rq' = []"
    using tcp_init_inv [OF assms(1-3)] by blast
  then have "stream_inv own k (t\<lparr>t_state := st, t_ref := k\<rparr>)" using tcp_new_stream by blast
  then have "stream_inv own k t'" by (rule conn_keeps.run_keeps [OF request_handler.stream_keeps [OF h] assms(5)])
  then have "send_ok t'" "recv_ok t'" by (simp_all add: stream_inv_def)
  then show ?thesis by (cases "t_state t' = CONN_CLOSED") (auto simp: send_ok_def recv_ok_def)
qed

section \<open>An example\<close>

text \<open>
  A connection for examples: queues of depth 2, buffers of 3 bytes, a socket that takes and
  returns 2 bytes in each call.
\<close>

definition sample_queue :: "nat event_queue" where
  "sample_queue = \<lparr>eq_queue1 = \<lparr>q_tail = 0, q_head = 0, q_depth = 0, q_data = []\<rparr>,
     eq_queue2 = \<lparr>q_tail = 0, q_head = 0, q_depth = 0, q_data = []\<rparr>, eq_current_first = True, eq_fd_count = 0, eq_semaphore = False\<rparr>"

definition sample_tcp :: tcp_conn where
  "sample_tcp = snd (tcp_init (0, True, True) (0, True, True) (0, 0, 0) 2 2 (tcp_new sample_queue sample_queue (\<lambda>b. [1, 2, 3]) (\<lambda>b. 3) (\<lambda>n. 2)))"

definition sample_handler :: tcp_handler where
  "sample_handler = \<lparr>on_sent = (\<lambda>t bd c. (0, Rx_none)), on_recved = (\<lambda>t bd c. (0, Rx_none))\<rparr>"

definition sample_posted :: tcp_conn where
  "sample_posted = snd (tcp_post_send 7 (sample_tcp\<lparr>t_state := CONN_OK, t_ref := 1\<rparr>))"

lemmas sample_tcp_defs = sample_tcp_def sample_queue_def tcp_init_def tcp_new_def eq_init_def q_init_def Let_def

lemma sample_tcp_init:
  "tcp_init (0, True, True) (0, True, True) (0, 0, 0) 2 2 (tcp_new sample_queue sample_queue (\<lambda>b. [1, 2, 3]) (\<lambda>b. 3) (\<lambda>n. 2)) = (0, sample_tcp)"
  by (simp add: sample_tcp_defs)

lemmas sample_run_defs = sample_posted_def sample_tcp_defs tcp_post_send_def take_bd_def tcp_add_ref_def post_event_def enqueue_nolock_def
  q_is_full_def q_space_def QUEUE_SPACE_def set_current_def eq_current_def eq_other_def eq_is_empty_def q_is_empty_def get_event_def fd_read_def
  dequeue_def dequeue_nolock_def sock_call_def begin_send_def send_with_error_handle_def sample_handler_def tcp_dec_ref_def sent_of_def outs_def
  q_list_def q_count_def QUEUE_COUNT_def q_slot_def obnd_def upt_rec numeral_2_eq_2

text \<open>The first two bytes go out when the buffer is posted, the third when the socket is ready again.\<close>

definition sample_half :: tcp_conn where
  "sample_half = (case on_send_q_event sample_handler sample_posted of Some (Inr t) \<Rightarrow> t | _ \<Rightarrow> sample_posted)"

definition sample_whole :: tcp_conn where
  "sample_whole = (case on_socket_event sample_handler False False True sample_half of Some (Inr t) \<Rightarrow> t | _ \<Rightarrow> sample_half)"

lemma sample_half_ok: "on_send_q_event sample_handler sample_posted = Some (Inr sample_half)"
  by (simp add: sample_half_def on_send_q_event_def do_send.simps sample_run_defs)

lemma sample_whole_ok:
  "on_socket_event sample_handler False False True sample_half = Some (Inr sample_whole) \<and> t_state sample_whole = CONN_OK \<and>
     t_out sample_whole = [1, 2, 3] \<and> t_done sample_whole = [Sent 7 [1, 2, 3]]"
  by (simp add: sample_whole_def sample_half_def on_send_q_event_def on_socket_event_def do_send.simps sample_run_defs)

lemma sample_tcp_run:
  assumes "ok Use_send 7 (sample_tcp\<lparr>t_state := CONN_OK, t_ref := 1\<rparr>)"
  shows "tcp_run ok sample_handler (sample_tcp\<lparr>t_state := CONN_OK, t_ref := 1\<rparr>) sample_whole"
proof -
  have "tcp_run ok sample_handler (sample_tcp\<lparr>t_state := CONN_OK, t_ref := 1\<rparr>) sample_posted"
    unfolding sample_posted_def by (rule run_post_send [where ok = ok, OF run_start assms])
  then have "tcp_run ok sample_handler (sample_tcp\<lparr>t_state := CONN_OK, t_ref := 1\<rparr>) sample_half"
    by (rule run_send_q) (rule sample_half_ok)
  then show ?thesis by (rule run_socket) (use sample_whole_ok in blast)
qed

theorem tcp_buffers_once_witness:
  "t_taken sample_whole = [7] \<and> mset (t_taken sample_whole) = mset (map done_bd (t_done sample_whole)) + outs sample_whole \<and>
     t_ref sample_whole = 1 + int (size (outs sample_whole)) \<and>
     (\<exists>t''. tcp_close sample_whole = Some t'' \<and> t_state t'' = CONN_CLOSED \<and> t_taken t'' = t_taken sample_whole \<and>
       mset (t_taken t'') = mset (map done_bd (t_done t'')) \<and> t_ref t'' = 1)"
proof -
  have "t_taken sample_whole = [7]"
    by (simp add: sample_whole_def sample_half_def on_send_q_event_def on_socket_event_def do_send.simps sample_run_defs)
  moreover note tcp_buffers_once [OF sample_tcp_init _ _ sample_tcp_run [of "\<lambda>a bd t. True"]]
  ultimately show ?thesis using sample_whole_ok by simp
qed

end
