(* ===== verification/Tcp_Server.thy ===== *)
theory Tcp_Server
  imports Tcp_Connection "HOL-Library.Sublist"
begin

text \<open>
  The handler \<open>server_on_tcp_network_done\<close> of \<open>pfs/src/pf_server.cpp\<close> on a TCP connection: how
  the daemon takes requests from the bytes of a client. The buffers of request \<open>i\<close> (a
  \<open>PfServerIocb\<close>) are the numbers \<open>3 i\<close> for the command, \<open>3 i + 1\<close> for the data and
  \<open>3 i + 2\<close> for the reply.
\<close>

section \<open>The handler\<close>

definition PF_MSG_HEAD_SIZE :: nat where "PF_MSG_HEAD_SIZE = 64"
definition PF_MSG_REPLY_SIZE :: nat where "PF_MSG_REPLY_SIZE = 32"

definition cmd_bd :: "nat \<Rightarrow> nat" where "cmd_bd i = 3 * i"
definition data_bd :: "nat \<Rightarrow> nat" where "data_bd i = 3 * i + 1"
definition reply_bd :: "nat \<Rightarrow> nat" where "reply_bd i = 3 * i + 2"
definition bd_iocb :: "nat \<Rightarrow> nat" where "bd_iocb bd = bd div 3"

text \<open>
  The fields of a message head in memory: \<open>opcode\<close> is its first byte, \<open>length\<close> four bytes at 40.
  The handler copies the length into the \<open>int\<close> field \<open>data_len\<close>; lengths of \<open>2\<^sup>3\<^sup>1\<close> and more,
  which are negative there, are excluded where requests are described.
\<close>

definition head_opcode :: "u8 list \<Rightarrow> u8" where
  "head_opcode c = c ! 0"

definition head_length :: "u8 list \<Rightarrow> nat" where
  "head_length c = unat (c ! 40) + 2 ^ 8 * unat (c ! 41) + 2 ^ 16 * unat (c ! 42) + 2 ^ 24 * unat (c ! 43)"

text \<open>
  A buffer of the length of a head is taken for a head. A request that is complete (the head
  of a read, the data of a write) is posted to the dispatcher's queue, which is not part of the
  connection, as are the fields \<open>vol_id\<close> and the times of the request.
\<close>

definition server_recved :: "tcp_conn \<Rightarrow> nat \<Rightarrow> u8 list \<Rightarrow> int \<times> reaction" where
  "server_recved t bd c =
     (if t_data_len t bd = PF_MSG_HEAD_SIZE
      then if IS_WRITE_OP (head_opcode c) then (1, Rx_start (data_bd (bd_iocb bd)) (Some (head_length c)))
           else (0, Rx_set_len (data_bd (bd_iocb bd)) (head_length c))
      else (0, Rx_none))"

text \<open>\<open>status\<close> is the field \<open>complete_status\<close> of the request, which the dispatcher sets.\<close>

definition server_sent :: "(tcp_conn \<Rightarrow> nat \<Rightarrow> u16) \<Rightarrow> tcp_conn \<Rightarrow> nat \<Rightarrow> u8 list \<Rightarrow> int \<times> reaction" where
  "server_sent status t bd c =
     (let i = bd_iocb bd
      in if t_data_len t bd = PF_MSG_REPLY_SIZE \<and> IS_READ_OP (head_opcode (t_buf t (cmd_bd i))) \<and> status t i = MSG_STATUS_SUCCESS
         then (1, Rx_start (data_bd i) None)
         else (0, Rx_post_recv (cmd_bd i)))"

definition server_on_tcp_network_done :: "(tcp_conn \<Rightarrow> nat \<Rightarrow> u16) \<Rightarrow> tcp_handler" where
  "server_on_tcp_network_done status = \<lparr>on_sent = server_sent status, on_recved = server_recved\<rparr>"

lemma bd_iocb_simps [simp]: "bd_iocb (cmd_bd i) = i" "bd_iocb (data_bd i) = i" "bd_iocb (reply_bd i) = i"
  by (simp_all add: bd_iocb_def cmd_bd_def data_bd_def reply_bd_def)

lemma bd_kinds [simp]: "cmd_bd i \<noteq> data_bd j" "data_bd j \<noteq> cmd_bd i" "reply_bd i \<noteq> cmd_bd j"
  by (simp_all add: cmd_bd_def data_bd_def reply_bd_def) presburger+

interpretation sh: request_handler bd_iocb "server_on_tcp_network_done status" for status
  by unfold_locales
    (auto simp: server_on_tcp_network_done_def server_sent_def server_recved_def Let_def split: if_splits)

section \<open>Requests in the stream\<close>

text \<open>The length of the next buffer after a buffer with content \<open>f\<close>, and the cut of bytes into buffers.\<close>

definition next_len :: "u8 list \<Rightarrow> nat" where
  "next_len f = (if length f = PF_MSG_HEAD_SIZE \<and> IS_WRITE_OP (head_opcode f) then head_length f else PF_MSG_HEAD_SIZE)"

fun chain :: "nat \<Rightarrow> u8 list list \<Rightarrow> bool" where
  "chain n [] = True"
| "chain n (f # fs) = (length f = n \<and> chain (next_len f) fs)"

fun next_after :: "nat \<Rightarrow> u8 list list \<Rightarrow> nat" where
  "next_after n [] = n"
| "next_after n (f # fs) = next_after (next_len f) fs"

lemma chain_snoc: "chain n (fs @ [f]) \<longleftrightarrow> chain n fs \<and> length f = next_after n fs"
  by (induction fs arbitrary: n) auto

lemma next_after_snoc: "next_after n (fs @ [f]) = next_len f"
  by (induction fs arbitrary: n) auto

function cut_frames :: "nat \<Rightarrow> u8 list \<Rightarrow> u8 list list" where
  "cut_frames n bs = (if n \<le> length bs then take n bs # cut_frames (next_len (take n bs)) (drop n bs) else [])"
  by pat_completeness auto
termination
  by (relation "measure (\<lambda>(n, bs). 2 * length bs + (if n = 0 then 1 else 0))") (auto simp: next_len_def PF_MSG_HEAD_SIZE_def)

declare cut_frames.simps [simp del]

lemma chain_append: "chain n (fs @ gs) \<longleftrightarrow> chain n fs \<and> chain (next_after n fs) gs"
  by (induction fs arbitrary: n) auto

lemma next_after_append: "next_after n (fs @ gs) = next_after (next_after n fs) gs"
  by (induction fs arbitrary: n) auto

lemma chain_cut: "chain n fs \<Longrightarrow> cut_frames n (concat fs @ bs) = fs @ cut_frames (next_after n fs) bs"
  by (induction fs arbitrary: n) (simp, subst cut_frames.simps, simp)

text \<open>
  A request is a head and, for a write, the data. The length of the data is the one in the
  head, fits the field \<open>data_len\<close>, and is not that of a head.
\<close>

type_synonym request = "u8 list \<times> u8 list"

fun request_ok :: "request \<Rightarrow> bool" where
  "request_ok (head, data) = (length head = PF_MSG_HEAD_SIZE \<and>
     (if IS_WRITE_OP (head_opcode head) then length data = head_length head \<and> length data \<noteq> PF_MSG_HEAD_SIZE \<and> length data < 2 ^ 31 else data = []))"

fun request_frames :: "request \<Rightarrow> u8 list list" where
  "request_frames (head, data) = head # (if IS_WRITE_OP (head_opcode head) then [data] else [])"

abbreviation all_frames :: "request list \<Rightarrow> u8 list list" where
  "all_frames rs \<equiv> concat (map request_frames rs)"

lemma requests_chain:
  "list_all request_ok rs \<Longrightarrow> chain PF_MSG_HEAD_SIZE (all_frames rs) \<and> next_after PF_MSG_HEAD_SIZE (all_frames rs) = PF_MSG_HEAD_SIZE"
proof (induction rs)
  case (Cons r rs)
  obtain h d where r: "r = (h, d)" by (rule prod.exhaust)
  have "chain PF_MSG_HEAD_SIZE (request_frames r) \<and> next_after PF_MSG_HEAD_SIZE (request_frames r) = PF_MSG_HEAD_SIZE"
    using Cons.prems by (auto simp: r next_len_def)
  then show ?case using Cons by (simp add: chain_append next_after_append)
qed simp

lemma cut_requests: "list_all request_ok rs \<Longrightarrow> cut_frames PF_MSG_HEAD_SIZE (concat (all_frames rs)) = all_frames rs"
  using chain_cut [of PF_MSG_HEAD_SIZE "all_frames rs" "[]"] requests_chain [of rs] by (simp add: cut_frames.simps PF_MSG_HEAD_SIZE_def)

section \<open>What the server received\<close>

text \<open>
  The users of the connection post only commands for receiving and do not change the length
  of a command buffer.
\<close>

fun server_use :: "use \<Rightarrow> nat \<Rightarrow> tcp_conn \<Rightarrow> bool" where
  "server_use Use_send bd t = idle bd_iocb bd t"
| "server_use Use_recv bd t = (idle bd_iocb bd t \<and> bd = cmd_bd (bd_iocb bd))"
| "server_use (Use_fill n) bd t = (idle bd_iocb bd t \<and> bd \<noteq> cmd_bd (bd_iocb bd))"

definition frame_inv :: "tcp_conn \<Rightarrow> bool" where
  "frame_inv t \<longleftrightarrow> (\<forall>i. t_data_len t (cmd_bd i) = PF_MSG_HEAD_SIZE) \<and> (\<forall>b \<in> set (eq_list (t_recv_q t)). b = cmd_bd (bd_iocb b)) \<and>
     chain PF_MSG_HEAD_SIZE (received_of t) \<and>
     (case t_recv_bd t of
        None \<Rightarrow> t_state t = CONN_CLOSED \<or> next_after PF_MSG_HEAD_SIZE (received_of t) = PF_MSG_HEAD_SIZE
      | Some b \<Rightarrow> t_recved_len t \<le> length (t_buf t b) \<and> t_data_len t b = t_wanted_recv_len t \<and>
          (if t_state t = CONN_CLOSED then 0 < t_wanted_recv_len t
           else t_wanted_recv_len t = next_after PF_MSG_HEAD_SIZE (received_of t)))"

definition server_inv :: "int \<Rightarrow> tcp_conn \<Rightarrow> bool" where
  "server_inv k t \<longleftrightarrow> stream_inv bd_iocb k t \<and> frame_inv t"

lemma frame_cong:
  assumes "t_data_len t' = t_data_len t" "t_recv_q t' = t_recv_q t" "received_of t' = received_of t" "t_recv_bd t' = t_recv_bd t" "t_state t' = t_state t"
    "t_wanted_recv_len t' = t_wanted_recv_len t" "t_recved_len t' = t_recved_len t" "\<And>b. t_recv_bd t = Some b \<Longrightarrow> length (t_buf t' b) = length (t_buf t b)"
  shows "frame_inv t' = frame_inv t"
  using assms by (auto simp: frame_inv_def split: option.split)

lemma frame_close:
  assumes "stream_inv own k t" and "frame_inv t" and "tcp_close t = Some t'"
  shows "frame_inv t'"
proof (cases "t_state t = CONN_OK")
  case True
  have "sem_inv (t_send_q t)" "sem_inv (t_recv_q t)" using assms(1) by (simp_all add: stream_inv_def tcp_inv_def)
  then obtain bds a b where c: "tcp_close t = Some (t\<lparr>t_state := CONN_CLOSED, t_send_bd := None, t_recv_bd := None, t_send_q := a, t_recv_q := b,
      t_done := t_done t @ map Flushed bds, t_ref := t_ref t - int (length bds)\<rparr>)" "eq_list b = []" by (rule tcp_close_eq [OF _ _ True])
  have t': "t' = t\<lparr>t_state := CONN_CLOSED, t_send_bd := None, t_recv_bd := None, t_send_q := a, t_recv_q := b,
      t_done := t_done t @ map Flushed bds, t_ref := t_ref t - int (length bds)\<rparr>" using c(1) assms(3) by simp
  have "received_of t' = received_of t" by (simp add: t' received_of_def flushed_items)
  then show ?thesis using assms(2) c(2) by (simp add: frame_inv_def t')
next
  case False
  then show ?thesis using assms by (simp add: tcp_close_def)
qed

lemma rcv_fit:
  "rcv_with_error_handle bd t = Inr (rc, t1) \<Longrightarrow> t_recved_len t \<le> length (t_buf t bd) \<longrightarrow> t_recved_len t1 \<le> length (t_buf t1 bd)"
  by (induction rule: rcv_induct) (simp_all add: rcv_step_def)

lemma frame_post_recv:
  assumes "tcp_inv k t" and "frame_inv t" and "bd = cmd_bd (bd_iocb bd)"
  shows "frame_inv (snd (tcp_post_recv bd t))"
proof -
  obtain rc q where p: "post_event bd (t_recv_q t) = (rc, q)" by (rule prod.exhaust)
  have q: "if rc = 0 then sem_inv q \<and> eq_list q = eq_list (t_recv_q t) @ [bd] else q = t_recv_q t"
    using sem_post [OF _ p] assms(1) by (simp add: tcp_inv_def)
  let ?t = "snd (tcp_post_recv bd t)"
  have "t_recv_q ?t = q" by (simp add: tcp_post_recv_def p take_bd_def tcp_add_ref_def tcp_dec_ref_def)
  then have "\<forall>b \<in> set (eq_list (t_recv_q ?t)). b = cmd_bd (bd_iocb b)"
    using q assms(2,3) by (auto simp: frame_inv_def split: if_splits)
  moreover have "t_data_len ?t = t_data_len t" "received_of ?t = received_of t" "t_recv_bd ?t = t_recv_bd t" "t_state ?t = t_state t"
    "t_wanted_recv_len ?t = t_wanted_recv_len t" "t_recved_len ?t = t_recved_len t" "t_buf ?t = t_buf t"
    by (simp_all add: tcp_post_recv_def p take_bd_def tcp_add_ref_def tcp_dec_ref_def received_of_def)
  ultimately show ?thesis using assms(2) unfolding frame_inv_def by (simp only: simp_thms)
qed

lemma frame_post_send: "frame_inv (snd (tcp_post_send bd t)) = frame_inv t"
  by (rule frame_cong) (simp_all add: tcp_post_send_def take_bd_def tcp_add_ref_def tcp_dec_ref_def received_of_def split: prod.split)

lemma frame_fill:
  assumes "frame_inv t" and "idle own bd t" and "bd \<noteq> cmd_bd (bd_iocb bd)"
  shows "frame_inv (fill bd bs n t)"
proof -
  have "t_recv_bd t \<noteq> Some bd" using assms(2) by (auto simp: idle_def outs_def)
  moreover have "cmd_bd i \<noteq> bd" for i using assms(3) by auto
  moreover have "received_of (fill bd bs n t) = received_of t" by (simp add: received_of_def fill_def)
  ultimately show ?thesis using assms(1) by (auto simp: frame_inv_def fill_def split: option.split)
qed

lemma frame_pop_recv:
  assumes "frame_inv t" and "t_recv_bd t = None" and "eq_list (t_recv_q t) = bd # eq_list q"
  shows "frame_inv (begin_recv bd (t\<lparr>t_recv_q := q\<rparr>))"
proof -
  have "received_of (begin_recv bd (t\<lparr>t_recv_q := q\<rparr>)) = received_of t" by (simp add: received_of_def begin_recv_def)
  moreover have "t_data_len t bd = PF_MSG_HEAD_SIZE" using assms(1,3) unfolding frame_inv_def by (metis list.set_intros(1))
  ultimately show ?thesis using assms by (auto simp: frame_inv_def begin_recv_def PF_MSG_HEAD_SIZE_def)
qed

lemma frame_recv_io:
  assumes "frame_inv t" and "t_recv_bd t = Some bd" and "rcv_with_error_handle bd t = Inr (rc, t1)"
  shows "frame_inv t1"
proof -
  note f = rcv_step_frame [OF assms(3)]
  have "received_of t1 = received_of t" using f by (simp add: io_frame_def received_of_def)
  then show ?thesis using assms(1,2) f rcv_fit [OF assms(3)] by (simp add: frame_inv_def io_frame_def)
qed

lemma frame_send_io:
  assumes "frame_inv t" and "send_with_error_handle bd t = Inr (rc, t1)"
  shows "frame_inv t1"
proof -
  note f = send_step_frame [OF assms(2)]
  have "frame_inv t1 = frame_inv t" by (rule frame_cong) (use f in \<open>simp_all add: io_frame_def received_of_def\<close>)
  then show ?thesis using assms(1) by simp
qed

text \<open>A buffer was filled: its content has the length the buffers before it ask for.\<close>

lemma frame_received:
  assumes "frame_inv t" and "recv_ok t" and "t_recv_bd t = Some bd" and "t_wanted_recv_len t = t_recved_len t"
    and t2: "t2 = t\<lparr>t_recv_bd := None, t_done := t_done t @ [Received bd c]\<rparr>" and c: "c = take (t_wanted_recv_len t) (t_buf t bd)"
  shows "t_state t \<noteq> CONN_CLOSED \<and> received_of t2 = received_of t @ [c] \<and> chain PF_MSG_HEAD_SIZE (received_of t2) \<and> t_data_len t2 bd = length c"
proof -
  have o: "t_state t \<noteq> CONN_CLOSED" using assms(1-4) by (auto simp: frame_inv_def recv_ok_def)
  have l: "length c = t_wanted_recv_len t" "t_wanted_recv_len t = next_after PF_MSG_HEAD_SIZE (received_of t)" "t_data_len t bd = t_wanted_recv_len t"
    using assms(1,3,4) o c by (simp_all add: frame_inv_def)
  have "received_of t2 = received_of t @ [c]" by (simp add: t2 received_of_def)
  then show ?thesis using assms(1) o l by (simp add: chain_snoc frame_inv_def t2)
qed

lemma frame_reacts:
  assumes "frame_inv t" and "recv_ok t" and "t_recv_bd t = Some bd" and "t_wanted_recv_len t = t_recved_len t"
    and t2: "t2 = t\<lparr>t_recv_bd := None, t_done := t_done t @ [Received bd c]\<rparr>" and c: "c = take (t_wanted_recv_len t) (t_buf t bd)"
    and h: "server_recved t2 bd c = (rc, re)"
  shows "case re of Rx_start bd2 n \<Rightarrow> frame_inv (begin_recv bd2 (set_len bd2 n (take_bd bd2 t2))) | _ \<Rightarrow> frame_inv (react_post re t2)"
proof -
  note r = frame_received [OF assms(1-6)]
  have n: "next_after PF_MSG_HEAD_SIZE (received_of t2) = next_len c" using r by (simp add: next_after_snoc)
  have ch: "chain PF_MSG_HEAD_SIZE (received_of t @ [c])" using r by auto
  have q: "\<forall>i. t_data_len t2 (cmd_bd i) = PF_MSG_HEAD_SIZE" "\<forall>b \<in> set (eq_list (t_recv_q t2)). b = cmd_bd (bd_iocb b)" "t_recv_bd t2 = None" "t_state t2 = t_state t"
    using assms(1) by (simp_all add: frame_inv_def t2)
  show ?thesis
  proof (cases "length c = PF_MSG_HEAD_SIZE")
    case True
    show ?thesis
    proof (cases "IS_WRITE_OP (head_opcode c)")
      case w: True
      let ?d = "data_bd (bd_iocb bd)"
      let ?t = "begin_recv ?d (set_len ?d (Some (head_length c)) (take_bd ?d t2))"
      have "received_of ?t = received_of t2" by (simp add: received_of_def begin_recv_def set_len_def take_bd_def tcp_add_ref_def)
      moreover have "next_len c = head_length c" using True w by (simp add: next_len_def)
      ultimately have "frame_inv ?t" using q r n ch by (simp add: frame_inv_def begin_recv_def set_len_def take_bd_def tcp_add_ref_def)
      then show ?thesis using h True w r by (auto simp: server_recved_def)
    next
      case w: False
      let ?t = "set_len (data_bd (bd_iocb bd)) (Some (head_length c)) t2"
      have "received_of ?t = received_of t2" by (simp add: received_of_def set_len_def)
      moreover have "next_len c = PF_MSG_HEAD_SIZE" using w by (simp add: next_len_def)
      ultimately have "frame_inv ?t" using q r n ch by (simp add: frame_inv_def set_len_def)
      then show ?thesis using h True w r by (auto simp: server_recved_def)
    qed
  next
    case False
    then have "next_len c = PF_MSG_HEAD_SIZE" by (simp add: next_len_def)
    then have "frame_inv t2" using q r n ch by (simp add: frame_inv_def)
    then show ?thesis using h False r by (auto simp: server_recved_def)
  qed
qed

lemma frame_sent:
  assumes "tcp_inv k t2" and "frame_inv t2" and "server_sent status t2 bd c = (rc, re)"
  shows "case re of Rx_start bd2 n \<Rightarrow> frame_inv (begin_send bd2 (set_len bd2 n (take_bd bd2 t2))) | _ \<Rightarrow> frame_inv (react_post re t2)"
proof (cases "rc = 1")
  case True
  then have re: "re = Rx_start (data_bd (bd_iocb bd)) None" using assms(3) by (auto simp: server_sent_def Let_def split: if_splits)
  let ?d = "data_bd (bd_iocb bd)"
  have "frame_inv (begin_send ?d (set_len ?d None (take_bd ?d t2))) = frame_inv t2"
    by (rule frame_cong) (simp_all add: begin_send_def set_len_def take_bd_def tcp_add_ref_def received_of_def)
  then show ?thesis using assms(2) re by simp
next
  case False
  then have "re = Rx_post_recv (cmd_bd (bd_iocb bd))" using assms(3) by (auto simp: server_sent_def Let_def split: if_splits)
  then show ?thesis using frame_post_recv [OF assms(1,2)] by simp
qed

lemma case_both:
  "(case re of Rx_start b n \<Rightarrow> P (f b n) | _ \<Rightarrow> P x) \<Longrightarrow> (case re of Rx_start b n \<Rightarrow> Q (f b n) | _ \<Rightarrow> Q x) \<Longrightarrow>
     (case re of Rx_start b n \<Rightarrow> P (f b n) \<and> Q (f b n) | _ \<Rightarrow> P x \<and> Q x)"
  by (cases re) auto

interpretation sv: conn_keeps server_inv server_use "server_on_tcp_network_done status" for status
proof (unfold_locales, goal_cases)
  case (1 k t)
  then show ?case by (simp add: server_inv_def stream_inv_def)
next
  case (2 k t t')
  then show ?case using stream_close frame_close by (simp add: server_inv_def) blast
next
  case (3 k t bd q)
  have "frame_inv (begin_send bd (t\<lparr>t_send_q := q\<rparr>)) = frame_inv t" by (rule frame_cong) (simp_all add: begin_send_def received_of_def)
  then show ?case using 3 stream_pop_send by (simp add: server_inv_def)
next
  case (4 k t bd q)
  then show ?case using stream_pop_recv frame_pop_recv by (simp add: server_inv_def)
next
  case (5 k t bd rc t1)
  then show ?case using stream_send_io frame_send_io by (simp add: server_inv_def) blast
next
  case (6 k t bd rc t1)
  then show ?case using stream_recv_io frame_recv_io by (simp add: server_inv_def) blast
next
  case (7 k t bd t2 rc re)
  have s: "stream_inv bd_iocb k t" "frame_inv t" using 7(1) by (simp_all add: server_inv_def)
  have i: "tcp_inv (k + 1) t2" using stream_sent [OF s(1) 7(2,3)] 7(4) by (simp add: stream_inv_def)
  have "frame_inv t2 = frame_inv t" unfolding 7(4) by (rule frame_cong) (simp_all add: received_of_def)
  then have "case re of Rx_start bd2 n \<Rightarrow> frame_inv (begin_send bd2 (set_len bd2 n (take_bd bd2 t2))) | _ \<Rightarrow> frame_inv (react_post re t2)"
    using frame_sent [OF i, of status bd] s(2) 7(5) by (simp add: server_on_tcp_network_done_def)
  with sh.st.sent [OF s(1) 7(2-5)] show ?case unfolding server_inv_def by (rule case_both)
next
  case (8 k t bd t2 rc re)
  have s: "stream_inv bd_iocb k t" "frame_inv t" "recv_ok t" using 8(1) by (simp_all add: server_inv_def stream_inv_def)
  have "case re of Rx_start bd2 n \<Rightarrow> frame_inv (begin_recv bd2 (set_len bd2 n (take_bd bd2 t2))) | _ \<Rightarrow> frame_inv (react_post re t2)"
    by (rule frame_reacts [OF s(2,3) 8(2,3,4) refl]) (use 8(5) in \<open>simp add: server_on_tcp_network_done_def\<close>)
  with sh.st.received [OF s(1) 8(2-5)] show ?case unfolding server_inv_def by (rule case_both)
next
  case (9 k t)
  have "frame_inv (tcp_dec_ref t) = frame_inv t" by (rule frame_cong) (simp_all add: tcp_dec_ref_def received_of_def)
  then show ?case using 9 stream_dec by (simp add: server_inv_def)
next
  case (10 k t a b)
  have "frame_inv (t\<lparr>t_readable := a, t_writeable := b\<rparr>) = frame_inv t" for a b by (rule frame_cong) (simp_all add: received_of_def)
  then show ?case using 10 stream_flags by (simp add: server_inv_def)
next
  case (11 k t bs)
  have "frame_inv (arrive bs t) = frame_inv t" by (rule frame_cong) (simp_all add: arrive_def received_of_def)
  then show ?case using 11 stream_arrive by (simp add: server_inv_def)
next
  case (12 k t n bd bs)
  then show ?case using stream_fill frame_fill [of t bd_iocb bd] by (simp add: server_inv_def)
next
  case (13 k t bd)
  then show ?case using stream_post_send frame_post_send by (simp add: server_inv_def)
next
  case (14 k t bd)
  then show ?case using stream_post_recv frame_post_recv stream_tcp_inv by (simp add: server_inv_def) blast
qed

section \<open>The requests of a client\<close>

lemma tcp_new_server:
  assumes "sem_inv sq" "sem_inv rq" "eq_list sq = []" "eq_list rq = []" "\<And>i. len (cmd_bd i) = PF_MSG_HEAD_SIZE"
  shows "server_inv k ((tcp_new sq rq buf len sock)\<lparr>t_state := CONN_OK, t_ref := k\<rparr>)"
  using tcp_new_stream [OF assms(1-4)] assms(4,5) by (simp add: server_inv_def frame_inv_def tcp_new_def received_of_def)

lemma server_run_inv:
  assumes "tcp_init o1 o2 o3 sd rd (tcp_new sq rq buf len sock) = (0, t)" and "0 \<le> sd" and "0 \<le> rd"
    and "\<And>i. len (cmd_bd i) = PF_MSG_HEAD_SIZE"
    and run: "tcp_run server_use (server_on_tcp_network_done status) (t\<lparr>t_state := CONN_OK, t_ref := k\<rparr>) t'"
  shows "server_inv k t'"
proof -
  obtain sq' rq' where q: "t = tcp_new sq' rq' buf len sock" "sem_inv sq'" "sem_inv rq'" "eq_list sq' = []" "eq_list rq' = []"
    using tcp_init_inv [OF assms(1-3)] by blast
  have "server_inv k (t\<lparr>t_state := CONN_OK, t_ref := k\<rparr>)" unfolding q(1) by (rule tcp_new_server [OF q(2-5)]) (rule assms(4))
  then show ?thesis by (rule sv.run_keeps [OF run])
qed

text \<open>
  (C22) A connection of the daemon keeps the order of the bytes. Let the daemon's threads post
  commands for receiving and replies for sending, and fill data and replies, only for requests
  that are not in the connection. After any sequence of posts, arrivals, events and closes, with
  the daemon's own handler, in whatever pieces the socket takes and returns bytes, the contents
  of the buffers that were sent, in the order of their completion, are what went out first, and
  the contents of the buffers that were filled are what came in first. While the connection is
  open nothing else went out but the part of the buffer in work, and nothing else was taken from
  the socket.
\<close>

theorem server_stream_order:
  assumes "tcp_init o1 o2 o3 sd rd (tcp_new sq rq buf len sock) = (0, t)" and "0 \<le> sd" and "0 \<le> rd"
    and "\<And>i. len (cmd_bd i) = PF_MSG_HEAD_SIZE"
    and run: "tcp_run server_use (server_on_tcp_network_done status) (t\<lparr>t_state := CONN_OK, t_ref := k\<rparr>) t'"
  shows "(\<exists>p q. t_out t' = concat (sent_of t') @ p \<and> t_arrived t' = concat (received_of t') @ q @ t_in t') \<and>
    (t_state t' \<noteq> CONN_CLOSED \<longrightarrow> t_out t' = concat (sent_of t') @ out_part t' \<and> t_arrived t' = concat (received_of t') @ in_part t' @ t_in t')"
proof -
  have "send_ok t'" "recv_ok t'" using server_run_inv [OF assms] by (simp_all add: server_inv_def stream_inv_def)
  then show ?thesis by (cases "t_state t' = CONN_CLOSED") (auto simp: send_ok_def recv_ok_def)
qed

text \<open>
  (C21) The daemon receives the requests of a client as they were sent. Let the bytes that come in be the
  start of a sequence of requests, each a head followed, for a write, by as many bytes of data as
  the head says, where no data has the length of a head. Then the buffers that the connection
  filled, in order, are exactly the heads and data of the first requests, whatever pieces the
  socket returns and whatever else is sent, posted or closed meanwhile: heads are never taken
  for data nor data for heads.
\<close>

theorem server_receives_requests:
  assumes "tcp_init o1 o2 o3 sd rd (tcp_new sq rq buf len sock) = (0, t)" and "0 \<le> sd" and "0 \<le> rd"
    and "\<And>i. len (cmd_bd i) = PF_MSG_HEAD_SIZE"
    and run: "tcp_run server_use (server_on_tcp_network_done status) (t\<lparr>t_state := CONN_OK, t_ref := k\<rparr>) t'"
    and rs: "list_all request_ok rs" and "prefix (t_arrived t') (concat (all_frames rs))"
  shows "prefix (received_of t') (all_frames rs)"
proof -
  have i: "recv_ok t'" "chain PF_MSG_HEAD_SIZE (received_of t')"
    using server_run_inv [OF assms(1-5)] by (simp_all add: server_inv_def stream_inv_def frame_inv_def)
  obtain p where "t_arrived t' = concat (received_of t') @ p" using i(1) by (auto simp: recv_ok_def split: if_splits)
  then obtain bs where "concat (all_frames rs) = concat (received_of t') @ bs" using assms(7) by (auto simp: prefix_def)
  then have "all_frames rs = cut_frames PF_MSG_HEAD_SIZE (concat (received_of t') @ bs)" using cut_requests [OF rs] by simp
  then show ?thesis using chain_cut [OF i(2)] by simp
qed

text \<open>
  The data of a write is read without a look at the size of the buffer: when a head with a
  write code and a length beyond the data buffer of its request is in, the connection asks the
  socket for more bytes than the buffer holds.
\<close>

theorem server_write_overruns:
  assumes "t_recv_bd t = Some (cmd_bd i)" and "t_recved_len t = PF_MSG_HEAD_SIZE" and "t_wanted_recv_len t = PF_MSG_HEAD_SIZE"
    and "t_data_len t (cmd_bd i) = PF_MSG_HEAD_SIZE" and "IS_WRITE_OP (head_opcode (take PF_MSG_HEAD_SIZE (t_buf t (cmd_bd i))))"
    and "length (t_buf t (data_bd i)) < head_length (take PF_MSG_HEAD_SIZE (t_buf t (cmd_bd i)))"
  shows "do_receive (server_on_tcp_network_done status) t = Some (Inl Out_of_bounds)"
proof -
  define c where "c = take PF_MSG_HEAD_SIZE (t_buf t (cmd_bd i))"
  define t2 where "t2 = t\<lparr>t_recv_bd := None, t_done := t_done t @ [Received (cmd_bd i) c]\<rparr>"
  define t3 where "t3 = begin_recv (data_bd i) (set_len (data_bd i) (Some (head_length c)) (take_bd (data_bd i) t2))"
  have "rcv_with_error_handle (cmd_bd i) t = Inr (0, t)" using assms(2,3) by (subst rcv_with_error_handle.simps) simp
  moreover have "on_recved (server_on_tcp_network_done status) t2 (cmd_bd i) c = (1, Rx_start (data_bd i) (Some (head_length c)))"
    using assms(4,5) by (simp add: server_on_tcp_network_done_def server_recved_def t2_def c_def)
  moreover have "do_receive (server_on_tcp_network_done status) t3 = Some (Inl Out_of_bounds)"
  proof -
    have "t_recv_bd t3 = Some (data_bd i)" by (simp add: t3_def begin_recv_def)
    moreover have "rcv_with_error_handle (data_bd i) t3 = Inl Out_of_bounds"
      using assms(6) by (subst rcv_with_error_handle.simps) (simp add: t3_def begin_recv_def set_len_def take_bd_def tcp_add_ref_def t2_def c_def)
    ultimately show ?thesis by (subst do_receive.simps) simp
  qed
  ultimately show ?thesis
    using assms(1-3) by (subst do_receive.simps) (simp add: c_def [symmetric] t2_def [symmetric] t3_def [symmetric])
qed

section \<open>Do the loops end?\<close>

text \<open>
  The other reads: when no data has 32 bytes, \<open>do_send\<close> returns. A reply counts twice in
  the work to do, as it may be followed by data.
\<close>

definition send_weight :: "(nat \<Rightarrow> nat) \<Rightarrow> nat \<Rightarrow> nat" where
  "send_weight len b = (if len b = PF_MSG_REPLY_SIZE then 2 else 1)"

definition send_work :: "tcp_conn \<Rightarrow> nat" where
  "send_work t = (case t_send_bd t of None \<Rightarrow> 0 | Some b \<Rightarrow> send_weight (t_data_len t) b) + sum_list (map (send_weight (t_data_len t)) (eq_list (t_send_q t)))"

definition no_data32 :: "tcp_conn \<Rightarrow> bool" where
  "no_data32 t \<longleftrightarrow> (\<forall>i. t_data_len t (data_bd i) \<noteq> PF_MSG_REPLY_SIZE)"

definition send_measure :: "(tcp_conn \<times> tcp_conn) set" where
  "send_measure = inv_image (less_than <*lex*> less_than <*lex*> less_than)
     (\<lambda>t. (send_work t, if t_send_bd t = None then 1 else 0, t_wanted_send_len t - t_sent_len t))"

lemma wf_send_measure: "wf send_measure"
  by (auto simp: send_measure_def)

lemma send_work_cong:
  "t_data_len t' = t_data_len t \<Longrightarrow> t_send_bd t' = t_send_bd t \<Longrightarrow> t_send_q t' = t_send_q t \<Longrightarrow> send_work t' = send_work t \<and> no_data32 t' = no_data32 t"
  by (simp add: send_work_def no_data32_def split: option.split)

lemma work_close:
  assumes "tcp_inv k t" and "tcp_close t = Some t'"
  shows "send_work t' \<le> send_work t \<and> no_data32 t' = no_data32 t"
proof (cases "t_state t = CONN_OK")
  case True
  have "sem_inv (t_send_q t)" "sem_inv (t_recv_q t)" using assms(1) by (simp_all add: tcp_inv_def)
  then obtain bds a b where c: "tcp_close t = Some (t\<lparr>t_state := CONN_CLOSED, t_send_bd := None, t_recv_bd := None, t_send_q := a, t_recv_q := b,
      t_done := t_done t @ map Flushed bds, t_ref := t_ref t - int (length bds)\<rparr>)" "eq_list a = []" by (rule tcp_close_eq [OF _ _ True])
  then show ?thesis using assms(2) by (auto simp: send_work_def no_data32_def)
next
  case False
  then show ?thesis using assms by (simp add: tcp_close_def)
qed

text \<open>What \<open>do_send\<close> promises when it returns: no more work than before, and all done unless the socket is full.\<close>

definition send_done :: "tcp_conn \<Rightarrow> fault + int \<times> tcp_conn \<Rightarrow> bool" where
  "send_done t y \<longleftrightarrow> (\<forall>rc t'. y = Inr (rc, t') \<longrightarrow> send_work t' \<le> send_work t \<and> no_data32 t' \<and>
     (rc = 0 \<longrightarrow> \<not> t_writeable t' \<or> t_send_bd t' = None \<and> eq_list (t_send_q t') = []))"

lemma send_done_mono: "send_done t1 y \<Longrightarrow> send_work t1 \<le> send_work t \<Longrightarrow> send_done t y"
  by (fastforce simp: send_done_def)

lemma do_send_returns_pop:
  assumes IH: "\<And>k t1. (t1, t) \<in> send_measure \<Longrightarrow> server_inv k t1 \<Longrightarrow> no_data32 t1 \<Longrightarrow> \<exists>y. do_send h t1 = Some y \<and> send_done t1 y"
    and h: "h = server_on_tcp_network_done status"
    and i: "server_inv k t" "no_data32 t" and None: "t_send_bd t = None"
  shows "\<exists>y. do_send h t = Some y \<and> send_done t y"
proof -
  have s: "sem_inv (t_send_q t)" using sv.inv [OF i(1)] by (simp add: tcp_inv_def)
  show ?thesis
  proof (cases "eq_list (t_send_q t)")
    case Nil
    then have "do_send h t = Some (Inr (0, t))" using None s by (subst do_send.simps) (simp add: eq_is_empty_iff)
    then show ?thesis using i(2) None Nil by (simp add: send_done_def)
  next
    case (Cons bd xs)
    obtain q where q: "get_event (t_send_q t) = Some (0, Some bd, q)" "sem_inv q" "eq_list q = xs" using sem_get [OF s Cons] .
    let ?t1 = "begin_send bd (t\<lparr>t_send_q := q\<rparr>)"
    have i1: "server_inv k ?t1" by (rule sv.pop_send [OF i(1) None]) (use q Cons in simp_all)
    have w1: "send_work ?t1 = send_work t" using None Cons q(3) by (simp add: send_work_def begin_send_def)
    have "(?t1, t) \<in> send_measure" using None w1 by (simp add: send_measure_def begin_send_def)
    moreover have "no_data32 ?t1" using i(2) by (simp add: no_data32_def begin_send_def)
    ultimately obtain y where y: "do_send h ?t1 = Some y" "send_done ?t1 y" using IH i1 by blast
    have d: "do_send h t = obnd (do_send h ?t1) (\<lambda>(rc, t1). if rc \<noteq> 0 then Some (Inr (rc, t1))
        else if t_writeable t1 then do_send h t1 else Some (Inr (0, t1)))"
      using None q Cons eq_is_empty_iff [OF s] by (subst do_send.simps) simp
    show ?thesis
    proof (cases y)
      case (Inl e)
      then show ?thesis using d y(1) by (simp add: send_done_def)
    next
      case (Inr p)
      obtain rc t1 where p: "p = (rc, t1)" by (rule prod.exhaust)
      have t1: "send_work t1 \<le> send_work t" "no_data32 t1" "rc = 0 \<Longrightarrow> \<not> t_writeable t1 \<or> t_send_bd t1 = None \<and> eq_list (t_send_q t1) = []"
        using y(2) w1 by (simp_all add: send_done_def Inr p)
      have "server_inv k t1" using sv.do_send_keeps [OF y(1)] h i1 Inr p by blast
      then have "tcp_inv k t1" by (rule sv.inv)
      then have "do_send h t1 = Some (Inr (0, t1))" if "t_send_bd t1 = None" "eq_list (t_send_q t1) = []"
        using that by (subst do_send.simps) (simp add: eq_is_empty_iff tcp_inv_def)
      then have "do_send h t = Some (Inr (rc, t1))" using d y(1) t1(3) by (auto simp: Inr p)
      then show ?thesis using t1 by (simp add: send_done_def)
    qed
  qed
qed

lemma do_send_goes_on:
  assumes IH: "\<And>k t1. (t1, t) \<in> send_measure \<Longrightarrow> server_inv k t1 \<Longrightarrow> no_data32 t1 \<Longrightarrow> \<exists>y. do_send h t1 = Some y \<and> send_done t1 y"
    and i: "server_inv (k + 1) t3" "send_work t3 < send_work t" "no_data32 t3"
  shows "\<exists>y. (if t_writeable (tcp_dec_ref t3) then do_send h (tcp_dec_ref t3) else Some (Inr (0, tcp_dec_ref t3))) = Some y \<and> send_done t y"
proof -
  have w: "send_work (tcp_dec_ref t3) < send_work t" "no_data32 (tcp_dec_ref t3)"
    using send_work_cong [of "tcp_dec_ref t3" t3] i(2,3) by (simp_all add: tcp_dec_ref_def)
  then have "(tcp_dec_ref t3, t) \<in> send_measure" by (simp add: send_measure_def)
  then obtain y where "do_send h (tcp_dec_ref t3) = Some y" "send_done (tcp_dec_ref t3) y" using IH [OF _ sv.dec [OF i(1)] w(2)] by blast
  then show ?thesis using send_done_mono [of "tcp_dec_ref t3" y t] w by (auto simp: send_done_def)
qed

lemma do_send_returns_some:
  assumes IH: "\<And>k t1. (t1, t) \<in> send_measure \<Longrightarrow> server_inv k t1 \<Longrightarrow> no_data32 t1 \<Longrightarrow> \<exists>y. do_send h t1 = Some y \<and> send_done t1 y"
    and h: "h = server_on_tcp_network_done status"
    and i: "server_inv k t" "no_data32 t" and Some: "t_send_bd t = Some bd"
  shows "\<exists>y. do_send h t = Some y \<and> send_done t y"
proof (cases "send_with_error_handle bd t")
  case (Inl e)
  then have "do_send h t = Some (Inl e)" using Some by (subst do_send.simps) simp
  then show ?thesis by (simp add: send_done_def)
next
  case (Inr p)
  obtain rc t1 where s: "send_with_error_handle bd t = Inr (rc, t1)" using Inr by (cases p) simp
  note f = send_step_frame [OF s]
  have i1: "server_inv k t1" "t_send_bd t1 = Some bd" using sv.send_io [OF i(1) Some s] f(1) Some by (simp_all add: io_frame_def)
  have le: "t_sent_len t \<le> t_wanted_send_len t" using i(1) Some by (simp add: server_inv_def stream_inv_def send_ok_def)
  have w1: "send_work t1 = send_work t" "no_data32 t1" using send_work_cong [of t1 t] f(1) i(2) by (simp_all add: io_frame_def)
  consider (fail) "rc \<noteq> 0 \<and> rc \<noteq> - EAGAIN" | (part) "rc = 0 \<or> rc = - EAGAIN" "t_wanted_send_len t1 \<noteq> t_sent_len t1"
    | (full) "rc = 0 \<or> rc = - EAGAIN" "t_wanted_send_len t1 = t_sent_len t1" by blast
  then show ?thesis
  proof cases
    case fail
    obtain t2 where t2: "tcp_close t1 = Some t2" by (rule tcp_inv_close [OF sv.inv [OF i1(1)]])
    have "do_send h t = Some (Inr (- ECONNABORTED, t2))" using fail Some s t2 by (subst do_send.simps) simp
    moreover have "send_work t2 \<le> send_work t" "no_data32 t2" using work_close [OF sv.inv [OF i1(1)] t2] w1 by simp_all
    ultimately show ?thesis by (simp add: send_done_def)
  next
    case part
    have d: "do_send h t = (if t_writeable t1 then do_send h t1 else Some (Inr (0, t1)))" using part Some s by (subst do_send.simps) auto
    show ?thesis
    proof (cases "t_writeable t1")
      case True
      have "t_wanted_send_len t1 - t_sent_len t1 < t_wanted_send_len t - t_sent_len t"
        using s part True le by (auto simp: send_with_error_handle_def sock_call_def Let_def split: if_splits)
      then have "(t1, t) \<in> send_measure" using w1(1) Some i1(2) by (simp add: send_measure_def)
      then show ?thesis using IH [OF _ i1(1) w1(2)] d True w1(1) send_done_mono [of t1 _ t] by auto
    next
      case False
      then show ?thesis using d w1 by (simp add: send_done_def)
    qed
  next
    case full
    define c where "c = take (t_wanted_send_len t1) (t_buf t1 bd)"
    define t2 where "t2 = t1\<lparr>t_send_bd := None, t_done := t_done t1 @ [Sent bd c]\<rparr>"
    obtain rc2 re where hr: "on_sent h t2 bd c = (rc2, re)" by (rule prod.exhaust)
    have d: "do_send h t = finish (do_send h) (\<lambda>bd2 n. begin_send bd2 (set_len bd2 n (take_bd bd2 t2))) t_writeable (rc2 < 0) rc2 re t2"
      by (subst do_send.simps) (simp only: Some s option.case sum.case prod.case Let_def c_def [symmetric] t2_def [symmetric] hr, use full in auto)
    have r: "case re of Rx_start bd2 n \<Rightarrow> server_inv (k + 1) (begin_send bd2 (set_len bd2 n (take_bd bd2 t2))) | _ \<Rightarrow> server_inv (k + 1) (react_post re t2)"
      using sv.sent [OF i1 full(2) t2_def [unfolded c_def], of status rc2 re] hr h by (simp add: c_def)
    have w2: "send_work t2 + send_weight (t_data_len t) bd = send_work t" "no_data32 t2" "t_data_len t2 = t_data_len t"
      using w1 f(1) Some i1(2) by (simp_all add: send_work_def t2_def no_data32_def io_frame_def)
    show ?thesis
    proof (cases "rc2 = 1")
      case True
      let ?d = "data_bd (bd_iocb bd)"
      let ?s = "begin_send ?d (set_len ?d None (take_bd ?d t2))"
      have re: "re = Rx_start ?d None" "t_data_len t bd = PF_MSG_REPLY_SIZE"
        using hr True w2(3) by (auto simp: h server_on_tcp_network_done_def server_sent_def Let_def split: if_splits)
      have ws: "send_work ?s < send_work t" "no_data32 ?s"
        using w2 re(2) i(2) by (simp_all add: send_work_def begin_send_def set_len_def take_bd_def tcp_add_ref_def no_data32_def send_weight_def t2_def)
      then have "(?s, t) \<in> send_measure" by (simp add: send_measure_def)
      then obtain y where y: "do_send h ?s = Some y" "send_done ?s y" using IH r ws(2) re(1) by fastforce
      show ?thesis
      proof (cases y)
        case (Inl e)
        then show ?thesis using d y(1) re(1) by (simp add: send_done_def)
      next
        case (Inr p)
        obtain rc3 t3 where p: "p = (rc3, t3)" by (rule prod.exhaust)
        have "server_inv (k + 1) t3" using sv.do_send_keeps [OF y(1)] h r re(1) Inr p by fastforce
        moreover have "send_work t3 < send_work t" "no_data32 t3" using y(2) ws by (auto simp: send_done_def Inr p)
        ultimately have "\<exists>y. (if t_writeable (tcp_dec_ref t3) then do_send h (tcp_dec_ref t3) else Some (Inr (0, tcp_dec_ref t3))) = Some y \<and> send_done t y"
          by (intro do_send_goes_on [OF IH])
        then show ?thesis using d y(1) re(1) True by (simp add: Inr p)
      qed
    next
      case False
      have re: "re = Rx_post_recv (cmd_bd (bd_iocb bd))" "rc2 = 0"
        using hr False by (auto simp: h server_on_tcp_network_done_def server_sent_def Let_def split: if_splits)
      have "send_work (react_post re t2) = send_work t2 \<and> no_data32 (react_post re t2) = no_data32 t2"
        by (rule send_work_cong) (simp_all add: re tcp_post_recv_def take_bd_def tcp_add_ref_def tcp_dec_ref_def split: prod.split)
      then have "send_work (react_post re t2) < send_work t" "no_data32 (react_post re t2)" using w2 by (simp_all add: send_weight_def split: if_splits)
      moreover have "server_inv (k + 1) (react_post re t2)" using r re(1) by simp
      ultimately have "\<exists>y. (if t_writeable (tcp_dec_ref (react_post re t2)) then do_send h (tcp_dec_ref (react_post re t2))
          else Some (Inr (0, tcp_dec_ref (react_post re t2)))) = Some y \<and> send_done t y" by (intro do_send_goes_on [OF IH])
      moreover have "do_send h t = (if t_writeable (tcp_dec_ref (react_post re t2)) then do_send h (tcp_dec_ref (react_post re t2))
          else Some (Inr (0, tcp_dec_ref (react_post re t2))))" unfolding d re by simp
      ultimately show ?thesis by (simp only:)
    qed
  qed
qed

lemma do_send_ends: "server_inv k t \<Longrightarrow> no_data32 t \<Longrightarrow> \<exists>y. do_send (server_on_tcp_network_done status) t = Some y \<and> send_done t y"
proof (induction t arbitrary: k rule: wf_induct_rule [OF wf_send_measure])
  case (1 t)
  show ?case
  proof (cases "t_send_bd t")
    case None
    show ?thesis by (rule do_send_returns_pop [OF _ refl "1.prems" None]) (rule "1.IH")
  next
    case (Some bd)
    show ?thesis by (rule do_send_returns_some [OF _ refl "1.prems" Some]) (rule "1.IH")
  qed
qed

text \<open>
  \<open>do_receive\<close> returns: each round takes bytes from the socket or a buffer from the queue, to
  which the handler of a received buffer never adds.
\<close>

definition part_inv :: "tcp_conn \<Rightarrow> bool" where
  "part_inv t \<longleftrightarrow> (t_recv_bd t \<noteq> None \<longrightarrow> t_recved_len t < t_wanted_recv_len t \<or> t_recved_len t = 0 \<and> t_wanted_recv_len t = 0)"

definition recv_measure :: "(tcp_conn \<times> tcp_conn) set" where
  "recv_measure = inv_image (less_than <*lex*> less_than)
     (\<lambda>t. (length (t_in t), 2 * length (eq_list (t_recv_q t)) + (if t_recv_bd t = None then 0 else 1)))"

lemma wf_recv_measure: "wf recv_measure"
  by (auto simp: recv_measure_def)

definition recv_done :: "tcp_conn \<Rightarrow> fault + int \<times> tcp_conn \<Rightarrow> bool" where
  "recv_done t y \<longleftrightarrow> (\<forall>rc t'. y = Inr (rc, t') \<longrightarrow> length (t_in t') \<le> length (t_in t) \<and> part_inv t')"

lemma recv_done_mono: "recv_done t1 y \<Longrightarrow> length (t_in t1) \<le> length (t_in t) \<Longrightarrow> recv_done t y"
  by (fastforce simp: recv_done_def)

lemma rcv_ends:
  "rcv_with_error_handle bd t = Inr (rc, t1) \<Longrightarrow> t_recved_len t \<le> t_wanted_recv_len t \<longrightarrow>
     (rc = 0 \<longrightarrow> t_recved_len t1 = t_wanted_recv_len t) \<and> (rc \<noteq> 0 \<longrightarrow> t_recved_len t1 < t_wanted_recv_len t) \<and> (rc = - EAGAIN \<longrightarrow> \<not> t_readable t1) \<and>
     length (t_in t1) \<le> length (t_in t) \<and> (t_recved_len t1 \<noteq> t_recved_len t \<longrightarrow> length (t_in t1) < length (t_in t))"
proof (induction rule: rcv_induct)
  case (more t n rc t1)
  have "length (t_in (rcv_step bd n t)) < length (t_in t)" "t_recved_len (rcv_step bd n t) \<le> t_wanted_recv_len t" "t_wanted_recv_len (rcv_step bd n t) = t_wanted_recv_len t"
    using more(1-6) by (simp_all add: rcv_step_def)
  then show ?case using more(7) by auto
qed simp_all

lemma part_close:
  assumes "tcp_inv k t" and "part_inv t" and "tcp_close t = Some t'"
  shows "part_inv t' \<and> t_in t' = t_in t"
proof (cases "t_state t = CONN_OK")
  case True
  have "sem_inv (t_send_q t)" "sem_inv (t_recv_q t)" using assms(1) by (simp_all add: tcp_inv_def)
  then obtain bds a b where c: "tcp_close t = Some (t\<lparr>t_state := CONN_CLOSED, t_send_bd := None, t_recv_bd := None, t_send_q := a, t_recv_q := b,
      t_done := t_done t @ map Flushed bds, t_ref := t_ref t - int (length bds)\<rparr>)" by (rule tcp_close_eq [OF _ _ True])
  then show ?thesis using assms(3) by (auto simp: part_inv_def)
next
  case False
  then show ?thesis using assms by (simp add: tcp_close_def)
qed

lemma do_receive_goes_on:
  assumes IH: "\<And>k t1. (t1, t) \<in> recv_measure \<Longrightarrow> server_inv k t1 \<Longrightarrow> part_inv t1 \<Longrightarrow> \<exists>y. do_receive h t1 = Some y \<and> recv_done t1 y"
    and i: "server_inv (k + 1) t3" "(t3, t) \<in> recv_measure" "part_inv t3"
  shows "\<exists>y. (if t_readable (tcp_dec_ref t3) then do_receive h (tcp_dec_ref t3) else Some (Inr (0, tcp_dec_ref t3))) = Some y \<and> recv_done t y"
proof -
  have w: "(tcp_dec_ref t3, t) \<in> recv_measure" "part_inv (tcp_dec_ref t3)" "length (t_in (tcp_dec_ref t3)) \<le> length (t_in t)"
    using i(2,3) by (auto simp: tcp_dec_ref_def recv_measure_def part_inv_def)
  then obtain y where "do_receive h (tcp_dec_ref t3) = Some y" "recv_done (tcp_dec_ref t3) y" using IH [OF _ sv.dec [OF i(1)]] by blast
  then show ?thesis using recv_done_mono [of "tcp_dec_ref t3" y t] w by (auto simp: recv_done_def)
qed

lemma do_receive_returns_pop:
  assumes IH: "\<And>k t1. (t1, t) \<in> recv_measure \<Longrightarrow> server_inv k t1 \<Longrightarrow> part_inv t1 \<Longrightarrow> \<exists>y. do_receive h t1 = Some y \<and> recv_done t1 y"
    and i: "server_inv k t" and None: "t_recv_bd t = None"
  shows "\<exists>y. do_receive h t = Some y \<and> recv_done t y"
proof -
  have s: "sem_inv (t_recv_q t)" using sv.inv [OF i] by (simp add: tcp_inv_def)
  show ?thesis
  proof (cases "eq_list (t_recv_q t)")
    case Nil
    then have "do_receive h t = Some (Inr (0, t))" using None s by (subst do_receive.simps) (simp add: eq_is_empty_iff)
    then show ?thesis using None by (simp add: recv_done_def part_inv_def)
  next
    case (Cons bd xs)
    obtain q where q: "get_event (t_recv_q t) = Some (0, Some bd, q)" "sem_inv q" "eq_list q = xs" using sem_get [OF s Cons] .
    let ?t1 = "begin_recv bd (t\<lparr>t_recv_q := q\<rparr>)"
    have i1: "server_inv k ?t1" by (rule sv.pop_recv [OF i None]) (use q Cons in simp_all)
    have l: "t_in ?t1 = t_in t" "part_inv ?t1" by (auto simp: begin_recv_def part_inv_def)
    have "(?t1, t) \<in> recv_measure" using None Cons q(3) by (simp add: recv_measure_def begin_recv_def)
    then obtain y where y: "do_receive h ?t1 = Some y" "recv_done ?t1 y" using IH i1 l(2) by blast
    have "do_receive h t = (if t_readable ?t1 then do_receive h ?t1 else Some (Inr (0, ?t1)))"
      using None q Cons eq_is_empty_iff [OF s] by (subst do_receive.simps) (simp add: Let_def)
    then show ?thesis using y l by (auto simp: recv_done_def)
  qed
qed

lemma server_recved_cases:
  assumes "server_recved t bd c = (rc, re)"
  shows "rc \<noteq> - ECONNABORTED \<and> (t_data_len t bd = PF_MSG_HEAD_SIZE \<and> re = Rx_start (data_bd (bd_iocb bd)) (Some (head_length c)) \<or>
     re = Rx_set_len (data_bd (bd_iocb bd)) (head_length c) \<or> re = Rx_none)"
  using assms by (auto simp: server_recved_def split: if_splits)

lemma do_receive_returns_full:
  assumes IH: "\<And>k t1. (t1, t) \<in> recv_measure \<Longrightarrow> server_inv k t1 \<Longrightarrow> part_inv t1 \<Longrightarrow> \<exists>y. do_receive h t1 = Some y \<and> recv_done t1 y"
    and h: "h = server_on_tcp_network_done status" and "part_inv t" and Some: "t_recv_bd t = Some bd"
    and i1: "server_inv k t1" and s: "rcv_with_error_handle bd t = Inr (0, t1)"
  shows "\<exists>y. do_receive h t = Some y \<and> recv_done t y"
proof -
  have e: "t_recved_len t1 = t_wanted_recv_len t" "length (t_in t1) \<le> length (t_in t)" "t_recved_len t1 \<noteq> t_recved_len t \<longrightarrow> length (t_in t1) < length (t_in t)"
    using rcv_ends [OF s] assms(3) Some by (auto simp: part_inv_def)
  have f: "t_recv_bd t1 = Some bd" "t_recv_q t1 = t_recv_q t" "t_wanted_recv_len t1 = t_recved_len t1" "t_data_len t1 = t_data_len t"
    using rcv_step_frame [OF s] Some e(1) by (simp_all add: io_frame_def)
  define c where "c = take (t_wanted_recv_len t1) (t_buf t1 bd)"
  define t2 where "t2 = t1\<lparr>t_recv_bd := None, t_done := t_done t1 @ [Received bd c]\<rparr>"
  obtain rc2 re where hr: "on_recved h t2 bd c = (rc2, re)" by (rule prod.exhaust)
  have d: "do_receive h t = finish (do_receive h) (\<lambda>bd2 n. begin_recv bd2 (set_len bd2 n (take_bd bd2 t2))) t_readable (rc2 = - ECONNABORTED) (- ECONNABORTED) re t2"
    by (subst do_receive.simps) (simp only: Some s option.case sum.case prod.case Let_def c_def [symmetric] t2_def [symmetric] hr, use f(3) in auto)
  have r: "case re of Rx_start bd2 n \<Rightarrow> server_inv (k + 1) (begin_recv bd2 (set_len bd2 n (take_bd bd2 t2))) | _ \<Rightarrow> server_inv (k + 1) (react_post re t2)"
    using sv.received [OF i1 f(1,3) t2_def [unfolded c_def], of status rc2 re] hr h by (simp add: c_def)
  have sr: "server_recved t2 bd c = (rc2, re)" using hr h by (simp add: server_on_tcp_network_done_def)
  note cs = server_recved_cases [OF sr]
  show ?thesis
  proof (cases "\<exists>b n. re = Rx_start b n")
    case True
    let ?d = "data_bd (bd_iocb bd)"
    let ?s = "begin_recv ?d (set_len ?d (Some (head_length c)) (take_bd ?d t2))"
    have re: "re = Rx_start ?d (Some (head_length c))" "t_data_len t2 bd = PF_MSG_HEAD_SIZE" using cs True by auto
    have "t_data_len t1 bd = t_wanted_recv_len t1" using i1 f(1) by (simp add: server_inv_def frame_inv_def)
    then have "t_wanted_recv_len t = PF_MSG_HEAD_SIZE" using re(2) f(3) e(1) by (simp add: t2_def)
    then have "t_recved_len t1 \<noteq> t_recved_len t" using assms(3) Some e(1) by (auto simp: part_inv_def PF_MSG_HEAD_SIZE_def)
    then have less: "length (t_in ?s) < length (t_in t)" using e(3) by (simp add: begin_recv_def set_len_def take_bd_def tcp_add_ref_def t2_def)
    then have "(?s, t) \<in> recv_measure" by (simp add: recv_measure_def)
    moreover have "part_inv ?s" by (auto simp: part_inv_def begin_recv_def)
    ultimately obtain y where y: "do_receive h ?s = Some y" "recv_done ?s y" using IH r re(1) by fastforce
    show ?thesis
    proof (cases y)
      case (Inl e)
      then show ?thesis using d y(1) re(1) by (simp add: recv_done_def)
    next
      case (Inr p)
      obtain rc3 t3 where p: "p = (rc3, t3)" by (rule prod.exhaust)
      have "server_inv (k + 1) t3" using sv.do_receive_keeps [OF y(1)] h r re(1) Inr p by fastforce
      moreover have "(t3, t) \<in> recv_measure" "part_inv t3" using y(2) less by (auto simp: recv_done_def Inr p recv_measure_def)
      ultimately have "\<exists>y. (if t_readable (tcp_dec_ref t3) then do_receive h (tcp_dec_ref t3) else Some (Inr (0, tcp_dec_ref t3))) = Some y \<and> recv_done t y"
        by (intro do_receive_goes_on [OF IH])
      then show ?thesis using d y(1) re(1) cs by (simp add: Inr p)
    qed
  next
    case False
    let ?u = "react_post re t2"
    have "t_in ?u = t_in t1 \<and> t_recv_q ?u = t_recv_q t \<and> t_recv_bd ?u = None" using cs False f(2) by (auto simp: set_len_def t2_def)
    then have "(?u, t) \<in> recv_measure" "part_inv ?u" using e(2) Some by (auto simp: recv_measure_def part_inv_def)
    moreover have "server_inv (k + 1) ?u" using r cs False by auto
    ultimately have "\<exists>y. (if t_readable (tcp_dec_ref ?u) then do_receive h (tcp_dec_ref ?u) else Some (Inr (0, tcp_dec_ref ?u))) = Some y \<and> recv_done t y"
      by (intro do_receive_goes_on [OF IH])
    moreover have "do_receive h t = (if t_readable (tcp_dec_ref ?u) then do_receive h (tcp_dec_ref ?u) else Some (Inr (0, tcp_dec_ref ?u)))"
      unfolding d using cs False by (auto simp: obnd_def)
    ultimately show ?thesis by (simp only:)
  qed
qed

lemma do_receive_returns_some:
  assumes IH: "\<And>k t1. (t1, t) \<in> recv_measure \<Longrightarrow> server_inv k t1 \<Longrightarrow> part_inv t1 \<Longrightarrow> \<exists>y. do_receive h t1 = Some y \<and> recv_done t1 y"
    and h: "h = server_on_tcp_network_done status" and i: "server_inv k t" "part_inv t" and Some: "t_recv_bd t = Some bd"
  shows "\<exists>y. do_receive h t = Some y \<and> recv_done t y"
proof (cases "rcv_with_error_handle bd t")
  case (Inl e)
  then have "do_receive h t = Some (Inl e)" using Some by (subst do_receive.simps) simp
  then show ?thesis by (simp add: recv_done_def)
next
  case (Inr p)
  obtain rc t1 where s: "rcv_with_error_handle bd t = Inr (rc, t1)" using Inr by (cases p) simp
  have i1: "server_inv k t1" by (rule sv.recv_io [OF i(1) Some s])
  have e: "rc \<noteq> 0 \<longrightarrow> t_recved_len t1 < t_wanted_recv_len t1" "rc = - EAGAIN \<longrightarrow> \<not> t_readable t1" "length (t_in t1) \<le> length (t_in t)"
    using rcv_ends [OF s] rcv_step_frame [OF s] i(2) Some by (auto simp: part_inv_def)
  show ?thesis
  proof (cases "rc = 0")
    case True
    show ?thesis by (rule do_receive_returns_full [OF IH h i(2) Some i1 s [unfolded True]])
  next
    case False
    then have p1: "part_inv t1" using e(1) by (simp add: part_inv_def)
    obtain t2 where t2: "tcp_close t1 = Some t2" by (rule tcp_inv_close [OF sv.inv [OF i1]])
    have "do_receive h t = (if rc = - EAGAIN then Some (Inr (0, t1)) else Some (Inr (- ECONNABORTED, t2)))"
      using False Some s t2 e(1,2) by (subst do_receive.simps) simp
    then show ?thesis using part_close [OF sv.inv [OF i1] p1 t2] p1 e(3) by (simp add: recv_done_def)
  qed
qed

lemma do_receive_ends: "server_inv k t \<Longrightarrow> part_inv t \<Longrightarrow> \<exists>y. do_receive (server_on_tcp_network_done status) t = Some y \<and> recv_done t y"
proof (induction t arbitrary: k rule: wf_induct_rule [OF wf_recv_measure])
  case (1 t)
  show ?case
  proof (cases "t_recv_bd t")
    case None
    show ?thesis by (rule do_receive_returns_pop [OF _ "1.prems"(1) None]) (rule "1.IH")
  next
    case (Some bd)
    show ?thesis by (rule do_receive_returns_some [OF _ refl "1.prems" Some]) (rule "1.IH")
  qed
qed

text \<open>
  The loops of a connection of the daemon return. In every state that satisfies the
  invariant of its runs, where no data to send has 32 bytes and a buffer that is being filled
  is not full, \<open>do_send\<close> and \<open>do_receive\<close> return, whatever the socket returns: they stop
  when it has no room or no bytes, or when the queues are empty.
\<close>

theorem server_loops_return:
  assumes "server_inv k t" and "no_data32 t" and "part_inv t"
  shows "(\<exists>y. do_send (server_on_tcp_network_done status) t = Some y) \<and> (\<exists>y. do_receive (server_on_tcp_network_done status) t = Some y)"
  using do_send_ends [OF assms(1,2)] do_receive_ends [OF assms(1,3)] by blast

text \<open>A read of 32 bytes whose reply or data is being sent.\<close>

definition read32 :: "nat \<Rightarrow> tcp_conn \<Rightarrow> bool" where
  "read32 i t \<longleftrightarrow> t_state t \<noteq> CONN_CLOSED \<and> t_writeable t \<and> (\<forall>n. 0 < t_sock t n) \<and>
     t_data_len t (data_bd i) = PF_MSG_REPLY_SIZE \<and> PF_MSG_REPLY_SIZE \<le> length (t_buf t (data_bd i)) \<and> IS_READ_OP (head_opcode (t_buf t (cmd_bd i))) \<and>
     (\<exists>b. t_send_bd t = Some b \<and> bd_iocb b = i \<and> t_data_len t b = PF_MSG_REPLY_SIZE \<and> t_wanted_send_len t = PF_MSG_REPLY_SIZE \<and>
        t_sent_len t \<le> PF_MSG_REPLY_SIZE \<and> PF_MSG_REPLY_SIZE \<le> length (t_buf t b))"

lemma read32_start:
  "read32 i t \<Longrightarrow> read32 i (begin_send (data_bd i) (set_len (data_bd i) None (take_bd (data_bd i) (t\<lparr>t_send_bd := None, t_done := d\<rparr>))))"
  by (simp add: read32_def begin_send_def set_len_def take_bd_def tcp_add_ref_def)

lemma read32_send:
  assumes "read32 i t" and "t_send_bd t = Some b"
  obtains t1 where "send_with_error_handle b t = Inr (0, t1)" and "read32 i t1" and "t_send_bd t1 = Some b"
proof (cases "t_sent_len t < t_wanted_send_len t")
  case True
  let ?n = "min (nat (t_sock t (t_cnt t))) (t_wanted_send_len t - t_sent_len t)"
  let ?t = "t\<lparr>t_cnt := t_cnt t + 1, t_sent_len := t_sent_len t + ?n, t_out := t_out t @ take ?n (drop (t_sent_len t) (t_buf t b))\<rparr>"
  have "send_with_error_handle b t = Inr (0, ?t)" using assms True by (auto simp: read32_def send_with_error_handle_def sock_call_def Let_def)
  moreover have "read32 i ?t" using assms True by (auto simp: read32_def)
  ultimately show ?thesis using that assms(2) by simp
next
  case False
  then have "send_with_error_handle b t = Inr (0, t)" by (simp add: send_with_error_handle_def)
  then show ?thesis using that assms by blast
qed

lemma read32_endless:
  "do_send h t = Some y \<Longrightarrow> h = server_on_tcp_network_done status \<and> (\<forall>t. status t i = MSG_STATUS_SUCCESS) \<longrightarrow> \<not> read32 i t"
proof (erule do_send.raw_induct [rotated], goal_cases)
  case (1 f h t y)
  show ?case
  proof (intro impI notI)
    assume h: "h = server_on_tcp_network_done status \<and> (\<forall>t. status t i = MSG_STATUS_SUCCESS)" and r: "read32 i t"
    have IH: "read32 i t' \<Longrightarrow> f h t' = None" for t' using 1(1) h by (cases "f h t'") blast+
    obtain b where b: "t_send_bd t = Some b" "bd_iocb b = i" "t_data_len t b = PF_MSG_REPLY_SIZE" using r by (auto simp: read32_def)
    obtain t1 where t1: "send_with_error_handle b t = Inr (0, t1)" "read32 i t1" "t_send_bd t1 = Some b" using read32_send [OF r b(1)] .
    have w: "t_writeable t1" "t_data_len t1 b = PF_MSG_REPLY_SIZE" using t1(2,3) by (auto simp: read32_def)
    define c where "c = take (t_wanted_send_len t1) (t_buf t1 b)"
    define t2 where "t2 = t1\<lparr>t_send_bd := None, t_done := t_done t1 @ [Sent b c]\<rparr>"
    have s: "on_sent h t2 b c = (1, Rx_start (data_bd i) None)"
      using h w b(2) t1(2) by (auto simp: server_on_tcp_network_done_def server_sent_def t2_def Let_def read32_def)
    have "read32 i (begin_send (data_bd i) (set_len (data_bd i) None (take_bd (data_bd i) t2)))" unfolding t2_def by (rule read32_start [OF t1(2)])
    then show False using 1(2) IH [OF t1(2)] IH w(1)
      by (simp only: b(1) t1(1) option.case sum.case prod.case Let_def c_def [symmetric] t2_def [symmetric] s) (simp add: obnd_def split: if_splits)
  qed
qed

text \<open>
  A read of 32 bytes never ends. The handler tells the head of a reply from the data by
  the length 32 only. When the reply of a successful read of that length is being sent and the socket
  takes bytes, the data is taken for a head when it is sent, and sent again, for ever:
  \<open>do_send\<close> does not return.
\<close>

theorem server_read_endless:
  assumes "t_send_bd t = Some (reply_bd i)" and "t_data_len t (reply_bd i) = PF_MSG_REPLY_SIZE" and "t_wanted_send_len t = PF_MSG_REPLY_SIZE"
    and "t_sent_len t \<le> PF_MSG_REPLY_SIZE" and "PF_MSG_REPLY_SIZE \<le> length (t_buf t (reply_bd i))"
    and "t_data_len t (data_bd i) = PF_MSG_REPLY_SIZE" and "PF_MSG_REPLY_SIZE \<le> length (t_buf t (data_bd i))"
    and "IS_READ_OP (head_opcode (t_buf t (cmd_bd i)))" and "\<And>t. status t i = MSG_STATUS_SUCCESS"
    and "t_state t = CONN_OK" and "t_writeable t" and "\<And>n. 0 < t_sock t n"
  shows "do_send (server_on_tcp_network_done status) t = None"
proof -
  have "read32 i t" using assms by (simp add: read32_def)
  then show ?thesis using read32_endless [of "server_on_tcp_network_done status" t _ status i] assms(9)
    by (cases "do_send (server_on_tcp_network_done status) t") auto
qed


section \<open>An example\<close>

text \<open>A write of three bytes on a new connection with one command posted.\<close>

definition write_head :: "u8 list" where
  "write_head = (replicate 64 0)[0 := 1, 40 := 3]"

definition sample_server :: tcp_conn where
  "sample_server = snd (tcp_init (0, True, True) (0, True, True) (0, 0, 0) 2 2
     (tcp_new sample_queue sample_queue (\<lambda>b. replicate 64 0) (\<lambda>b. if b = cmd_bd (bd_iocb b) then 64 else 3) (\<lambda>n. 100)))"

definition sample_waiting :: tcp_conn where
  "sample_waiting = arrive (write_head @ [7, 8, 9]) (snd (tcp_post_recv (cmd_bd 0) (sample_server\<lparr>t_state := CONN_OK, t_ref := 1\<rparr>)))"

definition sample_received :: tcp_conn where
  "sample_received = (case on_socket_event (server_on_tcp_network_done (\<lambda>t i. 0)) False True False sample_waiting of Some (Inr t) \<Rightarrow> t | _ \<Rightarrow> sample_waiting)"

lemma write_head_simps: "length write_head = 64" "head_opcode write_head = 1" "head_length write_head = 3" "IS_WRITE_OP 1"
  by (simp_all add: write_head_def head_opcode_def head_length_def IS_WRITE_OP_def WRITE_OP_def)

lemmas sample_server_defs = sample_waiting_def sample_server_def sample_queue_def tcp_init_def tcp_new_def eq_init_def q_init_def Let_def
  tcp_post_recv_def take_bd_def tcp_add_ref_def post_event_def enqueue_nolock_def q_is_full_def q_space_def QUEUE_SPACE_def set_current_def
  eq_current_def eq_other_def eq_is_empty_def q_is_empty_def get_event_def fd_read_def dequeue_def dequeue_nolock_def sock_call_def
  begin_recv_def tcp_dec_ref_def obnd_def arrive_def set_len_def server_on_tcp_network_done_def server_recved_def cmd_bd_def data_bd_def
  bd_iocb_def PF_MSG_HEAD_SIZE_def write_head_simps numeral_2_eq_2

lemma sample_received_ok:
  "on_socket_event (server_on_tcp_network_done (\<lambda>t i. 0)) False True False sample_waiting = Some (Inr sample_received) \<and>
     t_state sample_received = CONN_OK \<and> t_done sample_received = [Received 0 write_head, Received 1 [7, 8, 9]] \<and> t_arrived sample_received = write_head @ [7, 8, 9]"
  by (simp add: sample_received_def on_socket_event_def do_receive.simps rcv_with_error_handle.simps sample_server_defs)

lemma sample_server_init:
  "tcp_init (0, True, True) (0, True, True) (0, 0, 0) 2 2
     (tcp_new sample_queue sample_queue (\<lambda>b. replicate 64 0) (\<lambda>b. if b = cmd_bd (bd_iocb b) then 64 else 3) (\<lambda>n. 100)) = (0, sample_server)"
  by (simp add: sample_server_def sample_queue_def tcp_init_def tcp_new_def eq_init_def q_init_def Let_def)

lemma sample_server_run:
  "tcp_run server_use (server_on_tcp_network_done (\<lambda>t i. 0)) (sample_server\<lparr>t_state := CONN_OK, t_ref := 1\<rparr>) sample_received"
proof -
  have "server_use Use_recv (cmd_bd 0) (sample_server\<lparr>t_state := CONN_OK, t_ref := 1\<rparr>)"
    by (simp add: idle_def outs_def sample_server_defs q_list_def q_count_def QUEUE_COUNT_def)
  then have "tcp_run server_use (server_on_tcp_network_done (\<lambda>t i. 0)) (sample_server\<lparr>t_state := CONN_OK, t_ref := 1\<rparr>) sample_waiting"
    unfolding sample_waiting_def by (intro run_arrive run_post_recv run_start)
  then show ?thesis by (rule run_socket) (use sample_received_ok in blast)
qed

theorem server_stream_order_witness:
  "t_state sample_received \<noteq> CONN_CLOSED \<and> t_out sample_received = concat (sent_of sample_received) @ out_part sample_received \<and>
     t_arrived sample_received = concat (received_of sample_received) @ in_part sample_received @ t_in sample_received \<and>
     received_of sample_received = [write_head, [7, 8, 9]]"
  using server_stream_order [OF sample_server_init _ _ _ sample_server_run] sample_received_ok by (simp add: PF_MSG_HEAD_SIZE_def received_of_def)

theorem server_receives_requests_witness:
  "received_of sample_received = [write_head, [7, 8, 9]] \<and> prefix (received_of sample_received) (all_frames [(write_head, [7, 8, 9])])"
proof -
  have "list_all request_ok [(write_head, [7, 8, 9])]" by (simp add: write_head_simps PF_MSG_HEAD_SIZE_def)
  moreover have "prefix (t_arrived sample_received) (concat (all_frames [(write_head, [7, 8, 9])]))"
    using sample_received_ok by (simp add: write_head_simps)
  ultimately have "prefix (received_of sample_received) (all_frames [(write_head, [7, 8, 9])])"
    by (intro server_receives_requests [OF sample_server_init _ _ _ sample_server_run]) (simp_all only: PF_MSG_HEAD_SIZE_def bd_iocb_simps simp_thms if_True order.refl zero_le_numeral)
  then show ?thesis using sample_received_ok by (simp add: received_of_def)
qed

text \<open>A connection that sends the reply of a read of 32 bytes.\<close>

definition sample_read32 :: tcp_conn where
  "sample_read32 = begin_send (reply_bd 0) (sample_server\<lparr>t_state := CONN_OK, t_writeable := True, t_buf := (\<lambda>b. (replicate 64 0)[0 := 2]), t_data_len := (\<lambda>b. if b = cmd_bd (bd_iocb b) then 64 else 32)\<rparr>)"

lemma sample_read_endless:
  "t_state sample_read32 = CONN_OK \<and> t_send_bd sample_read32 = Some 2 \<and> do_send (server_on_tcp_network_done (\<lambda>t i. 0)) sample_read32 = None"
proof -
  have "t_state sample_read32 = CONN_OK" "t_send_bd sample_read32 = Some (reply_bd 0)"
    by (simp_all add: sample_read32_def begin_send_def sample_server_defs)
  moreover have "do_send (server_on_tcp_network_done (\<lambda>t i. 0)) sample_read32 = None"
    by (rule server_read_endless [where i = 0]) (simp_all add: sample_read32_def begin_send_def sample_server_defs reply_bd_def PF_MSG_REPLY_SIZE_def head_opcode_def IS_READ_OP_def READ_OP_def)
  ultimately show ?thesis by (simp add: reply_bd_def)
qed

end
