(* ===== verification/Spec2Isabelle.thy ===== *)
theory Spec2Isabelle
  imports Fixed_Queue Mem_Pool Volume_Type Bitmap Message Lmt Store_State Meta_Data Redo_Log
    Flash_Store Store_Tables Store_Inv Cow Snapshot Redo_Sim Startup Recovery Volume Dispatcher
    Event_Queue Io_Engine Error_Handler Bg_Task Store_Machine Store_Layout Save_Load Durability Restart
    Connection Replicator Aof Aof_Cache Client Tcp_Connection Tcp_Server
begin

text \<open>
  A verification library for PureFlash, a distributed block store. Its store daemon
  \<open>pfs\<close> keeps replicas of volumes on local disks. A disk is managed by a
  \<^emph>\<open>flash store\<close>: it cuts the disk into objects of 64 MB, maps blocks of volumes to chains
  of objects, one per snapshot, and makes this table persistent with two metadata zones and
  a redo log. Requests come in over connections; the \<^emph>\<open>dispatcher\<close> checks them and
  splits a write into one sub task per replica; local sub tasks are events for the store
  thread, remote ones go to other daemons.

  \<^bold>\<open>Shared conventions\<close> (\<open>Pf_Prelude\<close>). An operation that can end the process returns
  \<open>fault + 'a\<close>: \<open>Inl\<close> is a fatal exit, a failed assertion, a NULL pointer, an index out
  of bounds or an exception. Return codes are integers, negative as in the source. A loop
  that may run forever is a partial function with result \<open>None\<close> for not returning. Words
  have their width. Calls whose outcome is decided outside the program, such as memory
  allocation, \<open>pread\<close> and \<open>pwrite\<close>, are calls of \<open>ext_call\<close>: the device record holds the
  outcome of every such call in order, and theorems hold for all outcomes unless they say
  that calls succeed (\<open>no_err\<close>). Effects on other components (a submitted transfer, a
  completed request, a signal) are appended to the list \<open>acts\<close> of the store.

  \<^bold>\<open>Data structures.\<close>
  \<^item> \<open>Fixed_Queue\<close>: \<open>PfFixedSizeQueue\<close> of \<open>common/include/pf_fixed_size_queue.h\<close>, a ring
    buffer, refined to a bounded FIFO list through the locale \<open>bounded_queue\<close>.
  \<^item> \<open>Mem_Pool\<close>: \<open>ObjectMemoryPool\<close> of \<open>pf_mempool.h\<close>; an object is its slot (locale \<open>obj_pool\<close>).
  \<^item> \<open>Bitmap\<close>: \<open>PfBitmap\<close> of \<open>pfs/include/pf_bitmap.h\<close> as a set of indices.
  \<^item> \<open>Volume_Type\<close>, \<open>Message\<close>: identifiers, layout constants, operation and status codes.
  \<^item> \<open>Lmt\<close>: the chains of \<open>lmt_entry\<close> objects at pointer level
    (\<open>insert_lmt_entry_list\<close>, \<open>delete_matched_entry\<close>), related to operations on lists.

  \<^bold>\<open>The flash store\<close> (\<open>pfs/src/pf_flash_store.cpp\<close>, \<open>pf_redolog.cpp\<close>, \<open>pf_md5.cpp\<close>). The
  record \<open>flash_store\<close> holds the head page, the table \<open>obj_lmt\<close> as an association list in
  iteration order, the two object queues, the entry pool, the log position and phase, the
  state of the compaction, and the device. The device has a typed area for each kind of
  page (head page, log pages, metadata blocks, data).
  \<^item> \<open>Store_State\<close>: head page, zones, positions. \<open>Meta_Data\<close>: serializer, saving and
    loading a metadata zone, the compaction trigger. \<open>Redo_Log\<close>: writing and redoing the
    log. \<open>Flash_Store\<close>: reads, writes, deletion, trimming, the checks after loading.
    \<open>Cow\<close>: copy on write. \<open>Snapshot\<close>: deletion of snapshots. \<open>Startup\<close>: formatting and
    loading a disk, the compaction thread, \<open>process_event\<close>. \<open>Recovery\<close>: recovery of a replica.
  \<^item> \<open>Store_Tables\<close>, \<open>Store_Inv\<close>: the invariant of the tables and that each operation keeps
    it. Every object is once in the table, the free queue or the trim queue; every pool slot
    is free or in one entry; chains are in descending snapshot order.
  \<^item> \<open>Store_Machine\<close>: the step relation \<open>store_step\<close> (events, trimming, deletions, copies,
    compaction rounds) and reachability from a new disk; the invariant holds in every
    reachable state whatever the outcomes of the calls. \<open>Store_Layout\<close>: objects do not
    overlap, and every transfer starts at its place in an object of its own block and stays
    inside it exactly if the request ends in the block, which no code tests; a new disk starts.
  \<^item> \<open>Redo_Sim\<close>: redoing a record acts on the persistent part of the tables (\<open>pview\<close>) as
    the operation that logged it. \<open>Save_Load\<close>: a saved zone loads back. \<open>Durability\<close>: zone
    plus both log zones always determine the tables in memory (\<open>durable\<close>), for every
    operation that logs. \<open>Restart\<close>: compaction keeps this, a new disk establishes it, and
    a start after a crash recovers the tables.

  \<^bold>\<open>The daemon around it.\<close>
  \<^item> \<open>Volume\<close> (\<open>pf_volume.cpp\<close>): volumes, shards, replicas and their replacement.
  \<^item> \<open>Dispatcher\<close> (\<open>pf_dispatcher.cpp\<close>): checks, sub tasks, completion, reference counts.
  \<^item> \<open>Event_Queue\<close>, \<open>Io_Engine\<close> (\<open>common/src\<close>): the two-queue event queue and the batching
    asynchronous engine. \<open>Error_Handler\<close>, \<open>Bg_Task\<close>: reports to the conductor, background tasks;
    the worker of the pool runs step by step and its work may throw.
  \<^item> \<open>Connection\<close> (\<open>pf_connection_pool.cpp\<close>, \<open>pf_connection.h\<close>): connections by address, their
    reference counts and the count of requests in flight; the record \<open>conn_state\<close> is extended
    by its users, and the locale \<open>conn_user\<close> gives them what these operations leave alone.
  \<^item> \<open>Replicator\<close> (\<open>pf_replicator.cpp\<close>, \<open>pf_buffer.cpp\<close>): the thread
    that forwards sub tasks to other daemons, with its slots, reply buffers and
    connections. A ledger counts where each sub task is: no event loses or doubles one.

  \<^item> \<open>Tcp_Connection\<close> (\<open>pf_tcp_connection.cpp\<close>): buffers are sent and received in pieces over a
    socket that may take or return any number of bytes, or fail, in each call. Every buffer
    is completed once, references are balanced, and the bytes keep their order. The locale
    \<open>conn_keeps\<close> carries a property from the elementary steps to the loops and events.
  \<^item> \<open>Tcp_Server\<close> (\<open>pf_server.cpp\<close>, \<open>server_on_tcp_network_done\<close>): the daemon's handler on such a
    connection, an instance of the locales \<open>request_handler\<close> and \<open>conn_keeps\<close>. The bytes are cut into
    the requests of the client; the loops return unless a read of 32 bytes is answered.

  \<^bold>\<open>The client side.\<close>
  \<^item> \<open>Client\<close> (\<open>common/src/pf_client_api.cpp\<close>): submitting, the event handler of a volume
    (\<open>client_process_event\<close>), network completions, the timer, and reopening. The relation
    \<open>client_run\<close> interleaves them from \<open>client_init\<close> on; the requests called back and those
    that hold a slot are always exactly the accepted ones. Replies may have any status and the
    volume's events may come at any time; only the data of a read that is to be reopened, whose
    buffer the source frees to the wrong pool, does not come in.
  \<^item> \<open>Aof\<close> (\<open>pf_aof.cpp\<close>): append-only files on a volume; appending, syncing and opening again
    refine a byte sequence with a durable prefix, and reading returns its bytes.
  \<^item> \<open>Aof_Cache\<close> (\<open>pf_aof_cache.cpp\<close>): the read cache, over the locale \<open>byte_file\<close>, and its
    prefetch as two threads that share a lock.

  \<^bold>\<open>Bounds and fuel.\<close> \<open>load_rest\<close> has the number of pool slots as fuel: each round takes a
  slot, so the pool is exhausted, which is a fault of the source, before the fuel is.
  Theorems about saving assume at most \<open>2 ^ 24\<close> objects (a disk of 1 PB), for which the
  areas of a zone are large enough; those about a new disk at most \<open>2 ^ 31\<close> objects,
  beyond which the object count of the source overflows. The order of table entries is that of
  the association list; the hash map of the source has no fixed one. \<open>restart_recovers\<close> assumes that no
  compaction is asked for while one is pending (\<open>calm\<close>); the source does not ensure this,
  and a second request overwrites records that are still needed.

  \<^bold>\<open>Atomicity.\<close> A step is one handler of the store thread or one round of the compaction
  thread, which holds \<open>md_lock\<close> throughout; requests that the source runs on the store
  thread are not interleaved. Crashes are between steps, or during a compaction, when the
  unused metadata zone may hold anything. Recovery of a replica runs without client
  requests in between. Data written to objects is not part of the crash theorem.

  A step of the client is a whole event, submission, timer round or network completion; the
  source runs them on different threads, which share the slots without locks. A transfer of
  a file is done when it is submitted; those in flight together have disjoint targets. Posting an
  event stores it and counts the file descriptor up in one step. A successful \<open>pread\<close> or
  \<open>pwrite\<close> of the store transfers all bytes.

  \<^bold>\<open>Not modelled.\<close> RDMA verbs, pollers, accepting and opening connections, the queries of the client to the
  conductor and its access to stores on the same host, scrubbing, the REST and
  ZooKeeper interfaces, the SPDK and io_uring engines, the device lock, configuration and
  process start: they are layers over libraries and the kernel, whose outcomes the models
  take as parameters. The former kernel driver and library (\<open>sld\<close>, \<open>S5bd\<close>), the message
  queue broker, the hash table of the C library part and the vendored sources are not part
  of the daemon. The hash function of ISA-L is a parameter (\<open>d_md5\<close>).
\<close>

end
